(* ===== verification/Prelude.thy ===== *)
theory Prelude
  imports Main "HOL-Library.Word" "HOL-Library.List_Lexorder"
begin

unbundle bit_operations_syntax

text \<open>
  Shared material of the development: the names of the machine types of the Rust sources, the
  collections of rewrite rules the components fill, the big-endian value of a byte string, the
  lexicographic order on byte strings (the order of the Rust type \<open>Vec<u8>\<close>), and the two
  interfaces every canonical encoding of the repository is checked against: a self-delimiting
  encoding (\<open>prefix_code\<close>) and an encoding whose byte order is the value order
  (\<open>order_code\<close>).
\<close>

type_synonym u8 = "8 word"
type_synonym u64 = "64 word"
type_synonym u128 = "128 word"
type_synonym bytes = "8 word list"

named_theorems out_simps \<open>the bytes a canonical writer appends\<close>
named_theorems codec_simps \<open>what a decoder returns on an encoded value\<close>

section \<open>Ranges of the signed machine integers\<close>

definition i64_range :: "int \<Rightarrow> bool" where
  "i64_range v \<longleftrightarrow> - (2 ^ 63) \<le> v \<and> v < 2 ^ 63"

definition i128_range :: "int \<Rightarrow> bool" where
  "i128_range v \<longleftrightarrow> - (2 ^ 127) \<le> v \<and> v < 2 ^ 127"

definition u128_range :: "nat \<Rightarrow> bool" where
  "u128_range v \<longleftrightarrow> v < 2 ^ 128"

definition i64_try :: "int \<Rightarrow> int option" where
  "i64_try v = (if i64_range v then Some v else None)"

definition i128_try :: "int \<Rightarrow> int option" where
  "i128_try v = (if i128_range v then Some v else None)"

definition u128_try :: "nat \<Rightarrow> nat option" where
  "u128_try v = (if u128_range v then Some v else None)"

lemma i64_range_i128: "i64_range v \<Longrightarrow> i128_range v"
  by (simp add: i64_range_def i128_range_def)

lemma i128_range_0 [simp]: "i128_range 0"
  by (simp add: i128_range_def)

lemma i128_try_Some [simp]: "i128_try v = Some w \<longleftrightarrow> w = v \<and> i128_range v"
  by (auto simp: i128_try_def)

lemma i128_try_None [simp]: "i128_try v = None \<longleftrightarrow> \<not> i128_range v"
  by (auto simp: i128_try_def)

text \<open>Natural numbers evaluate in unary; the comparison with the bound is done on integers.\<close>

lemma u128_range_code [code]: "u128_range v \<longleftrightarrow> int v < 2 ^ 128"
  unfolding u128_range_def by (metis of_nat_less_iff of_nat_numeral of_nat_power)

lemma u128_try_Some [simp]: "u128_try v = Some w \<longleftrightarrow> w = v \<and> u128_range v"
  by (auto simp: u128_try_def)

lemma u128_try_None [simp]: "u128_try v = None \<longleftrightarrow> \<not> u128_range v"
  by (auto simp: u128_try_def)

section \<open>Results\<close>

definition ok_or :: "'a option \<Rightarrow> 'e \<Rightarrow> 'e + 'a" where
  "ok_or x e = (case x of None \<Rightarrow> Inl e | Some v \<Rightarrow> Inr v)"

lemma ok_or_simps [simp]: "ok_or None e = Inl e" "ok_or (Some v) e = Inr v"
  by (simp_all add: ok_or_def)

lemma ok_or_Inr [simp]: "ok_or x e = Inr v \<longleftrightarrow> x = Some v"
  by (cases x) simp_all

lemma ok_or_Inl [simp]: "ok_or x e = Inl e' \<longleftrightarrow> x = None \<and> e' = e"
  by (cases x) auto

definition and_then :: "'e + 'a \<Rightarrow> ('a \<Rightarrow> 'e + 'b) \<Rightarrow> 'e + 'b" where
  "and_then x f = (case x of Inl e \<Rightarrow> Inl e | Inr v \<Rightarrow> f v)"

lemma and_then_simps [simp]: "and_then (Inl e) f = Inl e" "and_then (Inr v) f = f v"
  by (simp_all add: and_then_def)

lemma and_then_Inr: "and_then x f = Inr w \<longleftrightarrow> (\<exists>v. x = Inr v \<and> f v = Inr w)"
  by (cases x) simp_all

lemma and_then_Inl: "and_then x f = Inl e \<longleftrightarrow> x = Inl e \<or> (\<exists>v. x = Inr v \<and> f v = Inl e)"
  by (cases x) simp_all

lemma and_then_weak_cong: "x = y \<Longrightarrow> and_then x f = and_then y f"
  by simp

lemma and_then_cong [fundef_cong]:
  "x = y \<Longrightarrow> (\<And>v. y = Inr v \<Longrightarrow> f v = g v) \<Longrightarrow> and_then x f = and_then y g"
  by (cases y) simp_all

section \<open>Big-endian values of byte strings\<close>

definition be_val :: "bytes \<Rightarrow> nat" where
  "be_val bs = foldl (\<lambda>v b. v * 256 + unat b) 0 bs"

lemma be_val_foldl:
  "foldl (\<lambda>v b. v * 256 + unat b) a bs = a * 256 ^ length bs + be_val bs" for bs :: bytes
proof (induction bs arbitrary: a)
  case Nil
  then show ?case by (simp add: be_val_def)
next
  case (Cons b bs)
  have "be_val (b # bs) = unat b * 256 ^ length bs + be_val bs"
    using Cons[of "unat b"] by (simp add: be_val_def)
  moreover have "foldl (\<lambda>v b. v * 256 + unat b) (a * 256 + unat b) bs
      = (a * 256 + unat b) * 256 ^ length bs + be_val bs"
    by (rule Cons)
  ultimately show ?case by (simp add: algebra_simps)
qed

lemma be_val_Nil [simp]: "be_val [] = 0"
  by (simp add: be_val_def)

lemma be_val_Cons: "be_val (b # bs) = unat b * 256 ^ length bs + be_val bs"
  using be_val_foldl[of "unat b" bs] by (simp add: be_val_def)

lemma be_val_append: "be_val (as @ bs) = be_val as * 256 ^ length bs + be_val bs"
  using be_val_foldl[of "be_val as" bs] by (simp add: be_val_def)

lemma be_val_snoc: "be_val (bs @ [b]) = be_val bs * 256 + unat b"
  by (simp add: be_val_append be_val_Cons)

lemma unat_u8_less [simp]: "unat (b :: u8) < 256"
  using unsigned_less[of b] by simp

lemma be_val_less: "be_val bs < 256 ^ length bs"
proof (induction bs)
  case (Cons b bs)
  have "be_val (b # bs) < (unat b + 1) * 256 ^ length bs"
    using Cons by (simp add: be_val_Cons algebra_simps)
  also have "\<dots> \<le> 256 * 256 ^ length bs"
    by (rule mult_le_mono1) (use unat_u8_less[of b] in linarith)
  finally show ?case by simp
qed simp

lemma be_val_lower:
  assumes "bs \<noteq> []" "hd bs \<noteq> 0"
  shows "256 ^ (length bs - 1) \<le> be_val bs"
proof -
  obtain b cs where bs: "bs = b # cs" using assms(1) by (cases bs) auto
  have "1 \<le> unat b" using assms(2) bs
    by (metis One_nat_def Suc_leI list.sel(1) unat_gt_0)
  then have "1 * 256 ^ length cs \<le> unat b * 256 ^ length cs + be_val cs"
    by (intro trans_le_add1 mult_le_mono1)
  then show ?thesis unfolding bs be_val_Cons by (simp only: list.size mult_1) simp
qed

lemma be_val_dropWhile_0: "be_val (dropWhile (\<lambda>b. b = 0) bs) = be_val bs"
  by (induction bs) (simp_all add: be_val_Cons)

text \<open>On strings of equal length the lexicographic order is the order of the values.\<close>

lemma be_val_less_iff:
  assumes "length as = length bs"
  shows "be_val as < be_val bs \<longleftrightarrow> as < bs"
  using assms
proof (induction as bs rule: list_induct2)
  case Nil
  then show ?case by simp
next
  case (Cons a as b bs)
  have la: "be_val as < 256 ^ length bs" and lb: "be_val bs < 256 ^ length bs"
    using be_val_less[of as] be_val_less[of bs] Cons.hyps by simp_all
  consider "unat a < unat b" | "unat a = unat b" | "unat b < unat a" by linarith
  then show ?case
  proof cases
    case 1
    then have "(unat a + 1) * 256 ^ length bs \<le> unat b * 256 ^ length bs"
      by (intro mult_le_mono1) simp
    then have "be_val (a # as) < be_val (b # bs)"
      using la Cons.hyps by (simp add: be_val_Cons)
    moreover have "a < b" using 1 by (simp add: word_less_nat_alt)
    ultimately show ?thesis by simp
  next
    case 2
    then have "a = b" by (rule unsigned_word_eqI)
    then show ?thesis using Cons by (simp add: be_val_Cons)
  next
    case 3
    then have "(unat b + 1) * 256 ^ length bs \<le> unat a * 256 ^ length bs"
      by (intro mult_le_mono1) simp
    then have "be_val (b # bs) < be_val (a # as)"
      using lb Cons.hyps by (simp add: be_val_Cons)
    moreover have "b < a" using 3 by (simp add: word_less_nat_alt)
    ultimately show ?thesis by auto
  qed
qed

lemma be_val_inj: "length as = length bs \<Longrightarrow> be_val as = be_val bs \<Longrightarrow> as = bs"
  using be_val_less_iff[of as bs] be_val_less_iff[of bs as] by (metis linorder_neqE_nat neq_iff less_irrefl)

text \<open>The value of a string without a leading zero byte determines its length.\<close>

lemma be_val_length_less:
  assumes "length as < length bs" "hd bs \<noteq> 0"
  shows "be_val as < be_val bs"
proof -
  have "be_val as < 256 ^ length as" by (rule be_val_less)
  also have "(256::nat) ^ length as \<le> 256 ^ (length bs - 1)"
    using assms(1) by (intro power_increasing) simp_all
  also have "\<dots> \<le> be_val bs"
    using assms by (intro be_val_lower) auto
  finally show ?thesis .
qed

lemma be_val_mono_iff:
  assumes "hd as \<noteq> 0" "hd bs \<noteq> 0"
  shows "be_val as < be_val bs \<longleftrightarrow>
    length as < length bs \<or> length as = length bs \<and> as < bs"
  using assms be_val_length_less[of as bs] be_val_length_less[of bs as] be_val_less_iff[of as bs]
  by (metis linorder_neqE_nat order_less_asym)

section \<open>Bytewise complement\<close>

lemma unat_not_u8: "unat (NOT (b :: u8)) = 255 - unat b"
proof -
  have "NOT b = 255 - b"
    by (simp add: not_eq_complement)
  moreover have "b \<le> 255"
    unfolding word_le_nat_alt using unat_u8_less[of b] by (simp del: unat_u8_less)
  ultimately show ?thesis
    by (simp add: unat_sub)
qed

lemma not_u8_less [simp]: "NOT (a :: u8) < NOT b \<longleftrightarrow> b < a"
proof -
  have "unat a < 256" "unat b < 256" by simp_all
  then show ?thesis
    by (simp only: word_less_nat_alt unat_not_u8) linarith
qed

lemma not_u8_eq [simp]: "NOT (a :: u8) = NOT b \<longleftrightarrow> a = b"
  by (metis bit.double_compl)

lemma map_not_not [simp]: "map (\<lambda>b. NOT b) (map (\<lambda>b. NOT (b :: u8)) bs) = bs"
  by (simp add: o_def)

text \<open>
  Complementing reverses the order of two strings neither of which is a prefix of the other; for
  strings of equal length this is unconditional.
\<close>

lemma map_not_less:
  assumes "length as = length (bs :: bytes)"
  shows "map (\<lambda>b. NOT b) as < map (\<lambda>b. NOT b) bs \<longleftrightarrow> bs < as"
  using assms by (induction as bs rule: list_induct2) auto

section \<open>Interfaces of the canonical encodings\<close>

text \<open>
  A uniquely readable encoding: whatever follows, an encoded value can be split off a byte string
  in one way only. This is what makes the concatenation of encodings injective, and so what the
  identities computed from concatenated encodings rest on.
\<close>

locale unique_code =
  fixes enc :: "'a \<Rightarrow> bytes"
    and ok :: "'a \<Rightarrow> bool"
  assumes unique_readable: "ok v \<Longrightarrow> ok w \<Longrightarrow> enc v @ xs = enc w @ ys \<Longrightarrow> v = w \<and> xs = ys"
begin

lemma append_eq_iff: "ok v \<Longrightarrow> ok w \<Longrightarrow> enc v @ xs = enc w @ ys \<longleftrightarrow> v = w \<and> xs = ys"
  using unique_readable by blast

lemma enc_inj: "ok v \<Longrightarrow> ok w \<Longrightarrow> enc v = enc w \<longleftrightarrow> v = w"
  using unique_readable[of v w "[]" "[]"] by auto

lemma not_proper_prefix: "ok v \<Longrightarrow> ok w \<Longrightarrow> enc w = enc v @ xs \<Longrightarrow> xs = [] \<and> v = w"
  using unique_readable[of v w xs "[]"] by auto

lemma concat_eq_iff:
  assumes "length vs = length ws" "list_all ok vs" "list_all ok ws"
  shows "concat (map enc vs) @ xs = concat (map enc ws) @ ys \<longleftrightarrow> vs = ws \<and> xs = ys"
  using assms
proof (induction vs ws rule: list_induct2)
  case (Cons v vs w ws)
  then show ?case using append_eq_iff[of v w] by auto
qed simp

end

text \<open>
  A self-delimiting encoding with its decoder: the decoder recovers the value from any buffer that
  starts with its encoding and reports how many bytes it used. It is uniquely readable.
\<close>

locale prefix_code =
  fixes enc :: "'a \<Rightarrow> bytes"
    and dec :: "bytes \<Rightarrow> 'e + ('a \<times> nat)"
    and ok :: "'a \<Rightarrow> bool"
  assumes dec_enc: "ok v \<Longrightarrow> dec (enc v @ rest) = Inr (v, length (enc v))"
begin

lemma dec_unique:
  assumes "ok v" "ok w" "enc v @ xs = enc w @ ys"
  shows "v = w \<and> xs = ys"
proof -
  have "dec (enc v @ xs) = Inr (v, length (enc v))" using assms(1) by (rule dec_enc)
  moreover have "dec (enc w @ ys) = Inr (w, length (enc w))" using assms(2) by (rule dec_enc)
  ultimately have "v = w" using assms(3) by simp
  with assms(3) show ?thesis by simp
qed

end

sublocale prefix_code \<subseteq> unique_code enc ok
  by unfold_locales (rule dec_unique)

text \<open>
  An order-preserving encoding in addition makes the byte order of the encodings the order of the
  values. Together with self-delimitation the order survives whatever follows the encoding.
\<close>

lemma append_less_of_no_prefix:
  fixes as bs :: "'b :: linorder list"
  assumes "as < bs" "\<not> (\<exists>zs. bs = as @ zs)"
  shows "as @ xs < bs @ ys"
  using assms
proof (induction as arbitrary: bs)
  case Nil
  then show ?case by auto
next
  case (Cons a as)
  then obtain b cs where bs: "bs = b # cs" by (cases bs) auto
  then show ?case using Cons by auto
qed

locale order_code = prefix_code enc dec ok
  for enc :: "'a :: linorder \<Rightarrow> bytes" and dec :: "bytes \<Rightarrow> 'e + ('a \<times> nat)" and ok :: "'a \<Rightarrow> bool" +
  assumes enc_less: "ok v \<Longrightarrow> ok w \<Longrightarrow> v < w \<Longrightarrow> enc v < enc w"
begin

lemma enc_less_iff: "ok v \<Longrightarrow> ok w \<Longrightarrow> enc v < enc w \<longleftrightarrow> v < w"
  using enc_less[of v w] enc_less[of w v] by (metis linorder_less_linear order_less_asym)

lemma enc_append_less:
  assumes "ok v" "ok w" "v < w"
  shows "enc v @ xs < enc w @ ys"
proof (rule append_less_of_no_prefix)
  show "enc v < enc w" using assms by (rule enc_less)
  show "\<not> (\<exists>zs. enc w = enc v @ zs)" using assms not_proper_prefix[of v w] by auto
qed

end

end
