(* ===== verification/Canon_Int.thy ===== *)
theory Canon_Int
  imports Prelude
begin

unbundle bit_operations_syntax

text \<open>
  The order-preserving minimal-length integer encoding of
  \<open>crates/brix-canon/src/int_codec.rs\<close>: \<open>encode_uint\<close>, \<open>decode_uint\<close>, \<open>encode_int\<close>
  and \<open>decode_int\<close>, with \<open>u128\<close> as a 128-bit word (the decoder's shift-and-or loop works on
  it), and \<open>i128\<close> as an integer in its range. The theory shows that both encodings are
  self-delimiting, that the decoders accept exactly the encodings (one encoding per value), and
  that byte order is numeric order.
\<close>

datatype canon_error = UnexpectedEof | NonMinimalInt | BadLength

definition INT_ZERO_CATEGORY :: u8 where "INT_ZERO_CATEGORY = 0x80"

definition MAX_MAG_LEN :: nat where "MAX_MAG_LEN = 16"

definition to_be_bytes_u128 :: "u128 \<Rightarrow> bytes" where
  "to_be_bytes_u128 v = map (\<lambda>i. ucast (drop_bit (8 * i) v)) (rev [0..<16])"

text \<open>The slice of the big-endian bytes from the first nonzero byte on.\<close>

definition mag_bytes :: "u128 \<Rightarrow> bytes" where
  "mag_bytes v = dropWhile (\<lambda>b. b = 0) (to_be_bytes_u128 v)"

definition encode_uint :: "u128 \<Rightarrow> bytes \<Rightarrow> bytes" where
  "encode_uint v out =
     (if v = 0 then out @ [0]
      else let mag = mag_bytes v in (out @ [word_of_nat (length mag)]) @ mag)"

text \<open>The accumulation loop \<open>v = (v << 8) | b\<close> over the magnitude bytes.\<close>

definition be_fold :: "bytes \<Rightarrow> u128" where
  "be_fold mag = foldl (\<lambda>v b. push_bit 8 v OR ucast b) 0 mag"

definition decode_uint :: "bytes \<Rightarrow> canon_error + (u128 \<times> nat)" where
  "decode_uint buf =
     (case buf of
        [] \<Rightarrow> Inl UnexpectedEof
      | b # rest \<Rightarrow>
          let len = unat b in
          if len = 0 then Inr (0, 1)
          else if len > MAX_MAG_LEN then Inl BadLength
          else if length rest < len then Inl UnexpectedEof
          else let mag = take len rest in
            if hd mag = 0 then Inl NonMinimalInt
            else Inr (be_fold mag, 1 + len))"

definition unsigned_abs_i128 :: "int \<Rightarrow> u128" where
  "unsigned_abs_i128 v = word_of_int \<bar>v\<bar>"

definition encode_int :: "int \<Rightarrow> bytes \<Rightarrow> bytes" where
  "encode_int v out =
     (if v = 0 then out @ [INT_ZERO_CATEGORY]
      else let mag = mag_bytes (unsigned_abs_i128 v); len = word_of_nat (length mag) in
        if v < 0 then (out @ [INT_ZERO_CATEGORY - len]) @ map (\<lambda>b. NOT b) mag
        else (out @ [INT_ZERO_CATEGORY + len]) @ mag)"

definition decode_int :: "bytes \<Rightarrow> canon_error + (int \<times> nat)" where
  "decode_int buf =
     (case buf of
        [] \<Rightarrow> Inl UnexpectedEof
      | cat # rest \<Rightarrow>
          if cat = INT_ZERO_CATEGORY then Inr (0, 1)
          else if cat > INT_ZERO_CATEGORY then
            let len = unat (cat - INT_ZERO_CATEGORY) in
            if len = 0 \<or> len > MAX_MAG_LEN then Inl BadLength
            else if length rest < len then Inl UnexpectedEof
            else let mag = take len rest in
              if hd mag = 0 then Inl NonMinimalInt
              else (case i128_try (uint (be_fold mag)) of
                      None \<Rightarrow> Inl BadLength
                    | Some v \<Rightarrow> Inr (v, 1 + len))
          else
            let len = unat (INT_ZERO_CATEGORY - cat) in
            if len = 0 \<or> len > MAX_MAG_LEN then Inl BadLength
            else if length rest < len then Inl UnexpectedEof
            else let cb = take len rest in
              if hd cb = 0xFF then Inl NonMinimalInt
              else let mag = be_fold (map (\<lambda>b. NOT b) cb) in
                if mag = push_bit 127 1 then Inr (- (2 ^ 127), 1 + len)
                else (case i128_try (uint mag) of
                        None \<Rightarrow> Inl BadLength
                      | Some v \<Rightarrow> Inr (- v, 1 + len)))"

abbreviation uint_bytes :: "u128 \<Rightarrow> bytes" where
  "uint_bytes v \<equiv> encode_uint v []"

abbreviation int_bytes :: "int \<Rightarrow> bytes" where
  "int_bytes v \<equiv> encode_int v []"

lemma encode_uint_append: "encode_uint v out = out @ uint_bytes v"
  by (simp add: encode_uint_def Let_def)

lemma encode_int_append: "encode_int v out = out @ int_bytes v"
  by (simp add: encode_int_def Let_def)

section \<open>Magnitude bytes\<close>

lemma be_val_word_bytes:
  "be_val (map (\<lambda>i. ucast (drop_bit (8 * i) (v :: u128))) (rev [0..<n])) = unat v mod 256 ^ n"
proof (induction n)
  case (Suc n)
  have b: "unat (ucast (drop_bit (8 * n) v) :: u8) = (unat v div 256 ^ n) mod 256"
    by (simp only: unsigned_ucast_eq unat_drop_bit_eq)
      (simp add: drop_bit_eq_div take_bit_eq_mod power_mult)
  have "unat v mod 256 ^ Suc n = (unat v div 256 ^ n mod 256) * 256 ^ n + unat v mod 256 ^ n"
    using mod_mult2_eq[of "unat v" "256 ^ n" 256] by (simp add: mult.commute)
  then show ?case using Suc by (simp add: be_val_Cons b)
qed simp

lemma be_val_to_be_bytes: "be_val (to_be_bytes_u128 v) = unat v"
proof -
  have "unat v < 256 ^ 16" using unsigned_less[of v] by simp
  then show ?thesis by (simp add: to_be_bytes_u128_def be_val_word_bytes del: upt_Suc)
qed

lemma be_val_mag_bytes [simp]: "be_val (mag_bytes v) = unat v"
  by (simp add: mag_bytes_def be_val_dropWhile_0 be_val_to_be_bytes)

lemma length_mag_bytes: "length (mag_bytes v) \<le> 16"
  unfolding mag_bytes_def
  by (rule order_trans[OF length_dropWhile_le]) (simp add: to_be_bytes_u128_def del: upt_Suc)

lemma mag_bytes_ne: "v \<noteq> 0 \<Longrightarrow> mag_bytes v \<noteq> []"
  using be_val_mag_bytes[of v] by (metis be_val_Nil unat_eq_zero)

lemma hd_mag_bytes: "v \<noteq> 0 \<Longrightarrow> hd (mag_bytes v) \<noteq> 0"
  using mag_bytes_ne[of v] hd_dropWhile[of "\<lambda>b. b = 0" "to_be_bytes_u128 v"]
  unfolding mag_bytes_def by simp

lemma unat_len_mag [simp]: "unat (word_of_nat (length (mag_bytes v)) :: u8) = length (mag_bytes v)"
  using length_mag_bytes[of v] by (simp add: unat_of_nat)

lemma length_mag_pos: "v \<noteq> 0 \<Longrightarrow> 0 < length (mag_bytes v)"
  using mag_bytes_ne by auto

lemma mag_facts:
  assumes "v \<noteq> 0"
  shows "mag_bytes v \<noteq> []" "hd (mag_bytes v) \<noteq> 0" "length (mag_bytes v) \<le> 16"
    "0 < length (mag_bytes v)"
  using assms by (simp_all add: mag_bytes_ne hd_mag_bytes length_mag_bytes)

section \<open>The accumulation loop\<close>

lemma shift_or_unat:
  fixes v :: u128 and b :: u8
  assumes "unat v < 2 ^ 120"
  shows "unat (push_bit 8 v OR ucast b) = unat v * 256 + unat b"
proof -
  have bit8: "bit (ucast b :: u128) n \<Longrightarrow> n < 8" for n
    using bit_imp_le_length[of b n] by (simp add: bit_ucast_iff)
  have "push_bit 8 v OR ucast b = push_bit 8 v + ucast b"
    by (rule disjunctive_add[symmetric]) (auto simp: bit_push_bit_iff dest: bit8)
  moreover have "unat (push_bit 8 v) = unat v * 256"
    using assms by (simp only: unsigned_push_bit_eq) (simp add: push_bit_eq_mult take_bit_eq_mod)
  moreover have "unat (ucast b :: u128) = unat b"
    using unat_u8_less[of b] by (simp add: unsigned_ucast_eq take_bit_eq_mod del: unat_u8_less)
  moreover have "unat v * 256 + unat b < 2 ^ 128"
    using assms unat_u8_less[of b] by (simp del: unat_u8_less)
  ultimately show ?thesis
    by (simp add: unat_word_ariths)
qed

lemma unat_be_fold: "length mag \<le> 16 \<Longrightarrow> unat (be_fold mag) = be_val mag"
proof (induction mag rule: rev_induct)
  case Nil
  then show ?case by (simp add: be_fold_def)
next
  case (snoc b bs)
  have "be_val bs < 256 ^ length bs" by (rule be_val_less)
  also have "(256::nat) ^ length bs \<le> 256 ^ 15"
    using snoc.prems by (intro power_increasing) simp_all
  also have "(256::nat) ^ 15 = 2 ^ 120" by simp
  finally have lt: "unat (be_fold bs) < 2 ^ 120" using snoc by simp
  have "be_fold (bs @ [b]) = push_bit 8 (be_fold bs) OR ucast b"
    by (simp add: be_fold_def)
  then show ?case using snoc lt by (simp add: shift_or_unat be_val_snoc)
qed

lemma be_fold_mag_bytes [simp]: "be_fold (mag_bytes v) = v"
  by (simp add: word_unat_eq_iff unat_be_fold length_mag_bytes)

lemma mag_bytes_be_fold:
  assumes "length mag \<le> 16" "mag \<noteq> []" "hd mag \<noteq> 0"
  shows "mag_bytes (be_fold mag) = mag"
proof -
  have v: "unat (be_fold mag) = be_val mag" using assms(1) by (rule unat_be_fold)
  have "0 < be_val mag"
    using be_val_lower[OF assms(2,3)] by (metis less_le_trans zero_less_power zero_less_numeral)
  then have "be_fold mag \<noteq> 0" using v by auto
  then have h: "hd (mag_bytes (be_fold mag)) \<noteq> 0" by (rule hd_mag_bytes)
  have e: "be_val (mag_bytes (be_fold mag)) = be_val mag" by (simp add: v)
  have "length (mag_bytes (be_fold mag)) = length mag"
    using be_val_length_less[OF _ h, of mag] be_val_length_less[OF _ assms(3)] e
    by (metis less_irrefl linorder_neqE_nat)
  then show ?thesis using e by (rule be_val_inj)
qed

section \<open>Unsigned integers\<close>

lemma uint_bytes_nonzero: "v \<noteq> 0 \<Longrightarrow> uint_bytes v = word_of_nat (length (mag_bytes v)) # mag_bytes v"
  by (simp add: encode_uint_def Let_def)

lemma uint_bytes_0: "uint_bytes 0 = [0]"
  by (simp add: encode_uint_def)

lemma decode_encode_uint: "decode_uint (uint_bytes v @ rest) = Inr (v, length (uint_bytes v))"
proof (cases "v = 0")
  case True
  then show ?thesis by (simp add: uint_bytes_0 decode_uint_def)
next
  case False
  then show ?thesis using mag_facts[of v]
    by (simp add: uint_bytes_nonzero decode_uint_def MAX_MAG_LEN_def)
qed

lemma decode_uint_complete:
  assumes "decode_uint buf = Inr (v, n)"
  shows "\<exists>rest. buf = uint_bytes v @ rest \<and> n = length (uint_bytes v)"
proof -
  from assms obtain b rest where buf: "buf = b # rest"
    by (cases buf) (auto simp: decode_uint_def)
  show ?thesis
  proof (cases "unat b = 0")
    case True
    then have "b = 0" by (simp add: unat_eq_0)
    then show ?thesis using assms by (simp add: buf decode_uint_def uint_bytes_0)
  next
    case False
    let ?mag = "take (unat b) rest"
    have c: "unat b \<le> 16" "unat b \<le> length rest" "hd ?mag \<noteq> 0" "v = be_fold ?mag" "n = 1 + unat b"
      using assms False
      by (auto simp: buf decode_uint_def Let_def MAX_MAG_LEN_def split: if_splits)
    then have m: "mag_bytes v = ?mag"
      using False by (auto intro!: mag_bytes_be_fold)
    have "v \<noteq> 0"
      using m c(2,3) be_val_lower[of ?mag] be_val_mag_bytes[of v] False by force
    then have "uint_bytes v = b # ?mag"
      using c(2) by (simp add: uint_bytes_nonzero m min_absorb2)
    then show ?thesis using c by (auto simp: buf intro!: exI[of _ "drop (unat b) rest"])
  qed
qed

lemma uint_bytes_mono: "v < w \<Longrightarrow> uint_bytes v < uint_bytes w"
proof -
  assume vw: "v < w"
  then have w: "w \<noteq> 0" by auto
  have lw: "length (mag_bytes w) \<le> 16" "0 < length (mag_bytes w)" using mag_facts[OF w] by simp_all
  show ?thesis
  proof (cases "v = 0")
    case True
    then show ?thesis using w lw
      by (auto simp: uint_bytes_0 uint_bytes_nonzero word_less_nat_alt)
  next
    case False
    have "be_val (mag_bytes v) < be_val (mag_bytes w)"
      using vw by (simp add: word_less_nat_alt)
    then have "length (mag_bytes v) < length (mag_bytes w) \<or>
        length (mag_bytes v) = length (mag_bytes w) \<and> mag_bytes v < mag_bytes w"
      by (subst (asm) be_val_mono_iff) (use False w hd_mag_bytes in auto)
    then show ?thesis using False w
      by (auto simp: uint_bytes_nonzero word_less_nat_alt)
  qed
qed

interpretation uint_code: order_code uint_bytes decode_uint "\<lambda>_. True"
  by unfold_locales (simp_all add: decode_encode_uint uint_bytes_mono)

lemma length_uint_bytes: "1 \<le> length (uint_bytes v) \<and> length (uint_bytes v) \<le> 17"
  using length_mag_bytes[of v] by (cases "v = 0") (simp_all add: uint_bytes_0 uint_bytes_nonzero)

section \<open>Signed integers\<close>

lemma uint_unsigned_abs: "i128_range v \<Longrightarrow> uint (unsigned_abs_i128 v) = \<bar>v\<bar>"
  unfolding unsigned_abs_i128_def i128_range_def uint_word_of_int
  by (rule mod_pos_pos_trivial) auto

lemma unat_unsigned_abs: "i128_range v \<Longrightarrow> unat (unsigned_abs_i128 v) = nat \<bar>v\<bar>"
  using uint_unsigned_abs[of v] by (metis nat_uint_eq)

lemma unsigned_abs_nonzero: "i128_range v \<Longrightarrow> v \<noteq> 0 \<Longrightarrow> unsigned_abs_i128 v \<noteq> 0"
  using uint_unsigned_abs[of v] by auto

abbreviation abs_bytes :: "int \<Rightarrow> bytes" where
  "abs_bytes v \<equiv> mag_bytes (unsigned_abs_i128 v)"

lemma int_bytes_0: "int_bytes 0 = [INT_ZERO_CATEGORY]"
  by (simp add: encode_int_def)

lemma int_bytes_pos:
  "0 < v \<Longrightarrow> int_bytes v = (INT_ZERO_CATEGORY + word_of_nat (length (abs_bytes v))) # abs_bytes v"
  by (simp add: encode_int_def Let_def)

lemma int_bytes_neg:
  "v < 0 \<Longrightarrow> int_bytes v =
     (INT_ZERO_CATEGORY - word_of_nat (length (abs_bytes v))) # map (\<lambda>b. NOT b) (abs_bytes v)"
  by (simp add: encode_int_def Let_def)

lemma unat_cat_pos:
  "l \<le> 16 \<Longrightarrow> unat (INT_ZERO_CATEGORY + word_of_nat l) = 128 + l"
  by (simp add: INT_ZERO_CATEGORY_def unat_word_ariths unat_of_nat)

lemma unat_cat_neg:
  assumes "l \<le> 16"
  shows "unat (INT_ZERO_CATEGORY - word_of_nat l) = 128 - l"
proof -
  have "unat (word_of_nat l :: u8) = l" using assms by (simp add: unat_of_nat)
  moreover from this have "word_of_nat l \<le> INT_ZERO_CATEGORY"
    using assms by (simp add: word_le_nat_alt INT_ZERO_CATEGORY_def)
  ultimately show ?thesis
    by (simp add: unat_sub) (simp add: INT_ZERO_CATEGORY_def)
qed

lemma unat_zero_cat: "unat INT_ZERO_CATEGORY = 128"
  by (simp add: INT_ZERO_CATEGORY_def)

lemma not_eq_FF_iff: "NOT (b :: u8) = 0xFF \<longleftrightarrow> b = 0"
proof -
  have "(0xFF :: u8) = NOT 0" by simp
  then show ?thesis by (metis not_u8_eq)
qed

lemma not_eq_0_iff: "NOT (b :: u8) = 0 \<longleftrightarrow> b = 0xFF"
proof -
  have "(0 :: u8) = NOT 0xFF" by simp
  then show ?thesis by (metis not_u8_eq)
qed

lemma decode_int_pos_step:
  assumes "INT_ZERO_CATEGORY < cat" "unat (cat - INT_ZERO_CATEGORY) = length mag"
    "mag \<noteq> []" "length mag \<le> 16" "hd mag \<noteq> 0"
  shows "decode_int (cat # mag @ rest) =
    (case i128_try (uint (be_fold mag)) of None \<Rightarrow> Inl BadLength | Some v \<Rightarrow> Inr (v, 1 + length mag))"
proof -
  have "cat \<noteq> INT_ZERO_CATEGORY" using assms(1) by auto
  then show ?thesis
    unfolding decode_int_def using assms by (simp add: MAX_MAG_LEN_def)
qed

lemma decode_int_neg_step:
  assumes "cat < INT_ZERO_CATEGORY" "unat (INT_ZERO_CATEGORY - cat) = length cb"
    "cb \<noteq> []" "length cb \<le> 16" "hd cb \<noteq> 0xFF"
  shows "decode_int (cat # cb @ rest) =
    (if be_fold (map (\<lambda>b. NOT b) cb) = push_bit 127 1 then Inr (- (2 ^ 127), 1 + length cb)
     else (case i128_try (uint (be_fold (map (\<lambda>b. NOT b) cb))) of
         None \<Rightarrow> Inl BadLength | Some v \<Rightarrow> Inr (- v, 1 + length cb)))"
proof -
  have "cat \<noteq> INT_ZERO_CATEGORY" "\<not> INT_ZERO_CATEGORY < cat" using assms(1) by auto
  then show ?thesis
    unfolding decode_int_def using assms(2-) by (simp add: MAX_MAG_LEN_def)
qed

lemma decode_encode_int:
  assumes v: "i128_range v"
  shows "decode_int (int_bytes v @ rest) = Inr (v, length (int_bytes v))"
proof -
  consider "v = 0" | "0 < v" | "v < 0" by linarith
  then show ?thesis
  proof cases
    case 1
    then show ?thesis by (simp add: int_bytes_0 decode_int_def)
  next
    case 2
    have m: "abs_bytes v \<noteq> []" "length (abs_bytes v) \<le> 16" "hd (abs_bytes v) \<noteq> 0"
      using 2 v by (simp_all add: unsigned_abs_nonzero mag_facts)
    have c: "INT_ZERO_CATEGORY < INT_ZERO_CATEGORY + word_of_nat (length (abs_bytes v))"
      using m unat_cat_pos[OF m(2)] by (simp add: word_less_nat_alt unat_zero_cat)
    have "uint (unsigned_abs_i128 v) = v" using 2 v by (simp add: uint_unsigned_abs)
    then show ?thesis
      using decode_int_pos_step[OF c _ m, of rest] 2 v by (simp add: int_bytes_pos i128_try_def)
  next
    case 3
    have m: "abs_bytes v \<noteq> []" "length (abs_bytes v) \<le> 16" "hd (abs_bytes v) \<noteq> 0"
      using 3 v by (simp_all add: unsigned_abs_nonzero mag_facts)
    have c: "INT_ZERO_CATEGORY - word_of_nat (length (abs_bytes v)) < INT_ZERO_CATEGORY"
      using m unat_cat_neg[OF m(2)] by (simp add: word_less_nat_alt unat_zero_cat)
    have h: "hd (map (\<lambda>b. NOT b) (abs_bytes v)) \<noteq> 0xFF"
      using m by (simp add: hd_map not_eq_FF_iff)
    have u: "uint (unsigned_abs_i128 v) = - v" using 3 v by (simp add: uint_unsigned_abs)
    have p: "uint (push_bit 127 1 :: u128) = 2 ^ 127" by simp
    have q: "unsigned_abs_i128 v = push_bit 127 1 \<longleftrightarrow> v = - (2 ^ 127)"
      unfolding word_uint_eq_iff u p by linarith
    have "decode_int (int_bytes v @ rest) =
        (if v = - (2 ^ 127) then Inr (- (2 ^ 127), 1 + length (abs_bytes v))
         else case i128_try (- v) of None \<Rightarrow> Inl BadLength
            | Some x \<Rightarrow> Inr (- x, 1 + length (abs_bytes v)))"
      using decode_int_neg_step[OF c _ _ _ h, of rest] m
      unfolding int_bytes_neg[OF 3] append_Cons map_not_not length_map be_fold_mag_bytes q u by simp
    also have "\<dots> = Inr (v, length (int_bytes v))"
      using v 3 by (auto simp: i128_try_def i128_range_def int_bytes_neg)
    finally show ?thesis .
  qed
qed

lemma i128_range_uminus_uint: "i128_range (uint w) \<Longrightarrow> i128_range (- uint w)"
  using uint_ge_0[of w] unfolding i128_range_def by linarith

lemma i128_range_min: "i128_range (- 170141183460469231731687303715884105728)"
  by (simp add: i128_range_def)

lemma decode_int_complete:
  assumes "decode_int buf = Inr (v, n)"
  shows "i128_range v \<and> (\<exists>rest. buf = int_bytes v @ rest \<and> n = length (int_bytes v))"
proof -
  obtain cat rest where buf: "buf = cat # rest"
    using assms by (cases buf) (auto simp: decode_int_def)
  have min128: "uint (push_bit 127 1 :: u128) = 2 ^ 127" by simp
  consider "cat = INT_ZERO_CATEGORY" | "INT_ZERO_CATEGORY < cat" | "cat < INT_ZERO_CATEGORY"
    by (meson linorder_neqE)
  then show ?thesis
  proof cases
    case 1
    then show ?thesis using assms by (simp add: buf decode_int_def int_bytes_0)
  next
    case 2
    define l where "l = unat (cat - INT_ZERO_CATEGORY)"
    define mag where "mag = take l rest"
    have r: "l \<noteq> 0" "l \<le> 16" "l \<le> length rest" "hd mag \<noteq> 0" "n = 1 + l"
      "v = uint (be_fold mag)" "i128_range v"
      using assms 2 unfolding buf decode_int_def l_def[symmetric] mag_def
      by (auto simp: Let_def l_def[symmetric] MAX_MAG_LEN_def split: if_splits option.splits)
    have m: "mag_bytes (be_fold mag) = mag"
      using r by (intro mag_bytes_be_fold) (auto simp: mag_def)
    have "be_fold mag \<noteq> 0"
      using m r be_val_lower[of mag] be_val_mag_bytes[of "be_fold mag"] by (force simp: mag_def)
    then have v: "0 < v" using r(6) by (metis uint_0_iff uint_ge_0 order_le_less)
    have "abs_bytes v = mag"
      using r(6) m v by (simp add: unsigned_abs_i128_def)
    moreover have "INT_ZERO_CATEGORY + word_of_nat (length mag) = cat"
      using r by (simp add: mag_def l_def min_absorb2)
    ultimately have "int_bytes v = cat # mag" using v by (simp add: int_bytes_pos)
    then show ?thesis
      using r by (auto simp: buf mag_def intro!: exI[of _ "drop l rest"])
  next
    case 3
    define l where "l = unat (INT_ZERO_CATEGORY - cat)"
    define mag where "mag = map (\<lambda>b. NOT b) (take l rest)"
    have lm: "length mag = min (length rest) l" by (simp add: mag_def)
    have r: "l \<noteq> 0" "l \<le> 16" "l \<le> length rest" "hd (take l rest) \<noteq> 0xFF" "n = 1 + l"
      "v = - uint (be_fold mag)" "i128_range v"
      using assms 3 unfolding buf decode_int_def l_def[symmetric] mag_def
      by (auto simp: Let_def l_def[symmetric] MAX_MAG_LEN_def i128_range_uminus_uint i128_range_min split: if_splits option.splits)
    have h: "hd mag \<noteq> 0"
      using r(1,3,4) unfolding mag_def by (subst hd_map) (auto simp: not_eq_0_iff)
    have m: "mag_bytes (be_fold mag) = mag"
      using r h lm by (intro mag_bytes_be_fold) auto
    have "be_fold mag \<noteq> 0"
      using m r h lm be_val_lower[of mag] be_val_mag_bytes[of "be_fold mag"] by force
    then have v: "v < 0" using r(6) by (metis uint_0_iff uint_ge_0 order_le_less neg_less_0_iff_less)
    have "abs_bytes v = mag"
      using r(6) m v by (simp add: unsigned_abs_i128_def)
    moreover have "INT_ZERO_CATEGORY - word_of_nat (length mag) = cat"
      using r lm by (simp add: l_def min_absorb2)
    moreover have "map (\<lambda>b. NOT b) mag = take l rest"
      unfolding mag_def by (rule map_not_not)
    ultimately have "int_bytes v = cat # take l rest" using v by (simp add: int_bytes_neg)
    then show ?thesis
      using r by (auto simp: buf intro!: exI[of _ "drop l rest"])
  qed
qed

lemma abs_bytes_mono_iff:
  assumes "i128_range v" "i128_range w" "v \<noteq> 0" "w \<noteq> 0"
  shows "\<bar>v\<bar> < \<bar>w\<bar> \<longleftrightarrow> length (abs_bytes v) < length (abs_bytes w) \<or>
    length (abs_bytes v) = length (abs_bytes w) \<and> abs_bytes v < abs_bytes w"
  using assms by (subst be_val_mono_iff[symmetric])
    (simp_all add: hd_mag_bytes unsigned_abs_nonzero unat_unsigned_abs nat_less_eq_zless)

lemma int_bytes_mono:
  assumes v: "i128_range v" and w: "i128_range w" and vw: "v < w"
  shows "int_bytes v < int_bytes w"
proof -
  have lv: "length (abs_bytes v) \<le> 16" and lw: "length (abs_bytes w) \<le> 16"
    by (rule length_mag_bytes)+
  have pv: "0 < length (abs_bytes v)" if "v \<noteq> 0"
    using that v by (simp add: unsigned_abs_nonzero mag_bytes_ne)
  have pw: "0 < length (abs_bytes w)" if "w \<noteq> 0"
    using that w by (simp add: unsigned_abs_nonzero mag_bytes_ne)
  note cats = unat_cat_pos[OF lv] unat_cat_pos[OF lw] unat_cat_neg[OF lv] unat_cat_neg[OF lw]
    unat_zero_cat
  consider "v < 0" "0 < w" | "v < 0" "w = 0" | "v = 0" "0 < w" | "0 < v" "0 < w" | "v < 0" "w < 0"
    using vw by linarith
  then show ?thesis
  proof cases
    case 1
    then have "INT_ZERO_CATEGORY - word_of_nat (length (abs_bytes v))
        < INT_ZERO_CATEGORY + word_of_nat (length (abs_bytes w))"
      unfolding word_less_nat_alt cats using pw by linarith
    then show ?thesis using 1 by (simp add: int_bytes_neg int_bytes_pos)
  next
    case 2
    then have "INT_ZERO_CATEGORY - word_of_nat (length (abs_bytes v)) < INT_ZERO_CATEGORY"
      unfolding word_less_nat_alt cats using pv lv by linarith
    then show ?thesis using 2 by (simp add: int_bytes_neg int_bytes_0)
  next
    case 3
    then have "INT_ZERO_CATEGORY < INT_ZERO_CATEGORY + word_of_nat (length (abs_bytes w))"
      unfolding word_less_nat_alt cats using pw by linarith
    then show ?thesis using 3 by (simp add: int_bytes_pos int_bytes_0)
  next
    case 4
    then have "length (abs_bytes v) < length (abs_bytes w) \<or>
        length (abs_bytes v) = length (abs_bytes w) \<and> abs_bytes v < abs_bytes w"
      using vw v w by (subst abs_bytes_mono_iff[symmetric]) simp_all
    then have "INT_ZERO_CATEGORY + word_of_nat (length (abs_bytes v))
          < INT_ZERO_CATEGORY + word_of_nat (length (abs_bytes w)) \<or>
        length (abs_bytes v) = length (abs_bytes w) \<and> abs_bytes v < abs_bytes w"
      unfolding word_less_nat_alt cats by linarith
    then show ?thesis using 4 by (auto simp: int_bytes_pos)
  next
    case 5
    then have "length (abs_bytes w) < length (abs_bytes v) \<or>
        length (abs_bytes w) = length (abs_bytes v) \<and> abs_bytes w < abs_bytes v"
      using vw v w by (subst abs_bytes_mono_iff[symmetric]) simp_all
    then have "INT_ZERO_CATEGORY - word_of_nat (length (abs_bytes v))
          < INT_ZERO_CATEGORY - word_of_nat (length (abs_bytes w)) \<or>
        length (abs_bytes w) = length (abs_bytes v) \<and> abs_bytes w < abs_bytes v"
      unfolding word_less_nat_alt cats using lv lw by linarith
    then show ?thesis using 5 by (auto simp: int_bytes_neg map_not_less)
  qed
qed

interpretation int_code: order_code int_bytes decode_int i128_range
  by unfold_locales (simp_all add: decode_encode_int int_bytes_mono)

lemma length_int_bytes: "1 \<le> length (int_bytes v) \<and> length (int_bytes v) \<le> 17"
  using length_mag_bytes[of "unsigned_abs_i128 v"] by (auto simp: encode_int_def Let_def)

section \<open>Properties\<close>

text \<open>
  The unsigned and the signed integer codec are exact: a decoder accepts a buffer with value
  \<open>v\<close> and length \<open>n\<close> precisely when the buffer starts with the one encoding of \<open>v\<close> and
  \<open>n\<close> is its length. So every encoding is read back, with anything behind it, and no other byte
  string (padded, over-long or out of range) is accepted for any value.
\<close>

theorem int_codecs_exact:
  "(decode_uint buf = Inr (v, n) \<longleftrightarrow>
      (\<exists>rest. buf = encode_uint v [] @ rest) \<and> n = length (encode_uint v [])) \<and>
   (decode_int buf = Inr (i, k) \<longleftrightarrow>
      i128_range i \<and> (\<exists>rest. buf = encode_int i [] @ rest) \<and> k = length (encode_int i []))"
  using decode_encode_uint decode_uint_complete decode_encode_int decode_int_complete by blast

text \<open>
  Both integer encodings preserve order: byte strings compare lexicographically as the numbers
  do, over the whole of \<open>u128\<close> and \<open>i128\<close>, and whatever follows the encodings.
\<close>

theorem int_codecs_ordered:
  assumes "i128_range i" "i128_range j"
  shows "(encode_uint v [] < encode_uint w [] \<longleftrightarrow> v < w) \<and>
    (encode_int i [] < encode_int j [] \<longleftrightarrow> i < j) \<and>
    (v < w \<longrightarrow> encode_uint v [] @ xs < encode_uint w [] @ ys) \<and>
    (i < j \<longrightarrow> encode_int i [] @ xs < encode_int j [] @ ys)"
  using uint_code.enc_less_iff[of v w] int_code.enc_less_iff[of i j] uint_code.enc_append_less[of v w xs ys]
    int_code.enc_append_less[of i j xs ys] assms by blast

theorem int_codecs_ordered_witness:
  "encode_int (- (2 ^ 127)) [] < encode_int (- 256) [] \<and> encode_uint 255 [] < encode_uint 256 []"
proof -
  have "i128_range (- (2 ^ 127))" "i128_range (- 256)" by (simp_all add: i128_range_def)
  from int_codecs_ordered[OF this, of 255 256] show ?thesis by simp
qed

end
