(* ===== verification/Canon_Writer.thy ===== *)
theory Canon_Writer
  imports Canon_Int "HOL-Library.Multiset"
begin

unbundle bit_operations_syntax

text \<open>
  The canonical writer, reader and digests of \<open>crates/brix-canon/src/lib.rs\<close>. A
  \<open>CanonWriter\<close> is a record with its byte buffer, every \<open>write_*\<close> method is a function on
  it; a \<open>CanonReader\<close> is a record with the buffer and the read position, every \<open>read_*\<close>
  method returns its result and the reader it leaves behind. A Rust \<open>&str\<close> is its UTF-8 byte
  sequence, an Isabelle \<open>string\<close>. Two third-party functions are parameters: \<open>blake3\<close>
  (the hash of the concatenated updates) and \<open>nfc\<close> (Unicode normalisation). Lengths and
  positions are natural numbers; the conversions to \<open>u64\<close> are written out.
\<close>

section \<open>Strings, domains, digests\<close>

definition as_bytes :: "string \<Rightarrow> bytes" where
  "as_bytes s = map of_char s"

definition CANON_VERSION :: string where "CANON_VERSION = ''canon/1''"

datatype domain = Node | Edge | Claim | Snapshot | Value | State

fun domain_tag :: "domain \<Rightarrow> string" where
  "domain_tag Node = ''node''"
| "domain_tag Edge = ''edge''"
| "domain_tag Claim = ''claim''"
| "domain_tag Snapshot = ''snapshot''"
| "domain_tag Value = ''value''"
| "domain_tag State = ''state''"

text \<open>A digest is a 32-byte string; \<open>wf_digest\<close> is the length of the Rust array type.\<close>

type_synonym digest = bytes

definition wf_digest :: "digest \<Rightarrow> bool" where
  "wf_digest d \<longleftrightarrow> length d = 32"

definition digest_preimage :: "domain \<Rightarrow> bytes \<Rightarrow> bytes" where
  "digest_preimage d payload =
     as_bytes CANON_VERSION @ as_bytes '':'' @ as_bytes (domain_tag d) @ as_bytes '':'' @ payload"

definition digest_of :: "(bytes \<Rightarrow> bytes) \<Rightarrow> domain \<Rightarrow> bytes \<Rightarrow> digest" where
  "digest_of blake3 d payload = blake3 (digest_preimage d payload)"

definition from_digit16 :: "nat \<Rightarrow> char" where
  "from_digit16 n = (if n < 10 then char_of (48 + n) else char_of (87 + n))"

definition to_hex :: "digest \<Rightarrow> string" where
  "to_hex d = concat (map (\<lambda>b. [from_digit16 (unat (drop_bit 4 b)), from_digit16 (unat (b AND 0xf))]) d)"

section \<open>The writer\<close>

record canon_writer =
  buf :: bytes

definition canon_new :: canon_writer where
  "canon_new = \<lparr>buf = []\<rparr>"

definition finish :: "canon_writer \<Rightarrow> bytes" where
  "finish w = buf w"

definition writer_digest :: "(bytes \<Rightarrow> bytes) \<Rightarrow> canon_writer \<Rightarrow> domain \<Rightarrow> digest" where
  "writer_digest blake3 w d = digest_of blake3 d (buf w)"

definition write_raw :: "bytes \<Rightarrow> canon_writer \<Rightarrow> canon_writer" where
  "write_raw b w = w\<lparr>buf := buf w @ b\<rparr>"

definition write_uint :: "u64 \<Rightarrow> canon_writer \<Rightarrow> canon_writer" where
  "write_uint v w = w\<lparr>buf := encode_uint (ucast v) (buf w)\<rparr>"

definition write_uint128 :: "u128 \<Rightarrow> canon_writer \<Rightarrow> canon_writer" where
  "write_uint128 v w = w\<lparr>buf := encode_uint v (buf w)\<rparr>"

definition write_int :: "int \<Rightarrow> canon_writer \<Rightarrow> canon_writer" where
  "write_int v w = w\<lparr>buf := encode_int v (buf w)\<rparr>"

definition write_int128 :: "int \<Rightarrow> canon_writer \<Rightarrow> canon_writer" where
  "write_int128 v w = w\<lparr>buf := encode_int v (buf w)\<rparr>"

definition write_bytes :: "bytes \<Rightarrow> canon_writer \<Rightarrow> canon_writer" where
  "write_bytes b w =
     (let w = write_uint (word_of_nat (length b)) w in w\<lparr>buf := buf w @ b\<rparr>)"

definition nfc_cow :: "(string \<Rightarrow> string) \<Rightarrow> string \<Rightarrow> string" where
  "nfc_cow nfc s = (if list_all (\<lambda>c. (of_char c :: nat) < 128) s then s else nfc s)"

definition write_ident :: "(string \<Rightarrow> string) \<Rightarrow> string \<Rightarrow> canon_writer \<Rightarrow> canon_writer" where
  "write_ident nfc s w = write_bytes (as_bytes (nfc_cow nfc s)) w"

definition write_str :: "string \<Rightarrow> canon_writer \<Rightarrow> canon_writer" where
  "write_str s w = write_bytes (as_bytes s) w"

definition write_tag :: "string \<Rightarrow> canon_writer \<Rightarrow> canon_writer" where
  "write_tag tag w = write_bytes (as_bytes tag) w"

definition write_bool :: "bool \<Rightarrow> canon_writer \<Rightarrow> canon_writer" where
  "write_bool b w = w\<lparr>buf := buf w @ [if b then 1 else 0]\<rparr>"

definition write_unit :: "canon_writer \<Rightarrow> canon_writer" where
  "write_unit w = w\<lparr>buf := buf w @ [0]\<rparr>"

definition write_char :: "32 word \<Rightarrow> canon_writer \<Rightarrow> canon_writer" where
  "write_char c w = write_uint (ucast c) w"

definition write_enum ::
  "u64 \<Rightarrow> (canon_writer \<Rightarrow> canon_writer) \<Rightarrow> canon_writer \<Rightarrow> canon_writer" where
  "write_enum ordinal payload w = payload (write_uint ordinal w)"

fun write_record_entries :: "(bytes \<times> bytes) list \<Rightarrow> canon_writer \<Rightarrow> canon_writer" where
  "write_record_entries [] w = w"
| "write_record_entries ((name, value) # es) w =
     write_record_entries es (write_raw value (write_bytes name w))"

definition write_record ::
  "(string \<Rightarrow> string) \<Rightarrow> (string \<times> bytes) list \<Rightarrow> canon_writer \<Rightarrow> canon_writer" where
  "write_record nfc flds w =
     (let entries = map (\<lambda>(name, value). (as_bytes (nfc_cow nfc name), value)) flds;
          entries = sort_key fst entries
      in write_record_entries entries (write_uint (word_of_nat (length entries)) w))"

fun write_each :: "bytes list \<Rightarrow> canon_writer \<Rightarrow> canon_writer" where
  "write_each [] w = w"
| "write_each (e # es) w = write_each es (write_bytes e w)"

definition write_list :: "bytes list \<Rightarrow> canon_writer \<Rightarrow> canon_writer" where
  "write_list items w = write_each items (write_uint (word_of_nat (length items)) w)"

definition write_set :: "bytes list \<Rightarrow> canon_writer \<Rightarrow> canon_writer" where
  "write_set elements w =
     (let items = remdups_adj (sort elements)
      in write_each items (write_uint (word_of_nat (length items)) w))"

text \<open>\<open>Vec::dedup_by\<close> on the key: of a run of equal keys the first entry stays.\<close>

fun dedup_by_key :: "('k \<times> 'v) list \<Rightarrow> ('k \<times> 'v) list" where
  "dedup_by_key [] = []"
| "dedup_by_key [x] = [x]"
| "dedup_by_key (x # y # ys) =
     (if fst y = fst x then dedup_by_key (x # ys) else x # dedup_by_key (y # ys))"

fun write_entries :: "(bytes \<times> bytes) list \<Rightarrow> canon_writer \<Rightarrow> canon_writer" where
  "write_entries [] w = w"
| "write_entries ((k, v) # es) w = write_entries es (write_bytes v (write_bytes k w))"

definition write_map :: "(bytes \<times> bytes) list \<Rightarrow> canon_writer \<Rightarrow> canon_writer" where
  "write_map entries w =
     (let items = sort_key fst entries;
          items = rev (dedup_by_key (rev items))
      in write_entries items (write_uint (word_of_nat (length items)) w))"

text \<open>\<open>*counts.entry(e).or_insert(0) += 1\<close> on a \<open>BTreeMap\<close>, kept as its sorted entries.\<close>

fun count_entry :: "bytes \<Rightarrow> (bytes \<times> u64) list \<Rightarrow> (bytes \<times> u64) list" where
  "count_entry e [] = [(e, 0 + 1)]"
| "count_entry e ((x, n) # xs) =
     (if e = x then (x, n + 1) # xs
      else if e < x then (e, 0 + 1) # (x, n) # xs
      else (x, n) # count_entry e xs)"

fun write_counts :: "(bytes \<times> u64) list \<Rightarrow> canon_writer \<Rightarrow> canon_writer" where
  "write_counts [] w = w"
| "write_counts ((e, m) # es) w = write_counts es (write_uint m (write_bytes e w))"

definition write_bag :: "bytes list \<Rightarrow> canon_writer \<Rightarrow> canon_writer" where
  "write_bag elements w =
     (let counts = foldl (\<lambda>cs e. count_entry e cs) [] elements
      in write_counts counts (write_uint (word_of_nat (length counts)) w))"

text \<open>\<open>Canonical for Option<T>\<close> and \<open>Canonical for Vec<T>\<close>, from the element's writer.\<close>

definition canon_bytes :: "(canon_writer \<Rightarrow> canon_writer) \<Rightarrow> bytes" where
  "canon_bytes f = finish (f canon_new)"

fun canon_write_option ::
  "('a \<Rightarrow> canon_writer \<Rightarrow> canon_writer) \<Rightarrow> 'a option \<Rightarrow> canon_writer \<Rightarrow> canon_writer" where
  "canon_write_option wr None w = write_uint 0 w"
| "canon_write_option wr (Some v) w = wr v (write_uint 1 w)"

definition canon_write_vec ::
  "('a \<Rightarrow> canon_writer \<Rightarrow> canon_writer) \<Rightarrow> 'a list \<Rightarrow> canon_writer \<Rightarrow> canon_writer" where
  "canon_write_vec wr xs w = write_list (map (\<lambda>e. canon_bytes (wr e)) xs) w"

section \<open>The reader\<close>

record canon_reader =
  rbuf :: bytes
  pos :: nat

type_synonym 'a read = "canon_reader \<Rightarrow> (canon_error + 'a) \<times> canon_reader"

definition reader_new :: "bytes \<Rightarrow> canon_reader" where
  "reader_new b = \<lparr>rbuf = b, pos = 0\<rparr>"

definition reader_is_empty :: "canon_reader \<Rightarrow> bool" where
  "reader_is_empty r \<longleftrightarrow> length (rbuf r) \<le> pos r"

definition read_u8 :: "u8 read" where
  "read_u8 r =
     (if pos r < length (rbuf r) then (Inr (rbuf r ! pos r), r\<lparr>pos := pos r + 1\<rparr>)
      else (Inl UnexpectedEof, r))"

definition read_uint :: "u64 read" where
  "read_uint r =
     (case decode_uint (drop (pos r) (rbuf r)) of
        Inl e \<Rightarrow> (Inl e, r)
      | Inr (v, n) \<Rightarrow>
          (if unat v < 2 ^ 64 then Inr (ucast v) else Inl BadLength, r\<lparr>pos := pos r + n\<rparr>))"

definition read_uint128 :: "u128 read" where
  "read_uint128 r =
     (case decode_uint (drop (pos r) (rbuf r)) of
        Inl e \<Rightarrow> (Inl e, r)
      | Inr (v, n) \<Rightarrow> (Inr v, r\<lparr>pos := pos r + n\<rparr>))"

definition read_int :: "int read" where
  "read_int r =
     (case decode_int (drop (pos r) (rbuf r)) of
        Inl e \<Rightarrow> (Inl e, r)
      | Inr (v, n) \<Rightarrow> (ok_or (i64_try v) BadLength, r\<lparr>pos := pos r + n\<rparr>))"

definition read_int128 :: "int read" where
  "read_int128 r =
     (case decode_int (drop (pos r) (rbuf r)) of
        Inl e \<Rightarrow> (Inl e, r)
      | Inr (v, n) \<Rightarrow> (Inr v, r\<lparr>pos := pos r + n\<rparr>))"

definition read_bool :: "bool read" where
  "read_bool r =
     (case read_u8 r of
        (Inl e, r) \<Rightarrow> (Inl e, r)
      | (Inr b, r) \<Rightarrow>
          (if b = 0 then Inr False else if b = 1 then Inr True else Inl BadLength, r))"

definition USIZE_BOUND :: nat where "USIZE_BOUND = 2 ^ 64"

definition read_raw :: "nat \<Rightarrow> bytes read" where
  "read_raw n r =
     (if pos r + n \<ge> USIZE_BOUND then (Inl BadLength, r)
      else if length (rbuf r) < pos r + n then (Inl BadLength, r)
      else (Inr (take n (drop (pos r) (rbuf r))), r\<lparr>pos := pos r + n\<rparr>))"

definition read_bytes :: "bytes read" where
  "read_bytes r =
     (case read_uint r of
        (Inl e, r) \<Rightarrow> (Inl e, r)
      | (Inr len, r) \<Rightarrow> read_raw (unat len) r)"

definition from_canon_bytes :: "'a read \<Rightarrow> bytes \<Rightarrow> canon_error + 'a" where
  "from_canon_bytes rd b =
     (case rd (reader_new b) of
        (Inl e, r) \<Rightarrow> Inl e
      | (Inr v, r) \<Rightarrow> if \<not> reader_is_empty r then Inl BadLength else Inr v)"

definition canon_read_digest :: "digest read" where
  "canon_read_digest r =
     (case read_bytes r of
        (Inl e, r) \<Rightarrow> (Inl e, r)
      | (Inr b, r) \<Rightarrow> (if length b \<noteq> 32 then Inl BadLength else Inr b, r))"

section \<open>What the writers append\<close>

text \<open>
  Every writer appends a byte string that depends on its arguments only; the rules in
  \<open>out_simps\<close> say which. \<open>len_bytes\<close> is a length or count prefix, \<open>framed\<close> a
  length-prefixed byte string.
\<close>

definition len_bytes :: "nat \<Rightarrow> bytes" where
  "len_bytes n = uint_bytes (ucast (word_of_nat n :: u64))"

definition framed :: "bytes \<Rightarrow> bytes" where
  "framed b = len_bytes (length b) @ b"

definition fits :: "'a list \<Rightarrow> bool" where
  "fits xs \<longleftrightarrow> length xs < 2 ^ 64"

lemma canon_bytes_out: "(\<And>w. f w = w\<lparr>buf := buf w @ bs\<rparr>) \<Longrightarrow> canon_bytes f = bs"
  by (simp add: canon_bytes_def finish_def canon_new_def)

lemma write_raw_out [out_simps]: "write_raw b w = w\<lparr>buf := buf w @ b\<rparr>"
  by (simp add: write_raw_def)

lemma write_uint_out [out_simps]: "write_uint v w = w\<lparr>buf := buf w @ uint_bytes (ucast v)\<rparr>"
  by (simp add: write_uint_def encode_uint_append[of _ "buf w"])

lemma write_uint128_out [out_simps]: "write_uint128 v w = w\<lparr>buf := buf w @ uint_bytes v\<rparr>"
  by (simp add: write_uint128_def encode_uint_append[of _ "buf w"])

lemma write_int_out [out_simps]: "write_int v w = w\<lparr>buf := buf w @ int_bytes v\<rparr>"
  by (simp add: write_int_def encode_int_append[of _ "buf w"])

lemma write_int128_out [out_simps]: "write_int128 v w = w\<lparr>buf := buf w @ int_bytes v\<rparr>"
  by (simp add: write_int128_def encode_int_append[of _ "buf w"])

lemma write_bytes_out [out_simps]: "write_bytes b w = w\<lparr>buf := buf w @ framed b\<rparr>"
  by (simp add: write_bytes_def framed_def len_bytes_def write_uint_out)

lemma write_strings_out [out_simps]:
  "write_str s w = w\<lparr>buf := buf w @ framed (as_bytes s)\<rparr>"
  "write_tag s w = w\<lparr>buf := buf w @ framed (as_bytes s)\<rparr>"
  "write_ident nfc s w = w\<lparr>buf := buf w @ framed (as_bytes (nfc_cow nfc s))\<rparr>"
  by (simp_all add: write_str_def write_tag_def write_ident_def write_bytes_out)

lemma write_bool_out [out_simps]: "write_bool b w = w\<lparr>buf := buf w @ [if b then 1 else 0]\<rparr>"
  by (simp add: write_bool_def)

lemma write_each_out [out_simps]:
  "write_each es w = w\<lparr>buf := buf w @ concat (map framed es)\<rparr>"
  by (induction es arbitrary: w) (simp_all add: out_simps)

lemma write_entries_out [out_simps]:
  "write_entries es w = w\<lparr>buf := buf w @ concat (map (\<lambda>(k, v). framed k @ framed v) es)\<rparr>"
  by (induction es w rule: write_entries.induct) (simp_all add: out_simps)

lemma write_counts_out [out_simps]:
  "write_counts es w = w\<lparr>buf := buf w @ concat (map (\<lambda>(k, n). framed k @ uint_bytes (ucast n)) es)\<rparr>"
  by (induction es w rule: write_counts.induct) (simp_all add: out_simps)

lemma write_record_entries_out [out_simps]:
  "write_record_entries es w = w\<lparr>buf := buf w @ concat (map (\<lambda>(k, v). framed k @ v) es)\<rparr>"
  by (induction es w rule: write_record_entries.induct) (simp_all add: out_simps)

lemma write_list_out [out_simps]:
  "write_list es w = w\<lparr>buf := buf w @ len_bytes (length es) @ concat (map framed es)\<rparr>"
  by (simp add: write_list_def out_simps len_bytes_def)

lemma write_enum_out [out_simps]:
  "write_enum n f w = f (w\<lparr>buf := buf w @ uint_bytes (ucast n)\<rparr>)"
  by (simp add: write_enum_def out_simps)

section \<open>Unique readability of the frames\<close>

lemma unat_ucast_u64 [simp]: "unat (ucast (v :: u64) :: u128) = unat v"
proof -
  have "unat v < 2 ^ LENGTH(64)" by (rule unsigned_less)
  then show ?thesis by (simp add: unsigned_ucast_eq take_bit_eq_mod)
qed

lemma ucast_u64_u128_inj: "ucast (v :: u64) = (ucast w :: u128) \<longleftrightarrow> v = w"
  by (auto simp: word_unat_eq_iff)

interpretation u64_code: unique_code "\<lambda>v :: u64. uint_bytes (ucast v)" "\<lambda>_. True"
  by unfold_locales (use uint_code.unique_readable ucast_u64_u128_inj in blast)

lemma word_of_nat_u64_inj:
  "m < 2 ^ 64 \<Longrightarrow> n < 2 ^ 64 \<Longrightarrow> (word_of_nat m :: u64) = word_of_nat n \<longleftrightarrow> m = n"
  by (auto simp: word_of_nat_eq_iff take_bit_eq_mod)

interpretation len_code: unique_code len_bytes "\<lambda>n. n < 2 ^ 64"
  unfolding len_bytes_def
  by unfold_locales (use u64_code.unique_readable word_of_nat_u64_inj in blast)

lemma framed_unique:
  assumes "fits a" "fits b" "framed a @ xs = framed b @ ys"
  shows "a = b \<and> xs = ys"
proof -
  have "length a = length b \<and> a @ xs = b @ ys"
    using assms len_code.unique_readable[of "length a" "length b" "a @ xs" "b @ ys"]
    by (simp add: framed_def fits_def)
  then show ?thesis by auto
qed

interpretation framed_code: unique_code framed fits
  by unfold_locales (rule framed_unique)

lemma len_concat_unique:
  assumes "fits vs" "fits ws" "list_all fits vs" "list_all fits ws"
    "len_bytes (length vs) @ concat (map framed vs) @ xs = len_bytes (length ws) @ concat (map framed ws) @ ys"
  shows "vs = ws \<and> xs = ys"
proof -
  have "length vs = length ws \<and> concat (map framed vs) @ xs = concat (map framed ws) @ ys"
    using assms len_code.unique_readable[of "length vs" "length ws"] by (simp add: fits_def)
  then show ?thesis using assms framed_code.concat_eq_iff by blast
qed

interpretation list_code: unique_code
  "\<lambda>vs. len_bytes (length vs) @ concat (map framed vs)" "\<lambda>vs. fits vs \<and> list_all fits vs"
  by unfold_locales (metis append.assoc len_concat_unique)

lemma canon_bytes_write_list: "canon_bytes (write_list es) = len_bytes (length es) @ concat (map framed es)"
  by (rule canon_bytes_out) (simp add: out_simps)

section \<open>Sets\<close>

definition set_items :: "bytes list \<Rightarrow> bytes list" where
  "set_items es = remdups_adj (sort es)"

lemma sorted_distinct_remdups_adj: "sorted xs \<Longrightarrow> distinct (remdups_adj xs)" for xs :: "'b :: linorder list"
  by (induction xs rule: remdups_adj.induct) (auto dest: order_antisym split: if_splits)

lemma set_items_eq: "set_items es = sorted_list_of_set (set es)"
  unfolding set_items_def
  by (rule sorted_distinct_set_unique) (simp_all add: sorted_distinct_remdups_adj)

lemma write_set_out [out_simps]:
  "write_set es w = w\<lparr>buf := buf w @ len_bytes (length (set_items es)) @ concat (map framed (set_items es))\<rparr>"
  by (simp add: write_set_def set_items_def out_simps len_bytes_def Let_def)

lemma canon_bytes_write_set:
  "canon_bytes (write_set es) = len_bytes (length (set_items es)) @ concat (map framed (set_items es))"
  by (rule canon_bytes_out) (simp add: out_simps)

lemma set_items_ok: "fits es \<Longrightarrow> list_all fits es \<Longrightarrow> fits (set_items es) \<and> list_all fits (set_items es)"
proof -
  assume a: "fits es" "list_all fits es"
  have "length (set_items es) \<le> length es"
    by (simp add: set_items_def remdups_adj_length order_trans[OF remdups_adj_length])
  then show ?thesis using a by (auto simp: fits_def list_all_iff set_items_def)
qed

lemma write_set_eq_iff:
  assumes "fits xs" "fits ys" "list_all fits xs" "list_all fits ys"
  shows "canon_bytes (write_set xs) = canon_bytes (write_set ys) \<longleftrightarrow> set xs = set ys"
proof
  assume "canon_bytes (write_set xs) = canon_bytes (write_set ys)"
  then have "set_items xs = set_items ys"
    using set_items_ok assms list_code.enc_inj[of "set_items xs" "set_items ys"]
    by (simp add: canon_bytes_write_set)
  then have "set (set_items xs) = set (set_items ys)" by simp
  then show "set xs = set ys" by (simp add: set_items_def)
next
  assume "set xs = set ys"
  then show "canon_bytes (write_set xs) = canon_bytes (write_set ys)"
    by (simp add: canon_bytes_write_set set_items_eq)
qed

section \<open>Maps\<close>

definition map_items :: "(bytes \<times> bytes) list \<Rightarrow> (bytes \<times> bytes) list" where
  "map_items es = rev (dedup_by_key (rev (sort_key fst es)))"

lemma map_of_dedup: "map_of (dedup_by_key xs) = map_of xs"
  by (induction xs rule: dedup_by_key.induct) (auto simp: fun_eq_iff)

lemma set_dedup: "set (dedup_by_key xs) \<subseteq> set xs"
  by (induction xs rule: dedup_by_key.induct) auto

lemma length_dedup: "length (dedup_by_key xs) \<le> length xs"
  by (induction xs rule: dedup_by_key.induct) auto

lemma dedup_strict:
  "sorted_wrt (\<ge>) (map fst xs) \<Longrightarrow> sorted_wrt (>) (map fst (dedup_by_key xs))"
  for xs :: "('b :: linorder \<times> 'c) list"
proof (induction xs rule: dedup_by_key.induct)
  case (3 x y ys)
  have s: "set (dedup_by_key (y # ys)) \<subseteq> set (y # ys)" by (rule set_dedup)
  show ?case
  proof (cases "fst y = fst x")
    case False
    then have "fst y < fst x" using "3.prems" by auto
    moreover have "\<forall>z \<in> set ys. fst z \<le> fst y" using "3.prems" by auto
    ultimately have "\<forall>z \<in> set (dedup_by_key (y # ys)). fst z < fst x" using s by fastforce
    then show ?thesis using 3 False by auto
  qed (use 3 in auto)
qed simp_all

lemma map_of_filter_key: "map_of (filter (\<lambda>p. fst p = k) xs) k = map_of xs k"
  by (induction xs) auto

lemma map_of_rev_sort_key: "map_of (rev (sort_key fst xs)) = map_of (rev xs)"
proof
  fix k
  have "filter (\<lambda>p. fst p = k) (rev (sort_key fst xs)) = filter (\<lambda>p. fst p = k) (rev xs)"
    by (simp add: sort_key_stable flip: rev_filter)
  then show "map_of (rev (sort_key fst xs)) k = map_of (rev xs) k"
    by (metis map_of_filter_key)
qed

lemma map_items_strict: "sorted_wrt (<) (map fst (map_items es))"
proof -
  have "sorted_wrt (\<ge>) (map fst (rev (sort_key fst es)))"
    by (simp add: rev_map[symmetric] sorted_wrt_rev)
  then have "sorted_wrt (>) (map fst (dedup_by_key (rev (sort_key fst es))))"
    by (rule dedup_strict)
  then show ?thesis by (simp add: map_items_def rev_map[symmetric] sorted_wrt_rev)
qed

lemma map_of_rev_distinct: "distinct (map fst xs) \<Longrightarrow> map_of (rev xs) = map_of xs"
  by (induction xs) (auto simp: fun_eq_iff map_add_def image_iff split: option.splits dest!: map_of_SomeD)

lemma map_of_map_items: "map_of (map_items es) = map_of (rev es)"
proof -
  have "distinct (map fst (map_items es))"
    using map_items_strict strict_sorted_iff by blast
  then have "map_of (map_items es) = map_of (rev (map_items es))"
    by (rule map_of_rev_distinct[symmetric])
  then show ?thesis by (simp add: map_items_def map_of_dedup map_of_rev_sort_key)
qed

lemma strict_assoc_unique:
  fixes xs ys :: "('b :: linorder \<times> 'c) list"
  assumes "sorted_wrt (<) (map fst xs)" "sorted_wrt (<) (map fst ys)" "map_of xs = map_of ys"
  shows "xs = ys"
proof -
  have d: "distinct (map fst xs)" "distinct (map fst ys)" "sorted (map fst xs)" "sorted (map fst ys)"
    using assms(1,2) strict_sorted_iff by blast+
  have "set xs = set ys"
    using map_of_eq_Some_iff[OF d(1)] map_of_eq_Some_iff[OF d(2)] assms(3)
    by (metis subrelI subset_antisym)
  then show ?thesis
    using d by (intro map_sorted_distinct_set_unique[of fst]) (auto simp: distinct_map)
qed

lemma write_map_out [out_simps]:
  "write_map es w = w\<lparr>buf := buf w @ len_bytes (length (map_items es))
     @ concat (map (\<lambda>(k, v). framed k @ framed v) (map_items es))\<rparr>"
  by (simp add: write_map_def map_items_def out_simps len_bytes_def Let_def)

lemma canon_bytes_write_map:
  "canon_bytes (write_map es) = len_bytes (length (map_items es))
     @ concat (map (\<lambda>(k, v). framed k @ framed v) (map_items es))"
  by (rule canon_bytes_out) (simp add: out_simps)

definition entry_fits :: "bytes \<times> bytes \<Rightarrow> bool" where
  "entry_fits e \<longleftrightarrow> fits (fst e) \<and> fits (snd e)"

interpretation entry_code: unique_code "\<lambda>(k, v). framed k @ framed v" entry_fits
  by unfold_locales (clarsimp simp: entry_fits_def framed_code.append_eq_iff)

lemma len_entries_unique:
  assumes "fits vs" "fits ws" "list_all entry_fits vs" "list_all entry_fits ws"
    "len_bytes (length vs) @ concat (map (\<lambda>(k, v). framed k @ framed v) vs)
      = len_bytes (length ws) @ concat (map (\<lambda>(k, v). framed k @ framed v) ws)"
  shows "vs = ws"
proof -
  let ?e = "\<lambda>(k, v). framed k @ framed v"
  have "length vs = length ws \<and> concat (map ?e vs) = concat (map ?e ws)"
    using assms len_code.unique_readable[of "length vs" "length ws"] by (simp add: fits_def)
  then show ?thesis
    using assms entry_code.concat_eq_iff[of vs ws "[]" "[]"] by simp
qed

lemma map_items_ok:
  assumes "fits es" "list_all entry_fits es"
  shows "fits (map_items es) \<and> list_all entry_fits (map_items es)"
proof -
  have "length (map_items es) \<le> length es"
    using length_dedup[of "rev (sort_key fst es)"] by (simp add: map_items_def)
  moreover have "set (map_items es) \<subseteq> set es"
    using set_dedup[of "rev (sort_key fst es)"] by (simp add: map_items_def)
  ultimately show ?thesis using assms by (auto simp: fits_def list_all_iff)
qed

lemma write_map_eq_iff:
  assumes "fits xs" "fits ys" "list_all entry_fits xs" "list_all entry_fits ys"
  shows "canon_bytes (write_map xs) = canon_bytes (write_map ys) \<longleftrightarrow> map_of (rev xs) = map_of (rev ys)"
proof
  assume "canon_bytes (write_map xs) = canon_bytes (write_map ys)"
  then have "map_items xs = map_items ys"
    using map_items_ok assms len_entries_unique by (simp add: canon_bytes_write_map)
  then show "map_of (rev xs) = map_of (rev ys)" by (metis map_of_map_items)
next
  assume "map_of (rev xs) = map_of (rev ys)"
  then have "map_items xs = map_items ys"
    by (intro strict_assoc_unique map_items_strict) (simp add: map_of_map_items)
  then show "canon_bytes (write_map xs) = canon_bytes (write_map ys)"
    by (simp add: canon_bytes_write_map)
qed

section \<open>Bags\<close>

abbreviation bag_counts :: "bytes list \<Rightarrow> (bytes \<times> u64) list" where
  "bag_counts es \<equiv> foldl (\<lambda>cs e. count_entry e cs) [] es"

lemma set_count_entry: "fst ` set (count_entry e cs) = insert e (fst ` set cs)"
  by (induction e cs rule: count_entry.induct) auto

lemma count_entry_strict:
  "sorted_wrt (<) (map fst cs) \<Longrightarrow> sorted_wrt (<) (map fst (count_entry e cs))"
proof (induction e cs rule: count_entry.induct)
  case (2 e x n xs)
  have "\<forall>k \<in> fst ` set (count_entry e xs). x < k" if "\<not> e < x" "e \<noteq> x"
    using that 2 unfolding set_count_entry by auto
  then show ?case using 2 by auto
qed simp

lemma map_of_count_entry:
  assumes "sorted_wrt (<) (map fst cs)"
  shows "map_of (count_entry e cs) = (map_of cs)(e \<mapsto> (case map_of cs e of None \<Rightarrow> 1 | Some n \<Rightarrow> n + 1))"
  using assms
proof (induction e cs rule: count_entry.induct)
  case (2 e x n xs)
  have "map_of xs e = None" if "e < x"
  proof -
    have "x < k" if "k \<in> fst ` set xs" for k using that "2.prems" by auto
    then have "e \<notin> fst ` set xs" using \<open>e < x\<close> by (meson less_asym)
    then show ?thesis by (simp add: map_of_eq_None_iff)
  qed
  then show ?case using 2 by (auto simp: fun_eq_iff)
qed simp

lemma bag_counts_strict: "sorted_wrt (<) (map fst (bag_counts es))"
  by (induction es rule: rev_induct) (simp_all add: count_entry_strict)

lemma map_of_bag_counts:
  "map_of (bag_counts es) e = (if e \<in> set es then Some (word_of_nat (count_list es e)) else None)"
  by (induction es rule: rev_induct)
    (auto simp: map_of_count_entry[OF bag_counts_strict] add.commute)

lemma write_bag_out [out_simps]:
  "write_bag es w = w\<lparr>buf := buf w @ len_bytes (length (bag_counts es))
     @ concat (map (\<lambda>(k, n). framed k @ uint_bytes (ucast n)) (bag_counts es))\<rparr>"
  by (simp add: write_bag_def out_simps len_bytes_def Let_def)

lemma canon_bytes_write_bag:
  "canon_bytes (write_bag es) = len_bytes (length (bag_counts es))
     @ concat (map (\<lambda>(k, n). framed k @ uint_bytes (ucast n)) (bag_counts es))"
  by (rule canon_bytes_out) (simp add: out_simps)

interpretation count_code: unique_code "\<lambda>(k, n :: u64). framed k @ uint_bytes (ucast n)" "\<lambda>(k, n). fits k"
  by unfold_locales (clarsimp simp: framed_code.append_eq_iff u64_code.append_eq_iff)

lemma length_count_entry: "length (count_entry e cs) \<le> Suc (length cs)"
  by (induction e cs rule: count_entry.induct) auto

lemma bag_counts_ok:
  assumes "fits es" "list_all fits es"
  shows "fits (bag_counts es) \<and> list_all (\<lambda>(k, n). fits k) (bag_counts es)"
proof -
  have l: "length (bag_counts es) \<le> length es"
    by (induction es rule: rev_induct) (auto intro: order_trans[OF length_count_entry])
  have s: "fst ` set (bag_counts es) = set es"
    by (induction es rule: rev_induct) (simp_all add: set_count_entry)
  have "fits k" if "(k, n) \<in> set (bag_counts es)" for k n
  proof -
    have "k \<in> fst ` set (bag_counts es)" using that by force
    then show ?thesis using assms(2) unfolding s list_all_iff by blast
  qed
  then have "list_all (\<lambda>(k, n). fits k) (bag_counts es)" unfolding list_all_iff by blast
  moreover have "fits (bag_counts es)"
    using l assms(1) unfolding fits_def by (rule le_less_trans)
  ultimately show ?thesis by blast
qed

lemma bag_counts_eq_iff:
  assumes "fits xs" "fits ys"
  shows "bag_counts xs = bag_counts ys \<longleftrightarrow> mset xs = mset ys"
proof
  assume eq: "bag_counts xs = bag_counts ys"
  have "count_list xs e = count_list ys e" for e
  proof -
    have b: "count_list xs e < 2 ^ 64" "count_list ys e < 2 ^ 64"
      using assms count_le_length[of xs e] count_le_length[of ys e] by (auto simp: fits_def)
    have "map_of (bag_counts xs) e = map_of (bag_counts ys) e" using eq by simp
    then show ?thesis
      using b by (auto simp: map_of_bag_counts word_of_nat_u64_inj count_list_0_iff split: if_splits)
  qed
  then show "mset xs = mset ys" by (simp add: multiset_eq_iff count_mset)
next
  assume "mset xs = mset ys"
  then have "count_list xs = count_list ys" "set xs = set ys"
    by (simp add: fun_eq_iff multiset_eq_iff count_mset, rule mset_eq_setD)
  then have "map_of (bag_counts xs) = map_of (bag_counts ys)"
    by (simp add: fun_eq_iff map_of_bag_counts)
  then show "bag_counts xs = bag_counts ys"
    by (intro strict_assoc_unique bag_counts_strict)
qed

lemma write_bag_eq_iff:
  assumes "fits xs" "fits ys" "list_all fits xs" "list_all fits ys"
  shows "canon_bytes (write_bag xs) = canon_bytes (write_bag ys) \<longleftrightarrow> mset xs = mset ys"
proof -
  let ?x = "bag_counts xs" and ?y = "bag_counts ys"
  note ok = bag_counts_ok[OF assms(1,3)] bag_counts_ok[OF assms(2,4)]
  have "?x = ?y" if "canon_bytes (write_bag xs) = canon_bytes (write_bag ys)"
  proof -
    have "length ?x = length ?y" and "concat (map (\<lambda>(k, n). framed k @ uint_bytes (ucast n)) ?x)
        = concat (map (\<lambda>(k, n). framed k @ uint_bytes (ucast n)) ?y)"
      using that ok len_code.unique_readable[of "length ?x" "length ?y"]
      by (simp_all add: canon_bytes_write_bag fits_def)
    then show ?thesis using ok count_code.concat_eq_iff[of ?x ?y "[]" "[]"] by simp
  qed
  then show ?thesis
    using bag_counts_eq_iff[OF assms(1,2)] by (auto simp: canon_bytes_write_bag)
qed

section \<open>Records\<close>

lemma write_record_perm:
  assumes "mset fs = mset gs" "inj_on (\<lambda>(n, v). as_bytes (nfc_cow nfc n)) (set fs)"
  shows "write_record nfc fs = write_record nfc gs"
proof -
  let ?e = "map (\<lambda>(n, v). (as_bytes (nfc_cow nfc n), v))"
  have eq: "sort_key fst (?e fs) = sort_key fst (?e gs)"
  proof (rule sort_key_inj_key_eq)
    show "mset (?e fs) = mset (sort_key fst (?e gs))" using assms(1) by simp
    show "inj_on fst (set (?e fs))"
      using assms(2) by (fastforce simp: inj_on_def)
  qed simp
  show ?thesis
    by (rule ext) (simp only: write_record_def Let_def eq)
qed

section \<open>Digest preimages and hexadecimal rendering\<close>

lemma of_char_u8_inj [simp]: "(of_char c :: u8) = of_char d \<longleftrightarrow> c = d"
proof
  assume "(of_char c :: u8) = of_char d"
  moreover have "unat (of_char c :: u8) = of_char c" for c
    using unat_of_nat[of "of_char c :: nat", where ?'a = 8] by (simp add: of_nat_of_char)
  ultimately have "(of_char c :: nat) = of_char d" by metis
  then show "c = d" by (simp add: of_char_eq_iff)
qed simp

lemma as_bytes_inj: "as_bytes s = as_bytes t \<longleftrightarrow> s = t"
  unfolding as_bytes_def by (rule inj_map_eq_map) (auto simp: inj_on_def)

lemma as_bytes_append: "as_bytes (s @ t) = as_bytes s @ as_bytes t"
  by (simp add: as_bytes_def)

lemma domain_tag_split:
  "domain_tag c @ '':'' @ s = domain_tag d @ '':'' @ t \<Longrightarrow> c = d \<and> s = t"
  by (cases c; cases d) simp_all

lemma digest_preimage_inj:
  "digest_preimage c p = digest_preimage d q \<longleftrightarrow> c = d \<and> p = q"
proof
  assume "digest_preimage c p = digest_preimage d q"
  then have e: "as_bytes (domain_tag c) @ as_bytes '':'' @ p = as_bytes (domain_tag d) @ as_bytes '':'' @ q"
    by (simp add: digest_preimage_def)
  then show "c = d \<and> p = q"
    by (cases c; cases d) (simp_all add: as_bytes_def)
qed simp

lemma from_digit16_inj:
  assumes "m < 16" "n < 16"
  shows "from_digit16 m = from_digit16 n \<longleftrightarrow> m = n"
proof -
  have "(of_char (from_digit16 k) :: nat) = (if k < 10 then 48 + k else 87 + k)" if "k < 16" for k
    using that by (simp add: from_digit16_def)
  then have "from_digit16 m = from_digit16 n \<longleftrightarrow>
      (if m < 10 then 48 + m else 87 + m) = (if n < 10 then 48 + n else 87 + n)"
    using assms by (metis of_char_eq_iff)
  then show ?thesis by (auto split: if_splits)
qed

lemma nibbles_inj:
  assumes "unat (drop_bit 4 a) = unat (drop_bit 4 (b :: u8))" "unat (a AND 0xf) = unat (b AND 0xf)"
  shows "a = b"
proof -
  have m: "(0xf :: u8) = mask 4" by (simp add: mask_eq_exp_minus_1)
  have n: "unat c = unat (drop_bit 4 c) * 16 + unat (c AND 0xf)" for c :: u8
    unfolding m take_bit_eq_mask[symmetric]
    by (simp only: unat_drop_bit_eq unsigned_take_bit_eq)
      (simp add: drop_bit_eq_div take_bit_eq_mod)
  show ?thesis using assms n[of a] n[of b] by (simp add: word_unat_eq_iff)
qed

lemma nibble_less: "unat (drop_bit 4 (b :: u8)) < 16" "unat ((b :: u8) AND 0xf) < 16"
proof -
  show "unat (drop_bit 4 b) < 16"
    using unat_u8_less[of b] by (simp only: unat_drop_bit_eq) (simp add: drop_bit_eq_div del: unat_u8_less)
  have "b AND 0xf \<le> 0xf" by (rule word_and_le1)
  then show "unat (b AND 0xf) < 16" by (simp add: word_le_nat_alt)
qed

lemma length_to_hex: "length (to_hex d) = 2 * length d"
  by (induction d) (simp_all add: to_hex_def)

lemma to_hex_inj: "to_hex c = to_hex d \<longleftrightarrow> c = d"
proof
  show "to_hex c = to_hex d \<Longrightarrow> c = d"
  proof (induction c arbitrary: d)
    case Nil
    then show ?case by (cases d) (simp_all add: to_hex_def)
  next
    case (Cons a c)
    obtain b d' where d: "d = b # d'" using Cons.prems by (cases d) (simp_all add: to_hex_def)
    have "to_hex c = to_hex d'" "a = b"
      using Cons.prems by (auto simp: d to_hex_def from_digit16_inj nibble_less intro!: nibbles_inj)
    then show ?case using Cons.IH d by simp
  qed
qed simp

section \<open>What the readers return\<close>

definition remaining :: "canon_reader \<Rightarrow> bytes" where
  "remaining r = drop (pos r) (rbuf r)"

definition adv :: "canon_reader \<Rightarrow> nat \<Rightarrow> canon_reader" where
  "adv r n = r\<lparr>pos := pos r + n\<rparr>"

text \<open>
  The reader's invariant: the position is inside the buffer, and the buffer is one a 64-bit
  machine can hold.
\<close>

definition reader_ok :: "canon_reader \<Rightarrow> bool" where
  "reader_ok r \<longleftrightarrow> pos r \<le> length (rbuf r) \<and> fits (rbuf r)"

lemma remaining_adv [simp]: "remaining (adv r n) = drop n (remaining r)"
  by (simp add: remaining_def adv_def add.commute)

lemma adv_adv [simp]: "adv (adv r m) n = adv r (m + n)"
  by (simp add: adv_def)

lemma remaining_new [simp]: "remaining (reader_new b) = b"
  by (simp add: remaining_def reader_new_def)

lemma reader_ok_new: "fits b \<Longrightarrow> reader_ok (reader_new b)"
  by (simp add: reader_ok_def reader_new_def)

lemma reader_ok_adv: "reader_ok r \<Longrightarrow> n \<le> length (remaining r) \<Longrightarrow> reader_ok (adv r n)"
  by (auto simp: reader_ok_def adv_def remaining_def)

lemma reader_is_empty_iff: "reader_ok r \<Longrightarrow> reader_is_empty r \<longleftrightarrow> remaining r = []"
  by (auto simp: reader_ok_def reader_is_empty_def remaining_def)

lemma ucast_u128_u64: "unat (v :: u128) < 2 ^ 64 \<Longrightarrow> ucast (ucast v :: u64) = v"
  by (simp add: word_unat_eq_iff) (simp add: unsigned_ucast_eq take_bit_eq_mod)

lemma ucast_u64_u128_u64 [simp]: "ucast (ucast (v :: u64) :: u128) = v"
proof -
  have "unat v < 2 ^ LENGTH(64)" by (rule unsigned_less)
  moreover have "unat (ucast (ucast v :: u128) :: u64) = take_bit 64 (unat (ucast v :: u128))"
    by (subst unsigned_ucast_eq) simp
  ultimately show ?thesis
    by (simp add: word_unat_eq_iff take_bit_eq_mod)
qed

lemma read_uint_iff:
  "read_uint r = (Inr v, r') \<longleftrightarrow>
     (\<exists>rest. remaining r = uint_bytes (ucast v) @ rest) \<and> r' = adv r (length (uint_bytes (ucast v)))"
  (is "?L \<longleftrightarrow> ?R")
proof
  assume ?L
  then obtain x n where d: "decode_uint (remaining r) = Inr (x, n)" "unat x < 2 ^ 64" "v = ucast x"
    "r' = adv r n"
    by (auto simp: read_uint_def remaining_def adv_def split: sum.splits if_splits)
  moreover have "ucast v = x" using d by (simp add: ucast_u128_u64)
  ultimately show ?R using decode_uint_complete[OF d(1)] by auto
next
  assume ?R
  then obtain rest where r: "remaining r = uint_bytes (ucast v) @ rest"
    and r': "r' = adv r (length (uint_bytes (ucast v)))" by blast
  have "unat v < 2 ^ LENGTH(64)" by (rule unsigned_less)
  moreover have "decode_uint (remaining r) = Inr (ucast v, length (uint_bytes (ucast v)))"
    unfolding r by (rule decode_encode_uint)
  ultimately show ?L
    by (simp add: read_uint_def remaining_def[symmetric] r' adv_def)
qed

lemma read_raw_iff:
  assumes "reader_ok r"
  shows "read_raw n r = (Inr b, r') \<longleftrightarrow>
    (\<exists>rest. remaining r = b @ rest) \<and> length b = n \<and> r' = adv r n"
proof -
  have b: "pos r \<le> length (rbuf r)" "length (rbuf r) < USIZE_BOUND"
    using assms by (simp_all add: reader_ok_def fits_def USIZE_BOUND_def)
  have "read_raw n r = (if n \<le> length (remaining r) then (Inr (take n (remaining r)), adv r n)
      else (Inl BadLength, r))"
    using b by (auto simp: read_raw_def remaining_def adv_def)
  then show ?thesis by (auto intro: append_take_drop_id[symmetric])
qed

lemma read_bytes_iff:
  assumes "reader_ok r"
  shows "read_bytes r = (Inr b, r') \<longleftrightarrow>
    fits b \<and> (\<exists>rest. remaining r = framed b @ rest) \<and> r' = adv r (length (framed b))"
  (is "?L \<longleftrightarrow> ?R")
proof
  assume ?L
  then obtain len r1 where u: "read_uint r = (Inr len, r1)" and w: "read_raw (unat len) r1 = (Inr b, r')"
    by (auto simp: read_bytes_def split: prod.splits sum.splits)
  obtain rest where r: "remaining r = uint_bytes (ucast len) @ rest" and
    r1: "r1 = adv r (length (uint_bytes (ucast len)))" using u read_uint_iff by blast
  have ok1: "reader_ok r1" using assms r by (simp add: r1 reader_ok_adv)
  obtain rest2 where r2: "rest = b @ rest2" and l: "length b = unat len" and r': "r' = adv r1 (unat len)"
    using w read_raw_iff[OF ok1] r by (auto simp: r1)
  have "unat len < 2 ^ LENGTH(64)" by (rule unsigned_less)
  then have f: "fits b" by (simp add: fits_def l)
  have "uint_bytes (ucast len) = len_bytes (length b)" by (simp add: len_bytes_def l)
  then show ?R using f r r2 r' r1 l by (auto simp: framed_def)
next
  assume R: ?R
  then obtain rest where r: "remaining r = framed b @ rest" and f: "fits b"
    and r': "r' = adv r (length (framed b))" by blast
  let ?l = "word_of_nat (length b) :: u64"
  have l: "unat ?l = length b" using f by (simp add: fits_def unat_of_nat)
  let ?r1 = "adv r (length (uint_bytes (ucast ?l)))"
  have u: "read_uint r = (Inr ?l, ?r1)"
    using r by (subst read_uint_iff) (simp add: framed_def len_bytes_def)
  have "reader_ok ?r1" using assms r by (simp add: reader_ok_adv framed_def len_bytes_def)
  then have "read_raw (unat ?l) ?r1 = (Inr b, adv ?r1 (length b))"
    using r by (subst read_raw_iff) (auto simp: l framed_def len_bytes_def)
  then show ?L using u by (simp add: read_bytes_def r' framed_def len_bytes_def)
qed

section \<open>Properties\<close>

text \<open>
  The encoding of a set depends on the elements only, and determines them: two element lists
  give the same bytes precisely when they have the same elements, in any order and with any
  repetitions.
\<close>

theorem write_set_canonical:
  assumes "fits xs" "fits ys" "list_all fits xs" "list_all fits ys"
  shows "canon_bytes (write_set xs) = canon_bytes (write_set ys) \<longleftrightarrow> set xs = set ys"
  using assms by (rule write_set_eq_iff)

theorem write_set_canonical_witness:
  "canon_bytes (write_set [[2], [1], [2]]) = canon_bytes (write_set [[1], [2]])"
  using write_set_canonical[of "[[2], [1], [2]]" "[[1], [2]]"] by (simp add: fits_def insert_commute)

text \<open>
  The encoding of a map depends on the map the entries denote only, the last entry of a key
  winning, and determines it.
\<close>

theorem write_map_canonical:
  assumes "fits xs" "fits ys" "list_all entry_fits xs" "list_all entry_fits ys"
  shows "canon_bytes (write_map xs) = canon_bytes (write_map ys) \<longleftrightarrow> map_of (rev xs) = map_of (rev ys)"
  using assms by (rule write_map_eq_iff)

theorem write_map_canonical_witness:
  "canon_bytes (write_map [([1], [7]), ([2], [8]), ([1], [9])]) = canon_bytes (write_map [([2], [8]), ([1], [9])])"
proof -
  have "map_of (rev [([1 :: u8], [7 :: u8]), ([2], [8]), ([1], [9])]) = map_of (rev [([2], [8]), ([1], [9])])"
    by (auto simp: fun_eq_iff)
  then show ?thesis
    using write_map_canonical[of "[([1], [7]), ([2], [8]), ([1], [9])]" "[([2], [8]), ([1], [9])]"]
    by (simp add: fits_def entry_fits_def)
qed

text \<open>
  The encoding of a bag depends on the multiset of its elements only, and determines it: the
  64-bit counts do not wrap for any list a 64-bit machine can hold.
\<close>

theorem write_bag_canonical:
  assumes "fits xs" "fits ys" "list_all fits xs" "list_all fits ys"
  shows "canon_bytes (write_bag xs) = canon_bytes (write_bag ys) \<longleftrightarrow> mset xs = mset ys"
  using assms by (rule write_bag_eq_iff)

theorem write_bag_canonical_witness:
  "canon_bytes (write_bag [[2], [1], [2]]) = canon_bytes (write_bag [[2], [2], [1]]) \<and>
   canon_bytes (write_bag [[2], [1], [2]]) \<noteq> canon_bytes (write_bag [[2], [1]])"
  using write_bag_canonical[of "[[2], [1], [2]]" "[[2], [2], [1]]"] write_bag_canonical[of "[[2], [1], [2]]" "[[2], [1]]"]
  by (simp add: fits_def add_mset_commute)

text \<open>
  A record is written the same way whatever the order its fields are given in, when the
  normalised field names are distinct.
\<close>

theorem write_record_order_free:
  assumes "mset fs = mset gs" "inj_on (\<lambda>(n, v). as_bytes (nfc_cow nfc n)) (set fs)"
  shows "write_record nfc fs w = write_record nfc gs w"
  using write_record_perm[OF assms] by simp

theorem write_record_order_free_witness:
  "write_record id [(''b'', [2]), (''a'', [1])] canon_new = write_record id [(''a'', [1]), (''b'', [2])] canon_new"
  using write_record_order_free[of "[(''b'', [2]), (''a'', [1])]" "[(''a'', [1]), (''b'', [2])]" id canon_new]
  by (simp add: nfc_cow_def as_bytes_inj inj_on_def)

text \<open>
  Reading a length-prefixed byte string is exact: from a valid reader, \<open>read_bytes\<close> returns
  \<open>b\<close> precisely when the unread input starts with what \<open>write_bytes\<close> appends for \<open>b\<close>; the
  reader then stands right behind it, still valid.
\<close>

theorem read_bytes_exact:
  assumes "reader_ok r"
  shows "(read_bytes r = (Inr b, r') \<longleftrightarrow>
      fits b \<and> (\<exists>rest. remaining r = canon_bytes (write_bytes b) @ rest)
        \<and> r' = adv r (length (canon_bytes (write_bytes b)))) \<and>
    (read_bytes r = (Inr b, r') \<longrightarrow> reader_ok r')"
proof -
  have w: "canon_bytes (write_bytes b) = framed b" by (rule canon_bytes_out) (simp add: out_simps)
  have "read_bytes r = (Inr b, r') \<Longrightarrow> reader_ok r'"
    using read_bytes_iff[OF assms, of b r'] reader_ok_adv[OF assms, of "length (framed b)"] by auto
  then show ?thesis unfolding w using read_bytes_iff[OF assms] by blast
qed

theorem read_bytes_exact_witness:
  "read_bytes (reader_new [1, 2, 7, 8, 9]) = (Inr [7, 8], \<lparr>rbuf = [1, 2, 7, 8, 9], pos = 4\<rparr>)"
proof -
  have ok: "reader_ok (reader_new [1, 2, 7, 8, 9])" by (simp add: reader_ok_new fits_def)
  have w: "canon_bytes (write_bytes [7, 8]) = [1, 2, 7, 8]" by code_simp
  show ?thesis
    using read_bytes_exact[OF ok, of "[7, 8]" "\<lparr>rbuf = [1, 2, 7, 8, 9], pos = 4\<rparr>"]
    by (simp add: w fits_def adv_def reader_new_def remaining_def)
qed

text \<open>
  Domain separation: the byte strings hashed for two digests are equal only if both the
  domains and the payloads are, so equal digests of different things are a collision of the hash
  function itself.
\<close>

theorem digest_domain_separation:
  "digest_preimage c p = digest_preimage d q \<longleftrightarrow> c = d \<and> p = q"
  by (rule digest_preimage_inj)

text \<open>The hexadecimal rendering of digests is injective and has two digits per byte.\<close>

theorem to_hex_faithful:
  "(to_hex c = to_hex d \<longleftrightarrow> c = d) \<and> length (to_hex d) = 2 * length d"
  by (simp add: to_hex_inj length_to_hex)

end
