(* ===== verification/Semantic_Ids.thy ===== *)
theory Semantic_Ids
  imports Canon_Writer
begin

text \<open>
  Content-addressed identities and the epistemic vocabulary of \<open>crates/brix-semantic\<close>: the
  \<open>digest_id!\<close> surface (\<open>id.rs\<close>), contexts (\<open>context.rs\<close>), witnesses and their
  composition and tensor (\<open>witness.rs\<close>), generators and their registry (\<open>generator.rs\<close>),
  realization statements (\<open>realizes.rs\<close>), the outcome lattice (\<open>outcome.rs\<close>), evidence
  (\<open>evidence.rs\<close>), dependencies (\<open>dependency.rs\<close>) and judgements (\<open>judgement.rs\<close>).
  The newtype identities are synonyms of \<open>digest\<close>; the hash function is the parameter
  \<open>blake3\<close>.
\<close>

section \<open>Identities\<close>

type_synonym proposition_id = digest
type_synonym context_id = digest
type_synonym config_id = digest
type_synonym regime_id = digest
type_synonym witness_id = digest
type_synonym generator_id = digest
type_synonym verifier_id = digest
type_synonym certificate_id = digest
type_synonym evidence_id = digest
type_synonym judgement_id = digest

definition from_canon :: "(bytes \<Rightarrow> bytes) \<Rightarrow> bytes \<Rightarrow> digest" where
  "from_canon blake3 payload = digest_of blake3 Value payload"

definition id_of :: "(bytes \<Rightarrow> bytes) \<Rightarrow> (canon_writer \<Rightarrow> canon_writer) \<Rightarrow> digest" where
  "id_of blake3 canon_write = from_canon blake3 (finish (canon_write canon_new))"

definition canon_write_id :: "digest \<Rightarrow> canon_writer \<Rightarrow> canon_writer" where
  "canon_write_id i w = write_bytes i w"

definition id_named :: "(bytes \<Rightarrow> bytes) \<Rightarrow> string \<Rightarrow> digest" where
  "id_named blake3 name = from_canon blake3 (finish (write_str name canon_new))"

section \<open>Contexts\<close>

definition ROOT_CONTEXT_TAG :: string where
  "ROOT_CONTEXT_TAG = ''brix.ir.reflect.ScopeId.root''"

definition context_root :: "(bytes \<Rightarrow> bytes) \<Rightarrow> context_id" where
  "context_root blake3 = from_canon blake3 (finish (write_tag ROOT_CONTEXT_TAG canon_new))"

definition extend_payload :: "context_id \<Rightarrow> bytes \<Rightarrow> bytes" where
  "extend_payload c assumption =
     finish (write_bytes assumption (write_bytes c
       (write_tag ''brix.semantic.ContextId.extend'' canon_new)))"

definition context_extend :: "(bytes \<Rightarrow> bytes) \<Rightarrow> context_id \<Rightarrow> bytes \<Rightarrow> context_id" where
  "context_extend blake3 c assumption = from_canon blake3 (extend_payload c assumption)"

section \<open>Witnesses\<close>

record witness =
  wsrc :: config_id
  wdst :: config_id
  wregime :: regime_id

definition canon_write_witness :: "witness \<Rightarrow> canon_writer \<Rightarrow> canon_writer" where
  "canon_write_witness v w =
     canon_write_id (wregime v) (canon_write_id (wdst v) (canon_write_id (wsrc v) w))"

definition witness_id :: "(bytes \<Rightarrow> bytes) \<Rightarrow> witness \<Rightarrow> witness_id" where
  "witness_id blake3 v = id_of blake3 (canon_write_witness v)"

definition WITNESS_COMPOSE_TAG :: string where
  "WITNESS_COMPOSE_TAG = ''brix.semantic.WitnessId.compose''"

definition WITNESS_TENSOR_TAG :: string where
  "WITNESS_TENSOR_TAG = ''brix.semantic.WitnessId.tensor''"

definition compose_payload :: "witness_id \<Rightarrow> witness_id \<Rightarrow> bytes" where
  "compose_payload outer inner =
     finish (write_bytes inner (write_bytes outer (write_tag WITNESS_COMPOSE_TAG canon_new)))"

definition compose :: "(bytes \<Rightarrow> bytes) \<Rightarrow> witness_id \<Rightarrow> witness_id \<Rightarrow> witness_id" where
  "compose blake3 outer inner = from_canon blake3 (compose_payload outer inner)"

definition tensor_payload :: "witness_id \<Rightarrow> witness_id \<Rightarrow> bytes" where
  "tensor_payload left right =
     finish (write_bytes right (write_bytes left (write_tag WITNESS_TENSOR_TAG canon_new)))"

definition tensor :: "(bytes \<Rightarrow> bytes) \<Rightarrow> witness_id \<Rightarrow> witness_id \<Rightarrow> witness_id" where
  "tensor blake3 left right = from_canon blake3 (tensor_payload left right)"

text \<open>The two folds: \<open>first()?\<close>, then a loop over the rest.\<close>

fun compose_chain :: "(bytes \<Rightarrow> bytes) \<Rightarrow> generator_id list \<Rightarrow> witness_id option" where
  "compose_chain blake3 [] = None"
| "compose_chain blake3 (first # rest) = Some (foldl (\<lambda>acc g. compose blake3 g acc) first rest)"

fun tensor_chain :: "(bytes \<Rightarrow> bytes) \<Rightarrow> witness_id list \<Rightarrow> witness_id option" where
  "tensor_chain blake3 [] = None"
| "tensor_chain blake3 (first # rest) = Some (foldl (\<lambda>acc v. tensor blake3 acc v) first rest)"

section \<open>Generators and realization statements\<close>

text \<open>A \<open>BTreeSet\<close> of generator ids, kept as its sorted element list.\<close>

type_synonym generator_registry = "generator_id list"

fun registry_insert :: "generator_id \<Rightarrow> generator_registry \<Rightarrow> bool \<times> generator_registry" where
  "registry_insert g [] = (True, [g])"
| "registry_insert g (x # xs) =
     (if g = x then (False, x # xs)
      else if g < x then (True, g # x # xs)
      else (let (b, ys) = registry_insert g xs in (b, x # ys)))"

definition registry_contains :: "generator_registry \<Rightarrow> generator_id \<Rightarrow> bool" where
  "registry_contains r g \<longleftrightarrow> g \<in> set r"

definition canon_write_registry :: "generator_registry \<Rightarrow> canon_writer \<Rightarrow> canon_writer" where
  "canon_write_registry r w = write_set (map (\<lambda>g. canon_bytes (canon_write_id g)) r) w"

definition registry_id :: "(bytes \<Rightarrow> bytes) \<Rightarrow> generator_registry \<Rightarrow> digest" where
  "registry_id blake3 r = id_of blake3 (canon_write_registry r)"

record realizes_stmt =
  rwitness :: witness_id
  rsrc :: config_id
  rdst :: config_id

definition canon_write_realizes :: "realizes_stmt \<Rightarrow> canon_writer \<Rightarrow> canon_writer" where
  "canon_write_realizes r w =
     canon_write_id (rdst r) (canon_write_id (rsrc r) (canon_write_id (rwitness r) w))"

definition realizes_proposition_id :: "(bytes \<Rightarrow> bytes) \<Rightarrow> realizes_stmt \<Rightarrow> proposition_id" where
  "realizes_proposition_id blake3 r = id_of blake3 (canon_write_realizes r)"

section \<open>Outcomes\<close>

datatype outcome = Proven | Refuted | Derived | Measured | Unknown | Audited

datatype authority = ProofKernel | SettlementKernel | ExternalDriver | AnyResolver | AuditChecker

fun outcome_authority :: "outcome \<Rightarrow> authority" where
  "outcome_authority Proven = ProofKernel"
| "outcome_authority Refuted = ProofKernel"
| "outcome_authority Derived = SettlementKernel"
| "outcome_authority Measured = ExternalDriver"
| "outcome_authority Unknown = AnyResolver"
| "outcome_authority Audited = AuditChecker"

definition is_theorem :: "outcome \<Rightarrow> bool" where
  "is_theorem oc = (oc = Proven \<or> oc = Refuted)"

definition is_bottom :: "outcome \<Rightarrow> bool" where
  "is_bottom oc = (oc = Unknown)"

fun outcome_ordinal :: "outcome \<Rightarrow> u64" where
  "outcome_ordinal Proven = 0"
| "outcome_ordinal Refuted = 1"
| "outcome_ordinal Derived = 2"
| "outcome_ordinal Measured = 3"
| "outcome_ordinal Unknown = 4"
| "outcome_ordinal Audited = 5"

fun spine_rank :: "outcome \<Rightarrow> nat option" where
  "spine_rank Unknown = Some 0"
| "spine_rank Measured = Some 1"
| "spine_rank Derived = Some 2"
| "spine_rank Audited = Some 3"
| "spine_rank Proven = None"
| "spine_rank Refuted = None"

definition lattice_le :: "outcome \<Rightarrow> outcome \<Rightarrow> bool" where
  "lattice_le a b =
     (case (spine_rank a, spine_rank b) of
        (Some x, Some y) \<Rightarrow> x \<le> y
      | (Some _, None) \<Rightarrow> True
      | (None, Some _) \<Rightarrow> False
      | (None, None) \<Rightarrow> a = Proven \<and> b = Proven \<or> a = Refuted \<and> b = Refuted)"

definition canon_write_outcome :: "outcome \<Rightarrow> canon_writer \<Rightarrow> canon_writer" where
  "canon_write_outcome oc w = write_enum (outcome_ordinal oc) (\<lambda>w. w) w"

section \<open>Evidence, dependencies, judgements\<close>

datatype durability = Durable | RevisionScoped

datatype evidence =
    KernelCertificate verifier_id certificate_id
  | KernelRefutation verifier_id certificate_id
  | GroundAssertion digest
  | SettlementReplay digest
  | Measurement digest
  | Suggestion digest
  | CertifiedExternalResult digest
  | TreeDerivationEvidence digest

fun evidence_durability :: "evidence \<Rightarrow> durability" where
  "evidence_durability (KernelCertificate _ _) = Durable"
| "evidence_durability (KernelRefutation _ _) = Durable"
| "evidence_durability _ = RevisionScoped"

fun evidence_ordinal :: "evidence \<Rightarrow> u64" where
  "evidence_ordinal (KernelCertificate _ _) = 0"
| "evidence_ordinal (KernelRefutation _ _) = 1"
| "evidence_ordinal (GroundAssertion _) = 2"
| "evidence_ordinal (SettlementReplay _) = 3"
| "evidence_ordinal (Measurement _) = 4"
| "evidence_ordinal (Suggestion _) = 5"
| "evidence_ordinal (CertifiedExternalResult _) = 6"
| "evidence_ordinal (TreeDerivationEvidence _) = 7"

definition canon_write_evidence :: "evidence \<Rightarrow> canon_writer \<Rightarrow> canon_writer" where
  "canon_write_evidence e w =
     write_enum (evidence_ordinal e)
       (\<lambda>w. case e of
          KernelCertificate v c \<Rightarrow> canon_write_id c (canon_write_id v w)
        | KernelRefutation v c \<Rightarrow> canon_write_id c (canon_write_id v w)
        | GroundAssertion b \<Rightarrow> write_bytes b w
        | SettlementReplay b \<Rightarrow> write_bytes b w
        | Measurement b \<Rightarrow> write_bytes b w
        | Suggestion b \<Rightarrow> write_bytes b w
        | CertifiedExternalResult b \<Rightarrow> write_bytes b w
        | TreeDerivationEvidence b \<Rightarrow> write_bytes b w) w"

definition evidence_id :: "(bytes \<Rightarrow> bytes) \<Rightarrow> evidence \<Rightarrow> evidence_id" where
  "evidence_id blake3 e = id_of blake3 (canon_write_evidence e)"

datatype edge_kind = Premise | Assumption | Revision | Rule | Checker | ElaborationBoundary

fun edge_ordinal :: "edge_kind \<Rightarrow> u64" where
  "edge_ordinal Premise = 0"
| "edge_ordinal Assumption = 1"
| "edge_ordinal Revision = 2"
| "edge_ordinal Rule = 3"
| "edge_ordinal Checker = 4"
| "edge_ordinal ElaborationBoundary = 5"

record dependency =
  dkind :: edge_kind
  dtarget :: digest

definition is_elaboration_boundary :: "dependency \<Rightarrow> bool" where
  "is_elaboration_boundary d = (dkind d = ElaborationBoundary)"

definition canon_write_dependency :: "dependency \<Rightarrow> canon_writer \<Rightarrow> canon_writer" where
  "canon_write_dependency d w =
     write_bytes (dtarget d) (write_enum (edge_ordinal (dkind d)) (\<lambda>w. w) w)"

record judgement =
  jcontext :: context_id
  jproposition :: proposition_id
  joutcome :: outcome
  jevidence :: evidence_id

definition canon_write_judgement :: "judgement \<Rightarrow> canon_writer \<Rightarrow> canon_writer" where
  "canon_write_judgement j w =
     canon_write_id (jevidence j) (canon_write_outcome (joutcome j)
       (canon_write_id (jproposition j) (canon_write_id (jcontext j) w)))"

definition judgement_id :: "(bytes \<Rightarrow> bytes) \<Rightarrow> judgement \<Rightarrow> judgement_id" where
  "judgement_id blake3 j = id_of blake3 (canon_write_judgement j)"

definition judgement_recompute ::
  "(bytes \<Rightarrow> bytes) \<Rightarrow> context_id \<Rightarrow> proposition_id \<Rightarrow> outcome \<Rightarrow> evidence_id \<Rightarrow> judgement_id" where
  "judgement_recompute blake3 c p oc e =
     judgement_id blake3 \<lparr>jcontext = c, jproposition = p, joutcome = oc, jevidence = e\<rparr>"

section \<open>What the encodings determine\<close>

lemma wf_digest_fits: "wf_digest d \<Longrightarrow> fits d"
  by (simp add: wf_digest_def fits_def)

lemma canon_write_id_out [out_simps]: "canon_write_id i w = w\<lparr>buf := buf w @ framed i\<rparr>"
  by (simp add: canon_write_id_def out_simps)

lemma finish_new [simp]: "finish (canon_new\<lparr>buf := bs\<rparr>) = bs" "buf canon_new = []"
  by (simp_all add: finish_def canon_new_def)

lemma compose_payload_eq: "compose_payload a b = framed (as_bytes WITNESS_COMPOSE_TAG) @ framed a @ framed b"
  by (simp add: compose_payload_def out_simps)

lemma tensor_payload_eq: "tensor_payload a b = framed (as_bytes WITNESS_TENSOR_TAG) @ framed a @ framed b"
  by (simp add: tensor_payload_def out_simps)

lemma extend_payload_eq:
  "extend_payload c a = framed (as_bytes ''brix.semantic.ContextId.extend'') @ framed c @ framed a"
  by (simp add: extend_payload_def out_simps)

lemma tag_fits: "length s < 2 ^ 64 \<Longrightarrow> fits (as_bytes s)"
  by (simp add: fits_def as_bytes_def)

lemma framed_id_iff:
  "wf_digest a \<Longrightarrow> wf_digest b \<Longrightarrow> framed a @ xs = framed b @ ys \<longleftrightarrow> a = b \<and> xs = ys"
  using framed_code.append_eq_iff wf_digest_fits by blast

lemma tagged_iff:
  assumes "length s < 2 ^ 64" "length t < 2 ^ 64"
  shows "framed (as_bytes s) @ xs = framed (as_bytes t) @ ys \<longleftrightarrow> s = t \<and> xs = ys"
  using framed_code.append_eq_iff[OF tag_fits[OF assms(1)] tag_fits[OF assms(2)]] by (simp add: as_bytes_inj)

lemma payload_inj:
  assumes "wf_digest a" "wf_digest b" "wf_digest c" "wf_digest d"
  shows "compose_payload a b = compose_payload c d \<longleftrightarrow> a = c \<and> b = d"
    "tensor_payload a b = tensor_payload c d \<longleftrightarrow> a = c \<and> b = d"
    "compose_payload a b \<noteq> tensor_payload c d"
  using assms framed_id_iff[of b d "[]" "[]"]
  by (simp_all add: compose_payload_eq tensor_payload_eq tagged_iff framed_id_iff
      WITNESS_COMPOSE_TAG_def WITNESS_TENSOR_TAG_def)

section \<open>The outcome order\<close>

instantiation outcome :: "{order_bot, semilattice_inf}"
begin

definition less_eq_outcome_def: "a \<le> b \<longleftrightarrow> lattice_le a b"

definition less_outcome_def: "(a :: outcome) < b \<longleftrightarrow> a \<le> b \<and> \<not> b \<le> a"

definition bot_outcome_def: "bot = Unknown"

definition inf_outcome_def:
  "inf a b = (if lattice_le a b then a else if lattice_le b a then b else Audited)"

instance
proof
  fix x y z :: outcome
  show "x < y \<longleftrightarrow> x \<le> y \<and> \<not> y \<le> x" by (simp add: less_outcome_def)
  show "x \<le> x" by (cases x) (simp_all add: less_eq_outcome_def lattice_le_def)
  show "x \<le> y \<Longrightarrow> y \<le> z \<Longrightarrow> x \<le> z"
    by (cases x; cases y; cases z) (simp_all add: less_eq_outcome_def lattice_le_def)
  show "x \<le> y \<Longrightarrow> y \<le> x \<Longrightarrow> x = y"
    by (cases x; cases y) (simp_all add: less_eq_outcome_def lattice_le_def)
  show "bot \<le> x" by (cases x) (simp_all add: less_eq_outcome_def lattice_le_def bot_outcome_def)
  show "inf x y \<le> x" "inf x y \<le> y"
    by (cases x; cases y; simp add: less_eq_outcome_def lattice_le_def inf_outcome_def)+
  show "x \<le> y \<Longrightarrow> x \<le> z \<Longrightarrow> x \<le> inf y z"
    by (cases x; cases y; cases z) (simp_all add: less_eq_outcome_def lattice_le_def inf_outcome_def)
qed

end

section \<open>Encodings of outcomes, evidence and judgements\<close>

definition evidence_wf :: "evidence \<Rightarrow> bool" where
  "evidence_wf e =
     (case e of
        KernelCertificate v c \<Rightarrow> wf_digest v \<and> wf_digest c
      | KernelRefutation v c \<Rightarrow> wf_digest v \<and> wf_digest c
      | GroundAssertion b \<Rightarrow> wf_digest b
      | SettlementReplay b \<Rightarrow> wf_digest b
      | Measurement b \<Rightarrow> wf_digest b
      | Suggestion b \<Rightarrow> wf_digest b
      | CertifiedExternalResult b \<Rightarrow> wf_digest b
      | TreeDerivationEvidence b \<Rightarrow> wf_digest b)"

definition evidence_body :: "evidence \<Rightarrow> bytes" where
  "evidence_body e =
     (case e of
        KernelCertificate v c \<Rightarrow> framed v @ framed c
      | KernelRefutation v c \<Rightarrow> framed v @ framed c
      | GroundAssertion b \<Rightarrow> framed b
      | SettlementReplay b \<Rightarrow> framed b
      | Measurement b \<Rightarrow> framed b
      | Suggestion b \<Rightarrow> framed b
      | CertifiedExternalResult b \<Rightarrow> framed b
      | TreeDerivationEvidence b \<Rightarrow> framed b)"

lemma canon_write_evidence_out [out_simps]:
  "canon_write_evidence e w = w\<lparr>buf := buf w @ uint_bytes (ucast (evidence_ordinal e)) @ evidence_body e\<rparr>"
  by (cases e) (simp_all add: canon_write_evidence_def evidence_body_def out_simps)

interpretation evidence_code: unique_code
  "\<lambda>e. uint_bytes (ucast (evidence_ordinal e)) @ evidence_body e" evidence_wf
proof
  fix v w xs ys
  assume wf: "evidence_wf v" "evidence_wf w"
    and eq: "(uint_bytes (ucast (evidence_ordinal v)) @ evidence_body v) @ xs
      = (uint_bytes (ucast (evidence_ordinal w)) @ evidence_body w) @ ys"
  have "evidence_ordinal v = evidence_ordinal w" "evidence_body v @ xs = evidence_body w @ ys"
    using eq u64_code.append_eq_iff by auto
  then show "v = w \<and> xs = ys"
    using wf by (cases v; cases w) (auto simp: evidence_wf_def evidence_body_def framed_id_iff)
qed

lemma canon_write_outcome_out [out_simps]:
  "canon_write_outcome x w = w\<lparr>buf := buf w @ uint_bytes (ucast (outcome_ordinal x))\<rparr>"
  by (simp add: canon_write_outcome_def out_simps)

lemma outcome_ordinal_inj: "outcome_ordinal x = outcome_ordinal y \<longleftrightarrow> x = y"
  by (cases x; cases y) simp_all

interpretation outcome_code: unique_code "\<lambda>x. uint_bytes (ucast (outcome_ordinal x))" "\<lambda>_. True"
  by unfold_locales (use u64_code.unique_readable outcome_ordinal_inj in blast)

definition judgement_wf :: "judgement \<Rightarrow> bool" where
  "judgement_wf j \<longleftrightarrow> wf_digest (jcontext j) \<and> wf_digest (jproposition j) \<and> wf_digest (jevidence j)"

definition judgement_bytes :: "judgement \<Rightarrow> bytes" where
  "judgement_bytes j = framed (jcontext j) @ framed (jproposition j)
     @ uint_bytes (ucast (outcome_ordinal (joutcome j))) @ framed (jevidence j)"

lemma canon_write_judgement_out [out_simps]:
  "canon_write_judgement j w = w\<lparr>buf := buf w @ judgement_bytes j\<rparr>"
  by (simp add: canon_write_judgement_def judgement_bytes_def out_simps)

interpretation judgement_code: unique_code judgement_bytes judgement_wf
  by unfold_locales
    (auto simp: judgement_bytes_def judgement_wf_def framed_id_iff outcome_code.append_eq_iff)

lemma canon_bytes_judgement: "canon_bytes (canon_write_judgement j) = judgement_bytes j"
  by (rule canon_bytes_out) (simp add: out_simps)

lemma canon_bytes_evidence:
  "canon_bytes (canon_write_evidence e) = uint_bytes (ucast (evidence_ordinal e)) @ evidence_body e"
  by (rule canon_bytes_out) (simp add: out_simps)

section \<open>Properties\<close>

text \<open>
  The outcome order is what its documentation draws: \<open>lattice_le\<close> is a partial order with
  bottom \<open>Unknown\<close> in which any two outcomes have a greatest lower bound; the two poles
  \<open>Proven\<close> and \<open>Refuted\<close> have the meet \<open>Audited\<close>, and the theorems are exactly the
  maximal outcomes, those published by the proof kernel alone.
\<close>

theorem outcome_lattice:
  "lattice_le a a \<and> lattice_le Unknown a \<and>
   \<not> (lattice_le a b \<and> lattice_le b a \<and> a \<noteq> b) \<and>
   \<not> (lattice_le a b \<and> lattice_le b c \<and> \<not> lattice_le a c) \<and>
   (\<exists>m. \<forall>x. lattice_le x m \<longleftrightarrow> lattice_le x a \<and> lattice_le x b) \<and>
   (lattice_le a Proven \<and> lattice_le a Refuted \<longleftrightarrow> lattice_le a Audited) \<and>
   (is_theorem a \<longleftrightarrow> \<not> (\<exists>y. lattice_le a y \<and> y \<noteq> a)) \<and>
   (is_theorem a \<longleftrightarrow> outcome_authority a = ProofKernel)"
proof -
  have "\<exists>m. \<forall>x. lattice_le x m \<longleftrightarrow> lattice_le x a \<and> lattice_le x b"
    by (rule exI[of _ "inf a b"]) (simp flip: less_eq_outcome_def)
  moreover have "lattice_le a Proven \<and> lattice_le a Refuted \<longleftrightarrow> lattice_le a Audited"
    by (cases a) (simp_all add: lattice_le_def)
  moreover have "is_theorem a \<longleftrightarrow> \<not> (\<exists>y. lattice_le a y \<and> y \<noteq> a)"
  proof (cases "is_theorem a")
    case True
    have "\<not> (lattice_le a y \<and> y \<noteq> a)" for y
      using True by (cases y) (auto simp: is_theorem_def lattice_le_def)
    then show ?thesis using True by blast
  next
    case False
    then have "lattice_le a Proven \<and> Proven \<noteq> a"
      by (cases a) (simp_all add: is_theorem_def lattice_le_def)
    then show ?thesis using False by blast
  qed
  moreover have "is_theorem a \<longleftrightarrow> outcome_authority a = ProofKernel"
    by (cases a) (simp_all add: is_theorem_def)
  moreover have "lattice_le Unknown a" using bot.extremum[of a] by (simp add: less_eq_outcome_def bot_outcome_def)
  ultimately show ?thesis
    using order.trans[of a b c] order.antisym[of a b] order.refl[of a]
    by (simp only: less_eq_outcome_def) blast
qed

text \<open>
  Witness composition and tensor hash what they say: for 32-byte identities the hashed payload
  determines the operation, both operands and their order, so two different composites (or a
  composite and a tensor) share an identity only by a collision of the hash function.
\<close>

theorem witness_payload_faithful:
  assumes "wf_digest a" "wf_digest b" "wf_digest c" "wf_digest d"
  shows "(compose_payload a b = compose_payload c d \<longleftrightarrow> a = c \<and> b = d) \<and>
    (tensor_payload a b = tensor_payload c d \<longleftrightarrow> a = c \<and> b = d) \<and>
    compose_payload a b \<noteq> tensor_payload c d"
  using payload_inj[OF assms] by blast

theorem witness_payload_faithful_witness:
  "compose_payload (replicate 32 1) (replicate 32 2) \<noteq> compose_payload (replicate 32 2) (replicate 32 1)"
  using witness_payload_faithful[of "replicate 32 1" "replicate 32 2" "replicate 32 2" "replicate 32 1"]
  by (simp add: wf_digest_def)

text \<open>
  The canonical encodings of judgements and of evidence determine them: context, proposition,
  outcome and evidence of a judgement, and variant and bodies of the evidence, are recovered from
  the bytes that the identities hash.
\<close>

theorem judgement_encoding_faithful:
  assumes "judgement_wf i" "judgement_wf j" "evidence_wf e" "evidence_wf f"
  shows "(canon_bytes (canon_write_judgement i) = canon_bytes (canon_write_judgement j) \<longleftrightarrow> i = j) \<and>
    (canon_bytes (canon_write_evidence e) = canon_bytes (canon_write_evidence f) \<longleftrightarrow> e = f)"
  unfolding canon_bytes_judgement canon_bytes_evidence
  using judgement_code.enc_inj[OF assms(1,2)] evidence_code.enc_inj[OF assms(3,4)] by blast

theorem judgement_encoding_faithful_witness:
  "canon_bytes (canon_write_evidence (Measurement (replicate 32 1)))
     \<noteq> canon_bytes (canon_write_evidence (Suggestion (replicate 32 1)))"
proof -
  define d :: digest where "d = replicate 32 1"
  define j where "j = \<lparr>jcontext = d, jproposition = d, joutcome = Proven, jevidence = d\<rparr>"
  have "judgement_wf j" "evidence_wf (Measurement d)" "evidence_wf (Suggestion d)"
    by (simp_all add: judgement_wf_def j_def d_def evidence_wf_def wf_digest_def)
  then show ?thesis
    unfolding d_def[symmetric] using judgement_encoding_faithful[of j j "Measurement d" "Suggestion d"] by simp
qed

end
