(* ===== verification/Kernel_Term.thy ===== *)
theory Kernel_Term
  imports Semantic_Ids
begin

text \<open>
  Object terms, propositions and proof terms of the kernel, from
  \<open>crates/brix-kernel/src/term.rs\<close>: the datatypes with their constructors, witness digests,
  substitution (\<open>instantiate\<close>), and the canonical encodings. A \<open>usize\<close> index is a natural
  number, written as a \<open>u64\<close>.
\<close>

section \<open>Object terms\<close>

datatype object_term =
    Const proposition_id
  | BoundVar nat
  | Compose object_term object_term
  | Tensor object_term object_term

fun witness_digest :: "(bytes \<Rightarrow> bytes) \<Rightarrow> object_term \<Rightarrow> witness_id" where
  "witness_digest blake3 (Const i) = i"
| "witness_digest blake3 (Compose outer inner) =
     compose blake3 (witness_digest blake3 outer) (witness_digest blake3 inner)"
| "witness_digest blake3 (Tensor left right) =
     tensor blake3 (witness_digest blake3 left) (witness_digest blake3 right)"
| "witness_digest blake3 (BoundVar _) =
     from_canon blake3 (as_bytes ''brix.kernel.witness_digest.bound_var'')"

section \<open>Propositions\<close>

datatype kprop =
    Atom proposition_id
  | Impl kprop kprop
  | Prod kprop kprop
  | Sum kprop kprop
  | Eq object_term object_term
  | Exists kprop
  | Applied proposition_id "object_term list"
  | Realizes object_term object_term object_term
  | Preserves object_term kprop

section \<open>Proof terms\<close>

datatype var = Index nat | Named string

datatype term_kind =
    Hyp var
  | Lam "string option" term_kind
  | App term_kind term_kind
  | PairT term_kind term_kind
  | Proj1 term_kind
  | Proj2 term_kind
  | InlT term_kind
  | InrT term_kind
  | CaseT term_kind "string option" term_kind "string option" term_kind
  | Unsupported string
  | Refl object_term
  | Subst term_kind kprop term_kind
  | Pack object_term term_kind
  | Unpack term_kind "string option" "string option" term_kind
  | Pres term_kind term_kind kprop term_kind
  | RealizesComp term_kind term_kind
  | RealizesTensor term_kind term_kind
  | PrimRealizes digest object_term object_term

record explicit_term =
  tcontext :: context_id
  tkind :: term_kind

section \<open>Substitution\<close>

text \<open>
  A bound variable and the binder depth are \<open>usize\<close>. Their sums wrap, as in a release build; a build with
  overflow checks panics at the same sums.
\<close>

definition usize_add :: "nat \<Rightarrow> nat \<Rightarrow> nat" where
  "usize_add a b = (a + b) mod 2 ^ 64"

fun shift_object_term :: "object_term \<Rightarrow> nat \<Rightarrow> object_term" where
  "shift_object_term t amount =
     (if amount = 0 then t
      else case t of
        Const c \<Rightarrow> Const c
      | BoundVar idx \<Rightarrow> BoundVar (usize_add idx amount)
      | Compose g2 g1 \<Rightarrow> Compose (shift_object_term g2 amount) (shift_object_term g1 amount)
      | Tensor l r \<Rightarrow> Tensor (shift_object_term l amount) (shift_object_term r amount))"

declare shift_object_term.simps [simp del]

fun subst_obj :: "object_term \<Rightarrow> object_term \<Rightarrow> nat \<Rightarrow> object_term" where
  "subst_obj (Const c) replacement depth = Const c"
| "subst_obj (BoundVar idx) replacement depth =
     (if idx = depth then shift_object_term replacement depth
      else if idx > depth then BoundVar (idx - 1)
      else BoundVar idx)"
| "subst_obj (Compose g2 g1) replacement depth =
     Compose (subst_obj g2 replacement depth) (subst_obj g1 replacement depth)"
| "subst_obj (Tensor l r) replacement depth =
     Tensor (subst_obj l replacement depth) (subst_obj r replacement depth)"

fun subst_prop :: "kprop \<Rightarrow> object_term \<Rightarrow> nat \<Rightarrow> kprop" where
  "subst_prop (Atom i) replacement depth = Atom i"
| "subst_prop (Impl p q) replacement depth = Impl (subst_prop p replacement depth) (subst_prop q replacement depth)"
| "subst_prop (Prod p q) replacement depth = Prod (subst_prop p replacement depth) (subst_prop q replacement depth)"
| "subst_prop (Sum p q) replacement depth = Sum (subst_prop p replacement depth) (subst_prop q replacement depth)"
| "subst_prop (Eq s t) replacement depth = Eq (subst_obj s replacement depth) (subst_obj t replacement depth)"
| "subst_prop (Exists body) replacement depth = Exists (subst_prop body replacement (usize_add depth 1))"
| "subst_prop (Applied pred args) replacement depth = Applied pred (map (\<lambda>a. subst_obj a replacement depth) args)"
| "subst_prop (Realizes w x y) replacement depth =
     Realizes (subst_obj w replacement depth) (subst_obj x replacement depth) (subst_obj y replacement depth)"
| "subst_prop (Preserves w motive) replacement depth =
     Preserves (subst_obj w replacement depth) (subst_prop motive replacement depth)"

definition instantiate :: "kprop \<Rightarrow> object_term \<Rightarrow> kprop" where
  "instantiate pred replacement = subst_prop pred replacement 0"

text \<open>Where a sum wraps, a free variable of the replacement is captured.\<close>

lemma instantiate_captures:
  "instantiate (Exists (Eq (BoundVar 1) (BoundVar 0))) (BoundVar (2 ^ 64 - 1)) = Exists (Eq (BoundVar 0) (BoundVar 0))"
  by (simp add: instantiate_def usize_add_def shift_object_term.simps)

section \<open>Canonical encodings\<close>

definition write_index :: "nat \<Rightarrow> canon_writer \<Rightarrow> canon_writer" where
  "write_index idx w = write_uint (word_of_nat idx) w"

fun canon_write_object :: "object_term \<Rightarrow> canon_writer \<Rightarrow> canon_writer" where
  "canon_write_object (Const i) w = write_enum 0 (canon_write_id i) w"
| "canon_write_object (BoundVar idx) w = write_enum 1 (write_index idx) w"
| "canon_write_object (Compose g2 g1) w =
     write_enum 2 (\<lambda>w. canon_write_object g1 (canon_write_object g2 w)) w"
| "canon_write_object (Tensor l r) w =
     write_enum 3 (\<lambda>w. canon_write_object r (canon_write_object l w)) w"

fun canon_write_prop :: "kprop \<Rightarrow> canon_writer \<Rightarrow> canon_writer" where
  "canon_write_prop (Atom i) w = write_enum 0 (canon_write_id i) w"
| "canon_write_prop (Impl p q) w = write_enum 1 (\<lambda>w. canon_write_prop q (canon_write_prop p w)) w"
| "canon_write_prop (Prod p q) w = write_enum 2 (\<lambda>w. canon_write_prop q (canon_write_prop p w)) w"
| "canon_write_prop (Sum p q) w = write_enum 3 (\<lambda>w. canon_write_prop q (canon_write_prop p w)) w"
| "canon_write_prop (Eq s t) w = write_enum 4 (\<lambda>w. canon_write_object t (canon_write_object s w)) w"
| "canon_write_prop (Exists body) w = write_enum 5 (canon_write_prop body) w"
| "canon_write_prop (Applied pred args) w =
     write_enum 6 (\<lambda>w. canon_write_vec canon_write_object args (canon_write_id pred w)) w"
| "canon_write_prop (Realizes a x y) w =
     write_enum 7 (\<lambda>w. canon_write_object y (canon_write_object x (canon_write_object a w))) w"
| "canon_write_prop (Preserves a motive) w =
     write_enum 8 (\<lambda>w. canon_write_prop motive (canon_write_object a w)) w"

definition prop_proposition_id :: "(bytes \<Rightarrow> bytes) \<Rightarrow> kprop \<Rightarrow> proposition_id" where
  "prop_proposition_id blake3 p = id_of blake3 (canon_write_prop p)"

fun canon_write_var :: "var \<Rightarrow> canon_writer \<Rightarrow> canon_writer" where
  "canon_write_var (Index idx) w = write_enum 0 (write_index idx) w"
| "canon_write_var (Named name) w = write_enum 1 (write_str name) w"

abbreviation write_name :: "string option \<Rightarrow> canon_writer \<Rightarrow> canon_writer" where
  "write_name \<equiv> canon_write_option write_str"

fun canon_write_kind :: "term_kind \<Rightarrow> canon_writer \<Rightarrow> canon_writer" where
  "canon_write_kind (Hyp v) w = write_enum 0 (canon_write_var v) w"
| "canon_write_kind (Lam nm body) w = write_enum 1 (\<lambda>w. canon_write_kind body (write_name nm w)) w"
| "canon_write_kind (App f a) w = write_enum 2 (\<lambda>w. canon_write_kind a (canon_write_kind f w)) w"
| "canon_write_kind (PairT a b) w = write_enum 3 (\<lambda>w. canon_write_kind b (canon_write_kind a w)) w"
| "canon_write_kind (Proj1 t) w = write_enum 4 (canon_write_kind t) w"
| "canon_write_kind (Proj2 t) w = write_enum 5 (canon_write_kind t) w"
| "canon_write_kind (InlT t) w = write_enum 6 (canon_write_kind t) w"
| "canon_write_kind (InrT t) w = write_enum 7 (canon_write_kind t) w"
| "canon_write_kind (CaseT d lv l rv r) w =
     write_enum 8 (\<lambda>w. canon_write_kind r (write_name rv (canon_write_kind l (write_name lv (canon_write_kind d w))))) w"
| "canon_write_kind (Unsupported msg) w = write_enum 9 (write_str msg) w"
| "canon_write_kind (Refl t) w = write_enum 10 (canon_write_object t) w"
| "canon_write_kind (Subst e motive sub) w =
     write_enum 11 (\<lambda>w. canon_write_kind sub (canon_write_prop motive (canon_write_kind e w))) w"
| "canon_write_kind (Pack witness body) w =
     write_enum 12 (\<lambda>w. canon_write_kind body (canon_write_object witness w)) w"
| "canon_write_kind (Unpack scrut ov pv body) w =
     write_enum 13 (\<lambda>w. canon_write_kind body (write_name pv (write_name ov (canon_write_kind scrut w)))) w"
| "canon_write_kind (Pres rl pr motive sub) w =
     write_enum 14 (\<lambda>w. canon_write_kind sub (canon_write_prop motive (canon_write_kind pr (canon_write_kind rl w)))) w"
| "canon_write_kind (RealizesComp l r) w = write_enum 15 (\<lambda>w. canon_write_kind r (canon_write_kind l w)) w"
| "canon_write_kind (RealizesTensor l r) w = write_enum 16 (\<lambda>w. canon_write_kind r (canon_write_kind l w)) w"
| "canon_write_kind (PrimRealizes rel src dst) w =
     write_enum 17 (\<lambda>w. canon_write_object dst (canon_write_object src (canon_write_id rel w))) w"

definition canon_write_term :: "explicit_term \<Rightarrow> canon_writer \<Rightarrow> canon_writer" where
  "canon_write_term t w = canon_write_kind (tkind t) (canon_write_id (tcontext t) w)"

section \<open>What the encodings append\<close>

definition ord :: "u64 \<Rightarrow> bytes" where
  "ord n = uint_bytes (ucast n)"

interpretation ord_code: unique_code ord "\<lambda>_. True"
  unfolding ord_def by (rule u64_code.unique_code_axioms)

declare write_enum_out [out_simps del]

lemma write_enum_ord [out_simps]: "write_enum n f w = f (w\<lparr>buf := buf w @ ord n\<rparr>)"
  by (simp add: write_enum_out ord_def)

fun obj_bytes :: "object_term \<Rightarrow> bytes" where
  "obj_bytes (Const i) = ord 0 @ framed i"
| "obj_bytes (BoundVar idx) = ord 1 @ len_bytes idx"
| "obj_bytes (Compose g2 g1) = ord 2 @ obj_bytes g2 @ obj_bytes g1"
| "obj_bytes (Tensor l r) = ord 3 @ obj_bytes l @ obj_bytes r"

lemma write_index_out [out_simps]: "write_index idx w = w\<lparr>buf := buf w @ len_bytes idx\<rparr>"
  by (simp add: write_index_def out_simps len_bytes_def)

lemma canon_write_object_out [out_simps]: "canon_write_object t w = w\<lparr>buf := buf w @ obj_bytes t\<rparr>"
  by (induction t arbitrary: w) (simp_all add: out_simps)

lemma canon_bytes_object: "canon_bytes (canon_write_object t) = obj_bytes t"
  by (rule canon_bytes_out) (simp add: out_simps)

definition args_bytes :: "object_term list \<Rightarrow> bytes" where
  "args_bytes args = len_bytes (length args) @ concat (map framed (map obj_bytes args))"

lemma canon_write_args_out [out_simps]:
  "canon_write_vec canon_write_object args w = w\<lparr>buf := buf w @ args_bytes args\<rparr>"
  by (simp add: canon_write_vec_def canon_bytes_object out_simps args_bytes_def comp_def)

fun prop_bytes :: "kprop \<Rightarrow> bytes" where
  "prop_bytes (Atom i) = ord 0 @ framed i"
| "prop_bytes (Impl p q) = ord 1 @ prop_bytes p @ prop_bytes q"
| "prop_bytes (Prod p q) = ord 2 @ prop_bytes p @ prop_bytes q"
| "prop_bytes (Sum p q) = ord 3 @ prop_bytes p @ prop_bytes q"
| "prop_bytes (Eq s t) = ord 4 @ obj_bytes s @ obj_bytes t"
| "prop_bytes (Exists body) = ord 5 @ prop_bytes body"
| "prop_bytes (Applied pred args) = ord 6 @ framed pred @ args_bytes args"
| "prop_bytes (Realizes a x y) = ord 7 @ obj_bytes a @ obj_bytes x @ obj_bytes y"
| "prop_bytes (Preserves a motive) = ord 8 @ obj_bytes a @ prop_bytes motive"

lemma canon_write_prop_out [out_simps]: "canon_write_prop p w = w\<lparr>buf := buf w @ prop_bytes p\<rparr>"
  by (induction p arbitrary: w) (simp_all add: out_simps)

fun name_bytes :: "string option \<Rightarrow> bytes" where
  "name_bytes None = ord 0"
| "name_bytes (Some s) = ord 1 @ framed (as_bytes s)"

lemma write_name_out [out_simps]: "write_name nm w = w\<lparr>buf := buf w @ name_bytes nm\<rparr>"
  by (cases nm) (simp_all add: out_simps ord_def)

fun var_bytes :: "var \<Rightarrow> bytes" where
  "var_bytes (Index idx) = ord 0 @ len_bytes idx"
| "var_bytes (Named s) = ord 1 @ framed (as_bytes s)"

lemma canon_write_var_out [out_simps]: "canon_write_var v w = w\<lparr>buf := buf w @ var_bytes v\<rparr>"
  by (cases v) (simp_all add: out_simps)

fun kind_bytes :: "term_kind \<Rightarrow> bytes" where
  "kind_bytes (Hyp v) = ord 0 @ var_bytes v"
| "kind_bytes (Lam nm body) = ord 1 @ name_bytes nm @ kind_bytes body"
| "kind_bytes (App f a) = ord 2 @ kind_bytes f @ kind_bytes a"
| "kind_bytes (PairT a b) = ord 3 @ kind_bytes a @ kind_bytes b"
| "kind_bytes (Proj1 t) = ord 4 @ kind_bytes t"
| "kind_bytes (Proj2 t) = ord 5 @ kind_bytes t"
| "kind_bytes (InlT t) = ord 6 @ kind_bytes t"
| "kind_bytes (InrT t) = ord 7 @ kind_bytes t"
| "kind_bytes (CaseT d lv l rv r) =
     ord 8 @ kind_bytes d @ name_bytes lv @ kind_bytes l @ name_bytes rv @ kind_bytes r"
| "kind_bytes (Unsupported msg) = ord 9 @ framed (as_bytes msg)"
| "kind_bytes (Refl t) = ord 10 @ obj_bytes t"
| "kind_bytes (Subst e motive sub) = ord 11 @ kind_bytes e @ prop_bytes motive @ kind_bytes sub"
| "kind_bytes (Pack witness body) = ord 12 @ obj_bytes witness @ kind_bytes body"
| "kind_bytes (Unpack scrut ov pv body) =
     ord 13 @ kind_bytes scrut @ name_bytes ov @ name_bytes pv @ kind_bytes body"
| "kind_bytes (Pres rl pr motive sub) =
     ord 14 @ kind_bytes rl @ kind_bytes pr @ prop_bytes motive @ kind_bytes sub"
| "kind_bytes (RealizesComp l r) = ord 15 @ kind_bytes l @ kind_bytes r"
| "kind_bytes (RealizesTensor l r) = ord 16 @ kind_bytes l @ kind_bytes r"
| "kind_bytes (PrimRealizes rel src dst) = ord 17 @ framed rel @ obj_bytes src @ obj_bytes dst"

lemma canon_write_kind_out [out_simps]: "canon_write_kind k w = w\<lparr>buf := buf w @ kind_bytes k\<rparr>"
  by (induction k arbitrary: w) (simp_all add: out_simps)

lemma canon_write_term_out [out_simps]:
  "canon_write_term t w = w\<lparr>buf := buf w @ framed (tcontext t) @ kind_bytes (tkind t)\<rparr>"
  by (simp add: canon_write_term_def out_simps)

section \<open>Values of the types\<close>

text \<open>
  The bounds of the Rust types: digests have 32 bytes, indices are \<open>usize\<close>, strings and
  encoded arguments have a \<open>usize\<close> length.
\<close>

fun obj_ok :: "object_term \<Rightarrow> bool" where
  "obj_ok (Const i) = wf_digest i"
| "obj_ok (BoundVar idx) = (idx < 2 ^ 64)"
| "obj_ok (Compose g2 g1) = (obj_ok g2 \<and> obj_ok g1)"
| "obj_ok (Tensor l r) = (obj_ok l \<and> obj_ok r)"

definition args_ok :: "object_term list \<Rightarrow> bool" where
  "args_ok args \<longleftrightarrow> fits args \<and> list_all (\<lambda>a. obj_ok a \<and> fits (obj_bytes a)) args"

fun prop_ok :: "kprop \<Rightarrow> bool" where
  "prop_ok (Atom i) = wf_digest i"
| "prop_ok (Impl p q) = (prop_ok p \<and> prop_ok q)"
| "prop_ok (Prod p q) = (prop_ok p \<and> prop_ok q)"
| "prop_ok (Sum p q) = (prop_ok p \<and> prop_ok q)"
| "prop_ok (Eq s t) = (obj_ok s \<and> obj_ok t)"
| "prop_ok (Exists body) = prop_ok body"
| "prop_ok (Applied pred args) = (wf_digest pred \<and> args_ok args)"
| "prop_ok (Realizes a x y) = (obj_ok a \<and> obj_ok x \<and> obj_ok y)"
| "prop_ok (Preserves a motive) = (obj_ok a \<and> prop_ok motive)"

abbreviation str_ok :: "string \<Rightarrow> bool" where
  "str_ok s \<equiv> fits (as_bytes s)"

abbreviation name_ok :: "string option \<Rightarrow> bool" where
  "name_ok nm \<equiv> pred_option str_ok nm"

fun var_ok :: "var \<Rightarrow> bool" where
  "var_ok (Index idx) = (idx < 2 ^ 64)"
| "var_ok (Named s) = str_ok s"

fun kind_ok :: "term_kind \<Rightarrow> bool" where
  "kind_ok (Hyp v) = var_ok v"
| "kind_ok (Lam nm body) = (name_ok nm \<and> kind_ok body)"
| "kind_ok (App f a) = (kind_ok f \<and> kind_ok a)"
| "kind_ok (PairT a b) = (kind_ok a \<and> kind_ok b)"
| "kind_ok (Proj1 t) = kind_ok t"
| "kind_ok (Proj2 t) = kind_ok t"
| "kind_ok (InlT t) = kind_ok t"
| "kind_ok (InrT t) = kind_ok t"
| "kind_ok (CaseT d lv l rv r) = (kind_ok d \<and> name_ok lv \<and> kind_ok l \<and> name_ok rv \<and> kind_ok r)"
| "kind_ok (Unsupported msg) = str_ok msg"
| "kind_ok (Refl t) = obj_ok t"
| "kind_ok (Subst e motive sub) = (kind_ok e \<and> prop_ok motive \<and> kind_ok sub)"
| "kind_ok (Pack witness body) = (obj_ok witness \<and> kind_ok body)"
| "kind_ok (Unpack scrut ov pv body) = (kind_ok scrut \<and> name_ok ov \<and> name_ok pv \<and> kind_ok body)"
| "kind_ok (Pres rl pr motive sub) = (kind_ok rl \<and> kind_ok pr \<and> prop_ok motive \<and> kind_ok sub)"
| "kind_ok (RealizesComp l r) = (kind_ok l \<and> kind_ok r)"
| "kind_ok (RealizesTensor l r) = (kind_ok l \<and> kind_ok r)"
| "kind_ok (PrimRealizes rel src dst) = (wf_digest rel \<and> obj_ok src \<and> obj_ok dst)"

section \<open>Unique readability\<close>

lemma obj_eq_iff: "obj_ok s \<Longrightarrow> obj_ok t \<Longrightarrow> obj_bytes s @ xs = obj_bytes t @ ys \<longleftrightarrow> s = t \<and> xs = ys"
proof (induction s arbitrary: t xs ys)
  case (Const i)
  then show ?case by (cases t) (simp_all add: ord_code.append_eq_iff framed_id_iff)
next
  case (BoundVar n)
  then show ?case by (cases t) (simp_all add: ord_code.append_eq_iff len_code.append_eq_iff)
next
  case (Compose s1 s2)
  then show ?case by (cases t) (simp_all add: ord_code.append_eq_iff conj_ac)
next
  case (Tensor s1 s2)
  then show ?case by (cases t) (simp_all add: ord_code.append_eq_iff conj_ac)
qed

interpretation obj_code: unique_code obj_bytes obj_ok
  by unfold_locales (simp add: obj_eq_iff)

interpretation args_code: unique_code args_bytes args_ok
proof
  fix v w xs ys
  assume a: "args_ok v" "args_ok w" "args_bytes v @ xs = args_bytes w @ ys"
  have "map obj_bytes v = map obj_bytes w \<and> xs = ys"
    using a list_code.append_eq_iff[of "map obj_bytes v" "map obj_bytes w" xs ys]
    by (simp add: args_ok_def args_bytes_def list_all_iff fits_def)
  moreover have "inj_on obj_bytes (set v \<union> set w)"
    using a(1,2) by (intro inj_onI) (metis UnE args_ok_def list_all_iff obj_code.enc_inj)
  ultimately show "v = w \<and> xs = ys" by (metis inj_on_map_eq_map)
qed

lemma prop_eq_iff:
  "prop_ok p \<Longrightarrow> prop_ok q \<Longrightarrow> prop_bytes p @ xs = prop_bytes q @ ys \<longleftrightarrow> p = q \<and> xs = ys"
  by (induction p arbitrary: q xs ys; case_tac q)
    (simp_all add: ord_code.append_eq_iff framed_id_iff obj_code.append_eq_iff args_code.append_eq_iff conj_ac)

interpretation prop_code: unique_code prop_bytes prop_ok
  by unfold_locales (simp add: prop_eq_iff)

lemma str_framed_iff: "str_ok s \<Longrightarrow> str_ok t \<Longrightarrow> framed (as_bytes s) @ xs = framed (as_bytes t) @ ys \<longleftrightarrow> s = t \<and> xs = ys"
  using framed_code.append_eq_iff as_bytes_inj by blast

interpretation name_code: unique_code name_bytes name_ok
proof
  fix v w xs ys
  assume "name_ok v" "name_ok w" "name_bytes v @ xs = name_bytes w @ ys"
  then show "v = w \<and> xs = ys"
    by (cases v; cases w) (auto simp: ord_code.append_eq_iff str_framed_iff)
qed

interpretation var_code: unique_code var_bytes var_ok
proof
  fix v w xs ys
  assume "var_ok v" "var_ok w" "var_bytes v @ xs = var_bytes w @ ys"
  then show "v = w \<and> xs = ys"
    by (cases v; cases w) (auto simp: ord_code.append_eq_iff str_framed_iff len_code.append_eq_iff)
qed

lemmas code_iffs = ord_code.append_eq_iff framed_id_iff obj_code.append_eq_iff prop_code.append_eq_iff
  name_code.append_eq_iff var_code.append_eq_iff str_framed_iff

lemma kind_eq_iff:
  "kind_ok k \<Longrightarrow> kind_ok l \<Longrightarrow> kind_bytes k @ xs = kind_bytes l @ ys \<longleftrightarrow> k = l \<and> xs = ys"
  by (induction k arbitrary: l xs ys; case_tac l) (simp_all add: code_iffs conj_ac)

interpretation kind_code: unique_code kind_bytes kind_ok
  by unfold_locales (simp add: kind_eq_iff)

lemma canon_bytes_kernel:
  "canon_bytes (canon_write_prop p) = prop_bytes p"
  "canon_bytes (canon_write_term t) = framed (tcontext t) @ kind_bytes (tkind t)"
  by (rule canon_bytes_out, simp add: out_simps)+

section \<open>Properties\<close>

text \<open>
  The canonical encodings of propositions and of proof terms are faithful: two values of the
  types have the same bytes only if they are the same, and no encoding is a proper prefix of
  another, so a proposition identity or certificate digest names one proposition and one term up
  to a collision of the hash function.
\<close>

theorem kernel_encodings_faithful:
  assumes "prop_ok p" "prop_ok q" "wf_digest (tcontext s)" "wf_digest (tcontext t)"
    "kind_ok (tkind s)" "kind_ok (tkind t)"
  shows "(canon_bytes (canon_write_prop p) @ xs = canon_bytes (canon_write_prop q) @ ys \<longleftrightarrow> p = q \<and> xs = ys) \<and>
    (canon_bytes (canon_write_term s) @ xs = canon_bytes (canon_write_term t) @ ys \<longleftrightarrow>
       tcontext s = tcontext t \<and> tkind s = tkind t \<and> xs = ys)"
  using assms by (simp add: canon_bytes_kernel prop_code.append_eq_iff framed_id_iff kind_code.append_eq_iff)

theorem kernel_encodings_faithful_witness:
  "canon_bytes (canon_write_prop (Impl (Atom (replicate 32 1)) (Atom (replicate 32 2))))
     \<noteq> canon_bytes (canon_write_prop (Impl (Atom (replicate 32 2)) (Atom (replicate 32 1))))"
  using kernel_encodings_faithful[of "Impl (Atom (replicate 32 1)) (Atom (replicate 32 2))"
      "Impl (Atom (replicate 32 2)) (Atom (replicate 32 1))"
      "\<lparr>tcontext = replicate 32 0, tkind = Hyp (Index 0)\<rparr>" "\<lparr>tcontext = replicate 32 0, tkind = Hyp (Index 0)\<rparr>" "[]" "[]"]
  by (simp add: wf_digest_def)

end
