(* ===== verification/Kernel_Cert.thy ===== *)
theory Kernel_Cert
  imports Kernel_Term
begin

text \<open>
  The native proof-certificate envelope, format version 1, from
  \<open>crates/brix-kernel/src/certificate.rs\<close>: the pinned preimage, the certificate identity, the
  structural decoder and the validator. The theory shows that the validator accepts exactly the
  one byte string the encoder produces for the expected artifacts.
\<close>

definition CERTIFICATE_MARKER :: bytes where
  "CERTIFICATE_MARKER = as_bytes ''brix.kernel.certificate''"

definition CERTIFICATE_FORMAT_V1 :: u64 where "CERTIFICATE_FORMAT_V1 = 1"

definition KERNEL_PROFILE_V1 :: string where "KERNEL_PROFILE_V1 = ''brix.kernel.profile@1.2''"

definition NATIVE_VERIFIER_NAME :: string where "NATIVE_VERIFIER_NAME = ''brix.kernel@0.1''"

definition native_verifier :: "(bytes \<Rightarrow> bytes) \<Rightarrow> verifier_id" where
  "native_verifier blake3 = id_named blake3 NATIVE_VERIFIER_NAME"

record certificate_material =
  mcontext :: context_id
  mproposition :: kprop
  mterm :: explicit_term

record decoded_material =
  dverifier :: verifier_id
  dcontext :: context_id
  proposition_bytes :: bytes
  term_bytes :: bytes

datatype certificate_format_error =
    BadMarker | UnknownVersion u64 | UnknownProfile | VerifierMismatch | CertContextMismatch
  | PropositionMismatch | TermMismatch | TermContextMismatch | Truncated | CertBadLength
  | CertNonMinimalInt | TrailingBytes

fun from_canon_error :: "canon_error \<Rightarrow> certificate_format_error" where
  "from_canon_error UnexpectedEof = Truncated"
| "from_canon_error NonMinimalInt = CertNonMinimalInt"
| "from_canon_error BadLength = CertBadLength"

definition encode_material_v1 :: "(bytes \<Rightarrow> bytes) \<Rightarrow> certificate_material \<Rightarrow> bytes" where
  "encode_material_v1 blake3 m =
     (let w = write_bytes CERTIFICATE_MARKER canon_new;
          w = write_uint CERTIFICATE_FORMAT_V1 w;
          w = write_str KERNEL_PROFILE_V1 w;
          w = canon_write_id (native_verifier blake3) w;
          w = canon_write_id (mcontext m) w;
          w = write_bytes (canon_bytes (canon_write_prop (mproposition m))) w;
          w = write_bytes (canon_bytes (canon_write_term (mterm m))) w
      in finish w)"

definition certificate_id_v1 :: "(bytes \<Rightarrow> bytes) \<Rightarrow> certificate_material \<Rightarrow> certificate_id" where
  "certificate_id_v1 blake3 m = from_canon blake3 (encode_material_v1 blake3 m)"

text \<open>The \<open>?\<close> operator on a read, with the conversion of the error.\<close>

definition read_then ::
  "'a read \<Rightarrow> canon_reader \<Rightarrow> ('a \<Rightarrow> canon_reader \<Rightarrow> certificate_format_error + 'b) \<Rightarrow> certificate_format_error + 'b" where
  "read_then rd r k = (case rd r of (Inl e, r) \<Rightarrow> Inl (from_canon_error e) | (Inr v, r) \<Rightarrow> k v r)"

definition read_digest ::
  "canon_reader \<Rightarrow> (digest \<Rightarrow> canon_reader \<Rightarrow> certificate_format_error + 'b) \<Rightarrow> certificate_format_error + 'b" where
  "read_digest r k = read_then read_bytes r (\<lambda>b r. if length b \<noteq> 32 then Inl CertBadLength else k b r)"

definition decode_material_v1 :: "(bytes \<Rightarrow> bytes) \<Rightarrow> bytes \<Rightarrow> certificate_format_error + decoded_material" where
  "decode_material_v1 blake3 bs =
     read_then read_bytes (reader_new bs) (\<lambda>marker r.
     if marker \<noteq> CERTIFICATE_MARKER then Inl BadMarker else
     read_then read_uint r (\<lambda>version r.
     if version \<noteq> CERTIFICATE_FORMAT_V1 then Inl (UnknownVersion version) else
     read_then read_bytes r (\<lambda>profile r.
     if profile \<noteq> as_bytes KERNEL_PROFILE_V1 then Inl UnknownProfile else
     read_digest r (\<lambda>verifier r.
     if verifier \<noteq> native_verifier blake3 then Inl VerifierMismatch else
     read_digest r (\<lambda>context r.
     read_then read_bytes r (\<lambda>pbytes r.
     read_then read_bytes r (\<lambda>tbytes r.
     if \<not> reader_is_empty r then Inl TrailingBytes else
     read_digest (reader_new tbytes) (\<lambda>embedded _.
     if embedded \<noteq> context then Inl TermContextMismatch else
     Inr \<lparr>dverifier = verifier, dcontext = context, proposition_bytes = pbytes, term_bytes = tbytes\<rparr>))))))))"

definition validate_material_v1 ::
  "(bytes \<Rightarrow> bytes) \<Rightarrow> bytes \<Rightarrow> certificate_material \<Rightarrow> certificate_format_error + certificate_id" where
  "validate_material_v1 blake3 bs expected =
     and_then (decode_material_v1 blake3 bs) (\<lambda>decoded.
       if dcontext decoded \<noteq> mcontext expected then Inl CertContextMismatch
       else if proposition_bytes decoded \<noteq> canon_bytes (canon_write_prop (mproposition expected)) then Inl PropositionMismatch
       else if term_bytes decoded \<noteq> canon_bytes (canon_write_term (mterm expected)) then Inl TermMismatch
       else Inr (from_canon blake3 bs))"

section \<open>The shape of an envelope\<close>

definition envelope :: "verifier_id \<Rightarrow> context_id \<Rightarrow> bytes \<Rightarrow> bytes \<Rightarrow> bytes" where
  "envelope v c p t = framed CERTIFICATE_MARKER @ ord CERTIFICATE_FORMAT_V1 @ framed (as_bytes KERNEL_PROFILE_V1)
     @ framed v @ framed c @ framed p @ framed t"

lemma encode_material_eq:
  "encode_material_v1 blake3 m = envelope (native_verifier blake3) (mcontext m)
     (canon_bytes (canon_write_prop (mproposition m))) (canon_bytes (canon_write_term (mterm m)))"
  by (simp add: encode_material_v1_def envelope_def Let_def out_simps ord_def)

text \<open>Reading a field, in terms of what is left to read.\<close>

lemma reader_ok_step: "reader_ok r \<Longrightarrow> remaining r = bs @ rest \<Longrightarrow> reader_ok (adv r (length bs))"
  by (simp add: reader_ok_adv)

lemma read_then_bytes:
  assumes "reader_ok r"
  shows "read_then read_bytes r k = Inr v \<longleftrightarrow>
    (\<exists>b rest. fits b \<and> remaining r = framed b @ rest \<and> k b (adv r (length (framed b))) = Inr v)"
proof -
  have "read_then read_bytes r k = Inr v \<longleftrightarrow> (\<exists>b r'. read_bytes r = (Inr b, r') \<and> k b r' = Inr v)"
    by (auto simp: read_then_def split: prod.splits sum.splits)
  then show ?thesis using read_bytes_iff[OF assms] by auto
qed

lemma read_then_uint:
  "read_then read_uint r k = Inr v \<longleftrightarrow>
    (\<exists>n rest. remaining r = ord n @ rest \<and> k n (adv r (length (ord n))) = Inr v)"
proof -
  have "read_then read_uint r k = Inr v \<longleftrightarrow> (\<exists>n r'. read_uint r = (Inr n, r') \<and> k n r' = Inr v)"
    by (auto simp: read_then_def split: prod.splits sum.splits)
  then show ?thesis using read_uint_iff unfolding ord_def by auto
qed

lemma read_digest_Inr:
  assumes "reader_ok r"
  shows "read_digest r k = Inr v \<longleftrightarrow>
    (\<exists>b rest. wf_digest b \<and> remaining r = framed b @ rest \<and> k b (adv r (length (framed b))) = Inr v)"
proof -
  have "read_digest r k = Inr v \<longleftrightarrow> (\<exists>b rest. fits b \<and> remaining r = framed b @ rest \<and>
      length b = 32 \<and> k b (adv r (length (framed b))) = Inr v)"
    unfolding read_digest_def read_then_bytes[OF assms] by auto
  then show ?thesis using wf_digest_fits unfolding wf_digest_def by blast
qed

text \<open>
  The two directions, with the reader left behind abstracted to what it still has to read.
\<close>

lemma bytes_elim:
  assumes "read_then read_bytes r k = Inr v" "reader_ok r"
  obtains b r' where "fits b" "remaining r = framed b @ remaining r'" "reader_ok r'" "k b r' = Inr v"
proof -
  obtain b rest where b: "fits b" "remaining r = framed b @ rest" "k b (adv r (length (framed b))) = Inr v"
    using iffD1[OF read_then_bytes[OF assms(2)] assms(1)] by blast
  show thesis by (rule that[OF b(1) _ reader_ok_step[OF assms(2) b(2)] b(3)]) (simp add: b(2))
qed

lemma uint_elim:
  assumes "read_then read_uint r k = Inr v" "reader_ok r"
  obtains n r' where "remaining r = ord n @ remaining r'" "reader_ok r'" "k n r' = Inr v"
proof -
  obtain n rest where b: "remaining r = ord n @ rest" "k n (adv r (length (ord n))) = Inr v"
    using iffD1[OF read_then_uint assms(1)] by blast
  show thesis by (rule that[OF _ reader_ok_step[OF assms(2) b(1)] b(2)]) (simp add: b(1))
qed

lemma digest_elim:
  assumes "read_digest r k = Inr v" "reader_ok r"
  obtains b r' where "wf_digest b" "remaining r = framed b @ remaining r'" "reader_ok r'" "k b r' = Inr v"
proof -
  obtain b rest where b: "wf_digest b" "remaining r = framed b @ rest" "k b (adv r (length (framed b))) = Inr v"
    using iffD1[OF read_digest_Inr[OF assms(2)] assms(1)] by blast
  show thesis by (rule that[OF b(1) _ reader_ok_step[OF assms(2) b(2)] b(3)]) (simp add: b(2))
qed

lemma guard_elim:
  assumes "(if x \<noteq> y then Inl e else k) = Inr v"
  obtains "x = y" "k = Inr v"
  using assms by (simp split: if_split_asm)

lemma bytes_intro:
  assumes "reader_ok r" "remaining r = framed b @ rest" "fits b"
  obtains r' where "reader_ok r'" "remaining r' = rest" "\<And>k :: bytes \<Rightarrow> canon_reader \<Rightarrow> certificate_format_error + 'a. read_then read_bytes r k = k b r'"
proof (rule that)
  let ?r = "adv r (length (framed b))"
  show "reader_ok ?r" using assms by (intro reader_ok_step)
  show "remaining ?r = rest" using assms by simp
  have "read_bytes r = (Inr b, ?r)" using assms read_bytes_iff[OF assms(1)] by blast
  then show "read_then read_bytes r k = k b ?r" for k by (simp add: read_then_def)
qed

lemma uint_intro:
  assumes "reader_ok r" "remaining r = ord n @ rest"
  obtains r' where "reader_ok r'" "remaining r' = rest" "\<And>k :: u64 \<Rightarrow> canon_reader \<Rightarrow> certificate_format_error + 'a. read_then read_uint r k = k n r'"
proof (rule that)
  let ?r = "adv r (length (ord n))"
  show "reader_ok ?r" using assms by (intro reader_ok_step)
  show "remaining ?r = rest" using assms by simp
  have "read_uint r = (Inr n, ?r)" using assms read_uint_iff unfolding ord_def by blast
  then show "read_then read_uint r k = k n ?r" for k by (simp add: read_then_def)
qed

lemma digest_intro:
  assumes "reader_ok r" "remaining r = framed b @ rest" "wf_digest b"
  obtains r' where "reader_ok r'" "remaining r' = rest" "\<And>k :: bytes \<Rightarrow> canon_reader \<Rightarrow> certificate_format_error + 'a. read_digest r k = k b r'"
proof -
  obtain r' where r': "reader_ok r'" "remaining r' = rest" "\<And>k :: bytes \<Rightarrow> canon_reader \<Rightarrow> certificate_format_error + 'a. read_then read_bytes r k = k b r'"
    using bytes_intro[OF assms(1,2) wf_digest_fits[OF assms(3)]] by blast
  have "length b = 32" using assms(3) by (simp add: wf_digest_def)
  then have "read_digest r k = k b r'" for k :: "bytes \<Rightarrow> canon_reader \<Rightarrow> certificate_format_error + 'a" unfolding read_digest_def r'(3)[of "\<lambda>b r. if length b \<noteq> 32 then Inl CertBadLength else k b r"] by simp
  then show thesis using r'(1,2) that by blast
qed

lemma decode_material_Inr:
  assumes "fits bs" "decode_material_v1 blake3 bs = Inr m"
  shows "bs = envelope (native_verifier blake3) (dcontext m) (proposition_bytes m) (term_bytes m) \<and>
    dverifier m = native_verifier blake3 \<and> (\<exists>rest. term_bytes m = framed (dcontext m) @ rest)"
proof -
  have ok: "reader_ok (reader_new bs)" using assms(1) by (rule reader_ok_new)
  show ?thesis
    using assms(2) unfolding decode_material_v1_def
    apply (rule bytes_elim[OF _ ok])
    apply (erule guard_elim)
    apply (erule uint_elim, assumption)
    apply (erule guard_elim)
    apply (erule bytes_elim, assumption)
    apply (erule guard_elim)
    apply (erule digest_elim, assumption)
    apply (erule guard_elim)
    apply (erule digest_elim, assumption)
    apply (erule bytes_elim, assumption)
    apply (erule bytes_elim, assumption)
    apply (simp only: reader_is_empty_iff not_not split: if_split_asm)
    apply simp
    apply (erule digest_elim, rule reader_ok_new, assumption)
    apply (erule guard_elim)
    apply (auto simp: envelope_def)
    done
qed

lemma fits_append: "fits (a @ b) \<Longrightarrow> fits a \<and> fits b"
  by (auto simp: fits_def)

lemma fits_framed: "fits (framed b) \<Longrightarrow> fits b"
  using fits_append by (auto simp: framed_def)

lemma decode_envelope:
  assumes "fits (envelope (native_verifier blake3) c p t)" "wf_digest (native_verifier blake3)" "wf_digest c"
    "t = framed c @ rest"
  shows "decode_material_v1 blake3 (envelope (native_verifier blake3) c p t)
    = Inr \<lparr>dverifier = native_verifier blake3, dcontext = c, proposition_bytes = p, term_bytes = t\<rparr>"
proof -
  let ?v = "native_verifier blake3"
  have fits: "fits CERTIFICATE_MARKER" "fits (as_bytes KERNEL_PROFILE_V1)" "fits p" "fits t"
    using assms(1) by (auto simp: envelope_def dest!: fits_append fits_framed)
  have ok: "reader_ok (reader_new (envelope ?v c p t))" using assms(1) by (rule reader_ok_new)
  obtain r1 where 1: "reader_ok r1" "remaining r1 = ord CERTIFICATE_FORMAT_V1 @ framed (as_bytes KERNEL_PROFILE_V1)
       @ framed ?v @ framed c @ framed p @ framed t"
    "\<And>k :: bytes \<Rightarrow> canon_reader \<Rightarrow> certificate_format_error + decoded_material.
       read_then read_bytes (reader_new (envelope ?v c p t)) k = k CERTIFICATE_MARKER r1"
    by (rule bytes_intro[OF ok _ fits(1)]) (simp add: envelope_def, blast)
  obtain r2 where 2: "reader_ok r2" "remaining r2 = framed (as_bytes KERNEL_PROFILE_V1)
       @ framed ?v @ framed c @ framed p @ framed t"
    "\<And>k :: u64 \<Rightarrow> canon_reader \<Rightarrow> certificate_format_error + decoded_material.
       read_then read_uint r1 k = k CERTIFICATE_FORMAT_V1 r2"
    by (rule uint_intro[OF 1(1,2)]) blast
  obtain r3 where 3: "reader_ok r3" "remaining r3 = framed ?v @ framed c @ framed p @ framed t"
    "\<And>k :: bytes \<Rightarrow> canon_reader \<Rightarrow> certificate_format_error + decoded_material.
       read_then read_bytes r2 k = k (as_bytes KERNEL_PROFILE_V1) r3"
    by (rule bytes_intro[OF 2(1,2) fits(2)]) blast
  obtain r4 where 4: "reader_ok r4" "remaining r4 = framed c @ framed p @ framed t"
    "\<And>k :: bytes \<Rightarrow> canon_reader \<Rightarrow> certificate_format_error + decoded_material. read_digest r3 k = k ?v r4"
    by (rule digest_intro[OF 3(1,2) assms(2)]) blast
  obtain r5 where 5: "reader_ok r5" "remaining r5 = framed p @ framed t"
    "\<And>k :: bytes \<Rightarrow> canon_reader \<Rightarrow> certificate_format_error + decoded_material. read_digest r4 k = k c r5"
    by (rule digest_intro[OF 4(1,2) assms(3)]) blast
  obtain r6 where 6: "reader_ok r6" "remaining r6 = framed t @ []"
    "\<And>k :: bytes \<Rightarrow> canon_reader \<Rightarrow> certificate_format_error + decoded_material. read_then read_bytes r5 k = k p r6"
    by (rule bytes_intro[OF 5(1,2) fits(3)]) (simp, blast)
  obtain r7 where 7: "reader_ok r7" "remaining r7 = []"
    "\<And>k :: bytes \<Rightarrow> canon_reader \<Rightarrow> certificate_format_error + decoded_material. read_then read_bytes r6 k = k t r7"
    by (rule bytes_intro[OF 6(1,2) fits(4)]) blast
  have t: "remaining (reader_new t) = framed c @ rest" by (simp add: assms(4))
  obtain r8 where 8: "\<And>k :: bytes \<Rightarrow> canon_reader \<Rightarrow> certificate_format_error + decoded_material.
       read_digest (reader_new t) k = k c r8"
    by (rule digest_intro[OF reader_ok_new[OF fits(4)] t assms(3)]) blast
  have "reader_is_empty r7" using 7(1,2) reader_is_empty_iff by blast
  then show ?thesis
    unfolding decode_material_v1_def 1(3) 2(3) 3(3) 4(3) 5(3) 6(3) 7(3) 8 by simp
qed

lemma canon_bytes_term_context: "\<exists>rest. canon_bytes (canon_write_term t) = framed (tcontext t) @ rest"
  by (simp add: canon_bytes_kernel)

lemma validate_iff:
  assumes "fits bs" "wf_digest (native_verifier blake3)" "wf_digest (mcontext m)" "wf_digest (tcontext (mterm m))"
  shows "validate_material_v1 blake3 bs m = Inr c \<longleftrightarrow>
    bs = encode_material_v1 blake3 m \<and> tcontext (mterm m) = mcontext m \<and> c = certificate_id_v1 blake3 m"
proof
  assume v: "validate_material_v1 blake3 bs m = Inr c"
  then obtain d where d: "decode_material_v1 blake3 bs = Inr d" "dcontext d = mcontext m"
    "proposition_bytes d = canon_bytes (canon_write_prop (mproposition m))"
    "term_bytes d = canon_bytes (canon_write_term (mterm m))" "c = from_canon blake3 bs"
    by (auto simp: validate_material_v1_def and_then_Inr split: if_split_asm)
  note e = decode_material_Inr[OF assms(1) d(1)]
  obtain rest where "canon_bytes (canon_write_term (mterm m)) = framed (mcontext m) @ rest"
    using e d by auto
  then have "tcontext (mterm m) = mcontext m"
    using canon_bytes_term_context[of "mterm m"] framed_id_iff[OF assms(4,3)] by metis
  then show "bs = encode_material_v1 blake3 m \<and> tcontext (mterm m) = mcontext m \<and> c = certificate_id_v1 blake3 m"
    using e d by (simp add: encode_material_eq certificate_id_v1_def)
next
  assume a: "bs = encode_material_v1 blake3 m \<and> tcontext (mterm m) = mcontext m \<and> c = certificate_id_v1 blake3 m"
  obtain rest where "canon_bytes (canon_write_term (mterm m)) = framed (mcontext m) @ rest"
    using canon_bytes_term_context[of "mterm m"] a by auto
  note d = decode_envelope[OF _ assms(2,3) this, of "canon_bytes (canon_write_prop (mproposition m))"]
  show "validate_material_v1 blake3 bs m = Inr c"
    using a assms(1) d by (simp add: validate_material_v1_def encode_material_eq certificate_id_v1_def)
qed

section \<open>Properties\<close>

text \<open>
  The certificate validator is exact: a byte string is accepted for given artifacts precisely
  when it is the encoding of these artifacts and the term embeds the requested context; what is
  returned is then their certificate identity. Truncated, padded, re-framed or foreign envelopes
  are all refused.
\<close>

theorem validate_material_exact:
  assumes "fits bs" "\<And>x. length (blake3 x) = 32" "wf_digest (mcontext m)" "wf_digest (tcontext (mterm m))"
  shows "validate_material_v1 blake3 bs m = Inr c \<longleftrightarrow>
    bs = encode_material_v1 blake3 m \<and> tcontext (mterm m) = mcontext m \<and> c = certificate_id_v1 blake3 m"
proof -
  have "wf_digest (native_verifier blake3)"
    by (simp add: wf_digest_def native_verifier_def id_named_def from_canon_def digest_of_def assms(2))
  then show ?thesis using validate_iff assms by blast
qed

definition sample_material :: certificate_material where
  "sample_material = \<lparr>mcontext = replicate 32 0, mproposition = Atom (replicate 32 1),
     mterm = \<lparr>tcontext = replicate 32 0, tkind = Hyp (Index 0)\<rparr>\<rparr>"

theorem validate_material_exact_witness:
  "validate_material_v1 (\<lambda>_. replicate 32 7) (encode_material_v1 (\<lambda>_. replicate 32 7) sample_material) sample_material
     = Inr (certificate_id_v1 (\<lambda>_. replicate 32 7) sample_material)"
proof -
  let ?h = "\<lambda>_ :: bytes. replicate 32 7 :: bytes"
  have "length (encode_material_v1 ?h sample_material) = 196" by code_simp
  then have "fits (encode_material_v1 ?h sample_material)" by (simp add: fits_def)
  then show ?thesis
    using validate_material_exact[of "encode_material_v1 ?h sample_material" ?h sample_material
        "certificate_id_v1 ?h sample_material"]
    by (simp add: sample_material_def wf_digest_def)
qed

end
