(* ===== verification/Kernel_Prim.thy ===== *)
theory Kernel_Prim
  imports Kernel_Term
begin

text \<open>
  The kernel's compiled-in primitive relation, from \<open>crates/brix-kernel/src/prim_schema.rs\<close>
  (the schemas of its endpoints) and \<open>prim_registry.rs\<close> (the numeric tower, joins, promotion
  paths, the exhaustive arithmetic rows, the registry and \<open>resolve\<close>). A \<open>BTreeSet\<close> of rows
  is the list of its members; membership and the canonical set encoding do not depend on the order.
  The panic of the functionality assertion at registry construction is the value \<open>None\<close>.
\<close>

section \<open>Schemas\<close>

definition of_schema :: "(bytes \<Rightarrow> bytes) \<Rightarrow> bytes \<Rightarrow> u64 \<Rightarrow> digest" where
  "of_schema blake3 marker version =
     digest_of blake3 Value (finish (write_uint version (write_bytes marker canon_new)))"

definition ARITH_TYPING_INPUT_MARKER_V1 :: bytes where
  "ARITH_TYPING_INPUT_MARKER_V1 = as_bytes ''brix.kernel.arith-typing-input''"

definition ARITH_TYPING_INPUT_VERSION_V1 :: u64 where "ARITH_TYPING_INPUT_VERSION_V1 = 1"

datatype arith_operator = Add | Sub | Mul | Div

fun operator_ordinal :: "arith_operator \<Rightarrow> u64" where
  "operator_ordinal Add = 0"
| "operator_ordinal Sub = 1"
| "operator_ordinal Mul = 2"
| "operator_ordinal Div = 3"

datatype numeric_type = TNat | TInt | TRat | TReal | TComplex | TFloat

fun numeric_ordinal :: "numeric_type \<Rightarrow> u64" where
  "numeric_ordinal TNat = 0"
| "numeric_ordinal TInt = 1"
| "numeric_ordinal TRat = 2"
| "numeric_ordinal TReal = 3"
| "numeric_ordinal TComplex = 4"
| "numeric_ordinal TFloat = 5"

fun lattice_name :: "numeric_type \<Rightarrow> string" where
  "lattice_name TNat = ''Nat''"
| "lattice_name TInt = ''Int''"
| "lattice_name TRat = ''Rat''"
| "lattice_name TReal = ''Real''"
| "lattice_name TComplex = ''Complex''"
| "lattice_name TFloat = ''Float''"

definition from_lattice_node :: "string \<Rightarrow> numeric_type option" where
  "from_lattice_node name =
     (if name = ''Nat'' then Some TNat
      else if name = ''Int'' then Some TInt
      else if name = ''Rat'' then Some TRat
      else if name = ''Real'' then Some TReal
      else if name = ''Complex'' then Some TComplex
      else if name = ''Float'' then Some TFloat
      else None)"

datatype coercion_kind = Exact | Lossy

fun coercion_ordinal :: "coercion_kind \<Rightarrow> u64" where
  "coercion_ordinal Exact = 0"
| "coercion_ordinal Lossy = 1"

record coercion_edge =
  egenerator :: generator_id
  ekind :: coercion_kind

definition canon_write_edge :: "coercion_edge \<Rightarrow> canon_writer \<Rightarrow> canon_writer" where
  "canon_write_edge e w = write_enum (coercion_ordinal (ekind e)) (\<lambda>w. w) (write_bytes (egenerator e) w)"

record arith_typing_input =
  operator :: arith_operator
  lhs_type :: numeric_type
  rhs_type :: numeric_type
  lhs_promotion_path :: "coercion_edge list"
  rhs_promotion_path :: "coercion_edge list"

definition canon_write_arith_input :: "arith_typing_input \<Rightarrow> canon_writer \<Rightarrow> canon_writer" where
  "canon_write_arith_input a w =
     (let w = write_bytes ARITH_TYPING_INPUT_MARKER_V1 w;
          w = write_uint ARITH_TYPING_INPUT_VERSION_V1 w;
          w = write_enum (operator_ordinal (operator a)) (\<lambda>w. w) w;
          w = write_enum (numeric_ordinal (lhs_type a)) (\<lambda>w. w) w;
          w = write_enum (numeric_ordinal (rhs_type a)) (\<lambda>w. w) w;
          w = write_list (map (\<lambda>e. canon_bytes (canon_write_edge e)) (lhs_promotion_path a)) w
      in write_list (map (\<lambda>e. canon_bytes (canon_write_edge e)) (rhs_promotion_path a)) w)"

definition arith_input_config_id :: "(bytes \<Rightarrow> bytes) \<Rightarrow> arith_typing_input \<Rightarrow> config_id" where
  "arith_input_config_id blake3 a = id_of blake3 (canon_write_arith_input a)"

definition NUMERIC_RESULT_TYPE_MARKER_V1 :: bytes where
  "NUMERIC_RESULT_TYPE_MARKER_V1 = as_bytes ''brix.kernel.numeric-result-type''"

definition NUMERIC_RESULT_TYPE_VERSION_V1 :: u64 where "NUMERIC_RESULT_TYPE_VERSION_V1 = 1"

definition canon_write_result_type :: "numeric_type \<Rightarrow> canon_writer \<Rightarrow> canon_writer" where
  "canon_write_result_type n w =
     write_enum (numeric_ordinal n) (\<lambda>w. w)
       (write_uint NUMERIC_RESULT_TYPE_VERSION_V1 (write_bytes NUMERIC_RESULT_TYPE_MARKER_V1 w))"

definition result_type_config_id :: "(bytes \<Rightarrow> bytes) \<Rightarrow> numeric_type \<Rightarrow> config_id" where
  "result_type_config_id blake3 n = id_of blake3 (canon_write_result_type n)"

definition arith_typing_input_schema_id :: "(bytes \<Rightarrow> bytes) \<Rightarrow> digest" where
  "arith_typing_input_schema_id blake3 =
     of_schema blake3 ARITH_TYPING_INPUT_MARKER_V1 ARITH_TYPING_INPUT_VERSION_V1"

definition numeric_result_type_schema_id :: "(bytes \<Rightarrow> bytes) \<Rightarrow> digest" where
  "numeric_result_type_schema_id blake3 =
     of_schema blake3 NUMERIC_RESULT_TYPE_MARKER_V1 NUMERIC_RESULT_TYPE_VERSION_V1"

section \<open>Relations\<close>

definition PRIMITIVE_RELATION_MARKER_V1 :: bytes where
  "PRIMITIVE_RELATION_MARKER_V1 = as_bytes ''brix.kernel.primitive-relation''"

definition PRIMITIVE_RELATION_VERSION_V1 :: u64 where "PRIMITIVE_RELATION_VERSION_V1 = 1"

datatype judgment_kind = Typing

fun judgment_ordinal :: "judgment_kind \<Rightarrow> u64" where
  "judgment_ordinal Typing = 0"

type_synonym row = "proposition_id \<times> proposition_id"

record primitive_relation =
  judgment_kind :: judgment_kind
  generator :: generator_id
  source_schema :: digest
  destination_schema :: digest
  rows :: "row list"

definition canon_write_relation :: "primitive_relation \<Rightarrow> canon_writer \<Rightarrow> canon_writer" where
  "canon_write_relation r w =
     (let w = write_bytes PRIMITIVE_RELATION_MARKER_V1 w;
          w = write_uint PRIMITIVE_RELATION_VERSION_V1 w;
          w = write_enum (judgment_ordinal (judgment_kind r)) (\<lambda>w. w) w;
          w = write_bytes (generator r) w;
          w = canon_write_id (source_schema r) w;
          w = canon_write_id (destination_schema r) w
      in write_set (map (\<lambda>(src, dst). finish (write_bytes dst (write_bytes src canon_new))) (rows r)) w)"

definition relation_id :: "(bytes \<Rightarrow> bytes) \<Rightarrow> primitive_relation \<Rightarrow> digest" where
  "relation_id blake3 r = digest_of blake3 Value (canon_bytes (canon_write_relation r))"

definition admits :: "primitive_relation \<Rightarrow> proposition_id \<Rightarrow> proposition_id \<Rightarrow> bool" where
  "admits r src dst \<longleftrightarrow> (src, dst) \<in> set (rows r)"

section \<open>The numeric tower\<close>

type_synonym tower_edge = "numeric_type \<times> numeric_type \<times> coercion_kind"

definition TOWER :: "tower_edge list" where
  "TOWER = [(TNat, TInt, Exact), (TInt, TRat, Exact), (TRat, TReal, Exact), (TReal, TComplex, Exact),
            (TInt, TFloat, Lossy)]"

definition NODES :: "numeric_type list" where
  "NODES = [TNat, TInt, TRat, TReal, TComplex, TFloat]"

definition OPERATORS :: "arith_operator list" where
  "OPERATORS = [Add, Sub, Mul, Div]"

text \<open>One pass of the inner loop of \<open>ancestors\<close>.\<close>

definition push_parents :: "numeric_type \<Rightarrow> numeric_type list \<Rightarrow> numeric_type list" where
  "push_parents cur out =
     foldl (\<lambda>out (from, to, _). if from = cur \<and> to \<notin> set out then out @ [to] else out) out TOWER"

lemma UNIV_numeric: "UNIV = set NODES"
  by (auto simp: NODES_def intro: numeric_type.exhaust)

instance numeric_type :: finite
  by standard (simp add: UNIV_numeric)

lemma card_Diff_push:
  fixes x :: "'a :: finite"
  assumes "x \<notin> A"
  shows "card (UNIV - A) = Suc (card (UNIV - insert x A))"
  using assms by (metis Diff_iff Diff_insert UNIV_I card_Suc_Diff1 finite_code)

lemma foldl_push_measure:
  fixes es :: "('a :: finite \<times> 'a \<times> 'b) list"
  shows "card (UNIV - set (foldl (\<lambda>out (from, to, _). if from = cur \<and> to \<notin> set out then out @ [to] else out) out es))
     + length (foldl (\<lambda>out (from, to, _). if from = cur \<and> to \<notin> set out then out @ [to] else out) out es)
   = card (UNIV - set out) + length out"
proof (induction es arbitrary: out)
  case (Cons e es)
  obtain f t k where e: "e = (f, t, k)" by (cases e)
  have "card (UNIV - set (out @ [t])) + length (out @ [t]) = card (UNIV - set out) + length out" if "t \<notin> set out"
    using card_Diff_push[OF that] by simp
  then show ?case using Cons by (simp add: e)
qed simp

function ancestors_loop :: "numeric_type list \<Rightarrow> nat \<Rightarrow> numeric_type list" where
  "ancestors_loop out i =
     (if i < length out then ancestors_loop (push_parents (out ! i) out) (i + 1) else out)"
  by pat_completeness auto
termination
proof (relation "measure (\<lambda>(out, i). card (UNIV - set out) + length out - i)")
  fix out :: "numeric_type list" and i
  assume "i < length out"
  then show "((push_parents (out ! i) out, i + 1), out, i) \<in> measure (\<lambda>(out, i). card (UNIV - set out) + length out - i)"
    unfolding push_parents_def using foldl_push_measure[of "out ! i" out TOWER] by simp
qed simp

declare ancestors_loop.simps [simp del]

definition ancestors :: "numeric_type \<Rightarrow> numeric_type list" where
  "ancestors name = ancestors_loop [name] 0"

definition le :: "numeric_type \<Rightarrow> numeric_type \<Rightarrow> bool" where
  "le a b \<longleftrightarrow> b \<in> set (ancestors a)"

definition join :: "numeric_type \<Rightarrow> numeric_type \<Rightarrow> numeric_type option" where
  "join a b =
     (let aa = ancestors a; bb = ancestors b;
          common = filter (\<lambda>x. x \<in> set bb) aa
      in find (\<lambda>x. list_all (\<lambda>y. le x y) common) common)"

definition field_of :: "numeric_type \<Rightarrow> numeric_type" where
  "field_of name = (case name of TNat \<Rightarrow> TFloat | TInt \<Rightarrow> TFloat | other \<Rightarrow> other)"

text \<open>
  The breadth-first search of \<open>edge_path\<close>: the map \<open>reached_via\<close> and the queue, and the
  walk back from the target. The walk follows at most one edge per node; its fuel is the number of
  nodes.
\<close>

definition bfs_visit ::
  "numeric_type \<Rightarrow> numeric_type \<Rightarrow> (numeric_type \<rightharpoonup> tower_edge) \<times> numeric_type list
     \<Rightarrow> (numeric_type \<rightharpoonup> tower_edge) \<times> numeric_type list" where
  "bfs_visit from cur st =
     foldl (\<lambda>(m, q) (a, b, k). if a = cur \<and> b \<noteq> from \<and> m b = None then (m(b \<mapsto> (a, b, k)), q @ [b]) else (m, q))
       st TOWER"

lemma bfs_visit_measure:
  fixes m :: "'a :: finite \<rightharpoonup> 'b"
  shows "case foldl (\<lambda>(m, q) (a, b, k). if a = cur \<and> b \<noteq> start \<and> m b = None then (m(b \<mapsto> g a b k), q @ [b]) else (m, q))
       (m, q) es of (m', q') \<Rightarrow> card (UNIV - dom m') + length q' = card (UNIV - dom m) + length q"
proof (induction es arbitrary: m q)
  case (Cons e es)
  obtain a b k where e: "e = (a, b, k)" by (cases e)
  have "card (UNIV - dom (m(b \<mapsto> g a b k))) + length (q @ [b]) = card (UNIV - dom m) + length q" if "m b = None"
    using that card_Diff_push[of b "dom m"] by (simp add: domIff)
  note step = this
  let ?F = "\<lambda>(m, q) (a, b, k). if a = cur \<and> b \<noteq> start \<and> m b = None then (m(b \<mapsto> g a b k), q @ [b]) else (m, q)"
  show ?case
  proof (cases "a = cur \<and> b \<noteq> start \<and> m b = None")
    case True
    then have "foldl ?F (m, q) (e # es) = foldl ?F (m(b \<mapsto> g a b k), q @ [b]) es" by (simp add: e)
    then show ?thesis using Cons[of "m(b \<mapsto> g a b k)" "q @ [b]"] step True by (simp only: conj_assoc)
  next
    case False
    then have "foldl ?F (m, q) (e # es) = foldl ?F (m, q) es" by (auto simp: e)
    then show ?thesis using Cons[of m q] by (simp only:)
  qed
qed simp

function bfs_loop ::
  "numeric_type \<Rightarrow> (numeric_type \<rightharpoonup> tower_edge) \<Rightarrow> numeric_type list \<Rightarrow> nat \<Rightarrow> (numeric_type \<rightharpoonup> tower_edge)" where
  "bfs_loop from m q i =
     (if i < length q then
        let (m', q') = bfs_visit from (q ! i) (m, q) in bfs_loop from m' q' (i + 1)
      else m)"
  by pat_completeness auto
termination
proof (relation "measure (\<lambda>(from, m, q, i). card (UNIV - dom m) + length q - i)")
  fix fr m q i x m' q'
  assume "i < length (q :: numeric_type list)" "x = bfs_visit fr (q ! i) (m, q)" "(m', q') = x"
  then show "((fr, m', q', i + 1), fr, m, q, i) \<in> measure (\<lambda>(fr, m, q, i). card (UNIV - dom m) + length q - i)"
    using bfs_visit_measure[where cur = "q ! i" and start = fr and g = "\<lambda>a b k. (a, b, k)" and m = m and q = q and es = TOWER]
    by (simp add: bfs_visit_def split: prod.splits)
qed simp

declare bfs_loop.simps [simp del]

fun back_path :: "nat \<Rightarrow> (numeric_type \<rightharpoonup> tower_edge) \<Rightarrow> numeric_type \<Rightarrow> numeric_type \<Rightarrow> tower_edge list option" where
  "back_path fuel m from node =
     (if node \<noteq> from then
        (case fuel of
           0 \<Rightarrow> None
         | Suc fuel \<Rightarrow>
             (case m node of
                None \<Rightarrow> None
              | Some edge \<Rightarrow> map_option (\<lambda>path. edge # path) (back_path fuel m from (fst edge))))
      else Some [])"

declare back_path.simps [simp del]

definition edge_path :: "numeric_type \<Rightarrow> numeric_type \<Rightarrow> tower_edge list option" where
  "edge_path from to =
     (if from = to then Some []
      else if \<not> le from to then None
      else map_option rev (back_path (length NODES) (bfs_loop from Map.empty [from] 0) from to))"

definition edge_generator ::
  "(bytes \<Rightarrow> bytes) \<Rightarrow> numeric_type \<Rightarrow> numeric_type \<Rightarrow> coercion_kind \<Rightarrow> generator_id" where
  "edge_generator blake3 from to kind =
     (let prefix = (case kind of Exact \<Rightarrow> ''type.rule.num.promote'' | Lossy \<Rightarrow> ''type.rule.num.convert.lossy'')
      in id_named blake3 (prefix @ ''.'' @ lattice_name from @ ''_'' @ lattice_name to @ ''@1''))"

definition promotion_path :: "(bytes \<Rightarrow> bytes) \<Rightarrow> numeric_type \<Rightarrow> numeric_type \<Rightarrow> coercion_edge list option" where
  "promotion_path blake3 from to =
     map_option (map (\<lambda>(a, b, kind). \<lparr>egenerator = edge_generator blake3 a b kind, ekind = kind\<rparr>))
       (edge_path from to)"

section \<open>Rows and registry\<close>

text \<open>The body of the triple loop: the endpoint values of the row, if there is one.\<close>

definition arith_row ::
  "(bytes \<Rightarrow> bytes) \<Rightarrow> arith_operator \<Rightarrow> numeric_type \<Rightarrow> numeric_type \<Rightarrow> (arith_typing_input \<times> numeric_type) option" where
  "arith_row blake3 op lhs rhs =
     (case join lhs rhs of
        None \<Rightarrow> None
      | Some base \<Rightarrow>
          let result = (if op = Div then field_of base else base) in
          (case (promotion_path blake3 lhs result, promotion_path blake3 rhs result) of
             (Some lhs_path, Some rhs_path) \<Rightarrow>
               Some (\<lparr>operator = op, lhs_type = lhs, rhs_type = rhs,
                      lhs_promotion_path = lhs_path, rhs_promotion_path = rhs_path\<rparr>, result)
           | _ \<Rightarrow> None))"

definition arith_table :: "(bytes \<Rightarrow> bytes) \<Rightarrow> (arith_typing_input \<times> numeric_type) list" where
  "arith_table blake3 =
     List.map_filter (\<lambda>(op, lhs, rhs). arith_row blake3 op lhs rhs)
       (List.product OPERATORS (List.product NODES NODES))"

definition arith_rows :: "(bytes \<Rightarrow> bytes) \<Rightarrow> row list" where
  "arith_rows blake3 =
     map (\<lambda>(src, dst). (arith_input_config_id blake3 src, result_type_config_id blake3 dst)) (arith_table blake3)"

text \<open>The build-time functionality assertion.\<close>

definition functional_rows :: "row list \<Rightarrow> bool" where
  "functional_rows rs \<longleftrightarrow> list_all (\<lambda>(s, d). list_all (\<lambda>(s', d'). s = s' \<longrightarrow> d = d') rs) rs"

definition build_arith_relation :: "(bytes \<Rightarrow> bytes) \<Rightarrow> primitive_relation option" where
  "build_arith_relation blake3 =
     (let rs = arith_rows blake3 in
      if functional_rows rs
      then Some \<lparr>judgment_kind = Typing, generator = id_named blake3 ''type.rule.arith@1'',
                 source_schema = arith_typing_input_schema_id blake3,
                 destination_schema = numeric_result_type_schema_id blake3, rows = rs\<rparr>
      else None)"

text \<open>The registry holds the one compiled-in relation under its own identity.\<close>

definition resolve :: "(bytes \<Rightarrow> bytes) \<Rightarrow> digest \<Rightarrow> primitive_relation option option" where
  "resolve blake3 i =
     map_option (\<lambda>relation. if relation_id blake3 relation = i then Some relation else None)
       (build_arith_relation blake3)"

section \<open>The tower, evaluated\<close>

lemma ancestors_simps:
  "ancestors TNat = [TNat, TInt, TRat, TFloat, TReal, TComplex]"
  "ancestors TInt = [TInt, TRat, TFloat, TReal, TComplex]"
  "ancestors TRat = [TRat, TReal, TComplex]"
  "ancestors TReal = [TReal, TComplex]"
  "ancestors TComplex = [TComplex]"
  "ancestors TFloat = [TFloat]"
  by code_simp+

lemma le_refl: "le a a"
  by (cases a) (simp_all add: le_def ancestors_simps)

lemma le_trans: "le a b \<Longrightarrow> le b c \<Longrightarrow> le a c"
  by (cases a; cases b) (auto simp: le_def ancestors_simps)

lemma le_antisym: "le a b \<Longrightarrow> le b a \<Longrightarrow> a = b"
  by (cases a; cases b) (simp_all add: le_def ancestors_simps)

definition path_kinds :: "tower_edge list \<Rightarrow> coercion_kind list" where
  "path_kinds p = map (\<lambda>(a, b, k). k) p"

text \<open>A path of tower edges leading from one type to another.\<close>

fun tower_path :: "numeric_type \<Rightarrow> tower_edge list \<Rightarrow> numeric_type \<Rightarrow> bool" where
  "tower_path a [] b \<longleftrightarrow> a = b"
| "tower_path a (e # es) b \<longleftrightarrow> e \<in> set TOWER \<and> fst e = a \<and> tower_path (fst (snd e)) es b"

lemma edge_path_simps:
  "edge_path TNat TInt = Some [(TNat, TInt, Exact)]"
  "edge_path TNat TRat = Some [(TNat, TInt, Exact), (TInt, TRat, Exact)]"
  "edge_path TNat TReal = Some [(TNat, TInt, Exact), (TInt, TRat, Exact), (TRat, TReal, Exact)]"
  "edge_path TNat TComplex = Some [(TNat, TInt, Exact), (TInt, TRat, Exact), (TRat, TReal, Exact), (TReal, TComplex, Exact)]"
  "edge_path TNat TFloat = Some [(TNat, TInt, Exact), (TInt, TFloat, Lossy)]"
  "edge_path TInt TRat = Some [(TInt, TRat, Exact)]"
  "edge_path TInt TReal = Some [(TInt, TRat, Exact), (TRat, TReal, Exact)]"
  "edge_path TInt TComplex = Some [(TInt, TRat, Exact), (TRat, TReal, Exact), (TReal, TComplex, Exact)]"
  "edge_path TInt TFloat = Some [(TInt, TFloat, Lossy)]"
  "edge_path TRat TReal = Some [(TRat, TReal, Exact)]"
  "edge_path TRat TComplex = Some [(TRat, TReal, Exact), (TReal, TComplex, Exact)]"
  "edge_path TReal TComplex = Some [(TReal, TComplex, Exact)]"
  by code_simp+

lemma edge_path_refl: "edge_path a a = Some []"
  by (simp add: edge_path_def)

lemma edge_path_not_le: "\<not> le a b \<Longrightarrow> edge_path a b = None"
  using le_refl by (auto simp: edge_path_def)

lemma edge_path_le: "le a b \<Longrightarrow> \<exists>p. edge_path a b = Some p \<and> tower_path a p b \<and>
    (Lossy \<in> set (path_kinds p) \<longleftrightarrow> b = TFloat \<and> a \<noteq> TFloat)"
  by (cases a; cases b) (simp_all add: le_def ancestors_simps edge_path_simps edge_path_refl TOWER_def path_kinds_def)

lemma join_upper: "join a b = Some c \<Longrightarrow> le a c \<and> le b c"
proof -
  assume j: "join a b = Some c"
  then have "c \<in> set (filter (\<lambda>x. x \<in> set (ancestors b)) (ancestors a))"
    unfolding join_def Let_def find_Some_iff by (metis nth_mem)
  then show ?thesis by (simp add: le_def)
qed

lemma join_least: "join a b = Some c \<Longrightarrow> le a d \<Longrightarrow> le b d \<Longrightarrow> le c d"
  by (auto simp: join_def Let_def find_Some_iff le_def list_all_iff)

lemma join_None: "join a b = None \<longleftrightarrow> \<not> (\<exists>d. le a d \<and> le b d)"
  by (cases a; cases b) (auto simp: join_def Let_def le_def ancestors_simps)

section \<open>The rows\<close>

lemma map_option_promotion_kinds:
  assumes "edge_path a b = Some p"
  shows "promotion_path blake3 a b = Some (map (\<lambda>(a, b, k). \<lparr>egenerator = edge_generator blake3 a b k, ekind = k\<rparr>) p)"
    "map ekind (map (\<lambda>(a, b, k). \<lparr>egenerator = edge_generator blake3 a b k, ekind = k\<rparr>) p) = path_kinds p"
  using assms by (auto simp: promotion_path_def path_kinds_def)

lemma promotion_path_le:
  assumes "le a b"
  shows "\<exists>p. promotion_path blake3 a b = Some p \<and> (Lossy \<in> ekind ` set p \<longleftrightarrow> b = TFloat \<and> a \<noteq> TFloat)"
proof -
  obtain p where p: "edge_path a b = Some p" "Lossy \<in> set (path_kinds p) \<longleftrightarrow> b = TFloat \<and> a \<noteq> TFloat"
    using edge_path_le[OF assms] by blast
  note m = map_option_promotion_kinds[OF p(1), of blake3]
  have "ekind ` set (map (\<lambda>(a, b, k). \<lparr>egenerator = edge_generator blake3 a b k, ekind = k\<rparr>) p) = set (path_kinds p)"
    by (simp only: m(2)[symmetric] set_map)
  then show ?thesis using m(1) p(2) by (intro exI conjI) (assumption, simp only:)
qed

lemma result_upper:
  assumes "join l r = Some base" "t = (if op = Div then field_of base else base)"
  shows "le l t" "le r t"
proof -
  have "le base t" if "base \<noteq> TFloat" using assms(2)
    by (cases base) (simp_all add: field_of_def le_refl, simp_all add: le_def ancestors_simps)
  moreover have "t = TFloat" if "base = TFloat" using assms(2) that by (simp add: field_of_def)
  ultimately have "le base t" using le_refl by metis
  then show "le l t" "le r t" using join_upper[OF assms(1)] le_trans by blast+
qed

text \<open>A row is there precisely when the operand types have a common upper bound.\<close>

lemma arith_row_Some:
  assumes "join l r = Some base"
  shows "\<exists>p q. arith_row blake3 op l r =
      Some (\<lparr>operator = op, lhs_type = l, rhs_type = r, lhs_promotion_path = p, rhs_promotion_path = q\<rparr>,
            if op = Div then field_of base else base) \<and>
    (Lossy \<in> ekind ` set p \<longleftrightarrow> (if op = Div then field_of base else base) = TFloat \<and> l \<noteq> TFloat) \<and>
    (Lossy \<in> ekind ` set q \<longleftrightarrow> (if op = Div then field_of base else base) = TFloat \<and> r \<noteq> TFloat)"
proof -
  define t where "t = (if op = Div then field_of base else base)"
  obtain p where p: "promotion_path blake3 l t = Some p" "Lossy \<in> ekind ` set p \<longleftrightarrow> t = TFloat \<and> l \<noteq> TFloat"
    using promotion_path_le[OF result_upper(1)[OF assms t_def]] by blast
  obtain q where q: "promotion_path blake3 r t = Some q" "Lossy \<in> ekind ` set q \<longleftrightarrow> t = TFloat \<and> r \<noteq> TFloat"
    using promotion_path_le[OF result_upper(2)[OF assms t_def]] by blast
  have "arith_row blake3 op l r = Some (\<lparr>operator = op, lhs_type = l, rhs_type = r,
      lhs_promotion_path = p, rhs_promotion_path = q\<rparr>, t)"
    by (simp only: arith_row_def assms option.case Let_def t_def[symmetric] p(1) q(1) prod.case)
  then show ?thesis unfolding t_def[symmetric] using p(2) q(2) by blast
qed

lemma set_map_filter_eq: "set (List.map_filter f xs) = {y. \<exists>x \<in> set xs. f x = Some y}"
  by (induction xs) (auto simp: List.map_filter_simps split: option.splits)

lemma set_arith_table: "(a, t) \<in> set (arith_table blake3) \<longleftrightarrow> (\<exists>op l r. arith_row blake3 op l r = Some (a, t))"
proof -
  have n: "x \<in> set NODES" for x using UNIV_numeric by blast
  have o: "op \<in> set OPERATORS" for op by (cases op) (simp_all add: OPERATORS_def)
  show ?thesis using n o unfolding arith_table_def set_map_filter_eq by auto
qed

lemma arith_row_fields:
  assumes "arith_row blake3 op l r = Some (a, t)"
  shows "operator a = op \<and> lhs_type a = l \<and> rhs_type a = r \<and> join l r \<noteq> None"
  using assms by (auto simp: arith_row_def Let_def split: option.splits)

lemma arith_row_None: "join l r = None \<Longrightarrow> arith_row blake3 op l r = None"
  by (simp add: arith_row_def)

section \<open>Encodings of the endpoints\<close>

definition input_head :: "arith_operator \<Rightarrow> numeric_type \<Rightarrow> numeric_type \<Rightarrow> bytes" where
  "input_head op l r = framed ARITH_TYPING_INPUT_MARKER_V1 @ ord ARITH_TYPING_INPUT_VERSION_V1
     @ ord (operator_ordinal op) @ ord (numeric_ordinal l) @ ord (numeric_ordinal r)"

lemma canon_bytes_input:
  "\<exists>rest. canon_bytes (canon_write_arith_input a) = input_head (operator a) (lhs_type a) (rhs_type a) @ rest"
  by (rule exI, rule canon_bytes_out)
    (simp add: canon_write_arith_input_def Let_def out_simps input_head_def ord_def)

lemma operator_ordinal_inj: "operator_ordinal x = operator_ordinal y \<longleftrightarrow> x = y"
  by (cases x; cases y) simp_all

lemma numeric_ordinal_inj: "numeric_ordinal x = numeric_ordinal y \<longleftrightarrow> x = y"
  by (cases x; cases y) simp_all

lemma input_head_inj:
  "input_head op l r @ xs = input_head op' l' r' @ ys \<Longrightarrow> op = op' \<and> l = l' \<and> r = r'"
  by (simp add: input_head_def ord_code.append_eq_iff operator_ordinal_inj numeric_ordinal_inj)

lemma input_bytes_determine:
  assumes "canon_bytes (canon_write_arith_input a) = canon_bytes (canon_write_arith_input b)"
  shows "operator a = operator b \<and> lhs_type a = lhs_type b \<and> rhs_type a = rhs_type b"
  using assms canon_bytes_input[of a] canon_bytes_input[of b] input_head_inj by metis

lemma arith_input_config_id_eq:
  "arith_input_config_id blake3 a = blake3 (digest_preimage Value (canon_bytes (canon_write_arith_input a)))"
  by (simp add: arith_input_config_id_def id_of_def from_canon_def digest_of_def canon_bytes_def)

section \<open>Properties\<close>

text \<open>
  The numeric tower's \<open>join\<close> is the least upper bound of the coercion order \<open>le\<close>, a
  partial order, and refuses exactly the pairs that have no common upper bound.
\<close>

theorem join_is_lub:
  "le a a \<and> \<not> (le a b \<and> le b a \<and> a \<noteq> b) \<and> \<not> (le a b \<and> le b c \<and> \<not> le a c) \<and>
   (join a b = Some c \<longleftrightarrow> le a c \<and> le b c \<and> \<not> (\<exists>d. le a d \<and> le b d \<and> \<not> le c d)) \<and>
   (join a b = None \<longleftrightarrow> \<not> (\<exists>d. le a d \<and> le b d))"
proof -
  have "join a b = Some c" if c: "le a c" "le b c" "\<not> (\<exists>d. le a d \<and> le b d \<and> \<not> le c d)"
  proof -
    obtain c' where c': "join a b = Some c'" using c join_None[of a b] by (cases "join a b") auto
    then have "c' = c" using c join_upper[OF c'] join_least[OF c'] le_antisym by blast
    then show ?thesis using c' by simp
  qed
  then show ?thesis
    using le_refl le_antisym[of a b] le_trans[of a b c] join_upper[of a b c] join_least[of a b c] join_None[of a b]
    by blast
qed

text \<open>
  The arithmetic rows are the typing rule they are meant to be. A row for an operator and two
  operand types exists precisely when the operands have a common upper bound; its result is that
  least upper bound, or for division the least field above it; and a promotion path in it has a
  lossy edge precisely when it converts another type to \<open>Float\<close>.
\<close>

theorem arith_table_spec:
  "((\<exists>a t. (a, t) \<in> set (arith_table blake3) \<and> operator a = op \<and> lhs_type a = l \<and> rhs_type a = r)
      \<longleftrightarrow> (\<exists>d. le l d \<and> le r d)) \<and>
   ((a, t) \<in> set (arith_table blake3) \<longrightarrow>
      (\<exists>base. join (lhs_type a) (rhs_type a) = Some base \<and> t = (if operator a = Div then field_of base else base)) \<and>
      (Lossy \<in> ekind ` set (lhs_promotion_path a) \<longleftrightarrow> t = TFloat \<and> lhs_type a \<noteq> TFloat) \<and>
      (Lossy \<in> ekind ` set (rhs_promotion_path a) \<longleftrightarrow> t = TFloat \<and> rhs_type a \<noteq> TFloat))"
proof -
  have ex: "\<exists>a t. (a, t) \<in> set (arith_table blake3) \<and> operator a = op \<and> lhs_type a = l \<and> rhs_type a = r"
    if jn: "join l r = Some base" for base
  proof -
    obtain p q where row: "arith_row blake3 op l r =
      Some (\<lparr>operator = op, lhs_type = l, rhs_type = r, lhs_promotion_path = p, rhs_promotion_path = q\<rparr>,
            if op = Div then field_of base else base)"
      using arith_row_Some[OF jn, of blake3 op] by blast
    show ?thesis
    proof (intro exI conjI)
      show "(\<lparr>operator = op, lhs_type = l, rhs_type = r, lhs_promotion_path = p, rhs_promotion_path = q\<rparr>,
            if op = Div then field_of base else base) \<in> set (arith_table blake3)"
        unfolding set_arith_table using row by blast
    qed simp_all
  qed
  have iff: "(\<exists>a t. (a, t) \<in> set (arith_table blake3) \<and> operator a = op \<and> lhs_type a = l \<and> rhs_type a = r)
      \<longleftrightarrow> join l r \<noteq> None"
    using ex arith_row_fields unfolding set_arith_table by (metis not_None_eq)
  have imp: "(\<exists>base. join (lhs_type a) (rhs_type a) = Some base \<and> t = (if operator a = Div then field_of base else base)) \<and>
      (Lossy \<in> ekind ` set (lhs_promotion_path a) \<longleftrightarrow> t = TFloat \<and> lhs_type a \<noteq> TFloat) \<and>
      (Lossy \<in> ekind ` set (rhs_promotion_path a) \<longleftrightarrow> t = TFloat \<and> rhs_type a \<noteq> TFloat)"
    if row: "arith_row blake3 op' l' r' = Some (a, t)" for op' l' r'
  proof -
    obtain base where b: "join l' r' = Some base" using arith_row_fields[OF row] by auto
    define u where "u = (if op' = Div then field_of base else base)"
    obtain p q where "arith_row blake3 op' l' r' = Some (\<lparr>operator = op', lhs_type = l', rhs_type = r',
        lhs_promotion_path = p, rhs_promotion_path = q\<rparr>, u)"
      and pq: "Lossy \<in> ekind ` set p \<longleftrightarrow> u = TFloat \<and> l' \<noteq> TFloat" "Lossy \<in> ekind ` set q \<longleftrightarrow> u = TFloat \<and> r' \<noteq> TFloat"
      using arith_row_Some[OF b, of blake3 op', folded u_def] by blast
    then have a: "a = \<lparr>operator = op', lhs_type = l', rhs_type = r', lhs_promotion_path = p, rhs_promotion_path = q\<rparr>"
      and t: "t = u" using row by simp_all
    show ?thesis using pq b by (simp add: a t u_def)
  qed
  show ?thesis
  proof (intro conjI)
    show "(\<exists>a t. (a, t) \<in> set (arith_table blake3) \<and> operator a = op \<and> lhs_type a = l \<and> rhs_type a = r)
        \<longleftrightarrow> (\<exists>d. le l d \<and> le r d)"
      unfolding iff join_None by simp
  qed (unfold set_arith_table, use imp in blast)
qed

theorem arith_table_spec_witness:
  "\<exists>a. (a, TFloat) \<in> set (arith_table (\<lambda>_. replicate 32 0)) \<and> operator a = Div \<and> lhs_type a = TInt \<and>
     rhs_type a = TInt \<and> Lossy \<in> ekind ` set (lhs_promotion_path a)"
proof -
  note s = arith_table_spec[where ?blake3.0 = "\<lambda>_. replicate 32 0"]
  have "\<exists>d. le TInt d \<and> le TInt d" using le_refl by blast
  then obtain a t where at: "(a, t) \<in> set (arith_table (\<lambda>_. replicate 32 0))" "operator a = Div"
    "lhs_type a = TInt" "rhs_type a = TInt"
    using s[where op = Div and l = TInt and r = TInt] by blast
  have "join TInt TInt = Some TInt" by code_simp
  then have "t = TFloat" using at s[where a = a and t = t] by (simp add: field_of_def)
  then show ?thesis using at s[where a = a and t = t] by auto
qed

text \<open>
  The functionality assertion at registry construction holds unless the hash function itself
  collides on the encodings of two different rows: the registry is then built, with the arithmetic
  generator, and resolves exactly its own identity.
\<close>

theorem registry_builds:
  "(\<exists>a s b t. (a, s) \<in> set (arith_table blake3) \<and> (b, t) \<in> set (arith_table blake3) \<and>
      canon_bytes (canon_write_arith_input a) \<noteq> canon_bytes (canon_write_arith_input b) \<and>
      arith_input_config_id blake3 a = arith_input_config_id blake3 b) \<or>
   (\<exists>r. build_arith_relation blake3 = Some r \<and> generator r = id_named blake3 ''type.rule.arith@1'' \<and>
      resolve blake3 i = Some (if i = relation_id blake3 r then Some r else None))"
proof (cases "functional_rows (arith_rows blake3)")
  case True
  then show ?thesis by (auto simp: build_arith_relation_def resolve_def Let_def)
next
  case False
  then obtain a s b t where ab: "(a, s) \<in> set (arith_table blake3)" "(b, t) \<in> set (arith_table blake3)"
    "arith_input_config_id blake3 a = arith_input_config_id blake3 b"
    "result_type_config_id blake3 s \<noteq> result_type_config_id blake3 t"
    by (auto simp: functional_rows_def arith_rows_def list_all_iff)
  have "canon_bytes (canon_write_arith_input a) \<noteq> canon_bytes (canon_write_arith_input b)"
  proof
    assume "canon_bytes (canon_write_arith_input a) = canon_bytes (canon_write_arith_input b)"
    then have "operator a = operator b \<and> lhs_type a = lhs_type b \<and> rhs_type a = rhs_type b"
      by (rule input_bytes_determine)
    then have "s = t" using ab(1,2) arith_row_fields unfolding set_arith_table
      by (metis option.inject prod.inject)
    then show False using ab(4) by simp
  qed
  then show ?thesis using ab by blast
qed

end
