(* ===== verification/Canon_Decimal.thy ===== *)
theory Canon_Decimal
  imports Canon_Writer
begin

unbundle bit_operations_syntax

text \<open>
  Exact decimals and their order-preserving encoding, from
  \<open>crates/brix-canon/src/decimal.rs\<close>, with the quantities and money of
  \<open>crates/brix-canon/src/quantity.rs\<close>. A decimal is \<open>unscaled * 10^-scale\<close>, normalised on
  construction; its \<open>Ord\<close> is the byte order of its canonical encoding. The theory shows that
  this byte order is the numeric order, that a value written is read back, and how many encodings
  the reader accepts.
\<close>

record decimal =
  unscaled :: int
  scale :: nat

function decimal_loop :: "int \<Rightarrow> nat \<Rightarrow> int \<times> nat" where
  "decimal_loop u s =
     (if s > 0 \<and> u \<noteq> 0 \<and> u mod 10 = 0 then decimal_loop (u div 10) (s - 1) else (u, s))"
  by pat_completeness auto
termination by (relation "measure snd") auto

declare decimal_loop.simps [simp del]

definition decimal_new :: "int \<Rightarrow> nat \<Rightarrow> decimal" where
  "decimal_new u0 s0 =
     (let (u, s) = decimal_loop u0 s0;
          s = (if u = 0 then 0 else s)
      in \<lparr>unscaled = u, scale = s\<rparr>)"

definition decimal_ZERO :: decimal where
  "decimal_ZERO = \<lparr>unscaled = 0, scale = 0\<rparr>"

text \<open>The digit loop: \<open>digits.push(m % 10); m /= 10\<close> while \<open>m > 0\<close>, least digit first.\<close>

fun digit_loop :: "nat \<Rightarrow> nat list" where
  "digit_loop m = (if m > 0 then m mod 10 # digit_loop (m div 10) else [])"

declare digit_loop.simps [simp del]

definition digits_and_exponent :: "decimal \<Rightarrow> nat list \<times> int" where
  "digits_and_exponent d =
     (let digits = rev (digit_loop (nat \<bar>unscaled d\<bar>));
          ndigits = int (length digits)
      in (digits, (ndigits - 1) - int (scale d)))"

definition magnitude_bytes :: "decimal \<Rightarrow> bytes" where
  "magnitude_bytes d =
     (let (digits, exponent) = digits_and_exponent d;
          mbuf = write_int128 exponent canon_new;
          tail = map (\<lambda>g. 1 + word_of_nat g) digits @ [0x00]
      in finish (write_raw tail mbuf))"

definition SIGN_NEG :: u8 where "SIGN_NEG = 0x00"
definition SIGN_ZERO :: u8 where "SIGN_ZERO = 0x01"
definition SIGN_POS :: u8 where "SIGN_POS = 0x02"

definition canon_write_decimal :: "decimal \<Rightarrow> canon_writer \<Rightarrow> canon_writer" where
  "canon_write_decimal d w =
     (if unscaled d = 0 then write_raw [SIGN_ZERO] w
      else
        let negative = unscaled d < 0; inner = magnitude_bytes d in
        if negative then write_raw (map (\<lambda>b. NOT b) inner) (write_raw [SIGN_NEG] w)
        else write_raw inner (write_raw [SIGN_POS] w))"

definition decimal_bytes :: "decimal \<Rightarrow> bytes" where
  "decimal_bytes d = canon_bytes (canon_write_decimal d)"

text \<open>\<open>Ord for Decimal\<close>: the comparison of the canonical byte strings.\<close>

definition decimal_less :: "decimal \<Rightarrow> decimal \<Rightarrow> bool" where
  "decimal_less a b \<longleftrightarrow> decimal_bytes a < decimal_bytes b"

definition xf :: "bool \<Rightarrow> u8 \<Rightarrow> u8" where
  "xf negate b = (if negate then NOT b else b)"

text \<open>The loop that reassembles \<open>ilen\<close> bytes of the exponent.\<close>

fun read_xf_bytes :: "bool \<Rightarrow> nat \<Rightarrow> bytes read" where
  "read_xf_bytes neg 0 r = (Inr [], r)"
| "read_xf_bytes neg (Suc n) r =
     (case read_u8 r of
        (Inl e, r) \<Rightarrow> (Inl e, r)
      | (Inr b, r) \<Rightarrow>
          (case read_xf_bytes neg n r of
             (Inl e, r) \<Rightarrow> (Inl e, r)
           | (Inr bs, r) \<Rightarrow> (Inr (xf neg b # bs), r)))"

text \<open>The digit loop of the reader, up to the terminator byte.\<close>

function read_digits :: "bool \<Rightarrow> nat list read" where
  "read_digits neg r =
     (if pos r < length (rbuf r) then
        let b = xf neg (rbuf r ! pos r); r = r\<lparr>pos := pos r + 1\<rparr> in
        if b = 0x00 then (Inr [], r)
        else if \<not> (1 \<le> b \<and> b \<le> 10) then (Inl BadLength, r)
        else (case read_digits neg r of
                (Inl e, r) \<Rightarrow> (Inl e, r)
              | (Inr ds, r) \<Rightarrow> (Inr (unat (b - 1) # ds), r))
      else (Inl UnexpectedEof, r))"
  by pat_completeness auto
termination by (relation "measure (\<lambda>(neg, r). length (rbuf r) - pos r)") auto

declare read_digits.simps [simp del]

fun accumulate :: "bool \<Rightarrow> int \<Rightarrow> nat list \<Rightarrow> int option" where
  "accumulate negate u [] = Some u"
| "accumulate negate u (d # ds) =
     (case i128_try (u * 10) of
        None \<Rightarrow> None
      | Some v \<Rightarrow>
          (case i128_try (if negate then v - int d else v + int d) of
             None \<Rightarrow> None
           | Some u' \<Rightarrow> accumulate negate u' ds))"

definition u8_try :: "int \<Rightarrow> nat option" where
  "u8_try v = (if 0 \<le> v \<and> v < 256 then Some (nat v) else None)"

definition read_decimal_digits :: "bool \<Rightarrow> int \<Rightarrow> decimal read" where
  "read_decimal_digits negate exponent r =
     (case read_digits negate r of
        (Inl e, r) \<Rightarrow> (Inl e, r)
      | (Inr digits, r) \<Rightarrow>
          if digits = [] then (Inl BadLength, r)
          else
            (case Option.bind (i64_try ((int (length digits) - 1) - exponent)) u8_try of
               None \<Rightarrow> (Inl BadLength, r)
             | Some s \<Rightarrow>
                 (case accumulate negate 0 digits of
                    None \<Rightarrow> (Inl BadLength, r)
                  | Some u \<Rightarrow> (Inr (decimal_new u s), r))))"

definition read_decimal :: "decimal read" where
  "read_decimal r =
     (case read_u8 r of
        (Inl e, r) \<Rightarrow> (Inl e, r)
      | (Inr sign, r) \<Rightarrow>
          if sign = SIGN_ZERO then (Inr decimal_ZERO, r)
          else if sign = SIGN_NEG \<or> sign = SIGN_POS then
            let negate = (sign = SIGN_NEG) in
            (case read_u8 r of
               (Inl e, r) \<Rightarrow> (Inl e, r)
             | (Inr c, r) \<Rightarrow>
                 let cat = xf negate c; ez = INT_ZERO_CATEGORY;
                     ilen = (if cat = ez then 0 else if cat > ez then unat (cat - ez) else unat (ez - cat))
                 in if ilen > 16 then (Inl BadLength, r)
                 else
                   (case read_xf_bytes negate ilen r of
                      (Inl e, r) \<Rightarrow> (Inl e, r)
                    | (Inr bs, r) \<Rightarrow>
                        (case decode_int (cat # bs) of
                           Inl e \<Rightarrow> (Inl e, r)
                         | Inr (exp_i128, _) \<Rightarrow>
                             (case i64_try exp_i128 of
                                None \<Rightarrow> (Inl BadLength, r)
                              | Some exponent \<Rightarrow> read_decimal_digits negate exponent r))))
          else (Inl BadLength, r))"

section \<open>Quantities and money\<close>

record quantity =
  qmeasure :: string
  qvalue :: decimal

record money =
  currency :: string
  minor_units :: int

definition canon_write_quantity :: "(string \<Rightarrow> string) \<Rightarrow> quantity \<Rightarrow> canon_writer \<Rightarrow> canon_writer" where
  "canon_write_quantity nfc q w = canon_write_decimal (qvalue q) (write_ident nfc (qmeasure q) w)"

definition canon_write_money :: "(string \<Rightarrow> string) \<Rightarrow> money \<Rightarrow> canon_writer \<Rightarrow> canon_writer" where
  "canon_write_money nfc m w = write_int128 (minor_units m) (write_ident nfc (currency m) w)"

section \<open>Normal form\<close>

text \<open>The type's range, and the normal form the constructor establishes.\<close>

definition decimal_range :: "decimal \<Rightarrow> bool" where
  "decimal_range d \<longleftrightarrow> i128_range (unscaled d) \<and> scale d < 256"

definition decimal_normal :: "decimal \<Rightarrow> bool" where
  "decimal_normal d \<longleftrightarrow> (unscaled d = 0 \<longrightarrow> scale d = 0) \<and> (0 < scale d \<longrightarrow> unscaled d mod 10 \<noteq> 0)"

definition decimal_wf :: "decimal \<Rightarrow> bool" where
  "decimal_wf d \<longleftrightarrow> decimal_range d \<and> decimal_normal d"

lemma decimal_loop_props:
  assumes "decimal_loop u s = (u', s')"
  shows "s' \<le> s" and "u = u' * 10 ^ (s - s')" and "s' = 0 \<or> u' = 0 \<or> u' mod 10 \<noteq> 0"
proof -
  have "s' \<le> s \<and> u = u' * 10 ^ (s - s') \<and> (s' = 0 \<or> u' = 0 \<or> u' mod 10 \<noteq> 0)"
    using assms
  proof (induction u s arbitrary: u' s' rule: decimal_loop.induct)
    case (1 u s)
    show ?case
    proof (cases "s > 0 \<and> u \<noteq> 0 \<and> u mod 10 = 0")
      case True
      have "decimal_loop (u div 10) (s - 1) = (u', s')"
        using "1.prems" True by (simp add: decimal_loop.simps[of u s])
      from "1.IH"[OF True this] have h: "s' \<le> s - 1" "u div 10 = u' * 10 ^ (s - 1 - s')"
        "s' = 0 \<or> u' = 0 \<or> u' mod 10 \<noteq> 0" by simp_all
      have "u = 10 * (u div 10)" using True by auto
      also have "\<dots> = u' * 10 ^ Suc (s - 1 - s')" using h(2) by simp
      also have "Suc (s - 1 - s') = s - s'" using True h(1) by linarith
      finally show ?thesis using h by auto
    qed (use "1.prems" in \<open>auto simp: decimal_loop.simps[of u s]\<close>)
  qed
  note h = this
  show "s' \<le> s" using h by (elim conjE)
  show "u = u' * 10 ^ (s - s')" using h by (elim conjE)
  show "s' = 0 \<or> u' = 0 \<or> u' mod 10 \<noteq> 0" using h by (elim conjE)
qed

lemma decimal_new_normal: "decimal_normal (decimal_new u s)"
  using decimal_loop_props[of u s] by (auto simp: decimal_new_def decimal_normal_def split: prod.splits)

lemma decimal_new_value:
  "scale (decimal_new u s) \<le> s \<and> u = unscaled (decimal_new u s) * 10 ^ (s - scale (decimal_new u s))"
proof -
  obtain u' s' where l: "decimal_loop u s = (u', s')" by (cases "decimal_loop u s")
  have "decimal_new u s = \<lparr>unscaled = u', scale = if u' = 0 then 0 else s'\<rparr>"
    by (simp add: decimal_new_def l)
  then show ?thesis using decimal_loop_props(1,2)[OF l] by simp
qed

lemma decimal_new_idem:
  assumes "decimal_normal d"
  shows "decimal_new (unscaled d) (scale d) = d"
  using assms by (auto simp: decimal_new_def decimal_normal_def decimal_loop.simps[of "unscaled d" "scale d"])

lemma decimal_new_range:
  assumes "i128_range u" "s < 256"
  shows "decimal_range (decimal_new u s)"
proof -
  let ?v = "unscaled (decimal_new u s)"
  have "\<bar>?v\<bar> * 1 \<le> \<bar>?v\<bar> * 10 ^ (s - scale (decimal_new u s))"
    by (rule mult_left_mono) simp_all
  moreover have "\<bar>u\<bar> = \<bar>?v\<bar> * 10 ^ (s - scale (decimal_new u s))"
    using decimal_new_value[of u s] by (metis abs_mult abs_of_nonneg zero_le_numeral zero_le_power)
  ultimately have "\<bar>?v\<bar> \<le> \<bar>u\<bar>" by simp
  moreover have "sgn ?v = sgn u"
    using decimal_new_value[of u s] by (metis mult.right_neutral sgn_1_pos sgn_mult zero_less_numeral zero_less_power)
  ultimately show ?thesis
    using assms decimal_new_value[of u s]
    by (auto simp: decimal_range_def i128_range_def sgn_if split: if_splits)
qed

section \<open>Decimal digits\<close>

definition digit_val :: "nat list \<Rightarrow> nat" where
  "digit_val ds = foldl (\<lambda>v d. v * 10 + d) 0 ds"

lemma digit_val_foldl: "foldl (\<lambda>v d. v * 10 + d) a ds = a * 10 ^ length ds + digit_val ds"
proof (induction ds arbitrary: a)
  case (Cons d ds)
  have "digit_val (d # ds) = d * 10 ^ length ds + digit_val ds"
    using Cons[of d] by (simp add: digit_val_def)
  then show ?case using Cons[of "a * 10 + d"] by (simp add: algebra_simps)
qed (simp add: digit_val_def)

lemma digit_val_Nil [simp]: "digit_val [] = 0"
  by (simp add: digit_val_def)

lemma digit_val_Cons: "digit_val (d # ds) = d * 10 ^ length ds + digit_val ds"
  using digit_val_foldl[of d ds] by (simp add: digit_val_def)

lemma digit_val_append: "digit_val (as @ bs) = digit_val as * 10 ^ length bs + digit_val bs"
  using digit_val_foldl[of "digit_val as" bs] by (simp add: digit_val_def)

lemma digit_val_zeros [simp]: "digit_val (replicate k 0) = 0"
  by (induction k) (simp_all add: digit_val_Cons)

abbreviation is_digits :: "nat list \<Rightarrow> bool" where
  "is_digits ds \<equiv> \<forall>d \<in> set ds. d < 10"

lemma digit_val_less: "is_digits ds \<Longrightarrow> digit_val ds < 10 ^ length ds"
proof (induction ds)
  case (Cons d ds)
  have "digit_val (d # ds) < (d + 1) * 10 ^ length ds"
    using Cons by (simp add: digit_val_Cons algebra_simps)
  also have "\<dots> \<le> 10 * 10 ^ length ds"
    by (rule mult_le_mono1) (use Cons.prems in simp)
  finally show ?case by simp
qed simp

lemma digit_val_lower:
  assumes "ds \<noteq> []" "hd ds \<noteq> 0"
  shows "10 ^ (length ds - 1) \<le> digit_val ds"
proof -
  obtain d es where ds: "ds = d # es" using assms(1) by (cases ds) auto
  have "1 * 10 ^ length es \<le> d * 10 ^ length es + digit_val es"
    by (intro trans_le_add1 mult_le_mono1) (use assms ds in simp)
  then show ?thesis by (simp add: ds digit_val_Cons)
qed

lemma digit_val_less_iff:
  assumes "length as = length bs" "is_digits as" "is_digits bs"
  shows "digit_val as < digit_val bs \<longleftrightarrow> as < bs"
  using assms
proof (induction as bs rule: list_induct2)
  case (Cons a as b bs)
  have la: "digit_val as < 10 ^ length bs" and lb: "digit_val bs < 10 ^ length bs"
    using digit_val_less[of as] digit_val_less[of bs] Cons by simp_all
  consider "a < b" | "a = b" | "b < a" by linarith
  then show ?case
  proof cases
    case 1
    then have "(a + 1) * 10 ^ length bs \<le> b * 10 ^ length bs" by (intro mult_le_mono1) simp
    then show ?thesis using 1 la Cons.hyps by (simp add: digit_val_Cons)
  next
    case 3
    then have "(b + 1) * 10 ^ length bs \<le> a * 10 ^ length bs" by (intro mult_le_mono1) simp
    then show ?thesis using 3 lb Cons.hyps by (simp add: digit_val_Cons)
  qed (use Cons in \<open>simp add: digit_val_Cons\<close>)
qed simp

abbreviation digits_of :: "nat \<Rightarrow> nat list" where
  "digits_of m \<equiv> rev (digit_loop m)"

lemma digit_loop_pos: "0 < m \<Longrightarrow> digit_loop m = m mod 10 # digit_loop (m div 10)"
  by (simp add: digit_loop.simps[of m])

lemma digit_loop_0 [simp]: "digit_loop 0 = []"
  by (simp add: digit_loop.simps)

lemma digits_of_props:
  "digit_val (digits_of m) = m \<and> is_digits (digits_of m) \<and> (0 < m \<longrightarrow> digits_of m \<noteq> [] \<and> hd (digits_of m) \<noteq> 0)"
proof (induction m rule: digit_loop.induct)
  case (1 m)
  show ?case
  proof (cases "m > 0")
    case True
    with 1 have IH: "digit_val (digits_of (m div 10)) = m div 10" "is_digits (digits_of (m div 10))"
      "0 < m div 10 \<longrightarrow> digits_of (m div 10) \<noteq> [] \<and> hd (digits_of (m div 10)) \<noteq> 0" by blast+
    show ?thesis
    proof (cases "0 < m div 10")
      case False
      then have "m div 10 = 0" "m mod 10 = m" by auto
      then show ?thesis using True unfolding digit_loop_pos[OF True] by (simp add: digit_val_Cons)
    next
      case pos: True
      have "hd (digits_of (m div 10) @ [m mod 10]) = hd (digits_of (m div 10))"
        using IH(3) pos by (intro hd_append2) blast
      then show ?thesis using IH pos unfolding digit_loop_pos[OF True]
        by (simp add: digit_val_append digit_val_Cons)
    qed
  qed simp
qed

lemma digit_val_digits_of [simp]: "digit_val (digits_of m) = m"
  and is_digits_of: "is_digits (digits_of m)"
  and digits_of_ne: "0 < m \<Longrightarrow> digits_of m \<noteq> []"
  and hd_digits_of: "0 < m \<Longrightarrow> hd (digits_of m) \<noteq> 0"
  using digits_of_props[of m] by blast+

lemma digit_val_upper: "m < 10 ^ length (digits_of m)"
  using digit_val_less[OF is_digits_of[of m]] by simp

lemma digits_of_lower: "0 < m \<Longrightarrow> 10 ^ (length (digits_of m) - 1) \<le> m"
  using digit_val_lower[OF digits_of_ne hd_digits_of, of m] by simp

section \<open>The digit string and its terminator\<close>

definition digit_tail :: "nat list \<Rightarrow> bytes" where
  "digit_tail ds = map (\<lambda>g. 1 + word_of_nat g) ds @ [0x00]"

lemma unat_digit_byte: "g < 10 \<Longrightarrow> unat (1 + word_of_nat g :: u8) = 1 + g"
  by (simp add: unat_word_ariths unat_of_nat)

lemma digit_byte_inj: "g < 10 \<Longrightarrow> h < 10 \<Longrightarrow> (1 + word_of_nat g :: u8) = 1 + word_of_nat h \<longleftrightarrow> g = h"
  by (metis add_left_cancel unat_digit_byte)

lemma digit_byte_nonzero: "g < 10 \<Longrightarrow> (1 + word_of_nat g :: u8) \<noteq> 0"
  by (metis Suc_eq_plus1_left nat.distinct(1) unat_digit_byte unsigned_0)

interpretation digit_code: unique_code digit_tail is_digits
proof
  fix v w xs ys
  assume "is_digits v" "is_digits w" "digit_tail v @ xs = digit_tail w @ ys"
  then show "v = w \<and> xs = ys"
  proof (induction v arbitrary: w)
    case Nil
    then show ?case by (cases w) (auto simp: digit_tail_def digit_byte_nonzero)
  next
    case (Cons g v)
    then obtain h w' where w: "w = h # w'"
      by (cases w) (auto simp: digit_tail_def digit_byte_nonzero)
    have "(1 + word_of_nat g :: u8) = 1 + word_of_nat h"
      using Cons.prems(3) unfolding w digit_tail_def by (simp only: list.map append_Cons list.inject)
    then have "g = h" using Cons.prems(1,2) digit_byte_inj[of g h] by (simp add: w)
    moreover have "digit_tail v @ xs = digit_tail w' @ ys"
      using Cons.prems by (simp add: w digit_tail_def)
    ultimately show ?case using Cons.IH[of w'] Cons.prems by (simp add: w)
  qed
qed

lemma digit_tail_mono:
  assumes "is_digits v" "is_digits w" "v < w"
  shows "digit_tail v < digit_tail w"
  using assms
proof (induction v arbitrary: w)
  case Nil
  then obtain h w' where w: "w = h # w'" by (cases w) auto
  have "(0 :: u8) < 1 + word_of_nat h"
    using Nil.prems by (simp add: w word_less_nat_alt unat_digit_byte)
  then show ?case by (simp add: w digit_tail_def)
next
  case (Cons g v)
  then obtain h w' where w: "w = h # w'" by (cases w) auto
  have "(1 + word_of_nat g :: u8) < 1 + word_of_nat h \<longleftrightarrow> g < h"
    using Cons.prems by (simp add: w word_less_nat_alt unat_digit_byte)
  then show ?case using Cons by (auto simp: w digit_tail_def)
qed

section \<open>The encoding\<close>

definition ddigits :: "decimal \<Rightarrow> nat list" where
  "ddigits d = digits_of (nat \<bar>unscaled d\<bar>)"

definition dexp :: "decimal \<Rightarrow> int" where
  "dexp d = int (length (ddigits d)) - 1 - int (scale d)"

lemma magnitude_bytes_eq: "magnitude_bytes d = int_bytes (dexp d) @ digit_tail (ddigits d)"
  by (simp add: magnitude_bytes_def digits_and_exponent_def Let_def out_simps finish_def canon_new_def
      dexp_def ddigits_def digit_tail_def)

lemma canon_write_decimal_out [out_simps]:
  "canon_write_decimal d w = w\<lparr>buf := buf w @ decimal_bytes d\<rparr>"
  by (simp add: decimal_bytes_def canon_bytes_def canon_write_decimal_def out_simps Let_def finish_def canon_new_def)

lemma decimal_bytes_zero: "unscaled d = 0 \<Longrightarrow> decimal_bytes d = [SIGN_ZERO]"
  by (simp add: decimal_bytes_def canon_bytes_def canon_write_decimal_def out_simps finish_def canon_new_def)

lemma decimal_bytes_pos:
  "0 < unscaled d \<Longrightarrow> decimal_bytes d = SIGN_POS # int_bytes (dexp d) @ digit_tail (ddigits d)"
  by (simp add: decimal_bytes_def canon_bytes_def canon_write_decimal_def out_simps Let_def finish_def
      canon_new_def magnitude_bytes_eq)

lemma decimal_bytes_neg:
  "unscaled d < 0 \<Longrightarrow> decimal_bytes d =
     SIGN_NEG # map (\<lambda>b. NOT b) (int_bytes (dexp d) @ digit_tail (ddigits d))"
  by (simp add: decimal_bytes_def canon_bytes_def canon_write_decimal_def out_simps Let_def finish_def
      canon_new_def magnitude_bytes_eq)

lemma is_digits_ddigits: "is_digits (ddigits d)"
  unfolding ddigits_def by (rule is_digits_of)

lemma length_ddigits:
  assumes "decimal_range d" "unscaled d \<noteq> 0"
  shows "1 \<le> length (ddigits d) \<and> length (ddigits d) \<le> 39"
proof -
  let ?m = "nat \<bar>unscaled d\<bar>"
  have m: "0 < ?m" using assms(2) by simp
  have "10 ^ (length (ddigits d) - 1) \<le> ?m" unfolding ddigits_def using m by (rule digits_of_lower)
  also have "?m < 10 ^ 39"
    using assms(1) by (auto simp: decimal_range_def i128_range_def nat_less_iff)
  finally have "length (ddigits d) - 1 < 39" by (rule power_less_imp_less_exp[rotated]) simp
  moreover have "ddigits d \<noteq> []" unfolding ddigits_def using m by (rule digits_of_ne)
  ultimately show ?thesis by (cases "ddigits d") auto
qed

lemma dexp_range:
  assumes "decimal_range d" "unscaled d \<noteq> 0"
  shows "i64_range (dexp d)" "i128_range (dexp d)"
proof -
  show "i64_range (dexp d)"
    using length_ddigits[OF assms] assms(1) by (auto simp: dexp_def i64_range_def decimal_range_def)
  then show "i128_range (dexp d)" by (rule i64_range_i128)
qed

section \<open>Byte order is numeric order\<close>

text \<open>The numeric order, compared on a common denominator.\<close>

definition decimal_value_less :: "decimal \<Rightarrow> decimal \<Rightarrow> bool" where
  "decimal_value_less a b \<longleftrightarrow> unscaled a * 10 ^ scale b < unscaled b * 10 ^ scale a"

lemma less_pad_left:
  "length as + k = length bs \<Longrightarrow> as @ replicate k (0::nat) < bs \<Longrightarrow> as < bs"
proof (induction as arbitrary: bs)
  case Nil
  then show ?case by (cases bs) auto
next
  case (Cons a as)
  then show ?case by (cases bs) auto
qed

lemma not_less_zeros: "length as = k \<Longrightarrow> \<not> as < replicate k (0::nat)"
  by (induction as arbitrary: k) auto

lemma less_pad_right:
  "length as = length bs + k \<Longrightarrow> as < bs @ replicate k (0::nat) \<Longrightarrow> as < bs"
proof (induction as arbitrary: bs)
  case (Cons a as)
  then show ?case using not_less_zeros[of "a # as" k] by (cases bs) auto
qed auto

lemma mag_less_exp:
  assumes "0 < m1" "0 < m2"
    "int (length (digits_of m1)) - int s1 < int (length (digits_of m2)) - int s2"
  shows "m1 * 10 ^ s2 < m2 * 10 ^ s1"
proof -
  let ?n1 = "length (digits_of m1)" and ?n2 = "length (digits_of m2)"
  have "1 \<le> ?n2" using digits_of_ne[OF assms(2)] by (cases "digits_of m2") auto
  then have le: "?n1 + s2 \<le> (?n2 - 1) + s1" using assms(3) by linarith
  have "m1 * 10 ^ s2 < 10 ^ ?n1 * 10 ^ s2"
    using digit_val_upper[of m1] by (intro mult_strict_right_mono) simp_all
  also have "\<dots> = 10 ^ (?n1 + s2)" by (simp add: power_add)
  also have "\<dots> \<le> 10 ^ ((?n2 - 1) + s1)" using le by (intro power_increasing) simp_all
  also have "\<dots> \<le> m2 * 10 ^ s1"
    using digits_of_lower[OF assms(2)] by (simp add: power_add)
  finally show ?thesis .
qed

lemma digits_less_eq_exp:
  assumes "int (length (digits_of m1)) - int s1 = int (length (digits_of m2)) - int s2"
    "m1 * 10 ^ s2 < m2 * 10 ^ s1"
  shows "digits_of m1 < digits_of m2"
proof (cases "length (digits_of m1) \<le> length (digits_of m2)")
  case True
  define k where "k = length (digits_of m2) - length (digits_of m1)"
  have k: "length (digits_of m1) + k = length (digits_of m2)" "s2 = s1 + k"
    using True assms(1) by (auto simp: k_def)
  have "m1 * 10 ^ k < m2" using assms(2) by (simp add: k(2) power_add mult.assoc[symmetric])
  then have "digit_val (digits_of m1 @ replicate k 0) < digit_val (digits_of m2)"
    by (simp add: digit_val_append)
  then have "digits_of m1 @ replicate k 0 < digits_of m2"
    by (subst (asm) digit_val_less_iff) (use k is_digits_of in auto)
  then show ?thesis by (rule less_pad_left[OF k(1)])
next
  case False
  define k where "k = length (digits_of m1) - length (digits_of m2)"
  have k: "length (digits_of m1) = length (digits_of m2) + k" "s1 = s2 + k"
    using False assms(1) by (auto simp: k_def)
  have "m1 < m2 * 10 ^ k" using assms(2) by (simp add: k(2) power_add mult.assoc[symmetric])
  then have "digit_val (digits_of m1) < digit_val (digits_of m2 @ replicate k 0)"
    by (simp add: digit_val_append)
  then have "digits_of m1 < digits_of m2 @ replicate k 0"
    by (subst (asm) digit_val_less_iff) (use k is_digits_of in auto)
  then show ?thesis by (rule less_pad_right[OF k(1)])
qed

text \<open>On magnitudes: a smaller value has a smaller encoding, whatever follows.\<close>

lemma magnitude_less:
  assumes wf: "decimal_range a" "decimal_range b" and nz: "unscaled a \<noteq> 0" "unscaled b \<noteq> 0"
    and less: "nat \<bar>unscaled a\<bar> * 10 ^ scale b < nat \<bar>unscaled b\<bar> * 10 ^ scale a"
  shows "magnitude_bytes a < magnitude_bytes b"
proof -
  let ?ma = "nat \<bar>unscaled a\<bar>" and ?mb = "nat \<bar>unscaled b\<bar>"
  have pos: "0 < ?ma" "0 < ?mb" using nz by simp_all
  have "\<not> dexp b < dexp a"
    using mag_less_exp[OF pos(2,1), of "scale b" "scale a"] less by (auto simp: dexp_def ddigits_def)
  then consider "dexp a < dexp b" | "dexp a = dexp b" by linarith
  then show ?thesis
  proof cases
    case 1
    then show ?thesis unfolding magnitude_bytes_eq
      using wf nz by (intro int_code.enc_append_less dexp_range)
  next
    case 2
    then have "ddigits a < ddigits b"
      unfolding ddigits_def using less by (intro digits_less_eq_exp) (auto simp: dexp_def ddigits_def)
    then have "digit_tail (ddigits a) < digit_tail (ddigits b)"
      by (intro digit_tail_mono is_digits_ddigits)
    moreover have "c < d \<Longrightarrow> (xs :: bytes) @ c < xs @ d" for xs c d by (induction xs) auto
    ultimately show ?thesis unfolding magnitude_bytes_eq 2 by blast
  qed
qed

lemma magnitude_unique:
  assumes "decimal_range a" "decimal_range b" "unscaled a \<noteq> 0" "unscaled b \<noteq> 0"
    "magnitude_bytes a @ xs = magnitude_bytes b @ ys"
  shows "dexp a = dexp b \<and> ddigits a = ddigits b \<and> xs = ys"
proof -
  have "dexp a = dexp b \<and> digit_tail (ddigits a) @ xs = digit_tail (ddigits b) @ ys"
    using assms int_code.unique_readable[OF dexp_range(2)[OF assms(1,3)] dexp_range(2)[OF assms(2,4)]]
    by (simp add: magnitude_bytes_eq)
  then show ?thesis using digit_code.unique_readable[OF is_digits_ddigits is_digits_ddigits] by blast
qed

text \<open>Complementing reverses the order of strings neither of which starts the other.\<close>

lemma map_not_less_no_prefix:
  fixes as bs :: bytes
  assumes "as < bs" "\<not> (\<exists>zs. bs = as @ zs)"
  shows "map (\<lambda>b. NOT b) bs < map (\<lambda>b. NOT b) as"
  using assms
proof (induction as arbitrary: bs)
  case (Cons a as)
  then obtain b cs where bs: "bs = b # cs" by (cases bs) auto
  then show ?case using Cons by auto
qed auto

lemma decimal_value_less_bytes:
  assumes wf: "decimal_range a" "decimal_range b" and less: "decimal_value_less a b"
  shows "decimal_bytes a < decimal_bytes b"
proof -
  let ?ua = "unscaled a" and ?ub = "unscaled b"
  have l: "?ua * 10 ^ scale b < ?ub * 10 ^ scale a" using less by (simp add: decimal_value_less_def)
  have pow: "(0::int) < 10 ^ scale a" "(0::int) < 10 ^ scale b" by simp_all
  have absd: "int (nat \<bar>u\<bar> * 10 ^ s) = \<bar>u\<bar> * 10 ^ s" for u :: int and s by simp
  have nat_less: "x < y" if "int x < int y" for x y using that by simp
  have "0 < ?ub" if "0 \<le> ?ua"
  proof -
    have "0 \<le> ?ua * 10 ^ scale b" using that by simp
    then have "0 < ?ub * 10 ^ scale a" using l by linarith
    then show ?thesis using pow(1) by (simp add: zero_less_mult_iff)
  qed
  then consider "?ua < 0" "0 \<le> ?ub" | "?ua = 0" "0 < ?ub" | "?ua < 0" "?ub < 0" | "0 < ?ua" "0 < ?ub"
    by linarith
  then show ?thesis
  proof cases
    case 1
    then show ?thesis
      by (cases "?ub = 0")
        (simp_all add: decimal_bytes_neg decimal_bytes_zero decimal_bytes_pos SIGN_NEG_def SIGN_ZERO_def SIGN_POS_def)
  next
    case 2
    then show ?thesis by (simp add: decimal_bytes_zero decimal_bytes_pos SIGN_ZERO_def SIGN_POS_def)
  next
    case 3
    have "int (nat \<bar>?ub\<bar> * 10 ^ scale a) < int (nat \<bar>?ua\<bar> * 10 ^ scale b)"
      unfolding absd using 3 l by simp
    then have m: "magnitude_bytes b < magnitude_bytes a"
      using wf 3 by (intro magnitude_less nat_less) simp_all
    have "\<not> (\<exists>zs. magnitude_bytes a = magnitude_bytes b @ zs)"
    proof
      assume "\<exists>zs. magnitude_bytes a = magnitude_bytes b @ zs"
      then obtain zs where z: "magnitude_bytes b @ zs = magnitude_bytes a @ []" by auto
      have "zs = []" using magnitude_unique[OF wf(2,1) _ _ z] 3 by simp
      then show False using z m by simp
    qed
    then have "map (\<lambda>b. NOT b) (magnitude_bytes a) < map (\<lambda>b. NOT b) (magnitude_bytes b)"
      by (intro map_not_less_no_prefix m)
    then show ?thesis using 3 by (simp add: decimal_bytes_neg magnitude_bytes_eq)
  next
    case 4
    have "int (nat \<bar>?ua\<bar> * 10 ^ scale b) < int (nat \<bar>?ub\<bar> * 10 ^ scale a)"
      unfolding absd using 4 l by simp
    then have "magnitude_bytes a < magnitude_bytes b"
      using wf 4 by (intro magnitude_less nat_less) simp_all
    then show ?thesis using 4 by (simp add: decimal_bytes_pos magnitude_bytes_eq)
  qed
qed

lemma decimal_value_eq:
  assumes "decimal_normal a" "decimal_normal b" "unscaled a * 10 ^ scale b = unscaled b * 10 ^ scale a"
  shows "a = b"
proof -
  have no: False if "decimal_normal c" and nd: "decimal_normal d" and lt: "scale c < scale d"
    and eq: "unscaled c * 10 ^ scale d = unscaled d * 10 ^ scale c" for c d
  proof -
    obtain k where k: "scale d = scale c + Suc k" using lt by (metis add_Suc_right less_iff_Suc_add)
    then have "unscaled d = unscaled c * 10 ^ k * 10" using eq by (simp add: power_add)
    then have "unscaled d mod 10 = 0" by simp
    then show False using nd lt by (simp add: decimal_normal_def)
  qed
  have "scale a = scale b"
    using no[OF assms(1,2)] no[OF assms(2,1)] assms(3) by (metis linorder_neqE_nat)
  with assms(3) show ?thesis by (cases a; cases b) simp
qed

lemma decimal_less_iff:
  assumes "decimal_wf a" "decimal_wf b"
  shows "decimal_less a b \<longleftrightarrow> decimal_value_less a b"
proof
  assume l: "decimal_less a b"
  have "\<not> decimal_value_less b a"
    using l assms decimal_value_less_bytes[of b a] by (auto simp: decimal_less_def decimal_wf_def)
  moreover have "a \<noteq> b" using l by (auto simp: decimal_less_def)
  then have "unscaled a * 10 ^ scale b \<noteq> unscaled b * 10 ^ scale a"
    using assms decimal_value_eq by (auto simp: decimal_wf_def)
  ultimately show "decimal_value_less a b" by (auto simp: decimal_value_less_def)
next
  assume "decimal_value_less a b"
  then show "decimal_less a b"
    using assms by (simp add: decimal_less_def decimal_wf_def decimal_value_less_bytes)
qed

section \<open>Reading a decimal back\<close>

lemma xf_xf [simp]: "xf neg (xf neg b) = b"
  by (simp add: xf_def)

lemma read_u8_at:
  assumes "remaining r = b # rest"
  shows "read_u8 r = (Inr b, adv r 1)"
proof -
  have "pos r < length (rbuf r)" using assms by (metis remaining_def drop_all list.distinct(1) not_le)
  moreover have "rbuf r ! pos r = b" using assms by (simp add: remaining_def nth_via_drop)
  ultimately show ?thesis by (simp add: read_u8_def adv_def)
qed

lemma read_xf_bytes_at:
  "remaining r = map (xf neg) bs @ rest \<Longrightarrow> read_xf_bytes neg (length bs) r = (Inr bs, adv r (length bs))"
proof (induction bs arbitrary: r)
  case Nil
  then show ?case by (simp add: adv_def)
next
  case (Cons b bs)
  have "read_u8 r = (Inr (xf neg b), adv r 1)" using Cons.prems by (intro read_u8_at) simp
  moreover have "read_xf_bytes neg (length bs) (adv r 1) = (Inr bs, adv (adv r 1) (length bs))"
    using Cons.prems by (intro Cons.IH) simp
  ultimately show ?case by simp
qed

lemma read_digits_at:
  assumes "is_digits ds" "remaining r = map (xf neg) (digit_tail ds) @ rest"
  shows "read_digits neg r = (Inr ds, adv r (length (digit_tail ds)))"
  using assms
proof (induction ds arbitrary: r)
  case Nil
  have r: "remaining r = xf neg 0 # rest" using Nil.prems by (simp add: digit_tail_def)
  then have "pos r < length (rbuf r)" by (metis remaining_def drop_all list.distinct(1) not_le)
  moreover have "rbuf r ! pos r = xf neg 0" using r by (simp add: remaining_def nth_via_drop)
  ultimately show ?case by (simp add: read_digits.simps[of neg r] digit_tail_def adv_def)
next
  case (Cons d ds)
  let ?b = "1 + word_of_nat d :: u8"
  have r: "remaining r = xf neg ?b # map (xf neg) (digit_tail ds) @ rest"
    using Cons.prems by (simp add: digit_tail_def)
  then have p: "pos r < length (rbuf r)" by (metis remaining_def drop_all list.distinct(1) not_le)
  have b: "rbuf r ! pos r = xf neg ?b" using r by (simp add: remaining_def nth_via_drop)
  have u: "unat ?b = 1 + d" using Cons.prems by (simp add: unat_digit_byte)
  have ne: "?b \<noteq> 0" and le: "1 \<le> ?b" "?b \<le> 10"
    using Cons.prems u by (simp_all add: digit_byte_nonzero word_le_nat_alt)
  have m: "unat (?b - 1) = d" using Cons.prems by (simp add: unat_of_nat)
  have "read_digits neg (adv r 1) = (Inr ds, adv (adv r 1) (length (digit_tail ds)))"
    using Cons.prems r by (intro Cons.IH) simp_all
  then show ?case
    using p b ne le m
    by (subst read_digits.simps) (simp add: Let_def adv_def digit_tail_def del: add_diff_cancel_left')
qed

lemma accumulate_val:
  assumes "is_digits ds" "if neg then u \<le> 0 else 0 \<le> u"
    "i128_range (u * 10 ^ length ds + (if neg then - int (digit_val ds) else int (digit_val ds)))"
  shows "accumulate neg u ds =
    Some (u * 10 ^ length ds + (if neg then - int (digit_val ds) else int (digit_val ds)))"
  using assms
proof (induction ds arbitrary: u)
  case (Cons d ds)
  let ?u = "if neg then u * 10 - int d else u * 10 + int d"
  let ?v = "\<lambda>x ds. x * 10 ^ length ds + (if neg then - int (digit_val ds) else int (digit_val ds))"
  have step: "?v u (d # ds) = ?v ?u ds"
    by (simp add: digit_val_Cons algebra_simps)
  have sg: "if neg then ?u \<le> 0 else 0 \<le> ?u" using Cons.prems(2) by (auto split: if_splits)
  have one: "(1::int) \<le> 10 ^ length ds" by simp
  have r2: "i128_range ?u"
  proof (cases neg)
    case True
    then have "?v ?u ds \<le> ?u" using sg mult_left_mono_neg[OF one, of ?u] by simp
    then show ?thesis using Cons.prems(3) sg True unfolding step by (simp add: i128_range_def)
  next
    case False
    then have "?u \<le> ?v ?u ds" using sg mult_left_mono[OF one, of ?u] by simp
    then show ?thesis using Cons.prems(3) sg False unfolding step by (simp add: i128_range_def)
  qed
  then have r1: "i128_range (u * 10)"
    using Cons.prems(2) by (auto simp: i128_range_def split: if_splits)
  have "accumulate neg ?u ds = Some (?v ?u ds)"
    using Cons.prems sg unfolding step by (intro Cons.IH) simp_all
  then show ?case using r1 r2 step by (simp add: i128_try_def)
qed simp

lemma int_bytes_ilen:
  assumes "int_bytes v = c # bs"
  shows "(if c = INT_ZERO_CATEGORY then 0 else if c > INT_ZERO_CATEGORY
      then unat (c - INT_ZERO_CATEGORY) else unat (INT_ZERO_CATEGORY - c)) = length bs \<and> length bs \<le> 16"
proof -
  have l: "length (abs_bytes v) \<le> 16" by (rule length_mag_bytes)
  note cats = unat_cat_pos[OF l] unat_cat_neg[OF l] unat_zero_cat
  let ?w = "word_of_nat (length (abs_bytes v)) :: u8"
  consider "v = 0" | "0 < v" | "v < 0" by linarith
  then show ?thesis
  proof cases
    case 1
    then show ?thesis using assms by (simp add: int_bytes_0)
  next
    case 2
    then have c: "c = INT_ZERO_CATEGORY + ?w" and bs: "bs = abs_bytes v"
      using assms int_bytes_pos[OF 2] by auto
    show ?thesis
    proof (cases "bs = []")
      case False
      then have "INT_ZERO_CATEGORY < c" unfolding c word_less_nat_alt cats by (simp add: bs)
      then show ?thesis using l by (auto simp: c bs)
    qed (simp add: c bs)
  next
    case 3
    then have c: "c = INT_ZERO_CATEGORY - ?w" and bs: "bs = map (\<lambda>b. NOT b) (abs_bytes v)"
      using assms int_bytes_neg[OF 3] by auto
    show ?thesis
    proof (cases "bs = []")
      case False
      then have "c < INT_ZERO_CATEGORY" unfolding c word_less_nat_alt cats using l by (simp add: bs)
      then have "\<not> INT_ZERO_CATEGORY < c" "c \<noteq> INT_ZERO_CATEGORY" by auto
      then show ?thesis using l by (simp add: c bs)
    qed (simp add: c bs)
  qed
qed

lemma signed_digits:
  "(if u < 0 then - int (digit_val (digits_of (nat \<bar>u\<bar>))) else int (digit_val (digits_of (nat \<bar>u\<bar>)))) = u"
  by simp

lemma read_decimal_digits_at:
  assumes wf: "decimal_wf d" and nz: "unscaled d \<noteq> 0"
    and rem: "remaining r = map (xf (unscaled d < 0)) (digit_tail (ddigits d)) @ rest"
  shows "read_decimal_digits (unscaled d < 0) (dexp d) r = (Inr d, adv r (length (digit_tail (ddigits d))))"
proof -
  have range: "decimal_range d" and norm: "decimal_normal d" using wf by (simp_all add: decimal_wf_def)
  have dig: "read_digits (unscaled d < 0) r = (Inr (ddigits d), adv r (length (digit_tail (ddigits d))))"
    using is_digits_ddigits rem by (rule read_digits_at)
  have len: "1 \<le> length (ddigits d)" "length (ddigits d) \<le> 39"
    using length_ddigits[OF range nz] by simp_all
  then have ne: "ddigits d \<noteq> []" by auto
  have sc: "(int (length (ddigits d)) - 1) - dexp d = int (scale d)" by (simp add: dexp_def)
  have "Option.bind (i64_try (int (scale d))) u8_try = Some (scale d)"
    using range by (simp add: i64_try_def i64_range_def u8_try_def decimal_range_def)
  moreover have "accumulate (unscaled d < 0) 0 (ddigits d) = Some (unscaled d)"
    using accumulate_val[OF is_digits_ddigits, of "unscaled d < 0" 0 d] range
    unfolding ddigits_def signed_digits by (simp add: decimal_range_def)
  ultimately show ?thesis
    unfolding read_decimal_digits_def dig by (simp add: ne sc decimal_new_idem[OF norm])
qed

lemma read_decimal_nonzero:
  assumes wf: "decimal_wf d" and nz: "unscaled d \<noteq> 0"
    and rem: "remaining r = (if unscaled d < 0 then SIGN_NEG else SIGN_POS)
      # map (xf (unscaled d < 0)) (int_bytes (dexp d) @ digit_tail (ddigits d)) @ rest"
  shows "read_decimal r =
    (Inr d, adv r (1 + length (int_bytes (dexp d)) + length (digit_tail (ddigits d))))"
proof -
  let ?n = "unscaled d < 0"
  let ?s = "if ?n then SIGN_NEG else SIGN_POS"
  have range: "decimal_range d" using wf by (simp add: decimal_wf_def)
  obtain c bs where cb: "int_bytes (dexp d) = c # bs"
    using length_int_bytes[of "dexp d"] by (cases "int_bytes (dexp d)") auto
  note il = int_bytes_ilen[OF cb]
  have s: "?s \<noteq> SIGN_ZERO" "?s = SIGN_NEG \<or> ?s = SIGN_POS" "?s = SIGN_NEG \<longleftrightarrow> ?n"
    by (simp_all add: SIGN_ZERO_def SIGN_NEG_def SIGN_POS_def)
  have r0: "read_u8 r = (Inr ?s, adv r 1)" using rem by (rule read_u8_at)
  have r1: "read_u8 (adv r 1) = (Inr (xf ?n c), adv r 2)"
    using read_u8_at[of "adv r 1"] rem by (simp add: cb numeral_2_eq_2)
  have r2: "read_xf_bytes ?n (length bs) (adv r 2) = (Inr bs, adv (adv r 2) (length bs))"
    using rem by (intro read_xf_bytes_at) (simp add: cb)
  have e: "decode_int (c # bs) = Inr (dexp d, length (c # bs))"
    using decode_encode_int[OF dexp_range(2)[OF range nz], of "[]"] by (simp add: cb)
  have ei: "i64_try (dexp d) = Some (dexp d)"
    using dexp_range(1)[OF range nz] by (simp add: i64_try_def)
  have r3: "read_decimal_digits ?n (dexp d) (adv (adv r 2) (length bs))
      = (Inr d, adv (adv (adv r 2) (length bs)) (length (digit_tail (ddigits d))))"
    using rem by (intro read_decimal_digits_at[OF wf nz]) (simp add: cb)
  have "\<not> 16 < length bs" using il by simp
  then show ?thesis
    unfolding read_decimal_def r0 prod.case sum.case s(3) Let_def r1 xf_xf conjunct1[OF il] r2 e ei option.case r3
    using s(1,2) by (simp add: cb)
qed

lemma read_decimal_at:
  assumes wf: "decimal_wf d" and rem: "remaining r = decimal_bytes d @ rest"
  shows "read_decimal r = (Inr d, adv r (length (decimal_bytes d)))"
proof -
  consider "unscaled d = 0" | "0 < unscaled d" | "unscaled d < 0" by linarith
  then show ?thesis
  proof cases
    case 1
    then have "d = decimal_ZERO" using wf by (simp add: decimal_ZERO_def decimal_wf_def decimal_normal_def)
    then show ?thesis using rem 1 read_u8_at[of r SIGN_ZERO rest]
      by (simp add: read_decimal_def decimal_bytes_zero)
  next
    case 2
    then show ?thesis using read_decimal_nonzero[OF wf, of r rest] rem
      by (simp add: decimal_bytes_pos xf_def[abs_def])
  next
    case 3
    then show ?thesis using read_decimal_nonzero[OF wf, of r rest] rem
      by (simp add: decimal_bytes_neg xf_def[abs_def])
  qed
qed

interpretation decimal_code: unique_code decimal_bytes decimal_wf
proof
  fix v w xs ys
  assume a: "decimal_wf v" "decimal_wf w" "decimal_bytes v @ xs = decimal_bytes w @ ys"
  have "remaining (reader_new (decimal_bytes v @ xs)) = decimal_bytes v @ xs" by simp
  from read_decimal_at[OF a(1) this] have v: "fst (read_decimal (reader_new (decimal_bytes v @ xs))) = Inr v"
    by simp
  have "remaining (reader_new (decimal_bytes w @ ys)) = decimal_bytes w @ ys" by simp
  from read_decimal_at[OF a(2) this] have "fst (read_decimal (reader_new (decimal_bytes w @ ys))) = Inr w"
    by simp
  with v a(3) have "v = w" by simp
  with a(3) show "v = w \<and> xs = ys" by simp
qed

section \<open>Properties\<close>

text \<open>
  C39. \<open>Ord for Decimal\<close>, defined as the comparison of the canonical byte strings, is the
  numeric order: for well-formed decimals the bytes compare as the values do, at every sign,
  exponent and digit count of the 128-bit coefficient and 8-bit scale.
\<close>

theorem decimal_ord_is_numeric:
  assumes "decimal_wf a" "decimal_wf b"
  shows "decimal_less a b \<longleftrightarrow> unscaled a * 10 ^ scale b < unscaled b * 10 ^ scale a"
  using decimal_less_iff[OF assms] by (simp add: decimal_value_less_def)

theorem decimal_ord_is_numeric_witness:
  "decimal_less \<lparr>unscaled = -153, scale = 1\<rparr> \<lparr>unscaled = -15, scale = 0\<rparr>"
proof -
  have "decimal_wf \<lparr>unscaled = -153, scale = 1\<rparr>" "decimal_wf \<lparr>unscaled = -15, scale = 0\<rparr>"
    by (simp_all add: decimal_wf_def decimal_range_def decimal_normal_def i128_range_def)
  from decimal_ord_is_numeric[OF this] show ?thesis by simp
qed

text \<open>
  A decimal written by \<open>canon_write\<close> is read back by \<open>read_decimal\<close> from any buffer
  that continues after it, and the reader stops right behind it; \<open>i128::MIN\<close> included.
\<close>

theorem read_decimal_roundtrip:
  assumes "i128_range u" "s < 256"
  shows "read_decimal \<lparr>rbuf = pre @ canon_bytes (canon_write_decimal (decimal_new u s)) @ rest, pos = length pre\<rparr>
    = (Inr (decimal_new u s),
       \<lparr>rbuf = pre @ canon_bytes (canon_write_decimal (decimal_new u s)) @ rest,
        pos = length pre + length (canon_bytes (canon_write_decimal (decimal_new u s)))\<rparr>)"
proof -
  have "decimal_wf (decimal_new u s)"
    using assms by (simp add: decimal_wf_def decimal_new_normal decimal_new_range)
  then show ?thesis
    unfolding decimal_bytes_def[symmetric]
    by (subst read_decimal_at) (simp_all add: remaining_def adv_def)
qed

theorem read_decimal_roundtrip_witness:
  "fst (read_decimal \<lparr>rbuf = canon_bytes (canon_write_decimal (decimal_new (- (2 ^ 127)) 18)) @ [7], pos = 0\<rparr>)
     = Inr (decimal_new (- (2 ^ 127)) 18)"
proof -
  have "i128_range (- (2 ^ 127))" "(18::nat) < 256" by (simp_all add: i128_range_def)
  from read_decimal_roundtrip[OF this, of "[]" "[7]"] show ?thesis by simp
qed

text \<open>
  The reader does not enforce the one-encoding law for decimals: a digit string with a
  superfluous trailing zero is accepted and denotes the same decimal as the canonical string, and
  so is one with a leading zero digit.
\<close>

theorem read_decimal_accepts_noncanonical:
  "fst (read_decimal (reader_new [2, 0x80, 2, 1, 0])) = Inr \<lparr>unscaled = 1, scale = 0\<rparr> \<and>
   fst (read_decimal (reader_new [2, 0x81, 1, 1, 2, 0])) = Inr \<lparr>unscaled = 1, scale = 0\<rparr> \<and>
   canon_bytes (canon_write_decimal \<lparr>unscaled = 1, scale = 0\<rparr>) = [2, 0x80, 2, 0]"
  by (intro conjI; code_simp)

end
