(* ===== verification/Decimal_Math.thy ===== *)
theory Decimal_Math
  imports Complex_Main Canon_Decimal
begin

text \<open>
  Checked exact-decimal arithmetic, from \<open>crates/brix-canon/src/decimal_math.rs\<close>: parsing and
  formatting, addition, subtraction, negation, multiplication, exact division and division with an
  explicit rounding mode. Coefficients are integers in the \<open>i128\<close> range and unsigned magnitudes
  natural numbers in the \<open>u128\<close> range; every \<open>checked_*\<close> operation of the source is a range
  test. \<open>dval\<close> is the rational a decimal denotes; the theorems compare the code with exact
  rational arithmetic.
\<close>

datatype numeric_error =
    InvalidNumber | NonFinite | Overflow | ScaleOutOfRange | DivisionByZero
  | InexactDivision | InvalidRoundingMode

definition MAX_DECIMAL_SCALE :: nat where "MAX_DECIMAL_SCALE = 18"

definition admitted :: "decimal \<Rightarrow> numeric_error + decimal" where
  "admitted d = (if scale d > MAX_DECIMAL_SCALE then Inl ScaleOutOfRange else Inr d)"

definition signed_of :: "nat \<Rightarrow> bool \<Rightarrow> numeric_error + int" where
  "signed_of magnitude negative =
     (if negative \<and> magnitude = 2 ^ 127 then Inr (- (2 ^ 127))
      else and_then (ok_or (i128_try (int magnitude)) Overflow)
             (\<lambda>v. Inr (if negative then - v else v)))"

lemma signed_of_code [code]:
  "signed_of magnitude negative =
     (if negative \<and> int magnitude = 2 ^ 127 then Inr (- (2 ^ 127))
      else and_then (ok_or (i128_try (int magnitude)) Overflow)
             (\<lambda>v. Inr (if negative then - v else v)))"
proof -
  have "int magnitude = 2 ^ 127 \<longleftrightarrow> magnitude = 2 ^ 127" by (metis of_nat_eq_iff of_nat_numeral of_nat_power)
  then show ?thesis by (simp only: signed_of_def)
qed

section \<open>Parsing and formatting\<close>

definition is_ascii_digit :: "char \<Rightarrow> bool" where
  "is_ascii_digit c \<longleftrightarrow> 48 \<le> (of_char c :: nat) \<and> (of_char c :: nat) \<le> 57"

text \<open>\<open>str::split_once\<close> at the first full stop.\<close>

fun split_once_dot :: "string \<Rightarrow> (string \<times> string) option" where
  "split_once_dot [] = None"
| "split_once_dot (c # cs) =
     (if c = CHR ''.'' then Some ([], cs)
      else map_option (\<lambda>(a, b). (c # a, b)) (split_once_dot cs))"

definition trim_end_zeros :: "string \<Rightarrow> string" where
  "trim_end_zeros s = rev (dropWhile (\<lambda>c. c = CHR ''0'') (rev s))"

fun parse_magnitude :: "nat \<Rightarrow> string \<Rightarrow> nat option" where
  "parse_magnitude m [] = Some m"
| "parse_magnitude m (c # cs) =
     (case Option.bind (u128_try (m * 10)) (\<lambda>v. u128_try (v + (of_char c - 48))) of
        None \<Rightarrow> None
      | Some m' \<Rightarrow> parse_magnitude m' cs)"

definition decimal_parse :: "string \<Rightarrow> numeric_error + decimal" where
  "decimal_parse text =
     (let (negative, unsigned) =
            (case text of
               [] \<Rightarrow> (False, text)
             | c # cs \<Rightarrow> if c = CHR ''-'' then (True, cs) else if c = CHR ''+'' then (False, cs)
                       else (False, text));
          (integer, fractional) =
            (case split_once_dot unsigned of None \<Rightarrow> (unsigned, []) | Some p \<Rightarrow> p)
      in if integer = [] \<or> \<not> list_all is_ascii_digit integer \<or> \<not> list_all is_ascii_digit fractional
            \<or> (CHR ''.'' \<in> set unsigned \<and> fractional = [])
         then Inl InvalidNumber
         else
           let fractional = trim_end_zeros fractional in
           if length fractional > MAX_DECIMAL_SCALE then Inl ScaleOutOfRange
           else and_then (ok_or (parse_magnitude 0 (integer @ fractional)) Overflow)
                  (\<lambda>magnitude. and_then (signed_of magnitude negative)
                     (\<lambda>v. Inr (decimal_new v (length fractional)))))"

text \<open>\<open>to_string\<close> of an unsigned integer: its decimal digits, \<open>0\<close> for zero.\<close>

definition nat_to_string :: "nat \<Rightarrow> string" where
  "nat_to_string m = (if m = 0 then ''0'' else map (\<lambda>g. char_of (48 + g)) (digits_of m))"

definition decimal_format :: "decimal \<Rightarrow> string" where
  "decimal_format d =
     (let digits = nat_to_string (nat \<bar>unscaled d\<bar>);
          sc = scale d;
          digits =
            (if sc > 0 then
               let digits = (if length digits \<le> sc
                             then replicate (sc + 1 - length digits) CHR ''0'' @ digits else digits)
               in take (length digits - sc) digits @ CHR ''.'' # drop (length digits - sc) digits
             else digits)
      in if unscaled d < 0 then CHR ''-'' # digits else digits)"

definition decimal_from_i64 :: "int \<Rightarrow> decimal" where
  "decimal_from_i64 v = decimal_new v 0"

section \<open>Addition, subtraction, negation, multiplication\<close>

definition align :: "decimal \<Rightarrow> decimal \<Rightarrow> numeric_error + (int \<times> int \<times> nat)" where
  "align a b =
     and_then (admitted a) (\<lambda>_. and_then (admitted b) (\<lambda>_.
       let sc = max (scale a) (scale b);
           rescale = (\<lambda>v. ok_or (i128_try (unscaled v * 10 ^ (sc - scale v))) Overflow)
       in and_then (rescale a) (\<lambda>x. and_then (rescale b) (\<lambda>y. Inr (x, y, sc)))))"

definition decimal_add :: "decimal \<Rightarrow> decimal \<Rightarrow> numeric_error + decimal" where
  "decimal_add a b =
     and_then (align a b) (\<lambda>(x, y, sc).
       and_then (ok_or (i128_try (x + y)) Overflow) (\<lambda>v. Inr (decimal_new v sc)))"

definition decimal_sub :: "decimal \<Rightarrow> decimal \<Rightarrow> numeric_error + decimal" where
  "decimal_sub a b =
     and_then (align a b) (\<lambda>(x, y, sc).
       and_then (ok_or (i128_try (x - y)) Overflow) (\<lambda>v. Inr (decimal_new v sc)))"

definition decimal_neg :: "decimal \<Rightarrow> numeric_error + decimal" where
  "decimal_neg d =
     and_then (admitted d) (\<lambda>_.
       and_then (ok_or (i128_try (- unscaled d)) Overflow) (\<lambda>v. Inr (decimal_new v (scale d))))"

definition decimal_mul :: "decimal \<Rightarrow> decimal \<Rightarrow> numeric_error + decimal" where
  "decimal_mul a b =
     and_then (admitted a) (\<lambda>_. and_then (admitted b) (\<lambda>_.
       and_then (ok_or (i128_try (unscaled a * unscaled b)) Overflow)
         (\<lambda>v. admitted (decimal_new v (scale a + scale b)))))"

section \<open>Division\<close>

fun gcd_loop :: "nat \<Rightarrow> nat \<Rightarrow> nat" where
  "gcd_loop a b = (if b \<noteq> 0 then gcd_loop b (a mod b) else a)"

declare gcd_loop.simps [simp del]

definition ratio :: "decimal \<Rightarrow> decimal \<Rightarrow> nat \<Rightarrow> numeric_error + (nat \<times> nat \<times> bool)" where
  "ratio a b output_scale =
     and_then (admitted a) (\<lambda>_. and_then (admitted b) (\<lambda>_.
       if unscaled b = 0 then Inl DivisionByZero
       else
         let numerator = nat \<bar>unscaled a\<bar>; denominator = nat \<bar>unscaled b\<bar>;
             common = gcd_loop numerator denominator;
             numerator = numerator div common;
             denominator = denominator div common;
             exponent = int (scale b) + int output_scale - int (scale a);
             factor = 10 ^ nat \<bar>exponent\<bar>;
             negative = ((unscaled a < 0) \<noteq> (unscaled b < 0))
         in if exponent \<ge> 0 then
              let common = gcd_loop factor denominator;
                  denominator = denominator div common
              in and_then (ok_or (u128_try (numerator * (factor div common))) Overflow)
                   (\<lambda>numerator. Inr (numerator, denominator, negative))
            else
              let common = gcd_loop factor numerator;
                  numerator = numerator div common
              in and_then (ok_or (u128_try (denominator * (factor div common))) Overflow)
                   (\<lambda>denominator. Inr (numerator, denominator, negative))))"

text \<open>
  The digit loop of \<open>decimal_div_exact\<close>. The source leaves it at \<open>scale == 18\<close>; the scale
  starts at 0 and grows by one, so testing \<open>sc \<ge> 18\<close> is the same and bounds the recursion.
\<close>

function div_exact_loop :: "nat \<Rightarrow> nat \<Rightarrow> nat \<Rightarrow> nat \<Rightarrow> numeric_error + (nat \<times> nat)" where
  "div_exact_loop denominator coefficient remainder sc =
     (if remainder \<noteq> 0 then
        if sc \<ge> MAX_DECIMAL_SCALE then Inl InexactDivision
        else and_then (ok_or (u128_try (remainder * 10)) Overflow)
               (\<lambda>remainder. and_then
                  (ok_or (Option.bind (u128_try (coefficient * 10))
                            (\<lambda>v. u128_try (v + remainder div denominator))) Overflow)
                  (\<lambda>coefficient. div_exact_loop denominator coefficient (remainder mod denominator) (sc + 1)))
      else Inr (coefficient, sc))"
  by pat_completeness auto
termination
  by (relation "measure (\<lambda>(d, c, r, sc). MAX_DECIMAL_SCALE - sc)") auto

declare div_exact_loop.simps [simp del]

definition decimal_div_exact :: "decimal \<Rightarrow> decimal \<Rightarrow> numeric_error + decimal" where
  "decimal_div_exact a b =
     and_then (ratio a b 0) (\<lambda>(numerator, denominator, negative).
       and_then (div_exact_loop denominator (numerator div denominator) (numerator mod denominator) 0)
         (\<lambda>(coefficient, sc). and_then (signed_of coefficient negative)
            (\<lambda>v. Inr (decimal_new v sc))))"

definition decimal_div_round ::
  "decimal \<Rightarrow> decimal \<Rightarrow> nat \<Rightarrow> string \<Rightarrow> numeric_error + decimal" where
  "decimal_div_round a b sc mode =
     (if sc > MAX_DECIMAL_SCALE then Inl ScaleOutOfRange
      else if mode \<notin> set [''floor'', ''ceil'', ''half_even'', ''trunc''] then Inl InvalidRoundingMode
      else and_then (ratio a b sc) (\<lambda>(numerator, denominator, negative).
        let coefficient = numerator div denominator;
            remainder = numerator mod denominator;
            increment = (remainder \<noteq> 0 \<and>
              (if mode = ''floor'' then negative
               else if mode = ''ceil'' then \<not> negative
               else if mode = ''half_even'' then
                 remainder > denominator - remainder \<or>
                 (remainder = denominator - remainder \<and> coefficient mod 2 = 1)
               else False))
        in and_then (if increment then ok_or (u128_try (coefficient + 1)) Overflow else Inr coefficient)
             (\<lambda>coefficient. and_then (signed_of coefficient negative)
                (\<lambda>v. Inr (decimal_new v sc)))))"

section \<open>The rational a decimal denotes\<close>

definition dval :: "decimal \<Rightarrow> rat" where
  "dval d = of_int (unscaled d) / 10 ^ scale d"

lemma dval_new: "dval (decimal_new u s) = of_int u / 10 ^ s"
proof -
  have v: "scale (decimal_new u s) \<le> s" "u = unscaled (decimal_new u s) * 10 ^ (s - scale (decimal_new u s))"
    using decimal_new_value[of u s] by blast+
  let ?u = "unscaled (decimal_new u s)" and ?s = "scale (decimal_new u s)"
  have "(of_int u :: rat) / 10 ^ s = of_int (?u * 10 ^ (s - ?s)) / 10 ^ (?s + (s - ?s))"
    using v by simp
  also have "\<dots> = of_int ?u / 10 ^ ?s"
    by (simp add: power_add)
  finally show ?thesis by (simp add: dval_def)
qed

lemma admitted_Inr: "admitted d = Inr e \<longleftrightarrow> e = d \<and> scale d \<le> 18"
  by (auto simp: admitted_def MAX_DECIMAL_SCALE_def)

lemma align_Inr:
  assumes "align a b = Inr (x, y, sc)"
  shows "of_int x / 10 ^ sc = dval a \<and> of_int y / 10 ^ sc = dval b \<and> sc \<le> 18 \<and> i128_range x \<and> i128_range y"
proof -
  have c: "scale a \<le> 18" "scale b \<le> 18" "sc = max (scale a) (scale b)"
    "x = unscaled a * 10 ^ (sc - scale a)" "y = unscaled b * 10 ^ (sc - scale b)"
    "i128_range x" "i128_range y"
    using assms by (auto simp: align_def and_then_Inr admitted_Inr Let_def)
  have v: "(of_int (unscaled d * 10 ^ (sc - scale d)) :: rat) / 10 ^ sc = dval d" if "scale d \<le> sc" for d
  proof -
    have "(10::rat) ^ sc = 10 ^ scale d * 10 ^ (sc - scale d)"
      using that by (simp add: power_add[symmetric])
    then show ?thesis by (simp add: dval_def)
  qed
  have "of_int x / 10 ^ sc = dval a" "of_int y / 10 ^ sc = dval b"
    using v[of a] v[of b] c(3-5) by simp_all
  then show ?thesis using c by simp
qed

lemma decimal_add_val: "decimal_add a b = Inr r \<Longrightarrow> dval r = dval a + dval b"
  by (auto simp: decimal_add_def and_then_Inr dval_new add_divide_distrib dest!: align_Inr)

lemma decimal_sub_val: "decimal_sub a b = Inr r \<Longrightarrow> dval r = dval a - dval b"
  by (auto simp: decimal_sub_def and_then_Inr dval_new diff_divide_distrib dest!: align_Inr)

lemma decimal_neg_val: "decimal_neg a = Inr r \<Longrightarrow> dval r = - dval a"
  by (auto simp: decimal_neg_def and_then_Inr dval_new dval_def[of a])

lemma decimal_mul_val: "decimal_mul a b = Inr r \<Longrightarrow> dval r = dval a * dval b"
  by (auto simp: decimal_mul_def and_then_Inr admitted_Inr dval_new dval_def[of a] dval_def[of b] power_add)

lemma new_wf: "i128_range u \<Longrightarrow> s < 256 \<Longrightarrow> decimal_wf (decimal_new u s)"
  by (simp add: decimal_wf_def decimal_new_normal decimal_new_range)

lemma new_scale: "scale (decimal_new u s) \<le> s"
  using decimal_new_value by blast

lemma decimal_ops_wf:
  "decimal_add a b = Inr r \<Longrightarrow> decimal_wf r \<and> scale r \<le> 18"
  "decimal_sub a b = Inr r \<Longrightarrow> decimal_wf r \<and> scale r \<le> 18"
  "decimal_neg a = Inr r \<Longrightarrow> decimal_wf r \<and> scale r \<le> 18"
  "decimal_mul a b = Inr r \<Longrightarrow> decimal_wf r \<and> scale r \<le> 18"
  using new_scale order_trans
  by (auto simp: decimal_add_def decimal_sub_def decimal_neg_def decimal_mul_def and_then_Inr admitted_Inr
      intro!: new_wf dest!: align_Inr intro: order_trans[OF new_scale])

section \<open>Division against exact rational arithmetic\<close>

lemma gcd_loop_eq: "gcd_loop a b = gcd a b"
proof (induction a b rule: gcd_loop.induct)
  case (1 a b)
  then show ?case by (cases "b = 0") (simp_all add: gcd_loop.simps[of a b] gcd_loop.simps[of a 0] gcd_red_nat[of a b])
qed

text \<open>The unsigned quotient the two division routines work on.\<close>

definition uquot :: "decimal \<Rightarrow> decimal \<Rightarrow> nat \<Rightarrow> rat" where
  "uquot a b s = \<bar>dval a / dval b\<bar> * 10 ^ s"

lemma uquot_eq:
  assumes "unscaled b \<noteq> 0"
  shows "uquot a b s = of_nat (nat \<bar>unscaled a\<bar> * 10 ^ (scale b + s)) / of_nat (nat \<bar>unscaled b\<bar> * 10 ^ scale a)"
proof -
  have "(of_nat (nat \<bar>u\<bar>) :: rat) = \<bar>of_int u\<bar>" for u :: int by simp
  moreover have "\<bar>dval a / dval b\<bar> = (\<bar>of_int (unscaled a)\<bar> / 10 ^ scale a) / (\<bar>of_int (unscaled b)\<bar> / 10 ^ scale b)"
    by (simp only: dval_def abs_divide power_abs abs_numeral)
  ultimately show ?thesis
    by (simp only: uquot_def of_nat_mult of_nat_power of_nat_numeral power_add divide_divide_eq_left
        divide_divide_eq_right times_divide_eq_left times_divide_eq_right mult_ac)
qed

lemma reduce_frac:
  fixes n d c :: nat
  assumes "c dvd n" "c dvd d" "d \<noteq> 0"
  shows "(of_nat (n div c) :: rat) / of_nat (d div c) = of_nat n / of_nat d" and "d div c \<noteq> 0"
proof -
  obtain n' d' where e: "n = c * n'" "d = c * d'" using assms by (auto elim!: dvdE)
  then have "c \<noteq> 0" "d' \<noteq> 0" using assms(3) by auto
  then show "(of_nat (n div c) :: rat) / of_nat (d div c) = of_nat n / of_nat d" and "d div c \<noteq> 0"
    by (simp_all add: e)
qed

lemma cancel_frac:
  fixes g :: nat
  assumes "n = g * n'" "f = g * f'" "g \<noteq> 0"
  shows "(of_nat n' :: rat) / of_nat (d * f') = of_nat n / of_nat d / of_nat f"
  using assms(3) by (simp add: assms(1,2))

lemma ratio_Inr:
  assumes "ratio a b s = Inr (n, d, neg)"
  shows "d \<noteq> 0 \<and> of_nat n / of_nat d = uquot a b s \<and> (neg \<longleftrightarrow> (unscaled a < 0) \<noteq> (unscaled b < 0))
    \<and> unscaled b \<noteq> 0 \<and> scale a \<le> 18 \<and> scale b \<le> 18"
proof -
  define n0 d0 where nd: "n0 = nat \<bar>unscaled a\<bar>" "d0 = nat \<bar>unscaled b\<bar>"
  define c where "c = gcd n0 d0"
  define e where "e = int (scale b) + int s - int (scale a)"
  define f where "f = (10::nat) ^ nat \<bar>e\<bar>"
  have b0: "unscaled b \<noteq> 0" and adm: "scale a \<le> 18" "scale b \<le> 18"
    using assms by (auto simp: ratio_def and_then_Inr admitted_Inr split: if_splits)
  have d0: "d0 \<noteq> 0" using b0 by (simp add: nd)
  have r1: "(of_nat (n0 div c) :: rat) / of_nat (d0 div c) = of_nat n0 / of_nat d0" "d0 div c \<noteq> 0"
    using reduce_frac[of c n0 d0] d0 by (simp_all add: c_def)
  have u: "uquot a b s = of_nat (n0 * 10 ^ (scale b + s)) / of_nat (d0 * 10 ^ scale a)"
    unfolding nd by (rule uquot_eq[OF b0])
  have res: "neg \<longleftrightarrow> (unscaled a < 0) \<noteq> (unscaled b < 0)"
    "e \<ge> 0 \<Longrightarrow> n = (n0 div c) * (f div gcd f (d0 div c)) \<and> d = d0 div c div gcd f (d0 div c)"
    "e < 0 \<Longrightarrow> n = n0 div c div gcd f (n0 div c) \<and> d = (d0 div c) * (f div gcd f (n0 div c))"
    using assms b0 unfolding ratio_def Let_def gcd_loop_eq nd[symmetric] c_def[symmetric]
    by (auto simp: and_then_Inr admitted_Inr f_def e_def[symmetric] split: if_splits)
  have f0: "f \<noteq> 0" by (simp add: f_def)
  have "d \<noteq> 0 \<and> (of_nat n :: rat) / of_nat d = uquot a b s"
  proof (cases "e \<ge> 0")
    case True
    let ?g = "gcd f (d0 div c)"
    have r2: "(of_nat (f div ?g) :: rat) / of_nat (d0 div c div ?g) = of_nat f / of_nat (d0 div c)"
      "d0 div c div ?g \<noteq> 0"
      using reduce_frac[of ?g f "d0 div c"] r1(2) by simp_all
    have nd': "n = (n0 div c) * (f div ?g)" "d = d0 div c div ?g" using res(2)[OF True] by blast+
    have "(of_nat n :: rat) / of_nat d = of_nat (n0 div c) * (of_nat (f div ?g) / of_nat (d0 div c div ?g))"
      by (simp add: nd')
    also have "\<dots> = of_nat (n0 div c) / of_nat (d0 div c) * of_nat f" by (simp add: r2)
    also have "\<dots> = of_nat n0 / of_nat d0 * of_nat f" by (simp add: r1)
    also have "10 ^ (scale b + s) = 10 ^ scale a * f"
      using True by (simp add: f_def e_def power_add[symmetric])
    then have "of_nat n0 / of_nat d0 * of_nat f = uquot a b s"
      using d0 by (simp add: u)
    finally show ?thesis using r2 nd' by simp
  next
    case False
    let ?g = "gcd f (n0 div c)"
    obtain f' n' where e': "f = ?g * f'" "n0 div c = ?g * n'" by (meson gcd_dvd1 gcd_dvd2 dvdE)
    have g0: "?g \<noteq> 0" "f' \<noteq> 0" using f0 e'(1) by (metis mult_zero_left, metis mult_zero_right)
    have nd': "n = n'" "d = (d0 div c) * f'"
      using res(3) False e' g0 by (metis nonzero_mult_div_cancel_left not_le)+
    have "(of_nat n :: rat) / of_nat d = of_nat (n0 div c) / of_nat (d0 div c) / of_nat f"
      unfolding nd' by (rule cancel_frac[OF e'(2) e'(1) g0(1)])
    also have "\<dots> = of_nat n0 / of_nat d0 / of_nat f" by (simp add: r1)
    also have "10 ^ scale a = 10 ^ (scale b + s) * f"
      using False by (simp add: f_def e_def power_add[symmetric])
    then have "of_nat n0 / of_nat d0 / of_nat f = uquot a b s"
      using d0 f0 by (simp add: u)
    finally show ?thesis using r1(2) g0 nd' by simp
  qed
  then show ?thesis using res(1) b0 adm by blast
qed

lemma signed_of_Inr:
  assumes "signed_of m neg = Inr v"
  shows "v = (if neg then - int m else int m) \<and> i128_range v"
  using assms by (auto simp: signed_of_def and_then_Inr i128_range_def split: if_splits)

lemma quot_sign:
  assumes "unscaled b \<noteq> 0" "neg \<longleftrightarrow> (unscaled a < 0) \<noteq> (unscaled b < 0)"
  shows "dval a / dval b * 10 ^ s = (if neg then - uquot a b s else uquot a b s)"
proof -
  have "dval b \<noteq> 0" "(dval a < 0) = (unscaled a < 0)" "(dval b < 0) = (unscaled b < 0)"
    using assms(1) by (simp_all add: dval_def divide_less_0_iff)
  moreover have "\<bar>dval a / dval b\<bar> = (if (dval a < 0) \<noteq> (dval b < 0) then - (dval a / dval b) else dval a / dval b)"
    by (auto simp: abs_if divide_less_0_iff)
  ultimately show ?thesis using assms(2) by (auto simp: uquot_def)
qed

lemma div_exact_loop_Inr:
  assumes "div_exact_loop d c r sc = Inr (c', sc')" "d \<noteq> 0" "n * 10 ^ sc = c * d + r" "sc \<le> 18"
  shows "n * 10 ^ sc' = c' * d \<and> sc' \<le> 18"
  using assms
proof (induction d c r sc rule: div_exact_loop.induct)
  case (1 d c r sc)
  show ?case
  proof (cases "r = 0")
    case True
    then show ?thesis using "1.prems" by (simp add: div_exact_loop.simps[of d c 0 sc])
  next
    case False
    have step: "sc < 18" "div_exact_loop d (c * 10 + r * 10 div d) (r * 10 mod d) (sc + 1) = Inr (c', sc')"
      "u128_try (r * 10) = Some (r * 10)"
      "Option.bind (u128_try (c * 10)) (\<lambda>v. u128_try (v + r * 10 div d)) = Some (c * 10 + r * 10 div d)"
      using "1.prems"(1) False
      by (auto simp: div_exact_loop.simps[of d c r sc] MAX_DECIMAL_SCALE_def and_then_Inr split: if_splits bind_splits)
    have "n * 10 ^ (sc + 1) = (c * 10 + r * 10 div d) * d + r * 10 mod d"
      using "1.prems"(3) by (simp add: algebra_simps)
    then show ?thesis
      using "1.IH"[OF False, of "r * 10" "c * 10 + r * 10 div d"] step "1.prems"(2)
      by (simp add: MAX_DECIMAL_SCALE_def)
  qed
qed

lemma div_exact_loop_inexact:
  assumes "div_exact_loop d c r sc = Inl InexactDivision" "d \<noteq> 0" "n * 10 ^ sc = c * d + r" "r < d" "sc \<le> 18"
  shows "\<not> d dvd n * 10 ^ 18"
  using assms
proof (induction d c r sc rule: div_exact_loop.induct)
  case (1 d c r sc)
  have r0: "r \<noteq> 0" using "1.prems"(1) by (cases "r = 0") (simp_all add: div_exact_loop.simps[of d c 0 sc])
  show ?case
  proof (cases "sc = 18")
    case True
    have "\<not> d dvd c * d + r" using r0 "1.prems"(4) by (simp add: nat_dvd_not_less)
    then show ?thesis using "1.prems"(3) True by simp
  next
    case False
    then have sc: "sc < 18" using "1.prems"(5) by simp
    have step: "div_exact_loop d (c * 10 + r * 10 div d) (r * 10 mod d) (sc + 1) = Inl InexactDivision"
      "u128_try (r * 10) = Some (r * 10)"
      "Option.bind (u128_try (c * 10)) (\<lambda>v. u128_try (v + r * 10 div d)) = Some (c * 10 + r * 10 div d)"
      using "1.prems"(1) r0 sc
      by (auto simp: div_exact_loop.simps[of d c r sc] MAX_DECIMAL_SCALE_def and_then_def ok_or_def
          split: if_splits bind_splits sum.splits option.splits)
    have "n * 10 ^ (sc + 1) = (c * 10 + r * 10 div d) * d + r * 10 mod d"
      using "1.prems"(3) by (simp add: algebra_simps)
    then show ?thesis
      using "1.IH"[OF r0, of "r * 10" "c * 10 + r * 10 div d"] step "1.prems"(2) sc
      by (simp add: MAX_DECIMAL_SCALE_def)
  qed
qed

text \<open>The value of a signed coefficient at a scale, against the quotient.\<close>

lemma dval_signed:
  assumes "signed_of m neg = Inr v" "neg \<longleftrightarrow> (unscaled a < 0) \<noteq> (unscaled b < 0)" "unscaled b \<noteq> 0"
    "of_nat m = uquot a b s"
  shows "dval (decimal_new v s) = dval a / dval b"
proof -
  have v: "(of_int v :: rat) = (if neg then - of_nat m else of_nat m)"
    using signed_of_Inr[OF assms(1)] by simp
  have "(of_int v :: rat) = dval a / dval b * 10 ^ s"
    unfolding v quot_sign[OF assms(3,2)] assms(4) by simp
  then show ?thesis by (simp add: dval_new)
qed

lemma uquot_0: "uquot a b s = uquot a b 0 * 10 ^ s"
  by (simp add: uquot_def)

text \<open>
  A successful exact division is exact, well formed and in the admitted scale range, and the
  refusal \<open>InexactDivision\<close> is justified: no decimal of an admitted scale is the quotient.
\<close>

lemma div_exact_value:
  assumes "decimal_div_exact a b = Inr r"
  shows "dval r * dval b = dval a \<and> decimal_wf r \<and> scale r \<le> 18"
proof -
  obtain n d neg c sc v where rt: "ratio a b 0 = Inr (n, d, neg)"
    and lp: "div_exact_loop d (n div d) (n mod d) 0 = Inr (c, sc)"
    and sg: "signed_of c neg = Inr v" and r: "r = decimal_new v sc"
    using assms by (auto simp: decimal_div_exact_def and_then_Inr split: prod.splits)
  note rt' = ratio_Inr[OF rt]
  have inv: "n * 10 ^ sc = c * d" "sc \<le> 18"
    using div_exact_loop_Inr[OF lp, of n] rt' by simp_all
  have "(of_nat c :: rat) * of_nat d = of_nat n * 10 ^ sc"
    by (metis inv(1) of_nat_mult of_nat_numeral of_nat_power)
  moreover have "(of_nat d :: rat) \<noteq> 0" using rt' by simp
  ultimately have "(of_nat c :: rat) = of_nat n * 10 ^ sc / of_nat d"
    by (simp only: nonzero_eq_divide_eq not_False_eq_True)
  then have q: "(of_nat c :: rat) = uquot a b sc"
    using rt' uquot_0[of a b sc] by (metis times_divide_eq_left)
  have "dval r = dval a / dval b"
    unfolding r using dval_signed[OF sg _ _ q] rt' by blast
  moreover have "dval b \<noteq> 0" using rt' by (simp add: dval_def)
  ultimately show ?thesis
    using signed_of_Inr[OF sg] inv(2) new_wf[of v sc] new_scale[of v sc] r by auto
qed

lemma dval_at_scale:
  assumes "scale r \<le> e"
  shows "(of_nat (nat \<bar>unscaled r\<bar> * 10 ^ (e - scale r)) :: rat) = \<bar>dval r\<bar> * 10 ^ e"
proof -
  have "(10::rat) ^ e = 10 ^ scale r * 10 ^ (e - scale r)"
    using assms by (simp add: power_add[symmetric])
  then show ?thesis by (simp add: dval_def)
qed

lemma ratio_not_inexact: "ratio a b s \<noteq> Inl InexactDivision"
  by (simp add: ratio_def and_then_Inl admitted_def Let_def)

lemma signed_not_inexact: "signed_of m neg \<noteq> Inl InexactDivision"
  by (simp add: signed_of_def and_then_Inl)

lemma div_exact_refusal:
  assumes "decimal_div_exact a b = Inl InexactDivision" "scale r \<le> 18"
  shows "dval r * dval b \<noteq> dval a"
proof
  assume eq: "dval r * dval b = dval a"
  obtain n d neg where rt: "ratio a b 0 = Inr (n, d, neg)"
    and lp: "div_exact_loop d (n div d) (n mod d) 0 = Inl InexactDivision"
    using assms(1)
    by (auto simp: decimal_div_exact_def and_then_Inl ratio_not_inexact signed_not_inexact)
  note rt' = ratio_Inr[OF rt]
  have b0: "dval b \<noteq> 0" using rt' by (simp add: dval_def)
  have nd: "\<not> d dvd n * 10 ^ 18"
    using div_exact_loop_inexact[OF lp, of n] rt' by simp
  define m where "m = nat \<bar>unscaled r\<bar> * 10 ^ (18 - scale r)"
  have "(of_nat m :: rat) = \<bar>dval r\<bar> * 10 ^ 18"
    unfolding m_def by (rule dval_at_scale[OF assms(2)])
  also have "dval r = dval a / dval b" using eq b0 by (simp add: nonzero_eq_divide_eq)
  also have "\<bar>dval a / dval b\<bar> = of_nat n / of_nat d" using rt' by (simp add: uquot_def)
  finally have "(of_nat m :: rat) = of_nat n / of_nat d * 10 ^ 18" .
  moreover have "(of_nat d :: rat) \<noteq> 0" using rt' by simp
  moreover have "x * y = z * w" if "x = z / y * w" "y \<noteq> 0" for x y z w :: rat using that by simp
  ultimately have "(of_nat (m * d) :: rat) = of_nat (n * 10 ^ 18)"
    by (simp only: of_nat_mult of_nat_power of_nat_numeral)
  then have "m * d = n * 10 ^ 18" by (simp only: of_nat_eq_iff)
  then show False using nd by (metis dvd_triv_right)
qed

text \<open>
  Rounding division. The fractional part \<open>t\<close> of the unsigned quotient decides the increment.
\<close>

definition rounds :: "string \<Rightarrow> rat \<Rightarrow> int \<Rightarrow> bool" where
  "rounds mode x k \<longleftrightarrow>
     (mode = ''floor'' \<longrightarrow> k = \<lfloor>x\<rfloor>) \<and>
     (mode = ''ceil'' \<longrightarrow> k = \<lceil>x\<rceil>) \<and>
     (mode = ''trunc'' \<longrightarrow> k = (if x \<ge> 0 then \<lfloor>x\<rfloor> else \<lceil>x\<rceil>)) \<and>
     (mode = ''half_even'' \<longrightarrow> \<bar>of_int k - x\<bar> \<le> 1 / 2 \<and> (\<bar>of_int k - x\<bar> = 1 / 2 \<longrightarrow> even k))"

lemma rounds_increment:
  fixes t :: rat and q :: nat
  assumes t: "0 \<le> t" "t < 1"
    and inc: "inc \<longleftrightarrow> t \<noteq> 0 \<and>
       (if mode = ''floor'' then neg else if mode = ''ceil'' then \<not> neg
        else if mode = ''half_even'' then t > 1 / 2 \<or> (t = 1 / 2 \<and> q mod 2 = 1) else False)"
    and m: "m = (if inc then q + 1 else q)"
  shows "rounds mode (if neg then - (of_nat q + t) else of_nat q + t) (if neg then - int m else int m)"
proof -
  define x where "x = of_nat q + t"
  have fl: "\<lfloor>x\<rfloor> = int q" unfolding x_def by (rule floor_unique) (use t in simp_all)
  have ce: "\<lceil>x\<rceil> = (if t = 0 then int q else int q + 1)"
    unfolding x_def by (rule ceiling_unique) (use t in auto)
  have nn: "x \<ge> 0" using t by (simp add: x_def)
  have z: "x = 0 \<Longrightarrow> q = 0" using t by (auto simp: x_def add_nonneg_eq_0_iff)
  have od: "q mod 2 = 1 \<longleftrightarrow> odd q" by (simp add: odd_iff_mod_2_eq_one)
  consider "mode = ''floor''" | "mode = ''ceil''" | "mode = ''trunc''" | "mode = ''half_even''"
    | "mode \<notin> {''floor'', ''ceil'', ''trunc'', ''half_even''}" by blast
  then show ?thesis
  proof cases
    case 1
    then show ?thesis unfolding x_def[symmetric] using inc m fl ce by (auto simp: rounds_def floor_minus)
  next
    case 2
    then show ?thesis unfolding x_def[symmetric] using inc m fl ce by (auto simp: rounds_def ceiling_minus)
  next
    case 3
    then have "m = q" using inc m by simp
    then show ?thesis unfolding x_def[symmetric] using 3 fl nn z by (cases "x = 0") (auto simp: rounds_def ceiling_minus)
  next
    case 4
    then have i: "inc \<longleftrightarrow> t > 1 / 2 \<or> (t = 1 / 2 \<and> odd q)" using inc od by auto
    have k: "\<bar>of_int (if neg then - int m else int m) - (if neg then - x else x)\<bar>
        = (if inc then 1 - t else t)"
      using t m by (auto simp: abs_if x_def)
    show ?thesis unfolding x_def[symmetric] rounds_def k using 4 i m t by auto
  next
    case 5
    then show ?thesis by (auto simp: rounds_def)
  qed
qed

lemma frac_part:
  fixes n d :: nat
  assumes "d \<noteq> 0"
  defines "t \<equiv> (of_nat (n mod d) :: rat) / of_nat d"
  shows "0 \<le> t" "t < 1" "t = 0 \<longleftrightarrow> n mod d = 0"
    "of_nat n / of_nat d = of_nat (n div d) + t"
    "n mod d > d - n mod d \<longleftrightarrow> t > 1 / 2" "n mod d = d - n mod d \<longleftrightarrow> t = 1 / 2"
proof -
  have d: "(of_nat d :: rat) > 0" using assms by simp
  have lt: "n mod d < d" using assms by simp
  show "0 \<le> t" by (simp add: t_def)
  show "t < 1" "t = 0 \<longleftrightarrow> n mod d = 0" using d lt by (simp_all add: t_def)
  have "(of_nat n :: rat) = of_nat (n div d) * of_nat d + of_nat (n mod d)"
    by (metis div_mult_mod_eq of_nat_add of_nat_mult)
  then show "of_nat n / of_nat d = of_nat (n div d) + t"
    using d by (simp add: t_def add_divide_distrib)
  have "t > 1 / 2 \<longleftrightarrow> (of_nat (2 * (n mod d)) :: rat) > of_nat d"
    using d by (simp add: t_def field_simps)
  then show "n mod d > d - n mod d \<longleftrightarrow> t > 1 / 2" using lt by (simp only: of_nat_less_iff) linarith
  have "t = 1 / 2 \<longleftrightarrow> (of_nat (2 * (n mod d)) :: rat) = of_nat d"
    using d by (auto simp: t_def field_simps)
  then show "n mod d = d - n mod d \<longleftrightarrow> t = 1 / 2" using lt by (simp only: of_nat_eq_iff) linarith
qed

lemma div_round_value:
  assumes "decimal_div_round a b sc mode = Inr r"
  shows "\<exists>k. dval r = of_int k / 10 ^ sc \<and> rounds mode (dval a / dval b * 10 ^ sc) k \<and> decimal_wf r \<and> scale r \<le> sc"
proof -
  have sc: "sc \<le> 18"
    by (rule ccontr) (use assms in \<open>simp add: decimal_div_round_def MAX_DECIMAL_SCALE_def\<close>)
  have md: "mode \<in> set [''floor'', ''ceil'', ''half_even'', ''trunc'']"
    by (rule ccontr) (use assms sc in \<open>simp add: decimal_div_round_def MAX_DECIMAL_SCALE_def\<close>)
  obtain n d neg where rt: "ratio a b sc = Inr (n, d, neg)"
  proof (cases "ratio a b sc")
    case (Inl e)
    then show thesis using assms sc md by (simp only: decimal_div_round_def) (simp split: if_split_asm)
  next
    case (Inr p)
    then show thesis using that by (cases p) auto
  qed
  define inc where "inc = (n mod d \<noteq> 0 \<and>
       (if mode = ''floor'' then neg else if mode = ''ceil'' then \<not> neg
        else if mode = ''half_even'' then n mod d > d - n mod d \<or> (n mod d = d - n mod d \<and> n div d mod 2 = 1)
        else False))"
  have "and_then (if inc then ok_or (u128_try (n div d + 1)) Overflow else Inr (n div d))
             (\<lambda>coefficient. and_then (signed_of coefficient neg) (\<lambda>v. Inr (decimal_new v sc))) = Inr r"
    using assms sc md unfolding decimal_div_round_def rt and_then_simps Let_def prod.case inc_def MAX_DECIMAL_SCALE_def
    by (simp only: not_less[symmetric] if_False simp_thms)
  then obtain m v where m: "m = (if inc then n div d + 1 else n div d)"
    and sg: "signed_of m neg = Inr v" and r: "r = decimal_new v sc"
    by (cases inc) (auto simp: and_then_Inr)
  note rt' = ratio_Inr[OF rt]
  define t where "t = (of_nat (n mod d) :: rat) / of_nat d"
  have d0: "d \<noteq> 0" using rt' by blast
  note t = frac_part[OF d0, of n, folded t_def]
  have u: "uquot a b sc = of_nat (n div d) + t" using rt' t(4) by simp
  have x: "dval a / dval b * 10 ^ sc = (if neg then - (of_nat (n div d) + t) else of_nat (n div d) + t)"
    using quot_sign[of b neg a sc] rt' u by simp
  have k: "v = (if neg then - int m else int m)" "i128_range v" using signed_of_Inr[OF sg] by blast+
  have "rounds mode (dval a / dval b * 10 ^ sc) v"
    unfolding x k(1) by (rule rounds_increment[OF t(1,2) inc_def[unfolded t(3)[symmetric] t(5,6)] m])
  then show ?thesis
    using k(2) sc r new_wf[of v sc] new_scale[of v sc] dval_new[of v sc] by auto
qed

section \<open>Round trip of the text form\<close>

lemma digit_char: "g < 10 \<Longrightarrow> of_char (char_of (48 + g) :: char) = (48 + g :: nat)"
  by simp

definition dig_chars :: "nat list \<Rightarrow> string" where
  "dig_chars gs = map (\<lambda>g. char_of (48 + g)) gs"

lemma dig_chars_simps [simp]:
  "dig_chars [] = []" "dig_chars (g # gs) = char_of (48 + g) # dig_chars gs"
  "dig_chars (gs @ hs) = dig_chars gs @ dig_chars hs" "length (dig_chars gs) = length gs"
  by (simp_all add: dig_chars_def)

lemma dig_chars_ascii: "is_digits gs \<Longrightarrow> list_all is_ascii_digit (dig_chars gs)"
  by (induction gs) (simp_all add: is_ascii_digit_def)

lemma zero_char: "CHR ''0'' = char_of (48 :: nat)"
  by code_simp

lemma dig_chars_replicate: "replicate n CHR ''0'' = dig_chars (replicate n 0)"
  by (induction n) (simp_all add: zero_char)

lemma parse_magnitude_digits:
  assumes "is_digits gs" "u128_range (foldl (\<lambda>v g. v * 10 + g) m gs)"
  shows "parse_magnitude m (dig_chars gs) = Some (foldl (\<lambda>v g. v * 10 + g) m gs)"
  using assms
proof (induction gs arbitrary: m)
  case (Cons g gs)
  have le: "m' \<le> foldl (\<lambda>v g. v * 10 + g) m' gs" for m' :: nat
  proof (induction gs arbitrary: m')
    case (Cons h hs)
    show ?case using Cons[of "m' * 10 + h"] by simp
  qed simp
  have "u128_range (m * 10)" "u128_range (m * 10 + g)"
    using Cons.prems(2) le[of "m * 10 + g"] by (auto simp: u128_range_def)
  then show ?case using Cons by (simp add: u128_try_def)
qed simp

lemma is_ascii_digit_not: "is_ascii_digit c \<Longrightarrow> c \<noteq> CHR ''.'' \<and> c \<noteq> CHR ''-'' \<and> c \<noteq> CHR ''+''"
  by (auto simp: is_ascii_digit_def)

lemma split_once_dot_digits:
  assumes "list_all is_ascii_digit xs"
  shows "split_once_dot xs = None" "split_once_dot (xs @ CHR ''.'' # ys) = Some (xs, ys)"
  using assms by (induction xs) (simp_all add: is_ascii_digit_not)

lemma trim_end_zeros_last:
  assumes "gs \<noteq> []" "last gs \<noteq> 0" "is_digits gs"
  shows "trim_end_zeros (dig_chars gs) = dig_chars gs"
proof -
  obtain hs g where gs: "gs = hs @ [g]" using assms(1) by (metis append_butlast_last_id)
  have "of_char (char_of (48 + g) :: char) \<noteq> (of_char CHR ''0'' :: nat)"
    using assms gs digit_char[of g] by simp
  then have "char_of (48 + g) \<noteq> CHR ''0''" by metis
  then show ?thesis by (simp add: gs trim_end_zeros_def)
qed

text \<open>The padded digits of the text form.\<close>

definition fmt_digits :: "decimal \<Rightarrow> nat list" where
  "fmt_digits d =
     (let m = nat \<bar>unscaled d\<bar>; gs = (if m = 0 then [0] else digits_of m)
      in replicate (scale d + 1 - length gs) 0 @ gs)"

lemma fmt_digits_props:
  "digit_val (fmt_digits d) = nat \<bar>unscaled d\<bar>" "is_digits (fmt_digits d)" "scale d < length (fmt_digits d)"
  using is_digits_of[of "nat \<bar>unscaled d\<bar>"]
  by (auto simp: fmt_digits_def Let_def digit_val_append digit_val_Cons)

lemma decimal_format_eq:
  "decimal_format d =
     (if unscaled d < 0 then ''-'' else []) @ dig_chars (take (length (fmt_digits d) - scale d) (fmt_digits d))
       @ (if scale d > 0 then CHR ''.'' # dig_chars (drop (length (fmt_digits d) - scale d) (fmt_digits d)) else [])"
proof -
  define gs where "gs = (if unscaled d = 0 then [0] else digits_of (nat \<bar>unscaled d\<bar>))"
  have ne: "gs \<noteq> []" using digits_of_ne[of "nat \<bar>unscaled d\<bar>"] by (simp add: gs_def)
  have st: "nat_to_string (nat \<bar>unscaled d\<bar>) = dig_chars gs"
    by (simp add: nat_to_string_def gs_def zero_char dig_chars_def)
  have fm: "fmt_digits d = replicate (scale d + 1 - length gs) 0 @ gs"
    by (simp add: fmt_digits_def gs_def Let_def)
  have pad: "(if length (dig_chars gs) \<le> scale d
       then replicate (scale d + 1 - length (dig_chars gs)) CHR ''0'' @ dig_chars gs else dig_chars gs)
     = dig_chars (fmt_digits d)"
    by (simp add: fm dig_chars_replicate)
  have z: "fmt_digits d = gs" if "scale d = 0"
    using that ne by (cases gs) (simp_all add: fm)
  show ?thesis
    unfolding decimal_format_def st Let_def pad
    by (auto simp: z dig_chars_def take_map drop_map)
qed

lemma fmt_digits_last:
  assumes "decimal_normal d" "scale d > 0"
  shows "last (fmt_digits d) \<noteq> 0"
proof -
  let ?gs = "fmt_digits d"
  have ne: "?gs \<noteq> []" using fmt_digits_props(3)[of d] by auto
  have "nat \<bar>unscaled d\<bar> = digit_val (butlast ?gs @ [last ?gs])"
    using ne fmt_digits_props(1)[of d] by simp
  also have "\<dots> = digit_val (butlast ?gs) * 10 + last ?gs"
    by (simp only: digit_val_append digit_val_Cons) simp
  finally have "last ?gs = 0 \<Longrightarrow> 10 dvd nat \<bar>unscaled d\<bar>" by simp
  moreover have "10 dvd nat \<bar>unscaled d\<bar> \<longleftrightarrow> 10 dvd unscaled d"
    by (metis abs_ge_zero dvd_abs_iff int_dvd_int_iff int_nat_eq of_nat_numeral)
  ultimately show ?thesis using assms by (auto simp: decimal_normal_def dvd_eq_mod_eq_0)
qed

lemma signed_of_self: "i128_range u \<Longrightarrow> signed_of (nat \<bar>u\<bar>) (u < 0) = Inr u"
  by (auto simp: signed_of_def i128_try_def i128_range_def)

lemma parse_unsigned:
  assumes "decimal_wf d" "scale d \<le> 18"
  defines "gs \<equiv> fmt_digits d"
  defines "ip \<equiv> dig_chars (take (length gs - scale d) gs)" and "fp \<equiv> dig_chars (drop (length gs - scale d) gs)"
  shows "list_all is_ascii_digit ip" "ip \<noteq> []" "list_all is_ascii_digit fp"
    "scale d > 0 \<Longrightarrow> fp \<noteq> []" "scale d = 0 \<Longrightarrow> fp = []" "trim_end_zeros fp = fp" "length fp = scale d"
    "parse_magnitude 0 (ip @ fp) = Some (nat \<bar>unscaled d\<bar>)"
proof -
  note p = fmt_digits_props[of d, folded gs_def]
  show "list_all is_ascii_digit ip" "list_all is_ascii_digit fp"
    using p(2) unfolding ip_def fp_def by (auto intro!: dig_chars_ascii dest: in_set_takeD in_set_dropD)
  show "ip \<noteq> []" "length fp = scale d" using p(3) by (auto simp: ip_def fp_def dig_chars_def)
  then show fp: "scale d > 0 \<Longrightarrow> fp \<noteq> []" "scale d = 0 \<Longrightarrow> fp = []" by auto
  have ls: "scale d > 0 \<Longrightarrow> last (drop (length gs - scale d) gs) \<noteq> 0"
    using fmt_digits_last[of d] assms(1) p(3) by (simp add: decimal_wf_def gs_def last_drop)
  show "trim_end_zeros fp = fp"
  proof (cases "scale d > 0")
    case True
    then show ?thesis unfolding fp_def
      using ls p(2,3) by (intro trim_end_zeros_last) (auto dest: in_set_dropD)
  next
    case False
    then show ?thesis using fp by (simp add: trim_end_zeros_def)
  qed
  have "u128_range (nat \<bar>unscaled d\<bar>)"
    using assms(1) by (auto simp: decimal_wf_def decimal_range_def i128_range_def u128_range_def)
  then have "parse_magnitude 0 (dig_chars gs) = Some (nat \<bar>unscaled d\<bar>)"
    using parse_magnitude_digits[of gs 0] p(1,2) by (simp add: digit_val_def)
  then show "parse_magnitude 0 (ip @ fp) = Some (nat \<bar>unscaled d\<bar>)"
    by (simp add: ip_def fp_def dig_chars_simps(3)[symmetric] del: dig_chars_simps(3))
qed

lemma parse_format:
  assumes "decimal_wf d" "scale d \<le> 18"
  shows "decimal_parse (decimal_format d) = Inr d"
proof -
  define ip fp where "ip = dig_chars (take (length (fmt_digits d) - scale d) (fmt_digits d))"
    and "fp = dig_chars (drop (length (fmt_digits d) - scale d) (fmt_digits d))"
  note p = parse_unsigned[OF assms, folded ip_def fp_def]
  define un where "un = ip @ (if scale d > 0 then CHR ''.'' # fp else [])"
  have fmt: "decimal_format d = (if unscaled d < 0 then ''-'' else []) @ un"
    by (simp add: decimal_format_eq un_def ip_def fp_def)
  obtain c cs where ip: "ip = c # cs" using p(2) by (cases ip) auto
  have c: "c \<noteq> CHR ''-''" "c \<noteq> CHR ''+''" using p(1) is_ascii_digit_not[of c] by (simp_all add: ip)
  have sg: "(case decimal_format d of [] \<Rightarrow> (False, decimal_format d)
      | c # cs \<Rightarrow> if c = CHR ''-'' then (True, cs) else if c = CHR ''+'' then (False, cs)
                  else (False, decimal_format d)) = (unscaled d < 0, un)"
    using c by (simp add: fmt un_def ip)
  have sp: "(case split_once_dot un of None \<Rightarrow> (un, []) | Some p \<Rightarrow> p) = (ip, fp)"
    using p(5) split_once_dot_digits[OF p(1)] by (auto simp: un_def)
  have dot: "CHR ''.'' \<notin> set ip" using p(1) is_ascii_digit_not by (auto simp: list_all_iff)
  have "\<not> (CHR ''.'' \<in> set un \<and> fp = [])" using p(4) dot by (auto simp: un_def)
  moreover have "signed_of (nat \<bar>unscaled d\<bar>) (unscaled d < 0) = Inr (unscaled d)"
    using assms(1) by (simp add: signed_of_self decimal_wf_def decimal_range_def)
  moreover have "decimal_new (unscaled d) (scale d) = d"
    using assms(1) by (simp add: decimal_new_idem decimal_wf_def)
  ultimately show ?thesis
    unfolding decimal_parse_def sg Let_def prod.case sp
    using p assms(2) by (auto simp: MAX_DECIMAL_SCALE_def)
qed

section \<open>Properties\<close>



text \<open>
  C40. Decimal arithmetic never rounds: a sum, difference, negation or product that is returned is
  the exact rational result, in normal form and with an admitted scale.
\<close>

theorem decimal_arith_exact:
  "(case decimal_add a b of Inl _ \<Rightarrow> True | Inr r \<Rightarrow> dval r = dval a + dval b \<and> decimal_wf r \<and> scale r \<le> 18) \<and>
   (case decimal_sub a b of Inl _ \<Rightarrow> True | Inr r \<Rightarrow> dval r = dval a - dval b \<and> decimal_wf r \<and> scale r \<le> 18) \<and>
   (case decimal_neg a of Inl _ \<Rightarrow> True | Inr r \<Rightarrow> dval r = - dval a \<and> decimal_wf r \<and> scale r \<le> 18) \<and>
   (case decimal_mul a b of Inl _ \<Rightarrow> True | Inr r \<Rightarrow> dval r = dval a * dval b \<and> decimal_wf r \<and> scale r \<le> 18)"
  by (auto simp: decimal_ops_wf decimal_add_val decimal_sub_val decimal_neg_val decimal_mul_val split: sum.split)

text \<open>
  Exact division is exact and its refusal is justified: a returned quotient times the divisor is
  the dividend, and \<open>InexactDivision\<close> is returned only when no decimal of scale at most 18 is the
  quotient.
\<close>

theorem decimal_div_exact_correct:
  "(\<forall>r. decimal_div_exact a b = Inr r \<longrightarrow> dval r * dval b = dval a \<and> decimal_wf r \<and> scale r \<le> 18) \<and>
   (decimal_div_exact a b = Inl InexactDivision \<longrightarrow> (\<forall>r. scale r \<le> 18 \<longrightarrow> dval r * dval b \<noteq> dval a))"
  using div_exact_value[of a b] div_exact_refusal[of a b] by blast

theorem decimal_div_exact_correct_witness:
  "dval \<lparr>unscaled = 125, scale = 3\<rparr> * dval \<lparr>unscaled = 8, scale = 0\<rparr> = dval \<lparr>unscaled = 1, scale = 0\<rparr> \<and>
   \<not> (\<exists>r. scale r \<le> 18 \<and> dval r * dval \<lparr>unscaled = 3, scale = 0\<rparr> = dval \<lparr>unscaled = 1, scale = 0\<rparr>)"
proof -
  have "decimal_div_exact \<lparr>unscaled = 1, scale = 0\<rparr> \<lparr>unscaled = 8, scale = 0\<rparr> = Inr \<lparr>unscaled = 125, scale = 3\<rparr>"
    "decimal_div_exact \<lparr>unscaled = 1, scale = 0\<rparr> \<lparr>unscaled = 3, scale = 0\<rparr> = Inl InexactDivision"
  proof -
    show "decimal_div_exact \<lparr>unscaled = 1, scale = 0\<rparr> \<lparr>unscaled = 8, scale = 0\<rparr> = Inr \<lparr>unscaled = 125, scale = 3\<rparr>"
      by code_simp
    have "div_exact_loop 3 0 1 0 = Inl InexactDivision"
      by (simp add: div_exact_loop.simps[of 3] u128_try_def u128_range_def MAX_DECIMAL_SCALE_def
          cong: and_then_weak_cong)
    moreover have "ratio \<lparr>unscaled = 1, scale = 0\<rparr> \<lparr>unscaled = 3, scale = 0\<rparr> 0 = Inr (1, 3, False)"
      by code_simp
    ultimately show "decimal_div_exact \<lparr>unscaled = 1, scale = 0\<rparr> \<lparr>unscaled = 3, scale = 0\<rparr> = Inl InexactDivision"
      by (simp add: decimal_div_exact_def)
  qed
  then show ?thesis
    using decimal_div_exact_correct[of "\<lparr>unscaled = 1, scale = 0\<rparr>" "\<lparr>unscaled = 8, scale = 0\<rparr>"]
      decimal_div_exact_correct[of "\<lparr>unscaled = 1, scale = 0\<rparr>" "\<lparr>unscaled = 3, scale = 0\<rparr>"] by blast
qed

text \<open>
  Rounding division rounds as its mode says: the result is \<open>k * 10^-scale\<close> where \<open>k\<close> is the
  floor, the ceiling, the truncation, or a nearest integer (the even one on a tie) of the exact
  quotient scaled by \<open>10^scale\<close>, for every sign of the operands.
\<close>

theorem decimal_div_round_correct:
  assumes "decimal_div_round a b sc mode = Inr r"
  shows "\<exists>k. dval r = of_int k / 10 ^ sc \<and> rounds mode (dval a / dval b * 10 ^ sc) k \<and> decimal_wf r \<and> scale r \<le> sc"
  using assms by (rule div_round_value)

theorem decimal_div_round_correct_witness:
  "\<exists>k. dval \<lparr>unscaled = -38, scale = 2\<rparr> = of_int k / 10 ^ 2 \<and>
     rounds ''half_even'' (dval \<lparr>unscaled = -3, scale = 0\<rparr> / dval \<lparr>unscaled = 8, scale = 0\<rparr> * 10 ^ 2) k"
proof -
  have "decimal_div_round \<lparr>unscaled = -3, scale = 0\<rparr> \<lparr>unscaled = 8, scale = 0\<rparr> 2 ''half_even''
    = Inr \<lparr>unscaled = -38, scale = 2\<rparr>"
    by code_simp
  from decimal_div_round_correct[OF this] show ?thesis by blast
qed

text \<open>
  Formatting and parsing are inverse: the text of a well-formed decimal of an admitted scale
  parses back to that very decimal, \<open>i128::MIN\<close> included.
\<close>

theorem decimal_parse_format:
  assumes "decimal_wf d" "scale d \<le> 18"
  shows "decimal_parse (decimal_format d) = Inr d"
  using assms by (rule parse_format)

theorem decimal_parse_format_witness:
  "decimal_parse (decimal_format \<lparr>unscaled = - (2 ^ 127), scale = 18\<rparr>) = Inr \<lparr>unscaled = - (2 ^ 127), scale = 18\<rparr>"
  by (rule decimal_parse_format)
    (simp_all add: decimal_wf_def decimal_range_def decimal_normal_def i128_range_def)

end
