(* ===== verification/Kernel_Check.thy ===== *)
theory Kernel_Check
  imports Kernel_Cert Kernel_Prim Decimal_Math
begin

text \<open>
  The bidirectional proof checker of \<open>crates/brix-kernel/src/check.rs\<close> with the verdicts of
  \<open>verdict.rs\<close>. The mutable \<open>CheckerState\<close> (remaining steps and depth) is threaded through;
  an error result carries no state, because every error is propagated to \<open>acceptance\<close>, which
  drops it. The hypothesis stack \<open>Gamma\<close> is a list with its top at the head, so that
  \<open>iter().rev()\<close> is the list itself; a push followed by a pop is a recursive call with a longer
  list. Texts that the code formats from values are kept as the values (datatype
  \<open>message\<close>): \<open>Debug\<close> rendering is not modelled. The process abort of the registry's
  assertion is the extra verdict \<open>Panicked\<close>.
\<close>

section \<open>Verdicts\<close>

record certificate =
  cverifier :: verifier_id
  ccertificate_id :: certificate_id

datatype message =
    Msg string
  | MsgProp string kprop
  | MsgObj string object_term
  | MsgObjs object_term object_term
  | MsgIndex nat nat
  | MsgName string

datatype rejection_reason =
    TypeMismatch message message
  | HypothesisNotFound message
  | ProofGoalNotReached
  | RejectionCustom string
  | UnknownPrimitiveRelation string
  | PrimitiveRowNotFound string string string

datatype unsupported_construct =
    ExistentialConstruct | EqualityConstruct | TransformationPreservation | Cut | GeneralRecursion | Construct string

datatype resource_budget_reason = StepLimitExceeded | DepthLimitExceeded | BudgetCustom string

datatype verdict =
    Accepted certificate
  | Rejected rejection_reason
  | Malformed message
  | UnsupportedV unsupported_construct
  | ContextMismatch context_id context_id
  | ResourceExhausted resource_budget_reason
  | Panicked

fun verdict_outcome :: "verdict \<Rightarrow> outcome option" where
  "verdict_outcome (Accepted _) = Some Proven"
| "verdict_outcome (ResourceExhausted _) = Some Unknown"
| "verdict_outcome _ = None"

section \<open>State\<close>

record budget =
  max_steps :: nat
  max_depth :: nat

record checker_state =
  steps :: nat
  depth :: nat

definition step :: "checker_state \<Rightarrow> verdict + checker_state" where
  "step st = (if steps st = 0 then Inl (ResourceExhausted StepLimitExceeded)
              else Inr (st\<lparr>steps := steps st - 1\<rparr>))"

definition enter_depth :: "checker_state \<Rightarrow> verdict + checker_state" where
  "enter_depth st = (if depth st = 0 then Inl (ResourceExhausted DepthLimitExceeded)
                     else Inr (st\<lparr>depth := depth st - 1\<rparr>))"

definition leave_depth :: "checker_state \<Rightarrow> nat \<Rightarrow> checker_state" where
  "leave_depth st n = st\<lparr>depth := depth st + n\<rparr>"

type_synonym gamma = "(string option \<times> kprop) list"

definition gamma_has :: "gamma \<Rightarrow> string option \<Rightarrow> bool" where
  "gamma_has g nm = (case nm of None \<Rightarrow> False | Some s \<Rightarrow> list_ex (\<lambda>(opt, _). opt = Some s) g)"

section \<open>Occurrence\<close>

fun obj_term_contains :: "object_term \<Rightarrow> object_term \<Rightarrow> bool" where
  "obj_term_contains t target =
     (if t = target then True
      else case t of
        Compose g2 g1 \<Rightarrow> obj_term_contains g2 target \<or> obj_term_contains g1 target
      | Tensor l r \<Rightarrow> obj_term_contains l target \<or> obj_term_contains r target
      | _ \<Rightarrow> False)"

declare obj_term_contains.simps [simp del]

fun prop_contains_obj_term :: "kprop \<Rightarrow> object_term \<Rightarrow> bool" where
  "prop_contains_obj_term (Atom _) target = False"
| "prop_contains_obj_term (Impl p q) target = (prop_contains_obj_term p target \<or> prop_contains_obj_term q target)"
| "prop_contains_obj_term (Prod p q) target = (prop_contains_obj_term p target \<or> prop_contains_obj_term q target)"
| "prop_contains_obj_term (Sum p q) target = (prop_contains_obj_term p target \<or> prop_contains_obj_term q target)"
| "prop_contains_obj_term (Eq s t) target = (obj_term_contains s target \<or> obj_term_contains t target)"
| "prop_contains_obj_term (Exists body) target = prop_contains_obj_term body target"
| "prop_contains_obj_term (Applied _ args) target = list_ex (\<lambda>a. obj_term_contains a target) args"
| "prop_contains_obj_term (Realizes w x y) target =
     (obj_term_contains w target \<or> obj_term_contains x target \<or> obj_term_contains y target)"
| "prop_contains_obj_term (Preserves w motive) target =
     (obj_term_contains w target \<or> prop_contains_obj_term motive target)"

definition eigen_id :: "(bytes \<Rightarrow> bytes) \<Rightarrow> string option \<Rightarrow> nat \<Rightarrow> proposition_id" where
  "eigen_id blake3 obj_var n =
     from_canon blake3 (as_bytes (''eigenvar:'' @ (case obj_var of None \<Rightarrow> ''anon'' | Some s \<Rightarrow> s)
       @ '':'' @ nat_to_string n))"

section \<open>Expected shapes\<close>

text \<open>The \<open>match\<close> on an inferred type, with its mismatch.\<close>

definition mismatch :: "string \<Rightarrow> kprop \<Rightarrow> verdict" where
  "mismatch what other = Rejected (TypeMismatch (Msg what) (MsgProp [] other))"

definition expect_realizes :: "string \<Rightarrow> kprop \<Rightarrow> verdict + (object_term \<times> object_term \<times> object_term)" where
  "expect_realizes what p = (case p of Realizes w x y \<Rightarrow> Inr (w, x, y) | other \<Rightarrow> Inl (mismatch what other))"

definition expect_exists :: "kprop \<Rightarrow> verdict + kprop" where
  "expect_exists p = (case p of Exists pred \<Rightarrow> Inr pred | other \<Rightarrow> Inl (mismatch ''Exists(pred)'' other))"

definition expect_sum :: "kprop \<Rightarrow> verdict + (kprop \<times> kprop)" where
  "expect_sum p = (case p of Sum a b \<Rightarrow> Inr (a, b) | other \<Rightarrow> Inl (mismatch ''Sum (P + Q)'' other))"

definition expect_eq :: "kprop \<Rightarrow> verdict + (object_term \<times> object_term)" where
  "expect_eq p = (case p of Eq a b \<Rightarrow> Inr (a, b) | other \<Rightarrow> Inl (mismatch ''Eq(a, b)'' other))"

definition expect_impl :: "kprop \<Rightarrow> verdict + (kprop \<times> kprop)" where
  "expect_impl p = (case p of Impl a b \<Rightarrow> Inr (a, b) | other \<Rightarrow> Inl (mismatch ''Implication (P -> Q)'' other))"

definition expect_prod :: "kprop \<Rightarrow> verdict + (kprop \<times> kprop)" where
  "expect_prod p = (case p of Prod a b \<Rightarrow> Inr (a, b) | other \<Rightarrow> Inl (mismatch ''Product (P x Q)'' other))"

definition ensure :: "bool \<Rightarrow> verdict \<Rightarrow> verdict + unit" where
  "ensure b e = (if b then Inr () else Inl e)"

definition fresh_name :: "gamma \<Rightarrow> string option \<Rightarrow> verdict + unit" where
  "fresh_name g nm = ensure (\<not> gamma_has g nm) (Malformed (MsgName (case nm of None \<Rightarrow> [] | Some s \<Rightarrow> s)))"

definition escape :: verdict where
  "escape = Malformed (Msg ''Eigenvariable witness escape: eigenvariable occurs free in conclusion'')"

definition endpoint :: "string \<Rightarrow> object_term \<Rightarrow> object_term \<Rightarrow> verdict" where
  "endpoint what t u = Rejected (TypeMismatch (MsgObj what t) (MsgObj [] u))"

text \<open>The checks of the two expected-mode realization rules, on inferred endpoints.\<close>

definition check_comp_sides ::
  "(bytes \<Rightarrow> bytes) \<Rightarrow> object_term \<times> object_term \<times> object_term \<Rightarrow> object_term \<times> object_term \<times> object_term
     \<Rightarrow> object_term \<Rightarrow> object_term \<Rightarrow> object_term \<Rightarrow> verdict + unit" where
  "check_comp_sides blake3 left right w x z =
     (case (left, right) of ((g1, xl, y), (g2, ys, z2)) \<Rightarrow>
        if xl \<noteq> x then Inl (endpoint ''Source endpoint '' x xl)
        else if y \<noteq> ys then Inl (endpoint ''Middle endpoint matching '' y ys)
        else if z2 \<noteq> z then Inl (endpoint ''Target endpoint '' z z2)
        else if witness_digest blake3 w \<noteq> compose blake3 (witness_digest blake3 g2) (witness_digest blake3 g1)
        then Inl (endpoint ''Witness '' (Compose g2 g1) w)
        else Inr ())"

definition check_tensor_sides ::
  "(bytes \<Rightarrow> bytes) \<Rightarrow> object_term \<times> object_term \<times> object_term \<Rightarrow> object_term \<times> object_term \<times> object_term
     \<Rightarrow> object_term \<Rightarrow> object_term \<Rightarrow> object_term \<Rightarrow> verdict + unit" where
  "check_tensor_sides blake3 left right w x z =
     (case (left, right) of ((w1, x1, y1), (w2, x2, y2)) \<Rightarrow>
        if x \<noteq> Tensor x1 x2 then Inl (endpoint ''Source endpoint '' (Tensor x1 x2) x)
        else if z \<noteq> Tensor y1 y2 then Inl (endpoint ''Target endpoint '' (Tensor y1 y2) z)
        else if witness_digest blake3 w \<noteq> tensor blake3 (witness_digest blake3 w1) (witness_digest blake3 w2)
        then Inl (endpoint ''Witness '' (Tensor w1 w2) w)
        else Inr ())"

definition lookup_hyp :: "gamma \<Rightarrow> var \<Rightarrow> verdict + kprop" where
  "lookup_hyp g v =
     (case v of
        Index idx \<Rightarrow>
          if idx < length g then Inr (snd (g ! idx))
          else Inl (Rejected (HypothesisNotFound (MsgIndex idx (length g))))
      | Named name \<Rightarrow>
          (case List.find (\<lambda>(opt, _). opt = Some name) g of
             Some (_, p) \<Rightarrow> Inr p
           | None \<Rightarrow> Inl (Rejected (HypothesisNotFound (MsgName name)))))"

definition infer_prim_realizes :: "(bytes \<Rightarrow> bytes) \<Rightarrow> digest \<Rightarrow> object_term \<Rightarrow> object_term \<Rightarrow> verdict + kprop" where
  "infer_prim_realizes blake3 relation src dst =
     (case resolve blake3 relation of
        None \<Rightarrow> Inl Panicked
      | Some None \<Rightarrow> Inl (Rejected (UnknownPrimitiveRelation (to_hex relation)))
      | Some (Some resolved) \<Rightarrow>
          (case (src, dst) of
             (Const src_id, Const dst_id) \<Rightarrow>
               if \<not> admits resolved src_id dst_id
               then Inl (Rejected (PrimitiveRowNotFound (to_hex relation) (to_hex src_id) (to_hex dst_id)))
               else Inr (Realizes (Const (generator resolved)) src dst)
           | _ \<Rightarrow> Inl (Rejected (TypeMismatch (Msg ''PrimRealizes endpoints as object constants'') (MsgObjs src dst)))))"

section \<open>The patterns of the rules\<close>

definition peel_lam :: "term_kind \<Rightarrow> kprop \<Rightarrow> (string option \<times> kprop \<times> term_kind \<times> kprop) option" where
  "peel_lam k e =
     (case k of Lam nm body \<Rightarrow> (case e of Impl p q \<Rightarrow> Some (nm, p, body, q) | _ \<Rightarrow> None) | _ \<Rightarrow> None)"

definition comp_parts :: "term_kind \<Rightarrow> (term_kind \<times> term_kind) option" where
  "comp_parts k = (case k of RealizesComp l r \<Rightarrow> Some (l, r) | _ \<Rightarrow> None)"

text \<open>The arm of \<open>check_rule\<close>'s match on the term and the expected proposition.\<close>

datatype rule_arm =
    ArmRefl object_term object_term object_term
  | ArmPack object_term term_kind kprop
  | ArmUnpack term_kind "string option" "string option" term_kind
  | ArmPair term_kind term_kind kprop kprop
  | ArmInl term_kind kprop
  | ArmInr term_kind kprop
  | ArmCase term_kind "string option" term_kind "string option" term_kind
  | ArmComp term_kind term_kind object_term object_term object_term
  | ArmTensor term_kind term_kind object_term object_term object_term
  | ArmUnsupported string
  | ArmSynthesis

definition check_arm :: "term_kind \<Rightarrow> kprop \<Rightarrow> rule_arm" where
  "check_arm k e =
     (case k of
        Refl t \<Rightarrow> (case e of Eq a b \<Rightarrow> ArmRefl t a b | _ \<Rightarrow> ArmSynthesis)
      | Pack witness body \<Rightarrow> (case e of Exists pred \<Rightarrow> ArmPack witness body pred | _ \<Rightarrow> ArmSynthesis)
      | Unpack scrut ov pv body \<Rightarrow> ArmUnpack scrut ov pv body
      | PairT a b \<Rightarrow> (case e of Prod p q \<Rightarrow> ArmPair a b p q | _ \<Rightarrow> ArmSynthesis)
      | InlT t \<Rightarrow> (case e of Sum p q \<Rightarrow> ArmInl t p | _ \<Rightarrow> ArmSynthesis)
      | InrT t \<Rightarrow> (case e of Sum p q \<Rightarrow> ArmInr t q | _ \<Rightarrow> ArmSynthesis)
      | CaseT d lv l rv r \<Rightarrow> ArmCase d lv l rv r
      | RealizesComp l r \<Rightarrow> (case e of Realizes w x z \<Rightarrow> ArmComp l r w x z | _ \<Rightarrow> ArmSynthesis)
      | RealizesTensor l r \<Rightarrow> (case e of Realizes w x z \<Rightarrow> ArmTensor l r w x z | _ \<Rightarrow> ArmSynthesis)
      | Unsupported msg \<Rightarrow> ArmUnsupported msg
      | _ \<Rightarrow> ArmSynthesis)"

fun nodes :: "term_kind \<Rightarrow> nat" where
  "nodes (Hyp _) = 1"
| "nodes (Lam _ b) = 1 + nodes b"
| "nodes (App f a) = 1 + nodes f + nodes a"
| "nodes (PairT a b) = 1 + nodes a + nodes b"
| "nodes (Proj1 t) = 1 + nodes t"
| "nodes (Proj2 t) = 1 + nodes t"
| "nodes (InlT t) = 1 + nodes t"
| "nodes (InrT t) = 1 + nodes t"
| "nodes (CaseT d _ l _ r) = 1 + nodes d + nodes l + nodes r"
| "nodes (Unsupported _) = 1"
| "nodes (Refl _) = 1"
| "nodes (Subst e _ s) = 1 + nodes e + nodes s"
| "nodes (Pack _ b) = 1 + nodes b"
| "nodes (Unpack s _ _ b) = 1 + nodes s + nodes b"
| "nodes (Pres r p _ s) = 1 + nodes r + nodes p + nodes s"
| "nodes (RealizesComp l r) = 1 + nodes l + nodes r"
| "nodes (RealizesTensor l r) = 1 + nodes l + nodes r"
| "nodes (PrimRealizes _ _ _) = 1"

lemma nodes_pos [simp]: "0 < nodes k"
  by (cases k) simp_all

lemma peel_lam_Some: "peel_lam k e = Some (nm, p, body, q) \<longleftrightarrow> k = Lam nm body \<and> e = Impl p q"
  by (auto simp: peel_lam_def split: term_kind.splits kprop.splits)

lemma comp_parts_Some: "comp_parts k = Some (l, r) \<longleftrightarrow> k = RealizesComp l r"
  by (auto simp: comp_parts_def split: term_kind.splits)

lemma check_arm_simps:
  "check_arm k e = ArmRefl t a b \<longleftrightarrow> k = Refl t \<and> e = Eq a b"
  "check_arm k e = ArmPack w bd pred \<longleftrightarrow> k = Pack w bd \<and> e = Exists pred"
  "check_arm k e = ArmUnpack s ov pv bd \<longleftrightarrow> k = Unpack s ov pv bd"
  "check_arm k e = ArmPair t1 t2 p q \<longleftrightarrow> k = PairT t1 t2 \<and> e = Prod p q"
  "check_arm k e = ArmInl t1 p \<longleftrightarrow> k = InlT t1 \<and> (\<exists>q. e = Sum p q)"
  "check_arm k e = ArmInr t1 q \<longleftrightarrow> k = InrT t1 \<and> (\<exists>p. e = Sum p q)"
  "check_arm k e = ArmCase t1 lv t2 rv t3 \<longleftrightarrow> k = CaseT t1 lv t2 rv t3"
  "check_arm k e = ArmComp t1 t2 w x z \<longleftrightarrow> k = RealizesComp t1 t2 \<and> e = Realizes w x z"
  "check_arm k e = ArmTensor t1 t2 w x z \<longleftrightarrow> k = RealizesTensor t1 t2 \<and> e = Realizes w x z"
  by (auto simp: check_arm_def split: term_kind.splits kprop.splits)

section \<open>The checker\<close>

text \<open>
  \<open>check_loop\<close> is the spine loop of \<open>check_type\<close>, \<open>comp_loop\<close> that of
  \<open>infer_realizes_comp\<close>; \<open>dt\<close> is \<open>depth_taken\<close>.
\<close>

function
  check_loop :: "(bytes \<Rightarrow> bytes) \<Rightarrow> checker_state \<Rightarrow> gamma \<Rightarrow> term_kind \<Rightarrow> kprop \<Rightarrow> nat \<Rightarrow> verdict + checker_state"
  and check_rule :: "(bytes \<Rightarrow> bytes) \<Rightarrow> checker_state \<Rightarrow> gamma \<Rightarrow> term_kind \<Rightarrow> kprop \<Rightarrow> verdict + checker_state"
  and infer_type :: "(bytes \<Rightarrow> bytes) \<Rightarrow> checker_state \<Rightarrow> gamma \<Rightarrow> term_kind \<Rightarrow> verdict + (kprop \<times> checker_state)"
  and infer_rule :: "(bytes \<Rightarrow> bytes) \<Rightarrow> checker_state \<Rightarrow> gamma \<Rightarrow> term_kind \<Rightarrow> verdict + (kprop \<times> checker_state)"
  and infer_subst :: "(bytes \<Rightarrow> bytes) \<Rightarrow> checker_state \<Rightarrow> gamma \<Rightarrow> term_kind \<Rightarrow> kprop \<Rightarrow> term_kind \<Rightarrow> verdict + (kprop \<times> checker_state)"
  and infer_unpack :: "(bytes \<Rightarrow> bytes) \<Rightarrow> checker_state \<Rightarrow> gamma \<Rightarrow> term_kind \<Rightarrow> string option \<Rightarrow> string option \<Rightarrow> term_kind \<Rightarrow> verdict + (kprop \<times> checker_state)"
  and infer_pres :: "(bytes \<Rightarrow> bytes) \<Rightarrow> checker_state \<Rightarrow> gamma \<Rightarrow> term_kind \<Rightarrow> term_kind \<Rightarrow> kprop \<Rightarrow> term_kind \<Rightarrow> verdict + (kprop \<times> checker_state)"
  and infer_realizes_comp :: "(bytes \<Rightarrow> bytes) \<Rightarrow> checker_state \<Rightarrow> gamma \<Rightarrow> term_kind \<Rightarrow> term_kind \<Rightarrow> verdict + (kprop \<times> checker_state)"
  and comp_loop :: "(bytes \<Rightarrow> bytes) \<Rightarrow> checker_state \<Rightarrow> gamma \<Rightarrow> object_term list \<Rightarrow> object_term \<Rightarrow> term_kind \<Rightarrow> term_kind \<Rightarrow> nat
      \<Rightarrow> verdict + ((object_term \<times> object_term \<times> object_term list) \<times> checker_state)"
  and infer_realizes_tensor :: "(bytes \<Rightarrow> bytes) \<Rightarrow> checker_state \<Rightarrow> gamma \<Rightarrow> term_kind \<Rightarrow> term_kind \<Rightarrow> verdict + (kprop \<times> checker_state)"
where
  "check_loop blake3 st g k e dt =
     and_then (step st) (\<lambda>st. and_then (enter_depth st) (\<lambda>st.
       case peel_lam k e of
         Some (nm, p, body, q) \<Rightarrow> check_loop blake3 st ((nm, p) # g) body q (dt + 1)
       | None \<Rightarrow> and_then (check_rule blake3 st g k e) (\<lambda>st. Inr (leave_depth st (dt + 1)))))"
| "check_rule blake3 st g k e =
     (case check_arm k e of
        ArmRefl t a b \<Rightarrow>
          if a = b \<and> a = t then Inr st
          else Inl (Rejected (TypeMismatch (MsgProp [] e) (MsgObj ''Refl'' t)))
      | ArmPack witness body pred \<Rightarrow> check_loop blake3 st g body (instantiate pred witness) 0
      | ArmUnpack scrut ov pv body \<Rightarrow>
          and_then (infer_type blake3 st g scrut) (\<lambda>(ty, st).
          and_then (expect_exists ty) (\<lambda>pred.
          and_then (fresh_name g pv) (\<lambda>_.
          let fresh_x = Const (eigen_id blake3 ov (steps st)) in
          if prop_contains_obj_term e fresh_x then Inl escape
          else check_loop blake3 st ((pv, instantiate pred fresh_x) # g) body e 0)))
      | ArmPair a b p q \<Rightarrow>
          and_then (check_loop blake3 st g a p 0) (\<lambda>st. check_loop blake3 st g b q 0)
      | ArmInl t p \<Rightarrow> check_loop blake3 st g t p 0
      | ArmInr t q \<Rightarrow> check_loop blake3 st g t q 0
      | ArmCase d lv l rv r \<Rightarrow>
          and_then (infer_type blake3 st g d) (\<lambda>(ty, st).
          and_then (expect_sum ty) (\<lambda>(p1, p2).
          and_then (fresh_name g lv) (\<lambda>_.
          and_then (fresh_name g rv) (\<lambda>_.
          and_then (check_loop blake3 st ((lv, p1) # g) l e 0) (\<lambda>st.
          check_loop blake3 st ((rv, p2) # g) r e 0)))))
      | ArmComp l r w x z \<Rightarrow>
          and_then (infer_type blake3 st g l) (\<lambda>(lt, st).
          and_then (expect_realizes ''Realizes(g1, x, y)'' lt) (\<lambda>left.
          and_then (infer_type blake3 st g r) (\<lambda>(rt, st).
          and_then (expect_realizes ''Realizes(g2, y, z)'' rt) (\<lambda>right.
          and_then (check_comp_sides blake3 left right w x z) (\<lambda>_. Inr st)))))
      | ArmTensor l r w x z \<Rightarrow>
          and_then (infer_type blake3 st g l) (\<lambda>(lt, st).
          and_then (expect_realizes ''Realizes(w1, x1, y1)'' lt) (\<lambda>left.
          and_then (infer_type blake3 st g r) (\<lambda>(rt, st).
          and_then (expect_realizes ''Realizes(w2, x2, y2)'' rt) (\<lambda>right.
          and_then (check_tensor_sides blake3 left right w x z) (\<lambda>_. Inr st)))))
      | ArmUnsupported msg \<Rightarrow> Inl (UnsupportedV (Construct msg))
      | ArmSynthesis \<Rightarrow>
          and_then (infer_type blake3 st g k) (\<lambda>(inferred, st).
            if inferred = e then Inr st
            else Inl (Rejected (TypeMismatch (MsgProp [] e) (MsgProp [] inferred)))))"
| "infer_type blake3 st g k =
     and_then (step st) (\<lambda>st. and_then (enter_depth st) (\<lambda>st.
       and_then (infer_rule blake3 st g k) (\<lambda>(p, st). Inr (p, leave_depth st 1))))"
| "infer_rule blake3 st g k =
     (case k of
        Hyp v \<Rightarrow> and_then (lookup_hyp g v) (\<lambda>p. Inr (p, st))
      | Refl t \<Rightarrow> Inr (Eq t t, st)
      | Subst e motive sub \<Rightarrow> infer_subst blake3 st g e motive sub
      | Unpack scrut ov pv body \<Rightarrow> infer_unpack blake3 st g scrut ov pv body
      | Pres rl pr motive sub \<Rightarrow> infer_pres blake3 st g rl pr motive sub
      | App f a \<Rightarrow>
          and_then (infer_type blake3 st g f) (\<lambda>(ft, st).
          and_then (expect_impl ft) (\<lambda>(p, q).
          and_then (check_loop blake3 st g a p 0) (\<lambda>st. Inr (q, st))))
      | Proj1 t \<Rightarrow>
          and_then (infer_type blake3 st g t) (\<lambda>(ty, st).
          and_then (expect_prod ty) (\<lambda>(p, q). Inr (p, st)))
      | Proj2 t \<Rightarrow>
          and_then (infer_type blake3 st g t) (\<lambda>(ty, st).
          and_then (expect_prod ty) (\<lambda>(p, q). Inr (q, st)))
      | PairT a b \<Rightarrow>
          and_then (infer_type blake3 st g a) (\<lambda>(p, st).
          and_then (infer_type blake3 st g b) (\<lambda>(q, st). Inr (Prod p q, st)))
      | RealizesComp l r \<Rightarrow> infer_realizes_comp blake3 st g l r
      | RealizesTensor l r \<Rightarrow> infer_realizes_tensor blake3 st g l r
      | PrimRealizes relation src dst \<Rightarrow>
          and_then (infer_prim_realizes blake3 relation src dst) (\<lambda>p. Inr (p, st))
      | Unsupported msg \<Rightarrow> Inl (UnsupportedV (Construct msg))
      | _ \<Rightarrow> Inl (Rejected ProofGoalNotReached))"
| "infer_subst blake3 st g e motive sub =
     and_then (infer_type blake3 st g e) (\<lambda>(et, st).
     and_then (expect_eq et) (\<lambda>(a, b).
     and_then (check_loop blake3 st g sub (instantiate motive a) 0) (\<lambda>st.
     Inr (instantiate motive b, st))))"
| "infer_unpack blake3 st g scrut ov pv body =
     and_then (infer_type blake3 st g scrut) (\<lambda>(ty, st).
     and_then (expect_exists ty) (\<lambda>pred.
     and_then (fresh_name g pv) (\<lambda>_.
     let fresh_x = Const (eigen_id blake3 ov (steps st)) in
     and_then (infer_type blake3 st ((pv, instantiate pred fresh_x) # g) body) (\<lambda>(bt, st).
     if prop_contains_obj_term bt fresh_x then Inl escape else Inr (bt, st)))))"
| "infer_pres blake3 st g rl pr motive sub =
     and_then (infer_type blake3 st g rl) (\<lambda>(rt, st).
     and_then (expect_realizes ''Realizes(w, x, y)'' rt) (\<lambda>(w, x, y).
     and_then (check_loop blake3 st g pr (Preserves w motive) 0) (\<lambda>st.
     and_then (check_loop blake3 st g sub (instantiate motive x) 0) (\<lambda>st.
     Inr (instantiate motive y, st)))))"
| "infer_realizes_comp blake3 st g l r =
     and_then (infer_type blake3 st g l) (\<lambda>(lt, st).
     and_then (expect_realizes ''Realizes(g1, x, y)'' lt) (\<lambda>(g_left, xl, y).
     case comp_parts r of
       None \<Rightarrow>
         and_then (infer_type blake3 st g r) (\<lambda>(rt, st).
         and_then (expect_realizes ''Realizes(g2, y, z)'' rt) (\<lambda>(g2, ys, z2).
         if y \<noteq> ys then Inl (endpoint ''Middle endpoint matching '' y ys)
         else Inr (Realizes (Compose g2 g_left) xl z2, st)))
     | Some (nl, nr) \<Rightarrow>
         and_then (comp_loop blake3 st g [g_left] y nl nr 0) (\<lambda>((final_witness, final_z, witnesses), st).
         Inr (Realizes (foldl (\<lambda>acc w. Compose acc w) final_witness (rev witnesses)) xl final_z, st))))"
| "comp_loop blake3 st g witnesses y_curr curr_left curr_right dt =
     and_then (step st) (\<lambda>st. and_then (enter_depth st) (\<lambda>st.
     and_then (infer_type blake3 st g curr_left) (\<lambda>(lt, st).
     and_then (expect_realizes ''Realizes(g, y, z)'' lt) (\<lambda>(g_l, ys, y_next).
     if y_curr \<noteq> ys then Inl (endpoint ''Middle endpoint matching '' y_curr ys)
     else case comp_parts curr_right of
       Some (nl, nr) \<Rightarrow> comp_loop blake3 st g (witnesses @ [g_l]) y_next nl nr (dt + 1)
     | None \<Rightarrow>
         and_then (infer_type blake3 st g curr_right) (\<lambda>(rt, st).
         and_then (expect_realizes ''Realizes(g, y, z)'' rt) (\<lambda>(g_r, ys, z).
         if y_next \<noteq> ys then Inl (endpoint ''Middle endpoint matching '' y_next ys)
         else Inr ((g_r, z, witnesses @ [g_l]), leave_depth st (dt + 1))))))))"
| "infer_realizes_tensor blake3 st g l r =
     and_then (infer_type blake3 st g l) (\<lambda>(lt, st).
     and_then (expect_realizes ''Realizes(w1, x1, y1)'' lt) (\<lambda>(w1, x1, y1).
     and_then (infer_type blake3 st g r) (\<lambda>(rt, st).
     and_then (expect_realizes ''Realizes(w2, x2, y2)'' rt) (\<lambda>(w2, x2, y2).
     Inr (Realizes (Tensor w1 w2) (Tensor x1 x2) (Tensor y1 y2), st)))))"
  by pat_completeness auto

termination
  by (relation "measure (case_sum
      (case_sum
        (case_sum (\<lambda>(_, _, _, k, _, _). 4 * nodes k + 3) (\<lambda>(_, _, _, k, _). 4 * nodes k + 2))
        (case_sum (\<lambda>(_, _, _, k). 4 * nodes k + 1)
          (case_sum (\<lambda>(_, _, _, k). 4 * nodes k) (\<lambda>(_, _, _, e, _, s). 4 * (nodes e + nodes s) + 3))))
      (case_sum
        (case_sum (\<lambda>(_, _, _, s, _, _, b). 4 * (nodes s + nodes b) + 3)
          (\<lambda>(_, _, _, r, p, _, s). 4 * (nodes r + nodes p + nodes s) + 3))
        (case_sum (\<lambda>(_, _, _, l, r). 4 * (nodes l + nodes r) + 3)
          (case_sum (\<lambda>(_, _, _, _, _, l, r, _). 4 * (nodes l + nodes r) + 3)
            (\<lambda>(_, _, _, l, r). 4 * (nodes l + nodes r) + 3)))))")
    (simp_all add: check_arm_simps, auto simp: peel_lam_Some comp_parts_Some)

declare check_loop.simps [simp del] check_rule.simps [simp del] infer_type.simps [simp del]
  infer_rule.simps [simp del] infer_subst.simps [simp del] infer_unpack.simps [simp del]
  infer_pres.simps [simp del] infer_realizes_comp.simps [simp del] comp_loop.simps [simp del]
  infer_realizes_tensor.simps [simp del]

definition check_type ::
  "(bytes \<Rightarrow> bytes) \<Rightarrow> checker_state \<Rightarrow> gamma \<Rightarrow> term_kind \<Rightarrow> kprop \<Rightarrow> verdict + checker_state" where
  "check_type blake3 st g k e = check_loop blake3 st g k e 0"

definition acceptance ::
  "(bytes \<Rightarrow> bytes) \<Rightarrow> context_id \<Rightarrow> kprop \<Rightarrow> explicit_term \<Rightarrow> budget \<Rightarrow> verdict" where
  "acceptance blake3 context proposition t b =
     (if tcontext t \<noteq> context then ContextMismatch context (tcontext t)
      else case check_type blake3 \<lparr>steps = max_steps b, depth = max_depth b\<rparr> [] (tkind t) proposition of
        Inr _ \<Rightarrow> Accepted \<lparr>cverifier = native_verifier blake3,
          ccertificate_id = certificate_id_v1 blake3 \<lparr>mcontext = context, mproposition = proposition, mterm = t\<rparr>\<rparr>
      | Inl verdict \<Rightarrow> verdict)"

end
