(* ===== verification/Kernel_Rules.thy ===== *)
theory Kernel_Rules
  imports Kernel_Check
begin

text \<open>
  The inference rules the checker implements, as inductive relations: \<open>chk\<close> is checking and
  \<open>synth\<close> synthesis, each with the checker state before and after. They are the recursive form
  of the rules, one node at a time, without the two spine loops of the code. The theory shows that
  the code succeeds precisely when a derivation exists, with the same type and the same final
  state, and what that says about steps, depth and budgets.
\<close>

section \<open>The rules\<close>

text \<open>Taking one step and one depth unit, and giving the depth unit back.\<close>

definition tick :: "checker_state \<Rightarrow> checker_state \<Rightarrow> bool" where
  "tick st st1 \<longleftrightarrow> steps st \<noteq> 0 \<and> depth st \<noteq> 0 \<and> st1 = st\<lparr>steps := steps st - 1, depth := depth st - 1\<rparr>"

definition untick :: "checker_state \<Rightarrow> checker_state" where
  "untick st = leave_depth st 1"

inductive
  chk :: "(bytes \<Rightarrow> bytes) \<Rightarrow> gamma \<Rightarrow> term_kind \<Rightarrow> kprop \<Rightarrow> checker_state \<Rightarrow> checker_state \<Rightarrow> bool" and
  synth :: "(bytes \<Rightarrow> bytes) \<Rightarrow> gamma \<Rightarrow> term_kind \<Rightarrow> kprop \<Rightarrow> checker_state \<Rightarrow> checker_state \<Rightarrow> bool"
  for blake3
where
  chk_Lam: "tick st st1 \<Longrightarrow> chk blake3 ((nm, p) # g) body q st1 st2 \<Longrightarrow>
    chk blake3 g (Lam nm body) (Impl p q) st (untick st2)"
| chk_Refl: "tick st st1 \<Longrightarrow> chk blake3 g (Refl t) (Eq t t) st (untick st1)"
| chk_Pack: "tick st st1 \<Longrightarrow> chk blake3 g body (instantiate pred w) st1 st2 \<Longrightarrow>
    chk blake3 g (Pack w body) (Exists pred) st (untick st2)"
| chk_Unpack: "tick st st1 \<Longrightarrow> synth blake3 g scrut (Exists pred) st1 st2 \<Longrightarrow> \<not> gamma_has g pv \<Longrightarrow>
    x = Const (eigen_id blake3 ov (steps st2)) \<Longrightarrow> \<not> prop_contains_obj_term e x \<Longrightarrow>
    chk blake3 ((pv, instantiate pred x) # g) body e st2 st3 \<Longrightarrow>
    chk blake3 g (Unpack scrut ov pv body) e st (untick st3)"
| chk_Pair: "tick st st1 \<Longrightarrow> chk blake3 g a p st1 st2 \<Longrightarrow> chk blake3 g b q st2 st3 \<Longrightarrow>
    chk blake3 g (PairT a b) (Prod p q) st (untick st3)"
| chk_Inl: "tick st st1 \<Longrightarrow> chk blake3 g t p st1 st2 \<Longrightarrow> chk blake3 g (InlT t) (Sum p q) st (untick st2)"
| chk_Inr: "tick st st1 \<Longrightarrow> chk blake3 g t q st1 st2 \<Longrightarrow> chk blake3 g (InrT t) (Sum p q) st (untick st2)"
| chk_Case: "tick st st1 \<Longrightarrow> synth blake3 g d (Sum p q) st1 st2 \<Longrightarrow> \<not> gamma_has g lv \<Longrightarrow> \<not> gamma_has g rv \<Longrightarrow>
    chk blake3 ((lv, p) # g) l e st2 st3 \<Longrightarrow> chk blake3 ((rv, q) # g) r e st3 st4 \<Longrightarrow>
    chk blake3 g (CaseT d lv l rv r) e st (untick st4)"
| chk_Comp: "tick st st1 \<Longrightarrow> synth blake3 g l (Realizes g1 x y) st1 st2 \<Longrightarrow> synth blake3 g r (Realizes g2 y z) st2 st3 \<Longrightarrow>
    witness_digest blake3 w = compose blake3 (witness_digest blake3 g2) (witness_digest blake3 g1) \<Longrightarrow>
    chk blake3 g (RealizesComp l r) (Realizes w x z) st (untick st3)"
| chk_Tensor: "tick st st1 \<Longrightarrow> synth blake3 g l (Realizes w1 x1 y1) st1 st2 \<Longrightarrow> synth blake3 g r (Realizes w2 x2 y2) st2 st3 \<Longrightarrow>
    witness_digest blake3 w = tensor blake3 (witness_digest blake3 w1) (witness_digest blake3 w2) \<Longrightarrow>
    chk blake3 g (RealizesTensor l r) (Realizes w (Tensor x1 x2) (Tensor y1 y2)) st (untick st3)"
| chk_Syn: "tick st st1 \<Longrightarrow> peel_lam k e = None \<Longrightarrow> check_arm k e = ArmSynthesis \<Longrightarrow> synth blake3 g k e st1 st2 \<Longrightarrow>
    chk blake3 g k e st (untick st2)"
| synth_Hyp: "tick st st1 \<Longrightarrow> lookup_hyp g v = Inr p \<Longrightarrow> synth blake3 g (Hyp v) p st (untick st1)"
| synth_Refl: "tick st st1 \<Longrightarrow> synth blake3 g (Refl t) (Eq t t) st (untick st1)"
| synth_Subst: "tick st st1 \<Longrightarrow> synth blake3 g e (Eq a b) st1 st2 \<Longrightarrow> chk blake3 g sub (instantiate motive a) st2 st3 \<Longrightarrow>
    synth blake3 g (Subst e motive sub) (instantiate motive b) st (untick st3)"
| synth_Unpack: "tick st st1 \<Longrightarrow> synth blake3 g scrut (Exists pred) st1 st2 \<Longrightarrow> \<not> gamma_has g pv \<Longrightarrow>
    x = Const (eigen_id blake3 ov (steps st2)) \<Longrightarrow> synth blake3 ((pv, instantiate pred x) # g) body p st2 st3 \<Longrightarrow>
    \<not> prop_contains_obj_term p x \<Longrightarrow> synth blake3 g (Unpack scrut ov pv body) p st (untick st3)"
| synth_Pres: "tick st st1 \<Longrightarrow> synth blake3 g rl (Realizes w x y) st1 st2 \<Longrightarrow> chk blake3 g pr (Preserves w motive) st2 st3 \<Longrightarrow>
    chk blake3 g sub (instantiate motive x) st3 st4 \<Longrightarrow>
    synth blake3 g (Pres rl pr motive sub) (instantiate motive y) st (untick st4)"
| synth_App: "tick st st1 \<Longrightarrow> synth blake3 g f (Impl p q) st1 st2 \<Longrightarrow> chk blake3 g a p st2 st3 \<Longrightarrow>
    synth blake3 g (App f a) q st (untick st3)"
| synth_Proj1: "tick st st1 \<Longrightarrow> synth blake3 g t (Prod p q) st1 st2 \<Longrightarrow> synth blake3 g (Proj1 t) p st (untick st2)"
| synth_Proj2: "tick st st1 \<Longrightarrow> synth blake3 g t (Prod p q) st1 st2 \<Longrightarrow> synth blake3 g (Proj2 t) q st (untick st2)"
| synth_Pair: "tick st st1 \<Longrightarrow> synth blake3 g a p st1 st2 \<Longrightarrow> synth blake3 g b q st2 st3 \<Longrightarrow>
    synth blake3 g (PairT a b) (Prod p q) st (untick st3)"
| synth_Comp: "tick st st1 \<Longrightarrow> synth blake3 g l (Realizes g1 x y) st1 st2 \<Longrightarrow> synth blake3 g r (Realizes g2 y z) st2 st3 \<Longrightarrow>
    synth blake3 g (RealizesComp l r) (Realizes (Compose g2 g1) x z) st (untick st3)"
| synth_Tensor: "tick st st1 \<Longrightarrow> synth blake3 g l (Realizes w1 x1 y1) st1 st2 \<Longrightarrow> synth blake3 g r (Realizes w2 x2 y2) st2 st3 \<Longrightarrow>
    synth blake3 g (RealizesTensor l r) (Realizes (Tensor w1 w2) (Tensor x1 x2) (Tensor y1 y2)) st (untick st3)"
| synth_Prim: "tick st st1 \<Longrightarrow> infer_prim_realizes blake3 relation src dst = Inr p \<Longrightarrow>
    synth blake3 g (PrimRealizes relation src dst) p st (untick st1)"

section \<open>The code succeeds only with a derivation\<close>

lemma tick_Inr:
  "and_then (step st) (\<lambda>st. and_then (enter_depth st) F) = Inr v \<longleftrightarrow> (\<exists>st1. tick st st1 \<and> F st1 = Inr v)"
  by (auto simp: step_def enter_depth_def tick_def and_then_Inr split: if_splits)

lemma tickI: "step st = Inr v \<Longrightarrow> enter_depth v = Inr st1 \<Longrightarrow> tick st st1"
  by (auto simp: step_def enter_depth_def tick_def split: if_splits)

lemma expect_Inr:
  "expect_realizes what p = Inr r \<longleftrightarrow> (\<exists>w x y. p = Realizes w x y \<and> r = (w, x, y))"
  "expect_exists p = Inr pred \<longleftrightarrow> p = Exists pred"
  "expect_sum p = Inr s \<longleftrightarrow> (\<exists>a b. p = Sum a b \<and> s = (a, b))"
  "expect_eq p = Inr s' \<longleftrightarrow> (\<exists>a b. p = Eq a b \<and> s' = (a, b))"
  "expect_impl p = Inr s \<longleftrightarrow> (\<exists>a b. p = Impl a b \<and> s = (a, b))"
  "expect_prod p = Inr s \<longleftrightarrow> (\<exists>a b. p = Prod a b \<and> s = (a, b))"
  "fresh_name g nm = Inr u \<longleftrightarrow> \<not> gamma_has g nm"
  by (auto simp: expect_realizes_def expect_exists_def expect_sum_def expect_eq_def expect_impl_def expect_prod_def
      fresh_name_def ensure_def split: kprop.splits)

lemma sides_Inr:
  "check_comp_sides blake3 (g1, xl, y) (g2, ys, z2) w x z = Inr u \<longleftrightarrow> xl = x \<and> y = ys \<and> z2 = z \<and>
     witness_digest blake3 w = compose blake3 (witness_digest blake3 g2) (witness_digest blake3 g1)"
  "check_tensor_sides blake3 (w1, x1, y1) (w2, x2, y2) w x z = Inr u \<longleftrightarrow> x = Tensor x1 x2 \<and> z = Tensor y1 y2 \<and>
     witness_digest blake3 w = tensor blake3 (witness_digest blake3 w1) (witness_digest blake3 w2)"
  by (auto simp: check_comp_sides_def check_tensor_sides_def)

lemma leave_Suc: "leave_depth st (Suc n) = leave_depth (untick st) n"
  by (simp add: leave_depth_def untick_def)

lemma leave_0 [simp]: "leave_depth st 0 = st"
  by (simp add: leave_depth_def)

lemma leave_1 [simp]: "leave_depth st (Suc 0) = untick st"
  by (simp add: untick_def)

lemmas results_Inr = and_then_Inr expect_Inr sides_Inr

lemma check_derivable:
  "check_loop blake3 st g k e dt = Inr s1 \<Longrightarrow> \<exists>st2. chk blake3 g k e st st2 \<and> s1 = leave_depth st2 dt"
  "check_rule blake3 st g k e = Inr s2 \<Longrightarrow> peel_lam k e = None \<Longrightarrow> tick st0 st \<Longrightarrow> chk blake3 g k e st0 (untick s2)"
  "infer_type blake3 st g k = Inr (p, s) \<Longrightarrow> synth blake3 g k p st s"
  "infer_rule blake3 st g k = Inr (p, s) \<Longrightarrow> tick st0 st \<Longrightarrow> synth blake3 g k p st0 (untick s)"
  "infer_subst blake3 st g eq motive sub = Inr (p, s) \<Longrightarrow> tick st0 st \<Longrightarrow> synth blake3 g (Subst eq motive sub) p st0 (untick s)"
  "infer_unpack blake3 st g scrut ov pv body = Inr (p, s) \<Longrightarrow> tick st0 st \<Longrightarrow>
     synth blake3 g (Unpack scrut ov pv body) p st0 (untick s)"
  "infer_pres blake3 st g rl pr motive sub = Inr (p, s) \<Longrightarrow> tick st0 st \<Longrightarrow>
     synth blake3 g (Pres rl pr motive sub) p st0 (untick s)"
  "infer_realizes_comp blake3 st g l r = Inr (p, s) \<Longrightarrow> tick st0 st \<Longrightarrow> synth blake3 g (RealizesComp l r) p st0 (untick s)"
  "comp_loop blake3 st g ws y cl cr dt = Inr ((gf, z, ws'), s) \<Longrightarrow>
     \<exists>W s2. synth blake3 g (RealizesComp cl cr) (Realizes W y z) st s2 \<and> s = leave_depth s2 dt \<and>
       foldl (\<lambda>acc w. Compose acc w) gf (rev ws') = foldl (\<lambda>acc w. Compose acc w) W (rev ws)"
  "infer_realizes_tensor blake3 st g l r = Inr (p, s) \<Longrightarrow> tick st0 st \<Longrightarrow> synth blake3 g (RealizesTensor l r) p st0 (untick s)"
proof (induction blake3 st g k e dt and blake3 st g k e and blake3 st g k and blake3 st g k
    and blake3 st g eq motive sub and blake3 st g scrut ov pv body and blake3 st g rl pr motive sub
    and blake3 st g l r and blake3 st g ws y cl cr dt and blake3 st g l r
    arbitrary: s1 and s2 st0 and p s and p s st0 and p s st0 and p s st0 and p s st0 and p s st0 and gf z ws' s and p s st0
    rule: check_loop_check_rule_infer_type_infer_rule_infer_subst_infer_unpack_infer_pres_infer_realizes_comp_comp_loop_infer_realizes_tensor.induct)
  case (1 blake3 st g k e dt)
  show ?case
  proof (cases "peel_lam k e")
    case None
    then obtain v st1 s2 where "step st = Inr v" "enter_depth v = Inr st1" "check_rule blake3 st1 g k e = Inr s2"
      "s1 = leave_depth (untick s2) dt"
      using "1.prems" by (auto simp: check_loop.simps[of blake3 st] and_then_Inr leave_Suc)
    then show ?thesis using "1.IH"(1)[of v st1 s2 st] None tickI by blast
  next
    case (Some x)
    then obtain nm p body q where x: "x = (nm, p, body, q)" "k = Lam nm body" "e = Impl p q"
      by (cases x) (auto simp: peel_lam_Some)
    then show ?thesis using 1 Some
      by (fastforce simp: check_loop.simps[of blake3 st] and_then_Inr leave_Suc dest: tickI intro: chk_Lam)
  qed
next
  case (2 blake3 st g k e)
  note prems = "2.prems"(1)[unfolded check_rule.simps[of blake3 st]] "2.prems"(2,3)
  show ?case
  proof (cases "check_arm k e")
    case (ArmRefl t a b)
    then have ke: "k = Refl t" "e = Eq a b" by (simp_all add: check_arm_simps)
    note rule = prems(1)[unfolded ArmRefl rule_arm.case]
    show ?thesis unfolding ke using rule prems(3)
      by (auto split: if_split_asm intro: chk_Refl)
  next
    case (ArmPack w bd pred)
    then have ke: "k = Pack w bd" "e = Exists pred" by (simp_all add: check_arm_simps)
    note rule = prems(1)[unfolded ArmPack rule_arm.case]
    show ?thesis unfolding ke using rule prems(3) "2.IH"(1)[OF ArmPack]
      by (fastforce intro: chk_Pack)
  next
    case (ArmUnpack scrut ov pv body)
    then have ke: "k = Unpack scrut ov pv body" by (simp add: check_arm_simps)
    note rule = prems(1)[unfolded ArmUnpack rule_arm.case]
    show ?thesis unfolding ke using rule prems(3) "2.IH"(2)[OF ArmUnpack] "2.IH"(3)[OF ArmUnpack]
      by (fastforce simp: results_Inr Let_def split: if_split_asm intro: chk_Unpack)
  next
    case (ArmPair a b p q)
    then have ke: "k = PairT a b" "e = Prod p q" by (simp_all add: check_arm_simps)
    note rule = prems(1)[unfolded ArmPair rule_arm.case]
    show ?thesis unfolding ke using rule prems(3) "2.IH"(4)[OF ArmPair] "2.IH"(5)[OF ArmPair]
      by (fastforce simp: results_Inr intro: chk_Pair)
  next
    case (ArmInl t p)
    then obtain q where ke: "k = InlT t" "e = Sum p q" using check_arm_simps(5) by blast
    note rule = prems(1)[unfolded ArmInl rule_arm.case]
    show ?thesis unfolding ke using rule prems(3) "2.IH"(6)[OF ArmInl]
      by (fastforce intro: chk_Inl)
  next
    case (ArmInr t q)
    then obtain p where ke: "k = InrT t" "e = Sum p q" using check_arm_simps(6) by blast
    note rule = prems(1)[unfolded ArmInr rule_arm.case]
    show ?thesis unfolding ke using rule prems(3) "2.IH"(7)[OF ArmInr]
      by (fastforce intro: chk_Inr)
  next
    case (ArmCase d lv l rv r)
    then have ke: "k = CaseT d lv l rv r" by (simp add: check_arm_simps)
    note rule = prems(1)[unfolded ArmCase rule_arm.case]
    show ?thesis unfolding ke using rule prems(3) "2.IH"(8)[OF ArmCase] "2.IH"(9)[OF ArmCase] "2.IH"(10)[OF ArmCase]
      by (fastforce simp: results_Inr intro: chk_Case)
  next
    case (ArmComp l r w x z)
    then have ke: "k = RealizesComp l r" "e = Realizes w x z" by (simp_all add: check_arm_simps)
    note rule = prems(1)[unfolded ArmComp rule_arm.case]
    show ?thesis unfolding ke using rule prems(3) "2.IH"(11)[OF ArmComp] "2.IH"(12)[OF ArmComp]
      by (fastforce simp: results_Inr intro: chk_Comp)
  next
    case (ArmTensor l r w x z)
    then have ke: "k = RealizesTensor l r" "e = Realizes w x z" by (simp_all add: check_arm_simps)
    note rule = prems(1)[unfolded ArmTensor rule_arm.case]
    show ?thesis unfolding ke using rule prems(3) "2.IH"(13)[OF ArmTensor] "2.IH"(14)[OF ArmTensor]
      by (fastforce simp: results_Inr intro: chk_Tensor)
  next
    case (ArmUnsupported msg)
    note rule = prems(1)[unfolded ArmUnsupported rule_arm.case]
    show ?thesis using rule by simp
  next
    case ArmSynthesis
    note rule = prems(1)[unfolded ArmSynthesis rule_arm.case]
    show ?thesis using rule prems(2,3) ArmSynthesis "2.IH"(15)[OF ArmSynthesis]
      by (auto simp: results_Inr split: if_split_asm intro: chk_Syn)
  qed
next
  case (3 blake3 st g k)
  from "3.prems" obtain v st1 b where "step st = Inr v" "enter_depth v = Inr st1"
    "infer_rule blake3 st1 g k = Inr (p, b)" "s = untick b"
    by (auto simp: infer_type.simps[of blake3 st] and_then_Inr)
  then show ?case using "3.IH"[of v st1 p b st] tickI by blast
next
  case (4 blake3 st g k)
  note rule = "4.prems"(1)[unfolded infer_rule.simps[of blake3 st]]
  show ?case
  proof (cases k)
    case (Hyp v)
    then show ?thesis using rule "4.prems"(2) by (auto simp: results_Inr intro: synth_Hyp)
  next
    case (App f a)
    then show ?thesis using rule "4.prems"(2) "4.IH" by (fastforce simp: results_Inr intro: synth_App)
  next
    case (Proj1 t)
    then show ?thesis using rule "4.prems"(2) "4.IH" by (fastforce simp: results_Inr intro: synth_Proj1)
  next
    case (Proj2 t)
    then show ?thesis using rule "4.prems"(2) "4.IH" by (fastforce simp: results_Inr intro: synth_Proj2)
  next
    case (PairT a b)
    then show ?thesis using rule "4.prems"(2) "4.IH" by (fastforce simp: results_Inr intro: synth_Pair)
  next
    case (Refl t)
    then show ?thesis using rule "4.prems"(2) by (auto intro: synth_Refl)
  next
    case (PrimRealizes relation src dst)
    then show ?thesis using rule "4.prems"(2) by (auto simp: results_Inr intro: synth_Prim)
  qed (use rule "4.prems"(2) "4.IH" in \<open>simp_all\<close>)
next
  case (5 blake3 st g e motive sub)
  then show ?case
    by (auto simp: infer_subst.simps[of blake3 st] results_Inr intro: synth_Subst)
next
  case (6 blake3 st g scrut ov pv body)
  then show ?case
    by (auto simp: infer_unpack.simps[of blake3 st] results_Inr Let_def split: if_split_asm intro: synth_Unpack)
next
  case (7 blake3 st g rl pr motive sub)
  then show ?case
    by (auto simp: infer_pres.simps[of blake3 st] results_Inr) (metis synth_Pres)
next
  case (8 blake3 st g l r)
  show ?case
  proof (cases "comp_parts r")
    case None
    then show ?thesis using 8
      by (fastforce simp: infer_realizes_comp.simps[of blake3 st] results_Inr split: if_split_asm intro: synth_Comp)
  next
    case (Some x)
    then obtain nl nr where x: "x = (nl, nr)" "r = RealizesComp nl nr" by (cases x) (auto simp: comp_parts_Some)
    show ?thesis using 8 Some x(1)
      by (fastforce simp: infer_realizes_comp.simps[of blake3 st] results_Inr x(2) intro: synth_Comp)
  qed
next
  case (9 blake3 st g ws y cl cr dt)
  from "9.prems" obtain v st1 g_l y' st2 where t: "step st = Inr v" "enter_depth v = Inr st1"
    and l: "infer_type blake3 st1 g cl = Inr (Realizes g_l y y', st2)"
    and k: "(case comp_parts cr of
       Some (nl, nr) \<Rightarrow> comp_loop blake3 st2 g (ws @ [g_l]) y' nl nr (dt + 1)
     | None \<Rightarrow>
         and_then (infer_type blake3 st2 g cr) (\<lambda>(rt, st).
         and_then (expect_realizes ''Realizes(g, y, z)'' rt) (\<lambda>(g_r, ys, z).
         if y' \<noteq> ys then Inl (endpoint ''Middle endpoint matching '' y' ys)
         else Inr ((g_r, z, ws @ [g_l]), leave_depth st (dt + 1))))) = Inr ((gf, z, ws'), s)"
    by (auto simp: comp_loop.simps[of blake3 st] and_then_Inr expect_Inr split: if_split_asm)
  have tick: "tick st st1" using t by (rule tickI)
  have dl: "synth blake3 g cl (Realizes g_l y y') st1 st2" using "9.IH"(1)[OF t l] .
  show ?case
  proof (cases "comp_parts cr")
    case None
    obtain st3 where r: "infer_type blake3 st2 g cr = Inr (Realizes gf y' z, st3)" "ws' = ws @ [g_l]"
      "s = leave_depth (untick st3) dt"
      using k None by (auto simp: and_then_Inr expect_Inr leave_Suc split: if_split_asm)
    have "synth blake3 g cr (Realizes gf y' z) st2 st3"
      using "9.IH"(2)[OF t l refl _ refl refl _ None r(1)] by (simp add: expect_realizes_def)
    then show ?thesis using synth_Comp[OF tick dl] r by fastforce
  next
    case (Some x)
    then obtain nl nr where x: "x = (nl, nr)" "cr = RealizesComp nl nr" by (cases x) (auto simp: comp_parts_Some)
    have "comp_loop blake3 st2 g (ws @ [g_l]) y' nl nr (dt + 1) = Inr ((gf, z, ws'), s)"
      using k Some x by simp
    then obtain W s2 where W: "synth blake3 g cr (Realizes W y' z) st2 s2" "s = leave_depth (untick s2) dt"
      "foldl (\<lambda>acc w. Compose acc w) gf (rev ws') = foldl (\<lambda>acc w. Compose acc w) W (rev (ws @ [g_l]))"
      using "9.IH"(3)[OF t l refl _ refl refl _ Some x(1)[symmetric]] x
      by (fastforce simp: expect_realizes_def leave_Suc)
    have "synth blake3 g (RealizesComp cl cr) (Realizes (Compose W g_l) y z) st (untick s2)"
      by (rule synth_Comp[OF tick dl W(1)])
    then show ?thesis using W(2,3) by fastforce
  qed
next
  case (10 blake3 st g l r)
  then show ?case
    by (fastforce simp: infer_realizes_tensor.simps[of blake3 st] results_Inr intro: synth_Tensor)
qed

section \<open>Every derivation is found\<close>

text \<open>The spine loop of compositions agrees with the recursive rule.\<close>

definition comp_found :: "(bytes \<Rightarrow> bytes) \<Rightarrow> gamma \<Rightarrow> term_kind \<Rightarrow> kprop \<Rightarrow> checker_state \<Rightarrow> checker_state \<Rightarrow> bool" where
  "comp_found blake3 g k p st s \<longleftrightarrow> (\<forall>l r. k = RealizesComp l r \<longrightarrow> (\<exists>w x z. p = Realizes w x z \<and>
     (\<forall>ws dt. \<exists>us gf. comp_loop blake3 st g ws x l r dt = Inr ((gf, z, ws @ us), leave_depth s dt) \<and>
        foldl (\<lambda>acc w. Compose acc w) gf (rev us) = w)))"

lemma comp_found_step:
  assumes t: "tick st st1" and l: "infer_type blake3 st1 g l = Inr (Realizes g1 x y, st2)"
    and r: "infer_type blake3 st2 g r = Inr (Realizes g2 y z, st3)" "comp_found blake3 g r (Realizes g2 y z) st2 st3"
  shows "comp_found blake3 g (RealizesComp l r) (Realizes (Compose g2 g1) x z) st (untick st3)"
    and "infer_realizes_comp blake3 st1 g l r = Inr (Realizes (Compose g2 g1) x z, st3)"
proof -
  have "\<exists>us gf. comp_loop blake3 st g ws x l r dt = Inr ((gf, z, ws @ us), leave_depth (untick st3) dt) \<and>
      foldl (\<lambda>acc w. Compose acc w) gf (rev us) = Compose g2 g1" for ws dt
  proof (cases "comp_parts r")
    case None
    then have "comp_loop blake3 st g ws x l r dt = Inr ((g2, z, ws @ [g1]), leave_depth (untick st3) dt)"
      using t l r(1) by (auto simp: comp_loop.simps[of blake3 st] tick_def step_def enter_depth_def expect_realizes_def leave_Suc)
    then show ?thesis by fastforce
  next
    case (Some c)
    then obtain nl nr where c: "r = RealizesComp nl nr" "c = (nl, nr)" by (cases c) (auto simp: comp_parts_Some)
    then obtain us gf where u: "comp_loop blake3 st2 g (ws @ [g1]) y nl nr (dt + 1) = Inr ((gf, z, (ws @ [g1]) @ us), leave_depth st3 (dt + 1))"
      "foldl (\<lambda>acc w. Compose acc w) gf (rev us) = g2"
      using r(2) unfolding comp_found_def by blast
    then have "comp_loop blake3 st g ws x l r dt = Inr ((gf, z, ws @ g1 # us), leave_depth (untick st3) dt)"
      using t l Some c by (auto simp: comp_loop.simps[of blake3 st] tick_def step_def enter_depth_def expect_realizes_def leave_Suc)
    then show ?thesis using u(2) by fastforce
  qed
  then show "comp_found blake3 g (RealizesComp l r) (Realizes (Compose g2 g1) x z) st (untick st3)"
    by (simp add: comp_found_def)
  show "infer_realizes_comp blake3 st1 g l r = Inr (Realizes (Compose g2 g1) x z, st3)"
  proof (cases "comp_parts r")
    case None
    then show ?thesis using l r(1) by (simp add: infer_realizes_comp.simps[of blake3 st1] expect_realizes_def)
  next
    case (Some c)
    then obtain nl nr where c: "r = RealizesComp nl nr" "c = (nl, nr)" by (cases c) (auto simp: comp_parts_Some)
    then obtain us gf where "comp_loop blake3 st2 g [g1] y nl nr 0 = Inr ((gf, z, [g1] @ us), leave_depth st3 0)"
      "foldl (\<lambda>acc w. Compose acc w) gf (rev us) = g2"
      using r(2) unfolding comp_found_def by blast
    then show ?thesis using l Some c by (simp add: infer_realizes_comp.simps[of blake3 st1] expect_realizes_def)
  qed
qed

lemma infer_type_tick:
  "tick st st1 \<Longrightarrow> infer_rule blake3 st1 g k = Inr (p, st2) \<Longrightarrow> infer_type blake3 st g k = Inr (p, untick st2)"
  by (simp add: infer_type.simps[of blake3 st] tick_def step_def enter_depth_def)

lemma check_loop_tick:
  "tick st st1 \<Longrightarrow> peel_lam k e = None \<Longrightarrow> check_rule blake3 st1 g k e = Inr st2 \<Longrightarrow>
   check_loop blake3 st g k e dt = Inr (leave_depth (untick st2) dt)"
  by (simp add: check_loop.simps[of blake3 st] tick_def step_def enter_depth_def leave_Suc)

lemma check_loop_lam:
  "tick st st1 \<Longrightarrow> check_loop blake3 st g (Lam nm body) (Impl p q) dt = check_loop blake3 st1 ((nm, p) # g) body q (Suc dt)"
  by (simp add: check_loop.simps[of blake3 st] tick_def step_def enter_depth_def peel_lam_def)

lemma expect_eqs [simp]:
  "expect_realizes what (Realizes w x y) = Inr (w, x, y)" "expect_exists (Exists pred) = Inr pred"
  "expect_sum (Sum p q) = Inr (p, q)" "expect_eq (Eq a b) = Inr (a, b)" "expect_impl (Impl p q) = Inr (p, q)"
  "expect_prod (Prod p q) = Inr (p, q)" "\<not> gamma_has g nm \<Longrightarrow> fresh_name g nm = Inr ()"
  by (simp_all add: expect_Inr)

lemma sides_eqs:
  "witness_digest blake3 w = compose blake3 (witness_digest blake3 g2) (witness_digest blake3 g1) \<Longrightarrow>
     check_comp_sides blake3 (g1, x, y) (g2, y, z) w x z = Inr ()"
  "witness_digest blake3 w = tensor blake3 (witness_digest blake3 w1) (witness_digest blake3 w2) \<Longrightarrow>
     check_tensor_sides blake3 (w1, x1, y1) (w2, x2, y2) w (Tensor x1 x2) (Tensor y1 y2) = Inr ()"
  by (simp_all add: sides_Inr)

lemma derivation_found_aux:
  "chk blake3 g k e st s \<Longrightarrow> \<forall>dt. check_loop blake3 st g k e dt = Inr (leave_depth s dt)"
  "synth blake3 g k p st s \<Longrightarrow> infer_type blake3 st g k = Inr (p, s) \<and> comp_found blake3 g k p st s"
proof (induction rule: chk_synth.inducts)
  case (chk_Lam st st1 nm p g body q st2)
  then show ?case by (simp add: check_loop_lam leave_Suc)
next
  case (chk_Unpack st st1 g scrut pred st2 pv x ov e body st3)
  then have "check_rule blake3 st1 g (Unpack scrut ov pv body) e = Inr st3"
    by (simp add: check_rule.simps check_arm_def Let_def)
  then show ?case using chk_Unpack by (simp add: check_loop_tick peel_lam_def)
next
  case (chk_Syn st st1 k e g st2)
  then have "check_rule blake3 st1 g k e = Inr st2" by (simp add: check_rule.simps)
  then show ?case using chk_Syn by (simp add: check_loop_tick)
next
  case (synth_Comp st st1 g l g1 x y st2 r g2 z st3)
  then have "comp_found blake3 g (RealizesComp l r) (Realizes (Compose g2 g1) x z) st (untick st3)"
    "infer_rule blake3 st1 g (RealizesComp l r) = Inr (Realizes (Compose g2 g1) x z, st3)"
    using comp_found_step[of st st1 blake3 g l g1 x y st2 r g2 z st3] by (simp_all add: infer_rule.simps)
  then show ?case using synth_Comp(1) infer_type_tick by blast
next
  case (synth_Unpack st st1 g scrut pred st2 pv x ov body p st3)
  then have "infer_rule blake3 st1 g (Unpack scrut ov pv body) = Inr (p, st3)"
    by (simp add: infer_rule.simps infer_unpack.simps Let_def)
  then show ?case using synth_Unpack(1) infer_type_tick by (simp add: comp_found_def)
qed (simp_all add: check_loop_tick peel_lam_def check_rule.simps check_arm_def sides_eqs infer_type_tick infer_rule.simps
      infer_subst.simps infer_pres.simps infer_realizes_tensor.simps comp_found_def)

lemma derivation_found:
  "chk blake3 g k e st s \<Longrightarrow> check_loop blake3 st g k e dt = Inr (leave_depth s dt)"
  "synth blake3 g k p st s \<Longrightarrow> infer_type blake3 st g k = Inr (p, s)"
  using derivation_found_aux by blast+

section \<open>Steps and depth\<close>

fun levels :: "term_kind \<Rightarrow> nat" where
  "levels (Lam _ b) = Suc (levels b)"
| "levels (App f a) = Suc (max (levels f) (levels a))"
| "levels (PairT a b) = Suc (max (levels a) (levels b))"
| "levels (Proj1 t) = Suc (levels t)"
| "levels (Proj2 t) = Suc (levels t)"
| "levels (InlT t) = Suc (levels t)"
| "levels (InrT t) = Suc (levels t)"
| "levels (CaseT d _ l _ r) = Suc (max (levels d) (max (levels l) (levels r)))"
| "levels (Subst e _ s) = Suc (max (levels e) (levels s))"
| "levels (Pack _ b) = Suc (levels b)"
| "levels (Unpack s _ _ b) = Suc (max (levels s) (levels b))"
| "levels (Pres r p _ s) = Suc (max (levels r) (max (levels p) (levels s)))"
| "levels (RealizesComp l r) = Suc (max (levels l) (levels r))"
| "levels (RealizesTensor l r) = Suc (max (levels l) (levels r))"
| "levels _ = 1"

lemma tick_state: "tick st st1 \<Longrightarrow> steps st = Suc (steps st1) \<and> depth st = Suc (depth st1)"
  by (simp add: tick_def)

lemma untick_state [simp]: "steps (untick st) = steps st" "depth (untick st) = Suc (depth st)"
  by (simp_all add: untick_def leave_depth_def)

lemma derivation_state:
  "chk blake3 g k e st s \<Longrightarrow> depth s = depth st \<and> steps s + nodes k \<le> steps st \<and> steps st \<le> steps s + 2 * nodes k \<and>
     levels k \<le> depth st"
  "synth blake3 g k p st s \<Longrightarrow> depth s = depth st \<and> steps s + nodes k \<le> steps st \<and> steps st < steps s + 2 * nodes k \<and>
     levels k \<le> depth st"
  by (induction rule: chk_synth.inducts) (auto dest!: tick_state)

section \<open>What the checks report\<close>

text \<open>Only \<open>step\<close> and \<open>enter_depth\<close> report exhaustion, and no failure is an acceptance.\<close>

lemma no_exhaust [simp]:
  "expect_realizes n p \<noteq> Inl (ResourceExhausted r)" "expect_exists p \<noteq> Inl (ResourceExhausted r)"
  "expect_sum p \<noteq> Inl (ResourceExhausted r)" "expect_eq p \<noteq> Inl (ResourceExhausted r)"
  "expect_impl p \<noteq> Inl (ResourceExhausted r)" "expect_prod p \<noteq> Inl (ResourceExhausted r)"
  "fresh_name g nm \<noteq> Inl (ResourceExhausted r)" "lookup_hyp g v \<noteq> Inl (ResourceExhausted r)"
  "check_comp_sides b left right w x z \<noteq> Inl (ResourceExhausted r)"
  "check_tensor_sides b left right w x z \<noteq> Inl (ResourceExhausted r)"
  "infer_prim_realizes b relation src dst \<noteq> Inl (ResourceExhausted r)"
  by (auto simp: expect_realizes_def expect_exists_def expect_sum_def expect_eq_def expect_impl_def expect_prod_def
      mismatch_def fresh_name_def ensure_def lookup_hyp_def check_comp_sides_def check_tensor_sides_def endpoint_def
      infer_prim_realizes_def split: kprop.split var.split option.split object_term.split prod.split)

lemma no_accept [simp]:
  "step st \<noteq> Inl (Accepted c)" "enter_depth st \<noteq> Inl (Accepted c)" "escape \<noteq> Accepted c" "endpoint n t u \<noteq> Accepted c"
  "expect_realizes n p \<noteq> Inl (Accepted c)" "expect_exists p \<noteq> Inl (Accepted c)"
  "expect_sum p \<noteq> Inl (Accepted c)" "expect_eq p \<noteq> Inl (Accepted c)"
  "expect_impl p \<noteq> Inl (Accepted c)" "expect_prod p \<noteq> Inl (Accepted c)"
  "fresh_name g nm \<noteq> Inl (Accepted c)" "lookup_hyp g v \<noteq> Inl (Accepted c)"
  "check_comp_sides b left right w x z \<noteq> Inl (Accepted c)"
  "check_tensor_sides b left right w x z \<noteq> Inl (Accepted c)"
  "infer_prim_realizes b relation src dst \<noteq> Inl (Accepted c)"
  by (auto simp: step_def enter_depth_def escape_def
      expect_realizes_def expect_exists_def expect_sum_def expect_eq_def expect_impl_def expect_prod_def
      mismatch_def fresh_name_def ensure_def lookup_hyp_def check_comp_sides_def check_tensor_sides_def endpoint_def
      infer_prim_realizes_def split: kprop.split var.split option.split object_term.split prod.split)

lemma no_accepted_error:
  "check_loop blake3 st g k e dt \<noteq> Inl (Accepted c)"
  "check_rule blake3 st g k e \<noteq> Inl (Accepted c)"
  "infer_type blake3 st g k \<noteq> Inl (Accepted c)"
  "infer_rule blake3 st g k \<noteq> Inl (Accepted c)"
  "infer_subst blake3 st g eq motive sub \<noteq> Inl (Accepted c)"
  "infer_unpack blake3 st g scrut ov pv body \<noteq> Inl (Accepted c)"
  "infer_pres blake3 st g rl pr motive sub \<noteq> Inl (Accepted c)"
  "infer_realizes_comp blake3 st g l r \<noteq> Inl (Accepted c)"
  "comp_loop blake3 st g ws y cl cr dt \<noteq> Inl (Accepted c)"
  "infer_realizes_tensor blake3 st g l r \<noteq> Inl (Accepted c)"
proof (induction blake3 st g k e dt and blake3 st g k e and blake3 st g k and blake3 st g k
    and blake3 st g eq motive sub and blake3 st g scrut ov pv body and blake3 st g rl pr motive sub
    and blake3 st g l r and blake3 st g ws y cl cr dt and blake3 st g l r
    rule: check_loop_check_rule_infer_type_infer_rule_infer_subst_infer_unpack_infer_pres_infer_realizes_comp_comp_loop_infer_realizes_tensor.induct)
  case (1 blake3 st g k e dt)
  then show ?case by (auto simp: check_loop.simps[of blake3 st] and_then_Inl split: option.splits)
next
  case (2 blake3 st g k e)
  then show ?case
    by (cases "check_arm k e") (fastforce simp: check_rule.simps[of blake3 st] and_then_Inl Let_def split: if_split_asm)+
next
  case (3 blake3 st g k)
  then show ?case by (auto simp: infer_type.simps[of blake3 st] and_then_Inl)
next
  case (4 blake3 st g k)
  then show ?case by (cases k) (fastforce simp: infer_rule.simps[of blake3 st] and_then_Inl)+
next
  case (5 blake3 st g e motive sub)
  then show ?case by (auto simp: infer_subst.simps[of blake3 st] and_then_Inl)
next
  case (6 blake3 st g scrut ov pv body)
  then show ?case by (auto simp: infer_unpack.simps[of blake3 st] and_then_Inl Let_def split: if_split_asm)
next
  case (7 blake3 st g rl pr motive sub)
  then show ?case by (auto simp: infer_pres.simps[of blake3 st] and_then_Inl)
next
  case (8 blake3 st g l r)
  then show ?case
    by (fastforce simp: infer_realizes_comp.simps[of blake3 st] and_then_Inl split: option.splits if_split_asm)
next
  case (9 blake3 st g ws y cl cr dt)
  then show ?case
    by (fastforce simp: comp_loop.simps[of blake3 st] and_then_Inl split: option.splits if_split_asm)
next
  case (10 blake3 st g l r)
  then show ?case by (auto simp: infer_realizes_tensor.simps[of blake3 st] and_then_Inl) blast
qed

text \<open>Acceptance is the existence of a derivation.\<close>

lemma check_type_iff: "check_type blake3 st g k e = Inr st' \<longleftrightarrow> chk blake3 g k e st st'"
proof
  assume "check_type blake3 st g k e = Inr st'"
  then show "chk blake3 g k e st st'" using check_derivable(1)[of blake3 st g k e 0 st'] by (simp add: check_type_def)
next
  assume "chk blake3 g k e st st'"
  then show "check_type blake3 st g k e = Inr st'" using derivation_found(1) by (simp add: check_type_def)
qed

lemma infer_type_iff: "infer_type blake3 st g k = Inr (p, st') \<longleftrightarrow> synth blake3 g k p st st'"
  using check_derivable(3) derivation_found(2) by blast

lemma acceptance_iff:
  "acceptance blake3 ctx p t b = Accepted c \<longleftrightarrow> tcontext t = ctx \<and>
     (\<exists>st'. chk blake3 [] (tkind t) p \<lparr>steps = max_steps b, depth = max_depth b\<rparr> st') \<and>
     c = \<lparr>cverifier = native_verifier blake3,
          ccertificate_id = certificate_id_v1 blake3 \<lparr>mcontext = ctx, mproposition = p, mterm = t\<rparr>\<rparr>"
proof -
  have "check_type blake3 s [] k p \<noteq> Inl (Accepted c)" for s k
    using no_accepted_error(1) by (simp add: check_type_def)
  then show ?thesis
    by (auto simp: acceptance_def check_type_iff[symmetric] split: sum.splits)
qed

section \<open>Sufficient budgets\<close>

lemma check_used: "check_loop blake3 st g k e 0 = Inr s \<Longrightarrow> depth s = depth st \<and> steps st \<le> steps s + 2 * nodes k"
  using check_derivable(1) derivation_state(1) by fastforce

lemma infer_used: "infer_type blake3 st g k = Inr (p, s) \<Longrightarrow> depth s = depth st \<and> steps st < steps s + 2 * nodes k"
  using check_derivable(3) derivation_state(2) by blast

lemma step_enter:
  "0 < steps st \<Longrightarrow> 0 < depth st \<Longrightarrow> and_then (step st) (\<lambda>st. and_then (enter_depth st) F)
     = F (st\<lparr>steps := steps st - 1, depth := depth st - 1\<rparr>)"
  by (simp add: step_def enter_depth_def)

lemma step_enter_eqs:
  "0 < steps st \<Longrightarrow> step st = Inr (st\<lparr>steps := steps st - 1\<rparr>)"
  "0 < depth st \<Longrightarrow> enter_depth (st\<lparr>steps := n\<rparr>) = Inr (st\<lparr>steps := n, depth := depth st - 1\<rparr>)"
  by (simp_all add: step_def enter_depth_def)

lemma levels_pos [simp]: "0 < levels k"
  by (cases k) simp_all

text \<open>How an exhausted computation is taken apart.\<close>

lemma exhausted_infer:
  "and_then (infer_type blake3 st g k) F = Inl e \<Longrightarrow> (infer_type blake3 st g k = Inl e \<Longrightarrow> R) \<Longrightarrow>
   (\<And>p s. infer_type blake3 st g k = Inr (p, s) \<Longrightarrow> depth s = depth st \<Longrightarrow> steps st < steps s + 2 * nodes k \<Longrightarrow>
      F (p, s) = Inl e \<Longrightarrow> R) \<Longrightarrow> R"
  using infer_used by (cases "infer_type blake3 st g k") auto

lemma exhausted_check:
  "and_then (check_loop blake3 st g k p 0) F = Inl e \<Longrightarrow> (check_loop blake3 st g k p 0 = Inl e \<Longrightarrow> R) \<Longrightarrow>
   (\<And>s. check_loop blake3 st g k p 0 = Inr s \<Longrightarrow> depth s = depth st \<Longrightarrow> steps st \<le> steps s + 2 * nodes k \<Longrightarrow>
      F s = Inl e \<Longrightarrow> R) \<Longrightarrow> R"
  using check_used by (cases "check_loop blake3 st g k p 0") auto

lemmas exhausted_pure =
  and_then_Inl[of "expect_exists p" for p] and_then_Inl[of "expect_sum p" for p] and_then_Inl[of "expect_eq p" for p]
  and_then_Inl[of "expect_impl p" for p] and_then_Inl[of "expect_prod p" for p] and_then_Inl[of "expect_realizes n p" for n p]
  and_then_Inl[of "fresh_name g n" for g n] and_then_Inl[of "check_comp_sides b l r w x z" for b l r w x z]
  and_then_Inl[of "check_tensor_sides b l r w x z" for b l r w x z] and_then_Inl[of "lookup_hyp g v" for g v]
  and_then_Inl[of "infer_prim_realizes b r x y" for b r x y]

lemma max_room:
  "Suc (Suc (max (a::nat) b)) \<le> c \<longleftrightarrow> Suc (Suc a) \<le> c \<and> Suc (Suc b) \<le> c"
  "Suc (Suc (max (a::nat) b)) < c \<longleftrightarrow> Suc (Suc a) < c \<and> Suc (Suc b) < c"
  "Suc (max (a::nat) b) < c \<longleftrightarrow> Suc a < c \<and> Suc b < c"
  by auto

lemmas room = nat_mult_max_right Suc_le_eq max_room

lemma sufficient_budget:
  "2 * nodes k \<le> steps st \<Longrightarrow> 2 * levels k \<le> depth st \<Longrightarrow> check_loop blake3 st g k e dt \<noteq> Inl (ResourceExhausted r)"
  "2 * nodes k \<le> Suc (steps st) \<Longrightarrow> 2 * levels k \<le> Suc (depth st) \<Longrightarrow> check_rule blake3 st g k e \<noteq> Inl (ResourceExhausted r)"
  "2 * nodes k \<le> Suc (steps st) \<Longrightarrow> 2 * levels k \<le> Suc (depth st) \<Longrightarrow> infer_type blake3 st g k \<noteq> Inl (ResourceExhausted r)"
  "2 * nodes k \<le> steps st + 2 \<Longrightarrow> 2 * levels k \<le> depth st + 2 \<Longrightarrow> infer_rule blake3 st g k \<noteq> Inl (ResourceExhausted r)"
  "2 * (nodes eq + nodes sub) \<le> steps st \<Longrightarrow> 2 * max (levels eq) (levels sub) \<le> depth st \<Longrightarrow>
     infer_subst blake3 st g eq motive sub \<noteq> Inl (ResourceExhausted r)"
  "2 * (nodes scrut + nodes body) \<le> steps st \<Longrightarrow> 2 * max (levels scrut) (levels body) \<le> depth st \<Longrightarrow>
     infer_unpack blake3 st g scrut ov pv body \<noteq> Inl (ResourceExhausted r)"
  "2 * (nodes rl + nodes pr + nodes sub) \<le> steps st \<Longrightarrow> 2 * max (levels rl) (max (levels pr) (levels sub)) \<le> depth st \<Longrightarrow>
     infer_pres blake3 st g rl pr motive sub \<noteq> Inl (ResourceExhausted r)"
  "2 * (nodes l + nodes r') \<le> steps st \<Longrightarrow> 2 * max (levels l) (levels r') \<le> depth st \<Longrightarrow>
     infer_realizes_comp blake3 st g l r' \<noteq> Inl (ResourceExhausted r)"
  "2 * (nodes cl + nodes cr) < steps st \<Longrightarrow> 2 * max (levels cl) (levels cr) < depth st \<Longrightarrow>
     comp_loop blake3 st g ws y cl cr dt \<noteq> Inl (ResourceExhausted r)"
  "2 * (nodes l + nodes r') \<le> steps st \<Longrightarrow> 2 * max (levels l) (levels r') \<le> depth st \<Longrightarrow>
     infer_realizes_tensor blake3 st g l r' \<noteq> Inl (ResourceExhausted r)"
proof (induction blake3 st g k e dt and blake3 st g k e and blake3 st g k and blake3 st g k
    and blake3 st g eq motive sub and blake3 st g scrut ov pv body and blake3 st g rl pr motive sub
    and blake3 st g l r' and blake3 st g ws y cl cr dt and blake3 st g l r'
    rule: check_loop_check_rule_infer_type_infer_rule_infer_subst_infer_unpack_infer_pres_infer_realizes_comp_comp_loop_infer_realizes_tensor.induct)
  case (1 blake3 st g k e dt)
  have pos: "0 < steps st" "0 < depth st" using "1.prems" nodes_pos[of k] levels_pos[of k] by linarith+
  show ?case
    using "1.prems" "1.IH"[OF step_enter_eqs(1)[OF pos(1)] step_enter_eqs(2)[OF pos(2)]]
    by (cases "peel_lam k e") (auto simp: check_loop.simps[of blake3 st] step_enter[OF pos] and_then_Inl peel_lam_Some)
next
  case (2 blake3 st g k e)
  show ?case
  proof (cases "check_arm k e")
    case (ArmPack w bd pred)
    then have ke: "k = Pack w bd" by (simp add: check_arm_simps)
    show ?thesis using "2.prems" "2.IH"(1)[OF ArmPack]
      by (simp add: check_rule.simps[of blake3 st] ArmPack) (simp add: ke)
  next
    case (ArmUnpack scrut ov pv body)
    then have ke: "k = Unpack scrut ov pv body" by (simp add: check_arm_simps)
    show ?thesis using "2.prems" "2.IH"(2)[OF ArmUnpack] "2.IH"(3)[OF ArmUnpack]
      by (simp add: check_rule.simps[of blake3 st] ArmUnpack) (fastforce simp: ke room exhausted_pure Let_def escape_def split: if_split_asm elim!: exhausted_infer exhausted_check)
  next
    case (ArmPair a b p q)
    then have ke: "k = PairT a b" by (simp add: check_arm_simps)
    show ?thesis using "2.prems" "2.IH"(4)[OF ArmPair] "2.IH"(5)[OF ArmPair]
      by (simp add: check_rule.simps[of blake3 st] ArmPair) (fastforce simp: ke room exhausted_pure Let_def escape_def split: if_split_asm elim!: exhausted_infer exhausted_check)
  next
    case (ArmInl t p)
    then have ke: "k = InlT t" by (simp add: check_arm_simps)
    show ?thesis using "2.prems" "2.IH"(6)[OF ArmInl]
      by (simp add: check_rule.simps[of blake3 st] ArmInl) (simp add: ke)
  next
    case (ArmInr t q)
    then have ke: "k = InrT t" by (simp add: check_arm_simps)
    show ?thesis using "2.prems" "2.IH"(7)[OF ArmInr]
      by (simp add: check_rule.simps[of blake3 st] ArmInr) (simp add: ke)
  next
    case (ArmCase d lv l rv r')
    then have ke: "k = CaseT d lv l rv r'" by (simp add: check_arm_simps)
    show ?thesis using "2.prems" "2.IH"(8)[OF ArmCase] "2.IH"(9)[OF ArmCase] "2.IH"(10)[OF ArmCase]
      by (simp add: check_rule.simps[of blake3 st] ArmCase) (fastforce simp: ke room exhausted_pure Let_def escape_def split: if_split_asm elim!: exhausted_infer exhausted_check)
  next
    case (ArmComp l r' w x z)
    then have ke: "k = RealizesComp l r'" by (simp add: check_arm_simps)
    show ?thesis using "2.prems" "2.IH"(11)[OF ArmComp] "2.IH"(12)[OF ArmComp]
      by (simp add: check_rule.simps[of blake3 st] ArmComp) (fastforce simp: ke room exhausted_pure Let_def escape_def split: if_split_asm elim!: exhausted_infer exhausted_check)
  next
    case (ArmTensor l r' w x z)
    then have ke: "k = RealizesTensor l r'" by (simp add: check_arm_simps)
    show ?thesis using "2.prems" "2.IH"(13)[OF ArmTensor] "2.IH"(14)[OF ArmTensor]
      by (simp add: check_rule.simps[of blake3 st] ArmTensor) (fastforce simp: ke room exhausted_pure Let_def escape_def split: if_split_asm elim!: exhausted_infer exhausted_check)
  next
    case ArmSynthesis
    then show ?thesis using "2.prems" "2.IH"(15)[OF ArmSynthesis]
      by (auto simp: check_rule.simps[of blake3 st] and_then_Inl)
  qed (simp_all add: check_rule.simps[of blake3 st])
next
  case (3 blake3 st g k)
  have pos: "0 < steps st" "0 < depth st" using "3.prems" nodes_pos[of k] levels_pos[of k] by linarith+
  show ?case
    using "3.prems" "3.IH"[OF step_enter_eqs(1)[OF pos(1)] step_enter_eqs(2)[OF pos(2)]]
    by (auto simp: infer_type.simps[of blake3 st] step_enter[OF pos] and_then_Inl)
next
  case (4 blake3 st g k)
  show ?case using "4.prems" "4.IH"
    by (cases k) (auto simp: infer_rule.simps[of blake3 st] room exhausted_pure elim!: exhausted_infer exhausted_check)
next
  case (5 blake3 st g e motive sub)
  then show ?case
    by (fastforce simp: infer_subst.simps[of blake3 st] room exhausted_pure elim!: exhausted_infer exhausted_check)
next
  case (6 blake3 st g scrut ov pv body)
  then show ?case
    by (fastforce simp: infer_unpack.simps[of blake3 st] room exhausted_pure Let_def escape_def
        split: if_split_asm elim!: exhausted_infer)
next
  case (7 blake3 st g rl pr motive sub)
  then show ?case
    by (fastforce simp: infer_pres.simps[of blake3 st] room exhausted_pure elim!: exhausted_infer exhausted_check)
next
  case (8 blake3 st g l r')
  then show ?case
    by (fastforce simp: infer_realizes_comp.simps[of blake3 st] room exhausted_pure comp_parts_Some endpoint_def and_then_Inl[of "comp_loop b s g ws y l r d" for b s g ws y l r d]
        split: option.split_asm if_split_asm elim!: exhausted_infer)
next
  case (9 blake3 st g ws y cl cr dt)
  have pos: "0 < steps st" "0 < depth st" using "9.prems" by linarith+
  note t = step_enter_eqs(1)[OF pos(1)] step_enter_eqs(2)[OF pos(2)]
  show ?case
    using "9.prems" "9.IH"(1)[OF t] "9.IH"(2)[OF t] "9.IH"(3)[OF t] unfolding comp_loop.simps[of blake3 st] step_enter[OF pos]
    by (fastforce simp: room less_diff_conv exhausted_pure comp_parts_Some endpoint_def
        split: option.split_asm if_split_asm elim!: exhausted_infer)
next
  case (10 blake3 st g l r')
  then show ?case
    by (fastforce simp: infer_realizes_tensor.simps[of blake3 st] room exhausted_pure elim!: exhausted_infer)
qed

section \<open>Properties\<close>

text \<open>
  C2. The checker decides the rules: \<open>check_type\<close> succeeds from a state precisely when the
  checking judgement is derivable from that state, and \<open>infer_type\<close> returns a proposition
  precisely when it is the synthesised one, with the same remaining steps and depth; so the two
  spine loops accept nothing that the node-by-node rules do not, and the other way round.
\<close>

theorem checker_decides_rules:
  "(check_type blake3 st g k e = Inr st' \<longleftrightarrow> chk blake3 g k e st st') \<and>
   (infer_type blake3 st g k = Inr (p, st') \<longleftrightarrow> synth blake3 g k p st st')"
  using check_type_iff infer_type_iff by blast

text \<open>
  C1. A verdict is \<open>Accepted\<close> precisely when the term carries the requested context and has a
  derivation of the proposition from no hypotheses within the budget; the certificate is the native
  verifier's, with the identity of precisely that context, proposition and term. Only such a verdict
  has the outcome \<open>Proven\<close>.
\<close>

theorem acceptance_exact:
  "(acceptance blake3 ctx p t b = Accepted c \<longleftrightarrow> tcontext t = ctx \<and>
     (\<exists>st'. chk blake3 [] (tkind t) p \<lparr>steps = max_steps b, depth = max_depth b\<rparr> st') \<and>
     c = \<lparr>cverifier = native_verifier blake3,
          ccertificate_id = certificate_id_v1 blake3 \<lparr>mcontext = ctx, mproposition = p, mterm = t\<rparr>\<rparr>) \<and>
   (verdict_outcome (acceptance blake3 ctx p t b) = Some Proven \<longleftrightarrow> (\<exists>c. acceptance blake3 ctx p t b = Accepted c))"
proof (rule conjI[OF acceptance_iff])
  show "verdict_outcome (acceptance blake3 ctx p t b) = Some Proven \<longleftrightarrow> (\<exists>c. acceptance blake3 ctx p t b = Accepted c)"
    by (cases "acceptance blake3 ctx p t b") simp_all
qed

text \<open>
  An accepted term was looked at in full: each of its nodes took at least one step and at most
  two, each of its levels at least one unit of depth, and checking gives back all the depth it took.
\<close>

theorem accepted_resources:
  assumes "check_type blake3 st g k e = Inr st'"
  shows "depth st' = depth st \<and> steps st' + nodes k \<le> steps st \<and> steps st \<le> steps st' + 2 * nodes k \<and> levels k \<le> depth st"
  using derivation_state(1) assms by (simp add: check_type_iff)

text \<open>
  A budget of two steps for each node and two units of depth for each level decides every term:
  the verdict is never \<open>ResourceExhausted\<close>, whatever the proposition is.
\<close>

theorem budget_decides:
  assumes "2 * nodes (tkind t) \<le> max_steps b" and "2 * levels (tkind t) \<le> max_depth b"
  shows "acceptance blake3 ctx p t b \<noteq> ResourceExhausted r"
  using sufficient_budget(1)[of "tkind t" "\<lparr>steps = max_steps b, depth = max_depth b\<rparr>" blake3 "[]" p 0 r] assms
  by (auto simp: acceptance_def check_type_def split: sum.splits)

theorem accepted_resources_witness:
  "check_type (\<lambda>_. replicate 32 0) \<lparr>steps = 5, depth = 4\<rparr> [] (Lam None (Hyp (Index 0))) (Impl (Atom []) (Atom []))
     = Inr \<lparr>steps = 2, depth = 4\<rparr> \<and>
   depth \<lparr>steps = 2, depth = 4\<rparr> = depth \<lparr>steps = 5, depth = 4\<rparr> \<and>
   2 + nodes (Lam None (Hyp (Index 0))) \<le> 5 \<and> 5 \<le> 2 + 2 * nodes (Lam None (Hyp (Index 0))) \<and>
   levels (Lam None (Hyp (Index 0))) \<le> 4"
proof -
  have c: "check_type (\<lambda>_. replicate 32 0) \<lparr>steps = 5, depth = 4\<rparr> [] (Lam None (Hyp (Index 0))) (Impl (Atom []) (Atom []))
     = Inr \<lparr>steps = 2, depth = 4\<rparr>"
    by (simp add: check_type_def check_loop.simps check_rule.simps infer_type.simps infer_rule.simps step_def enter_depth_def
        leave_depth_def peel_lam_def check_arm_def lookup_hyp_def)
  show ?thesis using c accepted_resources[OF c] by simp
qed

theorem budget_decides_witness:
  "acceptance (\<lambda>_. replicate 32 0) [] (Atom []) \<lparr>tcontext = [], tkind = Lam None (Hyp (Index 0))\<rparr>
     \<lparr>max_steps = 4, max_depth = 4\<rparr> \<noteq> ResourceExhausted StepLimitExceeded"
  by (rule budget_decides) simp_all

end
