(* ===== verification/Ordered_Map.thy ===== *)
theory Ordered_Map
  imports Prelude
begin

text \<open>
  The standard library's \<open>BTreeMap\<close> as the sources use it: the list of its entries, strictly
  increasing in the keys. The interface \<open>ordered_map\<close> lists what the clients rely on; its
  lemmas are the two cancellation laws an undo log needs and extensionality.
\<close>

fun bt_insert :: "'k :: linorder \<Rightarrow> 'v \<Rightarrow> ('k \<times> 'v) list \<Rightarrow> ('k \<times> 'v) list" where
  "bt_insert k v [] = [(k, v)]"
| "bt_insert k v ((h, u) # m) =
     (if k < h then (k, v) # (h, u) # m else if k = h then (k, v) # m else (h, u) # bt_insert k v m)"

definition bt_remove :: "'k :: linorder \<Rightarrow> ('k \<times> 'v) list \<Rightarrow> ('k \<times> 'v) list" where
  "bt_remove k m = filter (\<lambda>e. fst e \<noteq> k) m"

definition bt_get :: "('k :: linorder \<times> 'v) list \<Rightarrow> 'k \<Rightarrow> 'v option" where
  "bt_get m k = map_of m k"

definition bt_wf :: "('k :: linorder \<times> 'v) list \<Rightarrow> bool" where
  "bt_wf m \<longleftrightarrow> sorted_wrt (<) (map fst m)"

fun bt_pop_first :: "('k \<times> 'v) list \<Rightarrow> (('k \<times> 'v) \<times> ('k \<times> 'v) list) option" where
  "bt_pop_first [] = None"
| "bt_pop_first (e # m) = Some (e, m)"

section \<open>The interface\<close>

locale ordered_map =
  fixes get :: "'m \<Rightarrow> 'k \<Rightarrow> 'v option"
    and ins :: "'k \<Rightarrow> 'v \<Rightarrow> 'm \<Rightarrow> 'm"
    and del :: "'k \<Rightarrow> 'm \<Rightarrow> 'm"
    and ok :: "'m \<Rightarrow> bool"
  assumes ok_ins: "ok m \<Longrightarrow> ok (ins k v m)"
    and ok_del: "ok m \<Longrightarrow> ok (del k m)"
    and get_ins: "ok m \<Longrightarrow> get (ins k v m) = (get m)(k \<mapsto> v)"
    and get_del: "ok m \<Longrightarrow> get (del k m) = (get m)(k := None)"
    and get_ext: "ok m \<Longrightarrow> ok m' \<Longrightarrow> get m = get m' \<Longrightarrow> m = m'"
begin

lemma del_ins: "ok m \<Longrightarrow> get m k = None \<Longrightarrow> del k (ins k v m) = m"
  by (rule get_ext) (simp_all add: ok_ins ok_del get_ins get_del fun_upd_idem)

lemma ins_del: "ok m \<Longrightarrow> get m k = Some v \<Longrightarrow> ins k v (del k m) = m"
  by (rule get_ext) (simp_all add: ok_ins ok_del get_ins get_del fun_upd_idem)

lemma ins_same: "ok m \<Longrightarrow> get m k = Some v \<Longrightarrow> ins k v m = m"
  by (rule get_ext) (simp_all add: ok_ins get_ins fun_upd_idem)

end

section \<open>The entry list implements it\<close>

lemma map_of_bt_insert: "map_of (bt_insert k v m) = (map_of m)(k \<mapsto> v)"
  by (induction k v m rule: bt_insert.induct) (auto simp: fun_eq_iff)

lemma keys_bt_insert: "fst ` set (bt_insert k v m) = insert k (fst ` set m)"
  by (induction k v m rule: bt_insert.induct) auto

lemma bt_wf_Nil [simp]: "bt_wf []"
  by (simp add: bt_wf_def)

lemma bt_wf_Cons: "bt_wf ((k, v) # m) \<longleftrightarrow> (\<forall>h \<in> fst ` set m. k < h) \<and> bt_wf m"
  by (simp add: bt_wf_def)

lemma bt_wf_insert: "bt_wf m \<Longrightarrow> bt_wf (bt_insert k v m)"
proof (induction k v m rule: bt_insert.induct)
  case (2 k v h u m)
  then show ?case by (auto simp: bt_wf_Cons keys_bt_insert)
qed (simp add: bt_wf_Cons)

lemma bt_wf_remove: "bt_wf m \<Longrightarrow> bt_wf (bt_remove k m)"
  by (simp add: bt_wf_def bt_remove_def sorted_wrt_map sorted_wrt_filter)

lemma map_of_bt_remove: "map_of (bt_remove k m) = (map_of m)(k := None)"
  by (induction m) (auto simp: bt_remove_def fun_eq_iff)

lemma bt_wf_distinct: "bt_wf m \<Longrightarrow> distinct (map fst m)"
  by (simp add: bt_wf_def strict_sorted_iff)

lemma bt_ext:
  assumes "bt_wf m" "bt_wf m'" "map_of m = map_of m'"
  shows "m = m'"
proof -
  have "set m = set m'" using assms bt_wf_distinct map_of_inject_set by blast
  then show ?thesis using assms(1,2) bt_wf_distinct[OF assms(1)] bt_wf_distinct[OF assms(2)]
    by (intro map_sorted_distinct_set_unique[where f = fst]) (simp_all add: bt_wf_def strict_sorted_iff distinct_map)
qed

interpretation bt: ordered_map bt_get bt_insert bt_remove bt_wf
  by unfold_locales
    (simp_all add: bt_wf_insert bt_wf_remove bt_get_def[abs_def] map_of_bt_insert map_of_bt_remove bt_ext)

section \<open>The first entry\<close>

lemma bt_first_least: "bt_wf ((k, v) # m) \<Longrightarrow> bt_get ((k, v) # m) h = Some u \<Longrightarrow> k \<le> h"
  by (auto simp: bt_wf_Cons bt_get_def dest!: map_of_SomeD split: if_splits intro: less_imp_le)

lemma bt_pop_first_spec:
  assumes "bt_wf m" "bt_pop_first m = Some ((k, v), m')"
  shows "bt_get m k = Some v" "m' = bt_remove k m" "bt_get m h = Some u \<Longrightarrow> k \<le> h"
proof -
  from assms(2) have m: "m = (k, v) # m'" by (cases m) simp_all
  then show "bt_get m k = Some v" by (simp add: bt_get_def)
  show "bt_get m h = Some u \<Longrightarrow> k \<le> h" using assms(1) bt_first_least[of k v m'] by (simp add: m)
  have "filter (\<lambda>e. fst e \<noteq> k) m' = m'" using assms(1) by (auto simp: m bt_wf_Cons filter_id_conv)
  then show "m' = bt_remove k m" by (simp add: m bt_remove_def)
qed

lemma bt_pop_first_None: "bt_pop_first m = None \<longleftrightarrow> m = []"
  by (cases m) simp_all

lemma bt_get_Nil [simp]: "bt_get [] k = None"
  by (simp add: bt_get_def)

lemma bt_empty_iff: "m = [] \<longleftrightarrow> bt_get m = Map.empty"
  by (simp add: bt_get_def[abs_def])

end
