(* ===== verification/Settle_Core.thy ===== *)
theory Settle_Core
  imports Ordered_Map Semantic_Ids
begin

text \<open>
  The ground of the settlement engine in \<open>crates/soc-core\<close>: the interner of digests
  (\<open>intern.rs\<close>), the history chain (\<open>history.rs\<close>), execution configurations
  (\<open>exec.rs\<close>), candidates and discovery providers (\<open>witness_provider.rs\<close>), admissibility
  (\<open>adm.rs\<close>), cost records (\<open>cost.rs\<close>) and the reference oracle (\<open>oracle.rs\<close>). A
  provider is its enumeration function, an admissibility judgement a predicate; a
  \<open>BTreeSet\<close> of candidates is a set. Counters of work and of steps are natural numbers: they
  count list elements. Handles keep their 32 bits.
\<close>

section \<open>Interner\<close>

type_synonym handle = "32 word"

record interner =
  by_digest :: "(digest \<times> handle) list"
  by_handle :: "digest list"

definition interner_new :: interner where
  "interner_new = \<lparr>by_digest = [], by_handle = []\<rparr>"

definition intern :: "interner \<Rightarrow> digest \<Rightarrow> handle \<times> interner" where
  "intern it d =
     (case bt_get (by_digest it) d of
        Some h \<Rightarrow> (h, it)
      | None \<Rightarrow>
          let h = word_of_nat (length (by_handle it))
          in (h, it\<lparr>by_handle := by_handle it @ [d], by_digest := bt_insert d h (by_digest it)\<rparr>))"

text \<open>\<open>resolve\<close> is the same read with a panic in place of \<open>None\<close>.\<close>

definition try_resolve :: "interner \<Rightarrow> handle \<Rightarrow> digest option" where
  "try_resolve it h = (if unat h < length (by_handle it) then Some (by_handle it ! unat h) else None)"

section \<open>History\<close>

record history =
  hdigest :: digest
  hlen :: nat

definition history_empty :: "(bytes \<Rightarrow> bytes) \<Rightarrow> history" where
  "history_empty blake3 = \<lparr>hdigest = digest_of blake3 Value [], hlen = 0\<rparr>"

definition history_from_digest :: "digest \<Rightarrow> nat \<Rightarrow> history" where
  "history_from_digest d n = \<lparr>hdigest = d, hlen = n\<rparr>"

definition history_append :: "(bytes \<Rightarrow> bytes) \<Rightarrow> history \<Rightarrow> bytes \<Rightarrow> history" where
  "history_append blake3 h step_bytes =
     \<lparr>hdigest = writer_digest blake3 (write_bytes step_bytes (write_bytes (hdigest h) canon_new)) Value,
      hlen = hlen h + 1\<rparr>"

section \<open>Configurations, candidates, providers\<close>

record exec_config =
  world :: handle
  policy :: handle
  ehistory :: digest

definition intern_context :: "interner \<Rightarrow> context_id \<Rightarrow> handle \<times> interner" where
  "intern_context it c = intern it c"

record candidate =
  cwitness :: handle
  successor :: handle

type_synonym provider = "exec_config \<Rightarrow> candidate list"

section \<open>Admissibility\<close>

type_synonym adm = "exec_config \<Rightarrow> candidate \<Rightarrow> bool"

definition AdmAll :: adm where
  "AdmAll e c = True"

definition AdmNone :: adm where
  "AdmNone e c = False"

definition AdmWitnessAllowlist :: "handle set \<Rightarrow> adm" where
  "AdmWitnessAllowlist allowed e c \<longleftrightarrow> cwitness c \<in> allowed"

definition AdmSuccessorFilter :: "(handle \<Rightarrow> bool) \<Rightarrow> adm" where
  "AdmSuccessorFilter predicate e c \<longleftrightarrow> predicate (successor c)"

definition AndAdm :: "adm \<Rightarrow> adm \<Rightarrow> adm" where
  "AndAdm a b e c \<longleftrightarrow> a e c \<and> b e c"

section \<open>Costs\<close>

datatype cost_record = Steps nat | UnknownCost string

fun work_units :: "cost_record \<Rightarrow> nat option" where
  "work_units (Steps n) = Some n"
| "work_units (UnknownCost _) = None"

section \<open>The reference oracle\<close>

text \<open>The two nested loops, the outer one over the providers.\<close>

fun admit_all :: "adm \<Rightarrow> exec_config \<Rightarrow> candidate list \<Rightarrow> candidate set \<Rightarrow> candidate set" where
  "admit_all adm e [] out = out"
| "admit_all adm e (c # cs) out = admit_all adm e cs (if adm e c then insert c out else out)"

fun cand_loop :: "provider list \<Rightarrow> adm \<Rightarrow> exec_config \<Rightarrow> candidate set \<Rightarrow> candidate set" where
  "cand_loop [] adm e out = out"
| "cand_loop (p # ps) adm e out = cand_loop ps adm e (admit_all adm e (p e) out)"

definition cand :: "provider list \<Rightarrow> adm \<Rightarrow> exec_config \<Rightarrow> candidate set" where
  "cand providers adm e = cand_loop providers adm e {}"

fun admit_counted :: "adm \<Rightarrow> exec_config \<Rightarrow> candidate list \<Rightarrow> candidate set \<Rightarrow> nat \<Rightarrow> candidate set \<times> nat" where
  "admit_counted adm e [] out work = (out, work)"
| "admit_counted adm e (c # cs) out work =
     admit_counted adm e cs (if adm e c then insert c out else out) (work + 1)"

fun cand_counted :: "provider list \<Rightarrow> adm \<Rightarrow> exec_config \<Rightarrow> candidate set \<Rightarrow> nat \<Rightarrow> candidate set \<times> nat" where
  "cand_counted [] adm e out work = (out, work)"
| "cand_counted (p # ps) adm e out work =
     (case admit_counted adm e (p e) out (work + 1) of (out, work) \<Rightarrow> cand_counted ps adm e out work)"

definition cand_instrumented :: "provider list \<Rightarrow> adm \<Rightarrow> exec_config \<Rightarrow> candidate set \<times> cost_record" where
  "cand_instrumented providers adm e =
     (case cand_counted providers adm e {} 0 of (out, work) \<Rightarrow> (out, Steps work))"

text \<open>The field names are ASCII, so the normalisation of identifiers leaves them alone.\<close>

definition canon_write_candidate_step :: "candidate \<Rightarrow> canon_writer \<Rightarrow> canon_writer" where
  "canon_write_candidate_step c w =
     write_record id
       [(''successor'', canon_bytes (write_uint (ucast (successor c)))),
        (''witness'', canon_bytes (write_uint (ucast (cwitness c))))] w"

definition next_history :: "(bytes \<Rightarrow> bytes) \<Rightarrow> exec_config \<Rightarrow> candidate \<Rightarrow> digest" where
  "next_history blake3 e c =
     hdigest (history_append blake3 (history_from_digest (ehistory e) 0) (canon_bytes (canon_write_candidate_step c)))"

definition apply_candidate :: "(bytes \<Rightarrow> bytes) \<Rightarrow> exec_config \<Rightarrow> candidate \<Rightarrow> exec_config" where
  "apply_candidate blake3 e c = \<lparr>world = successor c, policy = policy e, ehistory = next_history blake3 e c\<rparr>"

definition succ_configs :: "(bytes \<Rightarrow> bytes) \<Rightarrow> provider list \<Rightarrow> adm \<Rightarrow> exec_config \<Rightarrow> exec_config set" where
  "succ_configs blake3 providers adm e = apply_candidate blake3 e ` cand providers adm e"

section \<open>The interner keeps digests and handles in correspondence\<close>

definition interner_wf :: "interner \<Rightarrow> bool" where
  "interner_wf it \<longleftrightarrow> bt_wf (by_digest it) \<and> length (by_handle it) \<le> 2 ^ 32 \<and>
     (\<forall>d h. bt_get (by_digest it) d = Some h \<longleftrightarrow> try_resolve it h = Some d)"

lemma interner_wf_new: "interner_wf interner_new"
  by (simp add: interner_wf_def interner_new_def try_resolve_def)

lemma unat_handle: "n < 2 ^ 32 \<Longrightarrow> unat (word_of_nat n :: handle) = n"
  by (simp add: unat_of_nat)

lemma try_resolve_grow:
  assumes "length (by_handle it) < 2 ^ 32"
  shows "try_resolve (it\<lparr>by_handle := by_handle it @ [d], by_digest := m\<rparr>) h =
    (if h = word_of_nat (length (by_handle it)) then Some d else try_resolve it h)"
proof -
  have "h = word_of_nat (length (by_handle it)) \<longleftrightarrow> unat h = length (by_handle it)"
    using assms unat_handle[OF assms] by (metis word_unat_eq_iff)
  then show ?thesis by (auto simp: try_resolve_def nth_append)
qed

lemma intern_ok:
  assumes wf: "interner_wf it" and room: "length (by_handle it) < 2 ^ 32" and i: "intern it d = (h, it')"
  shows "interner_wf it'" "try_resolve it' h = Some d"
    "try_resolve it h' = Some d' \<Longrightarrow> try_resolve it' h' = Some d'" "intern it' d = (h, it')"
proof -
  have "interner_wf it' \<and> try_resolve it' h = Some d \<and> (try_resolve it h' = Some d' \<longrightarrow> try_resolve it' h' = Some d') \<and>
    bt_get (by_digest it') d = Some h"
  proof (cases "bt_get (by_digest it) d")
    case (Some g)
    then show ?thesis using wf i by (auto simp: intern_def interner_wf_def)
  next
    case None
    then have it': "it' = it\<lparr>by_handle := by_handle it @ [d], by_digest := bt_insert d h (by_digest it)\<rparr>"
      and h: "h = word_of_nat (length (by_handle it))"
      using i by (auto simp: intern_def Let_def)
    have r: "try_resolve it' g = (if g = h then Some d else try_resolve it g)" for g
      using try_resolve_grow[OF room] by (simp add: it' h)
    have nh: "try_resolve it h = None" using unat_handle[OF room] by (simp add: try_resolve_def h)
    have nd: "try_resolve it g \<noteq> Some d" for g
    proof -
      have "bt_get (by_digest it) d = Some g \<longleftrightarrow> try_resolve it g = Some d" using wf unfolding interner_wf_def by blast
      then show ?thesis using None by simp
    qed
    have g: "bt_get (by_digest it') = (bt_get (by_digest it))(d \<mapsto> h)"
      using wf by (simp add: interner_wf_def it' bt.get_ins)
    have "bt_get (by_digest it') d0 = Some g \<longleftrightarrow> try_resolve it' g = Some d0" for d0 g
      using wf None nd nh by (auto simp: r \<open>bt_get (by_digest it') = _\<close> interner_wf_def)
    then show ?thesis using wf room r nh g by (auto simp: interner_wf_def it' bt.ok_ins)
  qed
  then show "interner_wf it'" "try_resolve it' h = Some d"
    "try_resolve it h' = Some d' \<Longrightarrow> try_resolve it' h' = Some d'" "intern it' d = (h, it')"
    by (auto simp: intern_def)
qed

text \<open>Past the 32-bit range a fresh digest gets a handle that is already taken.\<close>

lemma intern_wraps:
  assumes "interner_wf it" "length (by_handle it) = 2 ^ 32" "bt_get (by_digest it) d = None"
  shows "fst (intern it d) = 0" "try_resolve (snd (intern it d)) 0 = Some (hd (by_handle it))" "hd (by_handle it) \<noteq> d"
proof -
  have ne: "by_handle it \<noteq> []" using assms(2) by auto
  show "fst (intern it d) = 0" using assms(3) by (simp add: intern_def Let_def assms(2) word_of_nat_eq_0_iff)
  show "try_resolve (snd (intern it d)) 0 = Some (hd (by_handle it))"
    using assms(3) ne by (simp add: intern_def Let_def try_resolve_def nth_append hd_conv_nth)
  have "try_resolve it 0 = Some (hd (by_handle it))" using ne by (simp add: try_resolve_def hd_conv_nth)
  then have "bt_get (by_digest it) (hd (by_handle it)) = Some 0" using assms(1) unfolding interner_wf_def by blast
  then show "hd (by_handle it) \<noteq> d" using assms(3) by auto
qed

section \<open>The oracle\<close>

lemma admit_all_set: "admit_all adm e cs out = out \<union> {c \<in> set cs. adm e c}"
  by (induction adm e cs out rule: admit_all.induct) auto

lemma cand_loop_set: "cand_loop ps adm e out = out \<union> {c. (\<exists>p \<in> set ps. c \<in> set (p e)) \<and> adm e c}"
  by (induction ps adm e out rule: cand_loop.induct) (auto simp: admit_all_set)

lemma cand_iff: "c \<in> cand ps adm e \<longleftrightarrow> (\<exists>p \<in> set ps. c \<in> set (p e)) \<and> adm e c"
  by (simp add: cand_def cand_loop_set)

lemma admit_counted_eq: "admit_counted adm e cs out work = (admit_all adm e cs out, work + length cs)"
  by (induction adm e cs out work rule: admit_counted.induct) simp_all

lemma cand_counted_eq:
  "cand_counted ps adm e out work = (cand_loop ps adm e out, work + length ps + (\<Sum>p \<leftarrow> ps. length (p e)))"
  by (induction ps adm e out work rule: cand_counted.induct) (simp_all add: admit_counted_eq)

lemma cand_instrumented_eq:
  "cand_instrumented ps adm e = (cand ps adm e, Steps (length ps + (\<Sum>p \<leftarrow> ps. length (p e))))"
  by (simp add: cand_instrumented_def cand_counted_eq cand_def)

section \<open>Properties\<close>

text \<open>
  Governance conservation: where one admissibility judgement implies another at a configuration,
  its candidates and its successor configurations are among the other's. The instrumented oracle
  finds the same candidates and counts one unit for each provider and each enumerated candidate.
\<close>

theorem governance_conservation:
  assumes "\<And>c. tight e c \<Longrightarrow> loose e c"
  shows "cand ps tight e \<subseteq> cand ps loose e \<and> succ_configs blake3 ps tight e \<subseteq> succ_configs blake3 ps loose e \<and>
    cand_instrumented ps tight e = (cand ps tight e, Steps (length ps + (\<Sum>p \<leftarrow> ps. length (p e))))"
proof -
  have "cand ps tight e \<subseteq> cand ps loose e" using assms by (auto simp: cand_iff)
  then show ?thesis by (auto simp: succ_configs_def cand_instrumented_eq)
qed

theorem governance_conservation_witness:
  "cand [\<lambda>e. [\<lparr>cwitness = 1, successor = 2\<rparr>, \<lparr>cwitness = 3, successor = 4\<rparr>]] (AndAdm AdmAll (AdmWitnessAllowlist {1}))
       \<lparr>world = 0, policy = 0, ehistory = []\<rparr>
     \<subseteq> cand [\<lambda>e. [\<lparr>cwitness = 1, successor = 2\<rparr>, \<lparr>cwitness = 3, successor = 4\<rparr>]] (AdmWitnessAllowlist {1})
       \<lparr>world = 0, policy = 0, ehistory = []\<rparr> \<and>
   \<lparr>cwitness = 1, successor = 2\<rparr> \<in> cand [\<lambda>e. [\<lparr>cwitness = 1, successor = 2\<rparr>, \<lparr>cwitness = 3, successor = 4\<rparr>]]
       (AndAdm AdmAll (AdmWitnessAllowlist {1})) \<lparr>world = 0, policy = 0, ehistory = []\<rparr>"
proof
  show "\<lparr>cwitness = 1, successor = 2\<rparr> \<in> cand [\<lambda>e. [\<lparr>cwitness = 1, successor = 2\<rparr>, \<lparr>cwitness = 3, successor = 4\<rparr>]]
       (AndAdm AdmAll (AdmWitnessAllowlist {1})) \<lparr>world = 0, policy = 0, ehistory = []\<rparr>"
    by (simp add: cand_iff AndAdm_def AdmAll_def AdmWitnessAllowlist_def)
  have le: "AndAdm AdmAll (AdmWitnessAllowlist {1}) e c \<Longrightarrow> AdmWitnessAllowlist {1} e c" for e c
    by (simp add: AndAdm_def)
  show "cand [\<lambda>e. [\<lparr>cwitness = 1, successor = 2\<rparr>, \<lparr>cwitness = 3, successor = 4\<rparr>]] (AndAdm AdmAll (AdmWitnessAllowlist {1}))
       \<lparr>world = 0, policy = 0, ehistory = []\<rparr>
     \<subseteq> cand [\<lambda>e. [\<lparr>cwitness = 1, successor = 2\<rparr>, \<lparr>cwitness = 3, successor = 4\<rparr>]] (AdmWitnessAllowlist {1})
       \<lparr>world = 0, policy = 0, ehistory = []\<rparr>"
    by (rule conjunct1[OF governance_conservation]) (rule le)
qed

text \<open>
  While fewer than \<open>2^32\<close> digests are interned, interning a digest keeps the correspondence of
  handles and digests, returns a handle that resolves to the digest, keeps every older handle, and is
  idempotent.
\<close>

theorem interner_faithful:
  assumes "interner_wf it" and "length (by_handle it) < 2 ^ 32" and "intern it d = (h, it')"
  shows "interner_wf it' \<and> try_resolve it' h = Some d \<and> intern it' d = (h, it') \<and>
    (\<forall>h' d'. try_resolve it h' = Some d' \<longrightarrow> try_resolve it' h' = Some d')"
  using intern_ok[OF assms] by blast

theorem interner_faithful_witness:
  "interner_wf (snd (intern interner_new [5])) \<and> try_resolve (snd (intern interner_new [5])) 0 = Some [5]"
proof -
  have i: "intern interner_new [5] = (0, snd (intern interner_new [5]))"
    by (simp add: intern_def interner_new_def Let_def)
  have "length (by_handle interner_new) < 2 ^ 32" by (simp add: interner_new_def)
  from interner_faithful[OF interner_wf_new this i] show ?thesis by blast
qed

end
