(* ===== verification/Settle_Calendar.thy ===== *)
theory Settle_Calendar
  imports Settle_Core
begin

text \<open>
  The keyed calendar of \<open>crates/soc-core/src/calendar.rs\<close>: keys with their order and encoding,
  and the unique-key frontier with its transactional delta. \<open>apply_delta\<close> works in place and
  keeps an undo log that the drop of the overlay replays; \<open>naive_apply_delta\<close> works on a copy.
  An operation on \<open>&mut self\<close> returns the frontier together with its result. The undo log has
  its last action at the head.
\<close>

section \<open>Keys\<close>

datatype key = Key (phase: u64) (priority: u64) (tiebreak: digest)

text \<open>The derived order compares the fields in their declared order.\<close>

instantiation key :: linorder
begin

definition less_eq_key :: "key \<Rightarrow> key \<Rightarrow> bool" where
  "less_eq_key a b \<longleftrightarrow> phase a < phase b \<or> phase a = phase b \<and>
     (priority a < priority b \<or> priority a = priority b \<and> tiebreak a \<le> tiebreak b)"

definition less_key :: "key \<Rightarrow> key \<Rightarrow> bool" where
  "less_key a b \<longleftrightarrow> phase a < phase b \<or> phase a = phase b \<and>
     (priority a < priority b \<or> priority a = priority b \<and> tiebreak a < tiebreak b)"

instance
  by standard (auto simp: less_eq_key_def less_key_def intro: key.expand)

end

definition canon_write_key :: "key \<Rightarrow> canon_writer \<Rightarrow> canon_writer" where
  "canon_write_key k w = write_bytes (tiebreak k) (write_uint (priority k) (write_uint (phase k) w))"

definition canon_read_key :: "key read" where
  "canon_read_key r =
     (case read_uint r of
        (Inl e, r) \<Rightarrow> (Inl e, r)
      | (Inr ph, r) \<Rightarrow>
          (case read_uint r of
             (Inl e, r) \<Rightarrow> (Inl e, r)
           | (Inr pr, r) \<Rightarrow>
               (case read_bytes r of
                  (Inl e, r) \<Rightarrow> (Inl e, r)
                | (Inr tb, r) \<Rightarrow> (if length tb \<noteq> 32 then Inl BadLength else Inr (Key ph pr tb), r))))"

section \<open>The frontier\<close>

record 'v key_conflict =
  conflict_key :: key
  existing :: 'v
  attempted :: 'v

datatype 'v frontier_delta_error =
    RemoveMissing key
  | RemoveMismatch "'v key_conflict"
  | InsertConflict "'v key_conflict"

type_synonym 'v frontier = "(key \<times> 'v) list"

definition frontier_insert :: "'v frontier \<Rightarrow> key \<Rightarrow> 'v \<Rightarrow> 'v frontier \<times> ('v key_conflict + bool)" where
  "frontier_insert f k v =
     (case bt_get f k of
        None \<Rightarrow> (bt_insert k v f, Inr True)
      | Some x \<Rightarrow>
          if x = v then (f, Inr False)
          else (f, Inl \<lparr>conflict_key = k, existing = x, attempted = v\<rparr>))"

definition select_least :: "'v frontier \<Rightarrow> (key \<times> 'v) option \<times> 'v frontier" where
  "select_least f = (case bt_pop_first f of None \<Rightarrow> (None, f) | Some (e, f') \<Rightarrow> (Some e, f'))"

definition peek_least :: "'v frontier \<Rightarrow> (key \<times> 'v) option" where
  "peek_least f = (case f of [] \<Rightarrow> None | e # _ \<Rightarrow> Some e)"

section \<open>The overlay\<close>

datatype 'v undo_action = Reinsert key 'v | RemoveAdded key

record 'v overlay =
  oentries :: "'v frontier"
  undo_log :: "'v undo_action list"
  committed :: bool

definition overlay_new :: "'v frontier \<Rightarrow> 'v overlay" where
  "overlay_new f = \<lparr>oentries = f, undo_log = [], committed = False\<rparr>"

definition overlay_commit :: "'v overlay \<Rightarrow> 'v overlay" where
  "overlay_commit ov = ov\<lparr>committed := True, undo_log := []\<rparr>"

fun undo :: "'v undo_action list \<Rightarrow> 'v frontier \<Rightarrow> 'v frontier" where
  "undo [] f = f"
| "undo (Reinsert k v # log) f = undo log (bt_insert k v f)"
| "undo (RemoveAdded k # log) f = undo log (bt_remove k f)"

definition overlay_drop :: "'v overlay \<Rightarrow> 'v frontier" where
  "overlay_drop ov = (if committed ov then oentries ov else undo (undo_log ov) (oentries ov))"

fun remove_loop :: "'v overlay \<Rightarrow> (key \<times> 'v) list \<Rightarrow> 'v overlay \<times> 'v frontier_delta_error option" where
  "remove_loop ov [] = (ov, None)"
| "remove_loop ov ((k, expected) # rs) =
     (case bt_get (oentries ov) k of
        Some v \<Rightarrow>
          if v = expected
          then remove_loop (ov\<lparr>oentries := bt_remove k (oentries ov), undo_log := Reinsert k v # undo_log ov\<rparr>) rs
          else (ov, Some (RemoveMismatch \<lparr>conflict_key = k, existing = v, attempted = expected\<rparr>))
      | None \<Rightarrow> (ov, Some (RemoveMissing k)))"

fun insert_loop :: "'v overlay \<Rightarrow> (key \<times> 'v) list \<Rightarrow> 'v overlay \<times> 'v frontier_delta_error option" where
  "insert_loop ov [] = (ov, None)"
| "insert_loop ov ((k, value) # as) =
     (case bt_get (oentries ov) k of
        None \<Rightarrow> insert_loop (ov\<lparr>oentries := bt_insert k value (oentries ov), undo_log := RemoveAdded k # undo_log ov\<rparr>) as
      | Some v \<Rightarrow>
          if v = value then insert_loop ov as
          else (ov, Some (InsertConflict \<lparr>conflict_key = k, existing = v, attempted = value\<rparr>)))"

definition apply_delta ::
  "'v frontier \<Rightarrow> (key \<times> 'v) list \<Rightarrow> (key \<times> 'v) list \<Rightarrow> 'v frontier \<times> ('v frontier_delta_error + unit)" where
  "apply_delta f removals additions =
     (case remove_loop (overlay_new f) removals of
        (ov, Some e) \<Rightarrow> (overlay_drop ov, Inl e)
      | (ov, None) \<Rightarrow>
          (case insert_loop ov additions of
             (ov, Some e) \<Rightarrow> (overlay_drop ov, Inl e)
           | (ov, None) \<Rightarrow> (overlay_drop (overlay_commit ov), Inr ())))"

fun naive_removals :: "'v frontier \<Rightarrow> (key \<times> 'v) list \<Rightarrow> 'v frontier_delta_error + 'v frontier" where
  "naive_removals staged [] = Inr staged"
| "naive_removals staged ((k, expected) # rs) =
     (case bt_get staged k of
        Some v \<Rightarrow>
          if v = expected then naive_removals (bt_remove k staged) rs
          else Inl (RemoveMismatch \<lparr>conflict_key = k, existing = v, attempted = expected\<rparr>)
      | None \<Rightarrow> Inl (RemoveMissing k))"

fun naive_additions :: "'v frontier \<Rightarrow> (key \<times> 'v) list \<Rightarrow> 'v frontier_delta_error + 'v frontier" where
  "naive_additions staged [] = Inr staged"
| "naive_additions staged ((k, value) # as) =
     (case bt_get staged k of
        None \<Rightarrow> naive_additions (bt_insert k value staged) as
      | Some v \<Rightarrow>
          if v = value then naive_additions staged as
          else Inl (InsertConflict \<lparr>conflict_key = k, existing = v, attempted = value\<rparr>))"

definition naive_apply_delta ::
  "'v frontier \<Rightarrow> (key \<times> 'v) list \<Rightarrow> (key \<times> 'v) list \<Rightarrow> 'v frontier \<times> ('v frontier_delta_error + unit)" where
  "naive_apply_delta f removals additions =
     (case and_then (naive_removals f removals) (\<lambda>staged. naive_additions staged additions) of
        Inl e \<Rightarrow> (f, Inl e)
      | Inr staged \<Rightarrow> (staged, Inr ()))"

section \<open>The undo log restores the frontier\<close>

text \<open>An uncommitted overlay of \<open>f\<close>: undoing its log gives \<open>f\<close> back.\<close>

definition overlays :: "'v frontier \<Rightarrow> 'v overlay \<Rightarrow> bool" where
  "overlays f ov \<longleftrightarrow> bt_wf (oentries ov) \<and> undo (undo_log ov) (oentries ov) = f \<and> \<not> committed ov"

lemma overlays_new: "bt_wf f \<Longrightarrow> overlays f (overlay_new f)"
  by (simp add: overlays_def overlay_new_def)

lemma overlays_remove:
  "overlays f ov \<Longrightarrow> bt_get (oentries ov) k = Some v \<Longrightarrow>
   overlays f (ov\<lparr>oentries := bt_remove k (oentries ov), undo_log := Reinsert k v # undo_log ov\<rparr>)"
  by (simp add: overlays_def bt.ins_del bt.ok_del)

lemma overlays_insert:
  "overlays f ov \<Longrightarrow> bt_get (oentries ov) k = None \<Longrightarrow>
   overlays f (ov\<lparr>oentries := bt_insert k v (oentries ov), undo_log := RemoveAdded k # undo_log ov\<rparr>)"
  by (simp add: overlays_def bt.del_ins bt.ok_ins)

lemma remove_loop_naive:
  "overlays f ov \<Longrightarrow> case remove_loop ov rs of
     (ov', Some e) \<Rightarrow> overlays f ov' \<and> naive_removals (oentries ov) rs = Inl e
   | (ov', None) \<Rightarrow> overlays f ov' \<and> naive_removals (oentries ov) rs = Inr (oentries ov')"
  by (induction ov rs rule: remove_loop.induct) (auto split: option.split simp: overlays_remove)

lemma insert_loop_naive:
  "overlays f ov \<Longrightarrow> case insert_loop ov as of
     (ov', Some e) \<Rightarrow> overlays f ov' \<and> naive_additions (oentries ov) as = Inl e
   | (ov', None) \<Rightarrow> overlays f ov' \<and> naive_additions (oentries ov) as = Inr (oentries ov')"
  by (induction ov as rule: insert_loop.induct) (auto split: option.split simp: overlays_insert)

lemma overlay_drop_undo: "overlays f ov \<Longrightarrow> overlay_drop ov = f"
  by (simp add: overlay_drop_def overlays_def)

lemma overlay_drop_commit: "overlay_drop (overlay_commit ov) = oentries ov"
  by (simp add: overlay_drop_def overlay_commit_def)

lemma apply_delta_naive: "bt_wf f \<Longrightarrow> apply_delta f rs as = naive_apply_delta f rs as"
proof -
  assume wf: "bt_wf f"
  obtain ov e where r: "remove_loop (overlay_new f) rs = (ov, e)" by fastforce
  have rn: "overlays f ov" "naive_removals f rs = (case e of Some x \<Rightarrow> Inl x | None \<Rightarrow> Inr (oentries ov))"
    using remove_loop_naive[OF overlays_new[OF wf], of rs] r by (auto simp: overlay_new_def split: option.splits)
  show ?thesis
  proof (cases e)
    case (Some x)
    then show ?thesis using r rn by (simp add: apply_delta_def naive_apply_delta_def overlay_drop_undo)
  next
    case None
    obtain ov' e' where i: "insert_loop ov as = (ov', e')" by fastforce
    then have "overlays f ov'" "naive_additions (oentries ov) as = (case e' of Some x \<Rightarrow> Inl x | None \<Rightarrow> Inr (oentries ov'))"
      using insert_loop_naive[OF rn(1), of as] by (auto split: option.splits)
    then show ?thesis using r rn i None
      by (simp add: apply_delta_def naive_apply_delta_def overlay_drop_undo overlay_drop_commit split: option.split)
  qed
qed

lemma naive_removals_wf: "bt_wf f \<Longrightarrow> naive_removals f rs = Inr f' \<Longrightarrow> bt_wf f'"
  by (induction f rs rule: naive_removals.induct) (auto split: option.splits if_splits simp: bt.ok_del)

lemma naive_additions_wf: "bt_wf f \<Longrightarrow> naive_additions f as = Inr f' \<Longrightarrow> bt_wf f'"
  by (induction f as rule: naive_additions.induct) (auto split: option.splits if_splits simp: bt.ok_ins)

lemma naive_apply_delta_wf: "bt_wf f \<Longrightarrow> bt_wf (fst (naive_apply_delta f rs as))"
  by (auto simp: naive_apply_delta_def and_then_Inr split: sum.split dest: naive_removals_wf naive_additions_wf)

section \<open>Insertion and selection\<close>

lemma frontier_insert_wf: "bt_wf f \<Longrightarrow> frontier_insert f k v = (f', r) \<Longrightarrow> bt_wf f'"
  by (auto simp: frontier_insert_def bt.ok_ins split: option.splits if_splits)

lemma frontier_insert_Inr:
  "bt_wf f \<Longrightarrow> frontier_insert f k v = (f', Inr b) \<longleftrightarrow>
     bt_get f k = None \<and> f' = bt_insert k v f \<and> b \<or> bt_get f k = Some v \<and> f' = f \<and> \<not> b"
  by (auto simp: frontier_insert_def split: option.splits)

lemma frontier_insert_get:
  "bt_wf f \<Longrightarrow> frontier_insert f k v = (f', Inr b) \<Longrightarrow> bt_get f' = (bt_get f)(k \<mapsto> v)"
  by (auto simp: frontier_insert_Inr bt.get_ins fun_upd_idem)

lemma select_least_Some:
  assumes "bt_wf f" "select_least f = (Some (k, v), f')"
  shows "bt_get f k = Some v" "f' = bt_remove k f" "bt_get f h = Some u \<Longrightarrow> k \<le> h"
  using bt_pop_first_spec[OF assms(1), of k v f'] assms(2) by (auto simp: select_least_def split: option.splits prod.splits)

lemma select_least_None: "select_least f = (None, f') \<longleftrightarrow> f = [] \<and> f' = []"
  by (cases f) (auto simp: select_least_def)

lemma peek_select: "peek_least f = fst (select_least f)"
  by (cases f) (auto simp: select_least_def peek_least_def)

section \<open>Keys round trip\<close>

lemma canon_bytes_key:
  "canon_bytes (canon_write_key k) = uint_bytes (ucast (phase k)) @ uint_bytes (ucast (priority k)) @ framed (tiebreak k)"
  by (simp add: canon_bytes_def canon_write_key_def out_simps)

lemma canon_read_key_parts:
  "canon_read_key r = (Inr k, r') \<longleftrightarrow> (\<exists>ph pr tb r1 r2. read_uint r = (Inr ph, r1) \<and> read_uint r1 = (Inr pr, r2) \<and>
     read_bytes r2 = (Inr tb, r') \<and> length tb = 32 \<and> k = Key ph pr tb)"
  by (auto simp: canon_read_key_def split: prod.splits sum.splits if_splits)

lemma canon_read_key_iff:
  assumes "reader_ok r"
  shows "canon_read_key r = (Inr k, r') \<longleftrightarrow> wf_digest (tiebreak k) \<and>
    (\<exists>rest. remaining r = canon_bytes (canon_write_key k) @ rest) \<and> r' = adv r (length (canon_bytes (canon_write_key k)))"
proof -
  let ?a = "uint_bytes (ucast (phase k))" and ?b = "uint_bytes (ucast (priority k))"
  let ?r1 = "adv r (length ?a)" and ?r2 = "adv r (length ?a + length ?b)"
  have "canon_read_key r = (Inr k, r') \<longleftrightarrow> read_uint r = (Inr (phase k), ?r1) \<and> read_uint ?r1 = (Inr (priority k), ?r2) \<and>
      read_bytes ?r2 = (Inr (tiebreak k), r') \<and> length (tiebreak k) = 32"
    unfolding canon_read_key_parts by (cases k) (auto simp: read_uint_iff)
  also have "\<dots> \<longleftrightarrow> (\<exists>rest. remaining r = ?a @ ?b @ rest) \<and> read_bytes ?r2 = (Inr (tiebreak k), r') \<and> length (tiebreak k) = 32"
    by (auto simp: read_uint_iff)
  also have "\<dots> \<longleftrightarrow> wf_digest (tiebreak k) \<and> (\<exists>rest. remaining r = ?a @ ?b @ framed (tiebreak k) @ rest) \<and>
      r' = adv r (length (?a @ ?b @ framed (tiebreak k)))"
  proof (cases "\<exists>rest. remaining r = ?a @ ?b @ rest")
    case True
    then have "reader_ok ?r2" using assms by (auto intro: reader_ok_adv)
    then show ?thesis using True read_bytes_iff[of ?r2 "tiebreak k" r']
      by (auto simp: wf_digest_def fits_def add.assoc)
  qed auto
  finally show ?thesis by (simp add: canon_bytes_key)
qed

lemma key_exact:
  assumes "fits bs"
  shows "from_canon_bytes canon_read_key bs = Inr k \<longleftrightarrow> wf_digest (tiebreak k) \<and> bs = canon_bytes (canon_write_key k)"
proof -
  have "from_canon_bytes canon_read_key bs = Inr k \<longleftrightarrow> (\<exists>r. canon_read_key (reader_new bs) = (Inr k, r) \<and> reader_is_empty r)"
    by (auto simp: from_canon_bytes_def split: prod.splits sum.splits if_splits)
  also have "\<dots> \<longleftrightarrow> wf_digest (tiebreak k) \<and> bs = canon_bytes (canon_write_key k)"
    using canon_read_key_iff[OF reader_ok_new[OF assms], of k]
    by (auto simp: reader_is_empty_def adv_def reader_new_def remaining_def)
  finally show ?thesis .
qed

section \<open>Properties\<close>

text \<open>
  C37. The transactional delta of the frontier equals its copying reference, in the frontier it
  leaves and in the result it reports; the undo log therefore restores the frontier exactly on every
  error, wherever it happens, and a successful delta keeps the unique, ordered keys.
\<close>

theorem frontier_delta_atomic:
  assumes "bt_wf f"
  shows "apply_delta f removals additions = naive_apply_delta f removals additions \<and>
    (\<forall>e. snd (apply_delta f removals additions) = Inl e \<longrightarrow> fst (apply_delta f removals additions) = f) \<and>
    bt_wf (fst (apply_delta f removals additions))"
  using apply_delta_naive[OF assms] naive_apply_delta_wf[OF assms]
  by (auto simp: naive_apply_delta_def split: sum.splits)

theorem frontier_delta_atomic_witness:
  "bt_wf [(Key 0 1 [1], 7 :: nat), (Key 0 2 [0], 8)] \<and>
   apply_delta [(Key 0 1 [1], 7 :: nat), (Key 0 2 [0], 8)] [(Key 0 1 [1], 7)] [(Key 0 0 [], 5), (Key 0 2 [0], 9)]
     = ([(Key 0 1 [1], 7), (Key 0 2 [0], 8)], Inl (InsertConflict \<lparr>conflict_key = Key 0 2 [0], existing = 8, attempted = 9\<rparr>))"
proof -
  let ?f = "[(Key 0 1 [1], 7 :: nat), (Key 0 2 [0], 8)]"
  have wf: "bt_wf ?f" by (simp add: bt_wf_Cons less_key_def)
  have "apply_delta ?f [(Key 0 1 [1], 7)] [(Key 0 0 [], 5), (Key 0 2 [0], 9)]
      = naive_apply_delta ?f [(Key 0 1 [1], 7)] [(Key 0 0 [], 5), (Key 0 2 [0], 9)]"
    using frontier_delta_atomic[OF wf] by blast
  also have "\<dots> = (?f, Inl (InsertConflict \<lparr>conflict_key = Key 0 2 [0], existing = 8, attempted = 9\<rparr>))"
    by (simp add: naive_apply_delta_def bt_get_def bt_remove_def less_key_def)
  finally show ?thesis using wf by blast
qed

text \<open>
  A byte string of a possible length decodes to a key precisely when it is that key's encoding
  and the tie-break is a digest: the key codec round trips and accepts nothing else.
\<close>

theorem key_codec_exact:
  assumes "fits bs"
  shows "from_canon_bytes canon_read_key bs = Inr k \<longleftrightarrow> wf_digest (tiebreak k) \<and> bs = canon_bytes (canon_write_key k)"
  using assms by (rule key_exact)

theorem key_codec_exact_witness:
  "from_canon_bytes canon_read_key (canon_bytes (canon_write_key (Key 3 256 (replicate 32 7)))) = Inr (Key 3 256 (replicate 32 7))"
proof -
  have "length (canon_bytes (canon_write_key (Key 3 256 (replicate 32 7)))) = 39" by code_simp
  then have "fits (canon_bytes (canon_write_key (Key 3 256 (replicate 32 7))))" by (simp add: fits_def)
  then show ?thesis using key_codec_exact by (simp add: wf_digest_def)
qed

end
