(* ===== verification/Semantic_Artifacts.thy ===== *)
theory Semantic_Artifacts
  imports Semantic_Ids
begin

text \<open>
  The evidence artifacts of \<open>crates/brix-semantic\<close>: the declared settlement relations
  (\<open>generator_semantics.rs\<close>), linear decompositions with their replay check
  (\<open>decomposition.rs\<close>), tree derivations with their structure check (\<open>tree.rs\<close>) and the
  quiescence statement (\<open>quiescent.rs\<close>). A \<open>BTreeSet\<close> is its sorted element list, a
  \<open>BTreeMap\<close> its sorted entry list.
\<close>

section \<open>Declared settlement relations\<close>

definition GENERATOR_SEMANTICS_MARKER_V1 :: bytes where
  "GENERATOR_SEMANTICS_MARKER_V1 = as_bytes ''brix.semantic.generator-semantics''"

definition GENERATOR_SEMANTICS_VERSION_V1 :: u64 where
  "GENERATOR_SEMANTICS_VERSION_V1 = 1"

datatype settlement_relation = ExactRows "(config_id \<times> config_id) list" | Diagonal

fun relation_ordinal :: "settlement_relation \<Rightarrow> u64" where
  "relation_ordinal (ExactRows _) = 0"
| "relation_ordinal Diagonal = 1"

fun relation_realizes :: "settlement_relation \<Rightarrow> config_id \<Rightarrow> config_id \<Rightarrow> bool" where
  "relation_realizes (ExactRows rows) src dst \<longleftrightarrow> (src, dst) \<in> set rows"
| "relation_realizes Diagonal src dst \<longleftrightarrow> src = dst"

fun canon_write_settlement_relation :: "settlement_relation \<Rightarrow> canon_writer \<Rightarrow> canon_writer" where
  "canon_write_settlement_relation (ExactRows rows) w =
     write_enum (relation_ordinal (ExactRows rows))
       (write_set (map (\<lambda>(src, dst). finish (write_bytes dst (write_bytes src canon_new))) rows)) w"
| "canon_write_settlement_relation Diagonal w = write_enum (relation_ordinal Diagonal) (\<lambda>w. w) w"

datatype semantics_error =
    UndeclaredGenerator generator_id
  | RegistryMismatch "generator_id list" "generator_id list"

type_synonym generator_semantics = "(generator_id \<times> settlement_relation) list"

fun semantics_declare :: "generator_id \<Rightarrow> settlement_relation \<Rightarrow> generator_semantics \<Rightarrow> generator_semantics" where
  "semantics_declare g r [] = [(g, r)]"
| "semantics_declare g r ((h, s) # m) =
     (if g < h then (g, r) # (h, s) # m else if g = h then (g, r) # m else (h, s) # semantics_declare g r m)"

definition semantics_realizes ::
  "generator_semantics \<Rightarrow> generator_id \<Rightarrow> config_id \<Rightarrow> config_id \<Rightarrow> semantics_error + bool" where
  "semantics_realizes m g src dst =
     (case map_of m g of Some relation \<Rightarrow> Inr (relation_realizes relation src dst) | None \<Rightarrow> Inl (UndeclaredGenerator g))"

definition require_matches_registry :: "generator_semantics \<Rightarrow> generator_registry \<Rightarrow> semantics_error + unit" where
  "require_matches_registry m registry =
     (let undeclared_in_registry = filter (\<lambda>g. \<not> registry_contains registry g) (map fst m);
          missing_from_manifest = filter (\<lambda>g. map_of m g = None) registry
      in if undeclared_in_registry = [] \<and> missing_from_manifest = [] then Inr ()
         else Inl (RegistryMismatch undeclared_in_registry missing_from_manifest))"

definition canon_write_semantics :: "generator_semantics \<Rightarrow> canon_writer \<Rightarrow> canon_writer" where
  "canon_write_semantics m w =
     write_map (map (\<lambda>(g, relation). (finish (write_bytes g canon_new), finish (canon_write_settlement_relation relation canon_new))) m)
       (write_uint GENERATOR_SEMANTICS_VERSION_V1 (write_bytes GENERATOR_SEMANTICS_MARKER_V1 w))"

definition semantics_id :: "(bytes \<Rightarrow> bytes) \<Rightarrow> generator_semantics \<Rightarrow> digest" where
  "semantics_id blake3 m = id_of blake3 (canon_write_semantics m)"

section \<open>Decompositions\<close>

datatype decomp_verification = Recorded | ReplayVerified

fun decomp_verification_ordinal :: "decomp_verification \<Rightarrow> u64" where
  "decomp_verification_ordinal Recorded = 0"
| "decomp_verification_ordinal ReplayVerified = 1"

datatype decomposition_error = ChainLengthMismatch nat nat

datatype replay_verification_error =
    NotRecorded decomp_verification
  | GeneratorNotInRegistry nat generator_id
  | RelationNotRealized nat generator_id config_id config_id
  | SemanticsErr nat semantics_error

record decomposition =
  generators :: "generator_id list"
  configs :: "config_id list"
  verification :: decomp_verification

definition decomposition_build ::
  "generator_id list \<Rightarrow> config_id list \<Rightarrow> decomp_verification \<Rightarrow> decomposition_error + decomposition" where
  "decomposition_build gs cs v =
     (if length cs \<noteq> length gs + 1 then Inl (ChainLengthMismatch (length gs) (length cs))
      else Inr \<lparr>generators = gs, configs = cs, verification = v\<rparr>)"

definition decomposition_recorded :: "generator_id list \<Rightarrow> config_id list \<Rightarrow> decomposition_error + decomposition" where
  "decomposition_recorded gs cs = decomposition_build gs cs Recorded"

text \<open>
  The loop over the links, from link \<open>i\<close> on. The chain-length invariant of a constructed
  decomposition keeps both reads in range.
\<close>

fun replay_links ::
  "generator_registry \<Rightarrow> generator_semantics \<Rightarrow> config_id list \<Rightarrow> nat \<Rightarrow> generator_id list
     \<Rightarrow> replay_verification_error + unit" where
  "replay_links registry sem cs i [] = Inr ()"
| "replay_links registry sem cs i (g # gs) =
     (if \<not> registry_contains registry g then Inl (GeneratorNotInRegistry i g)
      else case semantics_realizes sem g (cs ! i) (cs ! (i + 1)) of
        Inr True \<Rightarrow> replay_links registry sem cs (i + 1) gs
      | Inr False \<Rightarrow> Inl (RelationNotRealized i g (cs ! i) (cs ! (i + 1)))
      | Inl e \<Rightarrow> Inl (SemanticsErr i e))"

definition verify_replay ::
  "generator_registry \<Rightarrow> generator_semantics \<Rightarrow> decomposition \<Rightarrow> replay_verification_error + decomposition" where
  "verify_replay registry sem d =
     (if verification d \<noteq> Recorded then Inl (NotRecorded (verification d))
      else and_then (replay_links registry sem (configs d) 0 (generators d)) (\<lambda>_.
        Inr (d\<lparr>verification := ReplayVerified\<rparr>)))"

definition canon_write_decomposition :: "decomposition \<Rightarrow> canon_writer \<Rightarrow> canon_writer" where
  "canon_write_decomposition d w =
     write_enum (decomp_verification_ordinal (verification d)) (\<lambda>w. w)
       (write_list (map (\<lambda>c. canon_bytes (canon_write_id c)) (configs d))
         (write_list (map (\<lambda>g. canon_bytes (canon_write_id g)) (generators d)) w))"

definition decomposition_id :: "(bytes \<Rightarrow> bytes) \<Rightarrow> decomposition \<Rightarrow> digest" where
  "decomposition_id blake3 d = id_of blake3 (canon_write_decomposition d)"

section \<open>Tree derivations\<close>

datatype tree_obj = TreeAtom config_id | TreeProd tree_obj tree_obj

fun canon_write_tree_obj :: "tree_obj \<Rightarrow> canon_writer \<Rightarrow> canon_writer" where
  "canon_write_tree_obj (TreeAtom c) w = write_enum 0 (canon_write_id c) w"
| "canon_write_tree_obj (TreeProd l r) w = write_enum 1 (\<lambda>w. canon_write_tree_obj r (canon_write_tree_obj l w)) w"

datatype realizes_tree =
    TreeLeaf generator_id tree_obj tree_obj
  | TreeSeq realizes_tree realizes_tree
  | TreeTensor realizes_tree realizes_tree

fun tree_src :: "realizes_tree \<Rightarrow> tree_obj" where
  "tree_src (TreeLeaf _ src _) = src"
| "tree_src (TreeSeq left _) = tree_src left"
| "tree_src (TreeTensor left right) = TreeProd (tree_src left) (tree_src right)"

fun tree_dst :: "realizes_tree \<Rightarrow> tree_obj" where
  "tree_dst (TreeLeaf _ _ dst) = dst"
| "tree_dst (TreeSeq _ right) = tree_dst right"
| "tree_dst (TreeTensor left right) = TreeProd (tree_dst left) (tree_dst right)"

fun collect_leaves :: "realizes_tree \<Rightarrow> realizes_tree list \<Rightarrow> realizes_tree list" where
  "collect_leaves (TreeLeaf g s d) out = out @ [TreeLeaf g s d]"
| "collect_leaves (TreeSeq left right) out = collect_leaves right (collect_leaves left out)"
| "collect_leaves (TreeTensor left right) out = collect_leaves right (collect_leaves left out)"

definition tree_leaves :: "realizes_tree \<Rightarrow> realizes_tree list" where
  "tree_leaves t = collect_leaves t []"

fun well_formed :: "realizes_tree \<Rightarrow> bool" where
  "well_formed (TreeLeaf _ _ _) = True"
| "well_formed (TreeSeq left right) = (well_formed left \<and> well_formed right \<and> tree_dst left = tree_src right)"
| "well_formed (TreeTensor left right) = (well_formed left \<and> well_formed right)"

fun tree_witness_id :: "(bytes \<Rightarrow> bytes) \<Rightarrow> realizes_tree \<Rightarrow> witness_id" where
  "tree_witness_id blake3 (TreeLeaf g _ _) = g"
| "tree_witness_id blake3 (TreeSeq left right) = compose blake3 (tree_witness_id blake3 right) (tree_witness_id blake3 left)"
| "tree_witness_id blake3 (TreeTensor left right) = tensor blake3 (tree_witness_id blake3 left) (tree_witness_id blake3 right)"

fun canon_write_tree :: "realizes_tree \<Rightarrow> canon_writer \<Rightarrow> canon_writer" where
  "canon_write_tree (TreeLeaf g src dst) w =
     write_enum 0 (\<lambda>w. canon_write_tree_obj dst (canon_write_tree_obj src (canon_write_id g w))) w"
| "canon_write_tree (TreeSeq left right) w = write_enum 1 (\<lambda>w. canon_write_tree right (canon_write_tree left w)) w"
| "canon_write_tree (TreeTensor left right) w = write_enum 2 (\<lambda>w. canon_write_tree right (canon_write_tree left w)) w"

datatype tree_verification = TreeRecorded | StructureVerified

fun tree_verification_ordinal :: "tree_verification \<Rightarrow> u64" where
  "tree_verification_ordinal TreeRecorded = 0"
| "tree_verification_ordinal StructureVerified = 1"

datatype tree_verification_error =
    TreeNotRecorded tree_verification
  | MalformedTree
  | EndpointMismatch
  | TreeGeneratorNotInRegistry generator_id

record tree_derivation =
  dtree :: realizes_tree
  tverification :: tree_verification

definition tree_recorded :: "realizes_tree \<Rightarrow> tree_derivation" where
  "tree_recorded t = \<lparr>dtree = t, tverification = TreeRecorded\<rparr>"

fun check_leaves :: "generator_registry \<Rightarrow> realizes_tree list \<Rightarrow> tree_verification_error + unit" where
  "check_leaves registry [] = Inr ()"
| "check_leaves registry (leaf # rest) =
     (case leaf of
        TreeLeaf g _ _ \<Rightarrow>
          if \<not> registry_contains registry g then Inl (TreeGeneratorNotInRegistry g) else check_leaves registry rest
      | _ \<Rightarrow> Inl MalformedTree)"

definition verify_structure ::
  "tree_obj \<Rightarrow> tree_obj \<Rightarrow> generator_registry \<Rightarrow> tree_derivation \<Rightarrow> tree_verification_error + tree_derivation" where
  "verify_structure expected_src expected_dst registry d =
     (if tverification d \<noteq> TreeRecorded then Inl (TreeNotRecorded (tverification d))
      else if \<not> well_formed (dtree d) then Inl MalformedTree
      else if tree_src (dtree d) \<noteq> expected_src \<or> tree_dst (dtree d) \<noteq> expected_dst then Inl EndpointMismatch
      else and_then (check_leaves registry (tree_leaves (dtree d))) (\<lambda>_.
        Inr (d\<lparr>tverification := StructureVerified\<rparr>)))"

definition canon_write_tree_derivation :: "tree_derivation \<Rightarrow> canon_writer \<Rightarrow> canon_writer" where
  "canon_write_tree_derivation d w =
     write_enum (tree_verification_ordinal (tverification d)) (\<lambda>w. w) (canon_write_tree (dtree d) w)"

definition tree_derivation_id :: "(bytes \<Rightarrow> bytes) \<Rightarrow> tree_derivation \<Rightarrow> digest" where
  "tree_derivation_id blake3 d = id_of blake3 (canon_write_tree_derivation d)"

section \<open>The quiescence statement\<close>

record quiescent_stmt =
  qworld :: config_id
  qpolicy :: config_id
  qregimes :: digest
  qadm :: digest

definition canon_write_quiescent :: "quiescent_stmt \<Rightarrow> canon_writer \<Rightarrow> canon_writer" where
  "canon_write_quiescent q w =
     write_bytes (qadm q) (write_bytes (qregimes q) (canon_write_id (qpolicy q) (canon_write_id (qworld q) w)))"

definition quiescent_proposition_id :: "(bytes \<Rightarrow> bytes) \<Rightarrow> quiescent_stmt \<Rightarrow> proposition_id" where
  "quiescent_proposition_id blake3 q = id_of blake3 (canon_write_quiescent q)"

section \<open>What the replay establishes\<close>

lemma semantics_realizes_True:
  "semantics_realizes m g x y = Inr True \<longleftrightarrow> (\<exists>r. map_of m g = Some r \<and> relation_realizes r x y)"
  by (simp add: semantics_realizes_def split: option.split)

lemma map_of_declare: "map_of (semantics_declare g r m) = (map_of m)(g \<mapsto> r)"
  by (induction g r m rule: semantics_declare.induct) (auto simp: fun_eq_iff)

text \<open>The exact relational composition along a chain of configurations.\<close>

fun realizes_chain ::
  "(generator_id \<Rightarrow> config_id \<Rightarrow> config_id \<Rightarrow> bool) \<Rightarrow> generator_id list \<Rightarrow> config_id list \<Rightarrow> bool" where
  "realizes_chain rho [] [x] = True"
| "realizes_chain rho (g # gs) (x # y # cs) = (rho g x y \<and> realizes_chain rho gs (y # cs))"
| "realizes_chain rho _ _ = False"

definition declared :: "generator_registry \<Rightarrow> generator_semantics \<Rightarrow> generator_id \<Rightarrow> config_id \<Rightarrow> config_id \<Rightarrow> bool" where
  "declared registry sem g x y \<longleftrightarrow> g \<in> set registry \<and> (\<exists>r. map_of sem g = Some r \<and> relation_realizes r x y)"

lemma replay_links_iff:
  "length cs = i + length gs + 1 \<Longrightarrow>
   replay_links registry sem cs i gs = Inr u \<longleftrightarrow> realizes_chain (declared registry sem) gs (drop i cs)"
proof (induction gs arbitrary: i)
  case Nil
  then have "length (drop i cs) = Suc 0" by simp
  then obtain x where "drop i cs = [x]" by (cases "drop i cs") auto
  then show ?case by simp
next
  case (Cons g gs)
  have d: "drop i cs = cs ! i # cs ! Suc i # drop (i + 2) cs" "drop (Suc i) cs = cs ! Suc i # drop (i + 2) cs"
    using Cons.prems by (simp_all add: Cons_nth_drop_Suc)
  have IH: "replay_links registry sem cs (i + 1) gs = Inr u \<longleftrightarrow> realizes_chain (declared registry sem) gs (drop (i + 1) cs)"
    using Cons by simp
  have "declared registry sem g (cs ! i) (cs ! Suc i) \<longleftrightarrow>
      registry_contains registry g \<and> semantics_realizes sem g (cs ! i) (cs ! Suc i) = Inr True"
    by (simp add: declared_def registry_contains_def semantics_realizes_True)
  then show ?case using IH d by (auto split: sum.split bool.split)
qed

lemma realizes_chain_length: "realizes_chain rho gs cs \<Longrightarrow> length cs = length gs + 1"
  by (induction rho gs cs rule: realizes_chain.induct) auto

lemma decomposition_build_wf: "decomposition_build gs cs v = Inr d \<Longrightarrow> length (configs d) = length (generators d) + 1"
  by (auto simp: decomposition_build_def split: if_splits)

lemma verify_replay_iff:
  assumes "length (configs d) = length (generators d) + 1"
  shows "verify_replay registry sem d = Inr d' \<longleftrightarrow>
    verification d = Recorded \<and> realizes_chain (declared registry sem) (generators d) (configs d) \<and>
    d' = d\<lparr>verification := ReplayVerified\<rparr>"
  using replay_links_iff[of "configs d" 0 "generators d" registry sem "()"] assms
  by (auto simp: verify_replay_def and_then_Inr)

section \<open>What the structure check establishes\<close>

lemma collect_leaves_append: "collect_leaves t out = out @ collect_leaves t []"
proof (induction t arbitrary: out)
  case (TreeSeq l r)
  then show ?case by (metis append.assoc collect_leaves.simps(2))
next
  case (TreeTensor l r)
  then show ?case by (metis append.assoc collect_leaves.simps(3))
qed simp

fun leaf_generators :: "realizes_tree \<Rightarrow> generator_id list" where
  "leaf_generators (TreeLeaf g _ _) = [g]"
| "leaf_generators (TreeSeq left right) = leaf_generators left @ leaf_generators right"
| "leaf_generators (TreeTensor left right) = leaf_generators left @ leaf_generators right"

lemma tree_leaves_simps:
  "tree_leaves (TreeLeaf g s d) = [TreeLeaf g s d]"
  "tree_leaves (TreeSeq l r) = tree_leaves l @ tree_leaves r"
  "tree_leaves (TreeTensor l r) = tree_leaves l @ tree_leaves r"
  unfolding tree_leaves_def by simp (metis collect_leaves.simps(2,3) collect_leaves_append)+

lemma check_leaves_append:
  "check_leaves registry (xs @ ys) = Inr u \<longleftrightarrow> check_leaves registry xs = Inr () \<and> check_leaves registry ys = Inr ()"
  by (induction xs) (auto split: realizes_tree.split)

lemma check_leaves_tree: "check_leaves registry (tree_leaves t) = Inr u \<longleftrightarrow> set (leaf_generators t) \<subseteq> set registry"
  by (induction t) (auto simp: tree_leaves_simps check_leaves_append registry_contains_def)

lemma verify_structure_iff:
  "verify_structure src dst registry d = Inr d' \<longleftrightarrow>
     tverification d = TreeRecorded \<and> well_formed (dtree d) \<and> tree_src (dtree d) = src \<and> tree_dst (dtree d) = dst \<and>
     set (leaf_generators (dtree d)) \<subseteq> set registry \<and> d' = d\<lparr>tverification := StructureVerified\<rparr>"
  by (auto simp: verify_structure_def and_then_Inr check_leaves_tree)

end
