(* ===== verification/Semantic_Publication.thy ===== *)
theory Semantic_Publication
  imports Semantic_Artifacts
begin

text \<open>
  The authority fence of \<open>crates/brix-semantic/src/publication.rs\<close>: the table of legal routes,
  the check of a claimed publication against it, the publication door
  \<open>Judgement::publish\<close> (\<open>judgement.rs\<close>) and the verified source of an elaboration. The
  theory states what the fence promises without the table (\<open>bears\<close>) and shows that the code
  implements it.
\<close>

section \<open>Supports and routes\<close>

datatype support =
    SupKernelCertificate verifier_id certificate_id
  | SupKernelRefutation verifier_id certificate_id
  | SupSettlement decomposition
  | SupGround digest
  | SupMeasurement digest
  | SupExternalResult digest
  | SupSuggestion digest
  | SupTree tree_derivation

fun support_evidence :: "(bytes \<Rightarrow> bytes) \<Rightarrow> support \<Rightarrow> evidence" where
  "support_evidence blake3 (SupKernelCertificate v c) = KernelCertificate v c"
| "support_evidence blake3 (SupKernelRefutation v c) = KernelRefutation v c"
| "support_evidence blake3 (SupSettlement d) = SettlementReplay (decomposition_id blake3 d)"
| "support_evidence blake3 (SupGround b) = GroundAssertion b"
| "support_evidence blake3 (SupMeasurement b) = Measurement b"
| "support_evidence blake3 (SupExternalResult b) = CertifiedExternalResult b"
| "support_evidence blake3 (SupSuggestion b) = Suggestion b"
| "support_evidence blake3 (SupTree d) = TreeDerivationEvidence (tree_derivation_id blake3 d)"

datatype support_kind =
    KCertificate | KRefutation | KSettlement | KGround | KMeasurement | KExternalResult | KSuggestion | KTree

fun support_kind_of :: "support \<Rightarrow> support_kind" where
  "support_kind_of (SupKernelCertificate _ _) = KCertificate"
| "support_kind_of (SupKernelRefutation _ _) = KRefutation"
| "support_kind_of (SupSettlement _) = KSettlement"
| "support_kind_of (SupGround _) = KGround"
| "support_kind_of (SupMeasurement _) = KMeasurement"
| "support_kind_of (SupExternalResult _) = KExternalResult"
| "support_kind_of (SupSuggestion _) = KSuggestion"
| "support_kind_of (SupTree _) = KTree"

definition support_evidence_id :: "(bytes \<Rightarrow> bytes) \<Rightarrow> support \<Rightarrow> evidence_id" where
  "support_evidence_id blake3 s = evidence_id blake3 (support_evidence blake3 s)"

datatype route_status = Settled | Provisional

datatype route_condition = NoCondition | DecompositionIs decomp_verification | TreeIs tree_verification

record route =
  route_authority :: authority
  route_outcome :: outcome
  route_support :: support_kind
  route_condition :: route_condition
  route_status :: route_status

definition ROUTES :: "route list" where
  "ROUTES =
    [\<lparr>route_authority = ProofKernel, route_outcome = Proven, route_support = KCertificate,
      route_condition = NoCondition, route_status = Settled\<rparr>,
     \<lparr>route_authority = ProofKernel, route_outcome = Refuted, route_support = KRefutation,
      route_condition = NoCondition, route_status = Settled\<rparr>,
     \<lparr>route_authority = SettlementKernel, route_outcome = Derived, route_support = KSettlement,
      route_condition = DecompositionIs Recorded, route_status = Settled\<rparr>,
     \<lparr>route_authority = AuditChecker, route_outcome = Audited, route_support = KSettlement,
      route_condition = DecompositionIs ReplayVerified, route_status = Settled\<rparr>,
     \<lparr>route_authority = AuditChecker, route_outcome = Audited, route_support = KTree,
      route_condition = TreeIs StructureVerified, route_status = Settled\<rparr>,
     \<lparr>route_authority = ExternalDriver, route_outcome = Measured, route_support = KMeasurement,
      route_condition = NoCondition, route_status = Settled\<rparr>,
     \<lparr>route_authority = ExternalDriver, route_outcome = Measured, route_support = KExternalResult,
      route_condition = NoCondition, route_status = Settled\<rparr>,
     \<lparr>route_authority = AnyResolver, route_outcome = Unknown, route_support = KCertificate,
      route_condition = NoCondition, route_status = Settled\<rparr>,
     \<lparr>route_authority = AnyResolver, route_outcome = Unknown, route_support = KRefutation,
      route_condition = NoCondition, route_status = Settled\<rparr>,
     \<lparr>route_authority = AnyResolver, route_outcome = Unknown, route_support = KSettlement,
      route_condition = NoCondition, route_status = Settled\<rparr>,
     \<lparr>route_authority = AnyResolver, route_outcome = Unknown, route_support = KGround,
      route_condition = NoCondition, route_status = Settled\<rparr>,
     \<lparr>route_authority = AnyResolver, route_outcome = Unknown, route_support = KMeasurement,
      route_condition = NoCondition, route_status = Settled\<rparr>,
     \<lparr>route_authority = AnyResolver, route_outcome = Unknown, route_support = KExternalResult,
      route_condition = NoCondition, route_status = Settled\<rparr>,
     \<lparr>route_authority = AnyResolver, route_outcome = Unknown, route_support = KSuggestion,
      route_condition = NoCondition, route_status = Settled\<rparr>,
     \<lparr>route_authority = AnyResolver, route_outcome = Unknown, route_support = KTree,
      route_condition = NoCondition, route_status = Settled\<rparr>]"

datatype publication_error =
    WrongAuthority outcome authority authority
  | UnsupportedEvidence authority outcome support_kind
  | DecompositionVerificationMismatch outcome decomp_verification decomp_verification
  | TreeVerificationMismatch outcome tree_verification tree_verification
  | EvidenceBindingMismatch evidence_id evidence_id
  | NotAudited outcome

definition route_for :: "authority \<Rightarrow> outcome \<Rightarrow> support_kind \<Rightarrow> route option" where
  "route_for a oc k =
     List.find (\<lambda>r. route_authority r = a \<and> route_outcome r = oc \<and> route_support r = k) ROUTES"

definition check_route :: "authority \<Rightarrow> outcome \<Rightarrow> support \<Rightarrow> publication_error + route" where
  "check_route a oc s =
     (if a \<noteq> outcome_authority oc then Inl (WrongAuthority oc a (outcome_authority oc))
      else case route_for a oc (support_kind_of s) of
        None \<Rightarrow> Inl (UnsupportedEvidence a oc (support_kind_of s))
      | Some r \<Rightarrow>
          (case (route_condition r, s) of
             (NoCondition, _) \<Rightarrow> Inr r
           | (DecompositionIs expected, SupSettlement d) \<Rightarrow>
               if verification d = expected then Inr r
               else Inl (DecompositionVerificationMismatch oc expected (verification d))
           | (TreeIs expected, SupTree d) \<Rightarrow>
               if tverification d = expected then Inr r
               else Inl (TreeVerificationMismatch oc expected (tverification d))
           | (_, other) \<Rightarrow> Inl (UnsupportedEvidence a oc (support_kind_of other))))"

definition publish ::
  "(bytes \<Rightarrow> bytes) \<Rightarrow> authority \<Rightarrow> context_id \<Rightarrow> proposition_id \<Rightarrow> outcome \<Rightarrow> support
     \<Rightarrow> publication_error + judgement" where
  "publish blake3 a c p oc s =
     and_then (check_route a oc s) (\<lambda>_.
       Inr \<lparr>jcontext = c, jproposition = p, joutcome = oc, jevidence = support_evidence_id blake3 s\<rparr>)"

text \<open>\<open>AuditedSource\<close> wraps the judgement it verified.\<close>

definition audited_source_verify :: "(bytes \<Rightarrow> bytes) \<Rightarrow> judgement \<Rightarrow> support \<Rightarrow> publication_error + judgement" where
  "audited_source_verify blake3 j s =
     (if joutcome j \<noteq> Audited then Inl (NotAudited (joutcome j))
      else and_then (check_route AuditChecker Audited s) (\<lambda>_.
        let found = support_evidence_id blake3 s in
        if found \<noteq> jevidence j then Inl (EvidenceBindingMismatch (jevidence j) found)
        else Inr j))"

section \<open>What the fence promises\<close>

text \<open>Which supports bear which outcome, stated without the table.\<close>

fun bears :: "outcome \<Rightarrow> support \<Rightarrow> bool" where
  "bears Proven s \<longleftrightarrow> (\<exists>v c. s = SupKernelCertificate v c)"
| "bears Refuted s \<longleftrightarrow> (\<exists>v c. s = SupKernelRefutation v c)"
| "bears Derived s \<longleftrightarrow> (\<exists>d. s = SupSettlement d \<and> verification d = Recorded)"
| "bears Audited s \<longleftrightarrow> (\<exists>d. s = SupSettlement d \<and> verification d = ReplayVerified) \<or>
     (\<exists>d. s = SupTree d \<and> tverification d = StructureVerified)"
| "bears Measured s \<longleftrightarrow> (\<exists>b. s = SupMeasurement b \<or> s = SupExternalResult b)"
| "bears Unknown s \<longleftrightarrow> True"

lemma check_route_iff: "(\<exists>r. check_route a oc s = Inr r) \<longleftrightarrow> a = outcome_authority oc \<and> bears oc s"
  by (cases oc; cases s) (auto simp: check_route_def route_for_def ROUTES_def)

lemma publish_iff:
  "publish blake3 a c p oc s = Inr j \<longleftrightarrow> a = outcome_authority oc \<and> bears oc s \<and>
     j = \<lparr>jcontext = c, jproposition = p, joutcome = oc, jevidence = support_evidence_id blake3 s\<rparr>"
  using check_route_iff[of a oc s] by (auto simp: publish_def and_then_Inr)

lemma audited_source_iff:
  "audited_source_verify blake3 j s = Inr j' \<longleftrightarrow>
     joutcome j = Audited \<and> bears Audited s \<and> jevidence j = support_evidence_id blake3 s \<and> j' = j"
  using check_route_iff[of AuditChecker Audited s]
  by (auto simp: audited_source_verify_def and_then_Inr Let_def)

section \<open>Properties\<close>

text \<open>
  C38. The publication fence: a judgement is published exactly when the caller claims the authority of
  the outcome and presents support that bears it, and the judgement then carries the evidence of that
  support; a source passes as audited exactly when its judgement is \<open>Audited\<close> and its evidence is
  that of replayed or structurally verified support.
\<close>

theorem publish_exact:
  "(publish blake3 a c p oc s = Inr j \<longleftrightarrow> a = outcome_authority oc \<and> bears oc s \<and>
     j = \<lparr>jcontext = c, jproposition = p, joutcome = oc, jevidence = support_evidence_id blake3 s\<rparr>) \<and>
   (audited_source_verify blake3 j s = Inr j' \<longleftrightarrow>
     joutcome j = Audited \<and> bears Audited s \<and> jevidence j = support_evidence_id blake3 s \<and> j' = j)"
  by (simp only: publish_iff audited_source_iff)

end
