(* ===== verification/Settle_Commit.thy ===== *)
theory Settle_Commit
  imports Settle_Calendar Semantic_Publication
begin

text \<open>
  The committed loop of \<open>crates/soc-core\<close>: one tick enumerates the admissible candidates into a
  keyed frontier and commits the least one (\<open>commit.rs\<close>); the journal chains the committed
  steps (\<open>journal.rs\<close>); the driver ticks until the frontier is empty or the ticks run out. A
  settlement provider is the record of its two trait methods. The keyer is an \<open>FnMut\<close>: a
  function with a state that every call passes on. A tick that the reference driver turns into a
  panic is \<open>None\<close>; \<open>CommitPanicked\<close> is the abort of an \<open>expect\<close> inside a provider.
\<close>

section \<open>Data\<close>

record observation =
  outcome_class :: outcome
  judgement_digest :: digest

definition canon_write_observation :: "observation \<Rightarrow> canon_writer \<Rightarrow> canon_writer" where
  "canon_write_observation ob w = write_bytes (judgement_digest ob) (canon_write_outcome (outcome_class ob) w)"

datatype committed = Quiescent | Step observation exec_config

datatype commit_error =
    UnresolvedHandle
  | EmptyDecomposition
  | CommitChainLength nat nat
  | CommitEndpointMismatch
  | CandidateMismatch
  | WitnessMismatch
  | GeneratorMismatch
  | Publication publication_error
  | CommitPanicked

fun commit_error_of_decomposition :: "decomposition_error \<Rightarrow> commit_error" where
  "commit_error_of_decomposition (ChainLengthMismatch gs cs) = CommitChainLength gs cs"

datatype commit_tick_error = TickKeyConflict "candidate key_conflict" | TickCommit commit_error

record settlement_provider =
  sp_candidates :: provider
  sp_decompose :: "exec_config \<Rightarrow> candidate \<Rightarrow> commit_error + decomposition"

type_synonym 's keyer = "'s \<Rightarrow> candidate \<Rightarrow> u64 \<Rightarrow> key \<times> 's"

record committed_step =
  skey :: key
  sobservation :: observation
  sdecomposition :: decomposition
  ssrc :: config_id
  sdst :: config_id
  switness :: witness_id

definition canon_write_step :: "committed_step \<Rightarrow> canon_writer \<Rightarrow> canon_writer" where
  "canon_write_step st w =
     canon_write_id (switness st) (canon_write_id (sdst st) (canon_write_id (ssrc st)
       (canon_write_decomposition (sdecomposition st) (canon_write_observation (sobservation st)
         (canon_write_key (skey st) w)))))"

section \<open>The journal\<close>

record journal =
  jsteps :: "committed_step list"
  jchain :: history

definition journal_new :: "(bytes \<Rightarrow> bytes) \<Rightarrow> journal" where
  "journal_new blake3 = \<lparr>jsteps = [], jchain = history_empty blake3\<rparr>"

definition journal_append :: "(bytes \<Rightarrow> bytes) \<Rightarrow> committed_step \<Rightarrow> journal \<Rightarrow> journal" where
  "journal_append blake3 st j =
     j\<lparr>jchain := history_append blake3 (jchain j) (canon_bytes (canon_write_step st)), jsteps := jsteps j @ [st]\<rparr>"

fun replay_loop :: "(bytes \<Rightarrow> bytes) \<Rightarrow> history \<Rightarrow> committed_step list \<Rightarrow> digest list" where
  "replay_loop blake3 chain [] = []"
| "replay_loop blake3 chain (st # sts) =
     (let chain = history_append blake3 chain (canon_bytes (canon_write_step st))
      in hdigest chain # replay_loop blake3 chain sts)"

definition replay_chain :: "(bytes \<Rightarrow> bytes) \<Rightarrow> committed_step list \<Rightarrow> digest list" where
  "replay_chain blake3 sts = replay_loop blake3 (history_empty blake3) sts"

definition step_digests :: "(bytes \<Rightarrow> bytes) \<Rightarrow> journal \<Rightarrow> digest list" where
  "step_digests blake3 j = replay_chain blake3 (jsteps j)"

section \<open>The commit boundary\<close>

definition prospective_successor :: "(bytes \<Rightarrow> bytes) \<Rightarrow> exec_config \<Rightarrow> candidate \<Rightarrow> exec_config" where
  "prospective_successor blake3 e c = apply_candidate blake3 e c"

definition map_err :: "('e \<Rightarrow> 'f) \<Rightarrow> 'e + 'a \<Rightarrow> 'f + 'a" where
  "map_err f r = (case r of Inl e \<Rightarrow> Inl (f e) | Inr v \<Rightarrow> Inr v)"

definition try_commit_selected ::
  "(bytes \<Rightarrow> bytes) \<Rightarrow> key \<Rightarrow> candidate \<Rightarrow> settlement_provider \<Rightarrow> interner \<Rightarrow> exec_config \<Rightarrow> context_id
     \<Rightarrow> commit_error + (committed \<times> committed_step)" where
  "try_commit_selected blake3 k c p it e ctx =
     and_then (sp_decompose p e c) (\<lambda>d.
     and_then (ok_or (try_resolve it (world e)) UnresolvedHandle) (\<lambda>src.
     and_then (ok_or (try_resolve it (successor c)) UnresolvedHandle) (\<lambda>dst.
     and_then (ok_or (compose_chain blake3 (generators d)) EmptyDecomposition) (\<lambda>w.
     let prp = realizes_proposition_id blake3 \<lparr>rwitness = w, rsrc = src, rdst = dst\<rparr> in
     and_then (map_err Publication (publish blake3 SettlementKernel ctx prp Derived (SupSettlement d))) (\<lambda>j.
     let ob = \<lparr>outcome_class = Derived, judgement_digest = judgement_id blake3 j\<rparr> in
     Inr (Step ob (prospective_successor blake3 e c),
          \<lparr>skey = k, sobservation = ob, sdecomposition = d, ssrc = src, sdst = dst, switness = w\<rparr>))))))"

section \<open>One tick\<close>

record tick_state =
  tfrontier :: "candidate frontier"
  tfirst :: "candidate \<Rightarrow> nat option"
  twork :: nat

text \<open>The candidates of provider \<open>idx\<close>, then the loop over the providers.\<close>

fun delta_scan ::
  "adm \<Rightarrow> exec_config \<Rightarrow> u64 \<Rightarrow> 's keyer \<Rightarrow> nat \<Rightarrow> candidate list \<Rightarrow> tick_state \<Rightarrow> 's
     \<Rightarrow> (candidate key_conflict + tick_state) \<times> 's" where
  "delta_scan adm e ph keyer idx [] ts s = (Inr ts, s)"
| "delta_scan adm e ph keyer idx (c # cs) ts s =
     (let ts = ts\<lparr>twork := twork ts + 1\<rparr> in
      if adm e c then
        (case keyer s c ph of (k, s) \<Rightarrow>
         (case frontier_insert (tfrontier ts) k c of
            (f, Inl conflict) \<Rightarrow> (Inl conflict, s)
          | (f, Inr new) \<Rightarrow>
              delta_scan adm e ph keyer idx cs
                (ts\<lparr>tfrontier := f, tfirst := (if new then (tfirst ts)(c \<mapsto> idx) else tfirst ts)\<rparr>) s))
      else delta_scan adm e ph keyer idx cs ts s)"

fun delta_loop ::
  "adm \<Rightarrow> exec_config \<Rightarrow> u64 \<Rightarrow> 's keyer \<Rightarrow> nat \<Rightarrow> settlement_provider list \<Rightarrow> tick_state \<Rightarrow> 's
     \<Rightarrow> (candidate key_conflict + tick_state) \<times> 's" where
  "delta_loop adm e ph keyer idx [] ts s = (Inr ts, s)"
| "delta_loop adm e ph keyer idx (p # ps) ts s =
     (case delta_scan adm e ph keyer idx (sp_candidates p e) (ts\<lparr>twork := twork ts + 1\<rparr>) s of
        (Inl conflict, s) \<Rightarrow> (Inl conflict, s)
      | (Inr ts, s) \<Rightarrow> delta_loop adm e ph keyer (idx + 1) ps ts s)"

definition tick_new :: tick_state where
  "tick_new = \<lparr>tfrontier = [], tfirst = Map.empty, twork = 0\<rparr>"

definition try_commit_tick ::
  "(bytes \<Rightarrow> bytes) \<Rightarrow> settlement_provider list \<Rightarrow> adm \<Rightarrow> interner \<Rightarrow> exec_config \<Rightarrow> context_id \<Rightarrow> u64 \<Rightarrow> 's keyer \<Rightarrow> 's
     \<Rightarrow> (commit_tick_error + (committed \<times> committed_step option \<times> cost_record)) \<times> 's" where
  "try_commit_tick blake3 providers adm it e ctx ph keyer s =
     (case delta_loop adm e ph keyer 0 providers tick_new s of
        (Inl conflict, s) \<Rightarrow> (Inl (TickKeyConflict conflict), s)
      | (Inr ts, s) \<Rightarrow>
          (case fst (select_least (tfrontier ts)) of
             None \<Rightarrow> (Inr (Quiescent, None, Steps (twork ts)), s)
           | Some (k, c) \<Rightarrow>
               (case tfirst ts c of
                  None \<Rightarrow> (Inl (TickCommit CommitPanicked), s)
                | Some i \<Rightarrow>
                    (case try_commit_selected blake3 k c (providers ! i) it e ctx of
                       Inl err \<Rightarrow> (Inl (TickCommit err), s)
                     | Inr (cm, st) \<Rightarrow> (Inr (cm, Some st, Steps (twork ts)), s)))))"

definition commit_tick ::
  "(bytes \<Rightarrow> bytes) \<Rightarrow> settlement_provider list \<Rightarrow> adm \<Rightarrow> interner \<Rightarrow> exec_config \<Rightarrow> context_id \<Rightarrow> u64 \<Rightarrow> 's keyer \<Rightarrow> 's
     \<Rightarrow> (committed \<times> committed_step option \<times> cost_record) option \<times> 's" where
  "commit_tick blake3 providers adm it e ctx ph keyer s =
     (case try_commit_tick blake3 providers adm it e ctx ph keyer s of
        (Inr r, s) \<Rightarrow> (Some r, s)
      | (Inl _, s) \<Rightarrow> (None, s))"

section \<open>The driver\<close>

datatype unsaturated_stop = ImmediateFrontierEmpty | TickBudgetExhausted nat

text \<open>
  \<open>n\<close> is the number of ticks left; the loop variable \<open>i\<close> is the phase. A range end of type
  \<open>usize\<close> keeps it within 64 bits. \<open>Step\<close> without a logged step is the driver's own
  \<open>expect\<close>.
\<close>

fun run_loop ::
  "(bytes \<Rightarrow> bytes) \<Rightarrow> settlement_provider list \<Rightarrow> adm \<Rightarrow> interner \<Rightarrow> context_id \<Rightarrow> 's keyer \<Rightarrow> nat \<Rightarrow> nat \<Rightarrow> nat
     \<Rightarrow> exec_config \<Rightarrow> journal \<Rightarrow> cost_record list \<Rightarrow> 's \<Rightarrow> (journal \<times> cost_record list \<times> unsaturated_stop) option" where
  "run_loop blake3 providers adm it ctx keyer max_ticks i 0 e j costs s = Some (j, costs, TickBudgetExhausted max_ticks)"
| "run_loop blake3 providers adm it ctx keyer max_ticks i (Suc n) e j costs s =
     (case commit_tick blake3 providers adm it e ctx (word_of_nat i) keyer s of
        (None, s) \<Rightarrow> None
      | (Some (Quiescent, _, _), s) \<Rightarrow> Some (j, costs, ImmediateFrontierEmpty)
      | (Some (Step _ next, None, _), s) \<Rightarrow> None
      | (Some (Step _ next, Some st, cost), s) \<Rightarrow>
          run_loop blake3 providers adm it ctx keyer max_ticks (i + 1) n next (journal_append blake3 st j) (costs @ [cost]) s)"

definition run_reason ::
  "(bytes \<Rightarrow> bytes) \<Rightarrow> settlement_provider list \<Rightarrow> adm \<Rightarrow> interner \<Rightarrow> exec_config \<Rightarrow> context_id \<Rightarrow> 's keyer \<Rightarrow> 's \<Rightarrow> nat
     \<Rightarrow> (journal \<times> cost_record list \<times> unsaturated_stop) option" where
  "run_reason blake3 providers adm it e0 ctx keyer s max_ticks =
     run_loop blake3 providers adm it ctx keyer max_ticks 0 max_ticks e0 (journal_new blake3) [] s"

definition run ::
  "(bytes \<Rightarrow> bytes) \<Rightarrow> settlement_provider list \<Rightarrow> adm \<Rightarrow> interner \<Rightarrow> exec_config \<Rightarrow> context_id \<Rightarrow> 's keyer \<Rightarrow> 's \<Rightarrow> nat
     \<Rightarrow> (journal \<times> cost_record list) option" where
  "run blake3 providers adm it e0 ctx keyer s max_ticks =
     map_option (\<lambda>(j, costs, _). (j, costs)) (run_reason blake3 providers adm it e0 ctx keyer s max_ticks)"

section \<open>What the enumeration leaves in the frontier\<close>

text \<open>
  The frontier holds the admissible candidates under the keys they were given, each with the index of
  a provider that enumerates it.
\<close>

definition tick_inv ::
  "adm \<Rightarrow> exec_config \<Rightarrow> u64 \<Rightarrow> 's keyer \<Rightarrow> (nat \<Rightarrow> candidate \<Rightarrow> bool) \<Rightarrow> tick_state \<Rightarrow> bool" where
  "tick_inv adm e ph keyer enum ts \<longleftrightarrow> bt_wf (tfrontier ts) \<and>
     (\<forall>k c. bt_get (tfrontier ts) k = Some c \<longrightarrow>
        adm e c \<and> (\<exists>s. k = fst (keyer s c ph)) \<and> (\<exists>i. tfirst ts c = Some i \<and> enum i c))"

lemma tick_inv_work [simp]: "tick_inv adm e ph keyer enum (ts\<lparr>twork := n\<rparr>) = tick_inv adm e ph keyer enum ts"
  by (simp add: tick_inv_def)

lemma frontier_insert_ran:
  assumes "bt_wf fr" "frontier_insert fr k c = (f, Inr new)"
  shows "ran (bt_get f) = insert c (ran (bt_get fr))"
proof -
  have g: "bt_get f = (bt_get fr)(k \<mapsto> c)" using frontier_insert_get[OF assms] .
  consider "bt_get fr k = None" | "bt_get fr k = Some c" using assms(2) unfolding frontier_insert_Inr[OF assms(1)] by auto
  then show ?thesis
  proof cases
    case 2
    then have "bt_get f = bt_get fr" using g by (simp add: fun_upd_idem)
    then show ?thesis using ranI[of "bt_get fr" k c] 2 by auto
  qed (simp add: g ran_map_upd)
qed

lemma tick_inv_insert:
  assumes "tick_inv adm e ph keyer enum ts" "adm e c" "enum idx c" "keyer s c ph = (k, s1)"
    "frontier_insert (tfrontier ts) k c = (f, Inr new)"
  shows "tick_inv adm e ph keyer enum (ts\<lparr>tfrontier := f, tfirst := (if new then (tfirst ts)(c \<mapsto> idx) else tfirst ts)\<rparr>)"
proof -
  have wf: "bt_wf (tfrontier ts)" using assms(1) by (simp add: tick_inv_def)
  have g: "bt_get f = (bt_get (tfrontier ts))(k \<mapsto> c)" using frontier_insert_get[OF wf assms(5)] .
  have "bt_get (tfrontier ts) k = Some c" if "\<not> new" using that frontier_insert_Inr[OF wf] assms(5) by auto
  moreover have "\<exists>s. k = fst (keyer s c ph)" using assms(4) by (intro exI[of _ s]) simp
  ultimately show ?thesis
    using assms(1-3) frontier_insert_wf[OF wf assms(5)] g by (auto simp: tick_inv_def)
qed

lemma delta_scan_Inr:
  assumes "delta_scan adm e ph keyer idx cs ts s = (Inr ts', s')" "tick_inv adm e ph keyer enum ts"
    "\<And>c. c \<in> set cs \<Longrightarrow> enum idx c"
  shows "tick_inv adm e ph keyer enum ts' \<and> twork ts' = twork ts + length cs \<and>
    ran (bt_get (tfrontier ts')) = ran (bt_get (tfrontier ts)) \<union> {c \<in> set cs. adm e c}"
  using assms
proof (induction cs arbitrary: ts s)
  case (Cons c cs)
  show ?case
  proof (cases "adm e c")
    case True
    obtain k s1 where k: "keyer s c ph = (k, s1)" by fastforce
    obtain f new where f: "frontier_insert (tfrontier ts) k c = (f, Inr new)"
      using Cons.prems(1) True k by (auto simp: Let_def split: prod.splits sum.splits)
    let ?ts1 = "ts\<lparr>twork := twork ts + 1, tfrontier := f, tfirst := (if new then (tfirst ts)(c \<mapsto> idx) else tfirst ts)\<rparr>"
    have "delta_scan adm e ph keyer idx cs ?ts1 s1 = (Inr ts', s')"
      using Cons.prems(1) True k f by (simp add: Let_def split: if_splits)
    moreover have "tick_inv adm e ph keyer enum ?ts1"
      using tick_inv_insert[OF Cons.prems(2) True _ k f, of idx] Cons.prems(3) by (simp add: tick_inv_def)
    moreover have "ran (bt_get f) = insert c (ran (bt_get (tfrontier ts)))"
      using frontier_insert_ran[OF _ f] Cons.prems(2) by (simp add: tick_inv_def)
    ultimately show ?thesis using Cons.IH[of ?ts1 s1] Cons.prems(3) True by auto
  next
    case False
    then show ?thesis using Cons.IH[of "ts\<lparr>twork := twork ts + 1\<rparr>" s] Cons.prems by (auto simp: Let_def)
  qed
qed simp

text \<open>The index a candidate carries is that of a provider of the tick which enumerates it.\<close>

definition enumerates :: "settlement_provider list \<Rightarrow> exec_config \<Rightarrow> nat \<Rightarrow> candidate \<Rightarrow> bool" where
  "enumerates ps e i c \<longleftrightarrow> i < length ps \<and> c \<in> set (sp_candidates (ps ! i) e)"

definition enumeration_work :: "settlement_provider list \<Rightarrow> exec_config \<Rightarrow> nat" where
  "enumeration_work ps e = length ps + sum_list (map (\<lambda>p. length (sp_candidates p e)) ps)"

lemma delta_loop_Inr:
  assumes "delta_loop adm e ph keyer idx ps ts s = (Inr ts', s')" "tick_inv adm e ph keyer enum ts"
    "\<And>i c. i < length ps \<Longrightarrow> c \<in> set (sp_candidates (ps ! i) e) \<Longrightarrow> enum (idx + i) c"
  shows "tick_inv adm e ph keyer enum ts' \<and> twork ts' = twork ts + enumeration_work ps e \<and>
    ran (bt_get (tfrontier ts')) = ran (bt_get (tfrontier ts)) \<union> {c. adm e c \<and> (\<exists>p \<in> set ps. c \<in> set (sp_candidates p e))}"
  using assms
proof (induction ps arbitrary: idx ts s)
  case (Cons p ps)
  obtain ts1 s1 where 1: "delta_scan adm e ph keyer idx (sp_candidates p e) (ts\<lparr>twork := twork ts + 1\<rparr>) s = (Inr ts1, s1)"
    "delta_loop adm e ph keyer (idx + 1) ps ts1 s1 = (Inr ts', s')"
    using Cons.prems(1) by (auto split: prod.splits sum.splits)
  have d: "tick_inv adm e ph keyer enum ts1 \<and> twork ts1 = twork ts + 1 + length (sp_candidates p e) \<and>
      ran (bt_get (tfrontier ts1)) = ran (bt_get (tfrontier ts)) \<union> {c \<in> set (sp_candidates p e). adm e c}"
    using delta_scan_Inr[OF 1(1), of enum] Cons.prems(2) Cons.prems(3)[of 0] by simp
  have "enum (idx + 1 + i) c" if "i < length ps" "c \<in> set (sp_candidates (ps ! i) e)" for i c
    using Cons.prems(3)[of "Suc i" c] that by simp
  then show ?case using Cons.IH[OF 1(2)] d by (auto simp: enumeration_work_def)
qed (simp add: enumeration_work_def)

lemma delta_loop_tick:
  assumes "delta_loop adm e ph keyer 0 ps tick_new s = (Inr ts, s')"
  shows "tick_inv adm e ph keyer (enumerates ps e) ts" "twork ts = enumeration_work ps e"
    "ran (bt_get (tfrontier ts)) = cand (map sp_candidates ps) adm e"
  using delta_loop_Inr[OF assms, of "enumerates ps e"]
  by (auto simp: tick_inv_def tick_new_def enumerates_def cand_iff ran_def)

lemma tick_inv_get:
  "tick_inv adm e ph keyer enum ts \<Longrightarrow> bt_get (tfrontier ts) k = Some c \<Longrightarrow>
     adm e c \<and> (\<exists>s. k = fst (keyer s c ph)) \<and> (\<exists>i. tfirst ts c = Some i \<and> enum i c)"
  by (simp add: tick_inv_def)

section \<open>What a committed step records\<close>

text \<open>
  \<open>derived_step\<close> is the log integrity of a step: its witness is the composite of its generators and
  its observation is the \<open>Derived\<close> judgement that its witness realises the step, on the evidence
  of its own recorded decomposition.
\<close>

definition derived_judgement :: "(bytes \<Rightarrow> bytes) \<Rightarrow> context_id \<Rightarrow> committed_step \<Rightarrow> judgement_id" where
  "derived_judgement blake3 ctx st =
     judgement_recompute blake3 ctx
       (realizes_proposition_id blake3 \<lparr>rwitness = switness st, rsrc = ssrc st, rdst = sdst st\<rparr>) Derived
       (support_evidence_id blake3 (SupSettlement (sdecomposition st)))"

definition derived_step :: "(bytes \<Rightarrow> bytes) \<Rightarrow> context_id \<Rightarrow> committed_step \<Rightarrow> bool" where
  "derived_step blake3 ctx st \<longleftrightarrow>
     verification (sdecomposition st) = Recorded \<and>
     compose_chain blake3 (generators (sdecomposition st)) = Some (switness st) \<and>
     outcome_class (sobservation st) = Derived \<and>
     judgement_digest (sobservation st) = derived_judgement blake3 ctx st"

lemma map_err_Inr [simp]: "map_err f r = Inr v \<longleftrightarrow> r = Inr v"
  by (cases r) (auto simp: map_err_def)

lemma publish_derived:
  "verification d = Recorded \<Longrightarrow> publish blake3 SettlementKernel ctx p Derived (SupSettlement d) =
     Inr \<lparr>jcontext = ctx, jproposition = p, joutcome = Derived, jevidence = support_evidence_id blake3 (SupSettlement d)\<rparr>"
  by (simp add: publish_iff)

lemma try_commit_selected_Inr:
  "try_commit_selected blake3 k c p it e ctx = Inr (cm, st) \<longleftrightarrow>
     sp_decompose p e c = Inr (sdecomposition st) \<and> skey st = k \<and>
     try_resolve it (world e) = Some (ssrc st) \<and> try_resolve it (successor c) = Some (sdst st) \<and>
     derived_step blake3 ctx st \<and> cm = Step (sobservation st) (apply_candidate blake3 e c)"
  by (auto simp: try_commit_selected_def and_then_Inr ok_or_Inr Let_def publish_iff derived_step_def
      derived_judgement_def judgement_recompute_def prospective_successor_def)

section \<open>Keys in a tick\<close>

text \<open>A keyer without a state of its own: the key is a function of candidate and phase.\<close>

abbreviation pure_keyer :: "(candidate \<Rightarrow> u64 \<Rightarrow> key) \<Rightarrow> unit keyer" where
  "pure_keyer kf \<equiv> (\<lambda>s c ph. (kf c ph, s))"

lemma delta_scan_total:
  assumes "tick_inv adm e ph (pure_keyer kf) enum ts" "\<And>c. c \<in> set cs \<Longrightarrow> enum idx c" "inj_on (\<lambda>c. kf c ph) C"
    "ran (bt_get (tfrontier ts)) \<subseteq> C" "{c \<in> set cs. adm e c} \<subseteq> C"
  shows "\<exists>ts'. delta_scan adm e ph (pure_keyer kf) idx cs ts () = (Inr ts', ())"
  using assms
proof (induction cs arbitrary: ts)
  case (Cons c cs)
  show ?case
  proof (cases "adm e c")
    case True
    have wf: "bt_wf (tfrontier ts)" using Cons.prems(1) by (simp add: tick_inv_def)
    have "bt_get (tfrontier ts) (kf c ph) \<in> {None, Some c}"
    proof (cases "bt_get (tfrontier ts) (kf c ph)")
      case (Some c')
      then have "kf c ph = kf c' ph" "c' \<in> C"
        using tick_inv_get[OF Cons.prems(1) Some] ranI[of "bt_get (tfrontier ts)", OF Some] Cons.prems(4) by auto
      then show ?thesis using Some Cons.prems(3,5) True by (auto dest: inj_onD)
    qed simp
    then obtain f new where f: "frontier_insert (tfrontier ts) (kf c ph) c = (f, Inr new)"
      using frontier_insert_Inr[OF wf] by auto
    let ?ts1 = "ts\<lparr>twork := twork ts + 1, tfrontier := f, tfirst := (if new then (tfirst ts)(c \<mapsto> idx) else tfirst ts)\<rparr>"
    have "tick_inv adm e ph (pure_keyer kf) enum ?ts1"
      using tick_inv_insert[OF Cons.prems(1) True Cons.prems(2) refl f] by (simp add: tick_inv_def)
    moreover have "ran (bt_get f) \<subseteq> C" using frontier_insert_ran[OF wf f] Cons.prems(4,5) True by auto
    moreover have "{c \<in> set cs. adm e c} \<subseteq> C" using Cons.prems(5) by auto
    ultimately have "\<exists>ts'. delta_scan adm e ph (pure_keyer kf) idx cs ?ts1 () = (Inr ts', ())"
      using Cons.IH[of ?ts1] Cons.prems(2,3) by simp
    then show ?thesis using True f by (auto simp: Let_def split: if_splits)
  next
    case False
    then show ?thesis using Cons.IH[of "ts\<lparr>twork := twork ts + 1\<rparr>"] Cons.prems by (auto simp: Let_def)
  qed
qed simp

lemma delta_loop_total:
  assumes "tick_inv adm e ph (pure_keyer kf) enum ts" "inj_on (\<lambda>c. kf c ph) C" "ran (bt_get (tfrontier ts)) \<subseteq> C"
    "\<And>i c. i < length ps \<Longrightarrow> c \<in> set (sp_candidates (ps ! i) e) \<Longrightarrow> enum (idx + i) c"
    "{c. adm e c \<and> (\<exists>p \<in> set ps. c \<in> set (sp_candidates p e))} \<subseteq> C"
  shows "\<exists>ts'. delta_loop adm e ph (pure_keyer kf) idx ps ts () = (Inr ts', ())"
  using assms
proof (induction ps arbitrary: idx ts)
  case (Cons p ps)
  let ?ts = "ts\<lparr>twork := twork ts + 1\<rparr>"
  have p: "\<And>c. c \<in> set (sp_candidates p e) \<Longrightarrow> enum idx c" using Cons.prems(4)[of 0] by simp
  have pC: "{c \<in> set (sp_candidates p e). adm e c} \<subseteq> C" using Cons.prems(5) by auto
  obtain ts1 where 1: "delta_scan adm e ph (pure_keyer kf) idx (sp_candidates p e) ?ts () = (Inr ts1, ())"
    using delta_scan_total[of adm e ph kf enum ?ts "sp_candidates p e" idx C] Cons.prems(1-3) p pC by auto
  have d: "tick_inv adm e ph (pure_keyer kf) enum ts1" "ran (bt_get (tfrontier ts1)) \<subseteq> C"
    using delta_scan_Inr[OF 1, of enum] Cons.prems(1,3) p pC by auto
  have "enum (idx + 1 + i) c" if "i < length ps" "c \<in> set (sp_candidates (ps ! i) e)" for i c
    using Cons.prems(4)[of "Suc i" c] that by simp
  moreover have "{c. adm e c \<and> (\<exists>p \<in> set ps. c \<in> set (sp_candidates p e))} \<subseteq> C" using Cons.prems(5) by auto
  ultimately show ?case using Cons.IH[of ts1 "idx + 1"] 1 d Cons.prems(2) by simp
qed simp

lemma tick_new_simps [simp]: "tick_inv adm e ph keyer enum tick_new" "ran (bt_get (tfrontier tick_new)) = {}"
  by (simp_all add: tick_inv_def tick_new_def ran_def)

lemma delta_loop_exact:
  "(\<exists>ts. delta_loop adm e ph (pure_keyer kf) 0 ps tick_new () = (Inr ts, ())) \<longleftrightarrow>
     inj_on (\<lambda>c. kf c ph) (cand (map sp_candidates ps) adm e)" (is "?l \<longleftrightarrow> inj_on ?k ?C")
proof
  assume ?l
  then obtain ts where ts: "delta_loop adm e ph (pure_keyer kf) 0 ps tick_new () = (Inr ts, ())" by blast
  note d = delta_loop_tick[OF ts]
  show "inj_on ?k ?C"
  proof (rule inj_onI)
    fix c c' assume "c \<in> ?C" "c' \<in> ?C" and eq: "?k c = ?k c'"
    then obtain k k' where "bt_get (tfrontier ts) k = Some c" "bt_get (tfrontier ts) k' = Some c'"
      unfolding d(3)[symmetric] ran_def by blast
    then show "c = c'" using tick_inv_get[OF d(1)] eq by fastforce
  qed
next
  assume "inj_on ?k ?C"
  moreover have "{c. adm e c \<and> (\<exists>p \<in> set ps. c \<in> set (sp_candidates p e))} \<subseteq> ?C" by (auto simp: cand_iff)
  ultimately show ?l
    using delta_loop_total[of adm e ph kf "enumerates ps e" tick_new ?C ps 0] by (auto simp: enumerates_def)
qed

section \<open>Ticks\<close>

lemma try_commit_tick_Inr:
  assumes "try_commit_tick blake3 ps adm it e ctx ph keyer s = (Inr (cm, st, cost), s')"
  obtains ts where "delta_loop adm e ph keyer 0 ps tick_new s = (Inr ts, s')" "cost = Steps (twork ts)"
    "tfrontier ts = []" "cm = Quiescent" "st = None"
  | ts k c i st1 where "delta_loop adm e ph keyer 0 ps tick_new s = (Inr ts, s')" "cost = Steps (twork ts)"
    "fst (select_least (tfrontier ts)) = Some (k, c)" "tfirst ts c = Some i" "st = Some st1"
    "try_commit_selected blake3 k c (ps ! i) it e ctx = Inr (cm, st1)"
proof -
  obtain ts where d: "delta_loop adm e ph keyer 0 ps tick_new s = (Inr ts, s')"
    using assms by (auto simp: try_commit_tick_def split: prod.splits sum.splits option.splits)
  show thesis
  proof (cases "fst (select_least (tfrontier ts))")
    case None
    then have "tfrontier ts = []" using select_least_None by (metis prod.exhaust_sel)
    then show thesis using that(1) d assms None by (simp add: try_commit_tick_def)
  next
    case (Some kc)
    then show thesis using that(2) d assms
      by (cases kc) (auto simp: try_commit_tick_def split: option.splits sum.splits)
  qed
qed

lemma cand_work: "enumeration_work ps e = length (map sp_candidates ps) + (\<Sum>p \<leftarrow> map sp_candidates ps. length (p e))"
  by (simp add: enumeration_work_def o_def)

lemma tick_cost:
  "try_commit_tick blake3 ps adm it e ctx ph keyer s = (Inr (cm, st, cost), s') \<Longrightarrow>
     cost = snd (cand_instrumented (map sp_candidates ps) adm e)"
  by (erule try_commit_tick_Inr) (simp_all add: cand_instrumented_eq delta_loop_tick(2) enumeration_work_def o_def)

lemma tick_quiescent:
  "try_commit_tick blake3 ps adm it e ctx ph keyer s = (Inr (Quiescent, st, cost), s') \<Longrightarrow>
     st = None \<and> cand (map sp_candidates ps) adm e = {}"
  by (erule try_commit_tick_Inr) (auto simp: try_commit_selected_Inr delta_loop_tick(3)[symmetric] ran_def)

text \<open>What a tick that commits does: \<open>c\<close> is the candidate and \<open>i\<close> its provider.\<close>

lemma tick_step:
  assumes "try_commit_tick blake3 ps adm it e ctx ph keyer s = (Inr (Step ob next, st, cost), s')"
  obtains c i st1 where "st = Some st1" "c \<in> cand (map sp_candidates ps) adm e" "enumerates ps e i c"
    "next = apply_candidate blake3 e c" "sobservation st1 = ob" "derived_step blake3 ctx st1"
    "sp_decompose (ps ! i) e c = Inr (sdecomposition st1)"
    "try_resolve it (world e) = Some (ssrc st1)" "try_resolve it (successor c) = Some (sdst st1)"
    "\<exists>s. skey st1 = fst (keyer s c ph)" "\<And>c'. c' \<in> cand (map sp_candidates ps) adm e \<Longrightarrow> \<exists>s. skey st1 \<le> fst (keyer s c' ph)"
  using assms
proof (cases rule: try_commit_tick_Inr)
  case (2 ts k c i st1)
  note d = delta_loop_tick[OF 2(1)]
  have wf: "bt_wf (tfrontier ts)" using d(1) by (simp add: tick_inv_def)
  obtain f where sel: "select_least (tfrontier ts) = (Some (k, c), f)" using 2(3) by (metis prod.exhaust_sel)
  have get: "bt_get (tfrontier ts) k = Some c" using select_least_Some(1)[OF wf sel] .
  note st = 2(6)[unfolded try_commit_selected_Inr]
  have least: "\<exists>s. k \<le> fst (keyer s c' ph)" if c': "c' \<in> cand (map sp_candidates ps) adm e" for c'
  proof -
    obtain k' where "bt_get (tfrontier ts) k' = Some c'" using c' unfolding d(3)[symmetric] ran_def by blast
    then show ?thesis using select_least_Some(3)[OF wf sel] tick_inv_get[OF d(1)] by fastforce
  qed
  have "enumerates ps e i c" using tick_inv_get[OF d(1) get] 2(4) by auto
  moreover have "c \<in> cand (map sp_candidates ps) adm e" using get unfolding d(3)[symmetric] ran_def by blast
  moreover have "\<exists>s. skey st1 = fst (keyer s c ph)" using tick_inv_get[OF d(1) get] st by auto
  ultimately show thesis using that[OF 2(5)] st least by blast
qed simp

section \<open>Properties of a tick\<close>

text \<open>
  C5. What a tick commits: the candidates it considers are exactly the oracle's admissible set and
  its cost is the oracle's; it stops iff that set is empty; otherwise it commits the admissible
  candidate with the least key, through a provider that enumerates it, as a step with log integrity
  whose end points are the identities behind the two world handles.
\<close>

theorem tick_commits_least:
  assumes "try_commit_tick blake3 ps adm it e ctx ph (pure_keyer kf) () = (Inr (cm, st, cost), s')"
  shows "cost = snd (cand_instrumented (map sp_candidates ps) adm e) \<and>
    (cm = Quiescent \<longleftrightarrow> cand (map sp_candidates ps) adm e = {}) \<and>
    (cm = Quiescent \<longrightarrow> st = None) \<and>
    (\<forall>ob next. cm = Step ob next \<longrightarrow>
       (\<exists>c \<in> cand (map sp_candidates ps) adm e. \<exists>p \<in> set ps. \<exists>st1. st = Some st1 \<and> c \<in> set (sp_candidates p e) \<and>
          sp_decompose p e c = Inr (sdecomposition st1) \<and> next = apply_candidate blake3 e c \<and>
          try_resolve it (world e) = Some (ssrc st1) \<and> try_resolve it (world next) = Some (sdst st1) \<and>
          sobservation st1 = ob \<and> derived_step blake3 ctx st1 \<and> skey st1 = kf c ph \<and>
          (\<forall>c' \<in> cand (map sp_candidates ps) adm e. skey st1 \<le> kf c' ph)))"
proof (cases cm)
  case Quiescent
  then show ?thesis using tick_cost[OF assms] tick_quiescent[OF assms[unfolded Quiescent]] by simp
next
  case (Step ob nxt)
  show ?thesis using assms[unfolded Step]
  proof (cases rule: tick_step)
    case (1 c i st1)
    have "ps ! i \<in> set ps" "c \<in> set (sp_candidates (ps ! i) e)" using 1(3) by (simp_all add: enumerates_def)
    moreover have "world nxt = successor c" using 1(4) by (simp add: apply_candidate_def)
    ultimately show ?thesis
      using tick_cost[OF assms] 1 Step by (intro conjI) (auto intro!: bexI[of _ c] bexI[of _ "ps ! i"])
  qed
qed

text \<open>A small system for the witnesses: two candidates at world 0, none elsewhere.\<close>

definition demo_provider :: settlement_provider where
  "demo_provider = \<lparr>sp_candidates = (\<lambda>e. if world e = 0 then [\<lparr>cwitness = 10, successor = 1\<rparr>, \<lparr>cwitness = 11, successor = 2\<rparr>] else []),
     sp_decompose = (\<lambda>e c. Inr \<lparr>generators = [[1]], configs = [[5], [7]], verification = Recorded\<rparr>)\<rparr>"

definition demo_interner :: interner where
  "demo_interner = snd (intern (snd (intern (snd (intern interner_new [5])) [6])) [7])"

definition demo_key :: "candidate \<Rightarrow> u64 \<Rightarrow> key" where
  "demo_key c ph = Key ph (if cwitness c = 11 then 1 else 3) []"

definition demo_config :: exec_config where
  "demo_config = \<lparr>world = 0, policy = 0, ehistory = []\<rparr>"

lemma demo_interner_resolve: "try_resolve demo_interner 0 = Some [5]" "try_resolve demo_interner 2 = Some [7]"
  by (simp_all add: demo_interner_def intern_def interner_new_def Let_def try_resolve_def bt_get_def)

lemma demo_tick:
  "\<exists>st. try_commit_tick blake3 [demo_provider] AdmAll demo_interner demo_config [] ph (pure_keyer demo_key) () =
     (Inr (Step (sobservation st) (apply_candidate blake3 demo_config \<lparr>cwitness = 11, successor = 2\<rparr>), Some st, Steps 3), ()) \<and>
     ssrc st = [5] \<and> sdst st = [7] \<and> sdecomposition st = \<lparr>generators = [[1]], configs = [[5], [7]], verification = Recorded\<rparr>"
  by (simp add: try_commit_tick_def demo_provider_def demo_config_def demo_key_def AdmAll_def tick_new_def frontier_insert_def
      bt_get_def less_key_def select_least_def Let_def try_commit_selected_def demo_interner_resolve publish_derived
      map_err_def prospective_successor_def)

theorem tick_commits_least_witness:
  "\<exists>st. try_commit_tick id [demo_provider] AdmAll demo_interner demo_config [] 0 (pure_keyer demo_key) () =
     (Inr (Step (sobservation st) (apply_candidate id demo_config \<lparr>cwitness = 11, successor = 2\<rparr>), Some st, Steps 3), ()) \<and>
     Steps 3 = snd (cand_instrumented (map sp_candidates [demo_provider]) AdmAll demo_config) \<and> derived_step id [] st"
proof -
  obtain st where t: "try_commit_tick id [demo_provider] AdmAll demo_interner demo_config [] 0 (pure_keyer demo_key) () =
     (Inr (Step (sobservation st) (apply_candidate id demo_config \<lparr>cwitness = 11, successor = 2\<rparr>), Some st, Steps 3), ())"
    using demo_tick[of id 0] by blast
  from tick_commits_least[OF this] show ?thesis using t by (intro exI[of _ st]) blast
qed

text \<open>
  A tick reports a key conflict exactly when the keyer gives two different admissible candidates
  the same key.
\<close>

theorem tick_conflict_exact:
  "(\<exists>x s'. try_commit_tick blake3 ps adm it e ctx ph (pure_keyer kf) () = (Inl (TickKeyConflict x), s')) \<longleftrightarrow>
     (\<exists>c c'. c \<in> cand (map sp_candidates ps) adm e \<and> c' \<in> cand (map sp_candidates ps) adm e \<and> c \<noteq> c' \<and> kf c ph = kf c' ph)"
  (is "?l \<longleftrightarrow> ?r")
proof -
  let ?d = "delta_loop adm e ph (pure_keyer kf) 0 ps tick_new ()"
  have "?l \<longleftrightarrow> (\<exists>x. ?d = (Inl x, ()))"
    by (auto simp: try_commit_tick_def split: prod.splits sum.splits option.splits)
  also have "\<dots> \<longleftrightarrow> \<not> (\<exists>ts. ?d = (Inr ts, ()))" by (cases ?d; cases "fst ?d") auto
  also have "\<dots> \<longleftrightarrow> ?r" unfolding delta_loop_exact by (auto simp: inj_on_def)
  finally show ?thesis .
qed

section \<open>Runs\<close>

text \<open>
  The transition system a run follows: from \<open>e\<close>, each logged step takes an admissible candidate of
  least key at its phase and leads to the successor configuration.
\<close>

inductive settles ::
  "(bytes \<Rightarrow> bytes) \<Rightarrow> provider list \<Rightarrow> adm \<Rightarrow> interner \<Rightarrow> context_id \<Rightarrow> (candidate \<Rightarrow> u64 \<Rightarrow> key)
     \<Rightarrow> u64 \<Rightarrow> exec_config \<Rightarrow> committed_step list \<Rightarrow> exec_config \<Rightarrow> bool"
  for blake3 ps adm it ctx kf where
  settles_nil: "settles blake3 ps adm it ctx kf ph e [] e"
| settles_step:
    "c \<in> cand ps adm e \<Longrightarrow> skey st = kf c ph \<Longrightarrow> (\<forall>c' \<in> cand ps adm e. kf c ph \<le> kf c' ph) \<Longrightarrow>
     try_resolve it (world e) = Some (ssrc st) \<Longrightarrow> try_resolve it (world (apply_candidate blake3 e c)) = Some (sdst st) \<Longrightarrow>
     derived_step blake3 ctx st \<Longrightarrow>
     settles blake3 ps adm it ctx kf (ph + 1) (apply_candidate blake3 e c) sts e' \<Longrightarrow>
     settles blake3 ps adm it ctx kf ph e (st # sts) e'"

fun linked :: "committed_step list \<Rightarrow> bool" where
  "linked (st # st' # sts) \<longleftrightarrow> sdst st = ssrc st' \<and> linked (st' # sts)"
| "linked _ \<longleftrightarrow> True"

lemma settles_linked:
  "settles blake3 ps adm it ctx kf ph e sts e' \<Longrightarrow>
     linked sts \<and> list_all (derived_step blake3 ctx) sts \<and> (sts \<noteq> [] \<longrightarrow> try_resolve it (world e) = Some (ssrc (hd sts)))"
proof (induction rule: settles.induct)
  case (settles_step c e st ph sts e')
  then show ?case by (cases sts) auto
qed simp

lemma commit_tick_Some:
  "commit_tick blake3 ps adm it e ctx ph keyer s = (Some r, s') \<longleftrightarrow>
     try_commit_tick blake3 ps adm it e ctx ph keyer s = (Inr r, s')"
  by (auto simp: commit_tick_def split: prod.splits sum.splits)

lemma run_loop_settles:
  assumes "run_loop blake3 ps adm it ctx (pure_keyer kf) m i n e j costs () = Some (j', costs', stop)"
  shows "\<exists>sts e'. settles blake3 (map sp_candidates ps) adm it ctx kf (word_of_nat i) e sts e' \<and>
    j' = fold (journal_append blake3) sts j \<and> length costs' = length costs + length sts \<and>
    (stop = ImmediateFrontierEmpty \<and> length sts < n \<and> cand (map sp_candidates ps) adm e' = {} \<or>
     stop = TickBudgetExhausted m \<and> length sts = n)"
  using assms
proof (induction n arbitrary: i e j costs)
  case 0
  then show ?case by (intro exI[of _ "[]"] exI[of _ e]) (simp add: settles_nil)
next
  case (Suc n)
  obtain cm st cost where
    t: "try_commit_tick blake3 ps adm it e ctx (word_of_nat i) (pure_keyer kf) () = (Inr (cm, st, cost), ())"
    using Suc.prems by (auto simp: commit_tick_def split: prod.splits sum.splits)
  show ?case
  proof (cases cm)
    case Quiescent
    then show ?thesis using Suc.prems t tick_quiescent[OF t[unfolded Quiescent]]
      by (intro exI[of _ "[]"] exI[of _ e]) (simp add: settles_nil commit_tick_def)
  next
    case (Step ob nxt)
    from t[unfolded Step] show ?thesis
    proof (cases rule: tick_step)
      case (1 c ix st1)
      have "run_loop blake3 ps adm it ctx (pure_keyer kf) m (i + 1) n nxt (journal_append blake3 st1 j) (costs @ [cost]) () =
          Some (j', costs', stop)"
        using Suc.prems t Step 1(1) by (simp add: commit_tick_def)
      from Suc.IH[OF this] obtain sts e' where
        "settles blake3 (map sp_candidates ps) adm it ctx kf (word_of_nat (i + 1)) nxt sts e'"
        "j' = fold (journal_append blake3) sts (journal_append blake3 st1 j)" "length costs' = length costs + 1 + length sts"
        "stop = ImmediateFrontierEmpty \<and> length sts < n \<and> cand (map sp_candidates ps) adm e' = {} \<or>
         stop = TickBudgetExhausted m \<and> length sts = n" by auto
      moreover from this(1) have "settles blake3 (map sp_candidates ps) adm it ctx kf (word_of_nat i) e (st1 # sts) e'"
        using 1 by (intro settles_step[of c]) (auto simp: apply_candidate_def add.commute)
      ultimately show ?thesis by (intro exI[of _ "st1 # sts"] exI[of _ e']) auto
    qed
  qed
qed

end
