(* ===== verification/Settle_Journal.thy ===== *)
theory Settle_Journal
  imports Settle_Commit
begin

text \<open>
  What the driver of \<open>crates/soc-core/src/commit.rs\<close> leaves in its journal
  (\<open>journal.rs\<close>), and what the chain digest says of it: a journal is determined by its chain
  digest unless the hash collides on the inputs of the two chains.
\<close>

section \<open>The chain\<close>

definition step_bytes :: "committed_step \<Rightarrow> bytes" where
  "step_bytes st = canon_bytes (canon_write_step st)"

definition chain_input :: "digest \<Rightarrow> committed_step \<Rightarrow> bytes" where
  "chain_input d st = digest_preimage Value (framed d @ framed (step_bytes st))"

definition chain_head :: "(bytes \<Rightarrow> bytes) \<Rightarrow> committed_step list \<Rightarrow> digest" where
  "chain_head blake3 sts = foldl (\<lambda>d st. blake3 (chain_input d st)) (blake3 (digest_preimage Value [])) sts"

text \<open>Everything the chain over \<open>sts\<close> hashes.\<close>

definition chain_inputs :: "(bytes \<Rightarrow> bytes) \<Rightarrow> committed_step list \<Rightarrow> bytes set" where
  "chain_inputs blake3 sts =
     insert (digest_preimage Value []) {chain_input (chain_head blake3 xs) st | xs st. \<exists>ys. sts = xs @ st # ys}"

lemma chain_head_snoc [simp]: "chain_head blake3 (sts @ [st]) = blake3 (chain_input (chain_head blake3 sts) st)"
  by (simp add: chain_head_def)

lemma chain_head_Nil [simp]: "chain_head blake3 [] = blake3 (digest_preimage Value [])"
  by (simp add: chain_head_def)

lemma chain_inputs_snoc:
  "chain_inputs blake3 (sts @ [st]) = insert (chain_input (chain_head blake3 sts) st) (chain_inputs blake3 sts)"
proof -
  have "(\<exists>ys. sts @ [st] = xs @ x # ys) \<longleftrightarrow> xs = sts \<and> x = st \<or> (\<exists>ys. sts = xs @ x # ys)" for xs x
  proof
    assume "\<exists>ys. sts @ [st] = xs @ x # ys"
    then obtain ys where "sts @ [st] = xs @ x # ys" by blast
    then show "xs = sts \<and> x = st \<or> (\<exists>ys. sts = xs @ x # ys)" by (cases ys rule: rev_cases) auto
  qed auto
  then show ?thesis unfolding chain_inputs_def by auto
qed

lemma history_append_chain:
  "hdigest (history_append blake3 h (step_bytes st)) = blake3 (chain_input (hdigest h) st)"
  by (simp add: history_append_def writer_digest_def digest_of_def chain_input_def out_simps)

lemma journal_append_simps [simp]:
  "jsteps (journal_append blake3 st j) = jsteps j @ [st]"
  "hdigest (jchain (journal_append blake3 st j)) = blake3 (chain_input (hdigest (jchain j)) st)"
  "hlen (jchain (journal_append blake3 st j)) = hlen (jchain j) + 1"
  by (simp_all add: journal_append_def history_append_chain flip: step_bytes_def) (simp add: history_append_def)

lemma journal_new_simps [simp]:
  "jsteps (journal_new blake3) = []" "hdigest (jchain (journal_new blake3)) = chain_head blake3 []"
  "hlen (jchain (journal_new blake3)) = 0"
  by (simp_all add: journal_new_def history_empty_def digest_of_def)

lemma journal_fold:
  "jsteps (fold (journal_append blake3) sts (journal_new blake3)) = sts \<and>
   hdigest (jchain (fold (journal_append blake3) sts (journal_new blake3))) = chain_head blake3 sts \<and>
   hlen (jchain (fold (journal_append blake3) sts (journal_new blake3))) = length sts"
  by (induction sts rule: rev_induct) simp_all

lemma replay_loop_snoc:
  "replay_loop blake3 h (sts @ [st]) =
     replay_loop blake3 h sts @ [blake3 (chain_input (last (hdigest h # replay_loop blake3 h sts)) st)]"
  by (induction sts arbitrary: h) (simp_all add: Let_def history_append_chain flip: step_bytes_def)

lemma replay_chain_last: "last (hdigest (history_empty blake3) # replay_chain blake3 sts) = chain_head blake3 sts"
  by (induction sts rule: rev_induct)
    (simp_all add: replay_chain_def replay_loop_snoc history_empty_def digest_of_def)

lemma replay_chain_length [simp]: "length (replay_chain blake3 sts) = length sts"
proof -
  have "length (replay_loop blake3 h sts) = length sts" for h by (induction sts arbitrary: h) (simp_all add: Let_def)
  then show ?thesis by (simp add: replay_chain_def)
qed

section \<open>Steps are determined by their encoding\<close>

definition ids_wf :: "digest list \<Rightarrow> bool" where
  "ids_wf ids \<longleftrightarrow> length ids < 2 ^ 64 \<and> list_all wf_digest ids"

definition ids_bytes :: "digest list \<Rightarrow> bytes" where
  "ids_bytes ids = len_bytes (length ids) @ concat (map framed (map framed ids))"

lemma framed_digest_fits: "wf_digest d \<Longrightarrow> fits (framed d)"
  using length_uint_bytes[of "ucast (word_of_nat (length d) :: u64)"] by (simp add: wf_digest_def framed_def len_bytes_def fits_def)

interpretation ids_code: unique_code ids_bytes ids_wf
proof
  fix v w :: "digest list" and xs ys
  assume ok: "ids_wf v" "ids_wf w" and eq: "ids_bytes v @ xs = ids_bytes w @ ys"
  have f: "fits (map framed u) \<and> list_all fits (map framed u)" if "ids_wf u" for u
    using that framed_digest_fits by (auto simp: ids_wf_def fits_def[where 'a = bytes] list_all_iff)
  have "map framed v = map framed w \<and> xs = ys"
    using len_concat_unique[of "map framed v" "map framed w" xs ys] f[OF ok(1)] f[OF ok(2)] eq by (simp add: ids_bytes_def)
  moreover have "inj_on framed (set v \<union> set w)"
    using ok framed_code.enc_inj wf_digest_fits by (auto simp: inj_on_def ids_wf_def list_all_iff)
  ultimately show "v = w \<and> xs = ys" using inj_on_map_eq_map by metis
qed

definition decomposition_wf :: "decomposition \<Rightarrow> bool" where
  "decomposition_wf d \<longleftrightarrow> ids_wf (generators d) \<and> ids_wf (configs d)"

definition decomposition_bytes :: "decomposition \<Rightarrow> bytes" where
  "decomposition_bytes d = ids_bytes (generators d) @ ids_bytes (configs d) @
     uint_bytes (ucast (decomp_verification_ordinal (verification d)))"

lemma canon_write_decomposition_out [out_simps]:
  "canon_write_decomposition d w = w\<lparr>buf := buf w @ decomposition_bytes d\<rparr>"
proof -
  have "canon_bytes (canon_write_id c) = framed c" for c by (rule canon_bytes_out) (simp add: out_simps)
  then show ?thesis by (simp add: canon_write_decomposition_def decomposition_bytes_def ids_bytes_def out_simps)
qed

lemma decomp_verification_ordinal_inj: "decomp_verification_ordinal a = decomp_verification_ordinal b \<longleftrightarrow> a = b"
  by (cases a; cases b) simp_all

interpretation decomposition_code: unique_code decomposition_bytes decomposition_wf
  by unfold_locales (auto simp: decomposition_bytes_def decomposition_wf_def ids_code.append_eq_iff
      u64_code.append_eq_iff decomp_verification_ordinal_inj intro: decomposition.equality)

definition step_wf :: "committed_step \<Rightarrow> bool" where
  "step_wf st \<longleftrightarrow> wf_digest (tiebreak (skey st)) \<and> wf_digest (judgement_digest (sobservation st)) \<and>
     decomposition_wf (sdecomposition st) \<and> wf_digest (ssrc st) \<and> wf_digest (sdst st) \<and> wf_digest (switness st)"

lemma step_bytes_eq:
  "step_bytes st = uint_bytes (ucast (phase (skey st))) @ uint_bytes (ucast (priority (skey st))) @ framed (tiebreak (skey st)) @
     uint_bytes (ucast (outcome_ordinal (outcome_class (sobservation st)))) @ framed (judgement_digest (sobservation st)) @
     decomposition_bytes (sdecomposition st) @ framed (ssrc st) @ framed (sdst st) @ framed (switness st)"
  unfolding step_bytes_def
  by (rule canon_bytes_out) (simp add: canon_write_step_def canon_write_key_def canon_write_observation_def out_simps)

interpretation step_code: unique_code step_bytes step_wf
  by unfold_locales (auto simp: step_bytes_eq step_wf_def u64_code.append_eq_iff framed_id_iff outcome_ordinal_inj
      decomposition_code.append_eq_iff intro!: committed_step.equality key.expand observation.equality)

lemma chain_input_inj:
  assumes "fits d" "fits d'" "step_wf st" "step_wf st'" "fits (step_bytes st)" "fits (step_bytes st')"
  shows "chain_input d st = chain_input d' st' \<longleftrightarrow> d = d' \<and> st = st'"
  using framed_code.append_eq_iff[OF assms(1,2)] framed_code.enc_inj[OF assms(5,6)] step_code.enc_inj[OF assms(3,4)]
  by (auto simp: chain_input_def digest_preimage_inj)

lemma chain_input_initial: "chain_input d st \<noteq> digest_preimage Value []"
  using length_uint_bytes[of "ucast (word_of_nat (length d) :: u64)"] by (auto simp: chain_input_def digest_preimage_inj framed_def len_bytes_def)

lemma chain_head_digest: "(\<And>x. wf_digest (blake3 x)) \<Longrightarrow> wf_digest (chain_head blake3 sts)"
  by (cases sts rule: rev_cases) simp_all

lemma chain_head_inj:
  assumes "\<And>x. wf_digest (blake3 x)" "inj_on blake3 (chain_inputs blake3 sts \<union> chain_inputs blake3 sts')"
    "list_all (\<lambda>st. step_wf st \<and> fits (step_bytes st)) sts" "list_all (\<lambda>st. step_wf st \<and> fits (step_bytes st)) sts'"
    "chain_head blake3 sts = chain_head blake3 sts'"
  shows "sts = sts'"
  using assms(2-)
proof (induction sts arbitrary: sts' rule: rev_induct)
  case Nil
  then show ?case
  proof (cases sts' rule: rev_cases)
    case (snoc xs x)
    then show ?thesis
      using Nil inj_onD[OF Nil(1), of "digest_preimage Value []" "chain_input (chain_head blake3 xs) x"]
        chain_input_initial[of "chain_head blake3 xs" x] by (auto simp: chain_inputs_snoc chain_inputs_def)
  qed simp
next
  case (snoc st sts)
  show ?case
  proof (cases sts' rule: rev_cases)
    case Nil
    then show ?thesis
      using snoc.prems inj_onD[OF snoc.prems(1), of "digest_preimage Value []" "chain_input (chain_head blake3 sts) st"]
        chain_input_initial[of "chain_head blake3 sts" st] by (auto simp: chain_inputs_snoc chain_inputs_def)
  next
    case s': (snoc xs x)
    have "chain_input (chain_head blake3 sts) st = chain_input (chain_head blake3 xs) x"
      by (rule inj_onD[OF snoc.prems(1)]) (use snoc.prems(4) s' in \<open>simp_all add: chain_inputs_snoc\<close>)
    then have "chain_head blake3 sts = chain_head blake3 xs \<and> st = x"
      using chain_input_inj[of "chain_head blake3 sts" "chain_head blake3 xs" st x] snoc.prems(2,3) s'
        chain_head_digest[OF assms(1)] wf_digest_fits by auto
    moreover have "inj_on blake3 (chain_inputs blake3 sts \<union> chain_inputs blake3 xs)"
      using snoc.prems(1) s' by (auto simp: chain_inputs_snoc elim: inj_on_subset)
    ultimately show ?thesis using snoc.IH[of xs] snoc.prems(2,3) s' by auto
  qed
qed

lemma run_settles_fold:
  assumes "run_reason blake3 ps adm it e0 ctx (pure_keyer kf) () max_ticks = Some (j, costs, stop)"
  obtains e' where "settles blake3 (map sp_candidates ps) adm it ctx kf 0 e0 (jsteps j) e'"
    "j = fold (journal_append blake3) (jsteps j) (journal_new blake3)" "length costs = length (jsteps j)"
    "stop = ImmediateFrontierEmpty \<and> length (jsteps j) < max_ticks \<and> cand (map sp_candidates ps) adm e' = {} \<or>
     stop = TickBudgetExhausted max_ticks \<and> length (jsteps j) = max_ticks"
proof -
  obtain sts e' where r: "settles blake3 (map sp_candidates ps) adm it ctx kf 0 e0 sts e'"
    "j = fold (journal_append blake3) sts (journal_new blake3)" "length costs = length sts"
    "stop = ImmediateFrontierEmpty \<and> length sts < max_ticks \<and> cand (map sp_candidates ps) adm e' = {} \<or>
     stop = TickBudgetExhausted max_ticks \<and> length sts = max_ticks"
    using run_loop_settles[OF assms[unfolded run_reason_def]] by auto
  then show thesis using that[of e'] journal_fold by metis
qed

lemma run_derived:
  "run_reason blake3 ps adm it e0 ctx (pure_keyer kf) () max_ticks = Some (j, costs, stop) \<Longrightarrow>
     list_all (derived_step blake3 ctx) (jsteps j)"
  by (erule run_settles_fold) (use settles_linked in blast)

section \<open>Properties\<close>

text \<open>
  C6. A run that the driver finishes is a path of the settlement transition system from the initial
  configuration: every step it logs is the least-key admissible candidate at that tick, with log
  integrity and end points that link up; the journal's length, chain digest and replayed digests
  agree with the logged steps, one cost per step; and the run stops short of its ticks only in a
  configuration without admissible candidates, otherwise after exactly \<open>max_ticks\<close> steps.
\<close>

theorem run_settles:
  assumes "run_reason blake3 ps adm it e0 ctx (pure_keyer kf) () max_ticks = Some (j, costs, stop)"
  shows "linked (jsteps j) \<and> list_all (derived_step blake3 ctx) (jsteps j) \<and>
    length costs = length (jsteps j) \<and> hlen (jchain j) = length (jsteps j) \<and>
    hdigest (jchain j) = last (hdigest (history_empty blake3) # step_digests blake3 j) \<and>
    (\<exists>e'. settles blake3 (map sp_candidates ps) adm it ctx kf 0 e0 (jsteps j) e' \<and>
      (stop = ImmediateFrontierEmpty \<and> length (jsteps j) < max_ticks \<and> cand (map sp_candidates ps) adm e' = {} \<or>
       stop = TickBudgetExhausted max_ticks \<and> length (jsteps j) = max_ticks))"
proof -
  obtain e' where r: "settles blake3 (map sp_candidates ps) adm it ctx kf 0 e0 (jsteps j) e'"
    "j = fold (journal_append blake3) (jsteps j) (journal_new blake3)" "length costs = length (jsteps j)"
    "stop = ImmediateFrontierEmpty \<and> length (jsteps j) < max_ticks \<and> cand (map sp_candidates ps) adm e' = {} \<or>
     stop = TickBudgetExhausted max_ticks \<and> length (jsteps j) = max_ticks"
    using run_settles_fold[OF assms] by blast
  have "hdigest (jchain j) = chain_head blake3 (jsteps j)" "hlen (jchain j) = length (jsteps j)"
    using journal_fold[of blake3 "jsteps j"] unfolding r(2)[symmetric] by auto
  moreover have "last (hdigest (history_empty blake3) # step_digests blake3 j) = chain_head blake3 (jsteps j)"
    unfolding step_digests_def by (rule replay_chain_last)
  ultimately show ?thesis unfolding \<open>last _ = _\<close> using r settles_linked[OF r(1)] by auto
qed

lemma demo_run:
  "\<exists>j st. run_reason blake3 [demo_provider] AdmAll demo_interner demo_config [] (pure_keyer demo_key) () 3 =
     Some (j, [Steps 3], ImmediateFrontierEmpty) \<and> jsteps j = [st] \<and>
     ssrc st = [5] \<and> sdst st = [7] \<and> sdecomposition st = \<lparr>generators = [[1]], configs = [[5], [7]], verification = Recorded\<rparr>"
proof -
  let ?t = "\<lambda>e ph. try_commit_tick blake3 [demo_provider] AdmAll demo_interner e [] ph (pure_keyer demo_key) ()"
  let ?e = "apply_candidate blake3 demo_config \<lparr>cwitness = 11, successor = 2\<rparr>"
  obtain st where 1: "?t demo_config 0 = (Inr (Step (sobservation st) ?e, Some st, Steps 3), ())"
    and st: "ssrc st = [5]" "sdst st = [7]" "sdecomposition st = \<lparr>generators = [[1]], configs = [[5], [7]], verification = Recorded\<rparr>"
    using demo_tick[of blake3 0] by blast
  have 2: "?t ?e 1 = (Inr (Quiescent, None, Steps 1), ())"
    by (simp add: try_commit_tick_def demo_provider_def apply_candidate_def tick_new_def select_least_def)
  show ?thesis using 1 2 st by (simp add: run_reason_def numeral_3_eq_3 commit_tick_def)
qed

theorem run_settles_witness:
  "\<exists>j. run_reason id [demo_provider] AdmAll demo_interner demo_config [] (pure_keyer demo_key) () 3 =
     Some (j, [Steps 3], ImmediateFrontierEmpty) \<and>
     length (jsteps j) = 1 \<and> hlen (jchain j) = 1 \<and> list_all (derived_step id []) (jsteps j)"
proof -
  obtain j where j: "run_reason id [demo_provider] AdmAll demo_interner demo_config [] (pure_keyer demo_key) () 3 =
     Some (j, [Steps 3], ImmediateFrontierEmpty)" "length (jsteps j) = 1"
    using demo_run[of id] by auto
  then show ?thesis using run_settles[OF j(1)] by (intro exI[of _ j]) simp
qed

text \<open>
  C11. The chain digest determines the journal: two sequences of well-formed steps with the same
  chain digest are equal when the hash does not collide on what the two chains hash. Steps cannot be
  altered, dropped, added or reordered without changing the digest.
\<close>

theorem journal_tamper_evident:
  assumes "\<And>x. wf_digest (blake3 x)" and "inj_on blake3 (chain_inputs blake3 sts \<union> chain_inputs blake3 sts')"
    and "list_all (\<lambda>st. step_wf st \<and> fits (step_bytes st)) sts" and "list_all (\<lambda>st. step_wf st \<and> fits (step_bytes st)) sts'"
  shows "hdigest (jchain (fold (journal_append blake3) sts (journal_new blake3))) =
      hdigest (jchain (fold (journal_append blake3) sts' (journal_new blake3))) \<longleftrightarrow> sts = sts'"
  using chain_head_inj[OF assms] journal_fold by metis

definition demo_step :: committed_step where
  "demo_step =
     (let d = replicate 32 0 in
      \<lparr>skey = Key 0 1 d, sobservation = \<lparr>outcome_class = Derived, judgement_digest = d\<rparr>,
       sdecomposition = \<lparr>generators = [d], configs = [d, d], verification = Recorded\<rparr>, ssrc = d, sdst = d, switness = d\<rparr>)"

lemma demo_step_wf: "step_wf demo_step" "fits (step_bytes demo_step)"
proof -
  show "step_wf demo_step" by (simp add: demo_step_def Let_def step_wf_def decomposition_wf_def ids_wf_def wf_digest_def)
  have "length (step_bytes demo_step) = 288" by code_simp
  then show "fits (step_bytes demo_step)" by (simp add: fits_def)
qed

text \<open>A hash that tells the initial input of a chain from every other input.\<close>

definition demo_hash :: "bytes \<Rightarrow> bytes" where
  "demo_hash x = replicate 31 0 @ [if x = digest_preimage Value [] then 0 else 1]"

theorem journal_tamper_evident_witness:
  "hdigest (jchain (journal_append demo_hash demo_step (journal_new demo_hash))) \<noteq> hdigest (jchain (journal_new demo_hash))"
proof -
  have wf: "\<And>x. wf_digest (demo_hash x)" by (simp add: wf_digest_def demo_hash_def)
  have "chain_inputs demo_hash ([] @ [demo_step]) \<union> chain_inputs demo_hash [] =
      {chain_input (chain_head demo_hash []) demo_step, digest_preimage Value []}"
    unfolding chain_inputs_snoc by (auto simp: chain_inputs_def)
  then have "inj_on demo_hash (chain_inputs demo_hash [demo_step] \<union> chain_inputs demo_hash [])"
    using chain_input_initial by (auto simp: demo_hash_def inj_on_def)
  from journal_tamper_evident[OF wf this] show ?thesis by (simp add: demo_step_wf)
qed

end
