(* ===== verification/Canon_Seq.thy ===== *)
theory Canon_Seq
  imports Semantic_Ids
begin

text \<open>
  Sequences of reads. \<open>rbind\<close> is Rust's \<open>?\<close> on a result together with the mutable state the
  reads share: an error ends the sequence and leaves the state as it is then. The theory shows how
  the exactness of single reads (what is accepted is the encoding of the value, and the reader moves
  past it) composes, which carries the decoders of receipts and bundles.
\<close>

section \<open>Sequencing\<close>

definition rbind :: "('s \<Rightarrow> ('e + 'a) \<times> 's) \<Rightarrow> ('a \<Rightarrow> 's \<Rightarrow> ('e + 'b) \<times> 's) \<Rightarrow> 's \<Rightarrow> ('e + 'b) \<times> 's" where
  "rbind f g s = (case f s of (Inl e, s) \<Rightarrow> (Inl e, s) | (Inr a, s) \<Rightarrow> g a s)"

definition rret :: "'a \<Rightarrow> 's \<Rightarrow> ('e + 'a) \<times> 's" where
  "rret v s = (Inr v, s)"

definition rfail :: "'e \<Rightarrow> 's \<Rightarrow> ('e + 'a) \<times> 's" where
  "rfail e s = (Inl e, s)"

definition rmap_err :: "('e \<Rightarrow> 'f) \<Rightarrow> ('s \<Rightarrow> ('e + 'a) \<times> 's) \<Rightarrow> 's \<Rightarrow> ('f + 'a) \<times> 's" where
  "rmap_err h f s = (case f s of (Inl e, s) \<Rightarrow> (Inl (h e), s) | (Inr a, s) \<Rightarrow> (Inr a, s))"

lemma rbind_Inr: "rbind f g s = (Inr v, s') \<longleftrightarrow> (\<exists>a s1. f s = (Inr a, s1) \<and> g a s1 = (Inr v, s'))"
  by (auto simp: rbind_def split: prod.splits sum.splits)

lemma rret_Inr [simp]: "rret v s = (Inr w, s') \<longleftrightarrow> w = v \<and> s' = s"
  by (auto simp: rret_def)

lemma rfail_Inr [simp]: "rfail e s \<noteq> (Inr v, s')"
  by (simp add: rfail_def)

lemma rmap_err_Inr [simp]: "rmap_err h f s = (Inr v, s') \<longleftrightarrow> f s = (Inr v, s')"
  by (auto simp: rmap_err_def split: prod.splits sum.splits)

section \<open>Exact readers\<close>

definition exact_read :: "(canon_reader \<Rightarrow> ('e + 'a) \<times> canon_reader) \<Rightarrow> ('a \<Rightarrow> bytes) \<Rightarrow> ('a \<Rightarrow> bool) \<Rightarrow> bool" where
  "exact_read rd enc ok \<longleftrightarrow> (\<forall>r v r'. reader_ok r \<longrightarrow>
     (rd r = (Inr v, r') \<longleftrightarrow> ok v \<and> (\<exists>rest. remaining r = enc v @ rest) \<and> r' = adv r (length (enc v))))"

lemma exact_readD:
  "exact_read rd enc ok \<Longrightarrow> reader_ok r \<Longrightarrow>
     rd r = (Inr v, r') \<longleftrightarrow> ok v \<and> (\<exists>rest. remaining r = enc v @ rest) \<and> r' = adv r (length (enc v))"
  unfolding exact_read_def by blast

lemma exact_rret: "exact_read (rret v) (\<lambda>_. []) (\<lambda>w. w = v)"
  by (auto simp: exact_read_def adv_def)

lemma exact_rfail: "exact_read (rfail e) enc (\<lambda>_. False)"
  by (simp add: exact_read_def)

lemma exact_rmap_err [simp]: "exact_read (rmap_err h f) enc ok \<longleftrightarrow> exact_read f enc ok"
  by (simp add: exact_read_def)

lemma exact_cong:
  "exact_read f enc ok \<Longrightarrow> (\<And>v. ok v \<Longrightarrow> enc v = enc' v) \<Longrightarrow> (\<And>v. ok v \<longleftrightarrow> ok' v) \<Longrightarrow> exact_read f enc' ok'"
  unfolding exact_read_def by metis

text \<open>
  First the part \<open>p v\<close> of the value, then, knowing it, the rest.
\<close>

lemma exact_rbind:
  assumes f: "exact_read f enc1 ok1" and g: "\<And>a. ok1 a \<Longrightarrow> exact_read (g a) enc2 (\<lambda>v. ok v \<and> p v = a)"
    and ok: "\<And>v. ok v \<Longrightarrow> ok1 (p v)"
  shows "exact_read (rbind f g) (\<lambda>v. enc1 (p v) @ enc2 v) ok"
  unfolding exact_read_def
proof (intro allI impI)
  fix r v r' assume r: "reader_ok r"
  have adv_ok: "reader_ok (adv r (length (enc1 a)))" if "remaining r = enc1 a @ rest" for a rest
    using reader_ok_adv[OF r] that by simp
  show "rbind f g r = (Inr v, r') \<longleftrightarrow>
      ok v \<and> (\<exists>rest. remaining r = (enc1 (p v) @ enc2 v) @ rest) \<and> r' = adv r (length (enc1 (p v) @ enc2 v))"
    (is "?L \<longleftrightarrow> ?R")
  proof
    assume ?L
    then obtain a r1 where "f r = (Inr a, r1)" "g a r1 = (Inr v, r')" unfolding rbind_Inr by blast
    then show ?R using exact_readD[OF f r] exact_readD[OF g adv_ok] by fastforce
  next
    assume ?R
    then obtain rest where v: "ok v" "remaining r = enc1 (p v) @ enc2 v @ rest"
      "r' = adv r (length (enc1 (p v) @ enc2 v))" by auto
    have "f r = (Inr (p v), adv r (length (enc1 (p v))))" using exact_readD[OF f r] ok v by auto
    moreover have "g (p v) (adv r (length (enc1 (p v)))) = (Inr v, r')"
      using exact_readD[OF g[OF ok[OF v(1)]] adv_ok[OF v(2)]] v by simp
    ultimately show ?L unfolding rbind_Inr by blast
  qed
qed

text \<open>A test after a read keeps the values that pass it.\<close>

lemma exact_rif:
  assumes "\<not> b \<Longrightarrow> exact_read f enc ok" "\<And>v. ok v \<Longrightarrow> \<not> b"
  shows "exact_read (if b then rfail e else f) enc ok"
  using assms by (cases b) (auto simp: exact_read_def)

lemma exact_read_uint: "exact_read read_uint (\<lambda>v. uint_bytes (ucast v)) (\<lambda>_. True)"
  by (simp add: exact_read_def read_uint_iff)

lemma exact_read_bytes: "exact_read read_bytes framed fits"
  by (simp add: exact_read_def read_bytes_iff)

section \<open>Whole inputs\<close>

lemma exact_whole:
  assumes "exact_read f enc ok" "fits bs"
  shows "(\<exists>r. f (reader_new bs) = (Inr v, r) \<and> reader_is_empty r) \<longleftrightarrow> ok v \<and> bs = enc v"
  using exact_readD[OF assms(1) reader_ok_new[OF assms(2)], of v]
  by (auto simp: reader_is_empty_def adv_def reader_new_def remaining_def)

end
