(* ===== verification/Settle_Audit.thy ===== *)
theory Settle_Audit
  imports Settle_Journal Canon_Seq
begin

text \<open>
  The audit of committed steps (\<open>crates/soc-core/src/audit.rs\<close>) and its receipts
  (\<open>audit_receipt.rs\<close>): a step is audited by replaying its recorded decomposition against the
  registry and the declared semantics, a receipt names the environment of that replay, and a receipt
  is checked by running the audit again. The fixed reasons of the refusals are constructors; the
  claimed view of receipt bytes has the fields of the receipt. The theory shows what an audit
  establishes, that the steps of a run pass its log checks, and which bytes are accepted as a receipt.
\<close>

section \<open>Auditing one step\<close>

datatype audit_reason =
    NotInRecordedForm
  | LogIntegrity
  | EndpointsDoNotMatch
  | GeneratorOutsideRegistry
  | RelationalCompositionFailed
  | SemanticsDoesNotCover
  | AuditedPublicationRefused

record audit_receipt =
  ar_context :: context_id
  ar_committed_step :: digest
  ar_verified_decomposition :: digest
  ar_registry :: digest
  ar_semantics :: digest

record audited_step =
  audited :: judgement
  audited_id :: judgement_id
  derived_id :: judgement_id
  audit_link :: dependency
  verified :: decomposition
  audit_receipt_of :: audit_receipt

datatype audit_result = AuditedResult audited_step | UnknownResult audit_reason

definition committed_step_digest :: "(bytes \<Rightarrow> bytes) \<Rightarrow> committed_step \<Rightarrow> digest" where
  "committed_step_digest blake3 st = writer_digest blake3 (canon_write_step st canon_new) Value"

definition issue_receipt ::
  "(bytes \<Rightarrow> bytes) \<Rightarrow> committed_step \<Rightarrow> context_id \<Rightarrow> generator_registry \<Rightarrow> generator_semantics \<Rightarrow> digest \<Rightarrow> audit_receipt" where
  "issue_receipt blake3 st ctx registry sem verified_id =
     \<lparr>ar_context = ctx, ar_committed_step = committed_step_digest blake3 st, ar_verified_decomposition = verified_id,
      ar_registry = registry_id blake3 registry, ar_semantics = semantics_id blake3 sem\<rparr>"

fun replay_reason :: "replay_verification_error \<Rightarrow> audit_reason" where
  "replay_reason (GeneratorNotInRegistry _ _) = GeneratorOutsideRegistry"
| "replay_reason (RelationNotRealized _ _ _ _) = RelationalCompositionFailed"
| "replay_reason (NotRecorded _) = NotInRecordedForm"
| "replay_reason (SemanticsErr _ _) = SemanticsDoesNotCover"

text \<open>\<open>slice_first\<close> and \<open>slice_last\<close> are the slice methods.\<close>

definition slice_first :: "'a list \<Rightarrow> 'a option" where
  "slice_first xs = (case xs of [] \<Rightarrow> None | x # _ \<Rightarrow> Some x)"

definition slice_last :: "'a list \<Rightarrow> 'a option" where
  "slice_last xs = slice_first (rev xs)"

definition audit_step ::
  "(bytes \<Rightarrow> bytes) \<Rightarrow> committed_step \<Rightarrow> context_id \<Rightarrow> generator_registry \<Rightarrow> generator_semantics \<Rightarrow> audit_result" where
  "audit_step blake3 st ctx registry sem =
     (if verification (sdecomposition st) \<noteq> Recorded then UnknownResult NotInRecordedForm
      else
        let prp = realizes_proposition_id blake3 \<lparr>rwitness = switness st, rsrc = ssrc st, rdst = sdst st\<rparr>;
            derived_evidence = evidence_id blake3 (SettlementReplay (decomposition_id blake3 (sdecomposition st)));
            d_id = judgement_recompute blake3 ctx prp Derived derived_evidence
        in if outcome_class (sobservation st) \<noteq> Derived \<or> judgement_digest (sobservation st) \<noteq> d_id
           then UnknownResult LogIntegrity
           else if slice_first (configs (sdecomposition st)) \<noteq> Some (ssrc st) \<or>
                   slice_last (configs (sdecomposition st)) \<noteq> Some (sdst st)
           then UnknownResult EndpointsDoNotMatch
           else case verify_replay registry sem (sdecomposition st) of
             Inl err \<Rightarrow> UnknownResult (replay_reason err)
           | Inr v \<Rightarrow>
               (case publish blake3 AuditChecker ctx prp Audited (SupSettlement v) of
                  Inl _ \<Rightarrow> UnknownResult AuditedPublicationRefused
                | Inr j \<Rightarrow>
                    AuditedResult
                      \<lparr>audited = j, audited_id = judgement_id blake3 j, derived_id = d_id,
                       audit_link = \<lparr>dkind = Premise, dtarget = d_id\<rparr>, verified = v,
                       audit_receipt_of = issue_receipt blake3 st ctx registry sem (decomposition_id blake3 v)\<rparr>))"

definition audit_journal ::
  "(bytes \<Rightarrow> bytes) \<Rightarrow> journal \<Rightarrow> context_id \<Rightarrow> generator_registry \<Rightarrow> generator_semantics \<Rightarrow> audit_result list" where
  "audit_journal blake3 j ctx registry sem = map (\<lambda>st. audit_step blake3 st ctx registry sem) (jsteps j)"

section \<open>Receipts\<close>

definition AUDIT_RECEIPT_MARKER_V1 :: bytes where
  "AUDIT_RECEIPT_MARKER_V1 = as_bytes ''brix.soc.audit-receipt''"

definition AUDIT_RECEIPT_VERSION_V1 :: u64 where
  "AUDIT_RECEIPT_VERSION_V1 = 1"

definition AUDIT_PROFILE_V1 :: string where
  "AUDIT_PROFILE_V1 = ''brix.soc.audit-factorization@1''"

definition canon_write_receipt :: "audit_receipt \<Rightarrow> canon_writer \<Rightarrow> canon_writer" where
  "canon_write_receipt a w =
     canon_write_id (ar_semantics a) (canon_write_id (ar_registry a) (canon_write_id (ar_verified_decomposition a)
       (write_bytes (ar_committed_step a) (canon_write_id (ar_context a) (write_str AUDIT_PROFILE_V1
         (write_uint AUDIT_RECEIPT_VERSION_V1 (write_bytes AUDIT_RECEIPT_MARKER_V1 w)))))))"

definition receipt_id :: "(bytes \<Rightarrow> bytes) \<Rightarrow> audit_receipt \<Rightarrow> digest" where
  "receipt_id blake3 a = digest_of blake3 Value (finish (canon_write_receipt a canon_new))"

datatype receipt_error =
    UnexpectedSemantics digest digest
  | UnexpectedRegistry digest digest
  | SemanticsRegistryDisagreement
  | ReplayFailed audit_reason
  | FieldMismatch string
  | ReceiptBadMarker
  | ReceiptUnknownVersion u64
  | ReceiptUnknownProfile
  | ReceiptTrailingBytes
  | ReceiptBytesTooLarge nat nat
  | MalformedReceipt string

definition check_audit_receipt ::
  "(bytes \<Rightarrow> bytes) \<Rightarrow> audit_receipt \<Rightarrow> committed_step \<Rightarrow> context_id \<Rightarrow> generator_registry \<Rightarrow> generator_semantics
     \<Rightarrow> receipt_error + digest" where
  "check_audit_receipt blake3 a st ctx registry sem =
     (if ar_semantics a \<noteq> semantics_id blake3 sem then Inl (UnexpectedSemantics (semantics_id blake3 sem) (ar_semantics a))
      else if ar_registry a \<noteq> registry_id blake3 registry
      then Inl (UnexpectedRegistry (registry_id blake3 registry) (ar_registry a))
      else if require_matches_registry sem registry \<noteq> Inr () then Inl SemanticsRegistryDisagreement
      else if ar_context a \<noteq> ctx then Inl (FieldMismatch ''context'')
      else if ar_committed_step a \<noteq> committed_step_digest blake3 st then Inl (FieldMismatch ''committed_step'')
      else case audit_step blake3 st ctx registry sem of
        UnknownResult reason \<Rightarrow> Inl (ReplayFailed reason)
      | AuditedResult au \<Rightarrow>
          if ar_verified_decomposition a \<noteq> decomposition_id blake3 (verified au)
          then Inl (FieldMismatch ''verified_decomposition'')
          else if issue_receipt blake3 st ctx registry sem (decomposition_id blake3 (verified au)) \<noteq> a
          then Inl (FieldMismatch ''receipt'')
          else Inr (receipt_id blake3 a))"

subsection \<open>Receipt bytes\<close>

definition read_digest_field :: "string \<Rightarrow> string \<Rightarrow> canon_reader \<Rightarrow> (receipt_error + digest) \<times> canon_reader" where
  "read_digest_field unreadable bad_length =
     rbind (rmap_err (\<lambda>_. MalformedReceipt unreadable) read_bytes)
       (\<lambda>b. if length b \<noteq> 32 then rfail (MalformedReceipt bad_length) else rret b)"

definition claimed_fields :: "canon_reader \<Rightarrow> (receipt_error + audit_receipt) \<times> canon_reader" where
  "claimed_fields =
     rbind (rmap_err (\<lambda>_. MalformedReceipt ''cannot read marker'') read_bytes) (\<lambda>marker.
     if marker \<noteq> AUDIT_RECEIPT_MARKER_V1 then rfail ReceiptBadMarker else
     rbind (rmap_err (\<lambda>_. MalformedReceipt ''cannot read version'') read_uint) (\<lambda>version.
     if version \<noteq> AUDIT_RECEIPT_VERSION_V1 then rfail (ReceiptUnknownVersion version) else
     rbind (rmap_err (\<lambda>_. MalformedReceipt ''cannot read profile'') read_bytes) (\<lambda>profile.
     if profile \<noteq> as_bytes AUDIT_PROFILE_V1 then rfail ReceiptUnknownProfile else
     rbind (read_digest_field ''cannot read context'' ''context digest not 32 bytes'') (\<lambda>context.
     rbind (read_digest_field ''cannot read committed_step'' ''committed_step digest not 32 bytes'') (\<lambda>step.
     rbind (read_digest_field ''cannot read verified_decomposition'' ''verified_decomposition digest not 32 bytes'') (\<lambda>decomp.
     rbind (read_digest_field ''cannot read registry'' ''registry digest not 32 bytes'') (\<lambda>registry.
     rbind (read_digest_field ''cannot read semantics'' ''semantics digest not 32 bytes'') (\<lambda>semantics.
     rret \<lparr>ar_context = context, ar_committed_step = step, ar_verified_decomposition = decomp,
           ar_registry = registry, ar_semantics = semantics\<rparr>))))))))"

definition claimed_decode :: "bytes \<Rightarrow> nat \<Rightarrow> receipt_error + audit_receipt" where
  "claimed_decode bs max_receipt_bytes =
     (if length bs > max_receipt_bytes then Inl (ReceiptBytesTooLarge max_receipt_bytes (length bs))
      else case claimed_fields (reader_new bs) of
        (Inl e, r) \<Rightarrow> Inl e
      | (Inr c, r) \<Rightarrow> if \<not> reader_is_empty r then Inl ReceiptTrailingBytes else Inr c)"

record audit_decode_limits =
  max_total_bundle_bytes :: nat
  max_steps :: nat
  max_entry_bytes :: nat
  max_receipt_bytes :: nat
  max_generators_per_step :: nat
  max_configs_per_step :: nat
  max_cumulative_links :: nat
  max_cumulative_framed_bytes :: nat

definition check_audit_receipt_bytes ::
  "(bytes \<Rightarrow> bytes) \<Rightarrow> bytes \<Rightarrow> committed_step \<Rightarrow> context_id \<Rightarrow> generator_registry \<Rightarrow> generator_semantics
     \<Rightarrow> audit_decode_limits \<Rightarrow> receipt_error + digest" where
  "check_audit_receipt_bytes blake3 bs st ctx registry sem limits =
     (if length bs > max_receipt_bytes limits then Inl (ReceiptBytesTooLarge (max_receipt_bytes limits) (length bs))
      else and_then (claimed_decode bs (max_receipt_bytes limits)) (\<lambda>claimed.
      if ar_semantics claimed \<noteq> semantics_id blake3 sem
      then Inl (UnexpectedSemantics (semantics_id blake3 sem) (ar_semantics claimed))
      else if ar_registry claimed \<noteq> registry_id blake3 registry
      then Inl (UnexpectedRegistry (registry_id blake3 registry) (ar_registry claimed))
      else if require_matches_registry sem registry \<noteq> Inr () then Inl SemanticsRegistryDisagreement
      else if ar_context claimed \<noteq> ctx then Inl (FieldMismatch ''context'')
      else if ar_committed_step claimed \<noteq> committed_step_digest blake3 st then Inl (FieldMismatch ''committed_step'')
      else case audit_step blake3 st ctx registry sem of
        UnknownResult reason \<Rightarrow> Inl (ReplayFailed reason)
      | AuditedResult au \<Rightarrow>
          if ar_verified_decomposition claimed \<noteq> decomposition_id blake3 (verified au)
          then Inl (FieldMismatch ''verified_decomposition'')
          else let reissued = issue_receipt blake3 st ctx registry sem (decomposition_id blake3 (verified au))
               in if canon_bytes (canon_write_receipt reissued) \<noteq> bs then Inl (FieldMismatch ''receipt'')
                  else Inr (receipt_id blake3 reissued)))"

section \<open>What an audit establishes\<close>

text \<open>
  The committed decomposition connects the end points of the step through relations the semantics
  declares for registered generators.
\<close>

definition replays :: "generator_registry \<Rightarrow> generator_semantics \<Rightarrow> committed_step \<Rightarrow> bool" where
  "replays registry sem st \<longleftrightarrow>
     slice_first (configs (sdecomposition st)) = Some (ssrc st) \<and> slice_last (configs (sdecomposition st)) = Some (sdst st) \<and>
     realizes_chain (declared registry sem) (generators (sdecomposition st)) (configs (sdecomposition st))"

definition log_integrity :: "(bytes \<Rightarrow> bytes) \<Rightarrow> context_id \<Rightarrow> committed_step \<Rightarrow> bool" where
  "log_integrity blake3 ctx st \<longleftrightarrow>
     verification (sdecomposition st) = Recorded \<and> outcome_class (sobservation st) = Derived \<and>
     judgement_digest (sobservation st) = derived_judgement blake3 ctx st"

definition audited_outcome ::
  "(bytes \<Rightarrow> bytes) \<Rightarrow> committed_step \<Rightarrow> context_id \<Rightarrow> generator_registry \<Rightarrow> generator_semantics \<Rightarrow> audited_step" where
  "audited_outcome blake3 st ctx registry sem =
     (let v = (sdecomposition st)\<lparr>verification := ReplayVerified\<rparr>;
          j = \<lparr>jcontext = ctx,
            jproposition = realizes_proposition_id blake3 \<lparr>rwitness = switness st, rsrc = ssrc st, rdst = sdst st\<rparr>,
            joutcome = Audited, jevidence = support_evidence_id blake3 (SupSettlement v)\<rparr>
      in \<lparr>audited = j, audited_id = judgement_id blake3 j, derived_id = judgement_digest (sobservation st),
          audit_link = \<lparr>dkind = Premise, dtarget = judgement_digest (sobservation st)\<rparr>, verified = v,
          audit_receipt_of = issue_receipt blake3 st ctx registry sem (decomposition_id blake3 v)\<rparr>)"

lemma derived_step_integrity: "derived_step blake3 ctx st \<Longrightarrow> log_integrity blake3 ctx st"
  by (simp add: derived_step_def log_integrity_def)

lemma publish_audited:
  "verification d = ReplayVerified \<Longrightarrow> publish blake3 AuditChecker ctx p Audited (SupSettlement d) =
     Inr \<lparr>jcontext = ctx, jproposition = p, joutcome = Audited, jevidence = support_evidence_id blake3 (SupSettlement d)\<rparr>"
  by (simp add: publish_iff)

lemma derived_judgement_eq:
  "derived_judgement blake3 ctx st =
     judgement_recompute blake3 ctx (realizes_proposition_id blake3 \<lparr>rwitness = switness st, rsrc = ssrc st, rdst = sdst st\<rparr>)
       Derived (evidence_id blake3 (SettlementReplay (decomposition_id blake3 (sdecomposition st))))"
  by (simp add: derived_judgement_def support_evidence_id_def)

lemma audit_step_iff:
  assumes "length (configs (sdecomposition st)) = length (generators (sdecomposition st)) + 1"
  shows "audit_step blake3 st ctx registry sem = AuditedResult au \<longleftrightarrow>
    log_integrity blake3 ctx st \<and> replays registry sem st \<and> au = audited_outcome blake3 st ctx registry sem"
proof (cases "verify_replay registry sem (sdecomposition st)")
  case (Inl err)
  then have "\<not> (verification (sdecomposition st) = Recorded \<and>
      realizes_chain (declared registry sem) (generators (sdecomposition st)) (configs (sdecomposition st)))"
    using verify_replay_iff[OF assms, of registry sem "(sdecomposition st)\<lparr>verification := ReplayVerified\<rparr>"] by auto
  then show ?thesis using Inl by (auto simp: audit_step_def log_integrity_def replays_def Let_def)
next
  case (Inr v)
  then have "verification (sdecomposition st) = Recorded" "v = (sdecomposition st)\<lparr>verification := ReplayVerified\<rparr>"
    "realizes_chain (declared registry sem) (generators (sdecomposition st)) (configs (sdecomposition st))"
    using verify_replay_iff[OF assms] by auto
  then show ?thesis using Inr
    by (auto simp: audit_step_def log_integrity_def replays_def audited_outcome_def Let_def publish_audited derived_judgement_eq)
qed

section \<open>Which bytes are a receipt\<close>

definition receipt_wf :: "audit_receipt \<Rightarrow> bool" where
  "receipt_wf a \<longleftrightarrow> wf_digest (ar_context a) \<and> wf_digest (ar_committed_step a) \<and> wf_digest (ar_verified_decomposition a) \<and>
     wf_digest (ar_registry a) \<and> wf_digest (ar_semantics a)"

definition receipt_bytes :: "audit_receipt \<Rightarrow> bytes" where
  "receipt_bytes a = framed AUDIT_RECEIPT_MARKER_V1 @ uint_bytes (ucast AUDIT_RECEIPT_VERSION_V1) @
     framed (as_bytes AUDIT_PROFILE_V1) @ framed (ar_context a) @ framed (ar_committed_step a) @
     framed (ar_verified_decomposition a) @ framed (ar_registry a) @ framed (ar_semantics a)"

lemma canon_bytes_receipt: "canon_bytes (canon_write_receipt a) = receipt_bytes a"
  by (rule canon_bytes_out) (simp add: canon_write_receipt_def receipt_bytes_def out_simps)

lemma length_framed_le: "length (framed b) \<le> length b + 17"
  using length_uint_bytes[of "ucast (word_of_nat (length b) :: u64)"] by (simp add: framed_def len_bytes_def)

lemma length_framed_digest: "wf_digest d \<Longrightarrow> length (framed d) = 34"
proof -
  have "length (len_bytes 32) = 2" by code_simp
  then show "wf_digest d \<Longrightarrow> length (framed d) = 34" by (simp add: framed_def wf_digest_def)
qed

lemma length_receipt_bytes: "receipt_wf a \<Longrightarrow> length (receipt_bytes a) \<le> 400"
  using length_framed_le[of AUDIT_RECEIPT_MARKER_V1] length_framed_le[of "as_bytes AUDIT_PROFILE_V1"]
    length_framed_le[of "ar_context a"] length_framed_le[of "ar_committed_step a"]
    length_framed_le[of "ar_verified_decomposition a"] length_framed_le[of "ar_registry a"]
    length_framed_le[of "ar_semantics a"] length_uint_bytes[of "ucast AUDIT_RECEIPT_VERSION_V1"]
  by (simp add: receipt_bytes_def receipt_wf_def wf_digest_def AUDIT_RECEIPT_MARKER_V1_def AUDIT_PROFILE_V1_def as_bytes_def)

lemma issue_receipt_wf:
  "(\<And>x. wf_digest (blake3 x)) \<Longrightarrow> wf_digest ctx \<Longrightarrow> receipt_wf (issue_receipt blake3 st ctx registry sem (decomposition_id blake3 d))"
  by (simp add: receipt_wf_def issue_receipt_def committed_step_digest_def writer_digest_def digest_of_def
        decomposition_id_def registry_id_def semantics_id_def id_of_def from_canon_def)

lemma exact_mapped:
  "exact_read (rmap_err h read_bytes) framed fits"
  "exact_read (rmap_err h read_uint) (\<lambda>v. uint_bytes (ucast v)) (\<lambda>_. True)"
  by (simp_all add: exact_read_bytes exact_read_uint)

lemma exact_digest_field: "exact_read (read_digest_field u b) framed wf_digest"
proof -
  have "exact_read (read_digest_field u b) (\<lambda>v. framed (id v) @ []) wf_digest"
    unfolding read_digest_field_def
    by (rule exact_rbind[OF exact_mapped(1), where p = id and ?enc2.0 = "\<lambda>_. []"])
      (auto simp: fits_def wf_digest_def intro: exact_cong[OF exact_rret] exact_cong[OF exact_rfail])
  then show ?thesis by simp
qed

lemma fixed_fields_fit: "fits AUDIT_RECEIPT_MARKER_V1" "fits (as_bytes AUDIT_PROFILE_V1)"
  by (simp_all add: AUDIT_RECEIPT_MARKER_V1_def AUDIT_PROFILE_V1_def as_bytes_def fits_def)

text \<open>A fixed field: it is read, compared, and the rest is read.\<close>

lemma exact_fixed:
  assumes "exact_read f enc1 ok1" "ok1 c" "exact_read g enc2 ok"
  shows "exact_read (rbind f (\<lambda>x. if x \<noteq> c then rfail (err x) else g)) (\<lambda>v. enc1 c @ enc2 v) ok"
  by (rule exact_rbind[OF assms(1)]) (use assms(2,3) in \<open>auto simp: exact_rfail elim: exact_cong\<close>)

text \<open>A field of the value: the rest is read for the values that have it.\<close>

lemma exact_field:
  assumes "exact_read f enc1 ok1" "\<And>v. ok v \<Longrightarrow> ok1 (p v)" "\<And>a. ok1 a \<Longrightarrow> exact_read (g a) enc2 (\<lambda>v. ok v \<and> p v = a)"
  shows "exact_read (rbind f g) (\<lambda>v. enc1 (p v) @ enc2 v) ok"
  using exact_rbind[OF assms(1,3,2)] .

lemma exact_claimed_fields: "exact_read claimed_fields (\<lambda>a. receipt_bytes a @ []) receipt_wf"
  unfolding claimed_fields_def receipt_bytes_def append_assoc
  apply (rule exact_fixed[OF exact_mapped(1)], rule fixed_fields_fit)
  apply (rule exact_fixed[OF exact_mapped(2)], rule TrueI)
  apply (rule exact_fixed[OF exact_mapped(1)], rule fixed_fields_fit)
  apply (rule exact_field[OF exact_digest_field], simp add: receipt_wf_def)
  apply (rule exact_field[OF exact_digest_field], simp add: receipt_wf_def)
  apply (rule exact_field[OF exact_digest_field], simp add: receipt_wf_def)
  apply (rule exact_field[OF exact_digest_field], simp add: receipt_wf_def)
  apply (rule exact_field[OF exact_digest_field], simp add: receipt_wf_def)
  apply (rule exact_cong[OF exact_rret])
  by (auto simp: receipt_wf_def)

lemma claimed_decode_exact:
  assumes "fits bs"
  shows "claimed_decode bs m = Inr a \<longleftrightarrow> length bs \<le> m \<and> receipt_wf a \<and> bs = canon_bytes (canon_write_receipt a)"
proof -
  have "claimed_decode bs m = Inr a \<longleftrightarrow>
      length bs \<le> m \<and> (\<exists>r. claimed_fields (reader_new bs) = (Inr a, r) \<and> reader_is_empty r)"
    by (auto simp: claimed_decode_def split: prod.splits sum.splits if_splits)
  then show ?thesis using exact_whole[OF exact_claimed_fields assms] by (simp add: canon_bytes_receipt)
qed

lemma check_bytes_iff:
  assumes "fits bs" and "\<And>x. wf_digest (blake3 x)" and "wf_digest ctx"
  shows "check_audit_receipt_bytes blake3 bs st ctx registry sem limits = Inr i \<longleftrightarrow>
    length bs \<le> max_receipt_bytes limits \<and> require_matches_registry sem registry = Inr () \<and>
    (\<exists>au. audit_step blake3 st ctx registry sem = AuditedResult au \<and>
      bs = canon_bytes (canon_write_receipt (issue_receipt blake3 st ctx registry sem (decomposition_id blake3 (verified au)))) \<and>
      i = receipt_id blake3 (issue_receipt blake3 st ctx registry sem (decomposition_id blake3 (verified au))))"
    (is "?L \<longleftrightarrow> ?R")
proof
  assume ?L
  then show ?R
    by (auto simp: check_audit_receipt_bytes_def and_then_Inr Let_def split: if_splits audit_result.splits)
next
  assume ?R
  then obtain au where au: "audit_step blake3 st ctx registry sem = AuditedResult au" and r:
    "length bs \<le> max_receipt_bytes limits" "require_matches_registry sem registry = Inr ()"
    "bs = canon_bytes (canon_write_receipt (issue_receipt blake3 st ctx registry sem (decomposition_id blake3 (verified au))))"
    "i = receipt_id blake3 (issue_receipt blake3 st ctx registry sem (decomposition_id blake3 (verified au)))" by blast
  have "receipt_wf (issue_receipt blake3 st ctx registry sem (decomposition_id blake3 (verified au)))"
    using issue_receipt_wf[OF assms(2,3)] .
  then have "claimed_decode bs (max_receipt_bytes limits) =
      Inr (issue_receipt blake3 st ctx registry sem (decomposition_id blake3 (verified au)))"
    using claimed_decode_exact[OF assms(1)] r by blast
  then show ?L using r au by (simp add: check_audit_receipt_bytes_def Let_def issue_receipt_def)
qed

lemma replay_links_reason: "replay_links registry sem cs i gs = Inl err \<Longrightarrow> replay_reason err \<noteq> NotInRecordedForm"
  by (induction gs arbitrary: i) (auto split: if_splits sum.splits bool.splits)

lemma audit_step_integrity:
  assumes "log_integrity blake3 ctx st"
  shows "audit_step blake3 st ctx registry sem \<notin> {UnknownResult NotInRecordedForm, UnknownResult LogIntegrity}"
proof -
  have "replay_reason err \<notin> {NotInRecordedForm, LogIntegrity}" if "verify_replay registry sem (sdecomposition st) = Inl err" for err
    using that assms
    by (cases err) (auto simp: verify_replay_def log_integrity_def and_then_def split: sum.splits dest: replay_links_reason)
  then show ?thesis using assms
    by (auto simp: audit_step_def log_integrity_def Let_def derived_judgement_eq split: sum.splits)
qed

section \<open>Properties\<close>

text \<open>
  C10. The audit publishes \<open>Audited\<close> exactly for steps whose logged observation is the \<open>Derived\<close>
  judgement of their own recorded decomposition and whose decomposition leads from the source to the
  destination through relations declared for registered generators; the judgement it publishes then
  carries the replay-verified decomposition as evidence and is linked to the \<open>Derived\<close> one.
\<close>

theorem audit_step_exact:
  assumes "length (configs (sdecomposition st)) = length (generators (sdecomposition st)) + 1"
  shows "audit_step blake3 st ctx registry sem = AuditedResult au \<longleftrightarrow>
    log_integrity blake3 ctx st \<and> replays registry sem st \<and> au = audited_outcome blake3 st ctx registry sem"
  by (rule audit_step_iff[OF assms])

theorem audit_step_exact_witness:
  "audit_step (\<lambda>_. []) \<lparr>skey = Key 0 0 [], sobservation = \<lparr>outcome_class = Derived, judgement_digest = []\<rparr>,
       sdecomposition = \<lparr>generators = [[1], [2]], configs = [[5], [6], [6]], verification = Recorded\<rparr>,
       ssrc = [5], sdst = [6], switness = []\<rparr> [] [[1], [2]] [([1], ExactRows [([5], [6])]), ([2], Diagonal)]
     = AuditedResult (audited_outcome (\<lambda>_. []) \<lparr>skey = Key 0 0 [], sobservation = \<lparr>outcome_class = Derived, judgement_digest = []\<rparr>,
       sdecomposition = \<lparr>generators = [[1], [2]], configs = [[5], [6], [6]], verification = Recorded\<rparr>,
       ssrc = [5], sdst = [6], switness = []\<rparr> [] [[1], [2]] [([1], ExactRows [([5], [6])]), ([2], Diagonal)])"
  by (subst audit_step_exact)
    (simp_all add: log_integrity_def derived_judgement_def judgement_recompute_def judgement_id_def id_of_def from_canon_def
      digest_of_def replays_def slice_first_def slice_last_def declared_def)

text \<open>
  C13. Auditing the journal of a run: no step is refused for its form or its log integrity, and a step
  is audited exactly when its decomposition replays under the registry and the declared semantics.
\<close>

theorem run_audit:
  assumes "run_reason blake3 ps adm it e0 ctx (pure_keyer kf) () max_ticks = Some (j, costs, stop)"
    and "list_all (\<lambda>st. length (configs (sdecomposition st)) = length (generators (sdecomposition st)) + 1) (jsteps j)"
  shows "list_all2 (\<lambda>st r. r \<notin> {UnknownResult NotInRecordedForm, UnknownResult LogIntegrity} \<and>
      ((\<exists>au. r = AuditedResult au) \<longleftrightarrow> replays registry sem st)) (jsteps j) (audit_journal blake3 j ctx registry sem)"
proof -
  have "list_all (derived_step blake3 ctx) (jsteps j)" using run_derived[OF assms(1)] .
  then have "list_all (log_integrity blake3 ctx) (jsteps j)" by (auto simp: list_all_iff derived_step_integrity)
  then show ?thesis
    using assms(2) audit_step_integrity audit_step_iff
    by (auto simp: list_all2_conv_all_nth audit_journal_def list_all_length)
qed

theorem run_audit_witness:
  "\<exists>j au. run_reason id [demo_provider] AdmAll demo_interner demo_config [] (pure_keyer demo_key) () 3 =
     Some (j, [Steps 3], ImmediateFrontierEmpty) \<and>
     audit_journal id j [] [[1]] [([1], ExactRows [([5], [7])])] = [AuditedResult au]"
proof -
  obtain j st where j: "run_reason id [demo_provider] AdmAll demo_interner demo_config [] (pure_keyer demo_key) () 3 =
       Some (j, [Steps 3], ImmediateFrontierEmpty)" "jsteps j = [st]"
    and st: "ssrc st = [5]" "sdst st = [7]" "sdecomposition st = \<lparr>generators = [[1]], configs = [[5], [7]], verification = Recorded\<rparr>"
    using demo_run[of id] by blast
  have "replays [[1]] [([1], ExactRows [([5], [7])])] st"
    by (simp add: replays_def st slice_first_def slice_last_def declared_def)
  then show ?thesis
    using run_audit[OF j(1), of "[[1]]" "[([1], ExactRows [([5], [7])])]"] j st by (auto simp: list_all2_Cons1)
qed

text \<open>
  C12. The only byte strings accepted as a receipt for a step are those the auditor would issue itself
  under the expected registry and semantics, within the size limit, and only when the audit of the
  step succeeds and semantics and registry cover the same generators.
\<close>

theorem receipt_bytes_exact:
  assumes "fits bs" and "\<And>x. wf_digest (blake3 x)" and "wf_digest ctx"
  shows "check_audit_receipt_bytes blake3 bs st ctx registry sem limits = Inr i \<longleftrightarrow>
    length bs \<le> max_receipt_bytes limits \<and> require_matches_registry sem registry = Inr () \<and>
    (\<exists>au. audit_step blake3 st ctx registry sem = AuditedResult au \<and>
      bs = canon_bytes (canon_write_receipt (audit_receipt_of au)) \<and> i = receipt_id blake3 (audit_receipt_of au))"
proof -
  have "audit_receipt_of au = issue_receipt blake3 st ctx registry sem (decomposition_id blake3 (verified au))"
    if "audit_step blake3 st ctx registry sem = AuditedResult au" for au
    using that by (auto simp: audit_step_def Let_def split: if_splits sum.splits)
  then show ?thesis unfolding check_bytes_iff[OF assms] by metis
qed

theorem receipt_bytes_exact_witness:
  "\<exists>i. check_audit_receipt_bytes (\<lambda>_. replicate 32 0)
     (canon_bytes (canon_write_receipt (audit_receipt_of (audited_outcome (\<lambda>_. replicate 32 0) demo_step (replicate 32 0)
        [replicate 32 0] [(replicate 32 0, Diagonal)]))))
     demo_step (replicate 32 0) [replicate 32 0] [(replicate 32 0, Diagonal)]
     \<lparr>max_total_bundle_bytes = 0, max_steps = 0, max_entry_bytes = 0, max_receipt_bytes = 400, max_generators_per_step = 0,
      max_configs_per_step = 0, max_cumulative_links = 0, max_cumulative_framed_bytes = 0\<rparr> = Inr i"
proof -
  let ?h = "(\<lambda>_. replicate 32 0) :: bytes \<Rightarrow> bytes" and ?d = "replicate 32 0 :: bytes"
  let ?au = "audited_outcome ?h demo_step ?d [?d] [(?d, Diagonal)]"
  have "audit_step ?h demo_step ?d [?d] [(?d, Diagonal)] = AuditedResult ?au"
    by (subst audit_step_iff) (simp_all add: demo_step_def Let_def log_integrity_def derived_judgement_def
        judgement_recompute_def judgement_id_def id_of_def from_canon_def digest_of_def replays_def slice_first_def
        slice_last_def declared_def)
  moreover have len: "length (canon_bytes (canon_write_receipt (audit_receipt_of ?au))) \<le> 400"
    unfolding canon_bytes_receipt
    by (intro length_receipt_bytes) (simp add: audited_outcome_def Let_def issue_receipt_wf wf_digest_def)
  moreover have "require_matches_registry [(?d, Diagonal)] [?d] = Inr ()"
    by (simp add: require_matches_registry_def registry_contains_def)
  ultimately show ?thesis
    by (subst receipt_bytes_exact) (auto simp: wf_digest_def fits_def)
qed

end
