(* ===== verification/Settle_Bundle_Codec.thy ===== *)
theory Settle_Bundle_Codec
  imports Settle_Bundle
begin

text \<open>
  Decoding a bundle is exact under its limits. \<open>exact_acc\<close> extends the exactness of readers with
  the two counters: a decoder accepts a value exactly when its encoding comes next and the links and
  framed bytes it costs stay within the limits, and it then moves the reader and charges the
  counters. The rules compose decoders; what they give for the whole bundle is compared with the limit
  check of the encoder.
\<close>

section \<open>Decoders with counters\<close>

definition limits_ok :: "audit_decode_limits \<Rightarrow> bool" where
  "limits_ok lim \<longleftrightarrow> max_cumulative_links lim < USIZE_BOUND \<and> max_cumulative_framed_bytes lim < USIZE_BOUND"

definition acc_ok :: "audit_decode_limits \<Rightarrow> decode_state \<Rightarrow> bool" where
  "acc_ok lim s \<longleftrightarrow> reader_ok (brd s) \<and> blinks s \<le> max_cumulative_links lim \<and> bframed s \<le> max_cumulative_framed_bytes lim"

definition acc_step :: "decode_state \<Rightarrow> nat \<Rightarrow> nat \<Rightarrow> nat \<Rightarrow> decode_state" where
  "acc_step s n l f = s\<lparr>brd := adv (brd s) n, blinks := blinks s + l, bframed := bframed s + f\<rparr>"

definition exact_acc ::
  "audit_decode_limits \<Rightarrow> (bytes \<Rightarrow> bool) \<Rightarrow> 'a decode \<Rightarrow> ('a \<Rightarrow> bytes) \<Rightarrow> ('a \<Rightarrow> bool) \<Rightarrow> ('a \<Rightarrow> nat) \<Rightarrow> ('a \<Rightarrow> nat) \<Rightarrow> bool" where
  "exact_acc lim T d enc ok cl cf \<longleftrightarrow> (\<forall>s v s'. acc_ok lim s \<longrightarrow>
     (d s = (Inr v, s') \<longleftrightarrow> ok v \<and> (\<exists>rest. T rest \<and> remaining (brd s) = enc v @ rest) \<and>
        blinks s + cl v \<le> max_cumulative_links lim \<and> bframed s + cf v \<le> max_cumulative_framed_bytes lim \<and>
        s' = acc_step s (length (enc v)) (cl v) (cf v)))"

lemma exact_accD:
  "exact_acc lim T d enc ok cl cf \<Longrightarrow> acc_ok lim s \<Longrightarrow>
     d s = (Inr v, s') \<longleftrightarrow> ok v \<and> (\<exists>rest. T rest \<and> remaining (brd s) = enc v @ rest) \<and>
        blinks s + cl v \<le> max_cumulative_links lim \<and> bframed s + cf v \<le> max_cumulative_framed_bytes lim \<and>
        s' = acc_step s (length (enc v)) (cl v) (cf v)"
  unfolding exact_acc_def by blast

lemma acc_step_simps [simp]:
  "brd (acc_step s n l f) = adv (brd s) n" "blinks (acc_step s n l f) = blinks s + l" "bframed (acc_step s n l f) = bframed s + f"
  "acc_step (acc_step s n l f) n' l' f' = acc_step s (n + n') (l + l') (f + f')"
  by (simp_all add: acc_step_def add.assoc)

lemma acc_step_ok:
  "acc_ok lim s \<Longrightarrow> remaining (brd s) = bs @ rest \<Longrightarrow> blinks s + l \<le> max_cumulative_links lim \<Longrightarrow>
     bframed s + f \<le> max_cumulative_framed_bytes lim \<Longrightarrow> acc_ok lim (acc_step s (length bs) l f)"
  by (simp add: acc_ok_def reader_ok_adv)

lemma exact_acc_cong:
  "exact_acc lim T d enc ok cl cf \<Longrightarrow> (\<And>v. ok v \<longleftrightarrow> ok' v) \<Longrightarrow> (\<And>v. ok v \<Longrightarrow> enc v = enc' v \<and> cl v = cl' v \<and> cf v = cf' v) \<Longrightarrow>
     exact_acc lim T d enc' ok' cl' cf'"
proof -
  assume a: "exact_acc lim T d enc ok cl cf" "\<And>v. ok v \<longleftrightarrow> ok' v" "\<And>v. ok v \<Longrightarrow> enc v = enc' v \<and> cl v = cl' v \<and> cf v = cf' v"
  show ?thesis unfolding exact_acc_def
  proof (intro allI impI)
    fix s v s' assume "acc_ok lim s"
    from exact_accD[OF a(1) this, of v s'] show "d s = (Inr v, s') \<longleftrightarrow> ok' v \<and> (\<exists>rest. T rest \<and> remaining (brd s) = enc' v @ rest) \<and>
        blinks s + cl' v \<le> max_cumulative_links lim \<and> bframed s + cf' v \<le> max_cumulative_framed_bytes lim \<and>
        s' = acc_step s (length (enc' v)) (cl' v) (cf' v)"
      using a(2)[of v] a(3)[of v] by (cases "ok v") simp_all
  qed
qed

lemma acc_rbind:
  assumes f: "exact_acc lim (\<lambda>_. True) f enc1 ok1 cl1 cf1"
    and g: "\<And>a. ok1 a \<Longrightarrow> exact_acc lim T (g a) enc2 (\<lambda>v. ok v \<and> p v = a) cl2 cf2"
    and ok: "\<And>v. ok v \<Longrightarrow> ok1 (p v)"
  shows "exact_acc lim T (rbind f g) (\<lambda>v. enc1 (p v) @ enc2 v) ok (\<lambda>v. cl1 (p v) + cl2 v) (\<lambda>v. cf1 (p v) + cf2 v)"
  unfolding exact_acc_def
proof (intro allI impI)
  fix s v s' assume s: "acc_ok lim s"
  show "rbind f g s = (Inr v, s') \<longleftrightarrow> ok v \<and> (\<exists>rest. T rest \<and> remaining (brd s) = (enc1 (p v) @ enc2 v) @ rest) \<and>
      blinks s + (cl1 (p v) + cl2 v) \<le> max_cumulative_links lim \<and>
      bframed s + (cf1 (p v) + cf2 v) \<le> max_cumulative_framed_bytes lim \<and>
      s' = acc_step s (length (enc1 (p v) @ enc2 v)) (cl1 (p v) + cl2 v) (cf1 (p v) + cf2 v)" (is "?L \<longleftrightarrow> ?R")
  proof
    assume ?L
    then obtain a s1 where fs: "f s = (Inr a, s1)" and gs: "g a s1 = (Inr v, s')" unfolding rbind_Inr by blast
    from fs have a: "ok1 a" "\<exists>rest. remaining (brd s) = enc1 a @ rest" "s1 = acc_step s (length (enc1 a)) (cl1 a) (cf1 a)"
      "blinks s + cl1 a \<le> max_cumulative_links lim" "bframed s + cf1 a \<le> max_cumulative_framed_bytes lim"
      unfolding exact_accD[OF f s] by simp_all
    then have s1: "acc_ok lim s1" using acc_step_ok[OF s] by blast
    show ?R using gs a unfolding exact_accD[OF g[OF a(1)] s1] by (auto simp: add.assoc)
  next
    assume R: ?R
    then obtain rest where v: "ok v" "remaining (brd s) = enc1 (p v) @ enc2 v @ rest" "T rest" by auto
    let ?s1 = "acc_step s (length (enc1 (p v))) (cl1 (p v)) (cf1 (p v))"
    have fs: "f s = (Inr (p v), ?s1)" using exact_accD[OF f s] ok[OF v(1)] v R by auto
    have "acc_ok lim ?s1" using acc_step_ok[OF s v(2)] R by auto
    then have "g (p v) ?s1 = (Inr v, s')"
      using exact_accD[OF g[OF ok[OF v(1)]]] v R by (auto simp: add.assoc)
    then show ?L using fs unfolding rbind_Inr by blast
  qed
qed

lemma acc_rret: "exact_acc lim (\<lambda>_. True) (rret v) (\<lambda>_. []) (\<lambda>w. w = v) (\<lambda>_. 0) (\<lambda>_. 0)"
  by (auto simp: exact_acc_def acc_step_def adv_def acc_ok_def)

lemma acc_rfail: "exact_acc lim T (rfail e) enc (\<lambda>_. False) cl cf"
  by (simp add: exact_acc_def)

lemma acc_rif:
  "(\<not> b \<Longrightarrow> exact_acc lim T f enc ok cl cf) \<Longrightarrow> (\<And>v. ok v \<Longrightarrow> \<not> b) \<Longrightarrow> exact_acc lim T (if b then rfail e else f) enc ok cl cf"
  by (cases b) (auto simp: exact_acc_def)

lemma rd_Inr: "rd f s = (Inr v, s') \<longleftrightarrow> (\<exists>r. f (brd s) = (Inr v, r) \<and> s' = s\<lparr>brd := r\<rparr>)"
  by (auto simp: rd_def split: prod.splits sum.splits)

lemma acc_rd: "exact_read f enc ok \<Longrightarrow> exact_acc lim (\<lambda>_. True) (rd f) enc ok (\<lambda>_. 0) (\<lambda>_. 0)"
  by (auto simp: exact_acc_def rd_Inr exact_readD acc_ok_def acc_step_def)

lemma acc_charge_framed:
  "limits_ok lim \<Longrightarrow>
     exact_acc lim (\<lambda>_. True) (charge_framed (max_cumulative_framed_bytes lim) n) (\<lambda>_. []) (\<lambda>_. True) (\<lambda>_. 0) (\<lambda>_. n)"
  by (auto simp: exact_acc_def charge_framed_def checked_add_usize_def acc_step_def adv_def acc_ok_def limits_ok_def Let_def)

lemma acc_charge_links:
  "limits_ok lim \<Longrightarrow>
     exact_acc lim (\<lambda>_. True) (charge_links (max_cumulative_links lim) n) (\<lambda>_. []) (\<lambda>_. True) (\<lambda>_. n) (\<lambda>_. 0)"
  by (auto simp: exact_acc_def charge_links_def checked_add_usize_def acc_step_def adv_def acc_ok_def limits_ok_def Let_def)

lemma acc_consumed: "exact_acc lim (\<lambda>r. r = []) (consumed e v) (\<lambda>_. []) (\<lambda>w. w = v) (\<lambda>_. 0) (\<lambda>_. 0)"
  by (auto simp: exact_acc_def consumed_def acc_step_def adv_def acc_ok_def reader_is_empty_iff)

lemma acc_nested:
  assumes "exact_acc lim (\<lambda>r. r = []) f enc ok cl cf" "fits frame"
  shows "exact_acc lim (\<lambda>_. True) (nested frame f) (\<lambda>_. []) (\<lambda>v. ok v \<and> enc v = frame) cl cf"
  unfolding exact_acc_def
proof (intro allI impI)
  fix s v s' assume s: "acc_ok lim s"
  let ?s = "s\<lparr>brd := reader_new frame\<rparr>"
  have "acc_ok lim ?s" using s reader_ok_new[OF assms(2)] by (simp add: acc_ok_def)
  note f = exact_accD[OF assms(1) this]
  have "nested frame f s = (Inr v, s') \<longleftrightarrow> (\<exists>s1. f ?s = (Inr v, s1) \<and> s' = s1\<lparr>brd := brd s\<rparr>)"
    by (auto simp: nested_def split: prod.splits)
  then show "nested frame f s = (Inr v, s') \<longleftrightarrow> (ok v \<and> enc v = frame) \<and> (\<exists>rest. True \<and> remaining (brd s) = [] @ rest) \<and>
      blinks s + cl v \<le> max_cumulative_links lim \<and> bframed s + cf v \<le> max_cumulative_framed_bytes lim \<and>
      s' = acc_step s (length []) (cl v) (cf v)"
    unfolding f by (auto simp: acc_step_def adv_def)
qed

text \<open>Special cases of the sequence rule.\<close>

lemma acc_fixed:
  assumes "exact_acc lim (\<lambda>_. True) f enc1 ok1 (\<lambda>_. 0) cf1" "ok1 c" "exact_acc lim T g enc2 ok cl cf"
  shows "exact_acc lim T (rbind f (\<lambda>x. if x \<noteq> c then rfail (err x) else g)) (\<lambda>v. enc1 c @ enc2 v) ok cl (\<lambda>v. cf1 c + cf v)"
proof -
  have "exact_acc lim T (rbind f (\<lambda>x. if x \<noteq> c then rfail (err x) else g)) (\<lambda>v. enc1 c @ enc2 v) ok (\<lambda>v. 0 + cl v) (\<lambda>v. cf1 c + cf v)"
    by (rule acc_rbind[OF assms(1)]) (use assms(2,3) in \<open>auto intro: exact_acc_cong[OF acc_rfail] exact_acc_cong\<close>)
  then show ?thesis by simp
qed

lemma acc_fixed':
  assumes "exact_acc lim (\<lambda>_. True) f enc1 ok1 (\<lambda>_. 0) cf1" "ok1 c" "exact_acc lim T (g c) enc2 ok cl cf"
  shows "exact_acc lim T (rbind f (\<lambda>x. if x \<noteq> c then rfail (err x) else g x)) (\<lambda>v. enc1 c @ enc2 v) ok cl (\<lambda>v. cf1 c + cf v)"
proof -
  have "(\<lambda>x. if x \<noteq> c then rfail (err x) else g x) = (\<lambda>x. if x \<noteq> c then rfail (err x) else g c)" by auto
  then show ?thesis using acc_fixed[OF assms] by simp
qed

lemma acc_charge:
  assumes "limits_ok lim" "exact_acc lim T g enc ok cl cf"
  shows "exact_acc lim T (rbind (charge_framed (max_cumulative_framed_bytes lim) n) (\<lambda>_. g)) enc ok cl (\<lambda>v. n + cf v)"
proof -
  have "exact_acc lim T (rbind (charge_framed (max_cumulative_framed_bytes lim) n) (\<lambda>_. g)) (\<lambda>v. [] @ enc v) ok
      (\<lambda>v. 0 + cl v) (\<lambda>v. n + cf v)"
    by (rule acc_rbind[OF acc_charge_framed[OF assms(1)], where p = "\<lambda>_. ()"]) (use assms(2) in \<open>auto intro: exact_acc_cong\<close>)
  then show ?thesis by simp
qed

lemma acc_links:
  assumes "limits_ok lim" "exact_acc lim T g enc ok cl cf"
  shows "exact_acc lim T (rbind (charge_links (max_cumulative_links lim) n) (\<lambda>_. g)) enc ok (\<lambda>v. n + cl v) cf"
proof -
  have "exact_acc lim T (rbind (charge_links (max_cumulative_links lim) n) (\<lambda>_. g)) (\<lambda>v. [] @ enc v) ok
      (\<lambda>v. n + cl v) (\<lambda>v. 0 + cf v)"
    by (rule acc_rbind[OF acc_charge_links[OF assms(1)], where p = "\<lambda>_. ()"]) (use assms(2) in \<open>auto intro: exact_acc_cong\<close>)
  then show ?thesis by simp
qed

lemma acc_field:
  assumes "exact_acc lim (\<lambda>_. True) f enc1 ok1 (\<lambda>_. 0) (\<lambda>_. n)" "\<And>v. ok v \<Longrightarrow> ok1 (p v)"
    "\<And>a. ok1 a \<Longrightarrow> exact_acc lim T (g a) enc2 (\<lambda>v. ok v \<and> p v = a) cl cf"
  shows "exact_acc lim T (rbind f g) (\<lambda>v. enc1 (p v) @ enc2 v) ok cl (\<lambda>v. n + cf v)"
  using acc_rbind[OF assms(1,3,2)] by simp

lemma acc_count:
  assumes "\<And>v. ok v \<Longrightarrow> p v < 2 ^ 64" "\<And>n. n < 2 ^ 64 \<Longrightarrow> exact_acc lim T (g n) enc (\<lambda>v. ok v \<and> p v = n) cl cf"
  shows "exact_acc lim T (rbind (rd read_uint) (\<lambda>c. rbind (try_count c) g)) (\<lambda>v. len_bytes (p v) @ enc v) ok cl cf"
proof -
  have u: "unat c < 2 ^ 64" for c :: u64
    using unsigned_less[where w = c and 'a = nat] by simp
  have t: "try_count c = rret (unat c)" for c using u[of c] by (simp add: try_count_def usize_try_from_def USIZE_BOUND_def)
  have r: "rbind (rret x) g = g x" for x :: nat by (auto simp: rbind_def rret_def)
  have "exact_acc lim T (rbind (rd read_uint) (\<lambda>c. g (unat c))) (\<lambda>v. uint_bytes (ucast (word_of_nat (p v) :: u64)) @ enc v) ok
      cl (\<lambda>v. 0 + cf v)"
  proof (rule acc_field[OF acc_rd[OF exact_read_uint]])
    fix c :: u64
    from assms(2)[OF u] show "exact_acc lim T (g (unat c)) enc (\<lambda>v. ok v \<and> word_of_nat (p v) = c) cl cf"
      by (rule exact_acc_cong) (use assms(1) in \<open>auto simp: unat_of_nat\<close>)
  qed simp
  then show ?thesis by (simp add: t r len_bytes_def)
qed

section \<open>Digests and identifiers\<close>

lemma acc_digest_array: "exact_acc lim (\<lambda>_. True) (digest_array b) (\<lambda>_. []) (\<lambda>v. wf_digest v \<and> v = b) (\<lambda>_. 0) (\<lambda>_. 0)"
  unfolding digest_array_def wf_digest_def
  by (cases "length b = 32") (auto intro: exact_acc_cong[OF acc_rret] exact_acc_cong[OF acc_rfail])

lemma acc_digest:
  assumes "limits_ok lim"
  shows "exact_acc lim (\<lambda>_. True) (read_digest_framed (max_cumulative_framed_bytes lim)) framed wf_digest (\<lambda>_. 0) (\<lambda>_. 32)"
proof -
  have "exact_acc lim (\<lambda>_. True) (read_digest_framed (max_cumulative_framed_bytes lim)) (\<lambda>v. framed (id v) @ []) wf_digest
      (\<lambda>v. 0 + 0) (\<lambda>v. 0 + (length v + 0))"
    unfolding read_digest_framed_def
  proof (rule acc_rbind[OF acc_rd[OF exact_read_bytes]])
    fix b :: bytes assume "fits b"
    show "exact_acc lim (\<lambda>_. True) (rbind (charge_framed (max_cumulative_framed_bytes lim) (length b)) (\<lambda>_. digest_array b))
        (\<lambda>v. []) (\<lambda>v. wf_digest v \<and> id v = b) (\<lambda>v. 0) (\<lambda>v. length v + 0)"
      by (rule exact_acc_cong[OF acc_charge[OF assms acc_digest_array]]) auto
  qed (simp add: wf_digest_fits)
  then show ?thesis by (rule exact_acc_cong) (auto simp: wf_digest_def)
qed

lemma acc_id_item:
  assumes "limits_ok lim"
  shows "exact_acc lim (\<lambda>_. True) (read_id_from_list_item (max_cumulative_framed_bytes lim))
    (\<lambda>d. framed (framed d)) wf_digest (\<lambda>_. 0) (\<lambda>_. 66)"
proof -
  let ?m = "max_cumulative_framed_bytes lim"
  have body: "exact_acc lim (\<lambda>r. r = []) (rbind (rd read_bytes) (\<lambda>b. rbind (charge_framed ?m (length b)) (\<lambda>_. consumed e b)))
      (\<lambda>v. framed (id v) @ []) fits (\<lambda>v. 0 + 0) (\<lambda>v. 0 + (length v + 0))" for e
    by (rule acc_rbind[OF acc_rd[OF exact_read_bytes]])
      (auto intro: exact_acc_cong[OF acc_charge[OF assms acc_consumed]])
  have tail: "exact_acc lim (\<lambda>_. True) (rbind (nested item (rbind (rd read_bytes) (\<lambda>b. rbind (charge_framed ?m (length b))
      (\<lambda>_. consumed TrailingBytesInEntry b)))) digest_array)
      (\<lambda>v. [] @ []) (\<lambda>v. wf_digest v \<and> framed v = item) (\<lambda>v. (0 + 0) + 0) (\<lambda>v. (0 + (length (id v) + 0)) + 0)"
    if "fits item" for item
    by (rule acc_rbind[OF acc_nested[OF body that], where p = id])
      (auto intro: exact_acc_cong[OF acc_digest_array] simp: wf_digest_fits)
  have "exact_acc lim (\<lambda>_. True) (read_id_from_list_item ?m) (\<lambda>v. framed (framed v) @ []) wf_digest
      (\<lambda>v. 0 + 0) (\<lambda>v. 0 + (length (framed v) + length v))"
    unfolding read_id_from_list_item_def
  proof (rule acc_rbind[OF acc_rd[OF exact_read_bytes]])
    fix item :: bytes assume item: "fits item"
    show "exact_acc lim (\<lambda>_. True) (rbind (charge_framed ?m (length item)) (\<lambda>_. rbind (nested item (rbind (rd read_bytes)
        (\<lambda>b. rbind (charge_framed ?m (length b)) (\<lambda>_. consumed TrailingBytesInEntry b)))) digest_array))
        (\<lambda>v. []) (\<lambda>v. wf_digest v \<and> framed v = item) (\<lambda>v. 0) (\<lambda>v. length (framed v) + length v)"
      by (rule exact_acc_cong[OF acc_charge[OF assms tail[OF item]]]) auto
  qed (simp add: framed_digest_fits)
  then show ?thesis by (rule exact_acc_cong) (auto simp: length_framed_digest, simp add: wf_digest_def)
qed

lemma acc_ids:
  assumes "limits_ok lim"
  shows "exact_acc lim (\<lambda>_. True) (read_ids (max_cumulative_framed_bytes lim) n)
    (\<lambda>ds. concat (map framed (map framed ds))) (\<lambda>ds. length ds = n \<and> list_all wf_digest ds) (\<lambda>_. 0) (\<lambda>_. 66 * n)"
proof (induction n)
  case 0
  then show ?case by (auto intro: exact_acc_cong[OF acc_rret])
next
  case (Suc n)
  let ?m = "max_cumulative_framed_bytes lim" and ?ok = "\<lambda>ds. length ds = Suc n \<and> list_all wf_digest ds"
  have "exact_acc lim (\<lambda>_. True) (read_ids ?m (Suc n))
      (\<lambda>ds. framed (framed (hd ds)) @ concat (map framed (map framed (tl ds))) @ []) ?ok (\<lambda>v. 0) (\<lambda>v. 66 + (66 * n + 0))"
    unfolding read_ids.simps
  proof (rule acc_field[OF acc_id_item[OF assms]], goal_cases)
    case (2 d)
    show ?case
    proof (rule acc_field[OF Suc.IH], goal_cases)
      case (2 ds)
      have "(length v = Suc n \<and> list_all wf_digest v) \<and> hd v = d \<and> tl v = ds \<longleftrightarrow> v = d # ds" for v
        using 2 \<open>wf_digest d\<close> by (cases v) auto
      then show ?case by (intro exact_acc_cong[OF acc_rret]) auto
    next
      case (1 v)
      then show ?case by (cases v) auto
    qed
  next
    case (1 v)
    then show ?case by (cases v) auto
  qed
  then show ?case
  proof (rule exact_acc_cong)
    fix v :: "digest list" assume "length v = Suc n \<and> list_all wf_digest v"
    then show "framed (framed (hd v)) @ concat (map framed (map framed (tl v))) @ [] = concat (map framed (map framed v)) \<and>
        (0 :: nat) = 0 \<and> 66 + (66 * n + 0) = 66 * Suc n" by (cases v) auto
  qed simp
qed

lemma acc_ids_field:
  assumes "limits_ok lim" "\<And>v. ok v \<Longrightarrow> length (p v) = n \<and> list_all wf_digest (p v)"
    "\<And>ds. length ds = n \<and> list_all wf_digest ds \<Longrightarrow> exact_acc lim T (g ds) enc (\<lambda>v. ok v \<and> p v = ds) cl cf"
  shows "exact_acc lim T (rbind (read_ids (max_cumulative_framed_bytes lim) n) g)
    (\<lambda>v. concat (map framed (map framed (p v))) @ enc v) ok cl (\<lambda>v. 66 * length (p v) + cf v)"
  by (rule exact_acc_cong[OF acc_field[OF acc_ids[OF assms(1)] assms(2) assms(3)]]) (use assms(2) in auto)

lemma acc_links_field:
  assumes "limits_ok lim" "\<And>v. ok v \<Longrightarrow> q v = n" "exact_acc lim T g enc ok cl cf"
  shows "exact_acc lim T (rbind (charge_links (max_cumulative_links lim) n) (\<lambda>_. g)) enc ok (\<lambda>v. q v + cl v) cf"
  by (rule exact_acc_cong[OF acc_links[OF assms(1,3)]]) (use assms(2) in auto)

lemma acc_charge_field:
  assumes "limits_ok lim" "\<And>v. ok v \<Longrightarrow> q v = n" "exact_acc lim T g enc ok cl cf"
  shows "exact_acc lim T (rbind (charge_framed (max_cumulative_framed_bytes lim) n) (\<lambda>_. g)) enc ok cl (\<lambda>v. q v + cf v)"
  by (rule exact_acc_cong[OF acc_charge[OF assms(1,3)]]) (use assms(2) in auto)

section \<open>Step material\<close>

definition material_wf :: "step_material \<Rightarrow> bool" where
  "material_wf m \<longleftrightarrow> wf_digest (tiebreak (mkey m)) \<and> wf_digest (judgement_digest (mobservation m)) \<and>
     ids_wf (mgenerators m) \<and> ids_wf (mconfigs m) \<and> wf_digest (msrc m) \<and> wf_digest (mdst m) \<and> wf_digest (mwitness m)"

definition material_within :: "audit_decode_limits \<Rightarrow> step_material \<Rightarrow> bool" where
  "material_within lim m \<longleftrightarrow> outcome_class (mobservation m) = Derived \<and> length (mgenerators m) \<le> max_generators_per_step lim \<and>
     length (mconfigs m) \<le> max_configs_per_step lim \<and> length (mconfigs m) = length (mgenerators m) + 1"

definition material_bytes :: "step_material \<Rightarrow> bytes" where
  "material_bytes m = uint_bytes (ucast (phase (mkey m))) @ uint_bytes (ucast (priority (mkey m))) @ framed (tiebreak (mkey m)) @
     uint_bytes (ucast (outcome_ordinal (outcome_class (mobservation m)))) @ framed (judgement_digest (mobservation m)) @
     ids_bytes (mgenerators m) @ ids_bytes (mconfigs m) @ framed (msrc m) @ framed (mdst m) @ framed (mwitness m)"

definition material_cost :: "step_material \<Rightarrow> nat" where
  "material_cost m = 160 + 66 * length (mgenerators m) + 66 * length (mconfigs m)"

lemma canon_write_material_out [out_simps]: "canon_write_material m w = w\<lparr>buf := buf w @ material_bytes m\<rparr>"
proof -
  have "canon_bytes (canon_write_id c) = framed c" for c by (rule canon_bytes_out) (simp add: out_simps)
  then show ?thesis
    by (simp add: canon_write_material_def material_bytes_def ids_bytes_def canon_write_key_def canon_write_observation_def out_simps)
qed

lemma material_eqI:
  "phase (mkey m) = ph \<Longrightarrow> priority (mkey m) = pr \<Longrightarrow> tiebreak (mkey m) = tb \<Longrightarrow> outcome_class (mobservation m) = Derived \<Longrightarrow>
   judgement_digest (mobservation m) = jd \<Longrightarrow> mgenerators m = gs \<Longrightarrow> mconfigs m = cs \<Longrightarrow> msrc m = src \<Longrightarrow> mdst m = dst \<Longrightarrow>
   mwitness m = wit \<Longrightarrow>
   m = \<lparr>mkey = Key ph pr tb, mobservation = \<lparr>outcome_class = Derived, judgement_digest = jd\<rparr>,
        mgenerators = gs, mconfigs = cs, msrc = src, mdst = dst, mwitness = wit\<rparr>"
  by (cases m; cases "mkey m"; cases "mobservation m") simp

lemma acc_material:
  assumes "limits_ok lim"
  shows "exact_acc lim (\<lambda>_. True) (decode_material lim) material_bytes (\<lambda>m. material_wf m \<and> material_within lim m)
    (\<lambda>m. length (mgenerators m)) material_cost"
proof -
  note d = acc_digest[OF assms] and u = acc_rd[OF exact_read_uint]
  have "exact_acc lim (\<lambda>_. True) (decode_material lim)
    (\<lambda>m. uint_bytes (ucast (phase (mkey m))) @ uint_bytes (ucast (priority (mkey m))) @ framed (tiebreak (mkey m)) @
      uint_bytes (ucast (2 :: u64)) @ framed (judgement_digest (mobservation m)) @
      len_bytes (length (mgenerators m)) @ concat (map framed (map framed (mgenerators m))) @
      len_bytes (length (mconfigs m)) @ concat (map framed (map framed (mconfigs m))) @
      framed (msrc m) @ framed (mdst m) @ framed (mwitness m) @ [])
    (\<lambda>m. material_wf m \<and> material_within lim m) (\<lambda>m. length (mgenerators m) + 0)
    (\<lambda>m. 0 + (0 + (32 + (0 + (32 + (66 * length (mgenerators m) + (66 * length (mconfigs m) + (32 + (32 + (32 + 0))))))))))"
    unfolding decode_material_def
    apply (rule acc_field[OF u], simp)
    apply (rule acc_field[OF u], simp)
    apply (rule acc_field[OF d], simp add: material_wf_def)
    apply (rule acc_fixed[OF u], simp)
    apply (rule acc_field[OF d], simp add: material_wf_def)
    apply (rule acc_count, simp add: material_wf_def ids_wf_def)
    apply (rule acc_rif)
     apply (rule acc_links_field[OF assms], simp)
     apply (rule acc_ids_field[OF assms], simp add: material_wf_def ids_wf_def)
     apply (rule acc_count, simp add: material_wf_def ids_wf_def)
     apply (rule acc_rif)
      apply (rule acc_rif)
       apply (rule acc_ids_field[OF assms], simp add: material_wf_def ids_wf_def)
       apply (rule acc_field[OF d], simp add: material_wf_def)
       apply (rule acc_field[OF d], simp add: material_wf_def)
       apply (rule acc_field[OF d], simp add: material_wf_def)
       apply (rule exact_acc_cong[OF acc_rret])
        apply (rule iffI)
         apply (simp add: material_wf_def material_within_def ids_wf_def; fail)
        apply (elim conjE, rule material_eqI; simp add: material_within_def; fail)
       apply (auto simp: material_within_def; fail)+
    done
  then show ?thesis
    by (rule exact_acc_cong) (simp_all add: material_bytes_def material_within_def ids_bytes_def material_cost_def)
qed

section \<open>Entries\<close>

definition entry_bytes :: "bundle_entry \<Rightarrow> bytes" where
  "entry_bytes e = uint_bytes (ucast (eordinal e)) @ framed (prefix_digest e) @ material_bytes (ematerial e) @ framed (ereceipt_bytes e)"

definition entry_wf :: "bundle_entry \<Rightarrow> bool" where
  "entry_wf e \<longleftrightarrow> wf_digest (prefix_digest e) \<and> material_wf (ematerial e) \<and> fits (ereceipt_bytes e) \<and> fits (entry_bytes e)"

definition entry_within :: "audit_decode_limits \<Rightarrow> bundle_entry \<Rightarrow> bool" where
  "entry_within lim e \<longleftrightarrow> material_within lim (ematerial e) \<and> length (ereceipt_bytes e) \<le> max_receipt_bytes lim \<and>
     length (entry_bytes e) \<le> max_entry_bytes lim"

definition entry_links :: "bundle_entry \<Rightarrow> nat" where
  "entry_links e = length (mgenerators (ematerial e))"

definition entry_cost :: "bundle_entry \<Rightarrow> nat" where
  "entry_cost e = length (entry_bytes e) + 32 + material_cost (ematerial e) + length (ereceipt_bytes e)"

lemma canon_bytes_entry: "canon_bytes (canon_write_entry e) = entry_bytes e"
  by (rule canon_bytes_out) (simp add: canon_write_entry_def entry_bytes_def out_simps)

lemma acc_material_field:
  assumes "limits_ok lim" "\<And>v. ok v \<Longrightarrow> material_wf (p v) \<and> material_within lim (p v)"
    "\<And>m. material_wf m \<and> material_within lim m \<Longrightarrow> exact_acc lim T (g m) enc (\<lambda>v. ok v \<and> p v = m) cl cf"
  shows "exact_acc lim T (rbind (decode_material lim) g) (\<lambda>v. material_bytes (p v) @ enc v) ok
    (\<lambda>v. length (mgenerators (p v)) + cl v) (\<lambda>v. material_cost (p v) + cf v)"
  by (rule acc_rbind[OF acc_material[OF assms(1)] assms(3,2)])

lemma acc_entry_frame:
  assumes "limits_ok lim"
  shows "exact_acc lim (\<lambda>r. r = []) (decode_entry_frame lim ord)
    (\<lambda>e. uint_bytes (ucast ord) @ framed (prefix_digest e) @ material_bytes (ematerial e) @ framed (ereceipt_bytes e) @ [])
    (\<lambda>e. eordinal e = ord \<and> wf_digest (prefix_digest e) \<and> material_wf (ematerial e) \<and> fits (ereceipt_bytes e) \<and>
       material_within lim (ematerial e) \<and> length (ereceipt_bytes e) \<le> max_receipt_bytes lim)
    (\<lambda>e. length (mgenerators (ematerial e)) + 0) (\<lambda>e. 0 + (32 + (material_cost (ematerial e) + (0 + (length (ereceipt_bytes e) + 0)))))"
  unfolding decode_entry_frame_def
  apply (rule acc_fixed'[OF acc_rd[OF exact_read_uint]], simp)
  apply (rule acc_field[OF acc_digest[OF assms]], simp)
  apply (rule acc_material_field[OF assms], simp)
  apply (rule acc_field[OF acc_rd[OF exact_read_bytes]], simp)
  apply (rule acc_rif)
   apply (rule acc_charge_field[OF assms], simp)
   apply (rule exact_acc_cong[OF acc_consumed])
    apply (auto intro: bundle_entry.equality)
  done

lemma acc_entry:
  assumes "limits_ok lim"
  shows "exact_acc lim (\<lambda>_. True) (decode_entry lim ord) (\<lambda>e. framed (entry_bytes e))
    (\<lambda>e. eordinal e = ord \<and> entry_wf e \<and> entry_within lim e) entry_links entry_cost"
proof -
  have "exact_acc lim (\<lambda>_. True) (decode_entry lim ord) (\<lambda>e. framed (entry_bytes e) @ [])
    (\<lambda>e. eordinal e = ord \<and> entry_wf e \<and> entry_within lim e) entry_links
    (\<lambda>e. 0 + (length (entry_bytes e) + (32 + material_cost (ematerial e) + length (ereceipt_bytes e))))"
    unfolding decode_entry_def
    apply (rule acc_field[OF acc_rd[OF exact_read_bytes]], simp add: entry_wf_def)
    apply (rule acc_rif)
     apply (rule acc_charge_field[OF assms], simp)
     apply (rule exact_acc_cong[OF acc_nested[OF acc_entry_frame[OF assms]]], assumption)
      apply (auto simp: entry_wf_def entry_within_def entry_bytes_def entry_links_def)
    done
  then show ?thesis by (rule exact_acc_cong) (simp_all add: entry_cost_def)
qed

fun ordinals_from :: "nat \<Rightarrow> bundle_entry list \<Rightarrow> bool" where
  "ordinals_from i [] \<longleftrightarrow> True"
| "ordinals_from i (e # es) \<longleftrightarrow> eordinal e = word_of_nat i \<and> ordinals_from (i + 1) es"

lemma acc_entries:
  assumes "limits_ok lim"
  shows "exact_acc lim (\<lambda>_. True) (decode_entries lim i n) (\<lambda>es. concat (map framed (map entry_bytes es)))
    (\<lambda>es. length es = n \<and> ordinals_from i es \<and> list_all entry_wf es \<and> list_all (entry_within lim) es)
    (\<lambda>es. sum_list (map entry_links es)) (\<lambda>es. sum_list (map entry_cost es))"
    (is "exact_acc lim _ _ _ (?ok i n) _ _")
proof (induction n arbitrary: i)
  case 0
  then show ?case by (auto intro: exact_acc_cong[OF acc_rret])
next
  case (Suc n)
  have "exact_acc lim (\<lambda>_. True) (decode_entries lim i (Suc n))
      (\<lambda>es. framed (entry_bytes (hd es)) @ concat (map framed (map entry_bytes (tl es))) @ []) (?ok i (Suc n))
      (\<lambda>es. entry_links (hd es) + (sum_list (map entry_links (tl es)) + 0))
      (\<lambda>es. entry_cost (hd es) + (sum_list (map entry_cost (tl es)) + 0))"
    unfolding decode_entries.simps
  proof (rule acc_rbind[OF acc_entry[OF assms]], goal_cases)
    case (1 e)
    show ?case
    proof (rule acc_rbind[OF Suc.IH], goal_cases)
      case (1 es)
      have "?ok i (Suc n) v \<and> hd v = e \<and> tl v = es \<longleftrightarrow> v = e # es" for v
        using 1 \<open>eordinal e = word_of_nat i \<and> _\<close> by (cases v) auto
      then show ?case by (intro exact_acc_cong[OF acc_rret]) auto
    next
      case (2 v)
      then show ?case by (cases v) auto
    qed
  next
    case (2 v)
    then show ?case by (cases v) auto
  qed
  then show ?case
  proof (rule exact_acc_cong)
    fix v assume "?ok i (Suc n) v"
    then show "framed (entry_bytes (hd v)) @ concat (map framed (map entry_bytes (tl v))) @ [] = concat (map framed (map entry_bytes v)) \<and>
      entry_links (hd v) + (sum_list (map entry_links (tl v)) + 0) = sum_list (map entry_links v) \<and>
      entry_cost (hd v) + (sum_list (map entry_cost (tl v)) + 0) = sum_list (map entry_cost v)" by (cases v) auto
  qed simp
qed

section \<open>Bundles\<close>

definition bundle_bytes :: "audit_bundle \<Rightarrow> bytes" where
  "bundle_bytes b = framed BUNDLE_MARKER_V1 @ uint_bytes (ucast BUNDLE_VERSION_V1) @ framed (as_bytes BUNDLE_PROFILE_V1) @
     framed (bcontext b) @ len_bytes (length (bentries b)) @ concat (map framed (map entry_bytes (bentries b))) @
     framed (final_chain_digest b)"

definition bundle_wf :: "audit_bundle \<Rightarrow> bool" where
  "bundle_wf b \<longleftrightarrow> wf_digest (bcontext b) \<and> wf_digest (final_chain_digest b) \<and> length (bentries b) < 2 ^ 64 \<and>
     list_all entry_wf (bentries b) \<and> ordinals_from 0 (bentries b)"

definition bundle_cost :: "audit_bundle \<Rightarrow> nat" where
  "bundle_cost b = length BUNDLE_MARKER_V1 + length (as_bytes BUNDLE_PROFILE_V1) + 64 + sum_list (map entry_cost (bentries b))"

definition bundle_within :: "audit_decode_limits \<Rightarrow> audit_bundle \<Rightarrow> bool" where
  "bundle_within lim b \<longleftrightarrow> length (bentries b) \<le> max_steps lim \<and> list_all (entry_within lim) (bentries b) \<and>
     sum_list (map entry_links (bentries b)) \<le> max_cumulative_links lim \<and> bundle_cost b \<le> max_cumulative_framed_bytes lim \<and>
     length (bundle_bytes b) \<le> max_total_bundle_bytes lim"

lemma canon_bytes_bundle: "canon_bytes (canon_write_bundle b) = bundle_bytes b"
  by (rule canon_bytes_out) (simp add: canon_write_bundle_def bundle_bytes_def canon_bytes_entry o_def out_simps)

lemma acc_marker:
  assumes "limits_ok lim" "fits c" "exact_acc lim T g enc ok cl cf"
  shows "exact_acc lim T
    (rbind (rd read_bytes) (\<lambda>x. rbind (charge_framed (max_cumulative_framed_bytes lim) (length x)) (\<lambda>_. if x \<noteq> c then rfail err else g)))
    (\<lambda>v. framed c @ enc v) ok cl (\<lambda>v. 0 + (length c + cf v))"
proof (rule acc_field[OF acc_rd[OF exact_read_bytes], where p = "\<lambda>_. c"], goal_cases)
  case (2 x)
  show ?case
    by (rule acc_charge_field[OF assms(1)], simp, rule acc_rif) (use assms(3) in \<open>auto intro: exact_acc_cong\<close>)
qed (simp add: assms)

lemma acc_entries_field:
  assumes "limits_ok lim"
    "\<And>v. ok v \<Longrightarrow> length (p v) = n \<and> ordinals_from i (p v) \<and> list_all entry_wf (p v) \<and> list_all (entry_within lim) (p v)"
    "\<And>es. length es = n \<and> ordinals_from i es \<and> list_all entry_wf es \<and> list_all (entry_within lim) es \<Longrightarrow>
       exact_acc lim T (g es) enc (\<lambda>v. ok v \<and> p v = es) cl cf"
  shows "exact_acc lim T (rbind (decode_entries lim i n) g) (\<lambda>v. concat (map framed (map entry_bytes (p v))) @ enc v) ok
    (\<lambda>v. sum_list (map entry_links (p v)) + cl v) (\<lambda>v. sum_list (map entry_cost (p v)) + cf v)"
  by (rule acc_rbind[OF acc_entries[OF assms(1)] assms(3,2)])

lemma marker_fits: "fits BUNDLE_MARKER_V1" "fits (as_bytes BUNDLE_PROFILE_V1)"
  by (simp_all add: BUNDLE_MARKER_V1_def BUNDLE_PROFILE_V1_def as_bytes_def fits_def)

lemma acc_bundle_fields:
  assumes "limits_ok lim"
  shows "exact_acc lim (\<lambda>r. r = []) (decode_bundle_fields lim) bundle_bytes
    (\<lambda>b. bundle_wf b \<and> length (bentries b) \<le> max_steps lim \<and> list_all (entry_within lim) (bentries b))
    (\<lambda>b. sum_list (map entry_links (bentries b))) bundle_cost"
proof -
  note d = acc_digest[OF assms]
  have "exact_acc lim (\<lambda>r. r = []) (decode_bundle_fields lim)
    (\<lambda>b. framed BUNDLE_MARKER_V1 @ uint_bytes (ucast BUNDLE_VERSION_V1) @ framed (as_bytes BUNDLE_PROFILE_V1) @
       framed (bcontext b) @ len_bytes (length (bentries b)) @ concat (map framed (map entry_bytes (bentries b))) @
       framed (final_chain_digest b) @ [])
    (\<lambda>b. bundle_wf b \<and> length (bentries b) \<le> max_steps lim \<and> list_all (entry_within lim) (bentries b))
    (\<lambda>b. sum_list (map entry_links (bentries b)) + 0)
    (\<lambda>b. 0 + (length BUNDLE_MARKER_V1 + (0 + (0 + (length (as_bytes BUNDLE_PROFILE_V1) + (32 +
       (sum_list (map entry_cost (bentries b)) + (32 + 0))))))))"
    unfolding decode_bundle_fields_def
    apply (rule acc_marker[OF assms marker_fits(1)])
    apply (rule acc_fixed[OF acc_rd[OF exact_read_uint]], simp)
    apply (rule acc_marker[OF assms marker_fits(2)])
    apply (rule acc_field[OF d], simp add: bundle_wf_def)
    apply (rule acc_count, simp add: bundle_wf_def)
    apply (rule acc_rif)
     apply (rule acc_entries_field[OF assms], simp add: bundle_wf_def)
     apply (rule acc_field[OF d], simp add: bundle_wf_def)
     apply (rule exact_acc_cong[OF acc_consumed])
      apply (auto simp: bundle_wf_def intro: audit_bundle.equality)
    done
  then show ?thesis by (rule exact_acc_cong) (simp_all add: bundle_bytes_def bundle_cost_def)
qed

lemma decode_exact:
  assumes "limits_ok lim" "fits bs"
  shows "decode_audit_input_bundle bs lim = Inr b \<longleftrightarrow> bundle_wf b \<and> bundle_within lim b \<and> bs = bundle_bytes b"
proof -
  let ?s = "\<lparr>brd = reader_new bs, blinks = 0, bframed = 0\<rparr>"
  have "acc_ok lim ?s" using reader_ok_new[OF assms(2)] by (simp add: acc_ok_def)
  note e = exact_accD[OF acc_bundle_fields[OF assms(1)] this, of b]
  have "decode_audit_input_bundle bs lim = Inr b \<longleftrightarrow>
      length bs \<le> max_total_bundle_bytes lim \<and> (\<exists>s'. decode_bundle_fields lim ?s = (Inr b, s'))"
    by (cases "decode_bundle_fields lim ?s") (auto simp: decode_audit_input_bundle_def)
  then show ?thesis unfolding e by (auto simp: bundle_within_def)
qed

section \<open>The encoder's limits\<close>

lemma add_framed_Inr:
  "limits_ok lim \<Longrightarrow> add_framed lim fb n = Inr t \<longleftrightarrow> t = fb + n \<and> fb + n \<le> max_cumulative_framed_bytes lim"
  by (auto simp: add_framed_def checked_add_usize_def limits_ok_def)

lemma add_links_Inr:
  "limits_ok lim \<Longrightarrow> add_links lim l n = Inr t \<longleftrightarrow> t = l + n \<and> l + n \<le> max_cumulative_links lim"
  by (auto simp: add_links_def checked_add_usize_def limits_ok_def)

lemma add_id_bytes_Inr:
  "limits_ok lim \<Longrightarrow> add_id_bytes lim fb k = Inr t \<longleftrightarrow> t = fb + 66 * k \<and> fb + 66 * k \<le> max_cumulative_framed_bytes lim"
  by (auto simp: add_id_bytes_def checked_mul_usize_def add_framed_Inr limits_ok_def mult.commute)

lemmas add_Inr = add_framed_Inr add_links_Inr add_id_bytes_Inr

lemma validate_entry_iff:
  assumes "limits_ok lim"
  shows "validate_entry_limits lim e l fb = Inr (l', fb') \<longleftrightarrow> entry_within lim e \<and>
    l' = l + entry_links e \<and> l' \<le> max_cumulative_links lim \<and> fb' = fb + entry_cost e \<and> fb' \<le> max_cumulative_framed_bytes lim"
  by (auto simp: validate_entry_limits_def and_then_Inr Let_def add_Inr[OF assms] entry_within_def material_within_def
      entry_links_def entry_cost_def material_cost_def canon_bytes_entry)

lemma validate_entries_iff:
  assumes "limits_ok lim"
  shows "l \<le> max_cumulative_links lim \<Longrightarrow> fb \<le> max_cumulative_framed_bytes lim \<Longrightarrow>
    validate_entries_limits lim es l fb = Inr (l', fb') \<longleftrightarrow> list_all (entry_within lim) es \<and>
    l' = l + sum_list (map entry_links es) \<and> l' \<le> max_cumulative_links lim \<and>
    fb' = fb + sum_list (map entry_cost es) \<and> fb' \<le> max_cumulative_framed_bytes lim"
proof (induction es arbitrary: l fb)
  case (Cons e es)
  have "validate_entries_limits lim (e # es) l fb = Inr (l', fb') \<longleftrightarrow>
      (\<exists>l1 fb1. validate_entry_limits lim e l fb = Inr (l1, fb1) \<and> validate_entries_limits lim es l1 fb1 = Inr (l', fb'))"
    by (auto simp: and_then_Inr split: prod.splits)
  then show ?case using Cons.IH unfolding validate_entry_iff[OF assms] by (auto simp: add.assoc)
qed auto

lemma validate_limits_iff:
  assumes "limits_ok lim"
  shows "validate_bundle_limits b lim = Inr () \<longleftrightarrow> bundle_within lim b"
proof -
  have v: "validate_bundle_limits b lim = Inr () \<longleftrightarrow> length (bentries b) \<le> max_steps lim \<and>
      (let h = length BUNDLE_MARKER_V1 + length BUNDLE_PROFILE_V1 + 32 in h \<le> max_cumulative_framed_bytes lim \<and>
       (\<exists>l fb. validate_entries_limits lim (bentries b) 0 h = Inr (l, fb) \<and> fb + 32 \<le> max_cumulative_framed_bytes lim)) \<and>
      length (bundle_bytes b) \<le> max_total_bundle_bytes lim"
    by (auto simp: validate_bundle_limits_def and_then_Inr add_Inr[OF assms] Let_def canon_bytes_bundle split: prod.splits)
  have "length (as_bytes BUNDLE_PROFILE_V1) = length BUNDLE_PROFILE_V1" by (simp add: as_bytes_def)
  then show ?thesis unfolding v using validate_entries_iff[OF assms] by (auto simp: Let_def bundle_within_def bundle_cost_def)
qed

section \<open>Properties\<close>

text \<open>
  C7. Decoding a bundle inverts encoding it and accepts nothing else: under any limits that fit the
  machine's counters, bytes decode to a bundle exactly when the bundle is well-formed (32-byte
  digests, ordinals counting from 0) and the encoder, under the same limits, produces those bytes.
  So the decoder's incremental accounting agrees with the encoder's accounting on every bundle.
\<close>

theorem bundle_codec_exact:
  assumes "limits_ok lim" and "fits bs"
  shows "decode_audit_input_bundle bs lim = Inr b \<longleftrightarrow> bundle_wf b \<and> encode_audit_input_bundle b lim = Inr bs"
  using decode_exact[OF assms] validate_limits_iff[OF assms(1)]
  by (auto simp: encode_audit_input_bundle_def and_then_Inr canon_bytes_bundle)

theorem bundle_codec_exact_witness:
  "decode_audit_input_bundle (canon_bytes (canon_write_bundle \<lparr>bcontext = replicate 32 1, bentries = [], final_chain_digest = replicate 32 2\<rparr>))
     strict_limits = Inr \<lparr>bcontext = replicate 32 1, bentries = [], final_chain_digest = replicate 32 2\<rparr>"
proof -
  let ?b = "\<lparr>bcontext = replicate 32 1, bentries = [], final_chain_digest = replicate 32 2\<rparr>"
  have len: "length (canon_bytes (canon_write_bundle ?b)) \<le> 300"
    using length_framed_le[of BUNDLE_MARKER_V1] length_framed_le[of "as_bytes BUNDLE_PROFILE_V1"]
      length_framed_le[of "replicate 32 1"] length_framed_le[of "replicate 32 2"]
      length_uint_bytes[of "ucast BUNDLE_VERSION_V1"] length_uint_bytes[of "ucast (word_of_nat 0 :: u64)"]
    by (simp add: canon_bytes_bundle bundle_bytes_def len_bytes_def BUNDLE_MARKER_V1_def BUNDLE_PROFILE_V1_def as_bytes_def)
  have lim: "limits_ok strict_limits" by (simp add: limits_ok_def strict_limits_def USIZE_BOUND_def)
  have "bundle_within strict_limits ?b"
    using len by (simp add: bundle_within_def strict_limits_def bundle_cost_def BUNDLE_MARKER_V1_def BUNDLE_PROFILE_V1_def
        as_bytes_def canon_bytes_bundle)
  then have "encode_audit_input_bundle ?b strict_limits = Inr (canon_bytes (canon_write_bundle ?b))"
    by (simp add: encode_audit_input_bundle_def validate_limits_iff[OF lim, symmetric])
  moreover have "bundle_wf ?b" by (simp add: bundle_wf_def wf_digest_def)
  moreover have "fits (canon_bytes (canon_write_bundle ?b))" using len by (simp add: fits_def)
  ultimately show ?thesis using bundle_codec_exact[OF lim] by blast
qed

end
