(* ===== verification/Settle_Bundle_Check.thy ===== *)
theory Settle_Bundle_Check
  imports Settle_Bundle_Codec
begin

text \<open>
  What the check of a bundle establishes, and that the bundles the producer emits pass it
  (\<open>crates/soc-core/src/audit_bundle.rs\<close>).
\<close>

section \<open>Snapshots fold the chain\<close>

text \<open>The steps behind a list of entries, when every material is that of a step.\<close>

definition steps_of :: "bundle_entry list \<Rightarrow> committed_step list \<Rightarrow> bool" where
  "steps_of es sts \<longleftrightarrow> list_all2 (\<lambda>e st. to_committed_step (ematerial e) = Inr st) es sts"

lemma steps_of_simps [simp]:
  "steps_of [] sts \<longleftrightarrow> sts = []"
  "steps_of (e # es) sts \<longleftrightarrow> (\<exists>st sts'. sts = st # sts' \<and> to_committed_step (ematerial e) = Inr st \<and> steps_of es sts')"
  by (auto simp: steps_of_def list_all2_Cons1)

definition chain_append :: "(bytes \<Rightarrow> bytes) \<Rightarrow> committed_step \<Rightarrow> history \<Rightarrow> history" where
  "chain_append blake3 st h = history_append blake3 h (canon_bytes (canon_write_step st))"

fun prefixes_match :: "(bytes \<Rightarrow> bytes) \<Rightarrow> history \<Rightarrow> bundle_entry list \<Rightarrow> committed_step list \<Rightarrow> bool" where
  "prefixes_match blake3 h (e # es) (st # sts) \<longleftrightarrow>
     prefix_digest e = hdigest h \<and> prefixes_match blake3 (chain_append blake3 st h) es sts"
| "prefixes_match blake3 h _ _ \<longleftrightarrow> True"

lemma snapshot_entries_iff:
  "snapshot_entries blake3 i es h = Inr h' \<longleftrightarrow>
     ordinals_from i es \<and> (\<exists>sts. steps_of es sts \<and> prefixes_match blake3 h es sts \<and> h' = fold (chain_append blake3) sts h)"
proof (induction es arbitrary: i h)
  case (Cons e es)
  show ?case
  proof (cases "to_committed_step (ematerial e)")
    case (Inl err)
    then show ?thesis by (auto simp: and_then_Inr)
  next
    case (Inr st)
    then show ?thesis using Cons.IH[of "i + 1" "chain_append blake3 st h"]
      by (auto simp: and_then_Inr map_err_def chain_append_def)
  qed
qed auto

lemma fold_chain_head: "hdigest (fold (chain_append blake3) sts (history_empty blake3)) = chain_head blake3 sts"
  by (induction sts rule: rev_induct)
    (simp_all add: chain_append_def history_append_chain history_empty_def digest_of_def flip: step_bytes_def)

lemma check_entries_Inr:
  "check_entries blake3 ctx registry sem lim es = Inr ids \<longleftrightarrow> (\<exists>sts. steps_of es sts \<and> length ids = length es \<and>
     (\<forall>k < length es. check_audit_receipt_bytes blake3 (ereceipt_bytes (es ! k)) (sts ! k) ctx registry sem lim = Inr (ids ! k)))"
proof (induction es arbitrary: ids)
  case (Cons e es)
  show ?case (is "?L \<longleftrightarrow> ?R")
  proof
    assume ?L
    then obtain st i js where 1: "to_committed_step (ematerial e) = Inr st" "ids = i # js"
      "check_audit_receipt_bytes blake3 (ereceipt_bytes e) st ctx registry sem lim = Inr i"
      "check_entries blake3 ctx registry sem lim es = Inr js"
      by (auto simp: and_then_Inr)
    then obtain sts where "steps_of es sts" "length js = length es" "\<forall>k < length es.
        check_audit_receipt_bytes blake3 (ereceipt_bytes (es ! k)) (sts ! k) ctx registry sem lim = Inr (js ! k)"
      using Cons.IH by blast
    then show ?R using 1 by (intro exI[of _ "st # sts"]) (auto simp: nth_Cons split: nat.splits)
  next
    assume ?R
    then obtain st sts i js where 1: "to_committed_step (ematerial e) = Inr st" "steps_of es sts" "ids = i # js" "length js = length es"
      and all: "\<forall>k < Suc (length es). check_audit_receipt_bytes blake3 (ereceipt_bytes ((e # es) ! k)) ((st # sts) ! k)
        ctx registry sem lim = Inr ((i # js) ! k)"
      by (cases ids) auto
    have "check_entries blake3 ctx registry sem lim es = Inr js"
      using 1 all Cons.IH by (metis Suc_less_eq nth_Cons_Suc)
    then show ?L using 1 all[rule_format, of 0] by (auto simp: and_then_Inr)
  qed
qed auto

lemma check_bytes_sound:
  "check_audit_receipt_bytes blake3 bs st ctx registry sem lim = Inr i \<Longrightarrow>
     require_matches_registry sem registry = Inr () \<and> (\<exists>au. audit_step blake3 st ctx registry sem = AuditedResult au)"
  by (auto simp: check_audit_receipt_bytes_def and_then_Inr Let_def split: if_splits audit_result.splits)

lemma to_committed_step_length:
  "to_committed_step m = Inr st \<Longrightarrow> length (configs (sdecomposition st)) = length (generators (sdecomposition st)) + 1"
  by (auto simp: to_committed_step_def and_then_Inr decomposition_recorded_def dest: decomposition_build_wf)

section \<open>The producer\<close>

lemma producer_scan_lengths:
  "producer_scan lim i sts l = Inr () \<Longrightarrow>
     list_all (\<lambda>st. length (configs (sdecomposition st)) = length (generators (sdecomposition st)) + 1) sts"
  by (induction lim i sts l rule: producer_scan.induct) (auto simp: Let_def and_then_Inr split: if_splits)

definition receipt_for ::
  "(bytes \<Rightarrow> bytes) \<Rightarrow> committed_step \<Rightarrow> context_id \<Rightarrow> generator_registry \<Rightarrow> generator_semantics \<Rightarrow> audit_receipt" where
  "receipt_for blake3 st ctx registry sem = audit_receipt_of (audited_outcome blake3 st ctx registry sem)"

lemma to_committed_step_material:
  "length (configs (sdecomposition st)) = length (generators (sdecomposition st)) + 1 \<Longrightarrow> verification (sdecomposition st) = Recorded \<Longrightarrow>
     to_committed_step (material_of st) = Inr st"
  by (simp add: to_committed_step_def material_of_def decomposition_recorded_def decomposition_build_def)

lemma producer_entries_Inr:
  assumes "producer_entries blake3 ctx registry sem lim i sts h = Inr (es, h')"
    "list_all (\<lambda>st. length (configs (sdecomposition st)) = length (generators (sdecomposition st)) + 1) sts"
  shows "steps_of es sts \<and> ordinals_from i es \<and> prefixes_match blake3 h es sts \<and> h' = fold (chain_append blake3) sts h \<and>
    list_all (\<lambda>st. log_integrity blake3 ctx st \<and> replays registry sem st) sts \<and>
    map ereceipt_bytes es = map (\<lambda>st. canon_bytes (canon_write_receipt (receipt_for blake3 st ctx registry sem))) sts \<and>
    list_all (\<lambda>e. length (ereceipt_bytes e) \<le> max_receipt_bytes lim) es"
  using assms
proof (induction sts arbitrary: i h es)
  case (Cons st sts)
  obtain au where au: "audit_step blake3 st ctx registry sem = AuditedResult au"
    using Cons.prems(1) by (auto split: audit_result.splits)
  have st: "log_integrity blake3 ctx st" "replays registry sem st" "au = audited_outcome blake3 st ctx registry sem"
    using audit_step_iff[of st] Cons.prems(2) au by auto
  let ?r = "canon_bytes (canon_write_receipt (receipt_for blake3 st ctx registry sem))"
  let ?e = "\<lparr>eordinal = word_of_nat i, prefix_digest = hdigest h, ematerial = material_of st, ereceipt_bytes = ?r\<rparr>"
  obtain es' where es: "es = ?e # es'" "length ?r \<le> max_receipt_bytes lim"
    "producer_entries blake3 ctx registry sem lim (i + 1) sts (chain_append blake3 st h) = Inr (es', h')"
    using Cons.prems(1) au st(3)
    by (auto simp: Let_def and_then_Inr receipt_for_def chain_append_def split: if_splits prod.splits)
  have "to_committed_step (material_of st) = Inr st"
    using to_committed_step_material st(1) Cons.prems(2) by (auto simp: log_integrity_def)
  then show ?case using Cons.IH[OF es(3)] Cons.prems(2) es(1,2) st by simp
qed simp

lemma receipt_accepted:
  assumes "\<And>x. wf_digest (blake3 x)" "wf_digest ctx" "require_matches_registry sem registry = Inr ()"
    "length (configs (sdecomposition st)) = length (generators (sdecomposition st)) + 1"
    "log_integrity blake3 ctx st" "replays registry sem st"
    "length (canon_bytes (canon_write_receipt (receipt_for blake3 st ctx registry sem))) \<le> max_receipt_bytes lim"
  shows "check_audit_receipt_bytes blake3 (canon_bytes (canon_write_receipt (receipt_for blake3 st ctx registry sem)))
    st ctx registry sem lim = Inr (receipt_id blake3 (receipt_for blake3 st ctx registry sem))"
proof -
  have au: "audit_step blake3 st ctx registry sem = AuditedResult (audited_outcome blake3 st ctx registry sem)"
    using audit_step_iff[OF assms(4)] assms(5,6) by blast
  have r: "receipt_for blake3 st ctx registry sem =
      issue_receipt blake3 st ctx registry sem (decomposition_id blake3 (verified (audited_outcome blake3 st ctx registry sem)))"
    by (simp add: receipt_for_def audited_outcome_def Let_def)
  have "receipt_wf (receipt_for blake3 st ctx registry sem)" unfolding r by (rule issue_receipt_wf[OF assms(1,2)])
  then have "fits (canon_bytes (canon_write_receipt (receipt_for blake3 st ctx registry sem)))"
    using length_receipt_bytes by (fastforce simp: canon_bytes_receipt fits_def)
  from check_bytes_iff[OF this assms(1,2)] show ?thesis using au r assms(3,7) by auto
qed

lemma produced_checks:
  assumes "produce_audit_input_bundle_with_limits blake3 j ctx registry sem lim = Inr b"
    and "\<And>x. wf_digest (blake3 x)" and "wf_digest ctx" and "require_matches_registry sem registry = Inr ()"
  shows "check_audit_input_bundle blake3 b registry sem lim =
      Inr (map (\<lambda>st. receipt_id blake3 (receipt_for blake3 st ctx registry sem)) (jsteps j)) \<and>
    steps_of (bentries b) (jsteps j) \<and> final_chain_digest b = hdigest (jchain j)"
proof -
  obtain es h where p: "producer_scan lim 0 (jsteps j) 0 = Inr ()"
    "producer_entries blake3 ctx registry sem lim 0 (jsteps j) (history_empty blake3) = Inr (es, h)"
    "b = \<lparr>bcontext = ctx, bentries = es, final_chain_digest = hdigest h\<rparr>" "hdigest h = hdigest (jchain j)"
    "validate_bundle_limits b lim = Inr ()"
    using assms(1) by (auto simp: produce_audit_input_bundle_with_limits_def and_then_Inr Let_def split: if_splits prod.splits)
  note len = producer_scan_lengths[OF p(1)]
  note e = producer_entries_Inr[OF p(2) len]
  have rec: "map ereceipt_bytes es = map (\<lambda>st. canon_bytes (canon_write_receipt (receipt_for blake3 st ctx registry sem))) (jsteps j)"
    using e by blast
  have snap: "validate_snapshot blake3 b = Inr h"
    using e by (auto simp: validate_snapshot_def and_then_Inr snapshot_entries_iff p(3))
  have n: "length es = length (jsteps j)" using e by (auto simp: steps_of_def dest: list_all2_lengthD)
  have "check_audit_receipt_bytes blake3 (ereceipt_bytes (es ! k)) (jsteps j ! k) ctx registry sem lim =
      Inr (receipt_id blake3 (receipt_for blake3 (jsteps j ! k) ctx registry sem))" if "k < length es" for k
  proof -
    have "ereceipt_bytes (es ! k) = canon_bytes (canon_write_receipt (receipt_for blake3 (jsteps j ! k) ctx registry sem))"
      using arg_cong[OF rec, of "\<lambda>xs. xs ! k"] that n by simp
    moreover have "length (ereceipt_bytes (es ! k)) \<le> max_receipt_bytes lim"
      "log_integrity blake3 ctx (jsteps j ! k) \<and> replays registry sem (jsteps j ! k)"
      "length (configs (sdecomposition (jsteps j ! k))) = length (generators (sdecomposition (jsteps j ! k))) + 1"
      using e len that n unfolding list_all_length by simp_all
    ultimately show ?thesis using receipt_accepted[OF assms(2-4), where st = "jsteps j ! k" and lim = lim] by simp
  qed
  then have "check_entries blake3 ctx registry sem lim es =
      Inr (map (\<lambda>st. receipt_id blake3 (receipt_for blake3 st ctx registry sem)) (jsteps j))"
    unfolding check_entries_Inr using e n by (intro exI[of _ "jsteps j"]) simp
  then show ?thesis using p snap e by (simp add: check_audit_input_bundle_def map_err_def)
qed

section \<open>Properties\<close>

text \<open>
  C8. What an accepted bundle establishes: its entries are the materials of committed steps in order,
  their history chain, folded from the empty history, ends in the final digest of the bundle, and
  every step has log integrity under the bundle's context and replays under the registry and the
  semantics of the checker.
\<close>

theorem bundle_check_sound:
  assumes "check_audit_input_bundle blake3 b registry sem lim = Inr ids"
  shows "\<exists>sts. steps_of (bentries b) sts \<and> chain_head blake3 sts = final_chain_digest b \<and>
    ordinals_from 0 (bentries b) \<and> length ids = length sts \<and>
    list_all (\<lambda>st. log_integrity blake3 (bcontext b) st \<and> replays registry sem st) sts"
proof -
  obtain h where h: "validate_snapshot blake3 b = Inr h" "check_entries blake3 (bcontext b) registry sem lim (bentries b) = Inr ids"
    using assms by (auto simp: check_audit_input_bundle_def and_then_Inr)
  obtain sts where s: "steps_of (bentries b) sts" "chain_head blake3 sts = final_chain_digest b" "ordinals_from 0 (bentries b)"
    using h(1) fold_chain_head
    by (auto simp: validate_snapshot_def and_then_Inr snapshot_entries_iff split: if_splits)
  obtain sts' where c: "steps_of (bentries b) sts'" "length ids = length (bentries b)" "\<forall>k < length (bentries b).
      check_audit_receipt_bytes blake3 (ereceipt_bytes (bentries b ! k)) (sts' ! k) (bcontext b) registry sem lim = Inr (ids ! k)"
    using h(2) unfolding check_entries_Inr by blast
  have len: "length sts = length (bentries b)" using s(1) by (simp add: steps_of_def list_all2_lengthD)
  have "sts' = sts" using s(1) c(1) unfolding steps_of_def by (auto simp: list_all2_conv_all_nth list_eq_iff_nth_eq)
  moreover have "log_integrity blake3 (bcontext b) (sts ! k) \<and> replays registry sem (sts ! k)" if "k < length sts" for k
  proof -
    have "to_committed_step (ematerial (bentries b ! k)) = Inr (sts ! k)"
      using s(1) that by (simp add: steps_of_def list_all2_conv_all_nth)
    then show ?thesis
      using c(3) that len check_bytes_sound audit_step_iff[OF to_committed_step_length] \<open>sts' = sts\<close> by metis
  qed
  ultimately show ?thesis using s c(2) len by (auto simp: list_all_length)
qed

text \<open>
  C9. Where semantics and registry cover the same generators (\<open>require_matches_registry\<close>, which the checker
  demands and the producer does not), every bundle the producer emits for a journal passes the check
  under the same registry, semantics and limits, with one receipt per step of the journal.
\<close>

theorem produced_bundle_checks:
  assumes "produce_audit_input_bundle_with_limits blake3 j ctx registry sem lim = Inr b"
    and "\<And>x. wf_digest (blake3 x)" and "wf_digest ctx" and "require_matches_registry sem registry = Inr ()"
  shows "check_audit_input_bundle blake3 b registry sem lim =
      Inr (map (\<lambda>st. receipt_id blake3 (receipt_for blake3 st ctx registry sem)) (jsteps j)) \<and>
    steps_of (bentries b) (jsteps j) \<and> final_chain_digest b = hdigest (jchain j)"
  by (rule produced_checks[OF assms])

text \<open>A journal of one step, for the witnesses.\<close>

definition zero :: digest where
  "zero = replicate 32 0"

definition demo_journal :: journal where
  "demo_journal = journal_append (\<lambda>_. zero) demo_step (journal_new (\<lambda>_. zero))"

definition demo_entry :: bundle_entry where
  "demo_entry = \<lparr>eordinal = 0, prefix_digest = zero, ematerial = material_of demo_step,
     ereceipt_bytes = canon_bytes (canon_write_receipt (receipt_for (\<lambda>_. zero) demo_step zero [zero] [(zero, Diagonal)]))\<rparr>"

definition demo_bundle :: audit_bundle where
  "demo_bundle = \<lparr>bcontext = zero, bentries = [demo_entry], final_chain_digest = zero\<rparr>"

lemma zero_wf [simp]: "wf_digest zero"
  by (simp add: zero_def wf_digest_def)

lemma demo_audit:
  "audit_step (\<lambda>_. zero) demo_step zero [zero] [(zero, Diagonal)] =
     AuditedResult (audited_outcome (\<lambda>_. zero) demo_step zero [zero] [(zero, Diagonal)])"
  by (subst audit_step_iff) (simp_all add: demo_step_def Let_def log_integrity_def derived_judgement_def
      judgement_recompute_def judgement_id_def id_of_def from_canon_def digest_of_def replays_def slice_first_def
      slice_last_def declared_def zero_def)

lemma demo_receipt_length: "length (ereceipt_bytes demo_entry) \<le> 400"
  unfolding demo_entry_def bundle_entry.simps canon_bytes_receipt
  by (rule length_receipt_bytes) (simp add: receipt_for_def audited_outcome_def Let_def issue_receipt_wf)

lemma demo_material: "material_of demo_step =
  \<lparr>mkey = Key 0 1 zero, mobservation = \<lparr>outcome_class = Derived, judgement_digest = zero\<rparr>, mgenerators = [zero],
   mconfigs = [zero, zero], msrc = zero, mdst = zero, mwitness = zero\<rparr>"
  by (simp add: demo_step_def Let_def material_of_def zero_def)

lemma demo_entry_length: "length (entry_bytes demo_entry) \<le> 1200"
proof -
  have z: "length (framed zero) = 34" by (simp add: length_framed_digest)
  have "length (len_bytes n) \<le> 17" for n using length_uint_bytes by (simp add: len_bytes_def)
  then have "length (ids_bytes [zero]) \<le> 70" "length (ids_bytes [zero, zero]) \<le> 130"
    using length_framed_le[of "framed zero"] z by (fastforce simp: ids_bytes_def intro: order_trans[OF add_mono])+
  then show ?thesis
    using z length_framed_le[of "ereceipt_bytes demo_entry"] demo_receipt_length length_uint_bytes[of 0] length_uint_bytes[of 1]
      length_uint_bytes[of 2]
    by (simp add: entry_bytes_def demo_entry_def demo_material material_bytes_def)
qed

lemma demo_bundle_within: "bundle_within strict_limits demo_bundle"
proof -
  have "length (bundle_bytes demo_bundle) \<le> 1700"
    using length_framed_le[of BUNDLE_MARKER_V1] length_framed_le[of "as_bytes BUNDLE_PROFILE_V1"] length_framed_digest[OF zero_wf]
      length_uint_bytes[of "ucast BUNDLE_VERSION_V1"] length_uint_bytes[of "ucast (word_of_nat 1 :: u64)"]
      length_framed_le[of "entry_bytes demo_entry"] demo_entry_length
    by (simp add: bundle_bytes_def demo_bundle_def len_bytes_def BUNDLE_MARKER_V1_def BUNDLE_PROFILE_V1_def as_bytes_def)
  moreover have "ematerial demo_entry = material_of demo_step" by (simp add: demo_entry_def)
  ultimately show ?thesis using demo_entry_length demo_receipt_length
    by (simp add: bundle_within_def demo_bundle_def strict_limits_def entry_within_def material_within_def bundle_cost_def
        entry_cost_def entry_links_def material_cost_def demo_material BUNDLE_MARKER_V1_def BUNDLE_PROFILE_V1_def as_bytes_def)
qed

lemma demo_produced:
  "produce_audit_input_bundle_with_limits (\<lambda>_. zero) demo_journal zero [zero] [(zero, Diagonal)] strict_limits = Inr demo_bundle"
proof -
  have lim: "limits_ok strict_limits" by (simp add: limits_ok_def strict_limits_def USIZE_BOUND_def)
  let ?r = "canon_bytes (canon_write_receipt (audit_receipt_of (audited_outcome (\<lambda>_. zero) demo_step zero [zero] [(zero, Diagonal)])))"
  have r: "?r = ereceipt_bytes demo_entry" by (simp add: demo_entry_def receipt_for_def)
  have h: "hdigest (history_empty (\<lambda>_. zero)) = zero" by (simp add: history_empty_def digest_of_def)
  have e: "\<lparr>eordinal = 0, prefix_digest = zero, ematerial = material_of demo_step, ereceipt_bytes = ereceipt_bytes demo_entry\<rparr> = demo_entry"
    by (simp add: demo_entry_def)
  have scan: "producer_scan strict_limits 0 [demo_step] 0 = Inr ()"
    by (simp add: demo_step_def Let_def strict_limits_def add_links_def checked_add_usize_def USIZE_BOUND_def map_err_def)
  have "producer_entries (\<lambda>_. zero) zero [zero] [(zero, Diagonal)] strict_limits 0 [demo_step] (history_empty (\<lambda>_. zero)) =
      Inr ([demo_entry], history_append (\<lambda>_. zero) (history_empty (\<lambda>_. zero)) (canon_bytes (canon_write_step demo_step)))"
    using demo_receipt_length demo_entry_length
    by (simp add: demo_audit r h e Let_def canon_bytes_entry) (simp add: strict_limits_def)
  moreover have "validate_bundle_limits demo_bundle strict_limits = Inr ()" using demo_bundle_within validate_limits_iff[OF lim] by blast
  moreover have "jsteps demo_journal = [demo_step]" "hdigest (jchain demo_journal) = zero" by (simp_all add: demo_journal_def)
  moreover have "hdigest (history_append (\<lambda>_. zero) (history_empty (\<lambda>_. zero)) (canon_bytes (canon_write_step demo_step))) = zero"
    by (simp add: history_append_def writer_digest_def digest_of_def)
  moreover have "1 \<le> max_steps strict_limits" by (simp add: strict_limits_def)
  ultimately show ?thesis using scan
    by (simp add: produce_audit_input_bundle_with_limits_def Let_def map_err_def flip: demo_bundle_def
        del: producer_scan.simps producer_entries.simps)
qed

lemma demo_matches: "require_matches_registry [(zero, Diagonal)] [zero] = Inr ()"
  by (simp add: require_matches_registry_def registry_contains_def)

lemma demo_receipts: "\<exists>i. check_audit_input_bundle (\<lambda>_. zero) demo_bundle [zero] [(zero, Diagonal)] strict_limits = Inr [i]"
proof -
  have j: "jsteps demo_journal = [demo_step]" by (simp add: demo_journal_def)
  have e: "to_committed_step (material_of demo_step) = Inr demo_step"
    by (rule to_committed_step_material) (simp_all add: demo_step_def Let_def)
  have "log_integrity (\<lambda>_. zero) zero demo_step \<and> replays [zero] [(zero, Diagonal)] demo_step"
    using demo_audit audit_step_iff[of demo_step] by (simp add: demo_step_def Let_def)
  then have "check_audit_receipt_bytes (\<lambda>_. zero) (ereceipt_bytes demo_entry) demo_step zero [zero] [(zero, Diagonal)] strict_limits
      = Inr (receipt_id (\<lambda>_. zero) (receipt_for (\<lambda>_. zero) demo_step zero [zero] [(zero, Diagonal)]))"
    using receipt_accepted[of "\<lambda>_. zero" zero "[(zero, Diagonal)]" "[zero]" demo_step strict_limits] demo_matches demo_receipt_length
    by (simp add: demo_entry_def strict_limits_def demo_step_def Let_def)
  moreover have "validate_snapshot (\<lambda>_. zero) demo_bundle \<noteq> Inl x" for x
    by (simp add: validate_snapshot_def demo_bundle_def demo_entry_def e map_err_def history_empty_def history_append_def
        writer_digest_def digest_of_def)
  moreover have "validate_bundle_limits demo_bundle strict_limits = Inr ()"
    using demo_bundle_within validate_limits_iff by (simp add: limits_ok_def strict_limits_def USIZE_BOUND_def)
  moreover have "ematerial demo_entry = material_of demo_step" by (simp add: demo_entry_def)
  ultimately show ?thesis using e
    by (cases "validate_snapshot (\<lambda>_. zero) demo_bundle")
      (auto simp: check_audit_input_bundle_def demo_bundle_def map_err_def)
qed

theorem bundle_check_sound_witness:
  "\<exists>st. to_committed_step (ematerial demo_entry) = Inr st \<and> log_integrity (\<lambda>_. zero) zero st \<and>
     replays [zero] [(zero, Diagonal)] st \<and> chain_head (\<lambda>_. zero) [st] = zero"
proof -
  obtain i where "check_audit_input_bundle (\<lambda>_. zero) demo_bundle [zero] [(zero, Diagonal)] strict_limits = Inr [i]"
    using demo_receipts by blast
  from bundle_check_sound[OF this] show ?thesis by (auto simp: demo_bundle_def)
qed

theorem produced_bundle_checks_witness:
  "check_audit_input_bundle (\<lambda>_. zero) demo_bundle [zero] [(zero, Diagonal)] strict_limits =
     Inr [receipt_id (\<lambda>_. zero) (receipt_for (\<lambda>_. zero) demo_step zero [zero] [(zero, Diagonal)])]"
  using produced_bundle_checks[OF demo_produced zero_wf zero_wf demo_matches] by (simp add: demo_journal_def)

end
