(* ===== verification/Settle_Engine.thy ===== *)
theory Settle_Engine
  imports Settle_Commit
begin

text \<open>
  The incremental engine (\<open>crates/soc-core/src/delta.rs\<close>, \<open>engine.rs\<close>, \<open>step_world_delta\<close> of
  \<open>commit.rs\<close>): deltas of the presented configurations are routed by a footprint index to the
  providers they concern, and the candidate deltas those return are merged into the view. A provider
  is a value of some type \<open>'p\<close> with the two methods of the trait; \<open>apply\<close> returns the provider's
  next state. The interface \<open>witness_index\<close> says what the engine needs of providers to keep its
  view equal to the oracle's, which is more than an honest footprint.
\<close>

section \<open>Deltas\<close>

record delta =
  dadded :: "handle set"
  dremoved :: "handle set"

definition delta_new :: delta where
  "delta_new = \<lparr>dadded = {}, dremoved = {}\<rparr>"

definition between_worlds :: "handle \<Rightarrow> handle \<Rightarrow> delta" where
  "between_worlds before after = (if before = after then delta_new else \<lparr>dadded = {after}, dremoved = {before}\<rparr>)"

definition delta_len :: "delta \<Rightarrow> nat" where
  "delta_len d = card (dadded d) + card (dremoved d)"

definition delta_is_empty :: "delta \<Rightarrow> bool" where
  "delta_is_empty d \<longleftrightarrow> dadded d = {} \<and> dremoved d = {}"

definition touched :: "delta \<Rightarrow> handle list" where
  "touched d = sorted_list_of_set (dadded d) @ sorted_list_of_set (dremoved d)"

record candidate_delta =
  cadded :: "candidate set"
  cremoved :: "candidate set"

definition cdelta_new :: candidate_delta where
  "cdelta_new = \<lparr>cadded = {}, cremoved = {}\<rparr>"

definition cdelta_len :: "candidate_delta \<Rightarrow> nat" where
  "cdelta_len c = card (cadded c) + card (cremoved c)"

definition cdelta_merge :: "candidate_delta \<Rightarrow> candidate_delta \<Rightarrow> candidate_delta" where
  "cdelta_merge c other = \<lparr>cadded = cadded c \<union> cadded other, cremoved = cremoved c \<union> cremoved other\<rparr>"

datatype footprint = AllConfigs | Configs "handle set"

fun intersects :: "footprint \<Rightarrow> delta \<Rightarrow> bool" where
  "intersects AllConfigs d \<longleftrightarrow> \<not> delta_is_empty d"
| "intersects (Configs s) d \<longleftrightarrow> \<not> delta_is_empty d \<and> list_ex (\<lambda>h. h \<in> s) (touched d)"

definition step_world_delta :: "exec_config \<Rightarrow> committed \<Rightarrow> delta" where
  "step_world_delta before cm =
     (case cm of Quiescent \<Rightarrow> delta_new | Step _ nxt \<Rightarrow> between_worlds (world before) (world nxt))"

section \<open>The engine\<close>

record 'p engine =
  eproviders :: "'p list"
  eindex :: "(handle \<times> nat set) list"
  euniversal :: "nat set"
  eview :: "candidate set"

definition index_insert :: "nat \<Rightarrow> handle \<Rightarrow> (handle \<times> nat set) list \<Rightarrow> (handle \<times> nat set) list" where
  "index_insert i h index = bt_insert h (insert i (case bt_get index h of None \<Rightarrow> {} | Some s \<Rightarrow> s)) index"

fun index_loop ::
  "('p \<Rightarrow> footprint) \<Rightarrow> nat \<Rightarrow> 'p list \<Rightarrow> (handle \<times> nat set) list \<Rightarrow> nat set \<Rightarrow> (handle \<times> nat set) list \<times> nat set" where
  "index_loop fp i [] index universal = (index, universal)"
| "index_loop fp i (p # ps) index universal =
     (case fp p of
        AllConfigs \<Rightarrow> index_loop fp (i + 1) ps index (insert i universal)
      | Configs s \<Rightarrow> index_loop fp (i + 1) ps (fold (index_insert i) (sorted_list_of_set s) index) universal)"

definition engine_new :: "('p \<Rightarrow> footprint) \<Rightarrow> 'p list \<Rightarrow> 'p engine" where
  "engine_new fp ps =
     (case index_loop fp 0 ps [] {} of (index, universal) \<Rightarrow>
        \<lparr>eproviders = ps, eindex = index, euniversal = universal, eview = {}\<rparr>)"

record step_report =
  candidate_delta_of :: candidate_delta
  scost :: cost_record

fun route_delta :: "(handle \<times> nat set) list \<Rightarrow> handle list \<Rightarrow> nat set \<Rightarrow> nat \<Rightarrow> nat set \<times> nat" where
  "route_delta index [] affected work = (affected, work)"
| "route_delta index (h # hs) affected work =
     route_delta index hs (case bt_get index h of Some s \<Rightarrow> affected \<union> s | None \<Rightarrow> affected) (work + 1)"

fun apply_loop ::
  "('p \<Rightarrow> delta \<Rightarrow> candidate_delta \<times> 'p) \<Rightarrow> delta \<Rightarrow> nat list \<Rightarrow> 'p list \<Rightarrow> candidate_delta \<Rightarrow> nat
     \<Rightarrow> 'p list \<times> candidate_delta \<times> nat" where
  "apply_loop ap d [] ps combined work = (ps, combined, work)"
| "apply_loop ap d (i # is) ps combined work =
     (case ap (ps ! i) d of (cd, p) \<Rightarrow>
        apply_loop ap d is (ps[i := p]) (cdelta_merge combined cd) (work + 1 + cdelta_len cd))"

definition engine_step ::
  "('p \<Rightarrow> delta \<Rightarrow> candidate_delta \<times> 'p) \<Rightarrow> 'p engine \<Rightarrow> delta \<Rightarrow> step_report \<times> 'p engine" where
  "engine_step ap e d =
     (let (affected, work) =
        (if delta_is_empty d then ({}, 0)
         else case route_delta (eindex e) (touched d) {} 0 of (affected, work) \<Rightarrow> (affected \<union> euniversal e, work));
          (ps, combined, work) = apply_loop ap d (sorted_list_of_set affected) (eproviders e) cdelta_new work
      in (\<lparr>candidate_delta_of = combined, scost = Steps work\<rparr>,
          e\<lparr>eproviders := ps, eview := (eview e - cremoved combined) \<union> cadded combined\<rparr>))"

section \<open>The naive reference\<close>

definition naive_view_over :: "provider list \<Rightarrow> adm \<Rightarrow> handle set \<Rightarrow> handle \<Rightarrow> digest \<Rightarrow> candidate set" where
  "naive_view_over ps adm worlds pol hist =
     (\<Union>w \<in> worlds. cand ps adm \<lparr>world = w, policy = pol, ehistory = hist\<rparr>)"

fun scan_providers :: "provider list \<Rightarrow> adm \<Rightarrow> exec_config \<Rightarrow> candidate set \<Rightarrow> nat \<Rightarrow> candidate set \<times> nat" where
  "scan_providers [] adm e out work = (out, work)"
| "scan_providers (p # ps) adm e out work =
     (case admit_counted adm e (p e) out (work + 1) of (out, work) \<Rightarrow> scan_providers ps adm e out work)"

fun scan_configs :: "provider list \<Rightarrow> adm \<Rightarrow> handle \<Rightarrow> digest \<Rightarrow> handle list \<Rightarrow> candidate set \<Rightarrow> nat \<Rightarrow> candidate set \<times> nat" where
  "scan_configs ps adm pol hist [] out work = (out, work)"
| "scan_configs ps adm pol hist (w # ws) out work =
     (case scan_providers ps adm \<lparr>world = w, policy = pol, ehistory = hist\<rparr> out work of (out, work) \<Rightarrow>
        scan_configs ps adm pol hist ws out work)"

definition naive_view_over_instrumented ::
  "provider list \<Rightarrow> adm \<Rightarrow> handle set \<Rightarrow> handle \<Rightarrow> digest \<Rightarrow> candidate set \<times> cost_record" where
  "naive_view_over_instrumented ps adm worlds pol hist =
     (case scan_configs ps adm pol hist (sorted_list_of_set worlds) {} 0 of (out, work) \<Rightarrow> (out, Steps work))"

section \<open>Routing\<close>

definition routed :: "footprint \<Rightarrow> handle \<Rightarrow> bool" where
  "routed f h \<longleftrightarrow> (\<exists>s. f = Configs s \<and> h \<in> s)"

definition finite_footprint :: "footprint \<Rightarrow> bool" where
  "finite_footprint f \<longleftrightarrow> (\<forall>s. f = Configs s \<longrightarrow> finite s)"

definition index_at :: "(handle \<times> nat set) list \<Rightarrow> handle \<Rightarrow> nat set" where
  "index_at index h = (case bt_get index h of None \<Rightarrow> {} | Some s \<Rightarrow> s)"

lemma index_insert_at:
  "bt_wf index \<Longrightarrow> bt_wf (index_insert i h index) \<and> index_at (index_insert i h index) g = (if g = h then insert i (index_at index g) else index_at index g)"
  by (simp add: index_insert_def index_at_def bt.ok_ins bt.get_ins)

lemma index_insert_fold:
  "bt_wf index \<Longrightarrow> bt_wf (fold (index_insert i) hs index) \<and>
     index_at (fold (index_insert i) hs index) g = (if g \<in> set hs then insert i (index_at index g) else index_at index g)"
proof (induction hs arbitrary: index)
  case (Cons h hs)
  then show ?case using Cons.IH[of "index_insert i h index"] index_insert_at[OF Cons.prems, of i h g] index_insert_at[OF Cons.prems, of i h]
    by auto
qed simp

lemma index_loop_spec:
  assumes "bt_wf index" "list_all (\<lambda>p. finite_footprint (fp p)) ps" "index_loop fp i ps index universal = (index', universal')"
  shows "bt_wf index' \<and> universal' = universal \<union> {i + k | k. k < length ps \<and> fp (ps ! k) = AllConfigs} \<and>
    index_at index' h = index_at index h \<union> {i + k | k. k < length ps \<and> routed (fp (ps ! k)) h}"
  using assms
proof (induction ps arbitrary: i index universal)
  case (Cons p ps)
  have sh: "{i + k |k. k < length (p # ps) \<and> P ((p # ps) ! k)} = (if P p then {i} else {}) \<union> {i + 1 + k |k. k < length ps \<and> P (ps ! k)}"
    (is "?l = ?r") for P
  proof
    show "?l \<subseteq> ?r"
    proof
      fix x assume "x \<in> ?l"
      then obtain k where "x = i + k" "k < Suc (length ps)" "P ((p # ps) ! k)" by auto
      then show "x \<in> ?r" by (cases k) auto
    qed
    have "i + 1 + k \<in> ?l" if "k < length ps" "P (ps ! k)" for k using that by (auto intro!: exI[of _ "Suc k"])
    moreover have "i \<in> ?l" if "P p" using that by (auto intro!: exI[of _ 0])
    ultimately show "?r \<subseteq> ?l" by (auto split: if_splits)
  qed
  show ?case
  proof (cases "fp p")
    case AllConfigs
    then have "index_loop fp (i + 1) ps index (insert i universal) = (index', universal')" using Cons.prems(3) by simp
    from Cons.IH[OF Cons.prems(1) _ this] show ?thesis
      using Cons.prems(2) AllConfigs unfolding sh[of "\<lambda>p. fp p = AllConfigs"] sh[of "\<lambda>p. routed (fp p) h"] by (auto simp: routed_def)
  next
    case (Configs s)
    let ?index = "fold (index_insert i) (sorted_list_of_set s) index"
    have s: "finite s" using Cons.prems(2) Configs by (simp add: finite_footprint_def)
    have w: "bt_wf ?index" "index_at ?index h = (if h \<in> s then insert i (index_at index h) else index_at index h)"
      using index_insert_fold[OF Cons.prems(1), of i "sorted_list_of_set s" h] s by simp_all
    have "index_loop fp (i + 1) ps ?index universal = (index', universal')" using Cons.prems(3) Configs by simp
    from Cons.IH[OF w(1) _ this] show ?thesis
      using Cons.prems(2) Configs w(2) unfolding sh[of "\<lambda>p. fp p = AllConfigs"] sh[of "\<lambda>p. routed (fp p) h"] by (auto simp: routed_def)
  qed
qed simp

lemma route_delta_spec: "route_delta index hs affected work = (affected \<union> (\<Union>h \<in> set hs. index_at index h), work + length hs)"
  by (induction index hs affected work rule: route_delta.induct) (auto simp: index_at_def split: option.splits)

text \<open>The providers a delta reaches are those whose footprint it intersects.\<close>

definition reached :: "('p \<Rightarrow> footprint) \<Rightarrow> 'p list \<Rightarrow> delta \<Rightarrow> nat set" where
  "reached fp ps d = {k. k < length ps \<and> intersects (fp (ps ! k)) d}"

definition routes :: "('p \<Rightarrow> footprint) \<Rightarrow> 'p engine \<Rightarrow> bool" where
  "routes fp e \<longleftrightarrow> euniversal e = {k. k < length (eproviders e) \<and> fp (eproviders e ! k) = AllConfigs} \<and>
     (\<forall>h. index_at (eindex e) h = {k. k < length (eproviders e) \<and> routed (fp (eproviders e ! k)) h})"

lemma engine_new_routes: "list_all (\<lambda>p. finite_footprint (fp p)) ps \<Longrightarrow> routes fp (engine_new fp ps)"
  using index_loop_spec[of "[]" fp ps 0 "{}"]
  by (auto simp: engine_new_def routes_def index_at_def[of "[]"] split: prod.splits)

lemma routes_reached:
  assumes "routes fp e" "\<not> delta_is_empty d"
  shows "(\<Union>h \<in> set (touched d). index_at (eindex e) h) \<union> euniversal e = reached fp (eproviders e) d"
proof -
  have "intersects f d \<longleftrightarrow> f = AllConfigs \<or> (\<exists>h \<in> set (touched d). routed f h)" for f
    using assms(2) by (cases f) (auto simp: routed_def list_ex_iff)
  then show ?thesis using assms(1) by (auto simp: routes_def reached_def)
qed

section \<open>What the engine needs of its providers\<close>

definition delta_finite :: "delta \<Rightarrow> bool" where
  "delta_finite d \<longleftrightarrow> finite (dadded d) \<and> finite (dremoved d)"

definition engine_run :: "('p \<Rightarrow> delta \<Rightarrow> candidate_delta \<times> 'p) \<Rightarrow> delta list \<Rightarrow> 'p engine \<Rightarrow> 'p engine" where
  "engine_run ap ds e = fold (\<lambda>d e. snd (engine_step ap e d)) ds e"

text \<open>The configurations present after a sequence of deltas.\<close>

definition present :: "delta list \<Rightarrow> handle set \<Rightarrow> handle set" where
  "present ds ws = fold (\<lambda>d ws. (ws - dremoved d) \<union> dadded d) ds ws"

text \<open>
  \<open>cands p h\<close> are the candidates the provider proposes at configuration \<open>h\<close>: applying a delta
  returns the candidates of the configurations that came and went and changes neither the footprint
  nor the candidates. Beside these laws the view of the engine needs that no candidate is proposed at
  two configurations (\<open>separate\<close>): it forgets a candidate as soon as one of its configurations leaves.
\<close>

definition separate :: "('p \<Rightarrow> handle \<Rightarrow> candidate set) \<Rightarrow> 'p list \<Rightarrow> bool" where
  "separate cands ps \<longleftrightarrow>
     (\<forall>p \<in> set ps. \<forall>q \<in> set ps. \<forall>h g. h \<noteq> g \<longrightarrow> cands p h \<inter> cands q g = {})"

locale witness_index =
  fixes fp :: "'p \<Rightarrow> footprint"
    and ap :: "'p \<Rightarrow> delta \<Rightarrow> candidate_delta \<times> 'p"
    and cands :: "'p \<Rightarrow> handle \<Rightarrow> candidate set"
  assumes fp_stable: "fp (snd (ap p d)) = fp p"
    and cands_stable: "cands (snd (ap p d)) = cands p"
    and fp_finite: "finite_footprint (fp p)"
    and honest: "c \<in> cands p h \<Longrightarrow> fp p = Configs s \<Longrightarrow> h \<in> s"
    and ap_added: "cadded (fst (ap p d)) = (\<Union>h \<in> dadded d. cands p h)"
    and ap_removed: "cremoved (fst (ap p d)) = (\<Union>h \<in> dremoved d. cands p h)"
begin

definition all_cands :: "'p list \<Rightarrow> handle set \<Rightarrow> candidate set" where
  "all_cands ps ws = (\<Union>p \<in> set ps. \<Union>h \<in> ws. cands p h)"

definition same :: "'p list \<Rightarrow> 'p list \<Rightarrow> bool" where
  "same ps qs \<longleftrightarrow> map fp ps = map fp qs \<and> map cands ps = map cands qs"

lemma same_update: "i < length ps \<Longrightarrow> same ps (ps[i := snd (ap (ps ! i) d)])"
  unfolding same_def by (metis fp_stable cands_stable list_update_id map_update)

lemma same_trans: "same ps qs \<Longrightarrow> same qs rs \<Longrightarrow> same ps rs"
  by (simp add: same_def)

lemma same_all_cands: "same ps qs \<Longrightarrow> all_cands ps ws = all_cands qs ws"
proof -
  assume "same ps qs"
  then have "cands ` set ps = cands ` set qs" unfolding same_def by (metis set_map)
  moreover have "all_cands ps ws = (\<Union>f \<in> cands ` set ps. \<Union>h \<in> ws. f h)" for ps by (simp add: all_cands_def)
  ultimately show ?thesis by metis
qed

lemma apply_loop_spec:
  assumes "apply_loop ap d is ps comb work = (ps', comb', work')" "distinct is" "\<forall>i \<in> set is. i < length ps"
  shows "same ps ps' \<and> cadded comb' = cadded comb \<union> (\<Union>i \<in> set is. \<Union>h \<in> dadded d. cands (ps ! i) h) \<and>
    cremoved comb' = cremoved comb \<union> (\<Union>i \<in> set is. \<Union>h \<in> dremoved d. cands (ps ! i) h) \<and>
    work' = work + length is + (\<Sum>i \<leftarrow> is. cdelta_len (fst (ap (ps ! i) d)))"
  using assms
proof (induction "is" arbitrary: ps comb work)
  case Nil
  then show ?case by (simp add: same_def)
next
  case (Cons i js)
  let ?ps = "ps[i := snd (ap (ps ! i) d)]"
  have i: "i < length ps" "i \<notin> set js" "distinct js" using Cons.prems by auto
  have "apply_loop ap d js ?ps (cdelta_merge comb (fst (ap (ps ! i) d))) (work + 1 + cdelta_len (fst (ap (ps ! i) d))) = (ps', comb', work')"
    using Cons.prems(1) by (simp split: prod.splits)
  note IH = Cons.IH[OF this i(3)]
  have nth: "?ps ! k = ps ! k" if "k \<in> set js" for k using i(2) that by (metis nth_list_update_neq)
  have "(\<Sum>k \<leftarrow> js. cdelta_len (fst (ap (?ps ! k) d))) = (\<Sum>k \<leftarrow> js. cdelta_len (fst (ap (ps ! k) d)))"
    using nth by (intro arg_cong[of _ _ sum_list] map_cong) auto
  then show ?case
    using IH Cons.prems(3) same_trans[OF same_update[OF i(1)]] nth by (auto simp: cdelta_merge_def ap_added ap_removed)
qed

lemma reached_all:
  assumes "delta_finite d" "ws \<subseteq> dadded d \<union> dremoved d"
  shows "(\<Union>i \<in> reached fp ps d. \<Union>h \<in> ws. cands (ps ! i) h) = all_cands ps ws"
proof -
  have "i \<in> reached fp ps d" if "i < length ps" "h \<in> ws" "c \<in> cands (ps ! i) h" for i h c
  proof -
    have "h \<in> set (touched d)" "\<not> delta_is_empty d"
      using assms that by (auto simp: touched_def delta_finite_def delta_is_empty_def)
    then show ?thesis using that honest[OF that(3)] by (cases "fp (ps ! i)") (auto simp: reached_def list_ex_iff)
  qed
  then show ?thesis unfolding all_cands_def by (fastforce simp: in_set_conv_nth reached_def)
qed

lemma all_cands_present:
  assumes "separate cands ps"
  shows "(all_cands ps ws - all_cands ps rs) \<union> all_cands ps as = all_cands ps ((ws - rs) \<union> as)"
proof -
  have out: "c \<notin> all_cands ps rs" if "p \<in> set ps" "c \<in> cands p h" "h \<notin> rs" for c p h
  proof
    assume "c \<in> all_cands ps rs"
    then obtain q g where "q \<in> set ps" "g \<in> rs" "c \<in> cands q g" by (auto simp: all_cands_def)
    then show False using assms that unfolding separate_def by (metis IntI empty_iff)
  qed
  have stay: "h \<notin> rs" if "p \<in> set ps" "c \<in> cands p h" "c \<notin> all_cands ps rs" for c p h
    using that by (auto simp: all_cands_def)
  have iff: "c \<in> all_cands ps us \<longleftrightarrow> (\<exists>p \<in> set ps. \<exists>h \<in> us. c \<in> cands p h)" for c us by (auto simp: all_cands_def)
  have "c \<in> all_cands ps ws \<and> c \<notin> all_cands ps rs \<longleftrightarrow> c \<in> all_cands ps (ws - rs)" for c
    unfolding iff[of c ws] iff[of c "ws - rs"] using out stay by blast
  then have "all_cands ps ws - all_cands ps rs = all_cands ps (ws - rs)" by blast
  moreover have "all_cands ps (us \<union> vs) = all_cands ps us \<union> all_cands ps vs" for us vs by (auto simp: all_cands_def)
  ultimately show ?thesis by simp
qed

lemma engine_step_spec:
  assumes "routes fp e" "delta_finite d" "engine_step ap e d = (r, e')"
  shows "same (eproviders e) (eproviders e') \<and> routes fp e' \<and>
    eview e' = (eview e - all_cands (eproviders e) (dremoved d)) \<union> all_cands (eproviders e) (dadded d) \<and>
    scost r = Steps (delta_len d + card (reached fp (eproviders e) d) +
      (\<Sum>i \<in> reached fp (eproviders e) d. cdelta_len (fst (ap (eproviders e ! i) d))))"
proof -
  let ?R = "reached fp (eproviders e) d"
  have fin: "finite ?R" by (simp add: reached_def)
  have len: "length (touched d) = delta_len d" using assms(2) by (simp add: touched_def delta_len_def)
  have empty: "delta_is_empty d \<Longrightarrow> ?R = {} \<and> delta_len d = 0"
    by (auto simp: reached_def delta_is_empty_def delta_len_def elim: intersects.elims)
  obtain ps comb work where a: "apply_loop ap d (sorted_list_of_set ?R) (eproviders e) cdelta_new (delta_len d) = (ps, comb, work)"
    by (metis prod_cases3)
  have "engine_step ap e d = (\<lparr>candidate_delta_of = comb, scost = Steps work\<rparr>,
      e\<lparr>eproviders := ps, eview := (eview e - cremoved comb) \<union> cadded comb\<rparr>)"
    using a empty routes_reached[OF assms(1), of d] by (cases "delta_is_empty d") (auto simp: engine_step_def route_delta_spec len)
  then have e': "e' = e\<lparr>eproviders := ps, eview := (eview e - cremoved comb) \<union> cadded comb\<rparr>" "scost r = Steps work"
    using assms(3) by auto
  have "\<forall>i \<in> set (sorted_list_of_set ?R). i < length (eproviders e)" using fin by (simp add: reached_def)
  note al = apply_loop_spec[OF a distinct_sorted_list_of_set this, unfolded set_sorted_list_of_set[OF fin]]
  have sp: "same (eproviders e) ps" using al by (elim conjE)
  have ca: "cadded comb = all_cands (eproviders e) (dadded d)"
    using al reached_all[OF assms(2), of "dadded d" "eproviders e"] by (simp add: cdelta_new_def)
  have cr: "cremoved comb = all_cands (eproviders e) (dremoved d)"
    using al reached_all[OF assms(2), of "dremoved d" "eproviders e"] by (simp add: cdelta_new_def)
  have wk: "work = delta_len d + card ?R + (\<Sum>i \<in> ?R. cdelta_len (fst (ap (eproviders e ! i) d)))"
    using al fin by (simp add: sum_list_distinct_conv_sum_set)
  have "length ps = length (eproviders e)" "\<And>k. k < length ps \<Longrightarrow> fp (ps ! k) = fp (eproviders e ! k)"
    using sp unfolding same_def by (metis length_map, metis length_map nth_map)
  then have "routes fp e'" using assms(1) e' by (auto simp: routes_def)
  then show ?thesis using sp ca cr wk e' by simp
qed

lemma same_separate: "same ps qs \<Longrightarrow> separate cands ps = separate cands qs"
proof -
  assume "same ps qs"
  then have "cands ` set ps = cands ` set qs" unfolding same_def by (metis set_map)
  moreover have "separate cands ps \<longleftrightarrow> (\<forall>f \<in> cands ` set ps. \<forall>k \<in> cands ` set ps. \<forall>h g. h \<noteq> g \<longrightarrow> f h \<inter> k g = {})" for ps
    by (simp add: separate_def)
  ultimately show ?thesis by metis
qed

theorem engine_view:
  assumes "list_all delta_finite ds" "separate cands ps"
  shows "eview (engine_run ap ds (engine_new fp ps)) = all_cands ps (present ds {})"
proof -
  have "routes fp e \<Longrightarrow> eview e = all_cands (eproviders e) ws \<Longrightarrow> separate cands (eproviders e) \<Longrightarrow>
      eview (engine_run ap ds e) = all_cands (eproviders e) (present ds ws)" for e ws
    using assms(1)
  proof (induction ds arbitrary: e ws)
    case (Cons d ds)
    obtain r e' where s: "engine_step ap e d = (r, e')" by fastforce
    note sp = engine_step_spec[OF Cons.prems(1) _ s]
    have same: "all_cands (eproviders e') us = all_cands (eproviders e) us" for us
      using sp Cons.prems(4) same_all_cands[of "eproviders e" "eproviders e'"] by simp
    have "eview e' = all_cands (eproviders e') ((ws - dremoved d) \<union> dadded d)"
      using sp Cons.prems all_cands_present[OF Cons.prems(3)] by (simp add: same)
    moreover have "separate cands (eproviders e')" using sp Cons.prems(3,4) same_separate[of "eproviders e" "eproviders e'"] by simp
    ultimately show ?case
      using Cons.IH[of e' "(ws - dremoved d) \<union> dadded d"] sp Cons.prems s by (simp add: engine_run_def present_def same)
  qed (simp add: engine_run_def present_def)
  from this[OF engine_new_routes, of ps "{}"] show ?thesis
    using fp_finite assms(2) by (auto simp: engine_new_def all_cands_def list_all_iff split: prod.splits)
qed

lemma engine_run_same:
  "list_all delta_finite ds \<Longrightarrow> routes fp e \<Longrightarrow>
     same (eproviders e) (eproviders (engine_run ap ds e)) \<and> routes fp (engine_run ap ds e)"
proof (induction ds arbitrary: e)
  case (Cons d ds)
  obtain r e' where s: "engine_step ap e d = (r, e')" by fastforce
  have "same (eproviders e) (eproviders e')" "routes fp e'"
    using engine_step_spec[OF Cons.prems(2) _ s] Cons.prems(1) by simp_all
  then show ?case using Cons.IH[of e'] Cons.prems(1) s same_trans by (auto simp: engine_run_def)
qed (simp add: engine_run_def same_def)

lemma same_nth: "same ps qs \<Longrightarrow> i < length ps \<Longrightarrow> fp (qs ! i) = fp (ps ! i) \<and> cands (qs ! i) = cands (ps ! i)"
  unfolding same_def by (metis length_map nth_map)

lemma same_reached: "same ps qs \<Longrightarrow> reached fp qs d = reached fp ps d"
proof -
  assume s: "same ps qs"
  then have "length qs = length ps" unfolding same_def by (metis length_map)
  then show ?thesis using same_nth[OF s] by (auto simp: reached_def)
qed

text \<open>A step costs what the delta and the providers it reaches account for, however many deltas came before.\<close>

theorem engine_cost:
  assumes "list_all delta_finite ds" "delta_finite d"
    "engine_step ap (engine_run ap ds (engine_new fp ps)) d = (r, e')"
  shows "scost r = Steps (delta_len d + card (reached fp ps d) +
    (\<Sum>i \<in> reached fp ps d. card (\<Union>h \<in> dadded d. cands (ps ! i) h) + card (\<Union>h \<in> dremoved d. cands (ps ! i) h)))"
proof -
  let ?qs = "eproviders (engine_run ap ds (engine_new fp ps))"
  have "routes fp (engine_new fp ps)" using fp_finite by (intro engine_new_routes) (simp add: list_all_iff)
  from engine_run_same[OF assms(1) this]
  have s: "same ps ?qs" and rt: "routes fp (engine_run ap ds (engine_new fp ps))"
    by (simp_all add: engine_new_def split: prod.splits)
  have "cdelta_len (fst (ap (?qs ! i) d)) = card (\<Union>h \<in> dadded d. cands (ps ! i) h) + card (\<Union>h \<in> dremoved d. cands (ps ! i) h)"
    if "i \<in> reached fp ps d" for i
    using same_nth[OF s, of i] that by (simp add: cdelta_len_def ap_added ap_removed reached_def)
  then show ?thesis
    using engine_step_spec[OF rt assms(2,3)] same_reached[OF s] by simp
qed

end

end
