(* ===== verification/Regime_Literal.thy ===== *)
theory Regime_Literal
  imports Settle_Audit
begin

text \<open>
  The literal-equality regime (\<open>crates/soc-regimes/src/literal.rs\<close>): a table of registered
  configurations, each with the handle of its reflexive witness. \<open>register\<close> resolves the
  configuration, which panics for a handle the interner does not know; \<open>None\<close> stands for that panic.
  The candidates of a lowered regime carry the handle of the canonical witness of the configurations
  they lead between (\<open>lowered\<close>); registration establishes this.
\<close>

section \<open>The regime\<close>

record known =
  kwitness_handle :: handle
  kconfig :: config_id

record literal_regime =
  lregime_id :: regime_id
  lknown :: "(handle \<times> known) list"

definition LITERAL_NAME :: string where
  "LITERAL_NAME = ''literal-equality@1''"

definition LITERAL_GENERATOR_NAME :: string where
  "LITERAL_GENERATOR_NAME = ''literal-equality.refl@1''"

definition literal_new :: "(bytes \<Rightarrow> bytes) \<Rightarrow> literal_regime" where
  "literal_new blake3 = \<lparr>lregime_id = id_named blake3 LITERAL_NAME, lknown = []\<rparr>"

definition literal_candidate_for :: "literal_regime \<Rightarrow> handle \<Rightarrow> candidate option" where
  "literal_candidate_for r config =
     map_option (\<lambda>k. \<lparr>cwitness = kwitness_handle k, successor = config\<rparr>) (bt_get (lknown r) config)"

definition literal_register ::
  "(bytes \<Rightarrow> bytes) \<Rightarrow> literal_regime \<Rightarrow> interner \<Rightarrow> handle \<Rightarrow> (literal_regime \<times> interner) option" where
  "literal_register blake3 r it config =
     (if bt_get (lknown r) config \<noteq> None then Some (r, it)
      else case try_resolve it config of
        None \<Rightarrow> None
      | Some config_id \<Rightarrow>
          (case intern it (witness_id blake3 \<lparr>wsrc = config_id, wdst = config_id, wregime = lregime_id r\<rparr>) of (wh, it) \<Rightarrow>
             Some (r\<lparr>lknown := bt_insert config \<lparr>kwitness_handle = wh, kconfig = config_id\<rparr> (lknown r)\<rparr>, it)))"

definition literal_candidates :: "literal_regime \<Rightarrow> exec_config \<Rightarrow> candidate list" where
  "literal_candidates r e = (case literal_candidate_for r (world e) of None \<Rightarrow> [] | Some c \<Rightarrow> [c])"

definition literal_try_decompose ::
  "(bytes \<Rightarrow> bytes) \<Rightarrow> literal_regime \<Rightarrow> exec_config \<Rightarrow> candidate \<Rightarrow> commit_error + decomposition" where
  "literal_try_decompose blake3 r e c =
     (case bt_get (lknown r) (world e) of
        None \<Rightarrow> Inl CommitPanicked
      | Some k \<Rightarrow>
          (case decomposition_recorded [id_named blake3 LITERAL_GENERATOR_NAME] [kconfig k, kconfig k] of
             Inl _ \<Rightarrow> Inl CommitPanicked
           | Inr d \<Rightarrow> Inr d))"

definition literal_provider :: "(bytes \<Rightarrow> bytes) \<Rightarrow> literal_regime \<Rightarrow> settlement_provider" where
  "literal_provider blake3 r = \<lparr>sp_candidates = literal_candidates r, sp_decompose = literal_try_decompose blake3 r\<rparr>"

definition literal_equality_semantics :: "(bytes \<Rightarrow> bytes) \<Rightarrow> generator_semantics" where
  "literal_equality_semantics blake3 = semantics_declare (id_named blake3 LITERAL_GENERATOR_NAME) Diagonal []"

section \<open>Lowered candidates\<close>

text \<open>
  Candidate \<open>c\<close> at configuration handle \<open>h\<close> is lowered: its witness handle stands for the canonical
  witness from the configuration behind \<open>h\<close> to the one behind its successor, under some regime.
\<close>

definition lowered_as :: "(bytes \<Rightarrow> bytes) \<Rightarrow> interner \<Rightarrow> regime_id \<Rightarrow> handle \<Rightarrow> candidate \<Rightarrow> bool" where
  "lowered_as blake3 it rid h c \<longleftrightarrow> (\<exists>x y. try_resolve it h = Some x \<and> try_resolve it (successor c) = Some y \<and>
     try_resolve it (cwitness c) = Some (witness_id blake3 \<lparr>wsrc = x, wdst = y, wregime = rid\<rparr>))"

definition literal_ok :: "(bytes \<Rightarrow> bytes) \<Rightarrow> interner \<Rightarrow> literal_regime \<Rightarrow> bool" where
  "literal_ok blake3 it r \<longleftrightarrow> bt_wf (lknown r) \<and>
     (\<forall>h k. bt_get (lknown r) h = Some k \<longrightarrow> try_resolve it h = Some (kconfig k) \<and>
        try_resolve it (kwitness_handle k) =
          Some (witness_id blake3 \<lparr>wsrc = kconfig k, wdst = kconfig k, wregime = lregime_id r\<rparr>))"

definition interner_extends :: "interner \<Rightarrow> interner \<Rightarrow> bool" where
  "interner_extends it it' \<longleftrightarrow> (\<forall>h d. try_resolve it h = Some d \<longrightarrow> try_resolve it' h = Some d)"

lemma interner_extends_refl [simp]: "interner_extends it it"
  by (simp add: interner_extends_def)

lemma interner_extends_trans: "interner_extends it it' \<Longrightarrow> interner_extends it' it'' \<Longrightarrow> interner_extends it it''"
  by (simp add: interner_extends_def)

lemma intern_extends:
  assumes "interner_wf it" "length (by_handle it) < 2 ^ 32" "intern it d = (h, it')"
  shows "interner_wf it' \<and> try_resolve it' h = Some d \<and> interner_extends it it' \<and> length (by_handle it') \<le> length (by_handle it) + 1"
proof -
  have "length (by_handle it') \<le> length (by_handle it) + 1"
    using assms(3) by (cases "bt_get (by_digest it) d") (auto simp: intern_def Let_def)
  moreover have "interner_extends it it'" unfolding interner_extends_def using intern_ok(3)[OF assms] by blast
  ultimately show ?thesis using intern_ok(1,2)[OF assms] by (intro conjI)
qed

lemma literal_ok_extends: "literal_ok blake3 it r \<Longrightarrow> interner_extends it it' \<Longrightarrow> literal_ok blake3 it' r"
  by (simp add: literal_ok_def interner_extends_def)

lemma literal_ok_new: "literal_ok blake3 it (literal_new blake3)"
  by (simp add: literal_ok_def literal_new_def)

lemma literal_candidate_for_Some:
  "literal_candidate_for r h = Some c \<longleftrightarrow> (\<exists>k. bt_get (lknown r) h = Some k \<and> c = \<lparr>cwitness = kwitness_handle k, successor = h\<rparr>)"
  by (auto simp: literal_candidate_for_def)

lemma literal_lowered:
  "literal_ok blake3 it r \<Longrightarrow> literal_candidate_for r h = Some c \<Longrightarrow> lowered_as blake3 it (lregime_id r) h c"
  by (auto simp: literal_ok_def literal_candidate_for_Some lowered_as_def)

lemma literal_register_ok:
  assumes "literal_ok blake3 it r" "interner_wf it" "length (by_handle it) < 2 ^ 32" "literal_register blake3 r it h = Some (r', it')"
  shows "literal_ok blake3 it' r' \<and> interner_wf it' \<and> interner_extends it it' \<and> lregime_id r' = lregime_id r \<and>
    dom (bt_get (lknown r')) = insert h (dom (bt_get (lknown r)))"
proof (cases "bt_get (lknown r) h")
  case None
  then obtain x where x: "try_resolve it h = Some x" using assms(4) by (auto simp: literal_register_def split: option.splits)
  let ?w = "witness_id blake3 \<lparr>wsrc = x, wdst = x, wregime = lregime_id r\<rparr>"
  obtain wh it1 where i: "intern it ?w = (wh, it1)" by fastforce
  have r: "r' = r\<lparr>lknown := bt_insert h \<lparr>kwitness_handle = wh, kconfig = x\<rparr> (lknown r)\<rparr>" "it' = it1"
    using assms(4) None x i by (auto simp: literal_register_def)
  note ex = intern_extends[OF assms(2,3) i]
  have "literal_ok blake3 it' r" using literal_ok_extends[OF assms(1)] ex r(2) by simp
  moreover have "try_resolve it' h = Some x" using ex x r(2) by (simp add: interner_extends_def)
  ultimately show ?thesis using ex r by (auto simp: literal_ok_def bt.ok_ins bt.get_ins)
qed (use assms in \<open>auto simp: literal_register_def\<close>)

end
