(* ===== verification/Regime_Frontier.thy ===== *)
theory Regime_Frontier
  imports Regime_Literal "HOL-Library.Char_ord" "HOL-Library.Product_Lexorder"
begin

text \<open>
  The finite candidate frontier (\<open>crates/soc-regimes/src/finite_frontier.rs\<close>): named candidates with
  their canonical keys, admission policies, the evaluation of a complete pool into a frontier that
  fails closed, the explanations \<open>explain_why\<close> and \<open>explain_why_not\<close>, the adapter of a policy to
  the settlement loop, and the finite candidate regime. \<open>None\<close> stands for the panic of
  \<open>Interner::resolve\<close> on a handle the interner does not know, and of the assertions of
  \<open>add_candidate\<close>. A policy is its evaluation function.
\<close>

section \<open>Named candidates\<close>

definition CANONICAL_TIEBREAK_TAG :: string where
  "CANONICAL_TIEBREAK_TAG = ''brix.regimes.NamedCandidate.tiebreak@1''"

definition FINITE_FRONTIER_REGIME_NAME :: string where
  "FINITE_FRONTIER_REGIME_NAME = ''brix.l3.finite-decision@1''"

definition FINITE_FRONTIER_GENERATOR_NAME :: string where
  "FINITE_FRONTIER_GENERATOR_NAME = ''finite-frontier.step@1''"

record canonical_candidate =
  ccregime_id :: regime_id
  ccwitness :: digest
  ccsuccessor :: digest

definition canon_write_canonical_candidate :: "canonical_candidate \<Rightarrow> canon_writer \<Rightarrow> canon_writer" where
  "canon_write_canonical_candidate c w =
     write_bytes (ccsuccessor c) (write_bytes (ccwitness c) (canon_write_id (ccregime_id c)
       (write_tag ''brix.regimes.CanonicalCandidate@1'' w)))"

datatype named_candidate =
  NamedCandidate (nname: string) (nregime_id: regime_id) (nsrc: config_id) (ndst: config_id)
    (nsrc_handle: handle) (nwitness_handle: handle) (nsuccessor_handle: handle) (nphase: u64) (npriority: u64)

text \<open>The derived order compares the fields in their declared order.\<close>

definition nc_fields ::
  "named_candidate \<Rightarrow> string \<times> regime_id \<times> config_id \<times> config_id \<times> handle \<times> handle \<times> handle \<times> u64 \<times> u64" where
  "nc_fields c = (nname c, nregime_id c, nsrc c, ndst c, nsrc_handle c, nwitness_handle c, nsuccessor_handle c, nphase c, npriority c)"

lemma nc_fields_inj: "nc_fields a = nc_fields b \<longleftrightarrow> a = b"
  by (cases a; cases b) (simp add: nc_fields_def)

instantiation named_candidate :: linorder
begin

definition less_eq_named_candidate :: "named_candidate \<Rightarrow> named_candidate \<Rightarrow> bool" where
  "less_eq_named_candidate a b \<longleftrightarrow> nc_fields a \<le> nc_fields b"

definition less_named_candidate :: "named_candidate \<Rightarrow> named_candidate \<Rightarrow> bool" where
  "less_named_candidate a b \<longleftrightarrow> nc_fields a < nc_fields b"

instance
proof
  fix a b c :: named_candidate
  show "a < b \<longleftrightarrow> a \<le> b \<and> \<not> b \<le> a" unfolding less_eq_named_candidate_def less_named_candidate_def by (rule less_le_not_le)
  show "a \<le> a" unfolding less_eq_named_candidate_def by (rule order_refl)
  show "a \<le> b \<Longrightarrow> b \<le> c \<Longrightarrow> a \<le> c" unfolding less_eq_named_candidate_def by (rule order_trans)
  show "a \<le> b \<Longrightarrow> b \<le> a \<Longrightarrow> a = b"
    unfolding less_eq_named_candidate_def nc_fields_inj[symmetric] by (rule order_antisym)
  show "a \<le> b \<or> b \<le> a" unfolding less_eq_named_candidate_def by (rule linear)
qed

end

definition named_new ::
  "(bytes \<Rightarrow> bytes) \<Rightarrow> string \<Rightarrow> regime_id \<Rightarrow> config_id \<Rightarrow> config_id \<Rightarrow> u64 \<Rightarrow> interner \<Rightarrow> named_candidate \<times> interner" where
  "named_new blake3 name rid src dst prio it =
     (case intern it src of (sh, it) \<Rightarrow>
      case intern it dst of (dh, it) \<Rightarrow>
      case intern it (witness_id blake3 \<lparr>wsrc = src, wdst = dst, wregime = rid\<rparr>) of (wh, it) \<Rightarrow>
        (NamedCandidate name rid src dst sh wh dh 0 prio, it))"

definition named_with_handles ::
  "string \<Rightarrow> regime_id \<Rightarrow> config_id \<Rightarrow> config_id \<Rightarrow> handle \<Rightarrow> handle \<Rightarrow> handle \<Rightarrow> u64 \<Rightarrow> named_candidate" where
  "named_with_handles name rid src dst sh wh dh prio = NamedCandidate name rid src dst sh wh dh 0 prio"

definition to_candidate :: "named_candidate \<Rightarrow> candidate" where
  "to_candidate c = \<lparr>cwitness = nwitness_handle c, successor = nsuccessor_handle c\<rparr>"

definition canonical_identity :: "named_candidate \<Rightarrow> interner \<Rightarrow> canonical_candidate option" where
  "canonical_identity c it =
     (case try_resolve it (nwitness_handle c) of
        None \<Rightarrow> None
      | Some v \<Rightarrow>
          (case try_resolve it (nsuccessor_handle c) of
             None \<Rightarrow> None
           | Some y \<Rightarrow> Some \<lparr>ccregime_id = nregime_id c, ccwitness = v, ccsuccessor = y\<rparr>))"

definition canonical_tiebreak :: "(bytes \<Rightarrow> bytes) \<Rightarrow> named_candidate \<Rightarrow> interner \<Rightarrow> digest option" where
  "canonical_tiebreak blake3 c it =
     map_option (\<lambda>i. writer_digest blake3
       (canon_write_canonical_candidate i (write_tag CANONICAL_TIEBREAK_TAG canon_new)) Value) (canonical_identity c it)"

definition canonical_key :: "(bytes \<Rightarrow> bytes) \<Rightarrow> named_candidate \<Rightarrow> interner \<Rightarrow> key option" where
  "canonical_key blake3 c it = map_option (Key (nphase c) (npriority c)) (canonical_tiebreak blake3 c it)"

section \<open>Admission\<close>

datatype reason_code = GuardFalse | CustomReason string string

fun reason_category :: "reason_code \<Rightarrow> string" where
  "reason_category GuardFalse = ''guard_false@1''"
| "reason_category (CustomReason code detail) = code"

fun reason_display :: "reason_code \<Rightarrow> string" where
  "reason_display GuardFalse = ''rejected guard-false''"
| "reason_display (CustomReason code detail) = code @ '': '' @ detail"

fun canon_write_reason :: "reason_code \<Rightarrow> canon_writer \<Rightarrow> canon_writer" where
  "canon_write_reason GuardFalse w = write_enum 0 (\<lambda>w. w) w"
| "canon_write_reason (CustomReason code detail) w = write_enum 1 (\<lambda>w. write_str detail (write_str code w)) w"

datatype candidate_status = StatusSelected | StatusAdmittedNotSelected | StatusRejectedGuardFalse | StatusRejected reason_code

fun status_rejection_reason :: "candidate_status \<Rightarrow> reason_code option" where
  "status_rejection_reason StatusRejectedGuardFalse = Some GuardFalse"
| "status_rejection_reason (StatusRejected r) = Some r"
| "status_rejection_reason _ = None"

fun status_display :: "candidate_status \<Rightarrow> string" where
  "status_display StatusSelected = ''selected''"
| "status_display StatusAdmittedNotSelected = ''admitted-not-selected''"
| "status_display StatusRejectedGuardFalse = ''rejected guard-false''"
| "status_display (StatusRejected r) = ''rejected ('' @ reason_display r @ '')''"

datatype admission_decision = Admitted | Rejected reason_code | AdmError string

fun is_admitted :: "admission_decision \<Rightarrow> bool" where
  "is_admitted Admitted = True"
| "is_admitted (Rejected _) = False"
| "is_admitted (AdmError _) = False"

type_synonym admission_policy = "exec_config \<Rightarrow> named_candidate \<Rightarrow> admission_decision"

definition AdmitAllPolicy :: admission_policy where
  "AdmitAllPolicy e c = Admitted"

definition GuardPolicy :: "(exec_config \<Rightarrow> named_candidate \<Rightarrow> bool) \<Rightarrow> admission_policy" where
  "GuardPolicy f e c = (if f e c then Admitted else Rejected GuardFalse)"

definition DenyAllPolicy :: admission_policy where
  "DenyAllPolicy e c = Rejected GuardFalse"

section \<open>Deliberation\<close>

datatype evaluation_fault =
    FaultKeyConflict "named_candidate key_conflict"
  | FaultCandidateKeyConflict "candidate key_conflict"
  | AdmissionError named_candidate string
  | EvaluationError string
  | InvalidPhase named_candidate u64

datatype deliberation_outcome = Selected key named_candidate | DelibQuiescent

record evaluated_frontier =
  fconfig :: exec_config
  fadmitted :: "(key \<times> named_candidate) list"
  frejected :: "(named_candidate \<times> reason_code) list"
  ffrontier :: "named_candidate frontier"
  fcandidate_frontier :: "candidate frontier"
  fselected :: "(key \<times> named_candidate) option"
  fkey_conflicts :: "named_candidate key_conflict list"
  fcandidate_key_conflicts :: "candidate key_conflict list"
  fevaluation_faults :: "evaluation_fault list"

definition frontier_empty :: "exec_config \<Rightarrow> evaluated_frontier" where
  "frontier_empty e = \<lparr>fconfig = e, fadmitted = [], frejected = [], ffrontier = [], fcandidate_frontier = [], fselected = None,
     fkey_conflicts = [], fcandidate_key_conflicts = [], fevaluation_faults = []\<rparr>"

text \<open>An admitted candidate enters the map of the admitted and the two frontiers under its key.\<close>

definition admit :: "key \<Rightarrow> named_candidate \<Rightarrow> evaluated_frontier \<Rightarrow> evaluated_frontier" where
  "admit k c f =
     (let f = f\<lparr>fadmitted := (case bt_get (fadmitted f) k of None \<Rightarrow> bt_insert k c (fadmitted f) | Some _ \<Rightarrow> fadmitted f)\<rparr>;
          (fr, r) = frontier_insert (ffrontier f) k c;
          f = f\<lparr>ffrontier := fr, fkey_conflicts := (case r of Inl x \<Rightarrow> fkey_conflicts f @ [x] | Inr _ \<Rightarrow> fkey_conflicts f)\<rparr>;
          (fr, r) = frontier_insert (fcandidate_frontier f) k (to_candidate c)
      in f\<lparr>fcandidate_frontier := fr,
           fcandidate_key_conflicts :=
             (case r of Inl x \<Rightarrow> fcandidate_key_conflicts f @ [x] | Inr _ \<Rightarrow> fcandidate_key_conflicts f)\<rparr>)"

fun evaluate_loop ::
  "(bytes \<Rightarrow> bytes) \<Rightarrow> admission_policy \<Rightarrow> exec_config \<Rightarrow> interner \<Rightarrow> named_candidate list \<Rightarrow> evaluated_frontier
     \<Rightarrow> evaluated_frontier option" where
  "evaluate_loop blake3 pol e it [] f = Some f"
| "evaluate_loop blake3 pol e it (c # cs) f =
     (if nphase c \<noteq> 0 then
        evaluate_loop blake3 pol e it cs (f\<lparr>fevaluation_faults := fevaluation_faults f @ [InvalidPhase c (nphase c)]\<rparr>)
      else case pol e c of
        AdmError detail \<Rightarrow>
          evaluate_loop blake3 pol e it cs (f\<lparr>fevaluation_faults := fevaluation_faults f @ [AdmissionError c detail]\<rparr>)
      | Rejected reason \<Rightarrow> evaluate_loop blake3 pol e it cs (f\<lparr>frejected := bt_insert c reason (frejected f)\<rparr>)
      | Admitted \<Rightarrow>
          (case canonical_key blake3 c it of
             None \<Rightarrow> None
           | Some k \<Rightarrow> evaluate_loop blake3 pol e it cs (admit k c f)))"

definition evaluate ::
  "(bytes \<Rightarrow> bytes) \<Rightarrow> named_candidate list \<Rightarrow> admission_policy \<Rightarrow> exec_config \<Rightarrow> interner \<Rightarrow> evaluated_frontier option" where
  "evaluate blake3 cs pol e it =
     map_option
       (\<lambda>f. f\<lparr>fselected :=
          (if fkey_conflicts f = [] \<and> fcandidate_key_conflicts f = [] \<and> fevaluation_faults f = []
           then peek_least (ffrontier f) else None)\<rparr>)
       (evaluate_loop blake3 pol e it (sorted_list_of_set (set cs)) (frontier_empty e))"

definition fault :: "evaluated_frontier \<Rightarrow> evaluation_fault option" where
  "fault f =
     (case fevaluation_faults f of
        x # _ \<Rightarrow> Some x
      | [] \<Rightarrow>
          (case fkey_conflicts f of
             x # _ \<Rightarrow> Some (FaultKeyConflict x)
           | [] \<Rightarrow>
               (case fcandidate_key_conflicts f of
                  x # _ \<Rightarrow> Some (FaultCandidateKeyConflict x)
                | [] \<Rightarrow> None)))"

definition try_evaluate ::
  "(bytes \<Rightarrow> bytes) \<Rightarrow> named_candidate list \<Rightarrow> admission_policy \<Rightarrow> exec_config \<Rightarrow> interner
     \<Rightarrow> (evaluation_fault + evaluated_frontier) option" where
  "try_evaluate blake3 cs pol e it =
     map_option (\<lambda>f. case fault f of Some x \<Rightarrow> Inl x | None \<Rightarrow> Inr f) (evaluate blake3 cs pol e it)"

definition deliberation_outcome_of :: "evaluated_frontier \<Rightarrow> evaluation_fault + deliberation_outcome" where
  "deliberation_outcome_of f =
     (case fault f of
        Some x \<Rightarrow> Inl x
      | None \<Rightarrow> (case fselected f of Some (k, c) \<Rightarrow> Inr (Selected k c) | None \<Rightarrow> Inr DelibQuiescent))"

definition selection_outcome :: "evaluated_frontier \<Rightarrow> evaluation_fault + (key \<times> named_candidate) option" where
  "selection_outcome f = (case fault f of Some x \<Rightarrow> Inl x | None \<Rightarrow> Inr (fselected f))"

definition status_of :: "evaluated_frontier \<Rightarrow> named_candidate \<Rightarrow> candidate_status option" where
  "status_of f c =
     (if map_option snd (fselected f) = Some c then Some StatusSelected
      else if list_ex (\<lambda>(k, x). x = c) (fadmitted f) then Some StatusAdmittedNotSelected
      else case bt_get (frejected f) c of
        Some GuardFalse \<Rightarrow> Some StatusRejectedGuardFalse
      | Some custom \<Rightarrow> Some (StatusRejected custom)
      | None \<Rightarrow> None)"

definition frontier_is_quiescent :: "evaluated_frontier \<Rightarrow> bool" where
  "frontier_is_quiescent f \<longleftrightarrow> fselected f = None \<and> fault f = None"

definition admitted_count :: "evaluated_frontier \<Rightarrow> nat" where
  "admitted_count f = length (fadmitted f)"

definition rejected_count :: "evaluated_frontier \<Rightarrow> nat" where
  "rejected_count f = length (frejected f)"

definition total_count :: "evaluated_frontier \<Rightarrow> nat" where
  "total_count f = length (fadmitted f) + length (frejected f)"

section \<open>Explanations\<close>

datatype why_explanation =
    WhySelected key named_candidate
  | WhyAdmittedNotSelected key named_candidate key named_candidate
  | WhyNotAdmitted named_candidate reason_code
  | WhyCandidateNotFound
  | WhyEvaluationFaulted named_candidate evaluation_fault
  | WhyNoCandidateAdmitted

datatype why_not_explanation =
    RejectedByPolicy named_candidate reason_code
  | Overshadowed named_candidate key key named_candidate
  | ActuallySelected named_candidate key
  | WhyNotCandidateNotFound
  | WhyNotEvaluationFaulted named_candidate evaluation_fault
  | NoCandidateSelected

definition explain_why ::
  "(bytes \<Rightarrow> bytes) \<Rightarrow> named_candidate list \<Rightarrow> admission_policy \<Rightarrow> exec_config \<Rightarrow> named_candidate \<Rightarrow> interner
     \<Rightarrow> why_explanation option" where
  "explain_why blake3 cs pol e target it =
     (if target \<notin> set cs then Some WhyCandidateNotFound
      else case evaluate blake3 cs pol e it of
        None \<Rightarrow> None
      | Some f \<Rightarrow>
          (case fault f of
             Some x \<Rightarrow> Some (WhyEvaluationFaulted target x)
           | None \<Rightarrow>
               (case pol e target of
                  AdmError detail \<Rightarrow> Some (WhyEvaluationFaulted target (AdmissionError target detail))
                | Rejected reason \<Rightarrow> Some (WhyNotAdmitted target reason)
                | Admitted \<Rightarrow>
                    (case canonical_key blake3 target it of
                       None \<Rightarrow> None
                     | Some k \<Rightarrow> Some
                         (case fselected f of
                            Some (sk, sc) \<Rightarrow>
                              if sk = k \<and> sc = target then WhySelected k target else WhyAdmittedNotSelected k target sk sc
                          | None \<Rightarrow> WhyNoCandidateAdmitted)))))"

definition explain_why_not ::
  "(bytes \<Rightarrow> bytes) \<Rightarrow> named_candidate list \<Rightarrow> admission_policy \<Rightarrow> exec_config \<Rightarrow> named_candidate \<Rightarrow> interner
     \<Rightarrow> why_not_explanation option" where
  "explain_why_not blake3 cs pol e target it =
     (if target \<notin> set cs then Some WhyNotCandidateNotFound
      else case evaluate blake3 cs pol e it of
        None \<Rightarrow> None
      | Some f \<Rightarrow>
          (case fault f of
             Some x \<Rightarrow> Some (WhyNotEvaluationFaulted target x)
           | None \<Rightarrow>
               (case pol e target of
                  AdmError detail \<Rightarrow> Some (WhyNotEvaluationFaulted target (AdmissionError target detail))
                | Rejected reason \<Rightarrow> Some (RejectedByPolicy target reason)
                | Admitted \<Rightarrow>
                    (case canonical_key blake3 target it of
                       None \<Rightarrow> None
                     | Some k \<Rightarrow> Some
                         (case fselected f of
                            Some (sk, sc) \<Rightarrow>
                              if sk = k \<and> sc = target then ActuallySelected target k else Overshadowed target k sk sc
                          | None \<Rightarrow> NoCandidateSelected)))))"

section \<open>The adapter and the regime\<close>

definition candidates_by_witness :: "named_candidate list \<Rightarrow> (handle \<times> named_candidate) list" where
  "candidates_by_witness cs = fold (\<lambda>c. bt_insert (nwitness_handle c) c) cs []"

definition PolicyToAdmAdapter :: "admission_policy \<Rightarrow> named_candidate list \<Rightarrow> adm" where
  "PolicyToAdmAdapter pol cs e c =
     (case bt_get (candidates_by_witness cs) (cwitness c) of Some nc \<Rightarrow> is_admitted (pol e nc) | None \<Rightarrow> False)"

record finite_regime =
  fregime_id :: regime_id
  candidates_by_src :: "(handle \<times> named_candidate list) list"
  all_candidates :: "named_candidate set"
  known_configs :: "(handle \<times> config_id) list"

definition finite_new :: "regime_id \<Rightarrow> finite_regime" where
  "finite_new rid = \<lparr>fregime_id = rid, candidates_by_src = [], all_candidates = {}, known_configs = []\<rparr>"

definition finite_default :: "(bytes \<Rightarrow> bytes) \<Rightarrow> finite_regime" where
  "finite_default blake3 = finite_new (id_named blake3 FINITE_FRONTIER_REGIME_NAME)"

definition register_config :: "finite_regime \<Rightarrow> interner \<Rightarrow> config_id \<Rightarrow> handle \<times> finite_regime \<times> interner" where
  "register_config r it config =
     (case intern it config of (h, it) \<Rightarrow> (h, r\<lparr>known_configs := bt_insert h config (known_configs r)\<rparr>, it))"

definition add_candidate :: "named_candidate \<Rightarrow> finite_regime \<Rightarrow> finite_regime option" where
  "add_candidate c r =
     (if nregime_id c \<noteq> fregime_id r \<or> nphase c \<noteq> 0 then None
      else Some (r\<lparr>known_configs := bt_insert (nsuccessor_handle c) (ndst c) (bt_insert (nsrc_handle c) (nsrc c) (known_configs r)),
        candidates_by_src := bt_insert (nsrc_handle c)
          ((case bt_get (candidates_by_src r) (nsrc_handle c) of None \<Rightarrow> [] | Some cs \<Rightarrow> cs) @ [c]) (candidates_by_src r),
        all_candidates := insert c (all_candidates r)\<rparr>))"

definition register_named_candidate ::
  "(bytes \<Rightarrow> bytes) \<Rightarrow> finite_regime \<Rightarrow> interner \<Rightarrow> string \<Rightarrow> config_id \<Rightarrow> config_id \<Rightarrow> u64
     \<Rightarrow> (named_candidate \<times> finite_regime \<times> interner) option" where
  "register_named_candidate blake3 r it name src dst prio =
     (case named_new blake3 name (fregime_id r) src dst prio it of (c, it) \<Rightarrow>
        map_option (\<lambda>r. (c, r, it)) (add_candidate c r))"

definition candidates_for_source :: "finite_regime \<Rightarrow> handle \<Rightarrow> named_candidate list option" where
  "candidates_for_source r h = bt_get (candidates_by_src r) h"

definition finite_candidates :: "finite_regime \<Rightarrow> exec_config \<Rightarrow> candidate list" where
  "finite_candidates r e = (case bt_get (candidates_by_src r) (world e) of None \<Rightarrow> [] | Some cs \<Rightarrow> map to_candidate cs)"

definition finite_try_decompose ::
  "(bytes \<Rightarrow> bytes) \<Rightarrow> finite_regime \<Rightarrow> exec_config \<Rightarrow> candidate \<Rightarrow> commit_error + decomposition" where
  "finite_try_decompose blake3 r e c =
     (case Option.bind (bt_get (candidates_by_src r) (world e)) (find (\<lambda>nc. to_candidate nc = c)) of
        None \<Rightarrow> Inl CandidateMismatch
      | Some nc \<Rightarrow>
          if nregime_id nc \<noteq> fregime_id r then Inl WitnessMismatch
          else map_err commit_error_of_decomposition
            (decomposition_recorded [id_named blake3 FINITE_FRONTIER_GENERATOR_NAME] [nsrc nc, ndst nc]))"

definition finite_provider :: "(bytes \<Rightarrow> bytes) \<Rightarrow> finite_regime \<Rightarrow> settlement_provider" where
  "finite_provider blake3 r = \<lparr>sp_candidates = finite_candidates r, sp_decompose = finite_try_decompose blake3 r\<rparr>"

section \<open>What the evaluation computes\<close>

text \<open>The candidates of the pool that are admitted under a key, and those that fault.\<close>

definition admitted_as ::
  "(bytes \<Rightarrow> bytes) \<Rightarrow> admission_policy \<Rightarrow> exec_config \<Rightarrow> interner \<Rightarrow> named_candidate set \<Rightarrow> key \<Rightarrow> named_candidate \<Rightarrow> bool" where
  "admitted_as blake3 pol e it pool k c \<longleftrightarrow>
     c \<in> pool \<and> nphase c = 0 \<and> pol e c = Admitted \<and> canonical_key blake3 c it = Some k"

definition faulty :: "admission_policy \<Rightarrow> exec_config \<Rightarrow> named_candidate \<Rightarrow> bool" where
  "faulty pol e c \<longleftrightarrow> nphase c \<noteq> 0 \<or> (\<exists>detail. pol e c = AdmError detail)"

definition unique_keys :: "(key \<Rightarrow> named_candidate \<Rightarrow> bool) \<Rightarrow> bool" where
  "unique_keys adm \<longleftrightarrow> (\<forall>k c c'. adm k c \<longrightarrow> adm k c' \<longrightarrow> c = c')"

definition frontier_inv ::
  "(bytes \<Rightarrow> bytes) \<Rightarrow> admission_policy \<Rightarrow> exec_config \<Rightarrow> interner \<Rightarrow> named_candidate set \<Rightarrow> evaluated_frontier \<Rightarrow> bool" where
  "frontier_inv blake3 pol e it P f \<longleftrightarrow>
     bt_wf (ffrontier f) \<and> fadmitted f = ffrontier f \<and> bt_wf (fcandidate_frontier f) \<and>
     (\<forall>k. bt_get (fcandidate_frontier f) k = map_option to_candidate (bt_get (ffrontier f) k)) \<and>
     (\<forall>k c. bt_get (ffrontier f) k = Some c \<longrightarrow> admitted_as blake3 pol e it P k c) \<and>
     (\<forall>k c. admitted_as blake3 pol e it P k c \<longrightarrow> bt_get (ffrontier f) k \<noteq> None) \<and>
     (fkey_conflicts f = [] \<longleftrightarrow> unique_keys (admitted_as blake3 pol e it P)) \<and>
     (fkey_conflicts f = [] \<longrightarrow> fcandidate_key_conflicts f = []) \<and>
     (\<forall>x \<in> set (fkey_conflicts f). admitted_as blake3 pol e it P (conflict_key x) (existing x) \<and>
        admitted_as blake3 pol e it P (conflict_key x) (attempted x) \<and> existing x \<noteq> attempted x)"

definition faults_inv :: "admission_policy \<Rightarrow> exec_config \<Rightarrow> named_candidate set \<Rightarrow> evaluated_frontier \<Rightarrow> bool" where
  "faults_inv pol e P f \<longleftrightarrow>
     (fevaluation_faults f = [] \<longleftrightarrow> (\<forall>c \<in> P. \<not> faulty pol e c)) \<and>
     (\<forall>x \<in> set (fevaluation_faults f). \<exists>c \<in> P. faulty pol e c \<and>
        (x = InvalidPhase c (nphase c) \<or> (\<exists>detail. pol e c = AdmError detail \<and> x = AdmissionError c detail))) \<and>
     bt_wf (frejected f) \<and>
     (\<forall>c r. bt_get (frejected f) c = Some r \<longleftrightarrow> c \<in> P \<and> nphase c = 0 \<and> pol e c = Rejected r) \<and> fselected f = None"

lemma frontier_inv_empty: "frontier_inv blake3 pol e it {} (frontier_empty e)"
  by (simp add: frontier_inv_def frontier_empty_def admitted_as_def unique_keys_def)

lemma faults_inv_empty: "faults_inv pol e {} (frontier_empty e)"
  by (simp add: faults_inv_def frontier_empty_def)

lemma admitted_as_insert:
  "admitted_as blake3 pol e it (insert c P) k x \<longleftrightarrow> admitted_as blake3 pol e it P k x \<or>
     x = c \<and> nphase c = 0 \<and> pol e c = Admitted \<and> canonical_key blake3 c it = Some k"
  by (auto simp: admitted_as_def)

lemma frontier_inv_skip:
  assumes "frontier_inv blake3 pol e it P f" "nphase c \<noteq> 0 \<or> pol e c \<noteq> Admitted"
    "ffrontier f' = ffrontier f" "fadmitted f' = fadmitted f" "fcandidate_frontier f' = fcandidate_frontier f"
    "fkey_conflicts f' = fkey_conflicts f" "fcandidate_key_conflicts f' = fcandidate_key_conflicts f"
  shows "frontier_inv blake3 pol e it (insert c P) f'"
proof -
  have "admitted_as blake3 pol e it (insert c P) = admitted_as blake3 pol e it P"
    using assms(2) by (auto simp: admitted_as_insert fun_eq_iff)
  then show ?thesis using assms(1,3-7) by (simp add: frontier_inv_def)
qed

lemma admit_fields:
  "fadmitted (admit k c f) = (case bt_get (fadmitted f) k of None \<Rightarrow> bt_insert k c (fadmitted f) | Some _ \<Rightarrow> fadmitted f)"
  "ffrontier (admit k c f) = fst (frontier_insert (ffrontier f) k c)"
  "fcandidate_frontier (admit k c f) = fst (frontier_insert (fcandidate_frontier f) k (to_candidate c))"
  "fkey_conflicts (admit k c f) =
     (case snd (frontier_insert (ffrontier f) k c) of Inl x \<Rightarrow> fkey_conflicts f @ [x] | Inr _ \<Rightarrow> fkey_conflicts f)"
  "fcandidate_key_conflicts (admit k c f) = (case snd (frontier_insert (fcandidate_frontier f) k (to_candidate c)) of
     Inl x \<Rightarrow> fcandidate_key_conflicts f @ [x] | Inr _ \<Rightarrow> fcandidate_key_conflicts f)"
  "fevaluation_faults (admit k c f) = fevaluation_faults f" "frejected (admit k c f) = frejected f"
  "fselected (admit k c f) = fselected f"
  by (simp_all add: admit_def Let_def split: prod.splits option.splits sum.splits)

lemma frontier_inv_admit:
  assumes "frontier_inv blake3 pol e it P f" "c \<notin> P" "nphase c = 0" "pol e c = Admitted" "canonical_key blake3 c it = Some k"
  shows "frontier_inv blake3 pol e it (insert c P) (admit k c f)"
proof (cases "bt_get (ffrontier f) k")
  case None
  have none: "\<not> admitted_as blake3 pol e it P k x" for x using assms(1) None by (auto simp: frontier_inv_def)
  have u: "unique_keys (admitted_as blake3 pol e it (insert c P)) = unique_keys (admitted_as blake3 pol e it P)"
    using none assms(3-5) by (auto simp: unique_keys_def admitted_as_insert)
  have "bt_get (fcandidate_frontier f) k = None" "bt_get (fadmitted f) k = None" using assms(1) None by (simp_all add: frontier_inv_def)
  then show ?thesis
    using assms(1,3-5) None by (simp add: frontier_inv_def admit_fields frontier_insert_def u bt.get_ins bt.ok_ins admitted_as_insert)
next
  case (Some x)
  have x: "admitted_as blake3 pol e it P k x" using assms(1) Some by (simp add: frontier_inv_def)
  then have "x \<noteq> c" using assms(2) by (auto simp: admitted_as_def)
  then have "\<not> unique_keys (admitted_as blake3 pol e it (insert c P))"
    using x assms(3-5) by (auto simp: unique_keys_def admitted_as_insert)
  moreover have "bt_get (fcandidate_frontier f) k = Some (to_candidate x)" "bt_get (fadmitted f) k = Some x"
    using assms(1) Some by (simp_all add: frontier_inv_def)
  ultimately show ?thesis
    using assms(1,3-5) Some x \<open>x \<noteq> c\<close> by (simp add: frontier_inv_def admit_fields frontier_insert_def admitted_as_insert) blast
qed

lemma faults_inv_fault:
  assumes "faults_inv pol e P f"
    "nphase c \<noteq> 0 \<and> x = InvalidPhase c (nphase c) \<or> nphase c = 0 \<and> pol e c = AdmError detail \<and> x = AdmissionError c detail"
  shows "faults_inv pol e (insert c P) (f\<lparr>fevaluation_faults := fevaluation_faults f @ [x]\<rparr>)"
proof -
  have "faulty pol e c" using assms(2) by (auto simp: faulty_def)
  then show ?thesis using assms unfolding faults_inv_def by auto
qed

lemma faults_inv_reject:
  assumes "faults_inv pol e P f" "c \<notin> P" "nphase c = 0" "pol e c = Rejected r"
  shows "faults_inv pol e (insert c P) (f\<lparr>frejected := bt_insert c r (frejected f)\<rparr>)"
proof -
  have "\<not> faulty pol e c" using assms(3,4) by (simp add: faulty_def)
  moreover have "bt_get (bt_insert c r (frejected f)) = (bt_get (frejected f))(c \<mapsto> r)" "bt_wf (bt_insert c r (frejected f))"
    using assms(1) by (simp_all add: faults_inv_def bt.get_ins bt.ok_ins)
  ultimately show ?thesis using assms by (auto simp: faults_inv_def)
qed

lemma faults_inv_admit:
  assumes "faults_inv pol e P f" "c \<notin> P" "nphase c = 0" "pol e c = Admitted"
  shows "faults_inv pol e (insert c P) (admit k c f)"
proof -
  have "\<not> faulty pol e c" using assms(3,4) by (simp add: faulty_def)
  then show ?thesis using assms by (auto simp: faults_inv_def admit_fields)
qed

lemma evaluate_loop_inv:
  assumes "evaluate_loop blake3 pol e it cs f = Some f'" "distinct cs" "set cs \<inter> P = {}"
    "frontier_inv blake3 pol e it P f" "faults_inv pol e P f"
  shows "frontier_inv blake3 pol e it (set cs \<union> P) f' \<and> faults_inv pol e (set cs \<union> P) f'"
  using assms
proof (induction cs arbitrary: f P)
  case (Cons c cs)
  have c: "c \<notin> P" "distinct cs" "set cs \<inter> insert c P = {}" using Cons.prems(2,3) by auto
  have step: ?case if "evaluate_loop blake3 pol e it cs f1 = Some f'" "frontier_inv blake3 pol e it (insert c P) f1"
      "faults_inv pol e (insert c P) f1" for f1
    using Cons.IH[OF that(1) c(2,3) that(2,3)] by simp
  show ?case
  proof (cases "nphase c = 0")
    case True
    show ?thesis
    proof (cases "pol e c")
      case Admitted
      then obtain k where k: "canonical_key blake3 c it = Some k"
        using Cons.prems(1) True by (auto split: option.splits)
      show ?thesis
        using step[of "admit k c f"] Cons.prems(1) True Admitted k
          frontier_inv_admit[OF Cons.prems(4) c(1) True Admitted k] faults_inv_admit[OF Cons.prems(5) c(1) True Admitted] by simp
    next
      case (Rejected r)
      show ?thesis
        using step[OF _ frontier_inv_skip[OF Cons.prems(4)] faults_inv_reject[OF Cons.prems(5) c(1) True Rejected]]
          Cons.prems(1) True Rejected by simp
    next
      case (AdmError d)
      show ?thesis
        using step[OF _ frontier_inv_skip[OF Cons.prems(4)] faults_inv_fault[OF Cons.prems(5)]]
          Cons.prems(1) True AdmError by simp
    qed
  next
    case False
    show ?thesis
      using step[OF _ frontier_inv_skip[OF Cons.prems(4)] faults_inv_fault[OF Cons.prems(5)]] Cons.prems(1) False by simp
  qed
qed simp

text \<open>The pool is clean: nothing in it faults and no key is shared.\<close>

definition clean_pool ::
  "(bytes \<Rightarrow> bytes) \<Rightarrow> admission_policy \<Rightarrow> exec_config \<Rightarrow> interner \<Rightarrow> named_candidate set \<Rightarrow> bool" where
  "clean_pool blake3 pol e it pool \<longleftrightarrow>
     (\<forall>c \<in> pool. \<not> faulty pol e c) \<and> unique_keys (admitted_as blake3 pol e it pool)"

lemma evaluate_inv:
  assumes "evaluate blake3 cs pol e it = Some f"
  obtains g where "frontier_inv blake3 pol e it (set cs) g" "faults_inv pol e (set cs) g"
    "f = g\<lparr>fselected := (if clean_pool blake3 pol e it (set cs) then peek_least (ffrontier g) else None)\<rparr>"
proof -
  obtain g where g: "evaluate_loop blake3 pol e it (sorted_list_of_set (set cs)) (frontier_empty e) = Some g"
    "f = g\<lparr>fselected := (if fkey_conflicts g = [] \<and> fcandidate_key_conflicts g = [] \<and> fevaluation_faults g = []
       then peek_least (ffrontier g) else None)\<rparr>"
    using assms by (auto simp: evaluate_def)
  have inv: "frontier_inv blake3 pol e it (set cs) g" "faults_inv pol e (set cs) g"
    using evaluate_loop_inv[OF g(1) distinct_sorted_list_of_set _ frontier_inv_empty faults_inv_empty] by simp_all
  moreover have "fkey_conflicts g = [] \<and> fcandidate_key_conflicts g = [] \<and> fevaluation_faults g = [] \<longleftrightarrow>
      clean_pool blake3 pol e it (set cs)"
    using inv by (auto simp: frontier_inv_def faults_inv_def clean_pool_def)
  ultimately show thesis using g(2) that by simp
qed

lemma frontier_least:
  assumes "bt_wf m" "\<And>k c. bt_get m k = Some c \<longleftrightarrow> adm k c"
  shows "peek_least m = Some (k, c) \<longleftrightarrow> adm k c \<and> (\<forall>k' c'. adm k' c' \<longrightarrow> k \<le> k')"
    and "peek_least m = None \<longleftrightarrow> (\<forall>k c. \<not> adm k c)"
proof -
  show none: "peek_least m = None \<longleftrightarrow> (\<forall>k c. \<not> adm k c)"
  proof (cases m)
    case Nil
    then show ?thesis using assms(2) by (auto simp: peek_least_def)
  next
    case (Cons x xs)
    then have "bt_get m (fst x) = Some (snd x)" by (simp add: bt_get_def)
    then show ?thesis using assms(2) Cons by (auto simp: peek_least_def)
  qed
  have l: "adm h u \<and> (\<forall>k' c'. adm k' c' \<longrightarrow> h \<le> k')" if "peek_least m = Some (h, u)" for h u
  proof -
    obtain xs where m: "m = (h, u) # xs" using \<open>peek_least m = Some (h, u)\<close> by (cases m) (auto simp: peek_least_def)
    then have "bt_get m h = Some u" by (simp add: bt_get_def)
    moreover have "h \<le> k'" if "adm k' c'" for k' c'
      using bt_first_least[OF assms(1)[unfolded m]] that[folded assms(2)] by (simp add: m)
    ultimately show ?thesis using assms(2) by blast
  qed
  show "peek_least m = Some (k, c) \<longleftrightarrow> adm k c \<and> (\<forall>k' c'. adm k' c' \<longrightarrow> k \<le> k')"
  proof
    assume r: "adm k c \<and> (\<forall>k' c'. adm k' c' \<longrightarrow> k \<le> k')"
    then have "peek_least m \<noteq> None" using none by blast
    then obtain h u where p: "peek_least m = Some (h, u)" by auto
    have "h = k" using l[OF p] r by (meson order_antisym)
    moreover have "u = c" using l[OF p] r \<open>h = k\<close> assms(2) by (metis option.inject)
    ultimately show "peek_least m = Some (k, c)" using p by simp
  qed (rule l)
qed

lemma evaluate_fault:
  assumes "evaluate blake3 cs pol e it = Some f"
  shows "fault f = None \<longleftrightarrow> clean_pool blake3 pol e it (set cs)"
    and "fault f \<noteq> Some (FaultCandidateKeyConflict x)"
proof -
  obtain g where g: "frontier_inv blake3 pol e it (set cs) g" "faults_inv pol e (set cs) g"
    "f = g\<lparr>fselected := (if clean_pool blake3 pol e it (set cs) then peek_least (ffrontier g) else None)\<rparr>"
    using evaluate_inv[OF assms] .
  have f: "fevaluation_faults f = fevaluation_faults g" "fkey_conflicts f = fkey_conflicts g"
    "fcandidate_key_conflicts f = fcandidate_key_conflicts g" by (simp_all add: g(3))
  show "fault f = None \<longleftrightarrow> clean_pool blake3 pol e it (set cs)"
    using g(1,2) by (auto simp: fault_def f frontier_inv_def faults_inv_def clean_pool_def split: list.splits)
  have "y \<in> set (fevaluation_faults g) \<Longrightarrow> y \<noteq> FaultCandidateKeyConflict x" for y
    using g(2) unfolding faults_inv_def by blast
  then show "fault f \<noteq> Some (FaultCandidateKeyConflict x)"
    using g(1) by (auto simp: fault_def f frontier_inv_def split: list.splits)
qed

lemma evaluate_selected:
  assumes "evaluate blake3 cs pol e it = Some f" "clean_pool blake3 pol e it (set cs)"
  shows "fselected f = Some (k, c) \<longleftrightarrow> admitted_as blake3 pol e it (set cs) k c \<and>
      (\<forall>k' c'. admitted_as blake3 pol e it (set cs) k' c' \<longrightarrow> k \<le> k')"
    and "fselected f = None \<longleftrightarrow> (\<forall>k c. \<not> admitted_as blake3 pol e it (set cs) k c)"
proof -
  obtain g where "frontier_inv blake3 pol e it (set cs) g"
    "f = g\<lparr>fselected := (if clean_pool blake3 pol e it (set cs) then peek_least (ffrontier g) else None)\<rparr>"
    using evaluate_inv[OF assms(1)] .
  then have g: "frontier_inv blake3 pol e it (set cs) g" "fselected f = peek_least (ffrontier g)" using assms(2) by simp_all
  have u: "unique_keys (admitted_as blake3 pol e it (set cs))" using assms(2) by (simp add: clean_pool_def)
  have "bt_get (ffrontier g) k = Some c \<longleftrightarrow> admitted_as blake3 pol e it (set cs) k c" for k c
    using g(1) u unfolding frontier_inv_def unique_keys_def by (metis not_None_eq)
  note fl = frontier_least[of "ffrontier g" "admitted_as blake3 pol e it (set cs)", OF _ this]
  have "bt_wf (ffrontier g)" using g(1) by (simp add: frontier_inv_def)
  then show "fselected f = Some (k, c) \<longleftrightarrow> admitted_as blake3 pol e it (set cs) k c \<and>
      (\<forall>k' c'. admitted_as blake3 pol e it (set cs) k' c' \<longrightarrow> k \<le> k')"
    "fselected f = None \<longleftrightarrow> (\<forall>k c. \<not> admitted_as blake3 pol e it (set cs) k c)"
    using fl g(2) by simp_all
qed

lemma evaluate_loop_total:
  assumes "\<And>c. c \<in> set cs \<Longrightarrow> nphase c = 0 \<Longrightarrow> pol e c = Admitted \<Longrightarrow> canonical_key blake3 c it \<noteq> None"
  shows "\<exists>f'. evaluate_loop blake3 pol e it cs f = Some f'"
  using assms
proof (induction cs arbitrary: f)
  case (Cons c cs)
  have IH: "\<exists>f'. evaluate_loop blake3 pol e it cs g = Some f'" for g using Cons.prems by (intro Cons.IH) simp
  show ?case
    using IH Cons.prems[of c] by (cases "nphase c = 0"; cases "pol e c") auto
qed simp

lemma evaluate_total:
  assumes "\<And>c. c \<in> set cs \<Longrightarrow> nphase c = 0 \<Longrightarrow> pol e c = Admitted \<Longrightarrow> canonical_key blake3 c it \<noteq> None"
  obtains f where "evaluate blake3 cs pol e it = Some f"
proof -
  obtain g where "evaluate_loop blake3 pol e it (sorted_list_of_set (set cs)) (frontier_empty e) = Some g"
    using evaluate_loop_total[of "sorted_list_of_set (set cs)" pol e blake3 it] assms by auto
  then show thesis using that by (simp add: evaluate_def)
qed

lemma deliberation_cases:
  assumes "evaluate blake3 cs pol e it = Some f"
  shows "(\<exists>x. deliberation_outcome_of f = Inl x) \<longleftrightarrow> \<not> clean_pool blake3 pol e it (set cs)"
    and "deliberation_outcome_of f = Inr (Selected k c) \<longleftrightarrow> clean_pool blake3 pol e it (set cs) \<and>
      admitted_as blake3 pol e it (set cs) k c \<and> (\<forall>k' c'. admitted_as blake3 pol e it (set cs) k' c' \<longrightarrow> k \<le> k')"
    and "deliberation_outcome_of f = Inr DelibQuiescent \<longleftrightarrow>
      clean_pool blake3 pol e it (set cs) \<and> (\<forall>k c. \<not> admitted_as blake3 pol e it (set cs) k c)"
    and "deliberation_outcome_of f \<noteq> Inl (FaultCandidateKeyConflict x)"
    and "deliberation_outcome_of f = Inr (Selected k c) \<longleftrightarrow> fault f = None \<and> fselected f = Some (k, c)"
proof -
  note cl = evaluate_fault(1)[OF assms]
  show sel: "deliberation_outcome_of f = Inr (Selected k c) \<longleftrightarrow> fault f = None \<and> fselected f = Some (k, c)" for k c
    by (auto simp: deliberation_outcome_of_def split: option.splits)
  show "(\<exists>x. deliberation_outcome_of f = Inl x) \<longleftrightarrow> \<not> clean_pool blake3 pol e it (set cs)"
    unfolding cl[symmetric] by (auto simp: deliberation_outcome_of_def split: option.splits)
  show "deliberation_outcome_of f = Inr (Selected k c) \<longleftrightarrow> clean_pool blake3 pol e it (set cs) \<and>
      admitted_as blake3 pol e it (set cs) k c \<and> (\<forall>k' c'. admitted_as blake3 pol e it (set cs) k' c' \<longrightarrow> k \<le> k')"
    unfolding sel using cl evaluate_selected(1)[OF assms, of k c] by metis
  have "deliberation_outcome_of f = Inr DelibQuiescent \<longleftrightarrow> fault f = None \<and> fselected f = None"
    by (auto simp: deliberation_outcome_of_def split: option.splits)
  then show "deliberation_outcome_of f = Inr DelibQuiescent \<longleftrightarrow>
      clean_pool blake3 pol e it (set cs) \<and> (\<forall>k c. \<not> admitted_as blake3 pol e it (set cs) k c)"
    using cl evaluate_selected(2)[OF assms] by metis
  show "deliberation_outcome_of f \<noteq> Inl (FaultCandidateKeyConflict x)"
    using evaluate_fault(2)[OF assms, of x] by (auto simp: deliberation_outcome_of_def split: option.splits)
qed

text \<open>An evaluated pool has a key for each of its admitted candidates, or it faulted on the phase.\<close>

lemma evaluate_loop_key:
  "evaluate_loop blake3 pol e it cs f = Some f' \<Longrightarrow> c \<in> set cs \<Longrightarrow> nphase c = 0 \<Longrightarrow> pol e c = Admitted \<Longrightarrow>
     canonical_key blake3 c it \<noteq> None"
proof (induction cs arbitrary: f)
  case (Cons x cs)
  show ?case
  proof (cases "c = x")
    case True
    then show ?thesis using Cons.prems by (auto split: option.splits)
  next
    case False
    then have c: "c \<in> set cs" using Cons.prems(2) by simp
    obtain g where "evaluate_loop blake3 pol e it cs g = Some f'"
      using Cons.prems(1) by (auto split: if_splits admission_decision.splits option.splits)
    from Cons.IH[OF this c Cons.prems(3,4)] show ?thesis .
  qed
qed simp

lemma evaluate_key:
  assumes "evaluate blake3 cs pol e it = Some f" "c \<in> set cs" "nphase c = 0" "pol e c = Admitted"
  shows "canonical_key blake3 c it \<noteq> None"
proof -
  obtain g where "evaluate_loop blake3 pol e it (sorted_list_of_set (set cs)) (frontier_empty e) = Some g"
    using assms(1) by (auto simp: evaluate_def)
  from evaluate_loop_key[OF this _ assms(3,4)] show ?thesis using assms(2) by simp
qed

lemma deliberation_fault: "deliberation_outcome_of f = Inl x \<longleftrightarrow> fault f = Some x"
  by (auto simp: deliberation_outcome_of_def split: option.splits)

text \<open>Where the pool is clean, an admitted target has its key and some candidate is selected.\<close>

lemma explain_cases:
  assumes "evaluate blake3 cs pol e it = Some f" "t \<in> set cs" "fault f = None"
  shows "pol e t \<noteq> AdmError d"
    and "canonical_key blake3 t it = Some k \<Longrightarrow> pol e t = Admitted \<Longrightarrow>
      \<exists>sk sc. fselected f = Some (sk, sc) \<and> (sk = k \<longleftrightarrow> sc = t) \<and> (sc \<noteq> t \<longrightarrow> sk < k)"
proof -
  have clean: "clean_pool blake3 pol e it (set cs)" using assms evaluate_fault(1) by blast
  then have nf: "\<not> faulty pol e t" using assms(2) by (simp add: clean_pool_def)
  then show "pol e t \<noteq> AdmError d" by (auto simp: faulty_def)
  assume "canonical_key blake3 t it = Some k" "pol e t = Admitted"
  then have t: "admitted_as blake3 pol e it (set cs) k t" using assms(2) nf by (simp add: admitted_as_def faulty_def)
  then obtain sk sc where s: "fselected f = Some (sk, sc)" using evaluate_selected(2)[OF assms(1) clean] by fastforce
  note sel = evaluate_selected(1)[OF assms(1) clean, THEN iffD1, OF s]
  have "sk \<le> k" using sel t by blast
  moreover have "sk = k \<Longrightarrow> sc = t" using sel t clean unfolding clean_pool_def unique_keys_def by blast
  moreover have "sc = t \<Longrightarrow> sk = k" using sel t by (simp add: admitted_as_def)
  ultimately show "\<exists>sk sc. fselected f = Some (sk, sc) \<and> (sk = k \<longleftrightarrow> sc = t) \<and> (sc \<noteq> t \<longrightarrow> sk < k)"
    using s by (intro exI[of _ sk] exI[of _ sc]) (auto simp: order_le_less)
qed

text \<open>What the explanations answer for a candidate of an evaluated pool.\<close>

lemma explain_selected:
  assumes "evaluate blake3 cs pol e it = Some f" and "t \<in> set cs"
  shows "(explain_why blake3 cs pol e t it = Some (WhySelected k t) \<longleftrightarrow> deliberation_outcome_of f = Inr (Selected k t)) \<and>
    (explain_why_not blake3 cs pol e t it = Some (ActuallySelected t k) \<longleftrightarrow> deliberation_outcome_of f = Inr (Selected k t)) \<and>
    (explain_why blake3 cs pol e t it = Some (WhyAdmittedNotSelected k t sk sc) \<longleftrightarrow>
       explain_why_not blake3 cs pol e t it = Some (Overshadowed t k sk sc)) \<and>
    (explain_why_not blake3 cs pol e t it = Some (Overshadowed t k sk sc) \<longleftrightarrow>
       deliberation_outcome_of f = Inr (Selected sk sc) \<and> admitted_as blake3 pol e it (set cs) k t \<and> sk < k) \<and>
    (explain_why blake3 cs pol e t it = Some (WhyNotAdmitted t r) \<longleftrightarrow>
       explain_why_not blake3 cs pol e t it = Some (RejectedByPolicy t r)) \<and>
    (explain_why_not blake3 cs pol e t it = Some (RejectedByPolicy t r) \<longleftrightarrow>
       clean_pool blake3 pol e it (set cs) \<and> pol e t = Rejected r) \<and>
    explain_why blake3 cs pol e t it \<noteq> Some WhyNoCandidateAdmitted \<and>
    explain_why_not blake3 cs pol e t it \<noteq> Some NoCandidateSelected"
proof (cases "fault f")
  case (Some x)
  then have "\<not> clean_pool blake3 pol e it (set cs)" using evaluate_fault(1)[OF assms(1)] by auto
  then show ?thesis
    using Some assms deliberation_cases(5)[OF assms(1)] by (simp add: explain_why_def explain_why_not_def)
next
  case None
  have clean: "clean_pool blake3 pol e it (set cs)" using None evaluate_fault(1)[OF assms(1)] by blast
  note sel = deliberation_cases(5)[OF assms(1)] and ec = explain_cases[OF assms None]
  have adm: "admitted_as blake3 pol e it (set cs) k t \<longleftrightarrow> pol e t = Admitted \<and> canonical_key blake3 t it = Some k" for k
    using clean assms(2) by (auto simp: admitted_as_def clean_pool_def faulty_def)
  show ?thesis
  proof (cases "pol e t")
    case Admitted
    show ?thesis
    proof (cases "canonical_key blake3 t it")
      case (Some kt)
      obtain s u where "fselected f = Some (s, u)" "s = kt \<longleftrightarrow> u = t" "u \<noteq> t \<longrightarrow> s < kt"
        using ec(2)[OF Some Admitted] by blast
      then show ?thesis
        using assms None Admitted Some sel adm by (auto simp: explain_why_def explain_why_not_def)
    next
      case none: None
      then have "fselected f \<noteq> Some (h, t)" for h
        using evaluate_selected(1)[OF assms(1) clean, of h t] by (auto simp: admitted_as_def)
      then show ?thesis
        using assms None Admitted none sel adm by (simp add: explain_why_def explain_why_not_def)
    qed
  next
    case (Rejected q)
    then have "fselected f \<noteq> Some (h, t)" for h
      using evaluate_selected(1)[OF assms(1) clean, of h t] by (auto simp: admitted_as_def)
    then show ?thesis
      using assms None Rejected sel adm clean by (auto simp: explain_why_def explain_why_not_def)
  next
    case (AdmError d)
    then show ?thesis using ec(1) by blast
  qed
qed

lemma explain_faulted:
  assumes "evaluate blake3 cs pol e it = Some f" and "t \<in> set cs"
  shows "(explain_why blake3 cs pol e t it = Some (WhyEvaluationFaulted t x) \<longleftrightarrow> deliberation_outcome_of f = Inl x) \<and>
    (explain_why_not blake3 cs pol e t it = Some (WhyNotEvaluationFaulted t x) \<longleftrightarrow> deliberation_outcome_of f = Inl x)"
  unfolding deliberation_fault using assms explain_cases(1)[OF assms]
  by (auto simp: explain_why_def explain_why_not_def split: option.splits admission_decision.splits)

lemma explain_found:
  assumes "evaluate blake3 cs pol e it = Some f"
  shows "(explain_why blake3 cs pol e u it = Some WhyCandidateNotFound \<longleftrightarrow> u \<notin> set cs) \<and>
    (explain_why_not blake3 cs pol e u it = Some WhyNotCandidateNotFound \<longleftrightarrow> u \<notin> set cs)"
  using assms by (auto simp: explain_why_def explain_why_not_def split: option.splits admission_decision.splits)

lemma explain_total:
  assumes "evaluate blake3 cs pol e it = Some f" and "t \<in> set cs"
  shows "explain_why blake3 cs pol e t it \<noteq> None \<and> explain_why_not blake3 cs pol e t it \<noteq> None"
proof (cases "fault f")
  case None
  then have "nphase t = 0" using evaluate_fault(1)[OF assms(1)] assms(2) by (auto simp: clean_pool_def faulty_def)
  then have "pol e t = Admitted \<Longrightarrow> canonical_key blake3 t it \<noteq> None" using evaluate_key[OF assms] by blast
  then show ?thesis using assms None
    by (auto simp: explain_why_def explain_why_not_def split: option.splits admission_decision.splits)
qed (use assms in \<open>simp add: explain_why_def explain_why_not_def\<close>)

text \<open>A pool of two candidates from configuration 0 for the witnesses; the second is more urgent.\<close>

definition demo_pool :: "named_candidate list" where
  "demo_pool = [NamedCandidate ''low'' [9] [5] [6] 0 1 1 0 5, NamedCandidate ''high'' [9] [5] [7] 0 2 2 0 3]"

lemma demo_keys:
  "canonical_key (\<lambda>_. []) (demo_pool ! 0) demo_interner = Some (Key 0 5 [])"
  "canonical_key (\<lambda>_. []) (demo_pool ! 1) demo_interner = Some (Key 0 3 [])"
  by (simp_all add: demo_pool_def canonical_key_def canonical_tiebreak_def canonical_identity_def demo_interner_def intern_def
        interner_new_def Let_def try_resolve_def bt_get_def writer_digest_def digest_of_def)

lemma demo_pool_set: "set demo_pool = {demo_pool ! 0, demo_pool ! 1}" "demo_pool ! 0 \<noteq> demo_pool ! 1"
  by (simp_all add: demo_pool_def)

lemma demo_admitted:
  "admitted_as (\<lambda>_. []) AdmitAllPolicy demo_config demo_interner (set demo_pool) k c \<longleftrightarrow>
     k = Key 0 5 [] \<and> c = demo_pool ! 0 \<or> k = Key 0 3 [] \<and> c = demo_pool ! 1"
  using demo_keys by (auto simp: admitted_as_def demo_pool_set AdmitAllPolicy_def) (simp_all add: demo_pool_def)

lemma demo_clean: "clean_pool (\<lambda>_. []) AdmitAllPolicy demo_config demo_interner (set demo_pool)"
  unfolding clean_pool_def unique_keys_def demo_admitted by (auto simp: faulty_def demo_pool_def AdmitAllPolicy_def)

lemma demo_evaluated:
  obtains f where "evaluate (\<lambda>_. []) demo_pool AdmitAllPolicy demo_config demo_interner = Some f"
proof (rule evaluate_total[of demo_pool AdmitAllPolicy demo_config "\<lambda>_. []" demo_interner])
  show "canonical_key (\<lambda>_. []) c demo_interner \<noteq> None" if "c \<in> set demo_pool" for c
    using that demo_keys by (auto simp: demo_pool_set)
qed

section \<open>Properties\<close>

text \<open>
  C19. Deliberation over a pool is decided by what the pool is, not by its order or multiplicity. It
  ends in an error exactly when some candidate has a nonzero phase or an admission error, or two
  admitted candidates share a key; otherwise it selects the admitted candidate of least key, and it
  is quiescent exactly when none is admitted. A conflict of the projected frontier is never reported.
\<close>

theorem deliberation_exact:
  assumes "evaluate blake3 cs pol e it = Some f"
  shows "((\<exists>x. deliberation_outcome_of f = Inl x) \<longleftrightarrow> \<not> clean_pool blake3 pol e it (set cs)) \<and>
    (deliberation_outcome_of f = Inr (Selected k c) \<longleftrightarrow> clean_pool blake3 pol e it (set cs) \<and>
       admitted_as blake3 pol e it (set cs) k c \<and> (\<forall>k' c'. admitted_as blake3 pol e it (set cs) k' c' \<longrightarrow> k \<le> k')) \<and>
    (deliberation_outcome_of f = Inr DelibQuiescent \<longleftrightarrow>
       clean_pool blake3 pol e it (set cs) \<and> (\<forall>k c. \<not> admitted_as blake3 pol e it (set cs) k c)) \<and>
    deliberation_outcome_of f \<noteq> Inl (FaultCandidateKeyConflict x)"
  using deliberation_cases[OF assms] by blast

theorem deliberation_exact_witness:
  "\<exists>f. evaluate (\<lambda>_. []) demo_pool AdmitAllPolicy demo_config demo_interner = Some f \<and>
     deliberation_outcome_of f = Inr (Selected (Key 0 3 []) (demo_pool ! 1))"
proof -
  obtain f where f: "evaluate (\<lambda>_. []) demo_pool AdmitAllPolicy demo_config demo_interner = Some f" using demo_evaluated .
  show ?thesis
    using deliberation_exact[OF f, of "Key 0 3 []" "demo_pool ! 1"] f demo_clean demo_admitted by (auto simp: less_eq_key_def)
qed

text \<open>
  C21. The explanations agree with the deliberation and with each other for every candidate of the
  pool, and each of their answers is decided: a fault of the deliberation is reported by both, with that
  fault; \<open>explain_why\<close> reports a selection and \<open>explain_why_not\<close> refuses to deny one exactly for the
  selected candidate; another admitted candidate is reported with the winner, whose key is smaller;
  a rejected one with its reason; not found is the answer exactly for candidates outside the pool; the
  branches for an empty selection are never reached and neither function panics on a pool that evaluates.
\<close>

theorem explanations_exact:
  assumes "evaluate blake3 cs pol e it = Some f" and "t \<in> set cs"
  shows "(explain_why blake3 cs pol e t it = Some (WhySelected k t) \<longleftrightarrow> deliberation_outcome_of f = Inr (Selected k t)) \<and>
    (explain_why_not blake3 cs pol e t it = Some (ActuallySelected t k) \<longleftrightarrow> deliberation_outcome_of f = Inr (Selected k t)) \<and>
    (explain_why blake3 cs pol e t it = Some (WhyAdmittedNotSelected k t sk sc) \<longleftrightarrow>
       explain_why_not blake3 cs pol e t it = Some (Overshadowed t k sk sc)) \<and>
    (explain_why_not blake3 cs pol e t it = Some (Overshadowed t k sk sc) \<longleftrightarrow>
       deliberation_outcome_of f = Inr (Selected sk sc) \<and> admitted_as blake3 pol e it (set cs) k t \<and> sk < k) \<and>
    (explain_why blake3 cs pol e t it = Some (WhyNotAdmitted t r) \<longleftrightarrow>
       explain_why_not blake3 cs pol e t it = Some (RejectedByPolicy t r)) \<and>
    (explain_why_not blake3 cs pol e t it = Some (RejectedByPolicy t r) \<longleftrightarrow>
       clean_pool blake3 pol e it (set cs) \<and> pol e t = Rejected r) \<and>
    explain_why blake3 cs pol e t it \<noteq> Some WhyNoCandidateAdmitted \<and>
    explain_why_not blake3 cs pol e t it \<noteq> Some NoCandidateSelected \<and>
    (explain_why blake3 cs pol e t it = Some (WhyEvaluationFaulted t x) \<longleftrightarrow> deliberation_outcome_of f = Inl x) \<and>
    (explain_why_not blake3 cs pol e t it = Some (WhyNotEvaluationFaulted t x) \<longleftrightarrow> deliberation_outcome_of f = Inl x) \<and>
    (explain_why blake3 cs pol e u it = Some WhyCandidateNotFound \<longleftrightarrow> u \<notin> set cs) \<and>
    (explain_why_not blake3 cs pol e u it = Some WhyNotCandidateNotFound \<longleftrightarrow> u \<notin> set cs) \<and>
    explain_why blake3 cs pol e t it \<noteq> None \<and> explain_why_not blake3 cs pol e t it \<noteq> None"
  using explain_selected[OF assms] explain_faulted[OF assms] explain_found[OF assms(1)] explain_total[OF assms] by blast

theorem explanations_exact_witness:
  "explain_why (\<lambda>_. []) demo_pool AdmitAllPolicy demo_config (demo_pool ! 1) demo_interner
     = Some (WhySelected (Key 0 3 []) (demo_pool ! 1)) \<and>
   explain_why_not (\<lambda>_. []) demo_pool AdmitAllPolicy demo_config (demo_pool ! 0) demo_interner
     = Some (Overshadowed (demo_pool ! 0) (Key 0 5 []) (Key 0 3 []) (demo_pool ! 1))"
proof -
  obtain f where f: "evaluate (\<lambda>_. []) demo_pool AdmitAllPolicy demo_config demo_interner = Some f" using demo_evaluated .
  have o: "deliberation_outcome_of f = Inr (Selected (Key 0 3 []) (demo_pool ! 1))"
    using deliberation_cases(2)[OF f, of "Key 0 3 []" "demo_pool ! 1"] demo_clean demo_admitted by (auto simp: less_eq_key_def)
  have "Key 0 3 [] < Key 0 5 []" by (simp add: less_key_def)
  then show ?thesis
    using explanations_exact[OF f, of "demo_pool ! 1" "Key 0 3 []"] o
      explanations_exact[OF f, of "demo_pool ! 0" "Key 0 5 []" "Key 0 3 []" "demo_pool ! 1"] demo_admitted demo_pool_set
    by simp
qed

end
