(* ===== verification/Regime_Engine.thy ===== *)
theory Regime_Engine
  imports Settle_Engine Regime_Frontier
begin

text \<open>
  The two regimes of \<open>crates/soc-regimes\<close> on the incremental engine and in the settlement loop. A
  regime is one of the two providers; its footprint and its reaction to a delta
  (\<open>IncrementalWitnessIndex\<close>) instantiate the interface \<open>witness_index\<close>. Regimes whose candidates
  are lowered through one interner propose no candidate at two configurations, unless the hash
  collides on witnesses, so the engine's view agrees with the oracle.
\<close>

section \<open>The regimes as incremental indices\<close>

definition literal_footprint :: "literal_regime \<Rightarrow> footprint" where
  "literal_footprint r = Configs (set (map fst (lknown r)))"

definition literal_apply :: "literal_regime \<Rightarrow> delta \<Rightarrow> candidate_delta \<times> literal_regime" where
  "literal_apply r d =
     (\<lparr>cadded = (\<Union>h \<in> dadded d. set_option (literal_candidate_for r h)),
       cremoved = (\<Union>h \<in> dremoved d. set_option (literal_candidate_for r h))\<rparr>, r)"

definition finite_footprint_of :: "finite_regime \<Rightarrow> footprint" where
  "finite_footprint_of r = Configs (set (map fst (candidates_by_src r)))"

definition finite_at :: "finite_regime \<Rightarrow> handle \<Rightarrow> candidate set" where
  "finite_at r h = (case bt_get (candidates_by_src r) h of None \<Rightarrow> {} | Some cs \<Rightarrow> set (map to_candidate cs))"

definition finite_apply :: "finite_regime \<Rightarrow> delta \<Rightarrow> candidate_delta \<times> finite_regime" where
  "finite_apply r d =
     (\<lparr>cadded = (\<Union>h \<in> dadded d. finite_at r h), cremoved = (\<Union>h \<in> dremoved d. finite_at r h)\<rparr>, r)"

datatype regime = LiteralR literal_regime | FiniteR finite_regime

fun regime_footprint :: "regime \<Rightarrow> footprint" where
  "regime_footprint (LiteralR r) = literal_footprint r"
| "regime_footprint (FiniteR r) = finite_footprint_of r"

fun regime_apply :: "regime \<Rightarrow> delta \<Rightarrow> candidate_delta \<times> regime" where
  "regime_apply (LiteralR r) d = (case literal_apply r d of (cd, r) \<Rightarrow> (cd, LiteralR r))"
| "regime_apply (FiniteR r) d = (case finite_apply r d of (cd, r) \<Rightarrow> (cd, FiniteR r))"

fun regime_candidates :: "regime \<Rightarrow> provider" where
  "regime_candidates (LiteralR r) e = literal_candidates r e"
| "regime_candidates (FiniteR r) e = finite_candidates r e"

fun regime_provider :: "(bytes \<Rightarrow> bytes) \<Rightarrow> regime \<Rightarrow> settlement_provider" where
  "regime_provider blake3 (LiteralR r) = literal_provider blake3 r"
| "regime_provider blake3 (FiniteR r) = finite_provider blake3 r"

text \<open>The candidates at a configuration, whatever the policy and the history.\<close>

fun regime_at :: "regime \<Rightarrow> handle \<Rightarrow> candidate set" where
  "regime_at (LiteralR r) h = set_option (literal_candidate_for r h)"
| "regime_at (FiniteR r) h = finite_at r h"

lemma regime_at_candidates: "set (regime_candidates r e) = regime_at r (world e)"
  by (cases r) (auto simp: literal_candidates_def finite_candidates_def finite_at_def split: option.splits)

lemma regime_provider_candidates: "sp_candidates (regime_provider blake3 r) = regime_candidates r"
  by (cases r) (simp_all add: fun_eq_iff literal_provider_def finite_provider_def)

lemma bt_get_key: "bt_get m k = Some v \<Longrightarrow> k \<in> set (map fst m)"
  by (force simp: bt_get_def dest: map_of_SomeD)

interpretation regimes: witness_index regime_footprint regime_apply regime_at
proof
  fix r d
  show "regime_footprint (snd (regime_apply r d)) = regime_footprint r" "regime_at (snd (regime_apply r d)) = regime_at r"
    "cadded (fst (regime_apply r d)) = (\<Union>h \<in> dadded d. regime_at r h)"
    "cremoved (fst (regime_apply r d)) = (\<Union>h \<in> dremoved d. regime_at r h)"
    by (cases r; simp add: literal_apply_def finite_apply_def)+
next
  fix r
  show "finite_footprint (regime_footprint r)"
    by (cases r) (simp_all add: finite_footprint_def literal_footprint_def finite_footprint_of_def)
next
  fix c r h s
  show "c \<in> regime_at r h \<Longrightarrow> regime_footprint r = Configs s \<Longrightarrow> h \<in> s"
    by (cases r)
      (auto simp: literal_footprint_def finite_footprint_of_def literal_candidate_for_Some finite_at_def
        dest!: bt_get_key split: option.splits)
qed

section \<open>Lowered regimes\<close>

definition named_ok :: "(bytes \<Rightarrow> bytes) \<Rightarrow> interner \<Rightarrow> named_candidate \<Rightarrow> bool" where
  "named_ok blake3 it c \<longleftrightarrow> try_resolve it (nsrc_handle c) = Some (nsrc c) \<and>
     try_resolve it (nsuccessor_handle c) = Some (ndst c) \<and>
     try_resolve it (nwitness_handle c) =
       Some (witness_id blake3 \<lparr>wsrc = nsrc c, wdst = ndst c, wregime = nregime_id c\<rparr>) \<and> nphase c = 0"

definition finite_ok :: "(bytes \<Rightarrow> bytes) \<Rightarrow> interner \<Rightarrow> finite_regime \<Rightarrow> bool" where
  "finite_ok blake3 it r \<longleftrightarrow> bt_wf (candidates_by_src r) \<and>
     (\<forall>h cs c. bt_get (candidates_by_src r) h = Some cs \<longrightarrow> c \<in> set cs \<longrightarrow>
        nsrc_handle c = h \<and> nregime_id c = fregime_id r \<and> named_ok blake3 it c)"

fun regime_ok :: "(bytes \<Rightarrow> bytes) \<Rightarrow> interner \<Rightarrow> regime \<Rightarrow> bool" where
  "regime_ok blake3 it (LiteralR r) \<longleftrightarrow> literal_ok blake3 it r"
| "regime_ok blake3 it (FiniteR r) \<longleftrightarrow> finite_ok blake3 it r"

lemma named_ok_extends: "named_ok blake3 it c \<Longrightarrow> interner_extends it it' \<Longrightarrow> named_ok blake3 it' c"
  by (simp add: named_ok_def interner_extends_def)

lemma finite_ok_extends: "finite_ok blake3 it r \<Longrightarrow> interner_extends it it' \<Longrightarrow> finite_ok blake3 it' r"
  using named_ok_extends unfolding finite_ok_def by blast

lemma regime_ok_extends: "regime_ok blake3 it r \<Longrightarrow> interner_extends it it' \<Longrightarrow> regime_ok blake3 it' r"
  by (cases r) (simp_all add: literal_ok_extends finite_ok_extends)

lemma finite_ok_new: "finite_ok blake3 it (finite_new rid)"
  by (simp add: finite_ok_def finite_new_def)

lemma named_new_ok:
  assumes "interner_wf it" "length (by_handle it) + 3 \<le> 2 ^ 32" "named_new blake3 name rid src dst prio it = (c, it')"
  shows "named_ok blake3 it' c \<and> interner_wf it' \<and> interner_extends it it' \<and> nregime_id c = rid"
proof -
  let ?w = "witness_id blake3 \<lparr>wsrc = src, wdst = dst, wregime = rid\<rparr>"
  obtain sh it1 where 1: "intern it src = (sh, it1)" by fastforce
  obtain dh it2 where 2: "intern it1 dst = (dh, it2)" by fastforce
  obtain wh it3 where 3: "intern it2 ?w = (wh, it3)" by fastforce
  have c: "c = NamedCandidate name rid src dst sh wh dh 0 prio" "it' = it3"
    using assms(3) by (simp_all add: named_new_def 1 2 3)
  have e1: "interner_wf it1 \<and> try_resolve it1 sh = Some src \<and> interner_extends it it1 \<and> length (by_handle it1) \<le> length (by_handle it) + 1"
    by (rule intern_extends[OF assms(1) _ 1]) (use assms(2) in simp)
  have e2: "interner_wf it2 \<and> try_resolve it2 dh = Some dst \<and> interner_extends it1 it2 \<and> length (by_handle it2) \<le> length (by_handle it1) + 1"
    by (rule intern_extends[OF _ _ 2]) (use e1 assms(2) in simp_all)
  have e3: "interner_wf it3 \<and> try_resolve it3 wh = Some ?w \<and> interner_extends it2 it3 \<and> length (by_handle it3) \<le> length (by_handle it2) + 1"
    by (rule intern_extends[OF _ _ 3]) (use e1 e2 assms(2) in simp_all)
  show ?thesis using e1 e2 e3 unfolding c named_ok_def by (simp add: interner_extends_def)
qed

lemma add_candidate_ok:
  assumes "finite_ok blake3 it r" "named_ok blake3 it c" "add_candidate c r = Some r'"
  shows "finite_ok blake3 it r' \<and> fregime_id r' = fregime_id r"
proof -
  have r': "candidates_by_src r' = bt_insert (nsrc_handle c)
      ((case bt_get (candidates_by_src r) (nsrc_handle c) of None \<Rightarrow> [] | Some cs \<Rightarrow> cs) @ [c]) (candidates_by_src r)"
    "fregime_id r' = fregime_id r" "nregime_id c = fregime_id r"
    using assms(3) by (auto simp: add_candidate_def split: if_splits)
  then show ?thesis
    using assms(1,2) by (auto simp: finite_ok_def bt.ok_ins bt.get_ins split: option.splits if_splits)
qed

lemma register_named_candidate_ok:
  assumes "finite_ok blake3 it r" "interner_wf it" "length (by_handle it) + 3 \<le> 2 ^ 32"
    "register_named_candidate blake3 r it name src dst prio = Some (c, r', it')"
  shows "finite_ok blake3 it' r' \<and> interner_wf it' \<and> interner_extends it it'"
proof -
  obtain it1 where n: "named_new blake3 name (fregime_id r) src dst prio it = (c, it1)" "it' = it1" "add_candidate c r = Some r'"
    using assms(4) by (auto simp: register_named_candidate_def split: prod.splits)
  note ok = named_new_ok[OF assms(2,3) n(1)]
  show ?thesis using ok add_candidate_ok[OF finite_ok_extends[OF assms(1)] _ n(3)] n(2) by blast
qed

section \<open>Lowered candidates do not collide\<close>

text \<open>What the witnesses of the given regimes between interned configurations hash.\<close>

definition witness_inputs :: "interner \<Rightarrow> regime_id set \<Rightarrow> bytes set" where
  "witness_inputs it rids =
     {digest_preimage Value (framed x @ framed y @ framed rid) | x y rid.
        x \<in> set (by_handle it) \<and> y \<in> set (by_handle it) \<and> rid \<in> rids}"

definition regime_rid :: "regime \<Rightarrow> regime_id" where
  "regime_rid r = (case r of LiteralR r \<Rightarrow> lregime_id r | FiniteR r \<Rightarrow> fregime_id r)"

lemma witness_id_eq:
  "witness_id blake3 v = blake3 (digest_preimage Value (framed (wsrc v) @ framed (wdst v) @ framed (wregime v)))"
  by (simp add: witness_id_def id_of_def from_canon_def digest_of_def canon_write_witness_def out_simps)

lemma try_resolve_mem: "try_resolve it h = Some d \<Longrightarrow> d \<in> set (by_handle it)"
  by (auto simp: try_resolve_def split: if_splits)

lemma resolve_inj: "interner_wf it \<Longrightarrow> try_resolve it h = Some d \<Longrightarrow> try_resolve it g = Some d \<Longrightarrow> h = g"
  unfolding interner_wf_def by (metis option.inject)

lemma regime_at_lowered:
  assumes "regime_ok blake3 it r" "c \<in> regime_at r h"
  shows "lowered_as blake3 it (regime_rid r) h c"
proof (cases r)
  case (LiteralR l)
  then show ?thesis using assms literal_lowered[of blake3 it l h c] by (simp add: regime_rid_def)
next
  case (FiniteR f)
  then obtain cs nc where "bt_get (candidates_by_src f) h = Some cs" "nc \<in> set cs" "c = to_candidate nc"
    using assms(2) by (auto simp: finite_at_def split: option.splits)
  then have "nsrc_handle nc = h" "nregime_id nc = fregime_id f" "named_ok blake3 it nc" "c = to_candidate nc"
    using assms(1) FiniteR by (auto simp: finite_ok_def)
  then show ?thesis
    using FiniteR by (auto simp: lowered_as_def regime_rid_def to_candidate_def named_ok_def)
qed

lemma lowered_source:
  assumes "interner_wf it" "\<forall>d \<in> set (by_handle it). fits d" "inj_on blake3 (witness_inputs it rids)" "rid \<in> rids" "rid' \<in> rids"
    "lowered_as blake3 it rid h c" "lowered_as blake3 it rid' g c"
  shows "h = g"
proof -
  obtain x y x' y' where r: "try_resolve it h = Some x" "try_resolve it (successor c) = Some y"
      "try_resolve it g = Some x'" "try_resolve it (successor c) = Some y'"
    and w: "witness_id blake3 \<lparr>wsrc = x, wdst = y, wregime = rid\<rparr> = witness_id blake3 \<lparr>wsrc = x', wdst = y', wregime = rid'\<rparr>"
    using assms(6,7) unfolding lowered_as_def by auto
  have m: "x \<in> set (by_handle it)" "y \<in> set (by_handle it)" "x' \<in> set (by_handle it)" "y' \<in> set (by_handle it)"
    using r try_resolve_mem by blast+
  have "digest_preimage Value (framed a @ framed b @ framed q) \<in> witness_inputs it rids"
    if "a \<in> set (by_handle it)" "b \<in> set (by_handle it)" "q \<in> rids" for a b q
    using that unfolding witness_inputs_def by blast
  then have "digest_preimage Value (framed x @ framed y @ framed rid) = digest_preimage Value (framed x' @ framed y' @ framed rid')"
    using inj_onD[OF assms(3)] w m assms(4,5) by (simp add: witness_id_eq)
  then have "framed x @ framed y @ framed rid = framed x' @ framed y' @ framed rid'"
    using digest_preimage_inj by blast
  then have "x = x'" using framed_code.append_eq_iff assms(2) m by blast
  then show ?thesis using resolve_inj[OF assms(1)] r by blast
qed

lemma regimes_separate:
  assumes "interner_wf it" "\<forall>d \<in> set (by_handle it). fits d" "inj_on blake3 (witness_inputs it (regime_rid ` set rs))"
    "list_all (regime_ok blake3 it) rs"
  shows "separate regime_at rs"
proof -
  have "h = g" if "r \<in> set rs" "q \<in> set rs" "c \<in> regime_at r h" "c \<in> regime_at q g" for r q h g c
  proof -
    have "regime_ok blake3 it r" "regime_ok blake3 it q" using that assms(4) by (auto simp: list_all_iff)
    then show ?thesis using lowered_source[OF assms(1-3) _ _ regime_at_lowered regime_at_lowered] that by blast
  qed
  then show ?thesis unfolding separate_def by blast
qed

lemma naive_view_regimes:
  "naive_view_over (map regime_candidates rs) AdmAll ws pol hist = regimes.all_cands rs ws"
  by (simp add: naive_view_over_def set_eq_iff cand_iff AdmAll_def regime_at_candidates regimes.all_cands_def) blast

section \<open>Properties\<close>

text \<open>
  C18. Differential identity: for regimes lowered through one interner, with no hash collision among
  the interned witnesses, the engine's view after any sequence of deltas is the oracle's enumeration
  over the configurations then present, whatever policy and history it is asked at.
\<close>

theorem engine_matches_oracle:
  assumes "interner_wf it" and "\<forall>d \<in> set (by_handle it). fits d" and "inj_on blake3 (witness_inputs it (regime_rid ` set rs))"
    and "list_all (regime_ok blake3 it) rs" and "list_all delta_finite ds"
  shows "eview (engine_run regime_apply ds (engine_new regime_footprint rs)) =
    naive_view_over (map regime_candidates rs) AdmAll (present ds {}) pol hist"
  using regimes.engine_view[OF assms(5) regimes_separate[OF assms(1-4)]] by (simp add: naive_view_regimes)

text \<open>The literal regime with one registered configuration, for the witnesses.\<close>

definition demo_literal :: "literal_regime \<times> interner" where
  "demo_literal = the (literal_register id (literal_new id) (snd (intern interner_new [5])) 0)"

lemma demo_literal_eq:
  "literal_register id (literal_new id) (snd (intern interner_new [5])) 0 = Some demo_literal"
  "fst demo_literal = \<lparr>lregime_id = id_named id LITERAL_NAME, lknown = [(0, \<lparr>kwitness_handle = 1, kconfig = [5]\<rparr>)]\<rparr>"
  "by_handle (snd demo_literal) =
     [[5], witness_id id \<lparr>wsrc = [5], wdst = [5], wregime = id_named id LITERAL_NAME\<rparr>]"
proof -
  let ?w = "witness_id id \<lparr>wsrc = [5], wdst = [5], wregime = id_named id LITERAL_NAME\<rparr>"
  have "1 < length ?w" by (simp add: witness_id_eq digest_preimage_def as_bytes_def)
  then have "?w \<noteq> [5]" by auto
  then have "literal_register id (literal_new id) (snd (intern interner_new [5])) 0 =
      Some (\<lparr>lregime_id = id_named id LITERAL_NAME, lknown = [(0, \<lparr>kwitness_handle = 1, kconfig = [5]\<rparr>)]\<rparr>,
        \<lparr>by_digest = bt_insert ?w 1 [([5], 0)], by_handle = [[5], ?w]\<rparr>)"
    by (simp add: literal_register_def literal_new_def intern_def interner_new_def try_resolve_def bt_get_def Let_def)
  then show "literal_register id (literal_new id) (snd (intern interner_new [5])) 0 = Some demo_literal"
    "fst demo_literal = \<lparr>lregime_id = id_named id LITERAL_NAME, lknown = [(0, \<lparr>kwitness_handle = 1, kconfig = [5]\<rparr>)]\<rparr>"
    "by_handle (snd demo_literal) =
     [[5], witness_id id \<lparr>wsrc = [5], wdst = [5], wregime = id_named id LITERAL_NAME\<rparr>]"
    unfolding demo_literal_def by simp_all
qed

lemma demo_literal_ok:
  "literal_ok id (snd demo_literal) (fst demo_literal)" "interner_wf (snd demo_literal)"
  "\<forall>d \<in> set (by_handle (snd demo_literal)). fits d"
proof -
  obtain h it1 where i: "intern interner_new [5] = (h, it1)" by fastforce
  have 1: "interner_wf it1" "length (by_handle it1) \<le> 1"
    using intern_extends[OF interner_wf_new _ i] by (simp_all add: interner_new_def)
  have "literal_register id (literal_new id) it1 0 = Some (fst demo_literal, snd demo_literal)"
    using demo_literal_eq(1) i by simp
  from literal_register_ok[OF literal_ok_new 1(1) _ this]
  show "literal_ok id (snd demo_literal) (fst demo_literal)" "interner_wf (snd demo_literal)" using 1(2) by simp_all
  have "length (framed b) \<le> 17 + length b" for b using length_framed_le[of b] by simp
  moreover have "length (id_named id LITERAL_NAME) \<le> 100"
    using length_framed_le[of "as_bytes LITERAL_NAME"]
    by (simp add: id_named_def from_canon_def digest_of_def digest_preimage_def write_str_def out_simps as_bytes_def LITERAL_NAME_def CANON_VERSION_def)
  ultimately have "length (witness_id id \<lparr>wsrc = [5], wdst = [5], wregime = id_named id LITERAL_NAME\<rparr>) \<le> 300"
    using length_framed_le[of "[5]"] length_framed_le[of "id_named id LITERAL_NAME"]
    by (simp add: witness_id_eq digest_preimage_def as_bytes_def CANON_VERSION_def)
  then show "\<forall>d \<in> set (by_handle (snd demo_literal)). fits d" by (simp add: demo_literal_eq(3) fits_def)
qed

theorem engine_matches_oracle_witness:
  "eview (engine_run regime_apply [\<lparr>dadded = {0}, dremoved = {}\<rparr>] (engine_new regime_footprint [LiteralR (fst demo_literal)]))
     = naive_view_over [regime_candidates (LiteralR (fst demo_literal))] AdmAll {0} 0 [] \<and>
   naive_view_over [regime_candidates (LiteralR (fst demo_literal))] AdmAll {0} 0 [] = {\<lparr>cwitness = 1, successor = 0\<rparr>}"
proof
  have "list_all (regime_ok id (snd demo_literal)) [LiteralR (fst demo_literal)]" using demo_literal_ok(1) by simp
  from engine_matches_oracle[OF demo_literal_ok(2,3) _ this, of "[\<lparr>dadded = {0}, dremoved = {}\<rparr>]" 0 "[]"]
  show "eview (engine_run regime_apply [\<lparr>dadded = {0}, dremoved = {}\<rparr>] (engine_new regime_footprint [LiteralR (fst demo_literal)]))
     = naive_view_over [regime_candidates (LiteralR (fst demo_literal))] AdmAll {0} 0 []"
    by (simp add: delta_finite_def present_def)
  show "naive_view_over [regime_candidates (LiteralR (fst demo_literal))] AdmAll {0} 0 [] = {\<lparr>cwitness = 1, successor = 0\<rparr>}"
    by (auto simp: naive_view_over_def cand_iff AdmAll_def literal_candidates_def literal_candidate_for_def demo_literal_eq(2) bt_get_def)
qed

text \<open>
  The cost of a step is linear in the delta: one unit for each touched configuration, one for each
  regime whose footprint the delta meets, and one for each candidate these add or remove. Neither the
  regimes it does not meet, nor the size of the view, nor the deltas before it count.
\<close>

theorem engine_step_cost:
  assumes "list_all delta_finite ds" and "delta_finite d"
    and "engine_step regime_apply (engine_run regime_apply ds (engine_new regime_footprint rs)) d = (r, e')"
  shows "scost r = Steps (delta_len d + card (reached regime_footprint rs d) +
    (\<Sum>i \<in> reached regime_footprint rs d. card (\<Union>h \<in> dadded d. regime_at (rs ! i) h) +
       card (\<Union>h \<in> dremoved d. regime_at (rs ! i) h)))"
  by (rule regimes.engine_cost[OF assms])

theorem engine_step_cost_witness:
  "scost (fst (engine_step regime_apply (engine_run regime_apply [] (engine_new regime_footprint [LiteralR (fst demo_literal)]))
     \<lparr>dadded = {0, 3}, dremoved = {}\<rparr>)) = Steps 4"
proof -
  obtain r e' where s: "engine_step regime_apply (engine_run regime_apply [] (engine_new regime_footprint [LiteralR (fst demo_literal)]))
     \<lparr>dadded = {0, 3}, dremoved = {}\<rparr> = (r, e')" by fastforce
  have R: "reached regime_footprint [LiteralR (fst demo_literal)] \<lparr>dadded = {0, 3}, dremoved = {}\<rparr> = {0}"
    by (auto simp: reached_def literal_footprint_def demo_literal_eq(2) delta_is_empty_def touched_def list_ex_iff)
  have at: "regime_at (LiteralR (fst demo_literal)) h = (if h = 0 then {\<lparr>cwitness = 1, successor = 0\<rparr>} else {})" for h
    by (simp add: literal_candidate_for_def demo_literal_eq(2) bt_get_def)
  show ?thesis
    using engine_step_cost[OF _ _ s] s by (simp add: R delta_finite_def delta_len_def at del: regime_at.simps)
qed

text \<open>
  What separation is for: a regime that holds one candidate at two configurations, as
  \<open>add_candidate\<close> allows with explicit handles. The engine forgets it when the first configuration
  leaves, although the oracle still finds it at the second.
\<close>

definition shared_regime :: finite_regime where
  "shared_regime = \<lparr>fregime_id = [9],
     candidates_by_src = [(0, [NamedCandidate ''a'' [9] [5] [7] 0 8 2 0 1]), (1, [NamedCandidate ''b'' [9] [6] [7] 1 8 2 0 1])],
     all_candidates = {}, known_configs = []\<rparr>"

lemma engine_forgets:
  "eview (engine_run regime_apply [\<lparr>dadded = {0, 1}, dremoved = {}\<rparr>, \<lparr>dadded = {}, dremoved = {0}\<rparr>]
     (engine_new regime_footprint [FiniteR shared_regime])) = {} \<and>
   naive_view_over [regime_candidates (FiniteR shared_regime)] AdmAll
     (present [\<lparr>dadded = {0, 1}, dremoved = {}\<rparr>, \<lparr>dadded = {}, dremoved = {0}\<rparr>] {}) pol hist = {\<lparr>cwitness = 8, successor = 2\<rparr>}"
proof
  have at: "regime_at (FiniteR shared_regime) h = (if h \<in> {0, 1} then {\<lparr>cwitness = 8, successor = 2\<rparr>} else {})" for h
    by (simp add: finite_at_def shared_regime_def bt_get_def to_candidate_def)
  let ?e0 = "engine_new regime_footprint [FiniteR shared_regime]"
  let ?d1 = "\<lparr>dadded = {0, 1}, dremoved = {}\<rparr>" and ?d2 = "\<lparr>dadded = {}, dremoved = {0}\<rparr>"
  obtain r1 e1 where 1: "engine_step regime_apply ?e0 ?d1 = (r1, e1)" by fastforce
  obtain r2 e2 where 2: "engine_step regime_apply e1 ?d2 = (r2, e2)" by fastforce
  have rt: "routes regime_footprint ?e0" using regimes.fp_finite by (intro engine_new_routes) (simp add: list_all_iff)
  have p0: "eproviders ?e0 = [FiniteR shared_regime]" "eview ?e0 = {}" by (simp_all add: engine_new_def split: prod.splits)
  note s1 = regimes.engine_step_spec[OF rt _ 1, unfolded p0]
  have r1: "routes regime_footprint e1" "regimes.same [FiniteR shared_regime] (eproviders e1)"
    using s1 by (simp_all add: delta_finite_def)
  note s2 = regimes.engine_step_spec[OF r1(1) _ 2]
  have "eview e2 = (eview e1 - regimes.all_cands (eproviders e1) {0}) \<union> regimes.all_cands (eproviders e1) {}"
    using s2 by (simp add: delta_finite_def)
  moreover have "eview e1 = regimes.all_cands [FiniteR shared_regime] {0, 1}" using s1 by (simp add: delta_finite_def regimes.all_cands_def)
  ultimately have "eview e2 = {}"
    unfolding regimes.same_all_cands[OF r1(2), symmetric] by (auto simp: regimes.all_cands_def at simp del: regime_at.simps split: if_splits)
  then show "eview (engine_run regime_apply [?d1, ?d2] ?e0) = {}" using 1 2 by (simp add: engine_run_def)
  show "naive_view_over [regime_candidates (FiniteR shared_regime)] AdmAll (present [?d1, ?d2] {}) pol hist = {\<lparr>cwitness = 8, successor = 2\<rparr>}"
    using naive_view_regimes[of "[FiniteR shared_regime]"] by (simp add: present_def regimes.all_cands_def at del: regime_at.simps)
qed

end
