(* ===== verification/Regime_Runs.thy ===== *)
theory Regime_Runs
  imports Regime_Engine
begin

text \<open>
  The regimes in the settlement loop: every step a run of lowered regimes logs replays under a
  registry and a declared semantics that cover them, so its audit succeeds. A single provider's tick
  is computed from its least admissible candidate.
\<close>

section \<open>Where the steps of a run come from\<close>

definition logged_by ::
  "(bytes \<Rightarrow> bytes) \<Rightarrow> settlement_provider list \<Rightarrow> interner \<Rightarrow> context_id \<Rightarrow> committed_step \<Rightarrow> bool" where
  "logged_by blake3 ps it ctx st \<longleftrightarrow> derived_step blake3 ctx st \<and>
     (\<exists>p \<in> set ps. \<exists>e. \<exists>c \<in> set (sp_candidates p e). sp_decompose p e c = Inr (sdecomposition st) \<and>
        try_resolve it (world e) = Some (ssrc st) \<and> try_resolve it (successor c) = Some (sdst st))"

lemma tick_logged:
  assumes "try_commit_tick blake3 ps adm it e ctx ph keyer s = (Inr (Step ob nxt, Some st, cost), s')"
  shows "logged_by blake3 ps it ctx st"
  using assms
proof (cases rule: tick_step)
  case (1 c i st1)
  have "ps ! i \<in> set ps" "c \<in> set (sp_candidates (ps ! i) e)" using 1(3) by (simp_all add: enumerates_def)
  then show ?thesis using 1(1,6-9) unfolding logged_by_def by blast
qed

lemma run_loop_logged:
  assumes "run_loop blake3 ps adm it ctx (pure_keyer kf) m i n e j costs () = Some (j', costs', stop)"
    "list_all (logged_by blake3 ps it ctx) (jsteps j)"
  shows "list_all (logged_by blake3 ps it ctx) (jsteps j')"
  using assms
proof (induction n arbitrary: i e j costs)
  case (Suc n)
  obtain cm st cost where
    t: "try_commit_tick blake3 ps adm it e ctx (word_of_nat i) (pure_keyer kf) () = (Inr (cm, st, cost), ())"
    using Suc.prems(1) by (auto simp: commit_tick_def split: prod.splits sum.splits)
  show ?case
  proof (cases cm)
    case (Step ob nxt)
    obtain st1 where st: "st = Some st1" using t[unfolded Step] by (cases rule: tick_step) auto
    have "logged_by blake3 ps it ctx st1" by (rule tick_logged[OF t[unfolded Step st]])
    then have "list_all (logged_by blake3 ps it ctx) (jsteps (journal_append blake3 st1 j))"
      using Suc.prems(2) by (simp add: journal_append_def)
    moreover have "run_loop blake3 ps adm it ctx (pure_keyer kf) m (i + 1) n nxt (journal_append blake3 st1 j) (costs @ [cost]) () =
        Some (j', costs', stop)"
      using Suc.prems(1) t Step st by (simp add: commit_tick_def)
    ultimately show ?thesis using Suc.IH by blast
  qed (use Suc.prems t in \<open>simp add: commit_tick_def\<close>)
qed simp

lemma run_logged:
  "run_reason blake3 ps adm it e0 ctx (pure_keyer kf) () m = Some (j, costs, stop) \<Longrightarrow>
     list_all (logged_by blake3 ps it ctx) (jsteps j)"
  unfolding run_reason_def by (erule run_loop_logged) (simp add: journal_new_def)

section \<open>What the regimes decompose to\<close>

text \<open>The semantics declares what the regime's candidates claim.\<close>

fun regime_declared :: "(bytes \<Rightarrow> bytes) \<Rightarrow> generator_registry \<Rightarrow> generator_semantics \<Rightarrow> regime \<Rightarrow> bool" where
  "regime_declared blake3 registry sem (LiteralR r) \<longleftrightarrow>
     id_named blake3 LITERAL_GENERATOR_NAME \<in> set registry \<and> map_of sem (id_named blake3 LITERAL_GENERATOR_NAME) = Some Diagonal"
| "regime_declared blake3 registry sem (FiniteR r) \<longleftrightarrow>
     (\<forall>h cs c. bt_get (candidates_by_src r) h = Some cs \<longrightarrow> c \<in> set cs \<longrightarrow>
        declared registry sem (id_named blake3 FINITE_FRONTIER_GENERATOR_NAME) (nsrc c) (ndst c))"

lemma regime_step_replays:
  assumes ok: "regime_ok blake3 it r" and decl: "regime_declared blake3 registry sem r"
    and c: "c \<in> set (sp_candidates (regime_provider blake3 r) e)"
    and d: "sp_decompose (regime_provider blake3 r) e c = Inr (sdecomposition st)"
    and src: "try_resolve it (world e) = Some (ssrc st)" and dst: "try_resolve it (successor c) = Some (sdst st)"
  shows "length (configs (sdecomposition st)) = length (generators (sdecomposition st)) + 1 \<and> replays registry sem st"
proof (cases r)
  case (LiteralR l)
  then obtain k where k: "bt_get (lknown l) (world e) = Some k" "c = \<lparr>cwitness = kwitness_handle k, successor = world e\<rparr>"
    using c by (cases "bt_get (lknown l) (world e)") (auto simp: literal_provider_def literal_candidates_def literal_candidate_for_def)
  then have "sdecomposition st = \<lparr>generators = [id_named blake3 LITERAL_GENERATOR_NAME], configs = [kconfig k, kconfig k],
      verification = Recorded\<rparr>"
    using d LiteralR by (simp add: literal_provider_def literal_try_decompose_def decomposition_recorded_def decomposition_build_def)
  moreover have "ssrc st = kconfig k" "sdst st = kconfig k" using ok LiteralR k src dst by (auto simp: literal_ok_def)
  ultimately show ?thesis
    using decl LiteralR by (simp add: replays_def slice_first_def slice_last_def declared_def)
next
  case (FiniteR f)
  obtain cs where cs: "bt_get (candidates_by_src f) (world e) = Some cs"
    using c FiniteR by (cases "bt_get (candidates_by_src f) (world e)") (auto simp: finite_provider_def finite_candidates_def)
  obtain nc where nc: "find (\<lambda>nc. to_candidate nc = c) cs = Some nc"
    using d FiniteR cs by (auto simp: finite_provider_def finite_try_decompose_def split: option.splits)
  then have mem: "nc \<in> set cs" "to_candidate nc = c" by (auto simp: find_Some_iff)
  then have n: "nsrc_handle nc = world e" "nregime_id nc = fregime_id f" "named_ok blake3 it nc"
    using ok FiniteR cs by (simp_all add: finite_ok_def)
  have "sdecomposition st = \<lparr>generators = [id_named blake3 FINITE_FRONTIER_GENERATOR_NAME], configs = [nsrc nc, ndst nc],
      verification = Recorded\<rparr>"
    using d FiniteR cs nc n(2)
    by (simp add: finite_provider_def finite_try_decompose_def decomposition_recorded_def decomposition_build_def map_err_def)
  moreover have "ssrc st = nsrc nc" "sdst st = ndst nc"
    using n(1,3) mem(2) src dst by (auto simp: named_ok_def to_candidate_def)
  moreover have "declared registry sem (id_named blake3 FINITE_FRONTIER_GENERATOR_NAME) (nsrc nc) (ndst nc)"
    using decl FiniteR cs mem(1) by simp
  ultimately show ?thesis by (simp add: replays_def slice_first_def slice_last_def)
qed

section \<open>The tick of one provider\<close>

lemma single_tick_quiescent:
  assumes "cand [sp_candidates p] adm e = {}"
  shows "try_commit_tick blake3 [p] adm it e ctx ph (pure_keyer kf) () =
    (Inr (Quiescent, None, snd (cand_instrumented [sp_candidates p] adm e)), ())"
proof -
  obtain ts where ts: "delta_loop adm e ph (pure_keyer kf) 0 [p] tick_new () = (Inr ts, ())"
    using delta_loop_exact[of adm e ph kf "[p]"] assms by auto
  note d = delta_loop_tick[OF ts]
  have "bt_get (tfrontier ts) k = None" for k
    using d(3) assms ranI[of "bt_get (tfrontier ts)" k] by (cases "bt_get (tfrontier ts) k") auto
  then have "tfrontier ts = []" by (simp add: bt_empty_iff fun_eq_iff)
  then have "\<exists>cost. try_commit_tick blake3 [p] adm it e ctx ph (pure_keyer kf) () = (Inr (Quiescent, None, cost), ())"
    using ts by (simp add: try_commit_tick_def select_least_def)
  then show ?thesis using tick_cost[of blake3 "[p]"] by fastforce
qed

lemma single_tick_step:
  assumes inj: "inj_on (\<lambda>c. kf c ph) (cand [sp_candidates p] adm e)" and c: "c \<in> cand [sp_candidates p] adm e"
    and least: "\<And>c'. c' \<in> cand [sp_candidates p] adm e \<Longrightarrow> kf c ph \<le> kf c' ph"
    and d: "sp_decompose p e c = Inr d" "verification d = Recorded" "generators d \<noteq> []"
    and r: "try_resolve it (world e) = Some x" "try_resolve it (successor c) = Some y"
  obtains ob st where "try_commit_tick blake3 [p] adm it e ctx ph (pure_keyer kf) () =
      (Inr (Step ob (apply_candidate blake3 e c), Some st, snd (cand_instrumented [sp_candidates p] adm e)), ())"
    "skey st = kf c ph" "sdecomposition st = d" "ssrc st = x" "sdst st = y" "sobservation st = ob" "derived_step blake3 ctx st"
proof -
  obtain ts where ts: "delta_loop adm e ph (pure_keyer kf) 0 [p] tick_new () = (Inr ts, ())"
    using delta_loop_exact[of adm e ph kf "[p]"] inj by auto
  note dl = delta_loop_tick[OF ts]
  have wf: "bt_wf (tfrontier ts)" using dl(1) by (simp add: tick_inv_def)
  obtain kc where kc: "bt_get (tfrontier ts) kc = Some c" using c dl(3) by (auto simp: ran_def)
  then have "tfrontier ts \<noteq> []" by auto
  then obtain k c0 f where sel: "select_least (tfrontier ts) = (Some (k, c0), f)"
    using select_least_None[of "tfrontier ts"] by (cases "select_least (tfrontier ts)"; cases "fst (select_least (tfrontier ts))") auto
  have g: "bt_get (tfrontier ts) k = Some c0" using select_least_Some(1)[OF wf sel] .
  have k: "k = kf c0 ph" "kc = kf c ph" using tick_inv_get[OF dl(1) g] tick_inv_get[OF dl(1) kc] by auto
  have c0: "c0 \<in> cand [sp_candidates p] adm e" using g dl(3) by (auto simp: ran_def)
  have "kf c0 ph = kf c ph" using least[OF c0] select_least_Some(3)[OF wf sel kc] k by simp
  then have eq: "c0 = c" using inj c c0 by (auto dest: inj_onD)
  obtain i where i: "tfirst ts c = Some i" "enumerates [p] e i c" using tick_inv_get[OF dl(1) g] eq by auto
  then have "i = 0" by (simp add: enumerates_def)
  obtain w where w: "compose_chain blake3 (generators d) = Some w" using d(3) by (cases "generators d") auto
  have "\<exists>cm st. try_commit_selected blake3 k c p it e ctx = Inr (cm, st)"
    using d(1,2) r w by (simp add: try_commit_selected_def publish_derived map_err_def Let_def)
  then obtain cm st where cm: "try_commit_selected blake3 k c p it e ctx = Inr (cm, st)" by blast
  obtain ob where ob: "ob = sobservation st" "cm = Step ob (apply_candidate blake3 e c)"
    using cm[unfolded try_commit_selected_Inr] by simp
  note s = cm[unfolded ob(2)]
  note sx = s[unfolded try_commit_selected_Inr]
  have t: "try_commit_tick blake3 [p] adm it e ctx ph (pure_keyer kf) () =
      (Inr (Step ob (apply_candidate blake3 e c), Some st, Steps (twork ts)), ())"
    unfolding try_commit_tick_def using ts sel[unfolded eq] i(1)[unfolded \<open>i = 0\<close>] s by simp
  have "Steps (twork ts) = snd (cand_instrumented [sp_candidates p] adm e)" using tick_cost[OF t] by simp
  then have t': "try_commit_tick blake3 [p] adm it e ctx ph (pure_keyer kf) () =
      (Inr (Step ob (apply_candidate blake3 e c), Some st, snd (cand_instrumented [sp_candidates p] adm e)), ())"
    using t by simp
  have "skey st = kf c ph" "sdecomposition st = d" "ssrc st = x" "sdst st = y" using sx d(1) r k(1) eq by simp_all
  then show thesis using that[OF t'] sx ob(1) by blast
qed

section \<open>Properties\<close>

text \<open>
  C20. Every run of the literal and finite regimes, lowered through the interner it runs with, is
  audited in full: under a registry and a semantics that declare what the regimes claim, the audit of
  its journal answers \<open>Audited\<close> for every step.
\<close>

theorem regime_runs_audited:
  assumes "list_all (regime_ok blake3 it) rs" and "list_all (regime_declared blake3 registry sem) rs"
    and "run_reason blake3 (map (regime_provider blake3) rs) adm it e0 ctx (pure_keyer kf) () m = Some (j, costs, stop)"
  shows "list_all (\<lambda>res. \<exists>au. res = AuditedResult au) (audit_journal blake3 j ctx registry sem)"
proof -
  have "\<exists>au. audit_step blake3 st ctx registry sem = AuditedResult au" if st: "st \<in> set (jsteps j)" for st
  proof -
    have l: "logged_by blake3 (map (regime_provider blake3) rs) it ctx st"
      using run_logged[OF assms(3)] st by (simp add: list_all_iff)
    then obtain r e c where "r \<in> set rs" "c \<in> set (sp_candidates (regime_provider blake3 r) e)"
      "sp_decompose (regime_provider blake3 r) e c = Inr (sdecomposition st)"
      "try_resolve it (world e) = Some (ssrc st)" "try_resolve it (successor c) = Some (sdst st)"
      unfolding logged_by_def by auto
    moreover from this(1) have "regime_ok blake3 it r" "regime_declared blake3 registry sem r"
      using assms(1,2) by (auto simp: list_all_iff)
    ultimately have s: "length (configs (sdecomposition st)) = length (generators (sdecomposition st)) + 1" "replays registry sem st"
      using regime_step_replays by blast+
    have "log_integrity blake3 ctx st" using l derived_step_integrity by (simp add: logged_by_def)
    then show ?thesis using audit_step_iff[OF s(1)] s(2) by blast
  qed
  then show ?thesis by (auto simp: audit_journal_def list_all_iff)
qed

lemma demo_literal_tick:
  "\<exists>st. try_commit_tick id [literal_provider id (fst demo_literal)] AdmAll (snd demo_literal) demo_config [] 0 (pure_keyer demo_key) () =
     (Inr (Step (sobservation st) (apply_candidate id demo_config \<lparr>cwitness = 1, successor = 0\<rparr>), Some st,
        snd (cand_instrumented [literal_candidates (fst demo_literal)] AdmAll demo_config)), ())"
proof -
  let ?p = "literal_provider id (fst demo_literal)" and ?c = "\<lparr>cwitness = 1, successor = 0\<rparr>"
  have cand: "cand [sp_candidates ?p] AdmAll demo_config = {?c}"
    by (auto simp: cand_iff AdmAll_def literal_provider_def literal_candidates_def literal_candidate_for_def demo_literal_eq(2)
        bt_get_def demo_config_def)
  have d: "sp_decompose ?p demo_config ?c = Inr \<lparr>generators = [id_named id LITERAL_GENERATOR_NAME], configs = [[5], [5]], verification = Recorded\<rparr>"
    by (simp add: literal_provider_def literal_try_decompose_def demo_literal_eq(2) bt_get_def demo_config_def
        decomposition_recorded_def decomposition_build_def)
  have r: "try_resolve (snd demo_literal) (world demo_config) = Some [5]" "try_resolve (snd demo_literal) (successor ?c) = Some [5]"
    by (simp_all add: try_resolve_def demo_literal_eq(3) demo_config_def)
  obtain ob st where "try_commit_tick id [?p] AdmAll (snd demo_literal) demo_config [] 0 (pure_keyer demo_key) () =
      (Inr (Step ob (apply_candidate id demo_config ?c), Some st, snd (cand_instrumented [sp_candidates ?p] AdmAll demo_config)), ())"
    "sobservation st = ob"
    by (rule single_tick_step[of demo_key 0 ?p AdmAll demo_config ?c _ "snd demo_literal" "[5]" "[5]" id "[]", OF _ _ _ d _ _ r])
      (simp_all add: cand)
  then show ?thesis by (auto simp: literal_provider_def)
qed

theorem regime_runs_audited_witness:
  "\<exists>j costs au. run_reason id [literal_provider id (fst demo_literal)] AdmAll (snd demo_literal) demo_config [] (pure_keyer demo_key) () 1 =
     Some (j, costs, TickBudgetExhausted 1) \<and>
     audit_journal id j [] [id_named id LITERAL_GENERATOR_NAME] (literal_equality_semantics id) = [AuditedResult au]"
proof -
  obtain st where t: "try_commit_tick id [literal_provider id (fst demo_literal)] AdmAll (snd demo_literal) demo_config [] 0 (pure_keyer demo_key) () =
     (Inr (Step (sobservation st) (apply_candidate id demo_config \<lparr>cwitness = 1, successor = 0\<rparr>), Some st,
        snd (cand_instrumented [literal_candidates (fst demo_literal)] AdmAll demo_config)), ())"
    using demo_literal_tick by blast
  let ?j = "journal_append id st (journal_new id)"
  have run: "run_reason id [literal_provider id (fst demo_literal)] AdmAll (snd demo_literal) demo_config [] (pure_keyer demo_key) () 1 =
      Some (?j, [snd (cand_instrumented [literal_candidates (fst demo_literal)] AdmAll demo_config)], TickBudgetExhausted 1)"
    using t by (simp add: run_reason_def commit_tick_def)
  have "list_all (\<lambda>res. \<exists>au. res = AuditedResult au)
      (audit_journal id ?j [] [id_named id LITERAL_GENERATOR_NAME] (literal_equality_semantics id))"
    using regime_runs_audited[of id "snd demo_literal" "[LiteralR (fst demo_literal)]" "[id_named id LITERAL_GENERATOR_NAME]"
        "literal_equality_semantics id" AdmAll demo_config "[]" demo_key 1] run demo_literal_ok(1)
    by (simp add: literal_equality_semantics_def)
  then show ?thesis using run by (auto simp: audit_journal_def journal_append_def journal_new_def)
qed

end
