(* ===== verification/Sat_Step.thy ===== *)
theory Sat_Step
  imports Settle_Audit "HOL-Library.Product_Lexorder"
begin

text \<open>
  Divergence-sensitive saturation (\<open>crates/soc-core/src/saturate/mod.rs\<close>): the observation profile that
  labels a committed step administrative or realizing, the presentation an analysis runs against, and
  \<open>sat_step\<close>, which hides a finite prefix of administrative ticks and then exports a realizing
  observation, certifies quiescence, or certifies divergence when the orbit of \<open>(world, policy)\<close>
  closes. The structs of the two certificates, from \<open>certificate.rs\<close>, are here because the step builds
  them. Counters of steps are natural numbers, phases and budgets keep their 64 bits. \<open>None\<close> stands for
  a panic: \<open>resolve\<close> on an unknown handle, or an \<open>expect\<close>.
\<close>

section \<open>Labels and profiles\<close>

datatype step_label = Administrative | RealizingLabel

datatype profile_error = MixedDecomposition | UnregisteredGenerator | ProfileEmptyDecomposition

text \<open>An observation profile is the record of its two methods.\<close>

record observation_profile =
  op_id :: digest
  op_label :: "committed_step \<Rightarrow> profile_error + step_label"

record generator_partition =
  administrative :: "generator_id set"
  realizing :: "generator_id set"

definition PARTITION_KIND :: string where
  "PARTITION_KIND = ''brix.soc.obs-profile.generator-partition@1''"

definition PARTITION_MARKER :: bytes where
  "PARTITION_MARKER = as_bytes ''brix.soc.obs-profile''"

definition PARTITION_VERSION :: u64 where
  "PARTITION_VERSION = 1"

definition partition_new :: "generator_id set \<Rightarrow> generator_id set \<Rightarrow> unit + generator_partition" where
  "partition_new adm rlz = (if adm \<inter> rlz \<noteq> {} then Inl () else Inr \<lparr>administrative = adm, realizing = rlz\<rparr>)"

definition partition_all_realizing :: "generator_id set \<Rightarrow> generator_partition" where
  "partition_all_realizing rlz = \<lparr>administrative = {}, realizing = rlz\<rparr>"

definition canon_write_partition :: "generator_partition \<Rightarrow> canon_writer \<Rightarrow> canon_writer" where
  "canon_write_partition p w =
     write_set (map (\<lambda>g. canon_bytes (canon_write_id g)) (sorted_list_of_set (realizing p)))
       (write_set (map (\<lambda>g. canon_bytes (canon_write_id g)) (sorted_list_of_set (administrative p)))
         (write_str PARTITION_KIND (write_uint PARTITION_VERSION (write_bytes PARTITION_MARKER w))))"

definition partition_preimage :: "generator_partition \<Rightarrow> bytes" where
  "partition_preimage p = finish (canon_write_partition p canon_new)"

text \<open>The loop counts the generators of each part; the first one in neither part ends it.\<close>

fun partition_count :: "generator_partition \<Rightarrow> generator_id list \<Rightarrow> nat \<Rightarrow> nat \<Rightarrow> profile_error + (nat \<times> nat)" where
  "partition_count p [] a r = Inr (a, r)"
| "partition_count p (g # gs) a r =
     (if g \<in> administrative p then partition_count p gs (a + 1) r
      else if g \<in> realizing p then partition_count p gs a (r + 1)
      else Inl UnregisteredGenerator)"

definition partition_label :: "generator_partition \<Rightarrow> committed_step \<Rightarrow> profile_error + step_label" where
  "partition_label p st =
     (let gs = generators (sdecomposition st) in
      if gs = [] then Inl ProfileEmptyDecomposition
      else case partition_count p gs 0 0 of
        Inl e \<Rightarrow> Inl e
      | Inr (a, r) \<Rightarrow>
          if r = 0 then Inr Administrative else if a = 0 then Inr RealizingLabel else Inl MixedDecomposition)"

definition partition_profile :: "(bytes \<Rightarrow> bytes) \<Rightarrow> generator_partition \<Rightarrow> observation_profile" where
  "partition_profile blake3 p = \<lparr>op_id = digest_of blake3 Value (partition_preimage p), op_label = partition_label p\<rparr>"

section \<open>Presentations\<close>

type_synonym observable_state = "handle \<times> handle"

definition project :: "exec_config \<Rightarrow> observable_state" where
  "project e = (world e, policy e)"

datatype assumption_id = HistoryIndependence | PhaseStableKeying

record declared_assumptions =
  history_independent :: bool
  phase_stable_keying :: bool

definition assumptions_all :: declared_assumptions where
  "assumptions_all = \<lparr>history_independent = True, phase_stable_keying = True\<rparr>"

fun declares :: "declared_assumptions \<Rightarrow> assumption_id \<Rightarrow> bool" where
  "declares a HistoryIndependence = history_independent a"
| "declares a PhaseStableKeying = phase_stable_keying a"

record presentation =
  pr_id :: digest
  pr_regimes :: "settlement_provider list"
  pr_regime_set :: digest
  pr_adm :: adm
  pr_adm_id :: digest
  pr_profile :: observation_profile
  pr_interner :: interner
  pr_context :: context_id
  pr_assumptions :: declared_assumptions

record saturation_budget =
  max_hidden_steps :: u64
  max_administrative_states :: u64
  max_visible_steps :: u64

definition budget_uniform :: "u64 \<Rightarrow> saturation_budget" where
  "budget_uniform n = \<lparr>max_hidden_steps = n, max_administrative_states = n, max_visible_steps = n\<rparr>"

text \<open>The same scan as the oracle's counted one.\<close>

definition enumerate_admissible :: "settlement_provider list \<Rightarrow> adm \<Rightarrow> exec_config \<Rightarrow> candidate set \<times> nat" where
  "enumerate_admissible regimes adm e = cand_counted (map sp_candidates regimes) adm e {} 0"

section \<open>Certificates\<close>

datatype enumeration_completeness = Complete

datatype assumption_mode = DeclaredP1P6

record quiescence_certificate =
  qc_profile :: digest
  qc_context :: context_id
  qc_presentation :: digest
  qc_policy :: config_id
  qc_src_world :: config_id
  qc_terminal_world :: config_id
  qc_hidden :: "digest list"
  qc_prefix_chain :: digest
  qc_regime_set :: digest
  qc_adm_id :: digest
  qc_enumeration :: enumeration_completeness
  qc_grade :: outcome
  qc_judgement :: judgement_id

record divergence_certificate =
  dc_profile :: digest
  dc_context :: context_id
  dc_presentation :: digest
  dc_policy :: config_id
  dc_src_world :: config_id
  dc_stem :: u64
  dc_cycle :: u64
  dc_lasso :: "digest list"
  dc_cycle_world :: config_id
  dc_cycle_policy :: config_id
  dc_assumptions :: assumption_mode
  dc_grade :: outcome

definition quiescence_judgement_of ::
  "(bytes \<Rightarrow> bytes) \<Rightarrow> context_id \<Rightarrow> config_id \<Rightarrow> config_id \<Rightarrow> digest \<Rightarrow> digest \<Rightarrow> digest \<Rightarrow> judgement_id" where
  "quiescence_judgement_of blake3 ctx terminal_world pol regime_set adm_id prefix_chain =
     judgement_recompute blake3 ctx
       (quiescent_proposition_id blake3 \<lparr>qworld = terminal_world, qpolicy = pol, qregimes = regime_set, qadm = adm_id\<rparr>)
       Derived (evidence_id blake3 (SettlementReplay prefix_chain))"

definition replay_chain_digest :: "(bytes \<Rightarrow> bytes) \<Rightarrow> committed_step list \<Rightarrow> digest" where
  "replay_chain_digest blake3 sts =
     (case slice_last (replay_chain blake3 sts) of Some d \<Rightarrow> d | None \<Rightarrow> hdigest (history_empty blake3))"

section \<open>The saturated step\<close>

datatype saturation_unknown =
    AdministrativeBudgetExhausted nat u64
  | AdministrativeStateBudgetExhausted nat u64
  | VisibleBudgetExhausted nat u64
  | SatProfileError nat profile_error
  | CommitFailed nat commit_error
  | UndeclaredAssumption assumption_id
  | AssumptionViolated assumption_id nat
  | SatKeyConflict nat

datatype saturated_step =
    Realizing observation exec_config nat
  | SatQuiescent quiescence_certificate
  | SatDivergent divergence_certificate
  | SatUnknown saturation_unknown

definition saturating_add_u64 :: "u64 \<Rightarrow> nat \<Rightarrow> u64" where
  "saturating_add_u64 a n = (if unat a + n < 2 ^ 64 then a + word_of_nat n else -1)"

text \<open>Work is counted without a bound: a \<open>saturating_add\<close> of \<open>u64\<close> counters that count list elements.\<close>

definition fold_cost :: "nat option \<Rightarrow> cost_record \<Rightarrow> nat option" where
  "fold_cost running tick =
     (case (running, work_units tick) of (Some sofar, Some units) \<Rightarrow> Some (sofar + units) | _ \<Rightarrow> None)"

definition finish_cost :: "nat option \<Rightarrow> cost_record" where
  "finish_cost work =
     (case work of Some units \<Rightarrow> Steps units | None \<Rightarrow> UnknownCost ''a tick inside this saturated step was unmeasured'')"

definition make_quiescence_certificate ::
  "(bytes \<Rightarrow> bytes) \<Rightarrow> presentation \<Rightarrow> exec_config \<Rightarrow> exec_config \<Rightarrow> committed_step list \<Rightarrow> quiescence_certificate option" where
  "make_quiescence_certificate blake3 pr start terminal prefix_steps =
     (case (try_resolve (pr_interner pr) (world start), try_resolve (pr_interner pr) (world terminal),
            try_resolve (pr_interner pr) (policy terminal)) of
        (Some src_world, Some terminal_world, Some pol) \<Rightarrow>
          (let chain = replay_chain_digest blake3 prefix_steps in
           Some \<lparr>qc_profile = op_id (pr_profile pr), qc_context = pr_context pr, qc_presentation = pr_id pr, qc_policy = pol,
             qc_src_world = src_world, qc_terminal_world = terminal_world,
             qc_hidden = map (committed_step_digest blake3) prefix_steps, qc_prefix_chain = chain,
             qc_regime_set = pr_regime_set pr, qc_adm_id = pr_adm_id pr, qc_enumeration = Complete, qc_grade = Derived,
             qc_judgement =
               quiescence_judgement_of blake3 (pr_context pr) terminal_world pol (pr_regime_set pr) (pr_adm_id pr) chain\<rparr>)
      | _ \<Rightarrow> None)"

record visit_record =
  vindex :: nat
  vcandidates :: "candidate set option"

definition record_visit :: "presentation \<Rightarrow> exec_config \<Rightarrow> nat \<Rightarrow> visit_record" where
  "record_visit pr e index =
     \<lparr>vindex = index,
      vcandidates =
        (if declares (pr_assumptions pr) HistoryIndependence
         then Some (fst (enumerate_admissible (pr_regimes pr) (pr_adm pr) e)) else None)\<rparr>"

text \<open>A \<open>BTreeSet\<close> of candidates in its order.\<close>

definition candidates_in_order :: "candidate set \<Rightarrow> candidate list" where
  "candidates_in_order cs =
     map (\<lambda>(v, y). \<lparr>cwitness = v, successor = y\<rparr>) (sorted_list_of_set ((\<lambda>c. (cwitness c, successor c)) ` cs))"

fun phase_check :: "'s keyer \<Rightarrow> u64 \<Rightarrow> u64 \<Rightarrow> candidate list \<Rightarrow> 's \<Rightarrow> bool \<times> 's" where
  "phase_check keyer phase_then phase_now [] s = (True, s)"
| "phase_check keyer phase_then phase_now (c # cs) s =
     (case keyer s c phase_then of (k, s) \<Rightarrow>
      case keyer s c phase_now of (k', s) \<Rightarrow>
        if (priority k, tiebreak k) \<noteq> (priority k', tiebreak k') then (False, s)
        else phase_check keyer phase_then phase_now cs s)"

definition close_lasso ::
  "(bytes \<Rightarrow> bytes) \<Rightarrow> presentation \<Rightarrow> exec_config \<Rightarrow> exec_config \<Rightarrow> committed_step list \<Rightarrow> visit_record \<Rightarrow> u64 \<Rightarrow> 's keyer \<Rightarrow> 's
     \<Rightarrow> saturated_step option \<times> 's" where
  "close_lasso blake3 pr start revisited consumed previous ph keyer s =
     (let at_step = length consumed;
          candidates_now = fst (enumerate_admissible (pr_regimes pr) (pr_adm pr) revisited) in
      if \<not> declares (pr_assumptions pr) HistoryIndependence
      then (Some (SatUnknown (UndeclaredAssumption HistoryIndependence)), s)
      else if \<not> declares (pr_assumptions pr) PhaseStableKeying
      then (Some (SatUnknown (UndeclaredAssumption PhaseStableKeying)), s)
      else case vcandidates previous of
        None \<Rightarrow> (None, s)
      | Some baseline \<Rightarrow>
          if baseline \<noteq> candidates_now then (Some (SatUnknown (AssumptionViolated HistoryIndependence at_step)), s)
          else case phase_check keyer (saturating_add_u64 ph (vindex previous)) (saturating_add_u64 ph at_step)
                      (candidates_in_order candidates_now) s of
            (False, s) \<Rightarrow> (Some (SatUnknown (AssumptionViolated PhaseStableKeying at_step)), s)
          | (True, s) \<Rightarrow>
              (case (try_resolve (pr_interner pr) (policy start), try_resolve (pr_interner pr) (world start),
                     try_resolve (pr_interner pr) (world revisited), try_resolve (pr_interner pr) (policy revisited)) of
                 (Some pol, Some src_world, Some cycle_world, Some cycle_policy) \<Rightarrow>
                   (Some (SatDivergent
                     \<lparr>dc_profile = op_id (pr_profile pr), dc_context = pr_context pr, dc_presentation = pr_id pr, dc_policy = pol,
                      dc_src_world = src_world, dc_stem = word_of_nat (vindex previous),
                      dc_cycle = word_of_nat (at_step - vindex previous),
                      dc_lasso = map (committed_step_digest blake3) consumed, dc_cycle_world = cycle_world,
                      dc_cycle_policy = cycle_policy, dc_assumptions = DeclaredP1P6, dc_grade = Unknown\<rparr>), s)
               | _ \<Rightarrow> (None, s)))"

type_synonym sat_result = "(saturated_step \<times> committed_step list \<times> cost_record) option"

text \<open>One iteration decides what to return, or gives the next state of the loop.\<close>

function sat_loop ::
  "(bytes \<Rightarrow> bytes) \<Rightarrow> presentation \<Rightarrow> exec_config \<Rightarrow> u64 \<Rightarrow> 's keyer \<Rightarrow> saturation_budget
     \<Rightarrow> exec_config \<Rightarrow> committed_step list \<Rightarrow> nat option \<Rightarrow> nat \<Rightarrow> (observable_state \<times> visit_record) list \<Rightarrow> 's \<Rightarrow> sat_result \<times> 's" where
  "sat_loop blake3 pr start ph keyer b current consumed work hidden visited s =
     (let unknown = \<lambda>u sts wk. Some (SatUnknown u, sts, finish_cost wk) in
      case try_commit_tick blake3 (pr_regimes pr) (pr_adm pr) (pr_interner pr) current (pr_context pr)
             (saturating_add_u64 ph (length consumed)) keyer s of
        (Inl (TickKeyConflict _), s) \<Rightarrow> (unknown (SatKeyConflict (length consumed)) consumed work, s)
      | (Inl (TickCommit err), s) \<Rightarrow>
          (if err = CommitPanicked then (None, s) else (unknown (CommitFailed (length consumed) err) consumed work, s))
      | (Inr (Quiescent, _, cost), s) \<Rightarrow>
          (map_option (\<lambda>c. (SatQuiescent c, consumed, finish_cost (fold_cost work cost)))
             (make_quiescence_certificate blake3 pr start current consumed), s)
      | (Inr (Step _ _, None, _), s) \<Rightarrow> (None, s)
      | (Inr (Step ob nxt, Some st, cost), s) \<Rightarrow>
          (let work = fold_cost work cost; at_step = length consumed; consumed = consumed @ [st] in
           case op_label (pr_profile pr) st of
             Inl err \<Rightarrow> (unknown (SatProfileError at_step err) consumed work, s)
           | Inr RealizingLabel \<Rightarrow> (Some (Realizing ob nxt hidden, consumed, finish_cost work), s)
           | Inr Administrative \<Rightarrow>
               (let hidden = hidden + 1; obs = project nxt in
                case bt_get visited obs of
                  Some previous \<Rightarrow>
                    (case close_lasso blake3 pr start nxt consumed previous ph keyer s of
                       (res, s) \<Rightarrow> (map_option (\<lambda>r. (r, consumed, finish_cost work)) res, s))
                | None \<Rightarrow>
                    if length visited \<ge> unat (max_administrative_states b)
                    then (unknown (AdministrativeStateBudgetExhausted (length visited) (max_administrative_states b)) consumed work, s)
                    else if hidden > unat (max_hidden_steps b)
                    then (unknown (AdministrativeBudgetExhausted hidden (max_hidden_steps b)) consumed work, s)
                    else sat_loop blake3 pr start ph keyer b nxt consumed work hidden
                           (bt_insert obs (record_visit pr nxt (length consumed)) visited) s)))"
  by pat_completeness auto

termination
  by (relation "measure (\<lambda>(_, _, _, _, _, b, _, _, _, hidden, _, _). unat (max_hidden_steps b) + 1 - hidden)") auto

declare sat_loop.simps [simp del]

definition sat_step ::
  "(bytes \<Rightarrow> bytes) \<Rightarrow> presentation \<Rightarrow> exec_config \<Rightarrow> u64 \<Rightarrow> 's keyer \<Rightarrow> saturation_budget \<Rightarrow> 's \<Rightarrow> sat_result \<times> 's" where
  "sat_step blake3 pr e ph keyer b s =
     sat_loop blake3 pr e ph keyer b e [] (Some 0) 0 (bt_insert (project e) (record_visit pr e 0) []) s"

end
