(* ===== verification/Sat_Sound.thy ===== *)
theory Sat_Sound
  imports Sat_Step
begin

text \<open>
  What a saturated step establishes, for a keyer without a state of its own: the committed steps it
  returns are a path of ticks, all administrative but the realizing one at the end; quiescence means
  that the frontier at the end of the path is empty. A certified divergence is a divergence when the
  candidates, admissibility and the decompositions read no more of the configuration than
  \<open>project\<close> and keys depend on the phase only in their phase component. The declared hypotheses do
  not mention the decompositions; the last section shows that they have to.
\<close>

section \<open>Ticks as a relation\<close>

definition gamma ::
  "(bytes \<Rightarrow> bytes) \<Rightarrow> presentation \<Rightarrow> 's keyer \<Rightarrow> u64 \<Rightarrow> exec_config \<Rightarrow> committed_step \<Rightarrow> exec_config \<Rightarrow> bool" where
  "gamma blake3 pr keyer ph e st e1 \<longleftrightarrow>
     (\<exists>s s' cost. try_commit_tick blake3 (pr_regimes pr) (pr_adm pr) (pr_interner pr) e (pr_context pr) ph keyer s =
        (Inr (Step (sobservation st) e1, Some st, cost), s'))"

text \<open>A path of administrative ticks; \<open>ph\<close> is the phase of the first.\<close>

inductive hides ::
  "(bytes \<Rightarrow> bytes) \<Rightarrow> presentation \<Rightarrow> 's keyer \<Rightarrow> u64 \<Rightarrow> exec_config \<Rightarrow> committed_step list \<Rightarrow> exec_config \<Rightarrow> bool"
  for blake3 pr keyer ph e where
  hides_nil: "hides blake3 pr keyer ph e [] e"
| hides_snoc:
    "hides blake3 pr keyer ph e sts e1 \<Longrightarrow> gamma blake3 pr keyer (saturating_add_u64 ph (length sts)) e1 st e2 \<Longrightarrow>
     op_label (pr_profile pr) st = Inr Administrative \<Longrightarrow> hides blake3 pr keyer ph e (sts @ [st]) e2"

inductive_cases hides_NilE: "hides blake3 pr keyer ph e [] e1"
inductive_cases hides_snocE: "hides blake3 pr keyer ph e (sts @ [st]) e2"

text \<open>Administrative ticks for ever.\<close>

coinductive diverges :: "(bytes \<Rightarrow> bytes) \<Rightarrow> presentation \<Rightarrow> 's keyer \<Rightarrow> u64 \<Rightarrow> exec_config \<Rightarrow> bool"
  for blake3 pr keyer where
  diverges_step:
    "gamma blake3 pr keyer ph e st e1 \<Longrightarrow> op_label (pr_profile pr) st = Inr Administrative \<Longrightarrow>
     diverges blake3 pr keyer (saturating_add_u64 ph 1) e1 \<Longrightarrow> diverges blake3 pr keyer ph e"

lemma hides_admin: "hides blake3 pr keyer ph e sts e1 \<Longrightarrow> list_all (\<lambda>st. op_label (pr_profile pr) st = Inr Administrative) sts"
  by (induction rule: hides.induct) auto

lemma gamma_step:
  assumes "gamma blake3 pr keyer ph e st e1"
  obtains c i where "c \<in> cand (map sp_candidates (pr_regimes pr)) (pr_adm pr) e" "e1 = apply_candidate blake3 e c"
    "enumerates (pr_regimes pr) e i c" "sp_decompose (pr_regimes pr ! i) e c = Inr (sdecomposition st)"
    "try_resolve (pr_interner pr) (world e) = Some (ssrc st)" "try_resolve (pr_interner pr) (world e1) = Some (sdst st)"
    "derived_step blake3 (pr_context pr) st"
proof -
  obtain s s' cost where t: "try_commit_tick blake3 (pr_regimes pr) (pr_adm pr) (pr_interner pr) e (pr_context pr) ph keyer s =
      (Inr (Step (sobservation st) e1, Some st, cost), s')"
    using assms by (auto simp: gamma_def)
  from t show thesis
  proof (cases rule: tick_step)
    case (1 c i st1)
    have "world e1 = successor c" using 1(4) by (simp add: apply_candidate_def)
    then show ?thesis using that[of c i] 1 by simp
  qed
qed

lemma gamma_policy: "gamma blake3 pr keyer ph e st e1 \<Longrightarrow> policy e1 = policy e"
  by (erule gamma_step) (simp add: apply_candidate_def)

lemma hides_policy: "hides blake3 pr keyer ph e sts e1 \<Longrightarrow> policy e1 = policy e"
  by (induction rule: hides.induct) (auto dest: gamma_policy)

lemma gamma_det:
  "gamma blake3 pr (pure_keyer kf) ph e st e1 \<Longrightarrow> gamma blake3 pr (pure_keyer kf) ph e st' e2 \<Longrightarrow> st = st' \<and> e1 = e2"
  by (auto simp: gamma_def)

lemma hides_det: "hides blake3 pr (pure_keyer kf) ph e sts e1 \<Longrightarrow> hides blake3 pr (pure_keyer kf) ph e sts e2 \<Longrightarrow> e1 = e2"
proof (induction arbitrary: e2 rule: hides.induct)
  case (hides_snoc sts e1 st e2 e3)
  obtain e1' where e1': "hides blake3 pr (pure_keyer kf) ph e sts e1'"
    "gamma blake3 pr (pure_keyer kf) (saturating_add_u64 ph (length sts)) e1' st e3"
    using hides_snoc.prems by (rule hides_snocE) blast
  then show ?case using hides_snoc.IH[OF e1'(1)] gamma_det[OF hides_snoc.hyps(2)] by blast
qed (auto elim: hides_NilE)

text \<open>The prefixes of a path are paths, and its configurations a sequence.\<close>

lemma hides_trail:
  assumes "hides blake3 pr keyer ph e sts e1"
  shows "\<exists>cf. cf 0 = e \<and> cf (length sts) = e1 \<and> (\<forall>j \<le> length sts. hides blake3 pr keyer ph e (take j sts) (cf j)) \<and>
    (\<forall>j < length sts. gamma blake3 pr keyer (saturating_add_u64 ph j) (cf j) (sts ! j) (cf (Suc j)))"
  using assms
proof (induction rule: hides.induct)
  case hides_nil
  show ?case by (rule exI[of _ "\<lambda>_. e"]) (simp add: hides.hides_nil)
next
  case (hides_snoc sts e1 st e2)
  then obtain cf where cf: "cf 0 = e" "cf (length sts) = e1" "\<And>j. j \<le> length sts \<Longrightarrow> hides blake3 pr keyer ph e (take j sts) (cf j)"
    "\<And>j. j < length sts \<Longrightarrow> gamma blake3 pr keyer (saturating_add_u64 ph j) (cf j) (sts ! j) (cf (Suc j))" by blast
  have h: "hides blake3 pr keyer ph e (sts @ [st]) e2" using hides_snoc.hyps by (rule hides.hides_snoc)
  have "\<forall>j \<le> length (sts @ [st]). hides blake3 pr keyer ph e (take j (sts @ [st])) ((cf(Suc (length sts) := e2)) j)"
    using cf(3) h by (simp add: le_Suc_eq)
  moreover have "\<forall>j < length (sts @ [st]). gamma blake3 pr keyer (saturating_add_u64 ph j) ((cf(Suc (length sts) := e2)) j) ((sts @ [st]) ! j)
      ((cf(Suc (length sts) := e2)) (Suc j))"
    using cf(2,4) hides_snoc.hyps(2) by (auto simp: nth_append less_Suc_eq)
  ultimately show ?case using cf(1) by (intro exI[of _ "cf(Suc (length sts) := e2)"]) simp
qed

section \<open>Keys that differ in their phase only\<close>

definition rk :: "u64 \<Rightarrow> key \<Rightarrow> key" where
  "rk q k = Key q (priority k) (tiebreak k)"

definition rekey :: "u64 \<Rightarrow> 'v frontier \<Rightarrow> 'v frontier" where
  "rekey q f = map (\<lambda>(k, v). (rk q k, v)) f"

definition at_phase :: "u64 \<Rightarrow> 'v frontier \<Rightarrow> bool" where
  "at_phase ph f \<longleftrightarrow> (\<forall>(k, v) \<in> set f. phase k = ph)"

lemma rk_less: "phase a = ph \<Longrightarrow> phase b = ph \<Longrightarrow> rk q a < rk q b \<longleftrightarrow> a < b"
  by (simp add: rk_def less_key_def)

lemma rk_eq: "phase a = ph \<Longrightarrow> phase b = ph \<Longrightarrow> rk q a = rk q b \<longleftrightarrow> a = b"
  by (cases a; cases b) (simp add: rk_def)

lemma rekey_insert: "at_phase ph f \<Longrightarrow> phase k = ph \<Longrightarrow> bt_insert (rk q k) v (rekey q f) = rekey q (bt_insert k v f)"
  by (induction f) (auto simp: rekey_def at_phase_def rk_less rk_eq)

lemma rekey_get: "at_phase ph f \<Longrightarrow> phase k = ph \<Longrightarrow> bt_get (rekey q f) (rk q k) = bt_get f k"
proof (induction f)
  case (Cons e f)
  obtain k' u where e: "e = (k', u)" by (cases e)
  have "phase k' = ph" "at_phase ph f" using Cons.prems(1) by (simp_all add: at_phase_def e)
  then show ?case using Cons.IH Cons.prems(2) rk_eq[of k' ph k q] by (auto simp: rekey_def bt_get_def e)
qed (simp add: rekey_def bt_get_def)

lemma at_phase_insert: "at_phase ph f \<Longrightarrow> phase k = ph \<Longrightarrow> at_phase ph (bt_insert k v f)"
  by (induction k v f rule: bt_insert.induct) (auto simp: at_phase_def)

lemma rekey_frontier_insert:
  assumes "at_phase ph f" "phase k = ph" "frontier_insert f k v = (f', Inr b)"
  shows "frontier_insert (rekey q f) (rk q k) v = (rekey q f', Inr b)" "at_phase ph f'"
proof -
  note g = rekey_get[OF assms(1,2), of q] and i = rekey_insert[OF assms(1,2), of q v]
  have "frontier_insert (rekey q f) (rk q k) v = (rekey q f', Inr b) \<and> at_phase ph f'"
  proof (cases "bt_get f k")
    case None
    then have "f' = bt_insert k v f" "b" using assms(3) by (simp_all add: frontier_insert_def)
    then show ?thesis using None g i at_phase_insert[OF assms(1,2)] by (simp add: frontier_insert_def)
  next
    case (Some x)
    then have "f' = f" "\<not> b" "x = v" using assms(3) by (simp_all add: frontier_insert_def split: if_splits)
    then show ?thesis using Some g assms(1) by (simp add: frontier_insert_def)
  qed
  then show "frontier_insert (rekey q f) (rk q k) v = (rekey q f', Inr b)" "at_phase ph f'" by simp_all
qed

lemma rekey_least: "fst (select_least (rekey q f)) = map_option (\<lambda>(k, v). (rk q k, v)) (fst (select_least f))"
  by (cases f) (auto simp: select_least_def rekey_def)

definition phase_stable :: "(candidate \<Rightarrow> u64 \<Rightarrow> key) \<Rightarrow> bool" where
  "phase_stable kf \<longleftrightarrow> (\<forall>c ph q. phase (kf c ph) = ph \<and> kf c q = rk q (kf c ph))"

abbreviation rekey_state :: "u64 \<Rightarrow> tick_state \<Rightarrow> tick_state" where
  "rekey_state q ts \<equiv> ts\<lparr>tfrontier := rekey q (tfrontier ts)\<rparr>"

text \<open>A scan reads the frontier through insertions of keys of its own phase only.\<close>

lemma rekey_work: "ts\<lparr>tfrontier := f, twork := n\<rparr> = ts\<lparr>twork := n, tfrontier := (f :: candidate frontier)\<rparr>"
  by (cases ts) simp

lemma scan_state: "snd (delta_scan adm e ph (\<lambda>s c ph. (kf c ph, s)) idx cs ts s) = s"
  by (induction cs arbitrary: ts) (simp_all add: Let_def split: prod.split sum.split)

lemma rekey_scan:
  assumes "phase_stable kf" "delta_scan adm e ph (\<lambda>s c ph. (kf c ph, s)) idx cs ts s = (Inr ts', s)" "at_phase ph (tfrontier ts)"
  shows "delta_scan adm e q (\<lambda>s c ph. (kf c ph, s)) idx cs (rekey_state q ts) s = (Inr (rekey_state q ts'), s) \<and> at_phase ph (tfrontier ts')"
  using assms(2,3)
proof (induction cs arbitrary: ts)
  case (Cons c cs)
  show ?case
  proof (cases "adm e c")
    case True
    obtain f new where f: "frontier_insert (tfrontier ts) (kf c ph) c = (f, Inr new)"
      using Cons.prems(1) True by (auto simp: Let_def split: prod.splits sum.splits)
    have k: "phase (kf c ph) = ph" "kf c q = rk q (kf c ph)"
      using assms(1) unfolding phase_stable_def by blast+
    define ts1 where "ts1 = ts\<lparr>twork := twork ts + 1, tfrontier := f, tfirst := (if new then (tfirst ts)(c \<mapsto> idx) else tfirst ts)\<rparr>"
    have r: "frontier_insert (rekey q (tfrontier ts)) (kf c q) c = (rekey q f, Inr new)" "at_phase ph f"
      using rekey_frontier_insert[OF Cons.prems(2) k(1) f] k(2) by simp_all
    have s: "delta_scan adm e ph (\<lambda>s c ph. (kf c ph, s)) idx (c # cs) ts s = delta_scan adm e ph (\<lambda>s c ph. (kf c ph, s)) idx cs ts1 s"
      using True f by (simp add: Let_def ts1_def)
    have s': "delta_scan adm e q (\<lambda>s c ph. (kf c ph, s)) idx (c # cs) (rekey_state q ts) s =
        delta_scan adm e q (\<lambda>s c ph. (kf c ph, s)) idx cs (rekey_state q ts1) s"
      using True r(1) by (cases ts) (simp add: Let_def ts1_def)
    show ?thesis unfolding s' by (rule Cons.IH) (use Cons.prems(1) s r(2) in \<open>simp_all add: ts1_def\<close>)
  next
    case False
    have s: "delta_scan adm e q (\<lambda>s c ph. (kf c ph, s)) idx (c # cs) (rekey_state q ts) s =
        delta_scan adm e q (\<lambda>s c ph. (kf c ph, s)) idx cs (rekey_state q (ts\<lparr>twork := twork ts + 1\<rparr>)) s"
      using False by (simp add: Let_def rekey_work)
    show ?thesis unfolding s by (rule Cons.IH) (use Cons.prems False in \<open>simp_all add: Let_def\<close>)
  qed
qed simp

lemma rekey_loop:
  assumes "phase_stable kf" "delta_loop adm e ph (\<lambda>s c ph. (kf c ph, s)) idx ps ts s = (Inr ts', s)" "at_phase ph (tfrontier ts)"
  shows "delta_loop adm e q (\<lambda>s c ph. (kf c ph, s)) idx ps (rekey_state q ts) s = (Inr (rekey_state q ts'), s)"
  using assms(2,3)
proof (induction ps arbitrary: idx ts)
  case (Cons p ps)
  obtain ts1 where s: "delta_scan adm e ph (\<lambda>s c ph. (kf c ph, s)) idx (sp_candidates p e) (ts\<lparr>twork := twork ts + 1\<rparr>) s = (Inr ts1, s)"
    using Cons.prems(1) scan_state[of adm e ph kf idx "sp_candidates p e" "ts\<lparr>twork := twork ts + 1\<rparr>" s]
    by (auto split: prod.splits sum.splits)
  have r: "delta_scan adm e q (\<lambda>s c ph. (kf c ph, s)) idx (sp_candidates p e) (rekey_state q (ts\<lparr>twork := twork ts + 1\<rparr>)) s =
      (Inr (rekey_state q ts1), s)" "at_phase ph (tfrontier ts1)"
    using rekey_scan[OF assms(1) s, of q] Cons.prems(2) by simp_all
  have l: "delta_loop adm e ph (\<lambda>s c ph. (kf c ph, s)) (idx + 1) ps ts1 s = (Inr ts', s)" using Cons.prems(1) s by simp
  show ?case using Cons.IH[OF l r(2)] r(1) unfolding delta_loop.simps by (simp add: rekey_work)
qed simp

lemma delta_loop_cong:
  "(\<And>p. p \<in> set ps \<Longrightarrow> sp_candidates p e = sp_candidates p e') \<Longrightarrow> adm e = adm e' \<Longrightarrow>
     delta_loop adm e ph keyer idx ps ts s = delta_loop adm e' ph keyer idx ps ts s"
proof (induction ps arbitrary: idx ts s)
  case (Cons p ps)
  have "delta_scan adm e ph keyer idx cs ts s = delta_scan adm e' ph keyer idx cs ts s" for cs ts s
    by (induction cs arbitrary: ts s) (simp_all add: Let_def Cons.prems(2) split: prod.split sum.split)
  then show ?case using Cons by (simp split: prod.split sum.split)
qed simp

section \<open>The saturated step\<close>

text \<open>The certificate of a path \<open>pre\<close> to a cycle \<open>suf\<close> that ends at \<open>e2\<close>.\<close>

definition lasso_certificate ::
  "(bytes \<Rightarrow> bytes) \<Rightarrow> presentation \<Rightarrow> exec_config \<Rightarrow> exec_config \<Rightarrow> committed_step list \<Rightarrow> committed_step list
     \<Rightarrow> divergence_certificate \<Rightarrow> bool" where
  "lasso_certificate blake3 pr e e2 pre suf c \<longleftrightarrow>
     dc_profile c = op_id (pr_profile pr) \<and> dc_context c = pr_context pr \<and> dc_presentation c = pr_id pr \<and>
     try_resolve (pr_interner pr) (policy e) = Some (dc_policy c) \<and> try_resolve (pr_interner pr) (world e) = Some (dc_src_world c) \<and>
     try_resolve (pr_interner pr) (world e2) = Some (dc_cycle_world c) \<and> try_resolve (pr_interner pr) (policy e2) = Some (dc_cycle_policy c) \<and>
     dc_stem c = word_of_nat (length pre) \<and> dc_cycle c = word_of_nat (length suf) \<and>
     dc_lasso c = map (committed_step_digest blake3) (pre @ suf) \<and> dc_grade c = Unknown"

definition sat_claim ::
  "(bytes \<Rightarrow> bytes) \<Rightarrow> presentation \<Rightarrow> 's keyer \<Rightarrow> u64 \<Rightarrow> exec_config \<Rightarrow> saturated_step \<Rightarrow> committed_step list \<Rightarrow> bool" where
  "sat_claim blake3 pr keyer ph e r sts \<longleftrightarrow>
     (case r of
        Realizing ob nxt hidden \<Rightarrow>
          (\<exists>pre st e1. sts = pre @ [st] \<and> length pre = hidden \<and> hides blake3 pr keyer ph e pre e1 \<and>
             gamma blake3 pr keyer (saturating_add_u64 ph hidden) e1 st nxt \<and>
             op_label (pr_profile pr) st = Inr RealizingLabel \<and> ob = sobservation st)
      | SatQuiescent c \<Rightarrow>
          (\<exists>e1. hides blake3 pr keyer ph e sts e1 \<and> cand (map sp_candidates (pr_regimes pr)) (pr_adm pr) e1 = {} \<and>
             make_quiescence_certificate blake3 pr e e1 sts = Some c)
      | SatDivergent c \<Rightarrow>
          (\<exists>pre suf e1 e2. sts = pre @ suf \<and> suf \<noteq> [] \<and> hides blake3 pr keyer ph e pre e1 \<and>
             hides blake3 pr keyer ph e sts e2 \<and> project e1 = project e2 \<and>
             declares (pr_assumptions pr) HistoryIndependence \<and> declares (pr_assumptions pr) PhaseStableKeying \<and>
             lasso_certificate blake3 pr e e2 pre suf c)
      | SatUnknown u \<Rightarrow>
          (\<exists>e1. hides blake3 pr keyer ph e sts e1) \<or>
          (\<exists>pre st e1 e2 err. sts = pre @ [st] \<and> hides blake3 pr keyer ph e pre e1 \<and>
             gamma blake3 pr keyer (saturating_add_u64 ph (length pre)) e1 st e2 \<and> op_label (pr_profile pr) st = Inl err \<and>
             u = SatProfileError (length pre) err))"

definition sat_inv ::
  "(bytes \<Rightarrow> bytes) \<Rightarrow> presentation \<Rightarrow> 's keyer \<Rightarrow> u64 \<Rightarrow> exec_config \<Rightarrow> saturation_budget
     \<Rightarrow> exec_config \<Rightarrow> committed_step list \<Rightarrow> nat \<Rightarrow> (observable_state \<times> visit_record) list \<Rightarrow> bool" where
  "sat_inv blake3 pr keyer ph e b current consumed hidden visited \<longleftrightarrow>
     hides blake3 pr keyer ph e consumed current \<and> hidden = length consumed \<and> length visited = hidden + 1 \<and>
     (hidden = 0 \<or> hidden \<le> unat (max_hidden_steps b) \<and> hidden < unat (max_administrative_states b)) \<and>
     (\<forall>obs rec. bt_get visited obs = Some rec \<longrightarrow>
        vindex rec \<le> length consumed \<and>
        (\<exists>e1. hides blake3 pr keyer ph e (take (vindex rec) consumed) e1 \<and> project e1 = obs \<and> rec = record_visit pr e1 (vindex rec)))"

lemma length_bt_insert: "bt_get m k = None \<Longrightarrow> length (bt_insert k v m) = length m + 1"
  by (induction k v m rule: bt_insert.induct) (auto simp: bt_get_def split: if_splits)

lemma bt_get_insert: "bt_get (bt_insert k v m) = (bt_get m)(k \<mapsto> v)"
  by (simp add: bt_get_def map_of_bt_insert fun_eq_iff)

lemma vindex_record_visit [simp]: "vindex (record_visit pr e i) = i"
  by (simp add: record_visit_def)

lemma sat_inv_start: "sat_inv blake3 pr keyer ph e b e [] 0 (bt_insert (project e) (record_visit pr e 0) [])"
  using hides.hides_nil[of blake3 pr keyer ph e] by (auto simp: sat_inv_def bt_get_def split: if_splits)

lemma sat_inv_next:
  assumes inv: "sat_inv blake3 pr keyer ph e b current consumed hidden visited"
    and g: "gamma blake3 pr keyer (saturating_add_u64 ph (length consumed)) current st nxt"
    and l: "op_label (pr_profile pr) st = Inr Administrative"
    and new: "bt_get visited (project nxt) = None"
    and le: "length visited < unat (max_administrative_states b)" "hidden + 1 \<le> unat (max_hidden_steps b)"
  shows "sat_inv blake3 pr keyer ph e b nxt (consumed @ [st]) (hidden + 1)
    (bt_insert (project nxt) (record_visit pr nxt (length (consumed @ [st]))) visited)"
proof -
  have h: "hides blake3 pr keyer ph e (consumed @ [st]) nxt" using hides_snoc inv g l unfolding sat_inv_def by blast
  have v: "vindex rec \<le> length (consumed @ [st]) \<and>
      (\<exists>e1. hides blake3 pr keyer ph e (take (vindex rec) (consumed @ [st])) e1 \<and> project e1 = obs \<and> rec = record_visit pr e1 (vindex rec))"
    if r: "bt_get (bt_insert (project nxt) (record_visit pr nxt (length (consumed @ [st]))) visited) obs = Some rec" for obs rec
  proof (cases "obs = project nxt")
    case True
    then have rec: "rec = record_visit pr nxt (length (consumed @ [st]))" using r by (simp add: bt_get_insert)
    then show ?thesis using True h by (intro conjI exI[of _ nxt]) simp_all
  next
    case False
    then have "bt_get visited obs = Some rec" using r by (simp add: bt_get_insert)
    then have "vindex rec \<le> length consumed"
      "\<exists>e1. hides blake3 pr keyer ph e (take (vindex rec) consumed) e1 \<and> project e1 = obs \<and> rec = record_visit pr e1 (vindex rec)"
      using inv unfolding sat_inv_def by blast+
    then show ?thesis by simp
  qed
  show ?thesis using inv h v le length_bt_insert[OF new] unfolding sat_inv_def by simp
qed

lemma close_lasso_claim:
  assumes inv: "sat_inv blake3 pr keyer ph e b current consumed hidden visited"
    and h: "hides blake3 pr keyer ph e (consumed @ [st]) nxt"
    and prev: "bt_get visited (project nxt) = Some previous"
    and c: "close_lasso blake3 pr e nxt (consumed @ [st]) previous ph keyer s = (Some r, s')"
  shows "sat_claim blake3 pr keyer ph e r (consumed @ [st])"
proof -
  obtain e1 where e1: "vindex previous \<le> length consumed" "hides blake3 pr keyer ph e (take (vindex previous) consumed) e1"
    "project e1 = project nxt"
    using inv prev unfolding sat_inv_def by blast
  let ?pre = "take (vindex previous) consumed" and ?suf = "drop (vindex previous) consumed @ [st]"
  have l: "length ?pre = vindex previous" "length ?suf = length (consumed @ [st]) - vindex previous" "consumed @ [st] = ?pre @ ?suf"
    using e1(1) by simp_all
  have k: "case r of SatUnknown u \<Rightarrow> True | Realizing ob x n \<Rightarrow> False | SatQuiescent q \<Rightarrow> False
    | SatDivergent cert \<Rightarrow> lasso_certificate blake3 pr e nxt ?pre ?suf cert \<and>
        declares (pr_assumptions pr) HistoryIndependence \<and> declares (pr_assumptions pr) PhaseStableKeying"
    using c unfolding close_lasso_def Let_def lasso_certificate_def l(1,2) l(3)[symmetric]
    by (auto split: if_splits option.splits prod.splits bool.splits)
  show ?thesis
  proof (cases r)
    case (SatDivergent cert)
    have "consumed @ [st] = ?pre @ ?suf \<and> ?suf \<noteq> [] \<and> hides blake3 pr keyer ph e ?pre e1 \<and>
        hides blake3 pr keyer ph e (consumed @ [st]) nxt \<and> project e1 = project nxt \<and>
        declares (pr_assumptions pr) HistoryIndependence \<and> declares (pr_assumptions pr) PhaseStableKeying \<and>
        lasso_certificate blake3 pr e nxt ?pre ?suf cert"
      using l(3) e1(2,3) h k[unfolded SatDivergent saturated_step.case] by blast
    then show ?thesis unfolding sat_claim_def SatDivergent saturated_step.case by blast
  qed (use h k in \<open>auto simp: sat_claim_def\<close>)
qed

text \<open>The reason that a refused tick gives for the step.\<close>

fun refused_tick :: "nat \<Rightarrow> commit_tick_error \<Rightarrow> saturation_unknown" where
  "refused_tick n (TickKeyConflict c) = SatKeyConflict n"
| "refused_tick n (TickCommit err) = CommitFailed n err"

text \<open>The eight ways in which an iteration ends.\<close>

lemma sat_loop_cases:
  obtains (Stuck) u s1 where
      "sat_loop blake3 pr e ph keyer b current consumed work hidden visited s = (Some (SatUnknown u, consumed, finish_cost work), s1)"
      "\<exists>err. try_commit_tick blake3 (pr_regimes pr) (pr_adm pr) (pr_interner pr) current (pr_context pr) (saturating_add_u64 ph (length consumed)) keyer s =
         (Inl err, s1) \<and> err \<noteq> TickCommit CommitPanicked \<and> u = refused_tick (length consumed) err"
  | (Panic) s1 where
      "try_commit_tick blake3 (pr_regimes pr) (pr_adm pr) (pr_interner pr) current (pr_context pr) (saturating_add_u64 ph (length consumed)) keyer s =
         (Inl (TickCommit CommitPanicked), s1)"
      "sat_loop blake3 pr e ph keyer b current consumed work hidden visited s = (None, s1)"
  | (Empty) cost s1 where
      "cand (map sp_candidates (pr_regimes pr)) (pr_adm pr) current = {}"
      "sat_loop blake3 pr e ph keyer b current consumed work hidden visited s =
         (map_option (\<lambda>c. (SatQuiescent c, consumed, finish_cost (fold_cost work cost)))
            (make_quiescence_certificate blake3 pr e current consumed), s1)"
  | (Unlabelled) st nxt err wk s1 where
      "gamma blake3 pr keyer (saturating_add_u64 ph (length consumed)) current st nxt" "op_label (pr_profile pr) st = Inl err"
      "sat_loop blake3 pr e ph keyer b current consumed work hidden visited s =
         (Some (SatUnknown (SatProfileError (length consumed) err), consumed @ [st], wk), s1)"
  | (Visible) st nxt wk s1 where
      "gamma blake3 pr keyer (saturating_add_u64 ph (length consumed)) current st nxt" "op_label (pr_profile pr) st = Inr RealizingLabel"
      "sat_loop blake3 pr e ph keyer b current consumed work hidden visited s =
         (Some (Realizing (sobservation st) nxt hidden, consumed @ [st], wk), s1)"
  | (Closed) st nxt previous wk s1 res s2 where
      "gamma blake3 pr keyer (saturating_add_u64 ph (length consumed)) current st nxt" "op_label (pr_profile pr) st = Inr Administrative"
      "bt_get visited (project nxt) = Some previous" "close_lasso blake3 pr e nxt (consumed @ [st]) previous ph keyer s1 = (res, s2)"
      "sat_loop blake3 pr e ph keyer b current consumed work hidden visited s = (map_option (\<lambda>r. (r, consumed @ [st], wk)) res, s2)"
  | (Exhausted) st nxt u wk s1 where
      "gamma blake3 pr keyer (saturating_add_u64 ph (length consumed)) current st nxt" "op_label (pr_profile pr) st = Inr Administrative"
      "unat (max_administrative_states b) \<le> length visited \<or> unat (max_hidden_steps b) < hidden + 1"
      "sat_loop blake3 pr e ph keyer b current consumed work hidden visited s = (Some (SatUnknown u, consumed @ [st], wk), s1)"
      "u = AdministrativeStateBudgetExhausted (length visited) (max_administrative_states b) \<and> unat (max_administrative_states b) \<le> length visited \<or>
         u = AdministrativeBudgetExhausted (hidden + 1) (max_hidden_steps b) \<and> unat (max_hidden_steps b) < hidden + 1"
  | (Continue) st nxt wk s1 where
      "gamma blake3 pr keyer (saturating_add_u64 ph (length consumed)) current st nxt" "op_label (pr_profile pr) st = Inr Administrative"
      "bt_get visited (project nxt) = None"
      "length visited < unat (max_administrative_states b)" "hidden + 1 \<le> unat (max_hidden_steps b)"
      "sat_loop blake3 pr e ph keyer b current consumed work hidden visited s =
         sat_loop blake3 pr e ph keyer b nxt (consumed @ [st]) wk (hidden + 1)
           (bt_insert (project nxt) (record_visit pr nxt (length (consumed @ [st]))) visited) s1"
proof -
  let ?run = "sat_loop blake3 pr e ph keyer b current consumed work hidden visited s"
  note run = sat_loop.simps[of blake3 pr e ph keyer b current consumed work hidden visited s, unfolded Let_def]
  obtain tr s1 where t: "try_commit_tick blake3 (pr_regimes pr) (pr_adm pr) (pr_interner pr) current (pr_context pr)
      (saturating_add_u64 ph (length consumed)) keyer s = (tr, s1)" by (cases "try_commit_tick blake3 (pr_regimes pr) (pr_adm pr)
      (pr_interner pr) current (pr_context pr) (saturating_add_u64 ph (length consumed)) keyer s")
  consider c where "tr = Inl (TickKeyConflict c)" | err where "tr = Inl (TickCommit err)"
    | st cs where "tr = Inr (Quiescent, st, cs)" | ob nxt st cs where "tr = Inr (Step ob nxt, st, cs)"
    by (metis committed.exhaust commit_tick_error.exhaust prod_cases3 sum.exhaust)
  then show thesis
  proof cases
    case 1
    show ?thesis by (rule Stuck[OF _ exI[of _ "TickKeyConflict c"]]) (simp_all add: run t 1)
  next
    case 2
    show ?thesis
    proof (cases "err = CommitPanicked")
      case True
      show ?thesis by (rule Panic) (simp_all add: run t 2 True)
    next
      case False
      show ?thesis by (rule Stuck[OF _ exI[of _ "TickCommit err"]]) (simp_all add: run t 2 False)
    qed
  next
    case 3
    show ?thesis using tick_quiescent[OF t[unfolded 3]] by (intro Empty[of cs s1]) (simp_all add: run t 3)
  next
    case 4
    from t[unfolded 4] obtain st1 where st: "st = Some st1" "ob = sobservation st1" by (elim tick_step) simp
    have g: "gamma blake3 pr keyer (saturating_add_u64 ph (length consumed)) current st1 nxt" using t unfolding gamma_def 4 st by blast
    note run = run[unfolded t 4 st prod.case sum.case committed.case option.case]
    show ?thesis
    proof (cases "op_label (pr_profile pr) st1")
      case (Inl err)
      then show ?thesis using g by (intro Unlabelled) (simp_all add: run)
    next
      case (Inr l)
      show ?thesis
      proof (cases l)
        case RealizingLabel
        then show ?thesis using g Inr by (intro Visible) (simp_all add: run)
      next
        case Administrative
        note label = Inr[unfolded Administrative]
        show ?thesis
        proof (cases "bt_get visited (project nxt)")
          case (Some previous)
          obtain rc s2 where c: "close_lasso blake3 pr e nxt (consumed @ [st1]) previous ph keyer s1 = (rc, s2)"
            by (cases "close_lasso blake3 pr e nxt (consumed @ [st1]) previous ph keyer s1")
          show ?thesis by (rule Closed[OF g label Some c]) (simp add: run label Some c)
        next
          case None
          consider "unat (max_administrative_states b) \<le> length visited"
            | "length visited < unat (max_administrative_states b)" "unat (max_hidden_steps b) < hidden + 1"
            | "length visited < unat (max_administrative_states b)" "hidden + 1 \<le> unat (max_hidden_steps b)" by linarith
          then show ?thesis
          proof cases
            case 1
            show ?thesis by (rule Exhausted[OF g label _ _ disjI1[OF conjI[OF refl 1]]]) (use 1 in \<open>simp_all add: run label None\<close>)
          next
            case 2
            show ?thesis by (rule Exhausted[OF g label _ _ disjI2[OF conjI[OF refl 2(2)]]]) (use 2 in \<open>simp_all add: run label None\<close>)
          next
            case 3
            show ?thesis by (rule Continue[OF g label None 3]) (use 3 in \<open>simp add: run label None\<close>)
          qed
        qed
      qed
    qed
  qed
qed

text \<open>The loop keeps the invariant, so what it returns is its claim about the path from \<open>e\<close>.\<close>

lemma sat_loop_claim:
  assumes "sat_inv blake3 pr keyer ph e b current consumed hidden visited"
    and "sat_loop blake3 pr e ph keyer b current consumed work hidden visited s = (Some (r, sts, cost), s')"
  shows "sat_claim blake3 pr keyer ph e r sts \<and> length sts \<le> unat (max_hidden_steps b) + 1 \<and>
    length sts \<le> max 1 (unat (max_administrative_states b))"
  using assms
proof (induction "unat (max_hidden_steps b) + 1 - hidden" arbitrary: current consumed work hidden visited s rule: less_induct)
  case less
  note inv = less.prems(1)
  have h: "hides blake3 pr keyer ph e consumed current" and len: "hidden = length consumed"
    and small: "length consumed \<le> unat (max_hidden_steps b)" "length consumed < max 1 (unat (max_administrative_states b))"
    using inv unfolding sat_inv_def by auto
  note h' = hides_snoc[OF h]
  show ?case
  proof (cases rule: sat_loop_cases[of blake3 pr e ph keyer b current consumed work hidden visited s])
    case (Closed st nxt previous wk s1 res s2)
    have "sts = consumed @ [st]" "res = Some r" using Closed(5) less.prems(2) by (cases res; auto)+
    then show ?thesis using close_lasso_claim[OF inv h'[OF Closed(1,2)] Closed(3)] Closed(4) small by simp
  next
    case (Continue st nxt wk s1)
    have "unat (max_hidden_steps b) + 1 - (hidden + 1) < unat (max_hidden_steps b) + 1 - hidden" using Continue(5) by simp
    from less.hyps[OF this sat_inv_next[OF inv Continue(1-5)]] show ?thesis using less.prems(2) Continue(6) by simp
  next
    case (Exhausted st nxt u wk s1)
    then show ?thesis using h'[OF Exhausted(1,2)] small less.prems(2) by (auto simp: sat_claim_def)
  next
    case (Empty cs s1)
    obtain c where c: "make_quiescence_certificate blake3 pr e current consumed = Some c" "r = SatQuiescent c" "sts = consumed"
      using Empty(2) less.prems(2) by (cases "make_quiescence_certificate blake3 pr e current consumed") auto
    then show ?thesis using h small Empty(1) by (auto simp: sat_claim_def)
  qed (use less.prems(2) h small len in \<open>auto simp: sat_claim_def\<close>)
qed

text \<open>No panic: handles on the path resolve, visits keep their candidates, and no tick aborts.\<close>

definition resolvable :: "interner \<Rightarrow> exec_config \<Rightarrow> bool" where
  "resolvable it e \<longleftrightarrow> try_resolve it (world e) \<noteq> None \<and> try_resolve it (policy e) \<noteq> None"

definition panic_free :: "settlement_provider list \<Rightarrow> bool" where
  "panic_free ps \<longleftrightarrow> (\<forall>p \<in> set ps. \<forall>e c. sp_decompose p e c \<noteq> Inl CommitPanicked)"

definition visits_recorded :: "presentation \<Rightarrow> (observable_state \<times> visit_record) list \<Rightarrow> bool" where
  "visits_recorded pr visited \<longleftrightarrow> (\<forall>obs rec. bt_get visited obs = Some rec \<longrightarrow>
     declares (pr_assumptions pr) HistoryIndependence \<longrightarrow> vcandidates rec \<noteq> None)"

lemma visits_recorded_insert: "visits_recorded pr visited \<Longrightarrow> visits_recorded pr (bt_insert obs (record_visit pr e i) visited)"
  by (auto simp: visits_recorded_def bt_get_insert record_visit_def)

lemma gamma_resolvable:
  assumes "gamma blake3 pr keyer ph e st e1" "resolvable (pr_interner pr) e"
  shows "resolvable (pr_interner pr) e1"
proof -
  have "try_resolve (pr_interner pr) (world e1) = Some (sdst st)" using assms(1) by (rule gamma_step)
  then show ?thesis using assms(2) gamma_policy[OF assms(1)] by (simp add: resolvable_def)
qed

lemma make_quiescence_total:
  "resolvable (pr_interner pr) e \<Longrightarrow> resolvable (pr_interner pr) e1 \<Longrightarrow> make_quiescence_certificate blake3 pr e e1 sts \<noteq> None"
  by (auto simp: resolvable_def make_quiescence_certificate_def Let_def)

lemma close_lasso_total:
  assumes "resolvable (pr_interner pr) e" "resolvable (pr_interner pr) e1" "visits_recorded pr visited" "bt_get visited obs = Some previous"
  shows "fst (close_lasso blake3 pr e e1 sts previous ph keyer s) \<noteq> None"
proof -
  have "declares (pr_assumptions pr) HistoryIndependence \<Longrightarrow> \<exists>cs. vcandidates previous = Some cs"
    using assms(3,4) unfolding visits_recorded_def by blast
  then show ?thesis using assms(1,2)
    by (auto simp: close_lasso_def resolvable_def Let_def split: prod.split bool.split)
qed

lemma try_commit_selected_panic:
  "try_commit_selected blake3 k c p it e ctx = Inl CommitPanicked \<Longrightarrow> sp_decompose p e c = Inl CommitPanicked"
  by (auto simp: try_commit_selected_def and_then_def ok_or_def map_err_def Let_def split: sum.splits option.splits)

lemma tick_no_panic:
  assumes "panic_free ps"
  shows "fst (try_commit_tick blake3 ps adm it e ctx ph keyer s) \<noteq> Inl (TickCommit CommitPanicked)"
proof
  assume p: "fst (try_commit_tick blake3 ps adm it e ctx ph keyer s) = Inl (TickCommit CommitPanicked)"
  obtain ts s' where d: "delta_loop adm e ph keyer 0 ps tick_new s = (Inr ts, s')"
    using p by (auto simp: try_commit_tick_def split: prod.splits sum.splits)
  note dt = delta_loop_tick[OF d]
  obtain k c where sel: "fst (select_least (tfrontier ts)) = Some (k, c)"
    using p d by (auto simp: try_commit_tick_def split: option.splits)
  obtain f where "select_least (tfrontier ts) = (Some (k, c), f)" using sel by (metis prod.exhaust_sel)
  then have get: "bt_get (tfrontier ts) k = Some c" using dt(1) by (intro select_least_Some(1)) (auto simp: tick_inv_def)
  obtain i where i: "tfirst ts c = Some i" "enumerates ps e i c" using tick_inv_get[OF dt(1) get] by auto
  then have "try_commit_selected blake3 k c (ps ! i) it e ctx = Inl CommitPanicked"
    using p d sel by (auto simp: try_commit_tick_def split: sum.splits)
  moreover have "ps ! i \<in> set ps" using i(2) by (simp add: enumerates_def)
  ultimately show False using assms try_commit_selected_panic unfolding panic_free_def by blast
qed

lemma sat_loop_total:
  assumes "resolvable (pr_interner pr) e" "panic_free (pr_regimes pr)"
    and "resolvable (pr_interner pr) current" "visits_recorded pr visited"
  shows "fst (sat_loop blake3 pr e ph keyer b current consumed work hidden visited s) \<noteq> None"
  using assms(3,4)
proof (induction "unat (max_hidden_steps b) + 1 - hidden" arbitrary: current consumed work hidden visited s rule: less_induct)
  case less
  show ?case
  proof (cases rule: sat_loop_cases[of blake3 pr e ph keyer b current consumed work hidden visited s])
    case (Panic s1)
    then show ?thesis using tick_no_panic[OF assms(2)] by (metis fst_conv)
  next
    case (Empty cost s1)
    then show ?thesis using make_quiescence_total[OF assms(1) less.prems(1)] by auto
  next
    case (Closed st nxt previous wk s1 res s2)
    have "res \<noteq> None"
      using close_lasso_total[OF assms(1) gamma_resolvable[OF Closed(1) less.prems(1)] less.prems(2) Closed(3)] Closed(4) by (metis fst_conv)
    then show ?thesis using Closed(5) by auto
  next
    case (Continue st nxt wk s1)
    have "unat (max_hidden_steps b) + 1 - (hidden + 1) < unat (max_hidden_steps b) + 1 - hidden" using Continue(5) by simp
    from less.hyps[OF this gamma_resolvable[OF Continue(1) less.prems(1)] visits_recorded_insert[OF less.prems(2)]]
    show ?thesis using Continue(6) by simp
  qed simp_all
qed

section \<open>Divergence\<close>

text \<open>What the two declared hypotheses say, and what they leave out.\<close>

definition history_blind :: "presentation \<Rightarrow> bool" where
  "history_blind pr \<longleftrightarrow> (\<forall>e e'. project e = project e' \<longrightarrow>
     pr_adm pr e = pr_adm pr e' \<and> (\<forall>p \<in> set (pr_regimes pr). sp_candidates p e = sp_candidates p e'))"

definition decomposition_blind :: "presentation \<Rightarrow> bool" where
  "decomposition_blind pr \<longleftrightarrow> (\<forall>e e'. project e = project e' \<longrightarrow>
     (\<forall>p \<in> set (pr_regimes pr). sp_decompose p e = sp_decompose p e'))"

definition label_blind :: "presentation \<Rightarrow> bool" where
  "label_blind pr \<longleftrightarrow> (\<forall>st st'. sdecomposition st = sdecomposition st' \<longrightarrow> op_label (pr_profile pr) st = op_label (pr_profile pr) st')"

lemma rekey_tick_new: "rekey_state q tick_new = tick_new"
  by (simp add: tick_new_def rekey_def)

text \<open>A tick at another phase, from a configuration with the same projection, commits the same candidate.\<close>

lemma gamma_transfer:
  assumes blind: "history_blind pr" "decomposition_blind pr" and stable: "phase_stable kf"
    and same: "project e = project e'" and g: "gamma blake3 pr (pure_keyer kf) ph e st e1"
  obtains st' e1' where "gamma blake3 pr (pure_keyer kf) q e' st' e1'" "sdecomposition st' = sdecomposition st" "project e1' = project e1"
    "sobservation st' = sobservation st"
proof -
  let ?ps = "pr_regimes pr" and ?K = "\<lambda>(s :: unit) c ph. (kf c ph, s)"
  obtain cost where t: "try_commit_tick blake3 ?ps (pr_adm pr) (pr_interner pr) e (pr_context pr) ph ?K () =
      (Inr (Step (sobservation st) e1, Some st, cost), ())"
    using g by (auto simp: gamma_def)
  have we: "world e = world e'" "policy e = policy e'" using same by (simp_all add: project_def)
  from t show thesis
  proof (cases rule: try_commit_tick_Inr)
    case (2 ts k c i st1)
    have "delta_loop (pr_adm pr) e q ?K 0 ?ps (rekey_state q tick_new) () = (Inr (rekey_state q ts), ())"
      using rekey_loop[OF stable 2(1)] by (simp add: at_phase_def tick_new_def)
    moreover have "delta_loop (pr_adm pr) e q ?K 0 ?ps (rekey_state q tick_new) () = delta_loop (pr_adm pr) e' q ?K 0 ?ps tick_new ()"
      unfolding rekey_tick_new
    proof (rule delta_loop_cong)
      show "pr_adm pr e = pr_adm pr e'" using blind(1) same unfolding history_blind_def by blast
      show "sp_candidates p e = sp_candidates p e'" if "p \<in> set ?ps" for p
        using blind(1) same that unfolding history_blind_def by blast
    qed
    ultimately have d: "delta_loop (pr_adm pr) e' q ?K 0 ?ps tick_new () = (Inr (rekey_state q ts), ())" by simp
    have sel: "fst (select_least (tfrontier (rekey_state q ts))) = Some (rk q k, c)"
      using rekey_least[of q "tfrontier ts"] 2(3) by simp
    have "enumerates ?ps e i c"
    proof -
      note dt = delta_loop_tick[OF 2(1)]
      obtain f where "select_least (tfrontier ts) = (Some (k, c), f)" using 2(3) by (metis prod.exhaust_sel)
      then have get: "bt_get (tfrontier ts) k = Some c" using dt(1) by (intro select_least_Some(1)) (auto simp: tick_inv_def)
      show ?thesis using tick_inv_get[OF dt(1) get] 2(4) by auto
    qed
    then have "?ps ! i \<in> set ?ps" by (simp add: enumerates_def)
    then have dec: "sp_decompose (?ps ! i) e' c = sp_decompose (?ps ! i) e c" using blind(2) same unfolding decomposition_blind_def by metis
    note cs = 2(6)[unfolded try_commit_selected_Inr]
    let ?st = "st1\<lparr>skey := rk q k\<rparr>" and ?e = "apply_candidate blake3 e' c"
    have "try_commit_selected blake3 (rk q k) c (?ps ! i) (pr_interner pr) e' (pr_context pr) = Inr (Step (sobservation st1) ?e, ?st)"
      unfolding try_commit_selected_Inr using cs by (simp add: dec we derived_step_def derived_judgement_def)
    then have "gamma blake3 pr (pure_keyer kf) q e' ?st ?e"
      using d sel 2(4) by (simp add: gamma_def try_commit_tick_def)
    moreover have "st1 = st" "e1 = apply_candidate blake3 e c" using cs 2(5) by simp_all
    moreover from this have "project ?e = project e1" by (simp add: project_def apply_candidate_def we)
    ultimately show ?thesis using that by simp
  qed simp
qed

lemma lasso_diverges:
  assumes "history_blind pr" "decomposition_blind pr" "label_blind pr" "phase_stable kf"
    and h1: "hides blake3 pr (pure_keyer kf) ph e pre e1" and h2: "hides blake3 pr (pure_keyer kf) ph e (pre @ suf) e2"
    and closed: "suf \<noteq> []" "project e1 = project e2"
  shows "diverges blake3 pr (pure_keyer kf) q e"
proof -
  let ?n = "length (pre @ suf)"
  obtain cf where cf: "cf 0 = e" "cf ?n = e2" "\<And>j. j \<le> ?n \<Longrightarrow> hides blake3 pr (pure_keyer kf) ph e (take j (pre @ suf)) (cf j)"
    "\<And>j. j < ?n \<Longrightarrow> gamma blake3 pr (pure_keyer kf) (saturating_add_u64 ph j) (cf j) ((pre @ suf) ! j) (cf (Suc j))"
    using hides_trail[OF h2] by blast
  have entry: "cf (length pre) = e1" using cf(3)[of "length pre"] hides_det[OF h1] by simp
  have admin: "op_label (pr_profile pr) ((pre @ suf) ! j) = Inr Administrative" if "j < ?n" for j
    using hides_admin[OF h2] that by (simp add: list_all_length)
  have closes: "\<exists>j' < ?n. project (cf (Suc j)) = project (cf j')" if "j < ?n" for j
  proof (cases "Suc j = ?n")
    case True
    then show ?thesis using cf(2) entry closed by (intro exI[of _ "length pre"]) simp
  qed (use that in \<open>auto intro!: exI[of _ "Suc j"]\<close>)
  have "\<exists>j < ?n. project e = project (cf j)" using cf(1) closed(1) by (intro exI[of _ 0]) simp
  then show ?thesis
  proof (coinduction arbitrary: q e rule: diverges.coinduct)
    case (diverges q e)
    then obtain j where j: "j < ?n" "project (cf j) = project e" by metis
    obtain st e' where g: "gamma blake3 pr (pure_keyer kf) q e st e'" "sdecomposition st = sdecomposition ((pre @ suf) ! j)"
      "project e' = project (cf (Suc j))"
      using gamma_transfer[OF assms(1,2,4) j(2) cf(4)[OF j(1)]] .
    have "op_label (pr_profile pr) st = Inr Administrative"
      using assms(3) g(2) admin[OF j(1)] unfolding label_blind_def by metis
    then show ?case using g(1,3) closes[OF j(1)] by metis
  qed
qed

lemma partition_label_blind: "pr_profile pr = partition_profile blake3 p \<Longrightarrow> label_blind pr"
  by (simp add: label_blind_def partition_profile_def partition_label_def)

end
