(* ===== verification/Sat_Runs.thy ===== *)
theory Sat_Runs
  imports Sat_Sound
begin

text \<open>
  The properties of the saturated step: it returns within its budget and without a panic, what it returns is
  true of the ticks it took, a budget that is large enough finds the realizing observation or the
  empty frontier that the ticks lead to, and a certified divergence goes on for ever. The last section is
  the reason for the hypothesis on decompositions.
\<close>

section \<open>Enough budget\<close>

lemma tick_empty:
  assumes "cand (map sp_candidates ps) adm e = {}"
  shows "\<exists>cost. try_commit_tick blake3 ps adm it e ctx ph (pure_keyer kf) () = (Inr (Quiescent, None, cost), ())"
proof -
  obtain ts where ts: "delta_loop adm e ph (pure_keyer kf) 0 ps tick_new () = (Inr ts, ())"
    using delta_loop_exact[of adm e ph kf ps] assms by auto
  note d = delta_loop_tick[OF ts]
  have "bt_get (tfrontier ts) k = None" for k
    using d(3) assms ranI[of "bt_get (tfrontier ts)" k] by (cases "bt_get (tfrontier ts) k") auto
  then have "tfrontier ts = []" by (simp add: bt_empty_iff fun_eq_iff)
  then show ?thesis using ts by (simp add: try_commit_tick_def select_least_def)
qed

text \<open>The visited set holds the projections of the configurations so far.\<close>

definition visits :: "(observable_state \<times> visit_record) list \<Rightarrow> observable_state set" where
  "visits visited = dom (bt_get visited)"

lemma visits_insert: "visits (bt_insert obs r visited) = insert obs (visits visited)"
  by (auto simp: visits_def bt_get_insert split: if_splits)

definition fresh_path ::
  "(bytes \<Rightarrow> bytes) \<Rightarrow> presentation \<Rightarrow> 's keyer \<Rightarrow> u64 \<Rightarrow> exec_config \<Rightarrow> committed_step list \<Rightarrow> bool" where
  "fresh_path blake3 pr keyer ph e sts \<longleftrightarrow>
     (\<forall>i j e2 e3. i < j \<longrightarrow> j \<le> length sts \<longrightarrow> hides blake3 pr keyer ph e (take i sts) e2 \<longrightarrow>
        hides blake3 pr keyer ph e (take j sts) e3 \<longrightarrow> project e2 \<noteq> project e3)"

lemma sat_loop_gamma:
  assumes "gamma blake3 pr (pure_keyer kf) (saturating_add_u64 ph (length consumed)) current st nxt"
  shows "op_label (pr_profile pr) st = Inr RealizingLabel \<Longrightarrow>
      \<exists>wk. sat_loop blake3 pr e ph (pure_keyer kf) b current consumed work hidden visited () =
        (Some (Realizing (sobservation st) nxt hidden, consumed @ [st], wk), ())"
    and "op_label (pr_profile pr) st = Inr Administrative \<Longrightarrow> bt_get visited (project nxt) = None \<Longrightarrow>
      length visited < unat (max_administrative_states b) \<Longrightarrow> hidden + 1 \<le> unat (max_hidden_steps b) \<Longrightarrow>
      \<exists>wk. sat_loop blake3 pr e ph (pure_keyer kf) b current consumed work hidden visited () =
        sat_loop blake3 pr e ph (pure_keyer kf) b nxt (consumed @ [st]) wk (hidden + 1)
          (bt_insert (project nxt) (record_visit pr nxt (length (consumed @ [st]))) visited) ()"
proof -
  obtain cost where t: "try_commit_tick blake3 (pr_regimes pr) (pr_adm pr) (pr_interner pr) current (pr_context pr)
      (saturating_add_u64 ph (length consumed)) (pure_keyer kf) () = (Inr (Step (sobservation st) nxt, Some st, cost), ())"
    using assms by (auto simp: gamma_def)
  note run = sat_loop.simps[of blake3 pr e ph "pure_keyer kf" b current consumed work hidden visited "()",
      unfolded t prod.case sum.case committed.case option.case Let_def]
  show "op_label (pr_profile pr) st = Inr RealizingLabel \<Longrightarrow>
      \<exists>wk. sat_loop blake3 pr e ph (pure_keyer kf) b current consumed work hidden visited () =
        (Some (Realizing (sobservation st) nxt hidden, consumed @ [st], wk), ())"
    unfolding run by simp
  show "op_label (pr_profile pr) st = Inr Administrative \<Longrightarrow> bt_get visited (project nxt) = None \<Longrightarrow>
      length visited < unat (max_administrative_states b) \<Longrightarrow> hidden + 1 \<le> unat (max_hidden_steps b) \<Longrightarrow>
      \<exists>wk. sat_loop blake3 pr e ph (pure_keyer kf) b current consumed work hidden visited () =
        sat_loop blake3 pr e ph (pure_keyer kf) b nxt (consumed @ [st]) wk (hidden + 1)
          (bt_insert (project nxt) (record_visit pr nxt (length (consumed @ [st]))) visited) ()"
    unfolding run by (rule exI[of _ "fold_cost work cost"]) simp
qed

lemma hides_length_take: "hides blake3 pr keyer ph e sts e1 \<Longrightarrow> i \<le> length sts \<Longrightarrow> \<exists>e2. hides blake3 pr keyer ph e (take i sts) e2"
  using hides_trail by blast

lemma sat_step_reaches:
  assumes "hides blake3 pr (pure_keyer kf) ph e sts e1" "fresh_path blake3 pr (pure_keyer kf) ph e sts"
    and "length sts \<le> unat (max_hidden_steps b)" "length sts = 0 \<or> length sts < unat (max_administrative_states b)"
  shows "\<exists>wk visited. sat_step blake3 pr e ph (pure_keyer kf) b () =
      sat_loop blake3 pr e ph (pure_keyer kf) b e1 sts wk (length sts) visited () \<and> length visited = length sts + 1 \<and>
      visits visited \<subseteq> {project e2 | e2 i. i \<le> length sts \<and> hides blake3 pr (pure_keyer kf) ph e (take i sts) e2}"
  using assms
proof (induction rule: hides.induct)
  case hides_nil
  have "visits (bt_insert (project e) (record_visit pr e 0) []) = {project e}" by (auto simp: visits_insert visits_def bt_get_def split: if_splits)
  then have "visits (bt_insert (project e) (record_visit pr e 0) []) \<subseteq>
      {project e2 | e2 i. i \<le> length ([] :: committed_step list) \<and> hides blake3 pr (pure_keyer kf) ph e (take i []) e2}"
    using hides.hides_nil[of blake3 pr "pure_keyer kf" ph e] by fastforce
  then show ?case unfolding sat_step_def
    by (intro exI[of _ "Some 0"] exI[of _ "bt_insert (project e) (record_visit pr e 0) []"]) simp
next
  case (hides_snoc sts e1 st e2)
  let ?K = "pure_keyer kf :: unit keyer"
  have fr: "fresh_path blake3 pr ?K ph e sts"
    using hides_snoc.prems(1) unfolding fresh_path_def by (auto simp: less_Suc_eq_le)
  obtain wk visited where w: "sat_step blake3 pr e ph ?K b () = sat_loop blake3 pr e ph ?K b e1 sts wk (length sts) visited ()"
    "length visited = length sts + 1"
    "visits visited \<subseteq> {project e2 | e2 i. i \<le> length sts \<and> hides blake3 pr ?K ph e (take i sts) e2}"
    using hides_snoc.IH fr hides_snoc.prems(2,3) by auto
  have h: "hides blake3 pr ?K ph e (sts @ [st]) e2" using hides_snoc.hyps by (rule hides.hides_snoc)
  have "project e2 \<notin> visits visited"
  proof
    assume "project e2 \<in> visits visited"
    then obtain e3 i where i: "project e2 = project e3" "i \<le> length sts" "hides blake3 pr ?K ph e (take i sts) e3"
      using w(3) by blast
    have "project e3 \<noteq> project e2"
      using hides_snoc.prems(1)[unfolded fresh_path_def, rule_format, of i "length (sts @ [st])" e3 e2] i(2,3) h by simp
    then show False using i(1) by simp
  qed
  then have none: "bt_get visited (project e2) = None" by (auto simp: visits_def dom_def)
  obtain wk' where w': "sat_loop blake3 pr e ph ?K b e1 sts wk (length sts) visited () =
      sat_loop blake3 pr e ph ?K b e2 (sts @ [st]) wk' (length sts + 1)
        (bt_insert (project e2) (record_visit pr e2 (length (sts @ [st]))) visited) ()"
    using sat_loop_gamma(2)[OF hides_snoc.hyps(2,3) none, of b "length sts" e wk] w(2) hides_snoc.prems(2,3) by auto
  have "visits (bt_insert (project e2) (record_visit pr e2 (length (sts @ [st]))) visited) \<subseteq>
      {project e3 | e3 i. i \<le> length (sts @ [st]) \<and> hides blake3 pr ?K ph e (take i (sts @ [st])) e3}" (is "_ \<subseteq> ?V")
  proof -
    have "project e2 \<in> ?V" using h by (auto intro!: exI[of _ e2] exI[of _ "length (sts @ [st])"])
    moreover have "visits visited \<subseteq> ?V"
    proof
      fix v assume "v \<in> visits visited"
      then obtain e3 i where i: "v = project e3" "i \<le> length sts" "hides blake3 pr ?K ph e (take i sts) e3" using w(3) by blast
      then show "v \<in> ?V" by (auto intro!: exI[of _ e3] exI[of _ i])
    qed
    ultimately show ?thesis by (simp add: visits_insert)
  qed
  then show ?case using w(1,2) w' length_bt_insert[OF none]
    by (intro exI[of _ wk'] exI[of _ "bt_insert (project e2) (record_visit pr e2 (length (sts @ [st]))) visited"]) simp
qed


section \<open>Demonstration systems\<close>

definition demo_partition :: generator_partition where
  "demo_partition = \<lparr>administrative = {[1]}, realizing = {[2]}\<rparr>"

definition presented :: "(bytes \<Rightarrow> bytes) \<Rightarrow> digest \<Rightarrow> interner \<Rightarrow> settlement_provider list \<Rightarrow> presentation" where
  "presented blake3 z it ps = \<lparr>pr_id = z, pr_regimes = ps, pr_regime_set = z, pr_adm = AdmAll, pr_adm_id = z,
     pr_profile = partition_profile blake3 demo_partition, pr_interner = it, pr_context = z, pr_assumptions = assumptions_all\<rparr>"

abbreviation demo_presentation :: "(bytes \<Rightarrow> bytes) \<Rightarrow> settlement_provider list \<Rightarrow> presentation" where
  "demo_presentation blake3 ps \<equiv> presented blake3 [] demo_interner ps"

lemma presented_simps [simp]:
  "pr_regimes (presented blake3 z it ps) = ps" "pr_adm (presented blake3 z it ps) = AdmAll"
  "pr_interner (presented blake3 z it ps) = it" "pr_context (presented blake3 z it ps) = z"
  "pr_profile (presented blake3 z it ps) = partition_profile blake3 demo_partition"
  "pr_assumptions (presented blake3 z it ps) = assumptions_all"
  by (simp_all add: presented_def)

lemma demo_label:
  "generators (sdecomposition st) = [[1]] \<Longrightarrow> op_label (partition_profile blake3 demo_partition) st = Inr Administrative"
  "generators (sdecomposition st) = [[2]] \<Longrightarrow> op_label (partition_profile blake3 demo_partition) st = Inr RealizingLabel"
  by (simp_all add: partition_profile_def partition_label_def demo_partition_def Let_def)

lemma demo_resolvable: "policy e = 0 \<Longrightarrow> world e = 0 \<Longrightarrow> resolvable demo_interner e"
  by (simp add: resolvable_def demo_interner_resolve)

text \<open>A world with one candidate, which stays there; \<open>g\<close> picks the generator.\<close>

definition spin :: candidate where
  "spin = \<lparr>cwitness = 10, successor = 0\<rparr>"

definition spin_provider :: "(exec_config \<Rightarrow> generator_id) \<Rightarrow> settlement_provider" where
  "spin_provider g = \<lparr>sp_candidates = (\<lambda>e. [spin]),
     sp_decompose = (\<lambda>e c. Inr \<lparr>generators = [g e], configs = [[5], [5]], verification = Recorded\<rparr>)\<rparr>"

lemma spin_tick:
  assumes "world e = 0" "try_resolve it 0 = Some d"
  shows "\<exists>st. try_commit_tick blake3 [spin_provider g] AdmAll it e ctx ph (pure_keyer demo_key) () =
     (Inr (Step (sobservation st) (apply_candidate blake3 e spin), Some st, Steps 2), ()) \<and> generators (sdecomposition st) = [g e]"
  using assms
  by (simp add: try_commit_tick_def spin_provider_def spin_def AdmAll_def tick_new_def frontier_insert_def
      bt_get_def select_least_def Let_def try_commit_selected_def publish_derived
      map_err_def prospective_successor_def)

lemma spin_certified:
  assumes "world e = 0" "policy e = 0" "g e = [1]" and it: "try_resolve it 0 = Some d"
  shows "\<exists>c sts cost. sat_step blake3 (presented blake3 z it [spin_provider g]) e 0 (pure_keyer demo_key) (budget_uniform 8) () =
    (Some (SatDivergent c, sts, cost), ())"
proof -
  let ?pr = "presented blake3 z it [spin_provider g]" and ?e = "apply_candidate blake3 e spin"
  obtain st where t: "try_commit_tick blake3 [spin_provider g] AdmAll it e z (saturating_add_u64 0 0) (pure_keyer demo_key) () =
     (Inr (Step (sobservation st) ?e, Some st, Steps 2), ())" "generators (sdecomposition st) = [g e]"
    using spin_tick[OF assms(1) it] by blast
  have cands: "fst (enumerate_admissible [spin_provider g] AdmAll e') = {spin}" for e'
    by (simp add: enumerate_admissible_def spin_provider_def AdmAll_def)
  have we: "world ?e = 0" "policy ?e = 0" using assms by (simp_all add: apply_candidate_def spin_def)
  have pe: "project ?e = project e" using assms we by (simp add: project_def)
  have "\<exists>c. close_lasso blake3 ?pr e ?e [st] (record_visit ?pr e 0) 0 (pure_keyer demo_key) () = (Some (SatDivergent c), ())"
    using assms we
    by (simp add: close_lasso_def cands record_visit_def assumptions_all_def candidates_in_order_def demo_key_def it Let_def)
  then obtain c where c: "close_lasso blake3 ?pr e ?e [st] (record_visit ?pr e 0) 0 (pure_keyer demo_key) () = (Some (SatDivergent c), ())"
    by blast
  have v: "bt_get (bt_insert (project e) (record_visit ?pr e 0) []) (project ?e) = Some (record_visit ?pr e 0)"
    by (simp add: pe bt_get_def)
  note run = sat_loop.simps[of blake3 ?pr e 0 "pure_keyer demo_key" "budget_uniform 8" e "[]" "Some 0" 0
      "bt_insert (project e) (record_visit ?pr e 0) []" "()",
      unfolded presented_simps list.size t(1) prod.case sum.case committed.case option.case Let_def
        demo_label(1)[OF t(2)[unfolded assms(3)]] step_label.case append_Nil v c option.map]
  show ?thesis unfolding sat_step_def run by simp
qed


text \<open>One administrative tick from world 0 to world 2, where the frontier is empty.\<close>

lemma demo_hides:
  "\<exists>st. hides blake3 (demo_presentation blake3 [demo_provider]) (pure_keyer demo_key) ph demo_config [st]
     (apply_candidate blake3 demo_config \<lparr>cwitness = 11, successor = 2\<rparr>)"
proof -
  let ?pr = "demo_presentation blake3 [demo_provider]" and ?e = "apply_candidate blake3 demo_config \<lparr>cwitness = 11, successor = 2\<rparr>"
  obtain st where t: "try_commit_tick blake3 [demo_provider] AdmAll demo_interner demo_config [] (saturating_add_u64 ph 0) (pure_keyer demo_key) () =
     (Inr (Step (sobservation st) ?e, Some st, Steps 3), ())"
    and d: "sdecomposition st = \<lparr>generators = [[1]], configs = [[5], [7]], verification = Recorded\<rparr>"
    using demo_tick[of blake3 "saturating_add_u64 ph 0"] by blast
  have g: "gamma blake3 ?pr (pure_keyer demo_key) (saturating_add_u64 ph (length ([] :: committed_step list))) demo_config st ?e"
    using t by (simp add: gamma_def)
  have "hides blake3 ?pr (pure_keyer demo_key) ph demo_config ([] @ [st]) ?e"
    by (rule hides_snoc[OF hides_nil g]) (simp add: demo_label d)
  then show ?thesis by auto
qed

section \<open>Properties\<close>

text \<open>
  C28. The saturated step returns: with handles that resolve and providers that do not abort, no
  input makes it panic, and it takes at most one tick more than the hidden budget and no more ticks than the
  state budget (one, where that is 0).
\<close>

theorem sat_step_returns:
  assumes "resolvable (pr_interner pr) e" and "panic_free (pr_regimes pr)"
  shows "\<exists>r sts cost s'. sat_step blake3 pr e ph keyer b s = (Some (r, sts, cost), s') \<and>
    length sts \<le> unat (max_hidden_steps b) + 1 \<and> length sts \<le> max 1 (unat (max_administrative_states b))"
proof -
  let ?v = "bt_insert (project e) (record_visit pr e 0) []"
  have "visits_recorded pr ?v" by (rule visits_recorded_insert) (simp add: visits_recorded_def bt_get_def)
  then have "fst (sat_step blake3 pr e ph keyer b s) \<noteq> None" unfolding sat_step_def by (rule sat_loop_total[OF assms assms(1)])
  then obtain r sts cost s' where run: "sat_step blake3 pr e ph keyer b s = (Some (r, sts, cost), s')"
    by (cases "sat_step blake3 pr e ph keyer b s") auto
  from sat_loop_claim[OF sat_inv_start run[unfolded sat_step_def]] run show ?thesis by blast
qed

theorem sat_step_returns_witness:
  "\<exists>r sts cost s'. sat_step id (demo_presentation id [spin_provider (\<lambda>_. [1])]) demo_config 0 (pure_keyer demo_key) (budget_uniform 8) () =
    (Some (r, sts, cost), s') \<and> length sts \<le> 9"
proof -
  have "resolvable demo_interner demo_config" by (rule demo_resolvable) (simp_all add: demo_config_def)
  moreover have "panic_free [spin_provider (\<lambda>_. [1])]" by (simp add: panic_free_def spin_provider_def)
  ultimately have "\<exists>r sts cost s'. sat_step id (demo_presentation id [spin_provider (\<lambda>_. [1])]) demo_config 0 (pure_keyer demo_key)
      (budget_uniform 8) () = (Some (r, sts, cost), s') \<and> length sts \<le> unat (max_hidden_steps (budget_uniform 8)) + 1 \<and>
      length sts \<le> max 1 (unat (max_administrative_states (budget_uniform 8)))"
    by (intro sat_step_returns) simp_all
  then show ?thesis by (auto simp: budget_uniform_def)
qed

text \<open>
  C22. What a saturated step returns is true of the ticks it returns with: a realizing observation is that of
  a tick which follows administrative ones only; a quiescence certificate is built at a configuration
  that those ticks reach and whose admissible frontier is empty; a divergence certificate names a path of
  administrative ticks that comes back to an earlier world and policy; the ticks of every other answer are an
  administrative path, but for the last one where the profile has no label for it.
\<close>

theorem sat_step_sound:
  assumes "sat_step blake3 pr e ph keyer b s = (Some (r, sts, cost), s')"
  shows "sat_claim blake3 pr keyer ph e r sts"
  using sat_loop_claim[OF sat_inv_start assms[unfolded sat_step_def]] by blast

theorem sat_step_sound_witness:
  "\<exists>c sts. sat_claim id (demo_presentation id [spin_provider (\<lambda>_. [1])]) (pure_keyer demo_key) 0 demo_config (SatDivergent c) sts"
proof -
  obtain c sts cost where "sat_step id (demo_presentation id [spin_provider (\<lambda>_. [1])]) demo_config 0 (pure_keyer demo_key)
      (budget_uniform 8) () = (Some (SatDivergent c, sts, cost), ())"
    using spin_certified[OF _ _ _ demo_interner_resolve(1), of demo_config "\<lambda>_. [1]" id "[]"] by (auto simp: demo_config_def)
  from sat_step_sound[OF this] show ?thesis by blast
qed

text \<open>
  C27. Enough budget finds the answer: where administrative ticks lead through pairwise different
  pairs of world and policy (\<open>fresh_path\<close>), their number is within the hidden budget and below the state
  budget, and the handles of the start resolve, a realizing tick after them is exported with their number,
  and an empty frontier after them is certified. On a path that comes back to a pair the step stops at the lasso instead.
\<close>

theorem sat_step_complete:
  assumes path: "hides blake3 pr (pure_keyer kf) ph e sts e1" "fresh_path blake3 pr (pure_keyer kf) ph e sts"
    and budget: "length sts \<le> unat (max_hidden_steps b)" "length sts = 0 \<or> length sts < unat (max_administrative_states b)"
    and handles: "resolvable (pr_interner pr) e"
  shows "(\<forall>st nxt. gamma blake3 pr (pure_keyer kf) (saturating_add_u64 ph (length sts)) e1 st nxt \<longrightarrow>
      op_label (pr_profile pr) st = Inr RealizingLabel \<longrightarrow>
      (\<exists>cost. sat_step blake3 pr e ph (pure_keyer kf) b () = (Some (Realizing (sobservation st) nxt (length sts), sts @ [st], cost), ()))) \<and>
    (cand (map sp_candidates (pr_regimes pr)) (pr_adm pr) e1 = {} \<longrightarrow>
      (\<exists>c cost. sat_step blake3 pr e ph (pure_keyer kf) b () = (Some (SatQuiescent c, sts, cost), ()) \<and>
         make_quiescence_certificate blake3 pr e e1 sts = Some c))"
proof -
  obtain wk visited where w: "sat_step blake3 pr e ph (pure_keyer kf) b () =
      sat_loop blake3 pr e ph (pure_keyer kf) b e1 sts wk (length sts) visited ()"
    using sat_step_reaches[OF path budget] by blast
  have "resolvable (pr_interner pr) e1" using path(1) handles by (induction rule: hides.induct) (auto dest: gamma_resolvable)
  then obtain c where c: "make_quiescence_certificate blake3 pr e e1 sts = Some c"
    using make_quiescence_total[OF handles] by blast
  have "\<exists>cost. sat_step blake3 pr e ph (pure_keyer kf) b () = (Some (SatQuiescent c, sts, cost), ())"
    if none: "cand (map sp_candidates (pr_regimes pr)) (pr_adm pr) e1 = {}"
  proof -
    obtain cost where t: "try_commit_tick blake3 (pr_regimes pr) (pr_adm pr) (pr_interner pr) e1 (pr_context pr)
        (saturating_add_u64 ph (length sts)) (pure_keyer kf) () = (Inr (Quiescent, None, cost), ())"
      using tick_empty[OF none] by blast
    show ?thesis unfolding w sat_loop.simps[of blake3 pr e ph "pure_keyer kf" b e1 sts wk "length sts" visited "()"] Let_def t
      by (simp add: c)
  qed
  moreover have "\<exists>cost. sat_step blake3 pr e ph (pure_keyer kf) b () =
      (Some (Realizing (sobservation st) nxt (length sts), sts @ [st], cost), ())"
    if "gamma blake3 pr (pure_keyer kf) (saturating_add_u64 ph (length sts)) e1 st nxt" "op_label (pr_profile pr) st = Inr RealizingLabel"
    for st nxt
    unfolding w using sat_loop_gamma(1)[OF that] .
  ultimately show ?thesis using c by blast
qed

theorem sat_step_complete_witness:
  "\<exists>c st cost. sat_step id (demo_presentation id [demo_provider]) demo_config 0 (pure_keyer demo_key) (budget_uniform 8) () =
     (Some (SatQuiescent c, [st], cost), ())"
proof -
  let ?pr = "demo_presentation id [demo_provider]" and ?K = "pure_keyer demo_key :: unit keyer"
  let ?e = "apply_candidate id demo_config \<lparr>cwitness = 11, successor = 2\<rparr>"
  obtain st where h: "hides id ?pr ?K 0 demo_config [st] ?e" using demo_hides by blast
  have "fresh_path id ?pr ?K 0 demo_config [st]"
    unfolding fresh_path_def
  proof (intro allI impI)
    fix i j e2 e3
    assume i: "i < j" "j \<le> length [st]" and p: "hides id ?pr ?K 0 demo_config (take i [st]) e2" "hides id ?pr ?K 0 demo_config (take j [st]) e3"
    then have ij: "i = 0" "j = 1" by auto
    have "e2 = demo_config" using p(1) unfolding ij by (auto elim: hides_NilE)
    moreover have "e3 = ?e" using p(2) hides_det[OF h] unfolding ij by simp
    ultimately show "project e2 \<noteq> project e3" by (simp add: project_def demo_config_def apply_candidate_def)
  qed
  moreover have "resolvable demo_interner demo_config" by (rule demo_resolvable) (simp_all add: demo_config_def)
  ultimately have "cand (map sp_candidates (pr_regimes ?pr)) (pr_adm ?pr) ?e = {} \<longrightarrow>
      (\<exists>c cost. sat_step id ?pr demo_config 0 ?K (budget_uniform 8) () = (Some (SatQuiescent c, [st], cost), ()) \<and>
         make_quiescence_certificate id ?pr demo_config ?e [st] = Some c)"
    using sat_step_complete[OF h, of "budget_uniform 8"] by (simp add: budget_uniform_def)
  moreover have "cand (map sp_candidates (pr_regimes ?pr)) (pr_adm ?pr) ?e = {}"
    by (auto simp: cand_iff demo_provider_def apply_candidate_def)
  ultimately show ?thesis by blast
qed

text \<open>
  C24. Certified divergence is divergence: with candidates, admissibility, decompositions and labels
  that do not read the history, and keys that read the phase in their phase component only, the
  configuration a divergence certificate was issued for takes administrative ticks for ever.
\<close>

theorem divergence_sound:
  assumes "history_blind pr" "decomposition_blind pr" "label_blind pr" "phase_stable kf"
    and "sat_step blake3 pr e ph (pure_keyer kf) b () = (Some (SatDivergent c, sts, cost), s')"
  shows "diverges blake3 pr (pure_keyer kf) ph e"
proof -
  have "sat_claim blake3 pr (pure_keyer kf) ph e (SatDivergent c) sts"
    using sat_loop_claim[OF sat_inv_start assms(5)[unfolded sat_step_def]] by blast
  then obtain pre suf e1 e2 where "sts = pre @ suf" "suf \<noteq> []" "hides blake3 pr (pure_keyer kf) ph e pre e1"
    "hides blake3 pr (pure_keyer kf) ph e sts e2" "project e1 = project e2"
    unfolding sat_claim_def saturated_step.case by blast
  then show ?thesis using lasso_diverges[OF assms(1-4)] by blast
qed

lemma spin_blind:
  "history_blind (presented blake3 z it [spin_provider g])" "label_blind (presented blake3 z it [spin_provider g])"
  "phase_stable demo_key"
  by (simp_all add: history_blind_def spin_provider_def AdmAll_def fun_eq_iff partition_label_blind[of _ blake3 demo_partition]
      phase_stable_def demo_key_def rk_def)

theorem divergence_sound_witness:
  "diverges id (demo_presentation id [spin_provider (\<lambda>_. [1])]) (pure_keyer demo_key) 0 demo_config"
proof -
  obtain c sts cost where run: "sat_step id (demo_presentation id [spin_provider (\<lambda>_. [1])]) demo_config 0 (pure_keyer demo_key)
      (budget_uniform 8) () = (Some (SatDivergent c, sts, cost), ())"
    using spin_certified[OF _ _ _ demo_interner_resolve(1), of demo_config "\<lambda>_. [1]" id "[]"] by (auto simp: demo_config_def)
  have "decomposition_blind (demo_presentation id [spin_provider (\<lambda>_. [1])])"
    by (simp add: decomposition_blind_def spin_provider_def)
  from divergence_sound[OF spin_blind(1) this spin_blind(2,3) run] show ?thesis .
qed

text \<open>
  The hypothesis on decompositions is needed and not declared: a provider whose candidates and keys
  satisfy both declared hypotheses, but whose decomposition reads the history, gets a divergence
  certificate although its second tick is realizing.
\<close>

theorem divergence_needs_decomposition:
  "\<exists>blake3 pr kf e b c sts cost. history_blind pr \<and> label_blind pr \<and> phase_stable kf \<and>
     sat_step blake3 pr e 0 (pure_keyer kf) b () = (Some (SatDivergent c, sts, cost), ()) \<and>
     \<not> diverges blake3 pr (pure_keyer kf) 0 e"
proof -
  let ?h = "\<lambda>_. replicate 32 9" and ?g = "\<lambda>e. if ehistory e = [] then [1] else [2]"
  let ?pr = "demo_presentation ?h [spin_provider ?g]" and ?e = "apply_candidate ?h demo_config spin"
  obtain c sts cost where run: "sat_step ?h ?pr demo_config 0 (pure_keyer demo_key) (budget_uniform 8) () = (Some (SatDivergent c, sts, cost), ())"
    using spin_certified[OF _ _ _ demo_interner_resolve(1), of demo_config ?g ?h "[]"] by (auto simp: demo_config_def)
  have h: "ehistory ?e \<noteq> []"
    by (simp add: apply_candidate_def next_history_def history_append_def writer_digest_def digest_of_def)
  obtain st1 where t1: "gamma ?h ?pr (pure_keyer demo_key) 0 demo_config st1 ?e"
    using spin_tick[OF _ demo_interner_resolve(1), of demo_config ?h ?g "[]" 0] by (auto simp: gamma_def demo_config_def)
  have "world ?e = 0" by (simp add: apply_candidate_def spin_def)
  from spin_tick[OF this demo_interner_resolve(1), of ?h ?g "[]" "saturating_add_u64 0 1"] obtain st2
    where t2: "gamma ?h ?pr (pure_keyer demo_key) (saturating_add_u64 0 1) ?e st2 (apply_candidate ?h ?e spin)"
      "generators (sdecomposition st2) = [?g ?e]"
    by (auto simp: gamma_def)
  have l2: "op_label (pr_profile ?pr) st2 = Inr RealizingLabel" using demo_label(2) t2(2) h by simp
  have "\<not> diverges ?h ?pr (pure_keyer demo_key) 0 demo_config"
  proof
    assume "diverges ?h ?pr (pure_keyer demo_key) 0 demo_config"
    then obtain st e1 where d1: "gamma ?h ?pr (pure_keyer demo_key) 0 demo_config st e1"
      "diverges ?h ?pr (pure_keyer demo_key) (saturating_add_u64 0 1) e1" by (rule diverges.cases) blast
    have "diverges ?h ?pr (pure_keyer demo_key) (saturating_add_u64 0 1) ?e" using gamma_det[OF d1(1) t1] d1(2) by simp
    then obtain st e2 where d2: "gamma ?h ?pr (pure_keyer demo_key) (saturating_add_u64 0 1) ?e st e2"
      "op_label (pr_profile ?pr) st = Inr Administrative" by (rule diverges.cases) blast
    then show False using gamma_det[OF d2(1) t2(1)] l2 by simp
  qed
  then show ?thesis using run spin_blind by blast
qed

end
