(* ===== verification/Sat_Certificate.thy ===== *)
theory Sat_Certificate
  imports Sat_Runs
begin

text \<open>
  The certificates of the saturated step (\<open>crates/soc-core/src/saturate/certificate.rs\<close>): their
  envelopes, the readers, and the two checkers, which compare a certificate with a presentation and the
  recorded steps. \<open>None\<close> is the panic of an index out of bounds.
\<close>

section \<open>Envelopes\<close>

definition QUIESCENCE_MARKER :: bytes where
  "QUIESCENCE_MARKER = as_bytes ''brix.soc.quiescence''"

definition DIVERGENCE_MARKER :: bytes where
  "DIVERGENCE_MARKER = as_bytes ''brix.soc.divergence''"

definition SAT_CERTIFICATE_FORMAT_V1 :: u64 where
  "SAT_CERTIFICATE_FORMAT_V1 = 1"

definition SATURATION_PROFILE_V1 :: string where
  "SATURATION_PROFILE_V1 = ''brix.soc.saturation@1''"

fun completeness_ordinal :: "enumeration_completeness \<Rightarrow> u64" where
  "completeness_ordinal Complete = 0"

definition completeness_from_ordinal :: "u64 \<Rightarrow> enumeration_completeness option" where
  "completeness_from_ordinal n = (if n = 0 then Some Complete else None)"

fun assumption_ordinal :: "assumption_mode \<Rightarrow> u64" where
  "assumption_ordinal DeclaredP1P6 = 0"

definition assumption_from_ordinal :: "u64 \<Rightarrow> assumption_mode option" where
  "assumption_from_ordinal n = (if n = 0 then Some DeclaredP1P6 else None)"

datatype cert_envelope_error =
    SatBadMarker
  | SatUnknownVersion u64
  | UnknownSaturationProfile
  | ObservationProfileMismatch
  | SatContextMismatch
  | PresentationMismatch
  | UnknownEnumerationOrdinal u64
  | UnknownAssumptionOrdinal u64
  | UnknownOutcomeOrdinal u64
  | QuiescenceGradeNotDerived
  | DivergenceGradeNotUnknown
  | ZeroCycleLength
  | LassoLengthOverflow
  | SatTruncated
  | SatBadLength
  | SatNonMinimalInt
  | SatTrailingBytes

fun envelope_error_of_canon :: "canon_error \<Rightarrow> cert_envelope_error" where
  "envelope_error_of_canon UnexpectedEof = SatTruncated"
| "envelope_error_of_canon NonMinimalInt = SatNonMinimalInt"
| "envelope_error_of_canon BadLength = SatBadLength"

fun write_digests :: "digest list \<Rightarrow> canon_writer \<Rightarrow> canon_writer" where
  "write_digests [] w = w"
| "write_digests (d # ds) w = write_digests ds (write_bytes d w)"

definition encode_quiescence_v1 :: "quiescence_certificate \<Rightarrow> bytes" where
  "encode_quiescence_v1 c =
     (let w = write_bytes QUIESCENCE_MARKER canon_new;
          w = write_uint SAT_CERTIFICATE_FORMAT_V1 w;
          w = write_str SATURATION_PROFILE_V1 w;
          w = write_bytes (qc_profile c) w;
          w = write_bytes (qc_context c) w;
          w = write_bytes (qc_presentation c) w;
          w = write_bytes (qc_policy c) w;
          w = write_bytes (qc_src_world c) w;
          w = write_bytes (qc_terminal_world c) w;
          w = write_uint (word_of_nat (length (qc_hidden c))) w;
          w = write_digests (qc_hidden c) w;
          w = write_bytes (qc_prefix_chain c) w;
          w = write_bytes (qc_regime_set c) w;
          w = write_bytes (qc_adm_id c) w;
          w = write_uint (completeness_ordinal (qc_enumeration c)) w;
          w = canon_write_outcome (qc_grade c) w;
          w = write_bytes (qc_judgement c) w
      in finish w)"

definition quiescence_certificate_id :: "(bytes \<Rightarrow> bytes) \<Rightarrow> quiescence_certificate \<Rightarrow> digest" where
  "quiescence_certificate_id blake3 c = digest_of blake3 Value (encode_quiescence_v1 c)"

definition encode_divergence_v1 :: "divergence_certificate \<Rightarrow> bytes" where
  "encode_divergence_v1 c =
     (let w = write_bytes DIVERGENCE_MARKER canon_new;
          w = write_uint SAT_CERTIFICATE_FORMAT_V1 w;
          w = write_str SATURATION_PROFILE_V1 w;
          w = write_bytes (dc_profile c) w;
          w = write_bytes (dc_context c) w;
          w = write_bytes (dc_presentation c) w;
          w = write_bytes (dc_policy c) w;
          w = write_bytes (dc_src_world c) w;
          w = write_uint (dc_stem c) w;
          w = write_uint (dc_cycle c) w;
          w = write_digests (dc_lasso c) w;
          w = write_bytes (dc_cycle_world c) w;
          w = write_bytes (dc_cycle_policy c) w;
          w = write_uint (assumption_ordinal (dc_assumptions c)) w;
          w = canon_write_outcome (dc_grade c) w
      in finish w)"

definition divergence_certificate_id :: "(bytes \<Rightarrow> bytes) \<Rightarrow> divergence_certificate \<Rightarrow> digest" where
  "divergence_certificate_id blake3 c = digest_of blake3 Value (encode_divergence_v1 c)"

section \<open>Readers\<close>

type_synonym 'a cert_read = "canon_reader \<Rightarrow> (cert_envelope_error + 'a) \<times> canon_reader"

definition sat_read_digest :: "digest cert_read" where
  "sat_read_digest =
     rbind (rmap_err envelope_error_of_canon read_bytes) (\<lambda>b. if length b \<noteq> 32 then rfail SatBadLength else rret b)"

record sat_prelude =
  sp_profile :: digest
  sp_context :: context_id
  sp_presentation :: digest
  sp_policy :: config_id
  sp_src_world :: config_id

definition read_prelude :: "bytes \<Rightarrow> sat_prelude cert_read" where
  "read_prelude marker =
     rbind (rmap_err envelope_error_of_canon read_bytes) (\<lambda>m.
     if m \<noteq> marker then rfail SatBadMarker else
     rbind (rmap_err envelope_error_of_canon read_uint) (\<lambda>version.
     if version \<noteq> SAT_CERTIFICATE_FORMAT_V1 then rfail (SatUnknownVersion version) else
     rbind (rmap_err envelope_error_of_canon read_bytes) (\<lambda>profile.
     if profile \<noteq> as_bytes SATURATION_PROFILE_V1 then rfail UnknownSaturationProfile else
     rbind sat_read_digest (\<lambda>profile.
     rbind sat_read_digest (\<lambda>context.
     rbind sat_read_digest (\<lambda>presentation.
     rbind sat_read_digest (\<lambda>policy.
     rbind sat_read_digest (\<lambda>src_world.
     rret \<lparr>sp_profile = profile, sp_context = context, sp_presentation = presentation, sp_policy = policy,
           sp_src_world = src_world\<rparr>))))))))"

definition outcome_of_ordinal :: "u64 \<Rightarrow> outcome option" where
  "outcome_of_ordinal n = map_of [(0, Proven), (1, Refuted), (2, Derived), (3, Measured), (4, Unknown), (5, Audited)] n"

definition read_grade :: "outcome cert_read" where
  "read_grade =
     rbind (rmap_err envelope_error_of_canon read_uint) (\<lambda>n.
       case outcome_of_ordinal n of Some g \<Rightarrow> rret g | None \<Rightarrow> rfail (UnknownOutcomeOrdinal n))"

text \<open>The reads of a counted list; the loop counts down from the number that was read.\<close>

fun read_digests :: "nat \<Rightarrow> digest list cert_read" where
  "read_digests 0 = rret []"
| "read_digests (Suc n) = rbind sat_read_digest (\<lambda>d. rbind (read_digests n) (\<lambda>ds. rret (d # ds)))"

definition quiescence_fields :: "quiescence_certificate cert_read" where
  "quiescence_fields =
     rbind (read_prelude QUIESCENCE_MARKER) (\<lambda>prelude.
     rbind sat_read_digest (\<lambda>terminal_world.
     rbind (rmap_err envelope_error_of_canon read_uint) (\<lambda>count.
     rbind (read_digests (unat count)) (\<lambda>hidden.
     rbind sat_read_digest (\<lambda>prefix_chain.
     rbind sat_read_digest (\<lambda>regime_set.
     rbind sat_read_digest (\<lambda>adm_id.
     rbind (rmap_err envelope_error_of_canon read_uint) (\<lambda>ordinal.
     case completeness_from_ordinal ordinal of None \<Rightarrow> rfail (UnknownEnumerationOrdinal ordinal) | Some enumeration \<Rightarrow>
     rbind read_grade (\<lambda>grade.
     if grade \<noteq> Derived then rfail QuiescenceGradeNotDerived else
     rbind sat_read_digest (\<lambda>judgement.
     rret \<lparr>qc_profile = sp_profile prelude, qc_context = sp_context prelude, qc_presentation = sp_presentation prelude,
       qc_policy = sp_policy prelude, qc_src_world = sp_src_world prelude, qc_terminal_world = terminal_world,
       qc_hidden = hidden, qc_prefix_chain = prefix_chain, qc_regime_set = regime_set, qc_adm_id = adm_id,
       qc_enumeration = enumeration, qc_grade = grade, qc_judgement = judgement\<rparr>))))))))))"

definition decode_quiescence_v1 :: "bytes \<Rightarrow> cert_envelope_error + quiescence_certificate" where
  "decode_quiescence_v1 bs =
     (case quiescence_fields (reader_new bs) of
        (Inl e, r) \<Rightarrow> Inl e
      | (Inr c, r) \<Rightarrow> if \<not> reader_is_empty r then Inl SatTrailingBytes else Inr c)"

definition divergence_fields :: "divergence_certificate cert_read" where
  "divergence_fields =
     rbind (read_prelude DIVERGENCE_MARKER) (\<lambda>prelude.
     rbind (rmap_err envelope_error_of_canon read_uint) (\<lambda>stem.
     rbind (rmap_err envelope_error_of_canon read_uint) (\<lambda>cycle.
     if cycle = 0 then rfail ZeroCycleLength else
     if unat stem + unat cycle \<ge> 2 ^ 64 then rfail LassoLengthOverflow else
     rbind (read_digests (unat (stem + cycle))) (\<lambda>lasso.
     rbind sat_read_digest (\<lambda>cycle_world.
     rbind sat_read_digest (\<lambda>cycle_policy.
     rbind (rmap_err envelope_error_of_canon read_uint) (\<lambda>ordinal.
     case assumption_from_ordinal ordinal of None \<Rightarrow> rfail (UnknownAssumptionOrdinal ordinal) | Some assumptions \<Rightarrow>
     rbind read_grade (\<lambda>grade.
     if grade \<noteq> Unknown then rfail DivergenceGradeNotUnknown else
     rret \<lparr>dc_profile = sp_profile prelude, dc_context = sp_context prelude, dc_presentation = sp_presentation prelude,
       dc_policy = sp_policy prelude, dc_src_world = sp_src_world prelude, dc_stem = stem, dc_cycle = cycle, dc_lasso = lasso,
       dc_cycle_world = cycle_world, dc_cycle_policy = cycle_policy, dc_assumptions = assumptions, dc_grade = grade\<rparr>))))))))"

definition decode_divergence_v1 :: "bytes \<Rightarrow> cert_envelope_error + divergence_certificate" where
  "decode_divergence_v1 bs =
     (case divergence_fields (reader_new bs) of
        (Inl e, r) \<Rightarrow> Inl e
      | (Inr c, r) \<Rightarrow> if \<not> reader_is_empty r then Inl SatTrailingBytes else Inr c)"

definition check_binding ::
  "context_id \<Rightarrow> digest \<Rightarrow> digest \<Rightarrow> context_id \<Rightarrow> digest \<Rightarrow> digest \<Rightarrow> cert_envelope_error + unit" where
  "check_binding context profile presentation expected_context expected_profile expected_presentation =
     (if context \<noteq> expected_context then Inl SatContextMismatch
      else if profile \<noteq> expected_profile then Inl ObservationProfileMismatch
      else if presentation \<noteq> expected_presentation then Inl PresentationMismatch
      else Inr ())"

definition validate_quiescence_v1 ::
  "(bytes \<Rightarrow> bytes) \<Rightarrow> bytes \<Rightarrow> context_id \<Rightarrow> digest \<Rightarrow> digest \<Rightarrow> cert_envelope_error + digest" where
  "validate_quiescence_v1 blake3 bs expected_context expected_profile expected_presentation =
     and_then (decode_quiescence_v1 bs) (\<lambda>c.
     and_then (check_binding (qc_context c) (qc_profile c) (qc_presentation c) expected_context expected_profile expected_presentation) (\<lambda>_.
     Inr (digest_of blake3 Value bs)))"

definition validate_divergence_v1 ::
  "(bytes \<Rightarrow> bytes) \<Rightarrow> bytes \<Rightarrow> context_id \<Rightarrow> digest \<Rightarrow> digest \<Rightarrow> cert_envelope_error + digest" where
  "validate_divergence_v1 blake3 bs expected_context expected_profile expected_presentation =
     and_then (decode_divergence_v1 bs) (\<lambda>c.
     and_then (check_binding (dc_context c) (dc_profile c) (dc_presentation c) expected_context expected_profile expected_presentation) (\<lambda>_.
     Inr (digest_of blake3 Value bs)))"

section \<open>Checkers\<close>

datatype certificate_check_error =
    Envelope cert_envelope_error
  | RegimeSetMismatch
  | AdmMismatch
  | StepCountMismatch nat nat
  | StepDigestMismatch nat
  | ChainDigestMismatch
  | StepProfileError nat profile_error
  | PrefixNotAdministrative nat
  | StepsDoNotChain nat
  | SourceWorldMismatch
  | TerminalWorldMismatch
  | ConfigMismatch
  | FrontierNotEmpty nat
  | EnumerationNotScanned
  | QuiescenceJudgementMismatch
  | CheckUndeclaredAssumption assumption_id
  | CycleDoesNotClose
  | CycleEntryMismatch

datatype certificate_check = CertVerified digest | CertUnknown certificate_check_error

definition quiescence_judgement :: "(bytes \<Rightarrow> bytes) \<Rightarrow> quiescence_certificate \<Rightarrow> judgement_id" where
  "quiescence_judgement blake3 c =
     quiescence_judgement_of blake3 (qc_context c) (qc_terminal_world c) (qc_policy c) (qc_regime_set c) (qc_adm_id c) (qc_prefix_chain c)"

fun recorded_loop :: "(bytes \<Rightarrow> bytes) \<Rightarrow> nat \<Rightarrow> digest list \<Rightarrow> committed_step list \<Rightarrow> certificate_check_error + unit" where
  "recorded_loop blake3 i (d # ds) (st # sts) =
     (if committed_step_digest blake3 st \<noteq> d then Inl (StepDigestMismatch i) else recorded_loop blake3 (i + 1) ds sts)"
| "recorded_loop blake3 i _ _ = Inr ()"

definition check_recorded_steps :: "(bytes \<Rightarrow> bytes) \<Rightarrow> digest list \<Rightarrow> committed_step list \<Rightarrow> certificate_check_error + unit" where
  "check_recorded_steps blake3 recorded supplied =
     (if length recorded \<noteq> length supplied then Inl (StepCountMismatch (length recorded) (length supplied))
      else recorded_loop blake3 0 recorded supplied)"

fun administrative_loop :: "presentation \<Rightarrow> nat \<Rightarrow> committed_step list \<Rightarrow> certificate_check_error + unit" where
  "administrative_loop pr i [] = Inr ()"
| "administrative_loop pr i (st # sts) =
     (case op_label (pr_profile pr) st of
        Inl e \<Rightarrow> Inl (StepProfileError i e)
      | Inr RealizingLabel \<Rightarrow> Inl (PrefixNotAdministrative i)
      | Inr Administrative \<Rightarrow> administrative_loop pr (i + 1) sts)"

definition check_all_administrative :: "presentation \<Rightarrow> committed_step list \<Rightarrow> certificate_check_error + unit" where
  "check_all_administrative pr sts = administrative_loop pr 0 sts"

fun windows_chain :: "nat \<Rightarrow> committed_step list \<Rightarrow> certificate_check_error + unit" where
  "windows_chain i (a # b # sts) = (if sdst a \<noteq> ssrc b then Inl (StepsDoNotChain i) else windows_chain (i + 1) (b # sts))"
| "windows_chain i _ = Inr ()"

definition walk_path :: "committed_step list \<Rightarrow> config_id \<Rightarrow> certificate_check_error + config_id" where
  "walk_path sts src =
     (case slice_first sts of
        None \<Rightarrow> Inr src
      | Some st \<Rightarrow>
          if ssrc st \<noteq> src then Inl SourceWorldMismatch
          else and_then (windows_chain 0 sts) (\<lambda>_. Inr (sdst (sts ! (length sts - 1)))))"

definition check_quiescence_inner ::
  "(bytes \<Rightarrow> bytes) \<Rightarrow> quiescence_certificate \<Rightarrow> presentation \<Rightarrow> exec_config \<Rightarrow> committed_step list
     \<Rightarrow> certificate_check_error + digest" where
  "check_quiescence_inner blake3 c pr terminal prefix_steps =
     (let bs = encode_quiescence_v1 c in
      and_then (map_err Envelope (validate_quiescence_v1 blake3 bs (pr_context pr) (op_id (pr_profile pr)) (pr_id pr))) (\<lambda>certificate_id.
      if qc_regime_set c \<noteq> pr_regime_set pr then Inl RegimeSetMismatch
      else if qc_adm_id c \<noteq> pr_adm_id pr then Inl AdmMismatch
      else and_then (check_recorded_steps blake3 (qc_hidden c) prefix_steps) (\<lambda>_.
      if replay_chain_digest blake3 prefix_steps \<noteq> qc_prefix_chain c then Inl ChainDigestMismatch
      else and_then (check_all_administrative pr prefix_steps) (\<lambda>_.
      and_then (walk_path prefix_steps (qc_src_world c)) (\<lambda>end_world.
      if end_world \<noteq> qc_terminal_world c then Inl TerminalWorldMismatch
      else if try_resolve (pr_interner pr) (world terminal) \<noteq> Some (qc_terminal_world c) \<or>
        try_resolve (pr_interner pr) (policy terminal) \<noteq> Some (qc_policy c) then Inl ConfigMismatch
      else case enumerate_admissible (pr_regimes pr) (pr_adm pr) terminal of (frontier, work) \<Rightarrow>
        if work = 0 then Inl EnumerationNotScanned
        else if frontier \<noteq> {} then Inl (FrontierNotEmpty (card frontier))
        else if quiescence_judgement blake3 c \<noteq> qc_judgement c then Inl QuiescenceJudgementMismatch
        else Inr certificate_id)))))"

definition check_quiescence_certificate ::
  "(bytes \<Rightarrow> bytes) \<Rightarrow> quiescence_certificate \<Rightarrow> presentation \<Rightarrow> exec_config \<Rightarrow> committed_step list \<Rightarrow> certificate_check" where
  "check_quiescence_certificate blake3 c pr terminal prefix_steps =
     (case check_quiescence_inner blake3 c pr terminal prefix_steps of Inr i \<Rightarrow> CertVerified i | Inl e \<Rightarrow> CertUnknown e)"

definition check_divergence_inner ::
  "(bytes \<Rightarrow> bytes) \<Rightarrow> divergence_certificate \<Rightarrow> presentation \<Rightarrow> committed_step list \<Rightarrow> (certificate_check_error + digest) option" where
  "check_divergence_inner blake3 c pr lasso =
     (let bs = encode_divergence_v1 c in
      case map_err Envelope (validate_divergence_v1 blake3 bs (pr_context pr) (op_id (pr_profile pr)) (pr_id pr)) of
        Inl e \<Rightarrow> Some (Inl e)
      | Inr certificate_id \<Rightarrow>
      if \<not> declares (pr_assumptions pr) HistoryIndependence then Some (Inl (CheckUndeclaredAssumption HistoryIndependence))
      else if \<not> declares (pr_assumptions pr) PhaseStableKeying then Some (Inl (CheckUndeclaredAssumption PhaseStableKeying))
      else case and_then (check_recorded_steps blake3 (dc_lasso c) lasso) (\<lambda>_.
             and_then (check_all_administrative pr lasso) (\<lambda>_. walk_path lasso (dc_src_world c))) of
        Inl e \<Rightarrow> Some (Inl e)
      | Inr end_world \<Rightarrow>
          (let stem = unat (dc_stem c) in
           case (if stem = 0 then Some (dc_src_world c)
                 else if stem - 1 < length lasso then Some (sdst (lasso ! (stem - 1))) else None) of
             None \<Rightarrow> None
           | Some entry_src \<Rightarrow>
               if entry_src \<noteq> dc_cycle_world c then Some (Inl CycleEntryMismatch)
               else if end_world \<noteq> dc_cycle_world c then Some (Inl CycleDoesNotClose)
               else if dc_cycle_policy c \<noteq> dc_policy c then Some (Inl CycleEntryMismatch)
               else Some (Inr certificate_id)))"

definition check_divergence_certificate ::
  "(bytes \<Rightarrow> bytes) \<Rightarrow> divergence_certificate \<Rightarrow> presentation \<Rightarrow> committed_step list \<Rightarrow> certificate_check option" where
  "check_divergence_certificate blake3 c pr lasso =
     map_option (\<lambda>r. case r of Inr i \<Rightarrow> CertVerified i | Inl e \<Rightarrow> CertUnknown e) (check_divergence_inner blake3 c pr lasso)"

section \<open>Which bytes are a certificate\<close>

definition digests_bytes :: "digest list \<Rightarrow> bytes" where
  "digests_bytes ds = concat (map framed ds)"

definition sat_head_bytes :: "bytes \<Rightarrow> sat_prelude \<Rightarrow> bytes" where
  "sat_head_bytes marker p = framed marker @ uint_bytes (ucast SAT_CERTIFICATE_FORMAT_V1) @ framed (as_bytes SATURATION_PROFILE_V1) @
     framed (sp_profile p) @ framed (sp_context p) @ framed (sp_presentation p) @ framed (sp_policy p) @ framed (sp_src_world p)"

definition sat_head_wf :: "sat_prelude \<Rightarrow> bool" where
  "sat_head_wf p \<longleftrightarrow> wf_digest (sp_profile p) \<and> wf_digest (sp_context p) \<and> wf_digest (sp_presentation p) \<and>
     wf_digest (sp_policy p) \<and> wf_digest (sp_src_world p)"

definition quiescence_head :: "quiescence_certificate \<Rightarrow> sat_prelude" where
  "quiescence_head c = \<lparr>sp_profile = qc_profile c, sp_context = qc_context c, sp_presentation = qc_presentation c,
     sp_policy = qc_policy c, sp_src_world = qc_src_world c\<rparr>"

definition divergence_head :: "divergence_certificate \<Rightarrow> sat_prelude" where
  "divergence_head c = \<lparr>sp_profile = dc_profile c, sp_context = dc_context c, sp_presentation = dc_presentation c,
     sp_policy = dc_policy c, sp_src_world = dc_src_world c\<rparr>"

definition quiescence_wf :: "quiescence_certificate \<Rightarrow> bool" where
  "quiescence_wf c \<longleftrightarrow> sat_head_wf (quiescence_head c) \<and> wf_digest (qc_terminal_world c) \<and> length (qc_hidden c) < 2 ^ 64 \<and>
     list_all wf_digest (qc_hidden c) \<and> wf_digest (qc_prefix_chain c) \<and> wf_digest (qc_regime_set c) \<and>
     wf_digest (qc_adm_id c) \<and> qc_grade c = Derived \<and> wf_digest (qc_judgement c)"

definition divergence_wf :: "divergence_certificate \<Rightarrow> bool" where
  "divergence_wf c \<longleftrightarrow> sat_head_wf (divergence_head c) \<and> dc_cycle c \<noteq> 0 \<and> unat (dc_stem c) + unat (dc_cycle c) < 2 ^ 64 \<and>
     length (dc_lasso c) = unat (dc_stem c) + unat (dc_cycle c) \<and> list_all wf_digest (dc_lasso c) \<and>
     wf_digest (dc_cycle_world c) \<and> wf_digest (dc_cycle_policy c) \<and> dc_grade c = Unknown"

lemma write_digests_out [out_simps]: "write_digests ds w = w\<lparr>buf := buf w @ digests_bytes ds\<rparr>"
  by (induction ds w rule: write_digests.induct) (simp_all add: digests_bytes_def out_simps)

lemma encode_quiescence_bytes:
  "encode_quiescence_v1 c = sat_head_bytes QUIESCENCE_MARKER (quiescence_head c) @ framed (qc_terminal_world c) @
     uint_bytes (ucast (word_of_nat (length (qc_hidden c)) :: u64)) @ digests_bytes (qc_hidden c) @ framed (qc_prefix_chain c) @
     framed (qc_regime_set c) @ framed (qc_adm_id c) @ uint_bytes (ucast (completeness_ordinal (qc_enumeration c))) @
     uint_bytes (ucast (outcome_ordinal (qc_grade c))) @ framed (qc_judgement c)"
  by (simp add: encode_quiescence_v1_def Let_def out_simps sat_head_bytes_def quiescence_head_def finish_def canon_new_def)

lemma encode_divergence_bytes:
  "encode_divergence_v1 c = sat_head_bytes DIVERGENCE_MARKER (divergence_head c) @ uint_bytes (ucast (dc_stem c)) @
     uint_bytes (ucast (dc_cycle c)) @ digests_bytes (dc_lasso c) @ framed (dc_cycle_world c) @ framed (dc_cycle_policy c) @
     uint_bytes (ucast (assumption_ordinal (dc_assumptions c))) @ uint_bytes (ucast (outcome_ordinal (dc_grade c)))"
  by (simp add: encode_divergence_v1_def Let_def out_simps sat_head_bytes_def divergence_head_def finish_def canon_new_def)

lemma exact_sat_digest: "exact_read sat_read_digest framed wf_digest"
proof -
  have "exact_read sat_read_digest (\<lambda>v. framed (id v) @ []) wf_digest"
    unfolding sat_read_digest_def
    by (rule exact_rbind[OF exact_mapped(1), where p = id and ?enc2.0 = "\<lambda>_. []"])
      (auto simp: fits_def wf_digest_def intro: exact_cong[OF exact_rret] exact_cong[OF exact_rfail])
  then show ?thesis by simp
qed

lemma sat_fixed_fit: "fits QUIESCENCE_MARKER" "fits DIVERGENCE_MARKER" "fits (as_bytes SATURATION_PROFILE_V1)"
  by (simp_all add: QUIESCENCE_MARKER_def DIVERGENCE_MARKER_def SATURATION_PROFILE_V1_def as_bytes_def fits_def)

lemma exact_prelude: "fits marker \<Longrightarrow> exact_read (read_prelude marker) (\<lambda>p. sat_head_bytes marker p @ []) sat_head_wf"
  unfolding read_prelude_def sat_head_bytes_def append_assoc
  apply (rule exact_fixed[OF exact_mapped(1)], assumption)
  apply (rule exact_fixed[OF exact_mapped(2)], rule TrueI)
  apply (rule exact_fixed[OF exact_mapped(1)], rule sat_fixed_fit)
  apply (rule exact_field[OF exact_sat_digest], simp add: sat_head_wf_def)
  apply (rule exact_field[OF exact_sat_digest], simp add: sat_head_wf_def)
  apply (rule exact_field[OF exact_sat_digest], simp add: sat_head_wf_def)
  apply (rule exact_field[OF exact_sat_digest], simp add: sat_head_wf_def)
  apply (rule exact_field[OF exact_sat_digest], simp add: sat_head_wf_def)
  apply (rule exact_cong[OF exact_rret])
  by (auto simp: sat_head_wf_def)

lemma exact_digests: "exact_read (read_digests n) digests_bytes (\<lambda>ds. length ds = n \<and> list_all wf_digest ds)"
proof (induction n)
  case 0
  show ?case by (simp, rule exact_cong[OF exact_rret]) (auto simp: digests_bytes_def)
next
  case (Suc n)
  let ?ok = "\<lambda>ds. length ds = Suc n \<and> list_all wf_digest ds"
  have "exact_read (read_digests (Suc n)) (\<lambda>ds. framed (hd ds) @ digests_bytes (tl ds) @ []) ?ok"
    unfolding read_digests.simps
  proof (rule exact_field[OF exact_sat_digest])
    show "wf_digest (hd ds)" if "?ok ds" for ds using that by (cases ds) auto
    show "exact_read (rbind (read_digests n) (\<lambda>ds. rret (d # ds))) (\<lambda>ds. digests_bytes (tl ds) @ []) (\<lambda>ds. ?ok ds \<and> hd ds = d)"
      if "wf_digest d" for d
    proof (rule exact_field[OF Suc.IH])
      show "exact_read (rret (d # as)) (\<lambda>_. []) (\<lambda>v. (?ok v \<and> hd v = d) \<and> tl v = as)"
        if "length as = n \<and> list_all wf_digest as" for as
      proof (rule exact_cong[OF exact_rret])
        show "v = d # as \<longleftrightarrow> (?ok v \<and> hd v = d) \<and> tl v = as" for v using \<open>wf_digest d\<close> that by (cases v) auto
      qed simp
    qed (auto simp: length_Suc_conv)
  qed
  then show ?case by (rule exact_cong) (auto simp: digests_bytes_def length_Suc_conv)
qed

lemma outcome_of_ordinal: "outcome_of_ordinal n = Some g \<longleftrightarrow> outcome_ordinal g = n"
  by (cases g) (auto simp: outcome_of_ordinal_def split: if_splits)

lemma exact_grade: "exact_read read_grade (\<lambda>g. uint_bytes (ucast (outcome_ordinal g)) @ []) (\<lambda>_. True)"
  unfolding read_grade_def
proof (rule exact_field[OF exact_mapped(2)])
  show "exact_read (case outcome_of_ordinal n of Some g \<Rightarrow> rret g | None \<Rightarrow> rfail (UnknownOutcomeOrdinal n)) (\<lambda>_. [])
      (\<lambda>v. True \<and> outcome_ordinal v = n)" for n
  proof (cases "outcome_of_ordinal n")
    case None
    then have "\<And>g. outcome_ordinal g \<noteq> n" using outcome_of_ordinal by (metis option.distinct(1))
    then show ?thesis using None by (simp add: exact_rfail)
  next
    case (Some g)
    show ?thesis unfolding Some option.case
      by (rule exact_cong[OF exact_rret]) (use Some outcome_of_ordinal in \<open>auto simp: outcome_ordinal_inj\<close>)
  qed
qed simp

lemma exact_quiescence:
  "exact_read quiescence_fields (\<lambda>c. encode_quiescence_v1 c @ []) quiescence_wf"
proof -
  have head: "exact_read (read_prelude QUIESCENCE_MARKER) (sat_head_bytes QUIESCENCE_MARKER) sat_head_wf"
    using exact_prelude[OF sat_fixed_fit(1)] by simp
  have grade: "exact_read read_grade (\<lambda>g. uint_bytes (ucast (outcome_ordinal g))) (\<lambda>_. True)" using exact_grade by simp
  have r: "exact_read quiescence_fields (\<lambda>c. sat_head_bytes QUIESCENCE_MARKER (quiescence_head c) @ framed (qc_terminal_world c) @
     uint_bytes (ucast (word_of_nat (length (qc_hidden c)) :: u64)) @ digests_bytes (qc_hidden c) @ framed (qc_prefix_chain c) @
     framed (qc_regime_set c) @ framed (qc_adm_id c) @ uint_bytes (ucast (completeness_ordinal (qc_enumeration c))) @
     uint_bytes (ucast (outcome_ordinal (qc_grade c))) @ framed (qc_judgement c) @ []) quiescence_wf"
    unfolding quiescence_fields_def
    apply (rule exact_field[OF head, where p = quiescence_head], simp add: quiescence_wf_def)
    apply (rule exact_field[OF exact_sat_digest], simp add: quiescence_wf_def)
    apply (rule exact_field[OF exact_mapped(2), where p = "\<lambda>c. word_of_nat (length (qc_hidden c))"], rule TrueI)
    apply (rule exact_field[OF exact_digests], force simp: quiescence_wf_def unat_of_nat)
    apply (rule exact_field[OF exact_sat_digest], simp add: quiescence_wf_def)
    apply (rule exact_field[OF exact_sat_digest], simp add: quiescence_wf_def)
    apply (rule exact_field[OF exact_sat_digest], simp add: quiescence_wf_def)
    apply (rule exact_field[OF exact_mapped(2), where p = "\<lambda>c. completeness_ordinal (qc_enumeration c)"], rule TrueI)
    subgoal premises prems for p w n ds x y z a
    proof (cases "a = 0")
      case True
      show ?thesis unfolding True completeness_from_ordinal_def simp_thms if_True option.case
        apply (rule exact_field[OF grade, where p = qc_grade], rule TrueI)
        subgoal for g
          apply (rule exact_rif)
           apply (rule exact_field[OF exact_sat_digest], simp add: quiescence_wf_def)
           apply (rule exact_cong[OF exact_rret])
            apply simp
          subgoal premises more for j v
            using prems more unsigned_less[of n] by (cases v; cases p; cases "qc_enumeration v") (auto simp: quiescence_wf_def quiescence_head_def unat_of_nat)
          by (auto simp: quiescence_wf_def)
        done
    next
      case False
      have "completeness_ordinal e = 0" for e by (cases e) simp
      then show ?thesis using False by (auto simp: completeness_from_ordinal_def intro!: exact_cong[OF exact_rfail])
    qed
    done
  then show ?thesis by (simp add: encode_quiescence_bytes)
qed

lemma exact_divergence:
  "exact_read divergence_fields (\<lambda>c. encode_divergence_v1 c @ []) divergence_wf"
proof -
  have head: "exact_read (read_prelude DIVERGENCE_MARKER) (sat_head_bytes DIVERGENCE_MARKER) sat_head_wf"
    using exact_prelude[OF sat_fixed_fit(2)] by simp
  have grade: "exact_read read_grade (\<lambda>g. uint_bytes (ucast (outcome_ordinal g))) (\<lambda>_. True)" using exact_grade by simp
  have "exact_read divergence_fields (\<lambda>c. sat_head_bytes DIVERGENCE_MARKER (divergence_head c) @ uint_bytes (ucast (dc_stem c)) @
     uint_bytes (ucast (dc_cycle c)) @ digests_bytes (dc_lasso c) @ framed (dc_cycle_world c) @ framed (dc_cycle_policy c) @
     uint_bytes (ucast (assumption_ordinal (dc_assumptions c))) @ uint_bytes (ucast (outcome_ordinal (dc_grade c))) @ []) divergence_wf"
    unfolding divergence_fields_def
    apply (rule exact_field[OF head, where p = divergence_head], simp add: divergence_wf_def)
    apply (rule exact_field[OF exact_mapped(2), where p = dc_stem], rule TrueI)
    apply (rule exact_field[OF exact_mapped(2), where p = dc_cycle], rule TrueI)
    apply (rule exact_rif)
     apply (rule exact_rif)
      apply (rule exact_field[OF exact_digests])
    subgoal by (auto simp: divergence_wf_def unat_add_lem[THEN iffD1])
      apply (rule exact_field[OF exact_sat_digest], simp add: divergence_wf_def)
      apply (rule exact_field[OF exact_sat_digest], simp add: divergence_wf_def)
      apply (rule exact_field[OF exact_mapped(2), where p = "\<lambda>c. assumption_ordinal (dc_assumptions c)"], rule TrueI)
    subgoal premises prems for p n m ds x y a
    proof (cases "a = 0")
      case True
      show ?thesis unfolding True assumption_from_ordinal_def simp_thms if_True option.case
        apply (rule exact_field[OF grade, where p = dc_grade], rule TrueI)
        subgoal for g
          apply (rule exact_rif)
           apply (rule exact_cong[OF exact_rret])
            apply simp
          subgoal premises more for v
            using prems more by (cases v; cases p; cases "dc_assumptions v")
              (auto simp: divergence_wf_def divergence_head_def unat_add_lem[THEN iffD1])
          by (auto simp: divergence_wf_def)
        done
    next
      case False
      have "assumption_ordinal e = 0" for e by (cases e) simp
      then show ?thesis using False by (auto simp: assumption_from_ordinal_def intro!: exact_cong[OF exact_rfail])
    qed
    by (auto simp: divergence_wf_def)
  then show ?thesis by (simp add: encode_divergence_bytes)
qed

lemma envelope_decode_exact:
  assumes "fits bs"
  shows "decode_quiescence_v1 bs = Inr q \<longleftrightarrow> quiescence_wf q \<and> bs = encode_quiescence_v1 q"
    and "decode_divergence_v1 bs = Inr d \<longleftrightarrow> divergence_wf d \<and> bs = encode_divergence_v1 d"
proof -
  have "decode_quiescence_v1 bs = Inr q \<longleftrightarrow> (\<exists>r. quiescence_fields (reader_new bs) = (Inr q, r) \<and> reader_is_empty r)"
    "decode_divergence_v1 bs = Inr d \<longleftrightarrow> (\<exists>r. divergence_fields (reader_new bs) = (Inr d, r) \<and> reader_is_empty r)"
    by (auto simp: decode_quiescence_v1_def decode_divergence_v1_def split: prod.splits sum.splits if_splits)
  then show "decode_quiescence_v1 bs = Inr q \<longleftrightarrow> quiescence_wf q \<and> bs = encode_quiescence_v1 q"
    "decode_divergence_v1 bs = Inr d \<longleftrightarrow> divergence_wf d \<and> bs = encode_divergence_v1 d"
    using exact_whole[OF exact_quiescence assms] exact_whole[OF exact_divergence assms] by simp_all
qed

section \<open>Certificates with 32-byte digests are read back from their encodings only\<close>

lemma digests_iff:
  "list_all wf_digest xs \<Longrightarrow> list_all wf_digest ys \<Longrightarrow> length xs = length ys \<Longrightarrow>
     digests_bytes xs @ r = digests_bytes ys @ s \<longleftrightarrow> xs = ys \<and> r = s"
proof (induction xs arbitrary: ys)
  case (Cons x xs)
  then show ?case by (cases ys) (auto simp: digests_bytes_def framed_id_iff)
qed (simp add: digests_bytes_def)

lemma length_digests: "list_all wf_digest ds \<Longrightarrow> length (digests_bytes ds) = 34 * length ds"
  by (induction ds) (simp_all add: digests_bytes_def length_framed_digest)

text \<open>The types of the source give these; the lengths are those of a vector.\<close>

definition quiescence_typed :: "quiescence_certificate \<Rightarrow> bool" where
  "quiescence_typed c \<longleftrightarrow> quiescence_wf (c\<lparr>qc_grade := Derived\<rparr>)"

definition divergence_typed :: "divergence_certificate \<Rightarrow> bool" where
  "divergence_typed c \<longleftrightarrow> sat_head_wf (divergence_head c) \<and> list_all wf_digest (dc_lasso c) \<and>
     wf_digest (dc_cycle_world c) \<and> wf_digest (dc_cycle_policy c)"

lemma sat_head_iff:
  "sat_head_wf p \<Longrightarrow> sat_head_wf p' \<Longrightarrow> sat_head_bytes m p @ r = sat_head_bytes m p' @ s \<longleftrightarrow> p = p' \<and> r = s"
  by (cases p; cases p') (auto simp: sat_head_bytes_def sat_head_wf_def framed_id_iff)

lemma quiescence_encoding_inj:
  assumes "quiescence_typed c" "quiescence_wf q" "encode_quiescence_v1 c = encode_quiescence_v1 q"
  shows "c = q"
proof -
  have t: "sat_head_wf (quiescence_head c)" "sat_head_wf (quiescence_head q)" "list_all wf_digest (qc_hidden c)" "list_all wf_digest (qc_hidden q)"
    "length (qc_hidden c) < 2 ^ 64" "length (qc_hidden q) < 2 ^ 64" "wf_digest (qc_terminal_world c)" "wf_digest (qc_terminal_world q)"
    using assms(1,2) by (simp_all add: quiescence_typed_def quiescence_wf_def quiescence_head_def)
  note e = assms(3)[unfolded encode_quiescence_bytes sat_head_iff[OF t(1,2)] framed_id_iff[OF t(7,8)] u64_code.append_eq_iff[OF TrueI TrueI]]
  note h = e[THEN conjunct1] e[THEN conjunct2, THEN conjunct1] e[THEN conjunct2, THEN conjunct2, THEN conjunct1]
    and r = e[THEN conjunct2, THEN conjunct2, THEN conjunct2]
  have u: "unat (word_of_nat n :: u64) = n" if "n < 2 ^ 64" for n using that by (simp add: unat_of_nat)
  have l: "length (qc_hidden c) = length (qc_hidden q)" using arg_cong[OF h(3), of unat] unfolding u[OF t(5)] u[OF t(6)] .
  have t2: "wf_digest (qc_prefix_chain c)" "wf_digest (qc_prefix_chain q)" "wf_digest (qc_regime_set c)" "wf_digest (qc_regime_set q)"
    "wf_digest (qc_adm_id c)" "wf_digest (qc_adm_id q)" "wf_digest (qc_judgement c)" "wf_digest (qc_judgement q)"
    using assms(1,2) by (simp_all add: quiescence_typed_def quiescence_wf_def)
  note r2 = r[unfolded digests_iff[OF t(3,4) l] framed_id_iff[OF t2(1,2)] framed_id_iff[OF t2(3,4)] framed_id_iff[OF t2(5,6)]
      u64_code.append_eq_iff[OF TrueI TrueI] framed_id_iff[where xs = "[]" and ys = "[]", OF t2(7,8), unfolded append_Nil2] outcome_ordinal_inj]
  have "qc_enumeration c = qc_enumeration q" by (cases "qc_enumeration c"; cases "qc_enumeration q") simp
  moreover have "qc_hidden c = qc_hidden q" "qc_prefix_chain c = qc_prefix_chain q" "qc_regime_set c = qc_regime_set q"
    "qc_adm_id c = qc_adm_id q" "qc_grade c = qc_grade q" "qc_judgement c = qc_judgement q"
    using r2 by simp_all
  ultimately show ?thesis using h by (cases c; cases q) (simp add: quiescence_head_def)
qed

lemma divergence_encoding_inj:
  assumes "divergence_typed c" "divergence_wf q" "encode_divergence_v1 c = encode_divergence_v1 q"
  shows "c = q"
proof -
  have t: "sat_head_wf (divergence_head c)" "sat_head_wf (divergence_head q)" "list_all wf_digest (dc_lasso c)" "list_all wf_digest (dc_lasso q)"
    "wf_digest (dc_cycle_world c)" "wf_digest (dc_cycle_world q)" "wf_digest (dc_cycle_policy c)" "wf_digest (dc_cycle_policy q)"
    using assms(1,2) by (simp_all add: divergence_typed_def divergence_wf_def)
  let ?tail = "\<lambda>c. framed (dc_cycle_world c) @ framed (dc_cycle_policy c) @
       uint_bytes (ucast (assumption_ordinal (dc_assumptions c))) @ uint_bytes (ucast (outcome_ordinal (dc_grade c)))"
  note e = assms(3)[unfolded encode_divergence_bytes sat_head_iff[OF t(1,2)] u64_code.append_eq_iff[OF TrueI TrueI]]
  note h = e[THEN conjunct1] e[THEN conjunct2, THEN conjunct1] e[THEN conjunct2, THEN conjunct2, THEN conjunct1]
    and r = e[THEN conjunct2, THEN conjunct2, THEN conjunct2]
  have g: "length (?tail d) \<in> {70, 71}" if "wf_digest (dc_cycle_world d)" "wf_digest (dc_cycle_policy d)" for d
  proof -
    have "length (uint_bytes (ucast (outcome_ordinal g))) \<in> {1, 2}" for g by (cases g) (simp_all, code_simp+)
    moreover have "length (uint_bytes (ucast (assumption_ordinal a))) = 1" for a by (cases a) (simp add: uint_bytes_0)
    ultimately show ?thesis using that by (fastforce simp: length_framed_digest)
  qed
  have "34 * length (dc_lasso c) + length (?tail c) = 34 * length (dc_lasso q) + length (?tail q)"
    using arg_cong[OF r, of length] by (simp add: length_digests[OF t(3)] length_digests[OF t(4)])
  then have l: "length (dc_lasso c) = length (dc_lasso q)" using g[OF t(5,7)] g[OF t(6,8)] by auto
  have "dc_assumptions c = dc_assumptions q" by (cases "dc_assumptions c"; cases "dc_assumptions q") simp
  moreover have "dc_lasso c = dc_lasso q" "dc_cycle_world c = dc_cycle_world q" "dc_cycle_policy c = dc_cycle_policy q" "dc_grade c = dc_grade q"
    using r u64_code.append_eq_iff[where v = "outcome_ordinal (dc_grade c)" and w = "outcome_ordinal (dc_grade q)" and xs = "[]" and ys = "[]"] t(5-8)
    unfolding digests_iff[OF t(3,4) l]
    by (auto simp: framed_id_iff u64_code.append_eq_iff outcome_ordinal_inj)
  ultimately show ?thesis using h by (cases c; cases q) (simp add: divergence_head_def)
qed

section \<open>What the checkers accept\<close>

fun world_path :: "config_id \<Rightarrow> committed_step list \<Rightarrow> config_id \<Rightarrow> bool" where
  "world_path src [] e \<longleftrightarrow> e = src"
| "world_path src (st # sts) e \<longleftrightarrow> ssrc st = src \<and> world_path (sdst st) sts e"

lemma recorded_loop_iff:
  "length ds = length sts \<Longrightarrow> recorded_loop blake3 i ds sts = Inr () \<longleftrightarrow> ds = map (committed_step_digest blake3) sts"
  by (induction ds sts arbitrary: i rule: list_induct2) auto

lemma check_recorded_iff: "check_recorded_steps blake3 ds sts = Inr () \<longleftrightarrow> ds = map (committed_step_digest blake3) sts"
  using recorded_loop_iff[of ds sts blake3 0] by (auto simp: check_recorded_steps_def)

lemma administrative_iff:
  "check_all_administrative pr sts = Inr () \<longleftrightarrow> list_all (\<lambda>st. op_label (pr_profile pr) st = Inr Administrative) sts"
proof -
  have "administrative_loop pr i sts = Inr () \<longleftrightarrow> list_all (\<lambda>st. op_label (pr_profile pr) st = Inr Administrative) sts" for i
    by (induction sts arbitrary: i) (auto split: sum.split step_label.split)
  then show ?thesis by (simp add: check_all_administrative_def)
qed

lemma windows_iff: "windows_chain i (st # sts) = Inr () \<longleftrightarrow> world_path (ssrc st) (st # sts) (sdst (last (st # sts)))"
  by (induction sts arbitrary: i st) (auto simp: neq_Nil_conv)

lemma walk_path_iff: "walk_path sts src = Inr e \<longleftrightarrow> world_path src sts e"
proof (cases sts)
  case (Cons st sts')
  have last: "world_path s (st # ts) e \<Longrightarrow> e = sdst (last (st # ts))" for s st ts e
    by (induction ts arbitrary: s st) auto
  have "walk_path sts src = Inr e \<longleftrightarrow> ssrc st = src \<and> windows_chain 0 sts = Inr () \<and> e = sdst (last sts)"
    using Cons by (auto simp: walk_path_def slice_first_def and_then_Inr last_conv_nth)
  also have "\<dots> \<longleftrightarrow> world_path src sts e" unfolding Cons windows_iff using last[of src st sts' e] by auto
  finally show ?thesis .
qed (simp add: walk_path_def slice_first_def eq_commute)

lemma enumeration_scanned: "snd (enumerate_admissible ps adm e) = 0 \<longleftrightarrow> ps = []"
  by (auto simp: enumerate_admissible_def cand_counted_eq)

lemma enumeration_cand: "fst (enumerate_admissible ps adm e) = cand (map sp_candidates ps) adm e"
  by (simp add: enumerate_admissible_def cand_counted_eq cand_def)

lemma validate_quiescence_iff:
  assumes "quiescence_typed c" "fits (encode_quiescence_v1 c)"
  shows "validate_quiescence_v1 blake3 (encode_quiescence_v1 c) ctx profile presentation = Inr i \<longleftrightarrow>
    qc_grade c = Derived \<and> qc_context c = ctx \<and> qc_profile c = profile \<and> qc_presentation c = presentation \<and>
    i = quiescence_certificate_id blake3 c"
proof -
  have wf: "quiescence_wf c \<longleftrightarrow> qc_grade c = Derived" using assms(1) by (auto simp: quiescence_typed_def quiescence_wf_def quiescence_head_def)
  have "decode_quiescence_v1 (encode_quiescence_v1 c) = Inr q \<longleftrightarrow> qc_grade c = Derived \<and> q = c" for q
    using envelope_decode_exact(1)[OF assms(2)] quiescence_encoding_inj[OF assms(1)] wf by metis
  then show ?thesis by (auto simp: validate_quiescence_v1_def and_then_Inr check_binding_def quiescence_certificate_id_def)
qed

lemma validate_divergence_iff:
  assumes "divergence_typed c" "fits (encode_divergence_v1 c)"
  shows "validate_divergence_v1 blake3 (encode_divergence_v1 c) ctx profile presentation = Inr i \<longleftrightarrow>
    divergence_wf c \<and> dc_context c = ctx \<and> dc_profile c = profile \<and> dc_presentation c = presentation \<and>
    i = divergence_certificate_id blake3 c"
proof -
  have "decode_divergence_v1 (encode_divergence_v1 c) = Inr q \<longleftrightarrow> divergence_wf c \<and> q = c" for q
    using envelope_decode_exact(2)[OF assms(2)] divergence_encoding_inj[OF assms(1)] by metis
  then show ?thesis by (auto simp: validate_divergence_v1_def and_then_Inr check_binding_def divergence_certificate_id_def)
qed

text \<open>What a quiescence certificate claims of a presentation, a configuration and a list of steps.\<close>

definition quiescence_holds ::
  "(bytes \<Rightarrow> bytes) \<Rightarrow> quiescence_certificate \<Rightarrow> presentation \<Rightarrow> exec_config \<Rightarrow> committed_step list \<Rightarrow> bool" where
  "quiescence_holds blake3 c pr terminal sts \<longleftrightarrow>
     qc_grade c = Derived \<and> qc_context c = pr_context pr \<and> qc_profile c = op_id (pr_profile pr) \<and> qc_presentation c = pr_id pr \<and>
     qc_regime_set c = pr_regime_set pr \<and> qc_adm_id c = pr_adm_id pr \<and> qc_hidden c = map (committed_step_digest blake3) sts \<and>
     qc_prefix_chain c = replay_chain_digest blake3 sts \<and>
     list_all (\<lambda>st. op_label (pr_profile pr) st = Inr Administrative) sts \<and>
     world_path (qc_src_world c) sts (qc_terminal_world c) \<and>
     try_resolve (pr_interner pr) (world terminal) = Some (qc_terminal_world c) \<and>
     try_resolve (pr_interner pr) (policy terminal) = Some (qc_policy c) \<and>
     cand (map sp_candidates (pr_regimes pr)) (pr_adm pr) terminal = {} \<and> qc_judgement c = quiescence_judgement blake3 c"

lemma check_quiescence_iff:
  assumes "quiescence_typed c" "fits (encode_quiescence_v1 c)"
  shows "check_quiescence_certificate blake3 c pr terminal sts = CertVerified i \<longleftrightarrow>
    quiescence_holds blake3 c pr terminal sts \<and> pr_regimes pr \<noteq> [] \<and> i = quiescence_certificate_id blake3 c"
proof -
  obtain frontier work where e: "enumerate_admissible (pr_regimes pr) (pr_adm pr) terminal = (frontier, work)"
    by (cases "enumerate_admissible (pr_regimes pr) (pr_adm pr) terminal")
  have f: "frontier = cand (map sp_candidates (pr_regimes pr)) (pr_adm pr) terminal" "work = 0 \<longleftrightarrow> pr_regimes pr = []"
    using enumeration_cand[of "pr_regimes pr" "pr_adm pr" terminal] enumeration_scanned[of "pr_regimes pr" "pr_adm pr" terminal] e by simp_all
  have "check_quiescence_certificate blake3 c pr terminal sts = CertVerified i \<longleftrightarrow>
      check_quiescence_inner blake3 c pr terminal sts = Inr i"
    by (auto simp: check_quiescence_certificate_def split: sum.split)
  also have "\<dots> \<longleftrightarrow> quiescence_holds blake3 c pr terminal sts \<and> pr_regimes pr \<noteq> [] \<and> i = quiescence_certificate_id blake3 c"
    unfolding check_quiescence_inner_def Let_def e prod.case
    by (auto simp: and_then_Inr validate_quiescence_iff[OF assms] check_recorded_iff administrative_iff walk_path_iff f
        quiescence_holds_def)
  finally show ?thesis .
qed

section \<open>Certificates of the saturated step\<close>

definition presentation_wf :: "(bytes \<Rightarrow> bytes) \<Rightarrow> presentation \<Rightarrow> bool" where
  "presentation_wf blake3 pr \<longleftrightarrow> (\<forall>x. wf_digest (blake3 x)) \<and> wf_digest (pr_id pr) \<and> wf_digest (op_id (pr_profile pr)) \<and>
     wf_digest (pr_context pr) \<and> wf_digest (pr_regime_set pr) \<and> wf_digest (pr_adm_id pr) \<and>
     list_all wf_digest (by_handle (pr_interner pr))"

lemma resolve_wf: "presentation_wf blake3 pr \<Longrightarrow> try_resolve (pr_interner pr) h = Some d \<Longrightarrow> wf_digest d"
  by (auto simp: presentation_wf_def try_resolve_def list_all_length split: if_splits)

lemma replay_chain_digest_head: "replay_chain_digest blake3 sts = chain_head blake3 sts"
proof (cases "replay_chain blake3 sts" rule: rev_cases)
  case Nil
  then show ?thesis using replay_chain_last[of blake3 sts] by (simp add: replay_chain_digest_def slice_last_def slice_first_def)
next
  case (snoc ds d)
  then show ?thesis using replay_chain_last[of blake3 sts] by (simp add: replay_chain_digest_def slice_last_def slice_first_def)
qed

lemma world_path_snoc: "world_path a (sts @ [st]) b \<longleftrightarrow> world_path a sts (ssrc st) \<and> b = sdst st"
  by (induction sts arbitrary: a) auto

lemma hides_world_path:
  "hides blake3 pr keyer ph e sts e1 \<Longrightarrow> try_resolve (pr_interner pr) (world e) = Some a \<Longrightarrow>
     \<exists>b. try_resolve (pr_interner pr) (world e1) = Some b \<and> world_path a sts b"
proof (induction rule: hides.induct)
  case (hides_snoc sts e1 st e2)
  have g: "try_resolve (pr_interner pr) (world e1) = Some (ssrc st)" "try_resolve (pr_interner pr) (world e2) = Some (sdst st)"
    using hides_snoc.hyps(2) by (auto elim: gamma_step)
  then show ?case using hides_snoc by (auto simp: world_path_snoc)
qed simp

lemma quiescence_length:
  assumes "quiescence_wf c" "length (qc_hidden c) \<le> 2 ^ 32"
  shows "fits (encode_quiescence_v1 c)"
proof -
  have u: "length (uint_bytes (ucast x)) \<le> 17" for x :: u64 using length_uint_bytes by simp
  have h: "length (sat_head_bytes QUIESCENCE_MARKER (quiescence_head c)) \<le> 400"
    using assms(1) length_framed_le[of QUIESCENCE_MARKER] length_framed_le[of "as_bytes SATURATION_PROFILE_V1"] u[of SAT_CERTIFICATE_FORMAT_V1]
    by (simp add: sat_head_bytes_def quiescence_wf_def sat_head_wf_def length_framed_digest QUIESCENCE_MARKER_def SATURATION_PROFILE_V1_def
        as_bytes_def)
  have "length (digests_bytes (qc_hidden c)) \<le> 34 * 2 ^ 32" using assms by (simp add: length_digests quiescence_wf_def)
  then have "length (encode_quiescence_v1 c) \<le> 400 + 34 * 2 ^ 32 + 300"
    using assms(1) h u[of "word_of_nat (length (qc_hidden c))"] u[of "completeness_ordinal (qc_enumeration c)"] u[of "outcome_ordinal (qc_grade c)"]
    unfolding encode_quiescence_bytes by (simp add: quiescence_wf_def length_framed_digest)
  then show ?thesis by (simp add: fits_def)
qed

lemma made_quiescence:
  assumes wf: "presentation_wf blake3 pr" and h: "hides blake3 pr keyer ph e sts e1" and n: "length sts \<le> 2 ^ 32"
    and none: "cand (map sp_candidates (pr_regimes pr)) (pr_adm pr) e1 = {}"
    and c: "make_quiescence_certificate blake3 pr e e1 sts = Some c"
  shows "quiescence_wf c" "quiescence_holds blake3 c pr e1 sts"
proof -
  obtain x y p where r: "try_resolve (pr_interner pr) (world e) = Some x" "try_resolve (pr_interner pr) (world e1) = Some y"
    "try_resolve (pr_interner pr) (policy e1) = Some p"
    using c by (auto simp: make_quiescence_certificate_def split: option.splits)
  note b = wf[unfolded presentation_wf_def]
  have d: "wf_digest (digest_of blake3 dom m)" for dom m using b by (simp add: digest_of_def)
  have ch: "wf_digest (replay_chain_digest blake3 sts)" unfolding replay_chain_digest_head using b by (intro chain_head_digest) blast
  show "quiescence_wf c"
    using c r resolve_wf[OF wf] n b ch d
    by (auto simp: make_quiescence_certificate_def Let_def quiescence_wf_def quiescence_head_def sat_head_wf_def list_all_iff
        committed_step_digest_def writer_digest_def quiescence_judgement_of_def judgement_recompute_def judgement_id_def id_of_def from_canon_def)
  show "quiescence_holds blake3 c pr e1 sts"
    using c r none hides_admin[OF h] hides_world_path[OF h r(1)]
    by (auto simp: make_quiescence_certificate_def Let_def quiescence_holds_def quiescence_judgement_def)
qed

text \<open>What a divergence certificate claims of a presentation and a list of steps.\<close>

definition divergence_holds :: "(bytes \<Rightarrow> bytes) \<Rightarrow> divergence_certificate \<Rightarrow> presentation \<Rightarrow> committed_step list \<Rightarrow> bool" where
  "divergence_holds blake3 c pr sts \<longleftrightarrow>
     divergence_wf c \<and> dc_context c = pr_context pr \<and> dc_profile c = op_id (pr_profile pr) \<and> dc_presentation c = pr_id pr \<and>
     declares (pr_assumptions pr) HistoryIndependence \<and> declares (pr_assumptions pr) PhaseStableKeying \<and>
     dc_lasso c = map (committed_step_digest blake3) sts \<and>
     list_all (\<lambda>st. op_label (pr_profile pr) st = Inr Administrative) sts \<and>
     (\<exists>pre suf. sts = pre @ suf \<and> length pre = unat (dc_stem c) \<and> world_path (dc_src_world c) pre (dc_cycle_world c) \<and>
        world_path (dc_cycle_world c) suf (dc_cycle_world c)) \<and>
     dc_cycle_policy c = dc_policy c"

lemma world_path_append: "world_path a (xs @ ys) b \<longleftrightarrow> (\<exists>m. world_path a xs m \<and> world_path m ys b)"
  by (induction xs arbitrary: a) auto

lemma world_path_last: "world_path a xs m \<Longrightarrow> xs \<noteq> [] \<Longrightarrow> m = sdst (last xs)"
  by (induction xs arbitrary: a) auto

lemma world_path_fun: "world_path a xs m \<Longrightarrow> world_path a xs m' \<Longrightarrow> m = m'"
  by (induction xs arbitrary: a) auto

lemma check_divergence_iff:
  assumes "divergence_typed c" "fits (encode_divergence_v1 c)"
  shows "check_divergence_certificate blake3 c pr sts \<noteq> None"
    and "check_divergence_certificate blake3 c pr sts = Some (CertVerified i) \<longleftrightarrow>
      divergence_holds blake3 c pr sts \<and> i = divergence_certificate_id blake3 c"
proof -
  let ?v = "validate_divergence_v1 blake3 (encode_divergence_v1 c) (pr_context pr) (op_id (pr_profile pr)) (pr_id pr)"
  let ?w = "and_then (check_recorded_steps blake3 (dc_lasso c) sts) (\<lambda>_.
             and_then (check_all_administrative pr sts) (\<lambda>_. walk_path sts (dc_src_world c)))"
  let ?n = "unat (dc_stem c)" and ?cw = "dc_cycle_world c"
  note v = validate_divergence_iff[OF assms, of blake3 "pr_context pr" "op_id (pr_profile pr)" "pr_id pr"]
  have w: "?w = Inr m \<longleftrightarrow> dc_lasso c = map (committed_step_digest blake3) sts \<and>
      list_all (\<lambda>st. op_label (pr_profile pr) st = Inr Administrative) sts \<and> world_path (dc_src_world c) sts m" for m
    by (auto simp: and_then_Inr check_recorded_iff administrative_iff walk_path_iff)
  have entry: "?n < length sts" if "?v = Inr j" "?w = Inr m" for j m
  proof -
    have d: "divergence_wf c" "dc_lasso c = map (committed_step_digest blake3) sts" using that v w by blast+
    then have "unat (dc_cycle c) \<noteq> 0" "length sts = ?n + unat (dc_cycle c)"
      using arg_cong[OF d(2), of length] by (simp_all add: divergence_wf_def unat_eq_0)
    then show ?thesis by linarith
  qed
  have split: "(\<exists>pre suf. sts = pre @ suf \<and> length pre = ?n \<and> world_path (dc_src_world c) pre ?cw \<and> world_path ?cw suf ?cw) \<longleftrightarrow>
      world_path (dc_src_world c) sts ?cw \<and> (if ?n = 0 then dc_src_world c else sdst (sts ! (?n - 1))) = ?cw"
    if n: "?n < length sts" and path: "world_path (dc_src_world c) sts m" for m
  proof -
    have t: "length (take ?n sts) = ?n" "sts = take ?n sts @ drop ?n sts" using n by simp_all
    obtain x where x: "world_path (dc_src_world c) (take ?n sts) x" "world_path x (drop ?n sts) m"
      using path world_path_append[of "dc_src_world c" "take ?n sts" "drop ?n sts" m] by auto
    have "x = (if ?n = 0 then dc_src_world c else sdst (sts ! (?n - 1)))"
    proof (cases "?n = 0")
      case False
      then have "take ?n sts \<noteq> []" using n by auto
      then show ?thesis using world_path_last[OF x(1)] False n by (simp add: last_conv_nth)
    qed (use x(1) in simp)
    moreover have "(\<exists>pre suf. sts = pre @ suf \<and> length pre = ?n \<and> world_path (dc_src_world c) pre ?cw \<and> world_path ?cw suf ?cw) \<longleftrightarrow>
        world_path (dc_src_world c) (take ?n sts) ?cw \<and> world_path ?cw (drop ?n sts) ?cw"
      using t by (metis append_eq_conv_conj)
    moreover have "world_path (dc_src_world c) sts ?cw \<longleftrightarrow> (\<exists>y. world_path (dc_src_world c) (take ?n sts) y \<and> world_path y (drop ?n sts) ?cw)"
      using world_path_append[of "dc_src_world c" "take ?n sts" "drop ?n sts" ?cw] by simp
    ultimately show ?thesis using x(1) world_path_fun by metis
  qed
  have "check_divergence_inner blake3 c pr sts \<noteq> None"
  proof (cases "\<exists>j m. ?v = Inr j \<and> ?w = Inr m")
    case True
    then obtain j m where vm: "?v = Inr j" "?w = Inr m" by blast
    then show ?thesis using entry[OF vm] unfolding check_divergence_inner_def Let_def vm by (auto simp: map_err_def)
  qed (auto simp: check_divergence_inner_def Let_def map_err_def split: sum.split)
  then show "check_divergence_certificate blake3 c pr sts \<noteq> None" by (simp add: check_divergence_certificate_def)
  have "check_divergence_certificate blake3 c pr sts = Some (CertVerified i) \<longleftrightarrow> check_divergence_inner blake3 c pr sts = Some (Inr i)"
    by (cases "check_divergence_inner blake3 c pr sts"; cases "the (check_divergence_inner blake3 c pr sts)")
      (simp_all add: check_divergence_certificate_def)
  also have "\<dots> \<longleftrightarrow> divergence_holds blake3 c pr sts \<and> i = divergence_certificate_id blake3 c"
  proof (cases "\<exists>j m. ?v = Inr j \<and> ?w = Inr m")
    case True
    then obtain j m where vm: "?v = Inr j" "?w = Inr m" by blast
    note s = split[OF entry[OF vm], of m]
    have "check_divergence_inner blake3 c pr sts = Some (Inr i) \<longleftrightarrow>
        declares (pr_assumptions pr) HistoryIndependence \<and> declares (pr_assumptions pr) PhaseStableKeying \<and>
        (if ?n = 0 then dc_src_world c else sdst (sts ! (?n - 1))) = ?cw \<and> m = ?cw \<and> dc_cycle_policy c = dc_policy c \<and> i = j"
      using entry[OF vm] unfolding check_divergence_inner_def Let_def vm by (auto simp: map_err_def)
    also have "\<dots> \<longleftrightarrow> divergence_holds blake3 c pr sts \<and> i = divergence_certificate_id blake3 c"
      using vm(1)[unfolded v] vm(2)[unfolded w] s world_path_fun unfolding divergence_holds_def by metis
    finally show ?thesis .
  next
    case False
    have "check_divergence_inner blake3 c pr sts \<noteq> Some (Inr i)"
      using False by (auto simp: check_divergence_inner_def Let_def map_err_def split: sum.split if_splits)
    moreover have "\<not> divergence_holds blake3 c pr sts"
    proof
      assume h: "divergence_holds blake3 c pr sts"
      then have "?v = Inr (divergence_certificate_id blake3 c)" unfolding v divergence_holds_def by blast
      moreover have "\<exists>m. ?w = Inr m" using h unfolding w divergence_holds_def by (metis world_path_append)
      ultimately show False using False by blast
    qed
    ultimately show ?thesis by blast
  qed
  finally show "check_divergence_certificate blake3 c pr sts = Some (CertVerified i) \<longleftrightarrow>
      divergence_holds blake3 c pr sts \<and> i = divergence_certificate_id blake3 c" .
qed

lemma divergence_length:
  assumes "divergence_wf c" "length (dc_lasso c) \<le> 2 ^ 33"
  shows "fits (encode_divergence_v1 c)"
proof -
  have u: "length (uint_bytes (ucast x)) \<le> 17" for x :: u64 using length_uint_bytes by simp
  have h: "length (sat_head_bytes DIVERGENCE_MARKER (divergence_head c)) \<le> 400"
    using assms(1) length_framed_le[of DIVERGENCE_MARKER] length_framed_le[of "as_bytes SATURATION_PROFILE_V1"] u[of SAT_CERTIFICATE_FORMAT_V1]
    by (simp add: sat_head_bytes_def divergence_wf_def sat_head_wf_def length_framed_digest DIVERGENCE_MARKER_def SATURATION_PROFILE_V1_def
        as_bytes_def)
  have "length (digests_bytes (dc_lasso c)) \<le> 34 * 2 ^ 33" using assms by (simp add: length_digests divergence_wf_def)
  then have "length (encode_divergence_v1 c) \<le> 400 + 34 * 2 ^ 33 + 300"
    using assms(1) h u[of "dc_stem c"] u[of "dc_cycle c"] u[of "assumption_ordinal (dc_assumptions c)"] u[of "outcome_ordinal (dc_grade c)"]
    unfolding encode_divergence_bytes by (simp add: divergence_wf_def length_framed_digest)
  then show ?thesis by (simp add: fits_def)
qed

lemma made_divergence:
  assumes wf: "presentation_wf blake3 pr" and n: "length (pre @ suf) \<le> 2 ^ 33" "suf \<noteq> []"
    and h: "hides blake3 pr keyer ph e pre e1" "hides blake3 pr keyer ph e (pre @ suf) e2" "project e1 = project e2"
    and a: "declares (pr_assumptions pr) HistoryIndependence" "declares (pr_assumptions pr) PhaseStableKeying"
    and c: "lasso_certificate blake3 pr e e2 pre suf c"
  shows "divergence_wf c" "divergence_holds blake3 c pr (pre @ suf)"
proof -
  note c = c[unfolded lasso_certificate_def]
  note b = wf[unfolded presentation_wf_def]
  have u: "unat (word_of_nat k :: u64) = k" if "k \<le> 2 ^ 33" for k using that by (simp add: unat_of_nat)
  have k: "length pre \<le> 2 ^ 33" "length suf \<le> 2 ^ 33" using n(1) by simp_all
  have s: "unat (dc_stem c) = length pre" using c u[OF k(1)] by simp
  have y: "unat (dc_cycle c) = length suf" using c u[OF k(2)] by simp
  have d: "wf_digest (committed_step_digest blake3 st)" for st
    using b by (simp add: committed_step_digest_def writer_digest_def digest_of_def)
  have w: "wf_digest (dc_policy c)" "wf_digest (dc_src_world c)" "wf_digest (dc_cycle_world c)" "wf_digest (dc_cycle_policy c)"
    using c resolve_wf[OF wf] by blast+
  have "dc_cycle c \<noteq> 0" using y n(2) by auto
  moreover have "length pre + length suf < 2 ^ 64" using n(1) by simp
  ultimately show W: "divergence_wf c" using b c w d s y
    by (auto simp: divergence_wf_def sat_head_wf_def divergence_head_def list_all_iff)
  have "world e1 = world e2" using h(3) by (simp add: project_def)
  then have p: "world_path (dc_src_world c) pre (dc_cycle_world c)" "world_path (dc_src_world c) (pre @ suf) (dc_cycle_world c)"
    using hides_world_path[OF h(1)] hides_world_path[OF h(2)] c by fastforce+
  then have q: "world_path (dc_cycle_world c) suf (dc_cycle_world c)" using world_path_fun unfolding world_path_append by metis
  have "policy e2 = policy e" using hides_policy[OF h(2)] .
  then have pol: "dc_cycle_policy c = dc_policy c" using c by auto
  have ex: "\<exists>pre' suf'. pre @ suf = pre' @ suf' \<and> length pre' = unat (dc_stem c) \<and>
      world_path (dc_src_world c) pre' (dc_cycle_world c) \<and> world_path (dc_cycle_world c) suf' (dc_cycle_world c)"
    using p(1) q s by (intro exI[of _ pre] exI[of _ suf]) simp
  have f: "dc_context c = pr_context pr" "dc_profile c = op_id (pr_profile pr)" "dc_presentation c = pr_id pr"
    "dc_lasso c = map (committed_step_digest blake3) (pre @ suf)"
    using c by simp_all
  show "divergence_holds blake3 c pr (pre @ suf)"
    unfolding divergence_holds_def by (intro conjI W f a hides_admin[OF h(2)] ex pol)
qed

section \<open>Properties\<close>

text \<open>
  The envelopes are pinned: bytes decode as a quiescence or a divergence certificate exactly when
  they are the encoding of a certificate with 32-byte digests, the grade of its kind, and, for a
  divergence, as many steps as stem and non-empty cycle together.
\<close>

theorem certificate_envelopes_exact:
  assumes "fits bs"
  shows "(decode_quiescence_v1 bs = Inr q \<longleftrightarrow> quiescence_wf q \<and> bs = encode_quiescence_v1 q) \<and>
    (decode_divergence_v1 bs = Inr d \<longleftrightarrow> divergence_wf d \<and> bs = encode_divergence_v1 d)"
  using envelope_decode_exact[OF assms] by blast

definition demo_divergence :: divergence_certificate where
  "demo_divergence = (let z = replicate 32 0 in
     \<lparr>dc_profile = z, dc_context = z, dc_presentation = z, dc_policy = z, dc_src_world = z, dc_stem = 0, dc_cycle = 1, dc_lasso = [z],
      dc_cycle_world = z, dc_cycle_policy = z, dc_assumptions = DeclaredP1P6, dc_grade = Unknown\<rparr>)"

lemma demo_divergence_wf: "divergence_wf demo_divergence"
  by (simp add: divergence_wf_def demo_divergence_def sat_head_wf_def divergence_head_def wf_digest_def Let_def)

theorem certificate_envelopes_exact_witness:
  "decode_divergence_v1 (encode_divergence_v1 demo_divergence) = Inr demo_divergence"
proof -
  have "length (dc_lasso demo_divergence) \<le> 2 ^ 33" by (simp add: demo_divergence_def Let_def)
  from certificate_envelopes_exact[OF divergence_length[OF demo_divergence_wf this]] show ?thesis using demo_divergence_wf by blast
qed

text \<open>
  What a saturated step certifies, the checkers verify: with at least one regime, the quiescence
  certificate passes at the configuration its administrative steps lead to, and the divergence
  certificate passes with the steps of its lasso.
\<close>

theorem certified_steps_verify:
  assumes wf: "presentation_wf blake3 pr" and regimes: "pr_regimes pr \<noteq> []" and small: "unat (max_hidden_steps b) < 2 ^ 32"
    and run: "sat_step blake3 pr e ph keyer b s = (Some (r, sts, cost), s')"
  shows "(\<forall>c. r = SatQuiescent c \<longrightarrow> (\<exists>terminal. hides blake3 pr keyer ph e sts terminal \<and>
      check_quiescence_certificate blake3 c pr terminal sts = CertVerified (quiescence_certificate_id blake3 c))) \<and>
    (\<forall>c. r = SatDivergent c \<longrightarrow>
      check_divergence_certificate blake3 c pr sts = Some (CertVerified (divergence_certificate_id blake3 c)))"
proof -
  note l = sat_loop_claim[OF sat_inv_start run[unfolded sat_step_def]]
  have n: "length sts \<le> 2 ^ 32" "length sts \<le> 2 ^ 33" using l small by simp_all
  have "\<exists>terminal. hides blake3 pr keyer ph e sts terminal \<and>
      check_quiescence_certificate blake3 c pr terminal sts = CertVerified (quiescence_certificate_id blake3 c)"
    if q: "r = SatQuiescent c" for c
  proof -
    obtain e1 where e1: "hides blake3 pr keyer ph e sts e1" "cand (map sp_candidates (pr_regimes pr)) (pr_adm pr) e1 = {}"
      "make_quiescence_certificate blake3 pr e e1 sts = Some c" using l unfolding q sat_claim_def saturated_step.case by blast
    note m = made_quiescence[OF wf e1(1) n(1) e1(2,3)]
    have "quiescence_typed c" using m by (simp add: quiescence_typed_def quiescence_holds_def quiescence_wf_def quiescence_head_def)
    moreover have "fits (encode_quiescence_v1 c)"
      by (rule quiescence_length[OF m(1)]) (use m(2) n(1) in \<open>simp add: quiescence_holds_def\<close>)
    ultimately show ?thesis using check_quiescence_iff m(2) regimes e1(1) by blast
  qed
  moreover have "check_divergence_certificate blake3 c pr sts = Some (CertVerified (divergence_certificate_id blake3 c))"
    if d0: "r = SatDivergent c" for c
  proof -
    obtain pre suf e1 e2 where d: "sts = pre @ suf" "suf \<noteq> []" "hides blake3 pr keyer ph e pre e1" "hides blake3 pr keyer ph e sts e2"
      "project e1 = project e2" "declares (pr_assumptions pr) HistoryIndependence" "declares (pr_assumptions pr) PhaseStableKeying"
      "lasso_certificate blake3 pr e e2 pre suf c" using l unfolding d0 sat_claim_def saturated_step.case by blast
    note m = made_divergence[OF wf n(2)[unfolded d(1)] d(2,3) d(4)[unfolded d(1)] d(5-8)]
    have "divergence_typed c" using m(1) by (simp add: divergence_typed_def divergence_wf_def)
    moreover have "fits (encode_divergence_v1 c)"
      by (rule divergence_length[OF m(1)]) (use d(1,8) n(2) in \<open>simp add: lasso_certificate_def\<close>)
    ultimately show ?thesis using check_divergence_iff(2) m(2) d(1) by blast
  qed
  ultimately show ?thesis by blast
qed

theorem certified_steps_verify_witness:
  "\<exists>c sts. check_divergence_certificate (\<lambda>_. replicate 32 0) c
     (presented (\<lambda>_. replicate 32 0) (replicate 32 0) (snd (intern interner_new (replicate 32 0))) [spin_provider (\<lambda>_. [1])]) sts
     = Some (CertVerified (replicate 32 0))"
proof -
  let ?z = "replicate 32 0 :: digest" and ?h = "\<lambda>_ :: bytes. replicate 32 0 :: digest"
  let ?it = "snd (intern interner_new ?z)"
  let ?pr = "presented ?h ?z ?it [spin_provider (\<lambda>_. [1])]"
  have it: "by_handle ?it = [?z]" "try_resolve ?it 0 = Some ?z"
    by (simp_all add: intern_def interner_new_def Let_def try_resolve_def bt_get_def)
  obtain c sts cost where run: "sat_step ?h ?pr demo_config 0 (pure_keyer demo_key) (budget_uniform 8) () = (Some (SatDivergent c, sts, cost), ())"
    using spin_certified[OF _ _ _ it(2), of demo_config "\<lambda>_. [1]" ?h ?z] by (auto simp: demo_config_def)
  have "presentation_wf ?h ?pr"
    by (simp add: presentation_wf_def presented_def wf_digest_def partition_profile_def digest_of_def it(1))
  moreover have "pr_regimes ?pr \<noteq> []" by simp
  moreover have "unat (max_hidden_steps (budget_uniform 8)) < 2 ^ 32" by (simp add: budget_uniform_def)
  ultimately have "check_divergence_certificate ?h c ?pr sts = Some (CertVerified (divergence_certificate_id ?h c))"
    using conjunct2[OF certified_steps_verify[OF _ _ _ run]] by blast
  then show ?thesis by (auto simp: divergence_certificate_id_def digest_of_def)
qed

text \<open>
  C29. What the checkers accept: a quiescence certificate passes exactly when its claims hold of the
  presentation, the configuration and the steps, among them an empty admissible frontier at that
  configuration, and there is a regime to enumerate; a divergence certificate passes exactly when its claims
  hold of the presentation and the steps, and the check of one never runs past the steps.
\<close>

theorem certificate_checks_exact:
  assumes "quiescence_typed q" "fits (encode_quiescence_v1 q)" and "divergence_typed d" "fits (encode_divergence_v1 d)"
  shows "(check_quiescence_certificate blake3 q pr terminal sts = CertVerified i \<longleftrightarrow>
      quiescence_holds blake3 q pr terminal sts \<and> pr_regimes pr \<noteq> [] \<and> i = quiescence_certificate_id blake3 q) \<and>
    (check_divergence_certificate blake3 d pr sts = Some (CertVerified j) \<longleftrightarrow>
      divergence_holds blake3 d pr sts \<and> j = divergence_certificate_id blake3 d) \<and>
    check_divergence_certificate blake3 d pr sts \<noteq> None"
  using check_quiescence_iff[OF assms(1,2)] check_divergence_iff[OF assms(3,4)] by blast

definition demo_quiescence :: quiescence_certificate where
  "demo_quiescence = (let z = replicate 32 0 in
     \<lparr>qc_profile = z, qc_context = z, qc_presentation = z, qc_policy = z, qc_src_world = z, qc_terminal_world = z, qc_hidden = [],
      qc_prefix_chain = z, qc_regime_set = z, qc_adm_id = z, qc_enumeration = Complete, qc_grade = Derived, qc_judgement = z\<rparr>)"

lemma demo_quiescence_wf: "quiescence_wf demo_quiescence"
  by (simp add: quiescence_wf_def demo_quiescence_def sat_head_wf_def quiescence_head_def wf_digest_def Let_def)

lemma demo_certificates:
  "quiescence_typed demo_quiescence" "fits (encode_quiescence_v1 demo_quiescence)"
  "divergence_typed demo_divergence" "fits (encode_divergence_v1 demo_divergence)"
proof -
  show "quiescence_typed demo_quiescence"
    by (simp add: quiescence_typed_def quiescence_wf_def demo_quiescence_def sat_head_wf_def quiescence_head_def wf_digest_def Let_def)
  show "fits (encode_quiescence_v1 demo_quiescence)"
    by (rule quiescence_length[OF demo_quiescence_wf]) (simp add: demo_quiescence_def Let_def)
  show "divergence_typed demo_divergence" using demo_divergence_wf by (simp add: divergence_typed_def divergence_wf_def)
  show "fits (encode_divergence_v1 demo_divergence)"
    by (rule divergence_length[OF demo_divergence_wf]) (simp add: demo_divergence_def Let_def)
qed

text \<open>
  The divergence check reads the recorded steps and enumerates nothing: a presentation without
  regimes, in which every configuration is quiescent, verifies the certificate of a cycle that was never
  committed.
\<close>

definition loop_step :: committed_step where
  "loop_step = (let z = replicate 32 0 in
     \<lparr>skey = Key 0 0 z, sobservation = \<lparr>outcome_class = Derived, judgement_digest = z\<rparr>,
      sdecomposition = \<lparr>generators = [[1]], configs = [z, z], verification = Recorded\<rparr>, ssrc = z, sdst = z, switness = z\<rparr>)"

definition zero_presentation :: presentation where
  "zero_presentation = presented (\<lambda>_. replicate 32 0) (replicate 32 0) interner_new []"

lemma demo_divergence_holds: "divergence_holds (\<lambda>_. replicate 32 0) demo_divergence zero_presentation [loop_step]"
proof -
  have ex: "\<exists>pre suf. [loop_step] = pre @ suf \<and> length pre = unat (dc_stem demo_divergence) \<and>
      world_path (dc_src_world demo_divergence) pre (dc_cycle_world demo_divergence) \<and>
      world_path (dc_cycle_world demo_divergence) suf (dc_cycle_world demo_divergence)"
    by (intro exI[of _ "[]"] exI[of _ "[loop_step]"]) (simp add: demo_divergence_def loop_step_def Let_def)
  have l: "list_all (\<lambda>st. op_label (pr_profile zero_presentation) st = Inr Administrative) [loop_step]"
    by (simp add: zero_presentation_def demo_label loop_step_def Let_def)
  show ?thesis unfolding divergence_holds_def
    by (intro conjI demo_divergence_wf l ex)
      (simp_all add: demo_divergence_def zero_presentation_def Let_def presented_def assumptions_all_def committed_step_digest_def
        writer_digest_def digest_of_def partition_profile_def)
qed

lemma uncommitted_lasso_verifies:
  "check_divergence_certificate (\<lambda>_. replicate 32 0) demo_divergence zero_presentation [loop_step] =
     Some (CertVerified (divergence_certificate_id (\<lambda>_. replicate 32 0) demo_divergence))"
  "cand (map sp_candidates (pr_regimes zero_presentation)) (pr_adm zero_presentation) e = {}"
  using check_divergence_iff(2)[OF demo_certificates(3,4)] demo_divergence_holds
  by (simp_all add: zero_presentation_def cand_def)

theorem certificate_checks_exact_witness:
  "check_quiescence_certificate (\<lambda>_. replicate 32 0) demo_quiescence zero_presentation demo_config [] \<noteq> CertVerified (replicate 32 0) \<and>
   check_divergence_certificate (\<lambda>_. replicate 32 0) demo_divergence zero_presentation [loop_step] = Some (CertVerified (replicate 32 0))"
proof -
  have "pr_regimes zero_presentation = []" by (simp add: zero_presentation_def)
  moreover have "divergence_certificate_id (\<lambda>_. replicate 32 0) demo_divergence = replicate 32 0"
    by (simp add: divergence_certificate_id_def digest_of_def)
  ultimately show ?thesis
    using certificate_checks_exact[OF demo_certificates, of "\<lambda>_. replicate 32 0" zero_presentation demo_config "[]" "replicate 32 0" "replicate 32 0"]
      certificate_checks_exact[OF demo_certificates, of "\<lambda>_. replicate 32 0" zero_presentation demo_config "[loop_step]" "replicate 32 0" "replicate 32 0"]
      demo_divergence_holds by simp
qed

end
