(* ===== verification/Sat_Driver.thy ===== *)
theory Sat_Driver
  imports Sat_Certificate
begin

text \<open>
  Driving saturation: \<open>run_saturated\<close> takes saturated steps up to a stop
  (\<open>crates/soc-core/src/saturate/driver.rs\<close>), \<open>adequacy_of\<close> classifies a run
  (\<open>adequacy.rs\<close>) and \<open>check_closure\<close> walks the same trajectory with a safety predicate
  (\<open>closure.rs\<close>). The lemmas place the walks on the ticks of the unsaturated loop
  and say what each reason to give up (\<open>unknown_claim\<close>) and each adequacy report (\<open>adequacy_claim\<close>) means there.
\<close>

section \<open>The driver\<close>

datatype saturated_stop =
    StopQuiescent quiescence_certificate
  | StopDivergent divergence_certificate
  | StopUnknown saturation_unknown

definition stop_is_quiescent :: "saturated_stop \<Rightarrow> bool" where
  "stop_is_quiescent st = (case st of StopQuiescent _ \<Rightarrow> True | _ \<Rightarrow> False)"

record saturated_run =
  sr_journal :: journal
  sr_visible :: "observation list"
  sr_costs :: "cost_record list"
  sr_final :: exec_config
  sr_stop :: saturated_stop

definition visible_len :: "saturated_run \<Rightarrow> nat" where
  "visible_len r = length (sr_visible r)"

definition run_chain_digest :: "saturated_run \<Rightarrow> digest" where
  "run_chain_digest r = hdigest (jchain (sr_journal r))"

function run_saturated_loop ::
  "(bytes \<Rightarrow> bytes) \<Rightarrow> presentation \<Rightarrow> 's keyer \<Rightarrow> saturation_budget
     \<Rightarrow> journal \<Rightarrow> observation list \<Rightarrow> cost_record list \<Rightarrow> exec_config \<Rightarrow> u64 \<Rightarrow> 's \<Rightarrow> saturated_run option \<times> 's" where
  "run_saturated_loop blake3 pr keyer b j visible costs current ph s =
     (if length visible \<ge> unat (max_visible_steps b)
      then (Some \<lparr>sr_journal = j, sr_visible = visible, sr_costs = costs, sr_final = current,
              sr_stop = StopUnknown (VisibleBudgetExhausted (length visible) (max_visible_steps b))\<rparr>, s)
      else case sat_step blake3 pr current ph keyer b s of
        (None, s) \<Rightarrow> (None, s)
      | (Some (step, consumed, cost), s) \<Rightarrow>
          (let ph = saturating_add_u64 ph (length consumed);
               j = fold (journal_append blake3) consumed j;
               costs = costs @ [cost];
               stopped = \<lambda>stop. (Some \<lparr>sr_journal = j, sr_visible = visible, sr_costs = costs, sr_final = current, sr_stop = stop\<rparr>, s)
           in case step of
             Realizing ob nxt _ \<Rightarrow> run_saturated_loop blake3 pr keyer b j (visible @ [ob]) costs nxt ph s
           | SatQuiescent c \<Rightarrow> stopped (StopQuiescent c)
           | SatDivergent c \<Rightarrow> stopped (StopDivergent c)
           | SatUnknown u \<Rightarrow> stopped (StopUnknown u)))"
  by pat_completeness auto

termination
  by (relation "measure (\<lambda>(_, _, _, b, _, visible, _, _, _, _). unat (max_visible_steps b) - length visible)") auto

declare run_saturated_loop.simps [simp del]

definition run_saturated ::
  "(bytes \<Rightarrow> bytes) \<Rightarrow> presentation \<Rightarrow> exec_config \<Rightarrow> 's keyer \<Rightarrow> saturation_budget \<Rightarrow> 's \<Rightarrow> saturated_run option \<times> 's" where
  "run_saturated blake3 pr e0 keyer b s = run_saturated_loop blake3 pr keyer b (journal_new blake3) [] [] e0 0 s"

section \<open>The sub-carrier of a run\<close>

datatype fo_value = FoRealizing | FoQuiescent
datatype fo_undefined = CertifiedDivergence | Unestablished
datatype definedness = FoDefined fo_value | FoUndefined fo_undefined

fun fo_is_defined :: "definedness \<Rightarrow> bool" where
  "fo_is_defined (FoDefined _) = True"
| "fo_is_defined (FoUndefined _) = False"

fun fo_definedness :: "saturated_step \<Rightarrow> definedness" where
  "fo_definedness (Realizing _ _ _) = FoDefined FoRealizing"
| "fo_definedness (SatQuiescent _) = FoDefined FoQuiescent"
| "fo_definedness (SatDivergent _) = FoUndefined CertifiedDivergence"
| "fo_definedness (SatUnknown _) = FoUndefined Unestablished"

record adequacy_report =
  ad_outcome :: definedness
  defined_throughout :: bool
  left_at_visible_depth :: "nat option"

definition adequacy_of :: "saturated_run \<Rightarrow> adequacy_report" where
  "adequacy_of r =
     (let oc = (case sr_stop r of
                  StopQuiescent _ \<Rightarrow> FoDefined FoQuiescent
                | StopDivergent _ \<Rightarrow> FoUndefined CertifiedDivergence
                | StopUnknown _ \<Rightarrow> FoUndefined Unestablished);
          d = fo_is_defined oc
      in \<lparr>ad_outcome = oc, defined_throughout = d, left_at_visible_depth = (if d then None else Some (length (sr_visible r)))\<rparr>)"

section \<open>One-step closure\<close>

datatype closure_mode = VisibleMode | RawMode

record safety_state =
  sf_world :: config_id
  sf_policy :: config_id

datatype violation_site = InitialSite | VisibleSuccessor | AdministrativeIntermediate

record closure_violation =
  cv_mode :: closure_mode
  cv_site :: violation_site
  cv_state :: safety_state
  cv_depth :: nat

datatype closure_unknown =
    ClosureUnestablished nat saturation_unknown
  | ClosureVisibleBudget nat u64
  | UnresolvedConfiguration

datatype closure_result = Closed nat nat | Violated closure_violation | ClosureUnknown closure_unknown

definition closure_violated :: "closure_mode \<Rightarrow> violation_site \<Rightarrow> safety_state \<Rightarrow> nat \<Rightarrow> closure_result" where
  "closure_violated mode site st depth = Violated \<lparr>cv_mode = mode, cv_site = site, cv_state = st, cv_depth = depth\<rparr>"

definition canonical_state :: "presentation \<Rightarrow> observable_state \<Rightarrow> config_id \<Rightarrow> safety_state option" where
  "canonical_state pr obs pol = map_option (\<lambda>w. \<lparr>sf_world = w, sf_policy = pol\<rparr>) (try_resolve (pr_interner pr) (fst obs))"

text \<open>The scan of the committed steps in raw mode: the first state that fails, with its index.\<close>

fun raw_scan :: "(safety_state \<Rightarrow> bool) \<Rightarrow> config_id \<Rightarrow> committed_step list \<Rightarrow> nat \<Rightarrow> (nat \<times> safety_state) option" where
  "raw_scan pred pol [] i = None"
| "raw_scan pred pol (st # sts) i =
     (if \<not> pred \<lparr>sf_world = sdst st, sf_policy = pol\<rparr> then Some (i, \<lparr>sf_world = sdst st, sf_policy = pol\<rparr>)
      else raw_scan pred pol sts (i + 1))"

function closure_loop ::
  "(bytes \<Rightarrow> bytes) \<Rightarrow> presentation \<Rightarrow> (safety_state \<Rightarrow> bool) \<Rightarrow> closure_mode \<Rightarrow> 's keyer \<Rightarrow> saturation_budget \<Rightarrow> config_id
     \<Rightarrow> exec_config \<Rightarrow> nat \<Rightarrow> nat \<Rightarrow> u64 \<Rightarrow> 's \<Rightarrow> closure_result option \<times> 's" where
  "closure_loop blake3 pr pred mode keyer b pol current checked depth ph s =
     (if depth \<ge> unat (max_visible_steps b) then (Some (ClosureUnknown (ClosureVisibleBudget depth (max_visible_steps b))), s)
      else case sat_step blake3 pr current ph keyer b s of
        (None, s) \<Rightarrow> (None, s)
      | (Some (step, consumed, _), s) \<Rightarrow>
          (let ph = saturating_add_u64 ph (length consumed);
               realizing = (case step of Realizing _ _ _ \<Rightarrow> True | _ \<Rightarrow> False);
               last_index = length consumed - 1 in
           case (if mode = RawMode then raw_scan pred pol consumed 0 else None) of
             Some (i, st) \<Rightarrow>
               (Some (closure_violated mode (if realizing \<and> i = last_index then VisibleSuccessor else AdministrativeIntermediate) st depth), s)
           | None \<Rightarrow>
               (let checked = (if mode = RawMode then checked + length consumed else checked) in
                case step of
                  Realizing _ nxt _ \<Rightarrow>
                    if mode = VisibleMode
                    then (case canonical_state pr (project nxt) pol of
                            None \<Rightarrow> (Some (ClosureUnknown UnresolvedConfiguration), s)
                          | Some st \<Rightarrow>
                              if \<not> pred st then (Some (closure_violated mode VisibleSuccessor st (depth + 1)), s)
                              else closure_loop blake3 pr pred mode keyer b pol nxt (checked + 1) (depth + 1) ph s)
                    else closure_loop blake3 pr pred mode keyer b pol nxt checked (depth + 1) ph s
                | SatQuiescent _ \<Rightarrow> (Some (Closed checked depth), s)
                | SatDivergent _ \<Rightarrow> (Some (Closed checked depth), s)
                | SatUnknown u \<Rightarrow> (Some (ClosureUnknown (ClosureUnestablished depth u)), s))))"
  by pat_completeness auto

termination
  by (relation "measure (\<lambda>(_, _, _, _, _, b, _, _, _, depth, _, _). unat (max_visible_steps b) - depth)") auto

declare closure_loop.simps [simp del]

definition check_closure ::
  "(bytes \<Rightarrow> bytes) \<Rightarrow> presentation \<Rightarrow> exec_config \<Rightarrow> (safety_state \<Rightarrow> bool) \<Rightarrow> closure_mode \<Rightarrow> 's keyer \<Rightarrow> saturation_budget \<Rightarrow> 's
     \<Rightarrow> closure_result option \<times> 's" where
  "check_closure blake3 pr e0 pred mode keyer b s =
     (case try_resolve (pr_interner pr) (policy e0) of
        None \<Rightarrow> (Some (ClosureUnknown UnresolvedConfiguration), s)
      | Some pol \<Rightarrow>
          (case canonical_state pr (project e0) pol of
             None \<Rightarrow> (Some (ClosureUnknown UnresolvedConfiguration), s)
           | Some st \<Rightarrow>
               if \<not> pred st then (Some (closure_violated mode InitialSite st 0), s)
               else closure_loop blake3 pr pred mode keyer b pol e0 1 0 0 s))"

section \<open>Paths of ticks\<close>

inductive ticks ::
  "(bytes \<Rightarrow> bytes) \<Rightarrow> presentation \<Rightarrow> 's keyer \<Rightarrow> u64 \<Rightarrow> exec_config \<Rightarrow> committed_step list \<Rightarrow> exec_config \<Rightarrow> bool"
  for blake3 pr keyer ph e where
  ticks_nil: "ticks blake3 pr keyer ph e [] e"
| ticks_snoc:
    "ticks blake3 pr keyer ph e sts e1 \<Longrightarrow> gamma blake3 pr keyer (saturating_add_u64 ph (length sts)) e1 st e2 \<Longrightarrow>
     ticks blake3 pr keyer ph e (sts @ [st]) e2"

lemma unat_saturating_add: "unat (saturating_add_u64 a n) = min (unat a + n) (2 ^ 64 - 1)"
proof (cases "unat a + n < 2 ^ 64")
  case True
  then have n: "n < 2 ^ 64" by simp
  then have "unat (word_of_nat n :: u64) = n" by (simp add: unat_of_nat)
  then show ?thesis using True by (simp add: saturating_add_u64_def unat_word_ariths)
next
  case False
  have "unat (-1 :: u64) = 2 ^ 64 - 1" by (simp add: unsigned_minus_1_eq_mask mask_eq_exp_minus_1)
  then show ?thesis using False by (simp add: saturating_add_u64_def)
qed

lemma saturating_add_add: "saturating_add_u64 (saturating_add_u64 a m) n = saturating_add_u64 a (m + n)"
  by (simp add: word_unat_eq_iff unat_saturating_add)

lemma saturating_add_zero: "saturating_add_u64 a 0 = a"
proof -
  have "unat a < 2 ^ LENGTH(64)" by (rule unsigned_less)
  then show ?thesis by (simp add: saturating_add_u64_def)
qed

lemma saturating_add_small: "n < 2 ^ 64 \<Longrightarrow> saturating_add_u64 0 n = word_of_nat n"
  by (simp add: saturating_add_u64_def)

lemma hides_ticks: "hides blake3 pr keyer ph e sts e1 \<Longrightarrow> ticks blake3 pr keyer ph e sts e1"
  by (induction rule: hides.induct) (auto intro: ticks.intros)

lemma ticks_append:
  "ticks blake3 pr keyer ph' e1 ys e2 \<Longrightarrow> ph' = saturating_add_u64 ph (length xs) \<Longrightarrow> ticks blake3 pr keyer ph e xs e1 \<Longrightarrow>
     ticks blake3 pr keyer ph e (xs @ ys) e2"
proof (induction rule: ticks.induct)
  case (ticks_snoc sts e2 st e3)
  have "gamma blake3 pr keyer (saturating_add_u64 ph (length (xs @ sts))) e2 st e3"
    using ticks_snoc.hyps(2) ticks_snoc.prems(1) by (simp add: saturating_add_add)
  then show ?case using ticks.ticks_snoc[of blake3 pr keyer ph e "xs @ sts" e2 st e3] ticks_snoc by simp
qed simp

definition visible_part :: "presentation \<Rightarrow> committed_step list \<Rightarrow> observation list" where
  "visible_part pr sts = map sobservation (filter (\<lambda>st. op_label (pr_profile pr) st = Inr RealizingLabel) sts)"

lemma hides_invisible: "hides blake3 pr keyer ph e sts e1 \<Longrightarrow> visible_part pr sts = []"
  using hides_admin[of blake3 pr keyer ph e sts e1] by (auto simp: visible_part_def filter_empty_conv list_all_iff)

lemma visible_part_append: "visible_part pr (xs @ ys) = visible_part pr xs @ visible_part pr ys"
  by (simp add: visible_part_def)

lemma sat_claim_ticks:
  assumes "sat_claim blake3 pr keyer ph e r sts"
  shows "\<exists>e1. ticks blake3 pr keyer ph e sts e1 \<and> visible_part pr sts = (case r of Realizing ob _ _ \<Rightarrow> [ob] | _ \<Rightarrow> []) \<and>
    (\<forall>ob nxt n. r = Realizing ob nxt n \<longrightarrow> e1 = nxt)"
proof (cases r)
  case (Realizing ob nxt n)
  then obtain pre st e1 where p: "sts = pre @ [st]" "length pre = n" "hides blake3 pr keyer ph e pre e1"
    "gamma blake3 pr keyer (saturating_add_u64 ph n) e1 st nxt" "op_label (pr_profile pr) st = Inr RealizingLabel" "ob = sobservation st"
    using assms unfolding sat_claim_def by auto
  then have "ticks blake3 pr keyer ph e sts nxt" using ticks_snoc[OF hides_ticks[OF p(3)]] by simp
  moreover have "visible_part pr sts = [ob]"
    using p hides_invisible[OF p(3)] by (simp add: visible_part_append) (simp add: visible_part_def)
  ultimately show ?thesis using Realizing by auto
next
  case (SatUnknown u)
  consider e1 where "hides blake3 pr keyer ph e sts e1"
    | pre st e1 e2 err where "sts = pre @ [st]" "hides blake3 pr keyer ph e pre e1"
        "gamma blake3 pr keyer (saturating_add_u64 ph (length pre)) e1 st e2" "op_label (pr_profile pr) st = Inl err"
    using assms unfolding SatUnknown sat_claim_def by auto
  then show ?thesis
  proof cases
    case 1
    then show ?thesis using hides_ticks hides_invisible SatUnknown by fastforce
  next
    case 2
    then have "ticks blake3 pr keyer ph e sts e2" using ticks_snoc[OF hides_ticks[OF 2(2)] 2(3)] by simp
    moreover have "visible_part pr sts = []"
      using 2 hides_invisible[OF 2(2)] by (simp add: visible_part_append) (simp add: visible_part_def)
    ultimately show ?thesis using SatUnknown by auto
  qed
qed (use assms hides_ticks hides_invisible in \<open>fastforce simp: sat_claim_def\<close>)+

text \<open>The unsaturated driver takes the same ticks.\<close>

lemma ticks_run_loop:
  assumes "ticks blake3 pr (pure_keyer kf) 0 e sts e1" "length sts \<le> 2 ^ 64"
  shows "\<exists>costs. run_loop blake3 (pr_regimes pr) (pr_adm pr) (pr_interner pr) (pr_context pr) (pure_keyer kf) m 0 (length sts + n) e j [] () =
    run_loop blake3 (pr_regimes pr) (pr_adm pr) (pr_interner pr) (pr_context pr) (pure_keyer kf) m (length sts) n e1
      (fold (journal_append blake3) sts j) costs ()"
  using assms
proof (induction arbitrary: n rule: ticks.induct)
  case ticks_nil
  show ?case by (intro exI[of _ "[]"]) simp
next
  case (ticks_snoc sts e1 st e2)
  have l: "length sts \<le> 2 ^ 64" "length sts < 2 ^ 64" using ticks_snoc.prems by simp_all
  obtain costs where r: "run_loop blake3 (pr_regimes pr) (pr_adm pr) (pr_interner pr) (pr_context pr) (pure_keyer kf) m 0 (length sts + Suc n) e j [] () =
    run_loop blake3 (pr_regimes pr) (pr_adm pr) (pr_interner pr) (pr_context pr) (pure_keyer kf) m (length sts) (Suc n) e1
      (fold (journal_append blake3) sts j) costs ()"
    using ticks_snoc.IH[OF l(1)] by blast
  obtain cost where t: "try_commit_tick blake3 (pr_regimes pr) (pr_adm pr) (pr_interner pr) e1 (pr_context pr) (word_of_nat (length sts))
      (pure_keyer kf) () = (Inr (Step (sobservation st) e2, Some st, cost), ())"
    using ticks_snoc.hyps(2) l(2) by (auto simp: gamma_def saturating_add_small)
  have len: "length (sts @ [st]) + n = length sts + Suc n" by simp
  show ?case unfolding len r run_loop.simps commit_tick_def t by (intro exI[of _ "costs @ [cost]"]) simp
qed

section \<open>Why a step gives up\<close>

text \<open>
  A walk that comes back: \<open>pre\<close> leads to \<open>e1\<close>, the longer \<open>sts\<close> to \<open>e2\<close> with the same world and policy.
\<close>

definition revisits ::
  "(bytes \<Rightarrow> bytes) \<Rightarrow> presentation \<Rightarrow> 's keyer \<Rightarrow> u64 \<Rightarrow> exec_config \<Rightarrow> committed_step list \<Rightarrow> exec_config
     \<Rightarrow> committed_step list \<Rightarrow> exec_config \<Rightarrow> bool" where
  "revisits blake3 pr keyer ph e pre e1 sts e2 \<longleftrightarrow>
     hides blake3 pr keyer ph e pre e1 \<and> hides blake3 pr keyer ph e sts e2 \<and> project e1 = project e2 \<and>
     (\<exists>suf. suf \<noteq> [] \<and> sts = pre @ suf)"

definition keys_agree :: "(candidate \<Rightarrow> u64 \<Rightarrow> key) \<Rightarrow> candidate \<Rightarrow> u64 \<Rightarrow> u64 \<Rightarrow> bool" where
  "keys_agree kf c p q \<longleftrightarrow> (priority (kf c p), tiebreak (kf c p)) = (priority (kf c q), tiebreak (kf c q))"

abbreviation cands_at :: "presentation \<Rightarrow> exec_config \<Rightarrow> candidate set" where
  "cands_at pr e \<equiv> cand (map sp_candidates (pr_regimes pr)) (pr_adm pr) e"

text \<open>What each reason says about the ticks \<open>sts\<close> that the step took from \<open>e\<close>.\<close>

definition unknown_claim ::
  "(bytes \<Rightarrow> bytes) \<Rightarrow> presentation \<Rightarrow> (candidate \<Rightarrow> u64 \<Rightarrow> key) \<Rightarrow> saturation_budget \<Rightarrow> u64 \<Rightarrow> exec_config
     \<Rightarrow> saturation_unknown \<Rightarrow> committed_step list \<Rightarrow> bool" where
  "unknown_claim blake3 pr kf b ph e u sts \<longleftrightarrow>
     (case u of
        AdministrativeBudgetExhausted n m \<Rightarrow>
          m = max_hidden_steps b \<and> n = unat m + 1 \<and> n = length sts \<and> (\<exists>e1. hides blake3 pr (pure_keyer kf) ph e sts e1)
      | AdministrativeStateBudgetExhausted n m \<Rightarrow>
          m = max_administrative_states b \<and> n = max 1 (unat m) \<and> n = length sts \<and> (\<exists>e1. hides blake3 pr (pure_keyer kf) ph e sts e1)
      | VisibleBudgetExhausted n m \<Rightarrow> False
      | SatProfileError n err \<Rightarrow>
          (\<exists>pre st e1 e2. sts = pre @ [st] \<and> n = length pre \<and> hides blake3 pr (pure_keyer kf) ph e pre e1 \<and>
             gamma blake3 pr (pure_keyer kf) (saturating_add_u64 ph n) e1 st e2 \<and> op_label (pr_profile pr) st = Inl err)
      | CommitFailed n err \<Rightarrow>
          n = length sts \<and> err \<noteq> CommitPanicked \<and> (\<exists>e1. hides blake3 pr (pure_keyer kf) ph e sts e1 \<and>
             fst (try_commit_tick blake3 (pr_regimes pr) (pr_adm pr) (pr_interner pr) e1 (pr_context pr) (saturating_add_u64 ph n)
               (pure_keyer kf) ()) = Inl (TickCommit err))
      | SatKeyConflict n \<Rightarrow>
          n = length sts \<and> (\<exists>e1 c. hides blake3 pr (pure_keyer kf) ph e sts e1 \<and>
             fst (try_commit_tick blake3 (pr_regimes pr) (pr_adm pr) (pr_interner pr) e1 (pr_context pr) (saturating_add_u64 ph n)
               (pure_keyer kf) ()) = Inl (TickKeyConflict c))
      | UndeclaredAssumption a \<Rightarrow>
          \<not> declares (pr_assumptions pr) a \<and> (\<exists>pre e1 e2. revisits blake3 pr (pure_keyer kf) ph e pre e1 sts e2)
      | AssumptionViolated a n \<Rightarrow>
          n = length sts \<and> declares (pr_assumptions pr) HistoryIndependence \<and> declares (pr_assumptions pr) PhaseStableKeying \<and>
          (\<exists>pre e1 e2. revisits blake3 pr (pure_keyer kf) ph e pre e1 sts e2 \<and>
             (case a of
                HistoryIndependence \<Rightarrow> cands_at pr e1 \<noteq> cands_at pr e2
              | PhaseStableKeying \<Rightarrow> cands_at pr e1 = cands_at pr e2 \<and>
                  (\<exists>c \<in> cands_at pr e2. \<not> keys_agree kf c (saturating_add_u64 ph (length pre)) (saturating_add_u64 ph n)))))"

lemma candidates_in_order_set: "set (candidates_in_order cs) \<subseteq> cs"
proof (cases "finite ((\<lambda>c. (cwitness c, successor c)) ` cs)")
  case True
  have eta: "\<lparr>cwitness = cwitness c, successor = successor c\<rparr> = c" for c :: candidate by (cases c) simp
  show ?thesis
  proof
    fix x assume "x \<in> set (candidates_in_order cs)"
    then obtain c where "c \<in> cs" "x = \<lparr>cwitness = cwitness c, successor = successor c\<rparr>"
      using True by (auto simp: candidates_in_order_def)
    then show "x \<in> cs" unfolding eta by simp
  qed
next
  case False
  then show ?thesis by (simp add: candidates_in_order_def)
qed

lemma phase_check_pure:
  "phase_check (pure_keyer kf) p q cs () = (list_all (\<lambda>c. keys_agree kf c p q) cs, ())"
  by (induction cs) (auto simp: keys_agree_def)

lemma close_lasso_reason:
  assumes inv: "sat_inv blake3 pr (pure_keyer kf) ph e b current consumed hidden visited"
    and h: "hides blake3 pr (pure_keyer kf) ph e (consumed @ [st]) nxt"
    and prev: "bt_get visited (project nxt) = Some previous"
    and c: "close_lasso blake3 pr e nxt (consumed @ [st]) previous ph (pure_keyer kf) () = (Some (SatUnknown u), s')"
  shows "unknown_claim blake3 pr kf b ph e u (consumed @ [st])"
proof -
  let ?pre = "take (vindex previous) consumed"
  obtain e1 where e1: "vindex previous \<le> length consumed" "hides blake3 pr (pure_keyer kf) ph e ?pre e1" "project e1 = project nxt"
    "previous = record_visit pr e1 (vindex previous)"
    using inv prev unfolding sat_inv_def by blast
  have rev: "revisits blake3 pr (pure_keyer kf) ph e ?pre e1 (consumed @ [st]) nxt"
    unfolding revisits_def using e1(2,3) h by (intro conjI exI[of _ "drop (vindex previous) consumed @ [st]"]) simp_all
  have l: "length ?pre = vindex previous" using e1(1) by simp
  have baseline: "declares (pr_assumptions pr) HistoryIndependence \<Longrightarrow> vcandidates previous = Some (cands_at pr e1)"
    by (subst e1(4)) (simp add: record_visit_def enumeration_cand)
  consider a where "\<not> declares (pr_assumptions pr) a" "u = UndeclaredAssumption a"
    | "declares (pr_assumptions pr) HistoryIndependence" "declares (pr_assumptions pr) PhaseStableKeying"
      "cands_at pr e1 \<noteq> cands_at pr nxt" "u = AssumptionViolated HistoryIndependence (length (consumed @ [st]))"
    | "declares (pr_assumptions pr) HistoryIndependence" "declares (pr_assumptions pr) PhaseStableKeying"
      "cands_at pr e1 = cands_at pr nxt" "u = AssumptionViolated PhaseStableKeying (length (consumed @ [st]))"
      "\<not> list_all (\<lambda>c. keys_agree kf c (saturating_add_u64 ph (vindex previous)) (saturating_add_u64 ph (length (consumed @ [st]))))
         (candidates_in_order (cands_at pr nxt))"
    using c baseline unfolding close_lasso_def Let_def phase_check_pure enumeration_cand
    by (auto split: if_splits option.splits bool.splits)
  then show ?thesis
  proof cases
    case 3
    then obtain x where "x \<in> set (candidates_in_order (cands_at pr nxt))"
      "\<not> keys_agree kf x (saturating_add_u64 ph (length ?pre)) (saturating_add_u64 ph (length (consumed @ [st])))"
      unfolding l list_all_iff by blast
    then have "\<exists>x \<in> cands_at pr nxt. \<not> keys_agree kf x (saturating_add_u64 ph (length ?pre)) (saturating_add_u64 ph (length (consumed @ [st])))"
      using candidates_in_order_set by blast
    then show ?thesis unfolding unknown_claim_def 3(4) saturation_unknown.case assumption_id.case using 3(1-3) rev by blast
  next
    case 2
    then show ?thesis unfolding unknown_claim_def 2(4) saturation_unknown.case assumption_id.case using rev by blast
  next
    case 1
    then show ?thesis unfolding unknown_claim_def 1(2) saturation_unknown.case using rev by blast
  qed
qed

lemma sat_loop_reason:
  assumes "sat_inv blake3 pr (pure_keyer kf) ph e b current consumed hidden visited"
    and "sat_loop blake3 pr e ph (pure_keyer kf) b current consumed work hidden visited () = (Some (SatUnknown u, sts, cost), s')"
  shows "unknown_claim blake3 pr kf b ph e u sts"
  using assms
proof (induction "unat (max_hidden_steps b) + 1 - hidden" arbitrary: current consumed work hidden visited rule: less_induct)
  case less
  note inv = less.prems(1)
  have h: "hides blake3 pr (pure_keyer kf) ph e consumed current" and len: "hidden = length consumed" "length visited = hidden + 1"
    and small: "hidden = 0 \<or> hidden \<le> unat (max_hidden_steps b) \<and> hidden < unat (max_administrative_states b)"
    using inv unfolding sat_inv_def by auto
  note h' = hides_snoc[OF h]
  show ?case
  proof (cases rule: sat_loop_cases[of blake3 pr e ph "pure_keyer kf" b current consumed work hidden visited "()"])
    case (Stuck v s1)
    obtain err where t: "try_commit_tick blake3 (pr_regimes pr) (pr_adm pr) (pr_interner pr) current (pr_context pr)
        (saturating_add_u64 ph (length consumed)) (pure_keyer kf) () = (Inl err, s1)" "err \<noteq> TickCommit CommitPanicked"
      "v = refused_tick (length consumed) err"
      using Stuck(2) by blast
    have uv: "u = v" "sts = consumed" using less.prems(2) unfolding Stuck(1) by simp_all
    show ?thesis using h t(2) t(1)[THEN arg_cong[where f = fst], unfolded fst_conv] unfolding uv t(3) unknown_claim_def
      by (cases err) auto
  next
    case (Unlabelled st nxt err wk s1)
    then have "u = SatProfileError (length consumed) err" "sts = consumed @ [st]" using less.prems(2) by simp_all
    then show ?thesis using h Unlabelled(1,2) by (auto simp: unknown_claim_def)
  next
    case (Closed st nxt previous wk s1 res s2)
    have "sts = consumed @ [st]" "res = Some (SatUnknown u)" using Closed(5) less.prems(2) by (cases res; auto)+
    then show ?thesis using close_lasso_reason[OF inv h'[OF Closed(1,2)] Closed(3)] Closed(4) by simp
  next
    case (Continue st nxt wk s1)
    have "unat (max_hidden_steps b) + 1 - (hidden + 1) < unat (max_hidden_steps b) + 1 - hidden" using Continue(5) by simp
    from less.hyps[OF this sat_inv_next[OF inv Continue(1-5)]] show ?thesis using less.prems(2) Continue(6) by simp
  next
    case (Exhausted st nxt v wk s1)
    then have "u = v" "sts = consumed @ [st]" using less.prems(2) by simp_all
    then show ?thesis using Exhausted(5) h'[OF Exhausted(1,2)] small len by (auto simp: unknown_claim_def)
  next
    case (Empty cs s1)
    then show ?thesis using less.prems(2) by (cases "make_quiescence_certificate blake3 pr e current consumed") auto
  qed (use less.prems(2) in simp_all)
qed

lemma sat_step_reason:
  assumes "sat_step blake3 pr e ph (pure_keyer kf) b s = (Some (SatUnknown u, sts, cost), s')"
  shows "unknown_claim blake3 pr kf b ph e u sts"
  using sat_loop_reason[OF sat_inv_start] assms unfolding sat_step_def by (cases s) metis

section \<open>What a run returns\<close>

text \<open>\<open>Q\<close> is what is known of a step that gives up, \<open>n\<close> the number of observations exported before it.\<close>

definition stop_claim ::
  "(bytes \<Rightarrow> bytes) \<Rightarrow> presentation \<Rightarrow> 's keyer \<Rightarrow> saturation_budget \<Rightarrow> (u64 \<Rightarrow> exec_config \<Rightarrow> saturation_unknown \<Rightarrow> committed_step list \<Rightarrow> bool)
     \<Rightarrow> u64 \<Rightarrow> exec_config \<Rightarrow> nat \<Rightarrow> saturated_stop \<Rightarrow> committed_step list \<Rightarrow> bool" where
  "stop_claim blake3 pr keyer b Q ph e n stop sts \<longleftrightarrow>
     (case stop of
        StopQuiescent c \<Rightarrow> sat_claim blake3 pr keyer ph e (SatQuiescent c) sts
      | StopDivergent c \<Rightarrow> sat_claim blake3 pr keyer ph e (SatDivergent c) sts
      | StopUnknown u \<Rightarrow>
          Q ph e u sts \<or> sts = [] \<and> u = VisibleBudgetExhausted n (max_visible_steps b) \<and> unat (max_visible_steps b) \<le> n)"

definition run_claim ::
  "(bytes \<Rightarrow> bytes) \<Rightarrow> presentation \<Rightarrow> 's keyer \<Rightarrow> exec_config \<Rightarrow> saturation_budget
     \<Rightarrow> (u64 \<Rightarrow> exec_config \<Rightarrow> saturation_unknown \<Rightarrow> committed_step list \<Rightarrow> bool) \<Rightarrow> saturated_run \<Rightarrow> bool" where
  "run_claim blake3 pr keyer e0 b Q r \<longleftrightarrow>
     (\<exists>before after e1. sr_journal r = fold (journal_append blake3) (before @ after) (journal_new blake3) \<and>
        ticks blake3 pr keyer 0 e0 before (sr_final r) \<and> ticks blake3 pr keyer 0 e0 (before @ after) e1 \<and>
        sr_visible r = visible_part pr (before @ after) \<and>
        stop_claim blake3 pr keyer b Q (saturating_add_u64 0 (length before)) (sr_final r) (length (sr_visible r)) (sr_stop r) after)"

lemma sat_step_claim:
  assumes "sat_step blake3 pr e ph keyer b s = (Some (r, sts, cost), s')"
  shows "sat_claim blake3 pr keyer ph e r sts"
  using sat_loop_claim[OF sat_inv_start assms[unfolded sat_step_def]] by blast

lemma run_loop_claim:
  assumes "ticks blake3 pr keyer 0 e0 taken current"
    and "run_saturated_loop blake3 pr keyer b (fold (journal_append blake3) taken (journal_new blake3)) (visible_part pr taken) costs current
      (saturating_add_u64 0 (length taken)) s = (Some r, s')"
    and gives_up: "\<And>e ph s u sts cost s'. sat_step blake3 pr e ph keyer b s = (Some (SatUnknown u, sts, cost), s') \<Longrightarrow> Q ph e u sts"
  shows "run_claim blake3 pr keyer e0 b Q r"
  using assms(1,2)
proof (induction "unat (max_visible_steps b) - length (visible_part pr taken)" arbitrary: taken costs current s rule: less_induct)
  case less
  let ?ph = "saturating_add_u64 0 (length taken)"
  note run = less.prems(2)[unfolded run_saturated_loop.simps[of blake3 pr keyer b "fold (journal_append blake3) taken (journal_new blake3)"
        "visible_part pr taken" costs current ?ph s] Let_def]
  show ?case
  proof (cases "unat (max_visible_steps b) \<le> length (visible_part pr taken)")
    case True
    then have r: "r = \<lparr>sr_journal = fold (journal_append blake3) taken (journal_new blake3), sr_visible = visible_part pr taken,
        sr_costs = costs, sr_final = current,
        sr_stop = StopUnknown (VisibleBudgetExhausted (length (visible_part pr taken)) (max_visible_steps b))\<rparr>" using run by simp
    show ?thesis unfolding run_claim_def
      by (intro exI[of _ "taken"] exI[of _ "[]"] exI[of _ current]) (use True less.prems(1) in \<open>simp add: r stop_claim_def\<close>)
  next
    case False
    then obtain step consumed cost s1 where st: "sat_step blake3 pr current ?ph keyer b s = (Some (step, consumed, cost), s1)"
      using run by (cases "sat_step blake3 pr current ?ph keyer b s") (auto split: option.splits)
    note claim = sat_step_claim[OF st]
    obtain e1 where e1: "ticks blake3 pr keyer ?ph current consumed e1"
      "visible_part pr consumed = (case step of Realizing ob _ _ \<Rightarrow> [ob] | _ \<Rightarrow> [])" "\<And>ob nxt n. step = Realizing ob nxt n \<Longrightarrow> e1 = nxt"
      using sat_claim_ticks[OF claim] by blast
    have t: "ticks blake3 pr keyer 0 e0 (taken @ consumed) e1" using ticks_append[OF e1(1) refl less.prems(1)] .
    have stop: "run_claim blake3 pr keyer e0 b Q r"
      if "r = \<lparr>sr_journal = fold (journal_append blake3) (taken @ consumed) (journal_new blake3), sr_visible = visible_part pr taken,
          sr_costs = costs @ [cost], sr_final = current, sr_stop = stop\<rparr>" "visible_part pr consumed = []"
        "stop_claim blake3 pr keyer b Q ?ph current (length (visible_part pr taken)) stop consumed" for stop
      unfolding run_claim_def
      by (intro exI[of _ "taken"] exI[of _ consumed] exI[of _ e1]) (use that t less.prems(1) in \<open>simp add: visible_part_append\<close>)
    show ?thesis
    proof (cases step)
      case (Realizing ob nxt n)
      have v: "visible_part pr (taken @ consumed) = visible_part pr taken @ [ob]" using e1(2) Realizing by (simp add: visible_part_append)
      have "unat (max_visible_steps b) - length (visible_part pr (taken @ consumed)) < unat (max_visible_steps b) - length (visible_part pr taken)"
        using False v by simp
      moreover have "run_saturated_loop blake3 pr keyer b (fold (journal_append blake3) (taken @ consumed) (journal_new blake3))
          (visible_part pr (taken @ consumed)) (costs @ [cost]) nxt (saturating_add_u64 0 (length (taken @ consumed))) s1 = (Some r, s')"
        using run False unfolding v by (simp add: st Realizing saturating_add_add)
      ultimately show ?thesis using less.hyps t e1(3)[OF Realizing] by blast
    next
      case (SatQuiescent c)
      show ?thesis by (rule stop[of "StopQuiescent c"]) (use run False e1(2) claim in \<open>simp_all add: st SatQuiescent stop_claim_def\<close>)
    next
      case (SatDivergent c)
      show ?thesis by (rule stop[of "StopDivergent c"]) (use run False e1(2) claim in \<open>simp_all add: st SatDivergent stop_claim_def\<close>)
    next
      case (SatUnknown c)
      show ?thesis by (rule stop[of "StopUnknown c"]) (use run False e1(2) gives_up[OF st[unfolded SatUnknown]] in \<open>simp_all add: st SatUnknown stop_claim_def\<close>)
    qed
  qed
qed

section \<open>What a closure check returns\<close>

definition in_scope :: "closure_mode \<Rightarrow> presentation \<Rightarrow> committed_step \<Rightarrow> bool" where
  "in_scope mode pr st \<longleftrightarrow> mode = RawMode \<or> op_label (pr_profile pr) st = Inr RealizingLabel"

abbreviation state_after :: "config_id \<Rightarrow> committed_step \<Rightarrow> safety_state" where
  "state_after pol st \<equiv> \<lparr>sf_world = sdst st, sf_policy = pol\<rparr>"

definition closure_claim ::
  "(bytes \<Rightarrow> bytes) \<Rightarrow> presentation \<Rightarrow> (safety_state \<Rightarrow> bool) \<Rightarrow> closure_mode \<Rightarrow> 's keyer \<Rightarrow> config_id \<Rightarrow> exec_config \<Rightarrow> closure_result \<Rightarrow> bool" where
  "closure_claim blake3 pr pred mode keyer pol e0 res \<longleftrightarrow>
     (case res of
        Closed n v \<Rightarrow>
          (\<exists>before after e1 c. ticks blake3 pr keyer 0 e0 before e1 \<and>
             (sat_claim blake3 pr keyer (saturating_add_u64 0 (length before)) e1 (SatQuiescent c) after \<or>
              (\<exists>d. sat_claim blake3 pr keyer (saturating_add_u64 0 (length before)) e1 (SatDivergent d) after)) \<and>
             (\<forall>st \<in> set (before @ after). in_scope mode pr st \<longrightarrow> pred (state_after pol st)) \<and>
             v = length (visible_part pr before) \<and>
             n = 1 + length (filter (in_scope mode pr) (before @ after)))
      | Violated cv \<Rightarrow>
          (\<exists>sts st e1. ticks blake3 pr keyer 0 e0 (sts @ [st]) e1 \<and>
             (\<forall>st \<in> set sts. in_scope mode pr st \<longrightarrow> pred (state_after pol st)) \<and>
             in_scope mode pr st \<and> \<not> pred (state_after pol st) \<and> cv_mode cv = mode \<and> cv_state cv = state_after pol st \<and>
             cv_site cv = (if op_label (pr_profile pr) st = Inr RealizingLabel then VisibleSuccessor else AdministrativeIntermediate) \<and>
             cv_depth cv = length (visible_part pr sts) + (if mode = VisibleMode then 1 else 0))
      | ClosureUnknown _ \<Rightarrow> True)"

lemma ticks_prefix: "ticks blake3 pr keyer ph e (xs @ ys) e2 \<Longrightarrow> \<exists>e1. ticks blake3 pr keyer ph e xs e1"
proof (induction ys arbitrary: e2 rule: rev_induct)
  case (snoc y ys)
  have "ticks blake3 pr keyer ph e ((xs @ ys) @ [y]) e2" using snoc.prems by simp
  then obtain e1 where "ticks blake3 pr keyer ph e (xs @ ys) e1" by (cases rule: ticks.cases) auto
  then show ?case by (rule snoc.IH)
qed auto

lemma ticks_world: "ticks blake3 pr keyer ph e (sts @ [st]) e1 \<Longrightarrow> try_resolve (pr_interner pr) (world e1) = Some (sdst st)"
  by (erule ticks.cases) (auto elim: gamma_step)

lemma raw_scan_None: "raw_scan pred pol sts i = None \<longleftrightarrow> (\<forall>st \<in> set sts. pred (state_after pol st))"
  by (induction sts arbitrary: i) auto

lemma raw_scan_Some:
  "raw_scan pred pol sts i = Some (k, x) \<Longrightarrow>
     i \<le> k \<and> k - i < length sts \<and> (\<forall>st \<in> set (take (k - i) sts). pred (state_after pol st)) \<and>
     \<not> pred (state_after pol (sts ! (k - i))) \<and> x = state_after pol (sts ! (k - i))"
proof (induction sts arbitrary: i)
  case (Cons st sts)
  show ?case
  proof (cases "pred (state_after pol st)")
    case True
    then have "raw_scan pred pol sts (i + 1) = Some (k, x)" using Cons.prems by simp
    note ih = Cons.IH[OF this]
    then have "k - i = Suc (k - Suc i)" by linarith
    then show ?thesis using ih True by simp
  qed (use Cons.prems in simp)
qed simp

text \<open>Only the last step of a realizing answer is labelled so.\<close>

lemma sat_claim_labels:
  assumes "sat_claim blake3 pr keyer ph e r sts" "i < length sts"
  shows "op_label (pr_profile pr) (sts ! i) = Inr RealizingLabel \<longleftrightarrow>
      (case r of Realizing _ _ _ \<Rightarrow> True | _ \<Rightarrow> False) \<and> i = length sts - 1"
    and "visible_part pr (take i sts) = []"
proof -
  have adm: "op_label (pr_profile pr) (xs ! j) = Inr Administrative" "visible_part pr (take j xs) = []"
    if "hides blake3 pr keyer ph e xs e1" "j < length xs" for xs e1 j
  proof -
    have "\<forall>x \<in> set xs. op_label (pr_profile pr) x = Inr Administrative" using hides_admin[OF that(1)] by (simp add: list_all_iff)
    then show "op_label (pr_profile pr) (xs ! j) = Inr Administrative" "visible_part pr (take j xs) = []"
      using that(2) by (auto simp: visible_part_def filter_empty_conv dest: in_set_takeD)
  qed
  have both: "(op_label (pr_profile pr) (sts ! i) = Inr RealizingLabel \<longleftrightarrow> b \<and> i = length sts - 1) \<and> visible_part pr (take i sts) = []"
    if s: "sts = pre @ [st]" "hides blake3 pr keyer ph e pre e1" "op_label (pr_profile pr) st = Inr RealizingLabel \<longleftrightarrow> b" for pre st e1 b
  proof (cases "i < length pre")
    case True
    then show ?thesis using adm[OF s(2) True] s(1) by (simp add: nth_append)
  next
    case False
    then have "i = length pre" using assms(2) s(1) by simp
    then show ?thesis using s hides_invisible[OF s(2)] by simp
  qed
  have "(op_label (pr_profile pr) (sts ! i) = Inr RealizingLabel \<longleftrightarrow>
      (case r of Realizing _ _ _ \<Rightarrow> True | _ \<Rightarrow> False) \<and> i = length sts - 1) \<and> visible_part pr (take i sts) = []"
  proof (cases r)
    case (Realizing ob nxt n)
    then obtain pre st e1 where "sts = pre @ [st]" "hides blake3 pr keyer ph e pre e1" "op_label (pr_profile pr) st = Inr RealizingLabel"
      using assms(1) unfolding sat_claim_def by auto
    then show ?thesis using both[of pre st e1 True] Realizing by simp
  next
    case (SatUnknown u)
    consider e1 where "hides blake3 pr keyer ph e sts e1"
      | pre st e1 err where "sts = pre @ [st]" "hides blake3 pr keyer ph e pre e1" "op_label (pr_profile pr) st = Inl err"
      using assms(1) unfolding SatUnknown sat_claim_def by auto
    then show ?thesis
    proof cases
      case 1
      then show ?thesis using adm[OF 1 assms(2)] SatUnknown by simp
    next
      case 2
      then show ?thesis using both[of pre st e1 False] SatUnknown by simp
    qed
  next
    case (SatQuiescent c)
    then obtain e1 where "hides blake3 pr keyer ph e sts e1" using assms(1) unfolding sat_claim_def by auto
    then show ?thesis using adm[OF _ assms(2)] SatQuiescent by simp
  next
    case (SatDivergent c)
    then obtain e1 where "hides blake3 pr keyer ph e sts e1" using assms(1) unfolding sat_claim_def by auto
    then show ?thesis using adm[OF _ assms(2)] SatDivergent by simp
  qed
  then show "op_label (pr_profile pr) (sts ! i) = Inr RealizingLabel \<longleftrightarrow>
      (case r of Realizing _ _ _ \<Rightarrow> True | _ \<Rightarrow> False) \<and> i = length sts - 1" "visible_part pr (take i sts) = []" by blast+
qed

lemma closure_violated_claim:
  assumes before: "ticks blake3 pr keyer 0 e0 taken current" "\<forall>st \<in> set taken. in_scope mode pr st \<longrightarrow> pred (state_after pol st)"
    and path: "ticks blake3 pr keyer (saturating_add_u64 0 (length taken)) current consumed e1"
    and i: "i < length consumed" "visible_part pr (take i consumed) = []"
      "\<forall>st \<in> set (take i consumed). in_scope mode pr st \<longrightarrow> pred (state_after pol st)"
    and bad: "in_scope mode pr (consumed ! i)" "\<not> pred (state_after pol (consumed ! i))" "x = state_after pol (consumed ! i)"
    and report: "m = mode" "depth = length (visible_part pr taken) + (if mode = VisibleMode then 1 else 0)"
      "site = (if op_label (pr_profile pr) (consumed ! i) = Inr RealizingLabel then VisibleSuccessor else AdministrativeIntermediate)"
  shows "closure_claim blake3 pr pred mode keyer pol e0 (closure_violated m site x depth)"
proof -
  have "taken @ consumed = ((taken @ take i consumed) @ [consumed ! i]) @ drop (Suc i) consumed"
    using id_take_nth_drop[OF i(1)] by simp
  then obtain e2 where "ticks blake3 pr keyer 0 e0 ((taken @ take i consumed) @ [consumed ! i]) e2"
    using ticks_append[OF path refl before(1)] ticks_prefix by metis
  moreover have "visible_part pr (taken @ take i consumed) = visible_part pr taken" using i(2) by (simp add: visible_part_append)
  ultimately show ?thesis unfolding closure_claim_def closure_violated_def closure_result.case
    by (intro exI[of _ "taken @ take i consumed"] exI[of _ "consumed ! i"] exI[of _ e2]) (use before(2) i(3) bad report in auto)
qed

lemma closure_closed_claim:
  assumes before: "ticks blake3 pr keyer 0 e0 taken current" "\<forall>st \<in> set taken. in_scope mode pr st \<longrightarrow> pred (state_after pol st)"
    and claim: "sat_claim blake3 pr keyer (saturating_add_u64 0 (length taken)) current r consumed"
    and raw: "mode = RawMode \<Longrightarrow> \<forall>st \<in> set consumed. pred (state_after pol st)"
    and r: "visible_part pr consumed = []" "(\<exists>q. r = SatQuiescent q) \<or> (\<exists>d. r = SatDivergent d)"
  shows "closure_claim blake3 pr pred mode keyer pol e0
    (Closed (if mode = RawMode then 1 + length (filter (in_scope mode pr) taken) + length consumed
             else 1 + length (filter (in_scope mode pr) taken)) (length (visible_part pr taken)))"
proof -
  have vis: "filter (in_scope VisibleMode pr) consumed = []" using r(1) by (auto simp: visible_part_def in_scope_def filter_empty_conv)
  have raw_all: "filter (in_scope RawMode pr) consumed = consumed" by (simp add: in_scope_def filter_id_conv)
  have all: "\<forall>st \<in> set consumed. in_scope mode pr st \<longrightarrow> pred (state_after pol st)"
    using raw vis by (cases mode) (auto simp: filter_empty_conv)
  show ?thesis unfolding closure_claim_def closure_result.case
    by (intro exI[of _ taken] exI[of _ consumed] exI[of _ current])
      (use before claim r(2) all vis raw_all in \<open>cases mode; auto\<close>)
qed

lemma closure_loop_claim:
  assumes "ticks blake3 pr keyer 0 e0 taken current" "\<forall>st \<in> set taken. in_scope mode pr st \<longrightarrow> pred (state_after pol st)"
    and "closure_loop blake3 pr pred mode keyer b pol current (1 + length (filter (in_scope mode pr) taken))
      (length (visible_part pr taken)) (saturating_add_u64 0 (length taken)) s = (Some res, s')"
  shows "closure_claim blake3 pr pred mode keyer pol e0 res"
  using assms
proof (induction "unat (max_visible_steps b) - length (visible_part pr taken)" arbitrary: taken current s rule: less_induct)
  case less
  let ?ph = "saturating_add_u64 0 (length taken)" and ?n = "1 + length (filter (in_scope mode pr) taken)"
  let ?d = "length (visible_part pr taken)"
  note run = less.prems(3)[unfolded closure_loop.simps[of blake3 pr pred mode keyer b pol current ?n ?d ?ph s] Let_def]
  note ok = less.prems(2)
  show ?case
  proof (cases "unat (max_visible_steps b) \<le> ?d")
    case True
    then have "res = ClosureUnknown (ClosureVisibleBudget ?d (max_visible_steps b))" using run by simp
    then show ?thesis by (simp add: closure_claim_def)
  next
    case False
    then obtain r consumed cost s1 where st: "sat_step blake3 pr current ?ph keyer b s = (Some (r, consumed, cost), s1)"
      using run by (cases "sat_step blake3 pr current ?ph keyer b s") (auto split: option.splits)
    note claim = sat_step_claim[OF st] and labels = sat_claim_labels[OF sat_step_claim[OF st]]
    obtain e1 where e1: "ticks blake3 pr keyer ?ph current consumed e1"
      "visible_part pr consumed = (case r of Realizing ob _ _ \<Rightarrow> [ob] | _ \<Rightarrow> [])" "\<And>ob nxt n. r = Realizing ob nxt n \<Longrightarrow> e1 = nxt"
      using sat_claim_ticks[OF claim] by blast
    have t: "ticks blake3 pr keyer 0 e0 (taken @ consumed) e1" using ticks_append[OF e1(1) refl less.prems(1)] .
    note violated = closure_violated_claim[OF less.prems(1) ok e1(1) _ labels(2)]
    show ?thesis
    proof (cases "if mode = RawMode then raw_scan pred pol consumed 0 else None")
      case (Some ix)
      obtain i x where ix: "ix = (i, x)" by (cases ix)
      have raw: "mode = RawMode" "raw_scan pred pol consumed 0 = Some (i, x)" using Some ix by (auto split: if_splits)
      note rs = raw_scan_Some[OF raw(2), simplified]
      have "res = closure_violated mode (if (case r of Realizing _ _ _ \<Rightarrow> True | _ \<Rightarrow> False) \<and> i = length consumed - 1
          then VisibleSuccessor else AdministrativeIntermediate) x ?d"
        using run False by (simp add: st raw)
      moreover have "closure_claim blake3 pr pred mode keyer pol e0 (closure_violated mode (if (case r of Realizing _ _ _ \<Rightarrow> True | _ \<Rightarrow> False) \<and>
          i = length consumed - 1 then VisibleSuccessor else AdministrativeIntermediate) x ?d)"
        by (rule violated[of i]) (use rs labels(1)[of i] raw(1) in \<open>simp_all add: in_scope_def\<close>)
      ultimately show ?thesis by simp
    next
      case None
      have raw: "\<forall>st \<in> set consumed. pred (state_after pol st)" if "mode = RawMode"
        using None that by (simp add: raw_scan_None)
      note run = run[unfolded st prod.case option.case None]
      note closed = closure_closed_claim[OF less.prems(1) ok claim raw]
      show ?thesis
      proof (cases r)
        case (Realizing ob nxt n)
        obtain pre stp where p: "consumed = pre @ [stp]" using claim unfolding Realizing sat_claim_def by auto
        have lab: "op_label (pr_profile pr) stp = Inr RealizingLabel" using labels(1)[of "length pre"] p Realizing by simp
        have pre: "filter (in_scope VisibleMode pr) pre = []"
          using labels(2)[of "length pre"] p by (auto simp: visible_part_def in_scope_def filter_empty_conv)
        have w: "try_resolve (pr_interner pr) (world nxt) = Some (sdst stp)"
          using ticks_world[OF e1(1)[unfolded p]] e1(3)[OF Realizing] by simp
        have v: "visible_part pr (taken @ consumed) = visible_part pr taken @ [ob]" using e1(2) Realizing by (simp add: visible_part_append)
        have onward: "closure_claim blake3 pr pred mode keyer pol e0 res"
          if "\<forall>st \<in> set consumed. in_scope mode pr st \<longrightarrow> pred (state_after pol st)"
            "closure_loop blake3 pr pred mode keyer b pol nxt (1 + length (filter (in_scope mode pr) (taken @ consumed)))
              (?d + 1) (saturating_add_u64 ?ph (length consumed)) s1 = (Some res, s')"
          by (rule less.hyps[of "taken @ consumed" nxt s1]) (use that ok t e1(3)[OF Realizing] False v in \<open>auto simp: saturating_add_add\<close>)
        show ?thesis
        proof (cases mode)
          case VisibleMode
          show ?thesis
          proof (cases "pred (state_after pol stp)")
            case True
            have "\<forall>st \<in> set consumed. in_scope mode pr st \<longrightarrow> pred (state_after pol st)"
              using True pre p VisibleMode by (auto simp: filter_empty_conv)
            then show ?thesis
              by (rule onward) (use run False True w p pre lab in \<open>simp add: VisibleMode Realizing canonical_state_def project_def in_scope_def\<close>)
          next
            case False
            have "res = closure_violated VisibleMode VisibleSuccessor (state_after pol stp) (?d + 1)"
              using run \<open>\<not> unat (max_visible_steps b) \<le> ?d\<close> False w by (simp add: VisibleMode Realizing canonical_state_def project_def)
            moreover have "\<forall>st \<in> set (take (length pre) consumed). in_scope mode pr st \<longrightarrow> pred (state_after pol st)"
              using pre p VisibleMode by (auto simp: filter_empty_conv)
            moreover have "closure_claim blake3 pr pred mode keyer pol e0 (closure_violated VisibleMode VisibleSuccessor (state_after pol stp) (?d + 1))"
              by (rule violated[of "length pre"]) (use p lab False VisibleMode calculation(2) in \<open>simp_all add: in_scope_def\<close>)
            ultimately show ?thesis by simp
          qed
        next
          case RawMode
          have f: "filter (in_scope RawMode pr) consumed = consumed" by (simp add: in_scope_def filter_id_conv)
          show ?thesis
            by (rule onward) (use raw run False RawMode f in \<open>auto simp: Realizing\<close>)
        qed
      next
        case (SatQuiescent c)
        then have "res = Closed (if mode = RawMode then ?n + length consumed else ?n) ?d" using run False by simp
        then show ?thesis using closed e1(2) SatQuiescent by simp
      next
        case (SatDivergent c)
        then have "res = Closed (if mode = RawMode then ?n + length consumed else ?n) ?d" using run False by simp
        then show ?thesis using closed e1(2) SatDivergent by simp
      next
        case (SatUnknown u)
        then have "res = ClosureUnknown (ClosureUnestablished ?d u)" using run False by simp
        then show ?thesis by (simp add: closure_claim_def)
      qed
    qed
  qed
qed

lemma visible_bound:
  "run_saturated_loop blake3 pr keyer b j visible costs current ph s = (Some r, s') \<Longrightarrow>
     length visible \<le> unat (max_visible_steps b) \<Longrightarrow> length (sr_visible r) \<le> unat (max_visible_steps b)"
proof (induction "unat (max_visible_steps b) - length visible" arbitrary: j visible costs current ph s rule: less_induct)
  case less
  note run = less.prems(1)[unfolded run_saturated_loop.simps[of blake3 pr keyer b j visible costs current ph s] Let_def]
  show ?case
  proof (cases "unat (max_visible_steps b) \<le> length visible")
    case False
    then obtain r1 consumed cost s1 where st: "sat_step blake3 pr current ph keyer b s = (Some (r1, consumed, cost), s1)"
      using run by (cases "sat_step blake3 pr current ph keyer b s") (auto split: option.splits)
    show ?thesis
    proof (cases r1)
      case (Realizing ob nxt n)
      show ?thesis by (rule less.hyps[of "visible @ [ob]"]) (use run False in \<open>simp_all add: st Realizing\<close>)
    qed (use run False less.prems(2) in \<open>auto simp: st\<close>)
  qed (use run less.prems(2) in auto)
qed

lemma run_saturated_claim:
  assumes "run_saturated blake3 pr e0 keyer b s = (Some r, s')"
    and "\<And>e ph s u sts cost s'. sat_step blake3 pr e ph keyer b s = (Some (SatUnknown u, sts, cost), s') \<Longrightarrow> Q ph e u sts"
  shows "run_claim blake3 pr keyer e0 b Q r" "length (sr_visible r) \<le> unat (max_visible_steps b)"
proof -
  show "run_claim blake3 pr keyer e0 b Q r"
    by (rule run_loop_claim[OF ticks_nil, of blake3 pr keyer b "[]" e0 s, OF _ assms(2)])
      (use assms(1) in \<open>simp add: run_saturated_def visible_part_def saturating_add_zero\<close>)
  show "length (sr_visible r) \<le> unat (max_visible_steps b)"
    using visible_bound[OF assms(1)[unfolded run_saturated_def]] by simp
qed

text \<open>
  What the adequacy report says of a run whose last step starts from \<open>e\<close> in phase \<open>ph\<close> and took the ticks
  \<open>after\<close>: the certified empty frontier, the certified lasso, or the reason why nothing was established.
\<close>

definition adequacy_claim ::
  "(bytes \<Rightarrow> bytes) \<Rightarrow> presentation \<Rightarrow> (candidate \<Rightarrow> u64 \<Rightarrow> key) \<Rightarrow> saturation_budget \<Rightarrow> saturated_run \<Rightarrow> u64 \<Rightarrow> exec_config
     \<Rightarrow> committed_step list \<Rightarrow> bool" where
  "adequacy_claim blake3 pr kf b r ph e after \<longleftrightarrow>
     (case ad_outcome (adequacy_of r) of
        FoDefined FoRealizing \<Rightarrow> False
      | FoDefined FoQuiescent \<Rightarrow>
          (\<exists>c e1. sr_stop r = StopQuiescent c \<and> hides blake3 pr (pure_keyer kf) ph e after e1 \<and> cands_at pr e1 = {} \<and>
             make_quiescence_certificate blake3 pr e e1 after = Some c)
      | FoUndefined CertifiedDivergence \<Rightarrow>
          (\<exists>c pre suf e1 e2. sr_stop r = StopDivergent c \<and> after = pre @ suf \<and> revisits blake3 pr (pure_keyer kf) ph e pre e1 after e2 \<and>
             declares (pr_assumptions pr) HistoryIndependence \<and> declares (pr_assumptions pr) PhaseStableKeying \<and>
             lasso_certificate blake3 pr e e2 pre suf c)
      | FoUndefined Unestablished \<Rightarrow>
          (\<exists>u. sr_stop r = StopUnknown u \<and>
             (unknown_claim blake3 pr kf b ph e u after \<or>
              after = [] \<and> u = VisibleBudgetExhausted (visible_len r) (max_visible_steps b) \<and>
                visible_len r = unat (max_visible_steps b)))) \<and>
     (defined_throughout (adequacy_of r) \<longleftrightarrow> (\<exists>c. sr_stop r = StopQuiescent c)) \<and>
     left_at_visible_depth (adequacy_of r) = (if \<exists>c. sr_stop r = StopQuiescent c then None else Some (visible_len r))"

lemma adequacy_claimI:
  assumes "stop_claim blake3 pr (pure_keyer kf) b (unknown_claim blake3 pr kf b) ph e (visible_len r) (sr_stop r) after"
    and "visible_len r \<le> unat (max_visible_steps b)"
  shows "adequacy_claim blake3 pr kf b r ph e after"
proof (cases "sr_stop r")
  case (StopQuiescent c)
  then obtain e1 where "hides blake3 pr (pure_keyer kf) ph e after e1" "cands_at pr e1 = {}"
    "make_quiescence_certificate blake3 pr e e1 after = Some c"
    using assms(1) unfolding stop_claim_def sat_claim_def by auto
  moreover have "adequacy_of r = \<lparr>ad_outcome = FoDefined FoQuiescent, defined_throughout = True, left_at_visible_depth = None\<rparr>"
    by (simp add: adequacy_of_def StopQuiescent)
  ultimately show ?thesis using StopQuiescent unfolding adequacy_claim_def by simp blast
next
  case (StopDivergent c)
  then obtain pre suf e1 e2 where l: "after = pre @ suf" "suf \<noteq> []" "hides blake3 pr (pure_keyer kf) ph e pre e1"
    "hides blake3 pr (pure_keyer kf) ph e after e2" "project e1 = project e2"
    "declares (pr_assumptions pr) HistoryIndependence" "declares (pr_assumptions pr) PhaseStableKeying"
    "lasso_certificate blake3 pr e e2 pre suf c"
    using assms(1) unfolding stop_claim_def sat_claim_def StopDivergent saturated_stop.case saturated_step.case by blast
  then have "revisits blake3 pr (pure_keyer kf) ph e pre e1 after e2" unfolding revisits_def by blast
  moreover have "adequacy_of r =
      \<lparr>ad_outcome = FoUndefined CertifiedDivergence, defined_throughout = False, left_at_visible_depth = Some (visible_len r)\<rparr>"
    by (simp add: adequacy_of_def StopDivergent visible_len_def)
  ultimately show ?thesis using StopDivergent l unfolding adequacy_claim_def by simp blast
next
  case (StopUnknown u)
  then have "unknown_claim blake3 pr kf b ph e u after \<or> after = [] \<and> u = VisibleBudgetExhausted (visible_len r) (max_visible_steps b) \<and>
      visible_len r = unat (max_visible_steps b)"
    using assms unfolding stop_claim_def by auto
  moreover have "adequacy_of r =
      \<lparr>ad_outcome = FoUndefined Unestablished, defined_throughout = False, left_at_visible_depth = Some (visible_len r)\<rparr>"
    by (simp add: adequacy_of_def StopUnknown visible_len_def)
  ultimately show ?thesis using StopUnknown unfolding adequacy_claim_def by simp
qed

section \<open>Properties\<close>

text \<open>
  C25. A saturated run is a run of the unsaturated driver: with as many ticks, that driver logs the same
  journal; what the saturated run exports is the observations of the realizing steps of that journal, at
  most as many as the budget allows. The adequacy report says how it ended, after the ticks \<open>after\<close> of its last
  step: defined exactly for a quiescence certificate of an empty admissible frontier, certified
  divergence exactly for a lasso of administrative ticks under both declarations, unestablished
  exactly for a reason that is true of those ticks; the depth at which it left is the number of exported observations.
\<close>

theorem run_saturated_refines:
  assumes run: "run_saturated blake3 pr e0 (pure_keyer kf) b () = (Some r, s')"
    and small: "length (jsteps (sr_journal r)) < 2 ^ 64"
  shows "(\<exists>costs. run_reason blake3 (pr_regimes pr) (pr_adm pr) (pr_interner pr) e0 (pr_context pr) (pure_keyer kf) ()
        (length (jsteps (sr_journal r))) = Some (sr_journal r, costs, TickBudgetExhausted (length (jsteps (sr_journal r))))) \<and>
    sr_visible r = visible_part pr (jsteps (sr_journal r)) \<and> visible_len r \<le> unat (max_visible_steps b) \<and>
    (defined_throughout (adequacy_of r) \<longrightarrow>
       (\<exists>e1. ticks blake3 pr (pure_keyer kf) 0 e0 (jsteps (sr_journal r)) e1 \<and>
          cand (map sp_candidates (pr_regimes pr)) (pr_adm pr) e1 = {})) \<and>
    (\<exists>before after. jsteps (sr_journal r) = before @ after \<and> ticks blake3 pr (pure_keyer kf) 0 e0 before (sr_final r) \<and>
       adequacy_claim blake3 pr kf b r (saturating_add_u64 0 (length before)) (sr_final r) after)"
proof -
  have claim: "run_claim blake3 pr (pure_keyer kf) e0 b (unknown_claim blake3 pr kf b) r"
    "length (sr_visible r) \<le> unat (max_visible_steps b)"
    by (rule run_saturated_claim[OF run]; erule sat_step_reason)+
  obtain before after e1 where j: "sr_journal r = fold (journal_append blake3) (before @ after) (journal_new blake3)"
    and t: "ticks blake3 pr (pure_keyer kf) 0 e0 before (sr_final r)" "ticks blake3 pr (pure_keyer kf) 0 e0 (before @ after) e1"
    and v: "sr_visible r = visible_part pr (before @ after)"
    and stop: "stop_claim blake3 pr (pure_keyer kf) b (unknown_claim blake3 pr kf b) (saturating_add_u64 0 (length before)) (sr_final r)
      (length (sr_visible r)) (sr_stop r) after"
    using claim(1) unfolding run_claim_def by blast
  have steps: "jsteps (sr_journal r) = before @ after" unfolding j using journal_fold by blast
  have adq: "adequacy_claim blake3 pr kf b r (saturating_add_u64 0 (length before)) (sr_final r) after"
    by (rule adequacy_claimI) (use stop claim(2) in \<open>simp_all add: visible_len_def\<close>)
  have "\<exists>costs. run_reason blake3 (pr_regimes pr) (pr_adm pr) (pr_interner pr) e0 (pr_context pr) (pure_keyer kf) ()
        (length (before @ after)) = Some (sr_journal r, costs, TickBudgetExhausted (length (before @ after)))"
    using ticks_run_loop[OF t(2), of "length (before @ after)" 0 "journal_new blake3"] small steps by (auto simp: run_reason_def j)
  moreover have "\<exists>e1. ticks blake3 pr (pure_keyer kf) 0 e0 (before @ after) e1 \<and> cands_at pr e1 = {}" if d: "defined_throughout (adequacy_of r)"
  proof -
    obtain c where c: "sr_stop r = StopQuiescent c" using d by (cases "sr_stop r") (auto simp: adequacy_of_def Let_def)
    obtain e2 where "hides blake3 pr (pure_keyer kf) (saturating_add_u64 0 (length before)) (sr_final r) after e2" "cands_at pr e2 = {}"
      using stop unfolding c stop_claim_def sat_claim_def by auto
    then show ?thesis using ticks_append[OF hides_ticks refl t(1)] by blast
  qed
  ultimately show ?thesis using claim(2) v steps t(1) adq by (simp add: visible_len_def) blast
qed

lemma spin_run:
  "\<exists>c sts cost. run_saturated id (demo_presentation id [spin_provider (\<lambda>_. [1])]) demo_config (pure_keyer demo_key) (budget_uniform 8) () =
    (Some \<lparr>sr_journal = fold (journal_append id) sts (journal_new id), sr_visible = [], sr_costs = [cost], sr_final = demo_config,
       sr_stop = StopDivergent c\<rparr>, ()) \<and> length sts \<le> 9"
proof -
  obtain c sts cost where run: "sat_step id (demo_presentation id [spin_provider (\<lambda>_. [1])]) demo_config 0 (pure_keyer demo_key)
      (budget_uniform 8) () = (Some (SatDivergent c, sts, cost), ())"
    using spin_certified[OF _ _ _ demo_interner_resolve(1), of demo_config "\<lambda>_. [1]" id "[]"] by (auto simp: demo_config_def)
  have b: "unat (max_visible_steps (budget_uniform 8)) = 8" "unat (max_hidden_steps (budget_uniform 8)) = 8" by (simp_all add: budget_uniform_def)
  have "length sts \<le> 9" using sat_loop_claim[OF sat_inv_start run[unfolded sat_step_def]] b(2) by simp
  then show ?thesis
    unfolding run_saturated_def run_saturated_loop.simps[of id _ _ _ _ "[]"] run Let_def by (auto simp: b(1))
qed

theorem run_saturated_refines_witness:
  "\<exists>j n costs. run_reason id [spin_provider (\<lambda>_. [1])] AdmAll demo_interner demo_config [] (pure_keyer demo_key) () n =
     Some (j, costs, TickBudgetExhausted n) \<and> n = length (jsteps j)"
proof -
  obtain c sts cost where r: "run_saturated id (demo_presentation id [spin_provider (\<lambda>_. [1])]) demo_config (pure_keyer demo_key) (budget_uniform 8) () =
    (Some \<lparr>sr_journal = fold (journal_append id) sts (journal_new id), sr_visible = [], sr_costs = [cost], sr_final = demo_config,
       sr_stop = StopDivergent c\<rparr>, ())" "length sts \<le> 9" using spin_run by blast
  have "length (jsteps (fold (journal_append id) sts (journal_new id))) < 2 ^ 64" using r(2) journal_fold[of id sts] by simp
  from conjunct1[OF run_saturated_refines[OF r(1), simplified, OF this[simplified]]] show ?thesis by auto
qed

text \<open>
  C26. A closure check tells what it saw: \<open>Closed\<close> means that the predicate held initially and after
  every committed step in scope up to a certified end, and counts them; a violation is the first state
  in scope that fails, with its site, and with a depth that counts the exported steps before it, plus the
  one that exports it in visible mode only.
\<close>

theorem check_closure_sound:
  assumes "check_closure blake3 pr e0 pred mode keyer b s = (Some res, s')" and "res \<noteq> ClosureUnknown UnresolvedConfiguration"
  shows "\<exists>w pol. try_resolve (pr_interner pr) (world e0) = Some w \<and> try_resolve (pr_interner pr) (policy e0) = Some pol \<and>
    (if pred \<lparr>sf_world = w, sf_policy = pol\<rparr> then closure_claim blake3 pr pred mode keyer pol e0 res
     else res = closure_violated mode InitialSite \<lparr>sf_world = w, sf_policy = pol\<rparr> 0)"
proof -
  obtain w pol where r: "try_resolve (pr_interner pr) (world e0) = Some w" "try_resolve (pr_interner pr) (policy e0) = Some pol"
    using assms by (auto simp: check_closure_def canonical_state_def project_def split: option.splits)
  have "closure_claim blake3 pr pred mode keyer pol e0 res" if "pred \<lparr>sf_world = w, sf_policy = pol\<rparr>"
    by (rule closure_loop_claim[OF ticks_nil, of mode pr pred pol blake3 keyer b e0 s])
      (use assms(1) r that in \<open>simp_all add: check_closure_def canonical_state_def project_def visible_part_def saturating_add_zero\<close>)
  then show ?thesis using assms(1) r by (auto simp: check_closure_def canonical_state_def project_def)
qed

theorem check_closure_sound_witness:
  "closure_claim id (demo_presentation id [spin_provider (\<lambda>_. [1])]) (\<lambda>_. True) VisibleMode (pure_keyer demo_key) [5] demo_config (Closed 1 0)"
proof -
  let ?pr = "demo_presentation id [spin_provider (\<lambda>_. [1])]"
  obtain c sts cost where run: "sat_step id ?pr demo_config 0 (pure_keyer demo_key) (budget_uniform 8) () = (Some (SatDivergent c, sts, cost), ())"
    using spin_certified[OF _ _ _ demo_interner_resolve(1), of demo_config "\<lambda>_. [1]" id "[]"] by (auto simp: demo_config_def)
  have b: "unat (max_visible_steps (budget_uniform 8)) = 8" by (simp add: budget_uniform_def)
  have e: "try_resolve demo_interner (world demo_config) = Some [5]" "try_resolve demo_interner (policy demo_config) = Some [5]"
    by (simp_all add: demo_config_def demo_interner_resolve)
  have "check_closure id ?pr demo_config (\<lambda>_. True) VisibleMode (pure_keyer demo_key) (budget_uniform 8) () = (Some (Closed 1 0), ())"
    unfolding check_closure_def closure_loop.simps[of id _ _ _ _ _ _ demo_config] run Let_def
    by (simp add: b e canonical_state_def project_def)
  from check_closure_sound[OF this] show ?thesis using e by simp
qed

text \<open>
  The number of cost records is one more than the number of exported observations, but equal to it where
  the visible budget ends the run.
\<close>

lemma run_costs:
  "run_saturated_loop blake3 pr keyer b j visible costs current ph s = (Some r, s') \<Longrightarrow> length costs = length visible \<Longrightarrow>
     length (sr_costs r) = length (sr_visible r) + 1 \<or>
     length (sr_costs r) = length (sr_visible r) \<and> sr_stop r = StopUnknown (VisibleBudgetExhausted (length (sr_visible r)) (max_visible_steps b))"
proof (induction "unat (max_visible_steps b) - length visible" arbitrary: j visible costs current ph s rule: less_induct)
  case less
  note run = less.prems(1)[unfolded run_saturated_loop.simps[of blake3 pr keyer b j visible costs current ph s] Let_def]
  show ?case
  proof (cases "unat (max_visible_steps b) \<le> length visible")
    case False
    then obtain r1 consumed cost s1 where st: "sat_step blake3 pr current ph keyer b s = (Some (r1, consumed, cost), s1)"
      using run by (cases "sat_step blake3 pr current ph keyer b s") (auto split: option.splits)
    show ?thesis
    proof (cases r1)
      case (Realizing ob nxt n)
      show ?thesis by (rule less.hyps[of "visible @ [ob]"]) (use run False less.prems(2) in \<open>auto simp: st Realizing\<close>)
    qed (use run False less.prems(2) in \<open>auto simp: st\<close>)
  qed (use run less.prems(2) in auto)
qed

end
