(* ===== verification/Sat_Bisim.thy ===== *)
theory Sat_Bisim
  imports Sat_Driver
begin

text \<open>
  Comparing two saturated systems (\<open>crates/soc-core/src/saturate/bisimulation.rs\<close>, and the system
  trait of \<open>driver.rs\<close>): the lockstep walk, the agreement it decides, and the presentations whose
  saturated steps read no more of a configuration than world and policy. A system is the record of its
  methods over a state that every step passes on; \<open>None\<close> is a panic inside a step.
\<close>

section \<open>Systems\<close>

record system_boundary =
  sb_context :: context_id
  sb_profile :: digest
  sb_presentation :: digest

record 's saturated_system =
  sy_initial :: exec_config
  sy_boundary :: system_boundary
  sy_assumptions :: declared_assumptions
  sy_step :: "exec_config \<Rightarrow> u64 \<Rightarrow> 's \<Rightarrow> (saturated_step \<times> u64) option \<times> 's"

definition presented_system ::
  "(bytes \<Rightarrow> bytes) \<Rightarrow> presentation \<Rightarrow> exec_config \<Rightarrow> 's keyer \<Rightarrow> saturation_budget \<Rightarrow> 's saturated_system" where
  "presented_system blake3 pr e0 keyer b =
     \<lparr>sy_initial = e0,
      sy_boundary = \<lparr>sb_context = pr_context pr, sb_profile = op_id (pr_profile pr), sb_presentation = pr_id pr\<rparr>,
      sy_assumptions = pr_assumptions pr,
      sy_step = (\<lambda>e ph s. case sat_step blake3 pr e ph keyer b s of
          (None, s) \<Rightarrow> (None, s)
        | (Some (st, consumed, _), s) \<Rightarrow> (Some (st, word_of_nat (length consumed)), s))\<rparr>"

section \<open>Results\<close>

datatype contract = Bisimilar | Refines

fun contract_ordinal :: "contract \<Rightarrow> u64" where
  "contract_ordinal Bisimilar = 0"
| "contract_ordinal Refines = 1"

datatype summand = RealizingSummand | QuiescentSummand | DivergentSummand | UnknownSummand

fun summand_of :: "saturated_step \<Rightarrow> summand" where
  "summand_of (Realizing _ _ _) = RealizingSummand"
| "summand_of (SatQuiescent _) = QuiescentSummand"
| "summand_of (SatDivergent _) = DivergentSummand"
| "summand_of (SatUnknown _) = UnknownSummand"

fun summand_ordinal :: "summand \<Rightarrow> u64" where
  "summand_ordinal RealizingSummand = 0"
| "summand_ordinal QuiescentSummand = 1"
| "summand_ordinal DivergentSummand = 2"
| "summand_ordinal UnknownSummand = 3"

datatype mismatch_kind = SummandMismatch | ObservationMismatch | DivergenceVsQuiescence

fun mismatch_ordinal :: "mismatch_kind \<Rightarrow> u64" where
  "mismatch_ordinal SummandMismatch = 0"
| "mismatch_ordinal ObservationMismatch = 1"
| "mismatch_ordinal DivergenceVsQuiescence = 2"

record saturated_counterexample =
  cx_contract :: contract
  cx_context :: context_id
  cx_profile :: digest
  cx_implementation :: digest
  cx_specification :: digest
  cx_prefix :: "observation list"
  cx_implementation_summand :: summand
  cx_specification_summand :: summand
  cx_kind :: mismatch_kind

definition counterexample_preimage :: "saturated_counterexample \<Rightarrow> bytes" where
  "counterexample_preimage c =
     (let w = write_bytes (as_bytes ''brix.soc.saturated-counterexample'') canon_new;
          w = write_uint 1 w;
          w = write_uint (contract_ordinal (cx_contract c)) w;
          w = write_bytes (cx_context c) w;
          w = write_bytes (cx_profile c) w;
          w = write_bytes (cx_implementation c) w;
          w = write_bytes (cx_specification c) w;
          w = write_list (map (\<lambda>ob. canon_bytes (canon_write_observation ob)) (cx_prefix c)) w;
          w = write_uint (summand_ordinal (cx_implementation_summand c)) w;
          w = write_uint (summand_ordinal (cx_specification_summand c)) w;
          w = write_uint (mismatch_ordinal (cx_kind c)) w
      in finish w)"

definition counterexample_digest :: "(bytes \<Rightarrow> bytes) \<Rightarrow> saturated_counterexample \<Rightarrow> digest" where
  "counterexample_digest blake3 c = digest_of blake3 Value (counterexample_preimage c)"

datatype comparison_unknown =
    ComparisonUndeclared assumption_id
  | BoundaryMismatch
  | ImplementationUnknown nat saturation_unknown
  | SpecificationUnknown nat saturation_unknown
  | PairBudgetExhausted nat u64

datatype saturated_comparison =
    Holds nat nat
  | Fails saturated_counterexample
  | ComparisonUnknown comparison_unknown

section \<open>The walk\<close>

type_synonym observable_pair = "observable_state \<times> observable_state"

text \<open>\<open>seen\<close> has no duplicates: the list of the elements of the set, the last one first.\<close>

function pair_walk ::
  "'s saturated_system \<Rightarrow> 't saturated_system \<Rightarrow> contract \<Rightarrow> u64
     \<Rightarrow> observable_pair list \<Rightarrow> observation list \<Rightarrow> exec_config \<Rightarrow> exec_config \<Rightarrow> u64 \<Rightarrow> u64 \<Rightarrow> 's \<Rightarrow> 't \<Rightarrow> saturated_comparison option" where
  "pair_walk impl spec k max_pairs seen prefix e e' ph ph' s t =
     (let pair = (project e, project e');
          fail = \<lambda>kind i j. Some (Fails \<lparr>cx_contract = k, cx_context = sb_context (sy_boundary impl), cx_profile = sb_profile (sy_boundary impl),
             cx_implementation = sb_presentation (sy_boundary impl), cx_specification = sb_presentation (sy_boundary spec), cx_prefix = prefix,
             cx_implementation_summand = summand_of i, cx_specification_summand = summand_of j, cx_kind = kind\<rparr>) in
      if pair \<in> set seen then Some (Holds (length prefix) (length seen))
      else let seen = pair # seen in
      if length seen > unat max_pairs then Some (ComparisonUnknown (PairBudgetExhausted (length seen) max_pairs))
      else case sy_step impl e ph s of
        (None, _) \<Rightarrow> None
      | (Some (i, n), s) \<Rightarrow>
          (case sy_step spec e' ph' t of
             (None, _) \<Rightarrow> None
           | (Some (j, m), t) \<Rightarrow>
               (let ph = saturating_add_u64 ph (unat n); ph' = saturating_add_u64 ph' (unat m) in
                case i of
                  SatUnknown u \<Rightarrow> Some (ComparisonUnknown (ImplementationUnknown (length prefix) u))
                | _ \<Rightarrow>
                (case j of
                   SatUnknown u \<Rightarrow> Some (ComparisonUnknown (SpecificationUnknown (length prefix) u))
                 | _ \<Rightarrow>
                   if k = Refines \<and> summand_of j = DivergentSummand then Some (Holds (length prefix) (length seen))
                   else case (i, j) of
                     (Realizing ob e1 _, Realizing ob' e1' _) \<Rightarrow>
                       if ob \<noteq> ob' then fail ObservationMismatch i j
                       else pair_walk impl spec k max_pairs seen (prefix @ [ob]) e1 e1' ph ph' s t
                   | (SatQuiescent _, SatQuiescent _) \<Rightarrow> Some (Holds (length prefix) (length seen))
                   | (SatDivergent _, SatDivergent _) \<Rightarrow> Some (Holds (length prefix) (length seen))
                   | (SatDivergent _, SatQuiescent _) \<Rightarrow> fail DivergenceVsQuiescence i j
                   | (SatQuiescent _, SatDivergent _) \<Rightarrow> fail DivergenceVsQuiescence i j
                   | _ \<Rightarrow> fail SummandMismatch i j))))"
  by pat_completeness auto

termination
  by (relation "measure (\<lambda>(_, _, _, m, seen, _, _, _, _, _, _, _). unat m + 1 - length seen)") auto

declare pair_walk.simps [simp del]

definition check_saturated ::
  "'s saturated_system \<Rightarrow> 't saturated_system \<Rightarrow> contract \<Rightarrow> u64 \<Rightarrow> 's \<Rightarrow> 't \<Rightarrow> saturated_comparison option" where
  "check_saturated impl spec k max_pairs s t =
     (let both = (\<lambda>a. declares (sy_assumptions impl) a \<and> declares (sy_assumptions spec) a) in
      if sb_context (sy_boundary impl) \<noteq> sb_context (sy_boundary spec) \<or> sb_profile (sy_boundary impl) \<noteq> sb_profile (sy_boundary spec)
      then Some (ComparisonUnknown BoundaryMismatch)
      else if \<not> both HistoryIndependence then Some (ComparisonUnknown (ComparisonUndeclared HistoryIndependence))
      else if \<not> both PhaseStableKeying then Some (ComparisonUnknown (ComparisonUndeclared PhaseStableKeying))
      else pair_walk impl spec k max_pairs [] [] (sy_initial impl) (sy_initial spec) 0 0 s t)"

section \<open>Agreement\<close>

text \<open>The deterministic step of a system without a state of its own.\<close>

definition steps_to :: "unit saturated_system \<Rightarrow> exec_config \<Rightarrow> u64 \<Rightarrow> saturated_step \<Rightarrow> u64 \<Rightarrow> bool" where
  "steps_to sys e ph st ph1 \<longleftrightarrow> (\<exists>n. sy_step sys e ph () = (Some (st, n), ()) \<and> ph1 = saturating_add_u64 ph (unat n))"

coinductive agree ::
  "contract \<Rightarrow> unit saturated_system \<Rightarrow> unit saturated_system \<Rightarrow> exec_config \<Rightarrow> u64 \<Rightarrow> exec_config \<Rightarrow> u64 \<Rightarrow> bool"
  for k impl spec where
  agree_realizing:
    "steps_to impl e ph (Realizing ob e1 h) ph1 \<Longrightarrow> steps_to spec e' ph' (Realizing ob e1' h') ph1' \<Longrightarrow>
     agree k impl spec e1 ph1 e1' ph1' \<Longrightarrow> agree k impl spec e ph e' ph'"
| agree_quiescent:
    "steps_to impl e ph (SatQuiescent c) ph1 \<Longrightarrow> steps_to spec e' ph' (SatQuiescent c') ph1' \<Longrightarrow> agree k impl spec e ph e' ph'"
| agree_divergent:
    "steps_to impl e ph (SatDivergent c) ph1 \<Longrightarrow> steps_to spec e' ph' (SatDivergent c') ph1' \<Longrightarrow> agree k impl spec e ph e' ph'"
| agree_unobliged:
    "k = Refines \<Longrightarrow> steps_to spec e' ph' (SatDivergent c') ph1' \<Longrightarrow> steps_to impl e ph i ph1 \<Longrightarrow> (\<And>u. i \<noteq> SatUnknown u) \<Longrightarrow>
     agree k impl spec e ph e' ph'"

text \<open>The exported observations on the way to a configuration.\<close>

inductive exports :: "unit saturated_system \<Rightarrow> exec_config \<Rightarrow> u64 \<Rightarrow> observation list \<Rightarrow> exec_config \<Rightarrow> u64 \<Rightarrow> bool"
  for sys e ph where
  exports_nil: "exports sys e ph [] e ph"
| exports_snoc:
    "exports sys e ph obs e1 ph1 \<Longrightarrow> steps_to sys e1 ph1 (Realizing ob e2 h) ph2 \<Longrightarrow> exports sys e ph (obs @ [ob]) e2 ph2"

text \<open>Steps that, on the worlds and policies of \<open>D\<close>, depend on world and policy only and stay in \<open>D\<close>.\<close>

definition same_step :: "saturated_step \<Rightarrow> saturated_step \<Rightarrow> bool" where
  "same_step st st' \<longleftrightarrow> summand_of st = summand_of st' \<and>
     (\<forall>ob e h ob' e' h'. st = Realizing ob e h \<longrightarrow> st' = Realizing ob' e' h' \<longrightarrow> ob = ob' \<and> project e = project e')"

definition blind_on :: "observable_state set \<Rightarrow> unit saturated_system \<Rightarrow> bool" where
  "blind_on D sys \<longleftrightarrow>
     (\<forall>e e' ph ph' st ph1. project e \<in> D \<longrightarrow> project e = project e' \<longrightarrow> steps_to sys e ph st ph1 \<longrightarrow>
        (\<exists>st' ph1'. steps_to sys e' ph' st' ph1' \<and> same_step st st')) \<and>
     (\<forall>e ph ob e1 h ph1. project e \<in> D \<longrightarrow> steps_to sys e ph (Realizing ob e1 h) ph1 \<longrightarrow> project e1 \<in> D)"

lemma steps_to_det: "steps_to sys e ph st ph1 \<Longrightarrow> steps_to sys e ph st' ph1' \<Longrightarrow> st = st' \<and> ph1 = ph1'"
  by (auto simp: steps_to_def)

section \<open>What an iteration of the walk does\<close>

definition final_agreement :: "contract \<Rightarrow> saturated_step \<Rightarrow> saturated_step \<Rightarrow> bool" where
  "final_agreement k i j \<longleftrightarrow>
     summand_of i = QuiescentSummand \<and> summand_of j = QuiescentSummand \<or>
     summand_of i = DivergentSummand \<and> summand_of j = DivergentSummand \<or>
     k = Refines \<and> summand_of j = DivergentSummand \<and> summand_of i \<noteq> UnknownSummand"

definition same_observation :: "saturated_step \<Rightarrow> saturated_step \<Rightarrow> bool" where
  "same_observation i j \<longleftrightarrow> (\<exists>ob e h e' h'. i = Realizing ob e h \<and> j = Realizing ob e' h')"

definition step_mismatch :: "contract \<Rightarrow> saturated_step \<Rightarrow> saturated_step \<Rightarrow> bool" where
  "step_mismatch k i j \<longleftrightarrow> summand_of i \<noteq> UnknownSummand \<and> summand_of j \<noteq> UnknownSummand \<and>
     \<not> final_agreement k i j \<and> \<not> same_observation i j"

definition undecided ::
  "unit saturated_system \<Rightarrow> unit saturated_system \<Rightarrow> u64 \<Rightarrow> nat \<Rightarrow> nat \<Rightarrow> exec_config \<Rightarrow> u64 \<Rightarrow> exec_config \<Rightarrow> u64 \<Rightarrow> comparison_unknown \<Rightarrow> bool" where
  "undecided impl spec m pairs depth e ph e' ph' u \<longleftrightarrow>
     unat m \<le> pairs \<and> u = PairBudgetExhausted (pairs + 1) m \<or>
     (\<exists>w ph1. steps_to impl e ph (SatUnknown w) ph1 \<and> u = ImplementationUnknown depth w) \<or>
     (\<exists>w ph1. steps_to spec e' ph' (SatUnknown w) ph1 \<and> u = SpecificationUnknown depth w)"

lemma pair_walk_cases:
  assumes "pair_walk impl spec k m seen prefix e e' ph ph' () () = Some res"
  obtains (Seen) "(project e, project e') \<in> set seen" "res = Holds (length prefix) (length seen)"
  | (Undecided) u where "res = ComparisonUnknown u" "undecided impl spec m (length seen) (length prefix) e ph e' ph' u"
  | (Final) i j ph1 ph1' v n where "steps_to impl e ph i ph1" "steps_to spec e' ph' j ph1'" "final_agreement k i j" "res = Holds v n"
  | (Mismatch) i j ph1 ph1' cx where "steps_to impl e ph i ph1" "steps_to spec e' ph' j ph1'" "step_mismatch k i j" "res = Fails cx"
      "cx_prefix cx = prefix" "cx_implementation_summand cx = summand_of i" "cx_specification_summand cx = summand_of j"
  | (Continue) ob e1 h ph1 e1' h' ph1' where "(project e, project e') \<notin> set seen" "length seen < unat m"
      "steps_to impl e ph (Realizing ob e1 h) ph1" "steps_to spec e' ph' (Realizing ob e1' h') ph1'"
      "pair_walk impl spec k m ((project e, project e') # seen) (prefix @ [ob]) e1 e1' ph1 ph1' () () = Some res"
proof -
  note run = assms[unfolded pair_walk.simps[of impl spec k m seen prefix e e' ph ph' "()" "()"] Let_def]
  show thesis
  proof (cases "(project e, project e') \<in> set seen")
    case True
    then show ?thesis using run Seen by simp
  next
    case new: False
    show ?thesis
    proof (cases "length seen < unat m")
      case False
      then have "res = ComparisonUnknown (PairBudgetExhausted (length seen + 1) m)" using run new by simp
      moreover have "undecided impl spec m (length seen) (length prefix) e ph e' ph' (PairBudgetExhausted (length seen + 1) m)"
        unfolding undecided_def by (rule disjI1) (rule conjI, use False in linarith, rule refl)
      ultimately show ?thesis by (rule Undecided)
    next
      case True
      obtain i n where i: "sy_step impl e ph () = (Some (i, n), ())"
        using run new True by (cases "sy_step impl e ph ()") (auto split: option.splits)
      obtain j n' where j: "sy_step spec e' ph' () = (Some (j, n'), ())"
        using run new True i by (cases "sy_step spec e' ph' ()") (auto split: option.splits)
      have s: "steps_to impl e ph i (saturating_add_u64 ph (unat n))" "steps_to spec e' ph' j (saturating_add_u64 ph' (unat n'))"
        using i j by (auto simp: steps_to_def)
      note run = run[unfolded i j option.case prod.case]
      show ?thesis
      proof (cases "summand_of i = UnknownSummand \<or> summand_of j = UnknownSummand")
        case True
        then have "(\<exists>w. i = SatUnknown w \<and> res = ComparisonUnknown (ImplementationUnknown (length prefix) w)) \<or>
            (\<exists>w. j = SatUnknown w \<and> res = ComparisonUnknown (SpecificationUnknown (length prefix) w))"
          using run new \<open>length seen < unat m\<close> by (cases i; cases j) auto
        then show ?thesis using Undecided s unfolding undecided_def by blast
      next
        case known: False
        show ?thesis
        proof (cases "final_agreement k i j")
          case fin: True
          then have "\<exists>v n. res = Holds v n" using run new True known by (cases i; cases j) (auto simp: final_agreement_def split: if_splits)
          then show ?thesis using Final[OF s fin] by blast
        next
          case not_final: False
          show ?thesis
          proof (cases "same_observation i j")
            case True
            then obtain ob e1 h e1' h' where ij: "i = Realizing ob e1 h" "j = Realizing ob e1' h'" by (auto simp: same_observation_def)
            show ?thesis using Continue[OF new \<open>length seen < unat m\<close> s[unfolded ij]] run new \<open>length seen < unat m\<close> ij by simp
          next
            case no: False
            have "\<exists>cx. res = Fails cx \<and> cx_prefix cx = prefix \<and> cx_implementation_summand cx = summand_of i \<and>
                cx_specification_summand cx = summand_of j"
              using run new True known not_final no
              by (cases i; cases j) (auto simp: final_agreement_def same_observation_def split: if_splits)
            then show ?thesis using Mismatch[OF s] known not_final no unfolding step_mismatch_def by blast
          qed
        qed
      qed
    qed
  qed
qed

section \<open>Holds is agreement\<close>

lemma blind_onD:
  "blind_on D sys \<Longrightarrow> project e \<in> D \<Longrightarrow> project e = project e' \<Longrightarrow> steps_to sys e ph st ph1 \<Longrightarrow>
     \<exists>st' ph1'. steps_to sys e' ph' st' ph1' \<and> same_step st st'"
  unfolding blind_on_def by blast

lemma blind_on_closed:
  "blind_on D sys \<Longrightarrow> project e \<in> D \<Longrightarrow> steps_to sys e ph (Realizing ob e1 h) ph1 \<Longrightarrow> project e1 \<in> D"
  unfolding blind_on_def by blast

text \<open>A pair of states from which both sides export the same and go on to a pair in \<open>T\<close>.\<close>

definition leads_into ::
  "unit saturated_system \<Rightarrow> unit saturated_system \<Rightarrow> observable_pair set \<Rightarrow> observable_pair \<Rightarrow> bool" where
  "leads_into impl spec T p \<longleftrightarrow> (\<exists>e ph e' ph' ob e1 h ph1 e1' h' ph1'. p = (project e, project e') \<and>
     steps_to impl e ph (Realizing ob e1 h) ph1 \<and> steps_to spec e' ph' (Realizing ob e1' h') ph1' \<and> (project e1, project e1') \<in> T)"

definition stops_agreeing :: "contract \<Rightarrow> unit saturated_system \<Rightarrow> unit saturated_system \<Rightarrow> observable_pair \<Rightarrow> bool" where
  "stops_agreeing k impl spec p \<longleftrightarrow> (\<exists>e ph e' ph' i ph1 j ph1'. p = (project e, project e') \<and>
     steps_to impl e ph i ph1 \<and> steps_to spec e' ph' j ph1' \<and> final_agreement k i j)"

lemma same_step_Realizing: "same_step (Realizing ob e h) st \<Longrightarrow> \<exists>e' h'. st = Realizing ob e' h' \<and> project e = project e'"
  by (cases st) (auto simp: same_step_def)

lemma final_agreement_same: "same_step i i' \<Longrightarrow> same_step j j' \<Longrightarrow> final_agreement k i j \<Longrightarrow> final_agreement k i' j'"
  by (simp add: final_agreement_def same_step_def)

lemma closed_pairs_agree:
  assumes blind: "blind_on D impl" "blind_on D' spec" and inside: "T \<subseteq> D \<times> D'"
    and closed: "\<And>p. p \<in> T \<Longrightarrow> leads_into impl spec T p \<or> stops_agreeing k impl spec p"
    and start: "(project e, project e') \<in> T"
  shows "agree k impl spec e ph e' ph'"
  using start
proof (coinduction arbitrary: e ph e' ph' rule: agree.coinduct)
  case agree
  have d: "project e \<in> D" "project e' \<in> D'" using agree inside by blast+
  from closed[OF agree] show ?case
  proof
    assume "leads_into impl spec T (project e, project e')"
    then obtain f pf f' pf' ob f1 h ph1 f1' h' ph1' where l: "project f = project e" "project f' = project e'"
      "steps_to impl f pf (Realizing ob f1 h) ph1" "steps_to spec f' pf' (Realizing ob f1' h') ph1'" "(project f1, project f1') \<in> T"
      unfolding leads_into_def by auto
    obtain e1 hh pp where 1: "steps_to impl e ph (Realizing ob e1 hh) pp" "project f1 = project e1"
      using blind_onD[OF blind(1) _ l(1,3)] d(1) l(1) same_step_Realizing by metis
    obtain e1' hh' pp' where 2: "steps_to spec e' ph' (Realizing ob e1' hh') pp'" "project f1' = project e1'"
      using blind_onD[OF blind(2) _ l(2,4)] d(2) l(2) same_step_Realizing by metis
    have "(project e1, project e1') \<in> T" using l(5) 1(2) 2(2) by simp
    then show ?thesis using 1(1) 2(1) by (simp, blast)
  next
    assume "stops_agreeing k impl spec (project e, project e')"
    then obtain f pf f' pf' i ph1 j ph1' where l: "project f = project e" "project f' = project e'"
      "steps_to impl f pf i ph1" "steps_to spec f' pf' j ph1'" "final_agreement k i j"
      unfolding stops_agreeing_def by auto
    obtain i1 pp where 1: "steps_to impl e ph i1 pp" "same_step i i1" using blind_onD[OF blind(1) _ l(1,3)] d(1) l(1) by metis
    obtain j1 pp' where 2: "steps_to spec e' ph' j1 pp'" "same_step j j1" using blind_onD[OF blind(2) _ l(2,4)] d(2) l(2) by metis
    have "final_agreement k i1 j1" using final_agreement_same 1(2) 2(2) l(5) by blast
    then consider c c' where "i1 = SatQuiescent c" "j1 = SatQuiescent c'" | c c' where "i1 = SatDivergent c" "j1 = SatDivergent c'"
      | c' where "k = Refines" "j1 = SatDivergent c'" "\<And>u. i1 \<noteq> SatUnknown u"
      by (cases i1; cases j1) (auto simp: final_agreement_def)
    then show ?thesis
    proof cases
      case 1
      then show ?thesis using \<open>steps_to impl e ph i1 pp\<close> \<open>steps_to spec e' ph' j1 pp'\<close> by (simp, blast)
    next
      case 2
      then show ?thesis using \<open>steps_to impl e ph i1 pp\<close> \<open>steps_to spec e' ph' j1 pp'\<close> by (simp, blast)
    next
      case 3
      then show ?thesis using \<open>steps_to impl e ph i1 pp\<close> \<open>steps_to spec e' ph' j1 pp'\<close> by (simp, blast)
    qed
  qed
qed

lemma leads_into_mono: "leads_into impl spec T p \<Longrightarrow> T \<subseteq> U \<Longrightarrow> leads_into impl spec U p"
  unfolding leads_into_def by blast

lemma pair_walk_holds:
  assumes blind: "blind_on D impl" "blind_on D' spec"
    and "insert (project e, project e') (set seen) \<subseteq> D \<times> D'"
    and "\<forall>p \<in> set seen. leads_into impl spec (insert (project e, project e') (set seen)) p"
    and "pair_walk impl spec k m seen prefix e e' ph ph' () () = Some (Holds v n)"
    and "(project f, project f') \<in> insert (project e, project e') (set seen)"
  shows "agree k impl spec f pf f' pf'"
  using assms(3-6)
proof (induction "unat m + 1 - length seen" arbitrary: seen prefix e e' ph ph' rule: less_induct)
  case less
  let ?T = "insert (project e, project e') (set seen)"
  from less.prems(3) show ?case
  proof (cases rule: pair_walk_cases)
    case Seen
    then have "?T = set seen" by blast
    then have "\<And>p. p \<in> ?T \<Longrightarrow> leads_into impl spec ?T p" using less.prems(2) by simp
    then show ?thesis using closed_pairs_agree[OF blind less.prems(1), of k f f' pf pf'] less.prems(4) by blast
  next
    case (Final i j ph1 ph1' v n)
    then have "stops_agreeing k impl spec (project e, project e')" unfolding stops_agreeing_def by blast
    then have "\<And>p. p \<in> ?T \<Longrightarrow> leads_into impl spec ?T p \<or> stops_agreeing k impl spec p" using less.prems(2) by blast
    then show ?thesis using closed_pairs_agree[OF blind less.prems(1), of k f f' pf pf'] less.prems(4) by blast
  next
    case (Continue ob e1 h ph1 e1' h' ph1')
    let ?seen = "(project e, project e') # seen"
    have "leads_into impl spec (insert (project e1, project e1') (set ?seen)) (project e, project e')"
      unfolding leads_into_def using Continue(3,4) by blast
    moreover have "leads_into impl spec (insert (project e1, project e1') (set ?seen)) p" if "p \<in> set seen" for p
      by (rule leads_into_mono[where T = ?T]) (use less.prems(2) that in auto)
    ultimately have "\<forall>p \<in> set ?seen. leads_into impl spec (insert (project e1, project e1') (set ?seen)) p" by simp
    moreover have "unat m + 1 - length ?seen < unat m + 1 - length seen" using Continue(2) by simp
    moreover have "(project f, project f') \<in> insert (project e1, project e1') (set ?seen)" using less.prems(4) by auto
    moreover have "insert (project e1, project e1') (set ?seen) \<subseteq> D \<times> D'"
      using less.prems(1) blind_on_closed[OF blind(1) _ Continue(3)] blind_on_closed[OF blind(2) _ Continue(4)] by auto
    ultimately show ?thesis using less.hyps Continue(5) by blast
  qed simp_all
qed

section \<open>Fails is disagreement\<close>

lemma agree_step_mismatch:
  assumes "steps_to impl e ph i ph1" "steps_to spec e' ph' j ph1'" "step_mismatch k i j"
  shows "\<not> agree k impl spec e ph e' ph'"
proof
  assume "agree k impl spec e ph e' ph'"
  then show False
    using assms by cases (auto dest!: steps_to_det[OF assms(1)] steps_to_det[OF assms(2)]
      simp: step_mismatch_def final_agreement_def same_observation_def)
qed

lemma agree_step:
  assumes "agree k impl spec e ph e' ph'" "steps_to impl e ph (Realizing ob e1 h) ph1" "steps_to spec e' ph' (Realizing ob e1' h') ph1'"
  shows "agree k impl spec e1 ph1 e1' ph1'"
  using assms by cases (auto dest!: steps_to_det[OF assms(2)] steps_to_det[OF assms(3)])

lemma pair_walk_fails:
  assumes "pair_walk impl spec k m seen prefix e e' ph ph' () () = Some (Fails cx)"
    and "exports impl e0 ph0 prefix e ph" "exports spec e0' ph0' prefix e' ph'"
  shows "\<not> agree k impl spec e ph e' ph' \<and>
    (\<exists>f pf f' pf' i j ph1 ph1'. exports impl e0 ph0 (cx_prefix cx) f pf \<and> exports spec e0' ph0' (cx_prefix cx) f' pf' \<and>
       steps_to impl f pf i ph1 \<and> steps_to spec f' pf' j ph1' \<and> step_mismatch k i j \<and>
       cx_implementation_summand cx = summand_of i \<and> cx_specification_summand cx = summand_of j)"
  using assms
proof (induction "unat m + 1 - length seen" arbitrary: seen prefix e e' ph ph' rule: less_induct)
  case less
  from less.prems(1) show ?case
  proof (cases rule: pair_walk_cases)
    case (Mismatch i j ph1 ph1' cx')
    have "cx' = cx" using Mismatch(4) by simp
    then show ?thesis using agree_step_mismatch[OF Mismatch(1-3)] less.prems(2,3) Mismatch(1-3,5-7) by blast
  next
    case (Continue ob e1 h ph1 e1' h' ph1')
    have lt: "unat m + 1 - length ((project e, project e') # seen) < unat m + 1 - length seen" using Continue(2) by simp
    show ?thesis
      using less.hyps[OF lt Continue(5) exports_snoc[OF less.prems(2) Continue(3)] exports_snoc[OF less.prems(3) Continue(4)]]
        agree_step[OF _ Continue(3,4)] by blast
  qed simp_all
qed

section \<open>Presentations that read world and policy only\<close>

lemma cand_blind:
  assumes "history_blind pr" "project e = project e'"
  shows "cand (map sp_candidates (pr_regimes pr)) (pr_adm pr) e = cand (map sp_candidates (pr_regimes pr)) (pr_adm pr) e'"
proof -
  have "pr_adm pr e = pr_adm pr e'" "\<And>p. p \<in> set (pr_regimes pr) \<Longrightarrow> sp_candidates p e = sp_candidates p e'"
    using assms unfolding history_blind_def by blast+
  then have "c \<in> cand (map sp_candidates (pr_regimes pr)) (pr_adm pr) e \<longleftrightarrow> c \<in> cand (map sp_candidates (pr_regimes pr)) (pr_adm pr) e'" for c
    unfolding cand_iff by simp
  then show ?thesis by blast
qed

lemma resolvable_project: "project e = project e' \<Longrightarrow> resolvable it e \<longleftrightarrow> resolvable it e'"
  by (simp add: resolvable_def project_def)

definition visits_ok :: "presentation \<Rightarrow> (observable_state \<times> visit_record) list \<Rightarrow> bool" where
  "visits_ok pr visited \<longleftrightarrow> (\<forall>obs rec e. bt_get visited obs = Some rec \<longrightarrow> declares (pr_assumptions pr) HistoryIndependence \<longrightarrow>
     project e = obs \<longrightarrow> vcandidates rec = Some (cand (map sp_candidates (pr_regimes pr)) (pr_adm pr) e))"

lemma visits_ok_insert:
  assumes "history_blind pr" "visits_ok pr visited"
  shows "visits_ok pr (bt_insert (project nxt) (record_visit pr nxt i) visited)"
  unfolding visits_ok_def
proof (intro allI impI)
  fix obs rec e
  assume get: "bt_get (bt_insert (project nxt) (record_visit pr nxt i) visited) obs = Some rec"
    and d: "declares (pr_assumptions pr) HistoryIndependence" and e: "project e = obs"
  show "vcandidates rec = Some (cand (map sp_candidates (pr_regimes pr)) (pr_adm pr) e)"
  proof (cases "obs = project nxt")
    case True
    then have "rec = record_visit pr nxt i" using get by (simp add: bt_get_insert)
    then have "vcandidates rec = Some (cand (map sp_candidates (pr_regimes pr)) (pr_adm pr) nxt)"
      using d by (simp add: record_visit_def enumeration_cand)
    then show ?thesis using cand_blind[OF assms(1), of e nxt] True e by metis
  next
    case False
    then have "bt_get visited obs = Some rec" using get by (simp add: bt_get_insert)
    then show ?thesis using d e assms(2) unfolding visits_ok_def by blast
  qed
qed

lemma phase_check_stable:
  assumes "phase_stable kf"
  shows "phase_check (\<lambda>s c ph. (kf c ph, s)) p q cs s = (True, s)"
proof (induction cs)
  case (Cons c cs)
  have "kf c q = rk q (kf c p)" using assms unfolding phase_stable_def by blast
  then show ?case using Cons by (simp add: rk_def)
qed simp

text \<open>What a revisit gives depends on the declarations only.\<close>

lemma close_lasso_blind:
  assumes "history_blind pr" "phase_stable kf" "resolvable (pr_interner pr) e" "resolvable (pr_interner pr) nxt"
    and "visits_ok pr visited" "bt_get visited (project nxt) = Some previous"
  shows "\<exists>r. close_lasso blake3 pr e nxt sts previous ph (pure_keyer kf) () = (Some r, ()) \<and>
    summand_of r = (if declares (pr_assumptions pr) HistoryIndependence \<and> declares (pr_assumptions pr) PhaseStableKeying
      then DivergentSummand else UnknownSummand)"
proof (cases "declares (pr_assumptions pr) HistoryIndependence \<and> declares (pr_assumptions pr) PhaseStableKeying")
  case True
  then have "vcandidates previous = Some (cand (map sp_candidates (pr_regimes pr)) (pr_adm pr) nxt)"
    using assms(5,6) unfolding visits_ok_def by blast
  then show ?thesis unfolding close_lasso_def phase_check_stable[OF assms(2)] Let_def using True assms(3,4)
    by (auto simp: enumeration_cand resolvable_def)
qed (auto simp: close_lasso_def Let_def)

lemma sat_loop_on_gamma:
  assumes "gamma blake3 pr (pure_keyer kf) (saturating_add_u64 ph (length consumed)) current st nxt"
  shows "\<exists>wk. sat_loop blake3 pr e ph (pure_keyer kf) b current consumed work hidden visited () =
    (case op_label (pr_profile pr) st of
       Inl err \<Rightarrow> (Some (SatUnknown (SatProfileError (length consumed) err), consumed @ [st], finish_cost wk), ())
     | Inr RealizingLabel \<Rightarrow> (Some (Realizing (sobservation st) nxt hidden, consumed @ [st], finish_cost wk), ())
     | Inr Administrative \<Rightarrow>
         (case bt_get visited (project nxt) of
            Some previous \<Rightarrow>
              (case close_lasso blake3 pr e nxt (consumed @ [st]) previous ph (pure_keyer kf) () of
                 (res, s) \<Rightarrow> (map_option (\<lambda>r. (r, consumed @ [st], finish_cost wk)) res, s))
          | None \<Rightarrow>
              if unat (max_administrative_states b) \<le> length visited
              then (Some (SatUnknown (AdministrativeStateBudgetExhausted (length visited) (max_administrative_states b)), consumed @ [st], finish_cost wk), ())
              else if unat (max_hidden_steps b) < hidden + 1
              then (Some (SatUnknown (AdministrativeBudgetExhausted (hidden + 1) (max_hidden_steps b)), consumed @ [st], finish_cost wk), ())
              else sat_loop blake3 pr e ph (pure_keyer kf) b nxt (consumed @ [st]) wk (hidden + 1)
                (bt_insert (project nxt) (record_visit pr nxt (length (consumed @ [st]))) visited) ()))"
proof -
  obtain cost where t: "try_commit_tick blake3 (pr_regimes pr) (pr_adm pr) (pr_interner pr) current (pr_context pr)
      (saturating_add_u64 ph (length consumed)) (pure_keyer kf) () = (Inr (Step (sobservation st) nxt, Some st, cost), ())"
    using assms by (auto simp: gamma_def)
  show ?thesis
    unfolding sat_loop.simps[of blake3 pr e ph "pure_keyer kf" b current consumed work hidden visited "()"] t prod.case sum.case committed.case
      option.case Let_def
    by (rule exI[of _ "fold_cost work cost"], rule refl)
qed

text \<open>A tick that neither steps nor finds an empty frontier ends the loop without an answer.\<close>

lemma sat_loop_no_gamma:
  assumes "\<And>st nxt. \<not> gamma blake3 pr (pure_keyer kf) (saturating_add_u64 ph (length consumed)) current st nxt"
    and "cand (map sp_candidates (pr_regimes pr)) (pr_adm pr) current \<noteq> {}"
    and "fst (sat_loop blake3 pr e ph (pure_keyer kf) b current consumed work hidden visited ()) = Some (r, sts, cost)"
  shows "summand_of r = UnknownSummand"
proof (cases rule: sat_loop_cases[of blake3 pr e ph "pure_keyer kf" b current consumed work hidden visited "()"])
  case (Stuck u s1)
  then show ?thesis using assms(3) by auto
qed (use assms in auto)

lemma sat_loop_gamma_result:
  assumes g: "gamma blake3 pr (pure_keyer kf) (saturating_add_u64 ph (length consumed)) current st nxt"
    and run: "fst (sat_loop blake3 pr e ph (pure_keyer kf) b current consumed work hidden visited ()) = Some (r, sts, cost)"
    and blind: "history_blind pr" "phase_stable kf" "resolvable (pr_interner pr) e" "resolvable (pr_interner pr) nxt" "visits_ok pr visited"
  shows "case op_label (pr_profile pr) st of
      Inl err \<Rightarrow> summand_of r = UnknownSummand
    | Inr RealizingLabel \<Rightarrow> r = Realizing (sobservation st) nxt hidden
    | Inr Administrative \<Rightarrow>
        if bt_get visited (project nxt) \<noteq> None
        then summand_of r = (if declares (pr_assumptions pr) HistoryIndependence \<and> declares (pr_assumptions pr) PhaseStableKeying
          then DivergentSummand else UnknownSummand)
        else if unat (max_administrative_states b) \<le> length visited \<or> unat (max_hidden_steps b) < hidden + 1
        then summand_of r = UnknownSummand
        else \<exists>wk. fst (sat_loop blake3 pr e ph (pure_keyer kf) b nxt (consumed @ [st]) wk (hidden + 1)
          (bt_insert (project nxt) (record_visit pr nxt (length (consumed @ [st]))) visited) ()) = Some (r, sts, cost)"
proof -
  obtain wk where L: "sat_loop blake3 pr e ph (pure_keyer kf) b current consumed work hidden visited () =
    (case op_label (pr_profile pr) st of
       Inl err \<Rightarrow> (Some (SatUnknown (SatProfileError (length consumed) err), consumed @ [st], finish_cost wk), ())
     | Inr RealizingLabel \<Rightarrow> (Some (Realizing (sobservation st) nxt hidden, consumed @ [st], finish_cost wk), ())
     | Inr Administrative \<Rightarrow>
         (case bt_get visited (project nxt) of
            Some previous \<Rightarrow>
              (case close_lasso blake3 pr e nxt (consumed @ [st]) previous ph (pure_keyer kf) () of
                 (res, s) \<Rightarrow> (map_option (\<lambda>r. (r, consumed @ [st], finish_cost wk)) res, s))
          | None \<Rightarrow>
              if unat (max_administrative_states b) \<le> length visited
              then (Some (SatUnknown (AdministrativeStateBudgetExhausted (length visited) (max_administrative_states b)), consumed @ [st], finish_cost wk), ())
              else if unat (max_hidden_steps b) < hidden + 1
              then (Some (SatUnknown (AdministrativeBudgetExhausted (hidden + 1) (max_hidden_steps b)), consumed @ [st], finish_cost wk), ())
              else sat_loop blake3 pr e ph (pure_keyer kf) b nxt (consumed @ [st]) wk (hidden + 1)
                (bt_insert (project nxt) (record_visit pr nxt (length (consumed @ [st]))) visited) ()))"
    using sat_loop_on_gamma[OF g] by blast
  note run = run[unfolded L]
  show ?thesis
  proof (cases "op_label (pr_profile pr) st")
    case (Inl err)
    then show ?thesis using run by auto
  next
    case (Inr l)
    show ?thesis
    proof (cases l)
      case RealizingLabel
      then show ?thesis using run Inr by simp
    next
      case Administrative
      note run = run[unfolded Inr Administrative sum.case step_label.case]
      show ?thesis
      proof (cases "bt_get visited (project nxt)")
        case None
        then show ?thesis using run by (auto simp: Inr Administrative split: if_splits)
      next
        case (Some previous)
        obtain rr where "close_lasso blake3 pr e nxt (consumed @ [st]) previous ph (pure_keyer kf) () = (Some rr, ())"
          "summand_of rr = (if declares (pr_assumptions pr) HistoryIndependence \<and> declares (pr_assumptions pr) PhaseStableKeying
            then DivergentSummand else UnknownSummand)"
          using close_lasso_blind[OF blind Some] by blast
        then show ?thesis using run[unfolded Some option.case] by (auto simp: Inr Administrative Some)
      qed
    qed
  qed
qed

lemma same_step_summand: "summand_of r = summand_of r' \<Longrightarrow> summand_of r \<noteq> RealizingSummand \<Longrightarrow> same_step r r'"
  by (cases r; cases r') (simp_all add: same_step_def)

lemma sat_loop_transfer:
  assumes blind: "history_blind pr" "decomposition_blind pr" "label_blind pr" and stable: "phase_stable kf"
    and start: "resolvable (pr_interner pr) e" "resolvable (pr_interner pr) e'"
    and same: "project c = project c'" "resolvable (pr_interner pr) c"
    and seen: "visits_ok pr visited" "visits_ok pr visited'" "\<And>obs. bt_get visited obs = None \<longleftrightarrow> bt_get visited' obs = None"
      "length visited = length visited'"
    and run: "fst (sat_loop blake3 pr e ph (pure_keyer kf) b c consumed wk hidden visited ()) = Some (r, sts, cost)"
    and run': "fst (sat_loop blake3 pr e' ph' (pure_keyer kf) b c' consumed' wk' hidden visited' ()) = Some (r', sts', cost')"
  shows "same_step r r'"
  using same seen run run'
proof (induction "unat (max_hidden_steps b) + 1 - hidden" arbitrary: c c' consumed consumed' wk wk' hidden visited visited' rule: less_induct)
  case less
  let ?K = "pure_keyer kf :: unit keyer" and ?C = "cand (map sp_candidates (pr_regimes pr)) (pr_adm pr)"
  have cands: "?C c = ?C c'" using cand_blind[OF blind(1) less.prems(1)] .
  consider (step) st nxt where "gamma blake3 pr ?K (saturating_add_u64 ph (length consumed)) c st nxt"
    | (empty) "?C c = {}"
    | (neither) "\<And>st nxt. \<not> gamma blake3 pr ?K (saturating_add_u64 ph (length consumed)) c st nxt" "?C c \<noteq> {}" by blast
  then show ?case
  proof cases
    case neither
    have "\<not> gamma blake3 pr ?K (saturating_add_u64 ph' (length consumed')) c' st nxt" for st nxt
    proof
      assume "gamma blake3 pr ?K (saturating_add_u64 ph' (length consumed')) c' st nxt"
      then obtain st' nxt' where "gamma blake3 pr ?K (saturating_add_u64 ph (length consumed)) c st' nxt'"
        using gamma_transfer[OF blind(1,2) stable less.prems(1)[symmetric]] by metis
      then show False using neither(1) by blast
    qed
    then have "summand_of r = UnknownSummand" "summand_of r' = UnknownSummand"
      using sat_loop_no_gamma[OF neither less.prems(7)] sat_loop_no_gamma[OF _ _ less.prems(8)] neither(2) cands by auto
    then show ?thesis by (intro same_step_summand) simp_all
  next
    case empty
    have q: "summand_of x = QuiescentSummand"
      if answer: "fst (sat_loop blake3 pr e0 p ?K b d cons w hidden v ()) = Some (x, y, z)" and none: "?C d = {}" for e0 p d cons w v x y z
    proof -
      obtain cs where t: "try_commit_tick blake3 (pr_regimes pr) (pr_adm pr) (pr_interner pr) d (pr_context pr)
          (saturating_add_u64 p (length cons)) ?K () = (Inr (Quiescent, None, cs), ())" using tick_empty none by blast
      show ?thesis using answer unfolding sat_loop.simps[of blake3 pr e0 p ?K b d cons w hidden v "()"] Let_def t by auto
    qed
    have "summand_of r = QuiescentSummand" "summand_of r' = QuiescentSummand"
      using q[OF less.prems(7)] q[OF less.prems(8)] empty cands by auto
    then show ?thesis by (intro same_step_summand) simp_all
  next
    case step
    obtain st' nxt' where g': "gamma blake3 pr ?K (saturating_add_u64 ph' (length consumed')) c' st' nxt'"
      and s': "sdecomposition st' = sdecomposition st" "project nxt' = project nxt" "sobservation st' = sobservation st"
      using gamma_transfer[OF blind(1,2) stable less.prems(1) step] .
    have label: "op_label (pr_profile pr) st' = op_label (pr_profile pr) st" using blind(3) s'(1) unfolding label_blind_def by blast
    have res: "resolvable (pr_interner pr) nxt" "resolvable (pr_interner pr) nxt'"
      using gamma_resolvable[OF step less.prems(2)] resolvable_project[OF s'(2)] by blast+
    note left = sat_loop_gamma_result[OF step less.prems(7) blind(1) stable start(1) res(1) less.prems(3)]
    note right = sat_loop_gamma_result[OF g' less.prems(8) blind(1) stable start(2) res(2) less.prems(4), unfolded label s'(2,3)
        less.prems(5)[symmetric] less.prems(6)[symmetric]]
    consider (unlabelled) err where "op_label (pr_profile pr) st = Inl err" | (visible) "op_label (pr_profile pr) st = Inr RealizingLabel"
      | (hidden) "op_label (pr_profile pr) st = Inr Administrative"
      by (cases "op_label (pr_profile pr) st") (auto intro: step_label.exhaust)
    then show ?thesis
    proof cases
      case unlabelled
      then show ?thesis using left right by (intro same_step_summand) simp_all
    next
      case visible
      then show ?thesis using left right s'(2) by (simp add: same_step_def)
    next
      case hidden
      note left = left[unfolded hidden sum.case step_label.case] and right = right[unfolded hidden sum.case step_label.case]
      show ?thesis
      proof (cases "bt_get visited (project nxt) \<noteq> None \<or>
          unat (max_administrative_states b) \<le> length visited \<or> unat (max_hidden_steps b) < hidden + 1")
        case True
        then have "summand_of r = summand_of r'" "summand_of r \<noteq> RealizingSummand" using left right by (auto split: if_splits)
        then show ?thesis by (rule same_step_summand)
      next
        case False
        let ?next = "\<lambda>e ph cons w c v. sat_loop blake3 pr e ph ?K b c cons w (hidden + 1)
          (bt_insert (project nxt) (record_visit pr c (length cons)) v) ()"
        obtain w w' where run: "fst (?next e ph (consumed @ [st]) w nxt visited) = Some (r, sts, cost)"
          "fst (?next e' ph' (consumed' @ [st']) w' nxt' visited') = Some (r', sts', cost')"
          using left right False by auto
        have dec: "unat (max_hidden_steps b) + 1 - (hidden + 1) < unat (max_hidden_steps b) + 1 - hidden" using False by linarith
        have none: "bt_get visited (project nxt) = None" "bt_get visited' (project nxt) = None" using False less.prems(5) by auto
        show ?thesis
          by (rule less.hyps[OF dec s'(2)[symmetric] res(1) visits_ok_insert[OF blind(1) less.prems(3)]
                visits_ok_insert[OF blind(1) less.prems(4), of nxt', unfolded s'(2)] _ _ run])
            (use less.prems(5,6) length_bt_insert[OF none(1)] length_bt_insert[OF none(2)] in \<open>simp_all add: bt_get_insert\<close>)
      qed
    qed
  qed
qed

lemma presented_steps_to:
  "steps_to (presented_system blake3 pr e0 keyer b) e ph st ph1 \<Longrightarrow>
     \<exists>sts cost. fst (sat_step blake3 pr e ph keyer b ()) = Some (st, sts, cost)"
  by (auto simp: steps_to_def presented_system_def split: prod.splits option.splits)

lemma steps_to_presented:
  assumes "fst (sat_step blake3 pr e ph keyer b ()) = Some (st, sts, cost)"
  shows "\<exists>ph1. steps_to (presented_system blake3 pr e0 keyer b) e ph st ph1"
proof -
  have "sat_step blake3 pr e ph keyer b () = (Some (st, sts, cost), ())" using assms by (cases "sat_step blake3 pr e ph keyer b ()") simp
  then show ?thesis unfolding steps_to_def presented_system_def by simp
qed

definition resolvable_states :: "interner \<Rightarrow> observable_state set" where
  "resolvable_states it = {project e | e. resolvable it e}"

lemma resolvable_states_iff: "project e \<in> resolvable_states it \<longleftrightarrow> resolvable it e"
  unfolding resolvable_states_def using resolvable_project by blast

lemma hides_resolvable: "hides blake3 pr keyer ph e sts e1 \<Longrightarrow> resolvable (pr_interner pr) e \<Longrightarrow> resolvable (pr_interner pr) e1"
  by (induction rule: hides.induct) (auto dest: gamma_resolvable)

lemma presented_blind:
  assumes blind: "history_blind pr" "decomposition_blind pr" "label_blind pr" and stable: "phase_stable kf" and free: "panic_free (pr_regimes pr)"
  shows "blind_on (resolvable_states (pr_interner pr)) (presented_system blake3 pr e0 (pure_keyer kf) b)"
  unfolding blind_on_def resolvable_states_iff
proof (intro conjI allI impI)
  fix e e' :: exec_config and ph ph' ph1 :: u64 and st
  assume res: "resolvable (pr_interner pr) e" and same: "project e = project e'"
    and st: "steps_to (presented_system blake3 pr e0 (pure_keyer kf) b) e ph st ph1"
  have res': "resolvable (pr_interner pr) e'" using res resolvable_project[OF same] by blast
  let ?v = "\<lambda>e. bt_insert (project e) (record_visit pr e 0) []"
  obtain sts cost where run: "fst (sat_loop blake3 pr e ph (pure_keyer kf) b e [] (Some 0) 0 (?v e) ()) = Some (st, sts, cost)"
    using presented_steps_to[OF st] unfolding sat_step_def by blast
  have "visits_recorded pr []" by (simp add: visits_recorded_def bt_get_def)
  then obtain st' sts' cost' where run': "fst (sat_loop blake3 pr e' ph' (pure_keyer kf) b e' [] (Some 0) 0 (?v e') ()) = Some (st', sts', cost')"
    using sat_loop_total[OF res' free res' visits_recorded_insert[of pr "[]" "project e'" e' 0], of blake3 ph' "pure_keyer kf" b "[]" "Some 0" 0 "()"]
    by (metis not_None_eq prod_cases3)
  have ok: "visits_ok pr []" by (simp add: visits_ok_def bt_get_def)
  have "same_step st st'"
    by (rule sat_loop_transfer[OF blind stable res res' same res visits_ok_insert[OF blind(1) ok] visits_ok_insert[OF blind(1) ok] _ _ run run'])
      (simp_all add: bt_get_insert same bt_get_def)
  moreover have "\<exists>ph1'. steps_to (presented_system blake3 pr e0 (pure_keyer kf) b) e' ph' st' ph1'"
    by (rule steps_to_presented) (use run' in \<open>simp add: sat_step_def\<close>)
  ultimately show "\<exists>st' ph1'. steps_to (presented_system blake3 pr e0 (pure_keyer kf) b) e' ph' st' ph1' \<and> same_step st st'" by blast
next
  fix e e1 :: exec_config and ph ph1 :: u64 and ob h
  assume res: "resolvable (pr_interner pr) e"
    and st: "steps_to (presented_system blake3 pr e0 (pure_keyer kf) b) e ph (Realizing ob e1 h) ph1"
  obtain sts cost where run: "sat_step blake3 pr e ph (pure_keyer kf) b () = (Some (Realizing ob e1 h, sts, cost), ())"
    using st by (auto simp: steps_to_def presented_system_def split: prod.splits option.splits)
  have "sat_claim blake3 pr (pure_keyer kf) ph e (Realizing ob e1 h) sts"
    using sat_loop_claim[OF sat_inv_start run[unfolded sat_step_def]] by blast
  then show "resolvable (pr_interner pr) e1"
    using res unfolding sat_claim_def by (auto dest: hides_resolvable gamma_resolvable)
qed

section \<open>The comparison\<close>

text \<open>The walk returns where the steps do.\<close>

definition answers_on :: "observable_state set \<Rightarrow> unit saturated_system \<Rightarrow> bool" where
  "answers_on D sys \<longleftrightarrow> (\<forall>e ph. project e \<in> D \<longrightarrow> fst (sy_step sys e ph ()) \<noteq> None)"

lemma answers_onE:
  assumes "answers_on D sys" "project e \<in> D"
  obtains st n where "sy_step sys e ph () = (Some (st, n), ())" "steps_to sys e ph st (saturating_add_u64 ph (unat n))"
proof -
  have "fst (sy_step sys e ph ()) \<noteq> None" using assms unfolding answers_on_def by blast
  then obtain st n where "sy_step sys e ph () = (Some (st, n), ())" by (cases "sy_step sys e ph ()") auto
  then show thesis using that unfolding steps_to_def by blast
qed

lemma pair_walk_total:
  assumes "blind_on D impl" "blind_on D' spec" "answers_on D impl" "answers_on D' spec" "project e \<in> D" "project e' \<in> D'"
  shows "\<exists>res. pair_walk impl spec k m seen prefix e e' ph ph' () () = Some res"
  using assms(5,6)
proof (induction "unat m + 1 - length seen" arbitrary: seen prefix e e' ph ph' rule: less_induct)
  case less
  obtain i n where i: "sy_step impl e ph () = (Some (i, n), ())" "steps_to impl e ph i (saturating_add_u64 ph (unat n))"
    using answers_onE[OF assms(3) less.prems(1)] .
  obtain j n' where j: "sy_step spec e' ph' () = (Some (j, n'), ())" "steps_to spec e' ph' j (saturating_add_u64 ph' (unat n'))"
    using answers_onE[OF assms(4) less.prems(2)] .
  have rec: "\<exists>res. pair_walk impl spec k m ((project e, project e') # seen) (prefix @ [ob]) e1 e1'
      (saturating_add_u64 ph (unat n)) (saturating_add_u64 ph' (unat n')) () () = Some res"
    if "length seen < unat m" "i = Realizing ob e1 h" "j = Realizing ob e1' h'" for ob e1 h e1' h'
    using less.hyps[of "(project e, project e') # seen" e1 e1'] that i(2) j(2)
      blind_on_closed[OF assms(1) less.prems(1)] blind_on_closed[OF assms(2) less.prems(2)] by simp
  show ?case
    unfolding pair_walk.simps[of impl spec k m seen prefix e e' ph ph' "()" "()"] Let_def i(1) j(1) prod.case option.case
    using rec by (cases i; cases j) (simp_all add: not_less)
qed

lemma pair_walk_undecided:
  assumes "pair_walk impl spec k m seen prefix e e' ph ph' () () = Some (ComparisonUnknown u)"
    and "exports impl e0 ph0 prefix e ph" "exports spec e0' ph0' prefix e' ph'" "length prefix = length seen" "length seen \<le> unat m"
  shows "\<exists>obs f pf f' pf'. exports impl e0 ph0 obs f pf \<and> exports spec e0' ph0' obs f' pf' \<and> length obs \<le> unat m \<and>
    undecided impl spec m (length obs) (length obs) f pf f' pf' u"
  using assms
proof (induction "unat m + 1 - length seen" arbitrary: seen prefix e e' ph ph' rule: less_induct)
  case less
  from less.prems(1) show ?case
  proof (cases rule: pair_walk_cases)
    case (Undecided w)
    then have "undecided impl spec m (length prefix) (length prefix) e ph e' ph' u" using less.prems(4) by simp
    then show ?thesis using less.prems(2-5) by metis
  next
    case (Continue ob e1 h ph1 e1' h' ph1')
    have lt: "unat m + 1 - length ((project e, project e') # seen) < unat m + 1 - length seen" using Continue(2) by simp
    show ?thesis
      using less.hyps[OF lt Continue(5) exports_snoc[OF less.prems(2) Continue(3)] exports_snoc[OF less.prems(3) Continue(4)]]
        less.prems(4) Continue(2) by simp
  qed simp_all
qed

lemma presented_answers:
  assumes "panic_free (pr_regimes pr)"
  shows "answers_on (resolvable_states (pr_interner pr)) (presented_system blake3 pr e0 keyer b)"
  unfolding answers_on_def resolvable_states_iff
proof (intro allI impI)
  fix e ph
  assume r: "resolvable (pr_interner pr) e"
  have "visits_recorded pr []" by (simp add: visits_recorded_def bt_get_def)
  then have "fst (sat_step blake3 pr e ph keyer b ()) \<noteq> None"
    unfolding sat_step_def by (intro sat_loop_total[OF r assms r] visits_recorded_insert)
  then show "fst (sy_step (presented_system blake3 pr e0 keyer b) e ph ()) \<noteq> None"
    by (cases "sat_step blake3 pr e ph keyer b ()") (auto simp: presented_system_def)
qed

lemma presented_simps_system [simp]:
  "sy_initial (presented_system blake3 pr e0 keyer b) = e0"
  "sy_assumptions (presented_system blake3 pr e0 keyer b) = pr_assumptions pr"
  "sb_context (sy_boundary (presented_system blake3 pr e0 keyer b)) = pr_context pr"
  "sb_profile (sy_boundary (presented_system blake3 pr e0 keyer b)) = op_id (pr_profile pr)"
  by (simp_all add: presented_system_def)

text \<open>What each answer of the comparison claims.\<close>

definition comparison_claim ::
  "unit saturated_system \<Rightarrow> unit saturated_system \<Rightarrow> contract \<Rightarrow> u64 \<Rightarrow> saturated_comparison \<Rightarrow> bool" where
  "comparison_claim impl spec k m res \<longleftrightarrow>
     (let e = sy_initial impl; e' = sy_initial spec in
      case res of
        Holds v n \<Rightarrow> agree k impl spec e 0 e' 0
      | Fails cx \<Rightarrow> \<not> agree k impl spec e 0 e' 0 \<and>
          (\<exists>f pf f' pf' i j ph1 ph1'. exports impl e 0 (cx_prefix cx) f pf \<and> exports spec e' 0 (cx_prefix cx) f' pf' \<and>
             steps_to impl f pf i ph1 \<and> steps_to spec f' pf' j ph1' \<and> step_mismatch k i j \<and>
             cx_implementation_summand cx = summand_of i \<and> cx_specification_summand cx = summand_of j)
      | ComparisonUnknown u \<Rightarrow>
          u = BoundaryMismatch \<and>
            (sb_context (sy_boundary impl) \<noteq> sb_context (sy_boundary spec) \<or> sb_profile (sy_boundary impl) \<noteq> sb_profile (sy_boundary spec)) \<or>
          (\<exists>a. u = ComparisonUndeclared a \<and> \<not> (declares (sy_assumptions impl) a \<and> declares (sy_assumptions spec) a)) \<or>
          (\<exists>obs f pf f' pf'. exports impl e 0 obs f pf \<and> exports spec e' 0 obs f' pf' \<and> length obs \<le> unat m \<and>
             undecided impl spec m (length obs) (length obs) f pf f' pf' u))"

lemma check_saturated_claim:
  assumes "blind_on D impl" "blind_on D' spec" "answers_on D impl" "answers_on D' spec"
    and "project (sy_initial impl) \<in> D" "project (sy_initial spec) \<in> D'"
  shows "\<exists>res. check_saturated impl spec k m () () = Some res \<and> comparison_claim impl spec k m res"
proof -
  let ?e = "sy_initial impl" and ?e' = "sy_initial spec"
  obtain res where res: "pair_walk impl spec k m [] [] ?e ?e' 0 0 () () = Some res"
    using pair_walk_total[OF assms] by blast
  have "comparison_claim impl spec k m res"
  proof (cases res)
    case (Holds v n)
    then show ?thesis using pair_walk_holds[OF assms(1,2) _ _ res[unfolded Holds], of ?e ?e'] assms(5,6)
      by (simp add: comparison_claim_def)
  next
    case (Fails cx)
    then show ?thesis using pair_walk_fails[OF res[unfolded Fails] exports_nil exports_nil] by (simp add: comparison_claim_def)
  next
    case (ComparisonUnknown u)
    then show ?thesis using pair_walk_undecided[OF res[unfolded ComparisonUnknown] exports_nil exports_nil]
      by (simp add: comparison_claim_def)
  qed
  then show ?thesis using res unfolding check_saturated_def Let_def by (auto simp: comparison_claim_def)
qed

lemma pair_walk_round:
  assumes "sy_step impl e ph () = (Some (Realizing ob e1 h, n), ())" "sy_step spec e' ph' () = (Some (Realizing ob e1' h', n'), ())"
    and "project e1 = project e" "project e1' = project e'" "0 < unat m"
  shows "pair_walk impl spec k m [] [] e e' ph ph' () () = Some (Holds 1 1)"
  using assms by (simp add: pair_walk.simps[of impl spec k m "[]" "[]"] pair_walk.simps[of impl spec k m "[_]"])

text \<open>A realizing tick that goes round for ever.\<close>

lemma spin_exports:
  assumes "world e = 0" "policy e = 0"
  shows "\<exists>ob h n. sat_step id (presented id z demo_interner [spin_provider (\<lambda>_. [2])]) e ph (pure_keyer demo_key) (budget_uniform 8) () =
    (Some (Realizing ob (apply_candidate id e spin) h, n), ())"
proof -
  let ?pr = "presented id z demo_interner [spin_provider (\<lambda>_. [2])]"
  obtain st where t: "try_commit_tick id [spin_provider (\<lambda>_. [2])] AdmAll demo_interner e z (saturating_add_u64 ph 0) (pure_keyer demo_key) () =
     (Inr (Step (sobservation st) (apply_candidate id e spin), Some st, Steps 2), ())" "generators (sdecomposition st) = [[2]]"
    using spin_tick[OF assms(1) demo_interner_resolve(1)] by blast
  have "gamma id ?pr (pure_keyer demo_key) (saturating_add_u64 ph (length ([] :: committed_step list))) e st (apply_candidate id e spin)"
    using t(1) by (simp add: gamma_def)
  from sat_loop_gamma(1)[OF this] show ?thesis unfolding sat_step_def using demo_label(2)[OF t(2)] by fastforce
qed

section \<open>Properties\<close>

text \<open>
  C23. The comparison of two presentations decides the declared equivalence: with candidates,
  admissibility, decompositions and labels that read world and policy only, stable keys, handles that resolve
  and no panicking provider, it returns, Holds means that the two sides agree for ever (coinductively),
  Fails names a prefix that both sides export and a mismatch after it, and Unknown is only the
  answer for different boundaries, a missing declaration, an Unknown step of a side after a prefix both export, or
  as many pairs as the bound without a repetition.
\<close>

theorem comparison_decides:
  assumes "history_blind pr" "decomposition_blind pr" "label_blind pr" "phase_stable kf" "panic_free (pr_regimes pr)"
    and "history_blind pr'" "decomposition_blind pr'" "label_blind pr'" "phase_stable kf'" "panic_free (pr_regimes pr')"
    and "resolvable (pr_interner pr) e" "resolvable (pr_interner pr') e'"
  shows "\<exists>res. check_saturated (presented_system blake3 pr e (pure_keyer kf) b) (presented_system blake3 pr' e' (pure_keyer kf') b') k m () () = Some res \<and>
    comparison_claim (presented_system blake3 pr e (pure_keyer kf) b) (presented_system blake3 pr' e' (pure_keyer kf') b') k m res"
  by (rule check_saturated_claim[OF presented_blind[OF assms(1-5)] presented_blind[OF assms(6-10)]
        presented_answers[OF assms(5)] presented_answers[OF assms(10)]])
    (simp_all add: resolvable_states_iff assms(11,12))

theorem comparison_decides_witness:
  "agree Bisimilar (presented_system id (demo_presentation id [spin_provider (\<lambda>_. [2])]) demo_config (pure_keyer demo_key) (budget_uniform 8))
     (presented_system id (demo_presentation id [spin_provider (\<lambda>_. [2])]) demo_config (pure_keyer demo_key) (budget_uniform 8))
     demo_config 0 demo_config 0"
proof -
  let ?pr = "demo_presentation id [spin_provider (\<lambda>_. [2])]"
  let ?sys = "presented_system id ?pr demo_config (pure_keyer demo_key) (budget_uniform 8)"
  let ?e = "apply_candidate id demo_config spin"
  have w: "world demo_config = 0" "policy demo_config = 0" "world ?e = 0" "policy ?e = 0"
    by (simp_all add: demo_config_def apply_candidate_def spin_def)
  obtain ob h n where r: "sat_step id ?pr demo_config 0 (pure_keyer demo_key) (budget_uniform 8) () = (Some (Realizing ob ?e h, n), ())"
    using spin_exports[OF w(1,2)] by blast
  have same: "project ?e = project demo_config" using w by (simp add: project_def)
  obtain n1 where s: "sy_step ?sys demo_config 0 () = (Some (Realizing ob ?e h, n1), ())"
    using r by (cases n) (simp add: presented_system_def)
  have walk: "pair_walk ?sys ?sys Bisimilar 8 [] [] demo_config demo_config 0 0 () () = Some (Holds 1 1)"
    by (rule pair_walk_round[OF s s same same]) simp
  have run: "check_saturated ?sys ?sys Bisimilar 8 () () = Some (Holds 1 1)"
    unfolding check_saturated_def presented_simps_system walk by (simp add: assumptions_all_def)
  have "decomposition_blind ?pr" by (simp add: decomposition_blind_def spin_provider_def)
  moreover have "panic_free (pr_regimes ?pr)" by (simp add: panic_free_def spin_provider_def)
  moreover have "resolvable (pr_interner ?pr) demo_config" using demo_resolvable w by simp
  ultimately obtain res where "check_saturated ?sys ?sys Bisimilar 8 () () = Some res" "comparison_claim ?sys ?sys Bisimilar 8 res"
    using comparison_decides[of ?pr demo_key ?pr demo_key demo_config demo_config id "budget_uniform 8" "budget_uniform 8" Bisimilar 8]
      spin_blind by blast
  then show ?thesis using run by (simp add: comparison_claim_def)
qed

end
