(* ===== verification/Elab_Proof.thy ===== *)
theory Elab_Proof
  imports Kernel_Rules Semantic_Publication
begin

text \<open>
  What the two elaborators share: the checker accepts the terms they build. A term \<open>synths\<close> a proposition
  if it does so from every state with one step for each node and one unit of depth for each level, and
  \<open>checks\<close> it if one more of both is enough; the lemmas follow the shape of the terms, that is
  hypotheses, primitive instances, compositions and products under lambdas for the antecedents.
\<close>

section \<open>Terms that need no more than their size\<close>

definition synths :: "(bytes \<Rightarrow> bytes) \<Rightarrow> gamma \<Rightarrow> term_kind \<Rightarrow> kprop \<Rightarrow> bool" where
  "synths blake3 g k p \<longleftrightarrow>
     (\<forall>st. nodes k \<le> steps st \<longrightarrow> levels k \<le> depth st \<longrightarrow> synth blake3 g k p st (st\<lparr>steps := steps st - nodes k\<rparr>))"

definition checks :: "(bytes \<Rightarrow> bytes) \<Rightarrow> gamma \<Rightarrow> term_kind \<Rightarrow> kprop \<Rightarrow> bool" where
  "checks blake3 g k p \<longleftrightarrow>
     (\<forall>st. nodes k < steps st \<longrightarrow> levels k < depth st \<longrightarrow> (\<exists>st'. chk blake3 g k p st st'))"

lemma synthsD: "synths blake3 g k p \<Longrightarrow> nodes k \<le> steps st \<Longrightarrow> levels k \<le> depth st \<Longrightarrow>
    synth blake3 g k p st (st\<lparr>steps := steps st - nodes k\<rparr>)"
  by (simp add: synths_def)

lemma ticked: "0 < steps st \<Longrightarrow> 0 < depth st \<Longrightarrow> tick st (st\<lparr>steps := steps st - 1, depth := depth st - 1\<rparr>)"
  by (simp add: tick_def)

lemma unticked: "0 < depth st \<Longrightarrow> untick (st\<lparr>steps := n, depth := depth st - 1\<rparr>) = st\<lparr>steps := n\<rparr>"
  by (simp add: untick_def leave_depth_def)

lemma respent:
  "(st\<lparr>steps := a, depth := b\<rparr>)\<lparr>steps := c\<rparr> = st\<lparr>steps := c, depth := b\<rparr>"
  "(st\<lparr>steps := a\<rparr>)\<lparr>steps := c\<rparr> = st\<lparr>steps := c\<rparr>"
  by simp_all

lemma synths_Hyp: "i < length g \<Longrightarrow> snd (g ! i) = p \<Longrightarrow> synths blake3 g (Hyp (Index i)) p"
  unfolding synths_def
proof (intro allI impI)
  fix st :: checker_state
  assume i: "i < length g" "snd (g ! i) = p" and s: "nodes (Hyp (Index i)) \<le> steps st" "levels (Hyp (Index i)) \<le> depth st"
  have "synth blake3 g (Hyp (Index i)) p st (untick (st\<lparr>steps := steps st - 1, depth := depth st - 1\<rparr>))"
    by (rule synth_Hyp[OF ticked]) (use s i in \<open>simp_all add: lookup_hyp_def\<close>)
  then show "synth blake3 g (Hyp (Index i)) p st (st\<lparr>steps := steps st - nodes (Hyp (Index i))\<rparr>)"
    using s by (simp add: unticked[simplified])
qed

lemma synths_Prim:
  assumes "infer_prim_realizes blake3 relation src dst = Inr p"
  shows "synths blake3 g (PrimRealizes relation src dst) p"
  unfolding synths_def
proof (intro allI impI)
  fix st :: checker_state
  assume s: "nodes (PrimRealizes relation src dst) \<le> steps st" "levels (PrimRealizes relation src dst) \<le> depth st"
  have "synth blake3 g (PrimRealizes relation src dst) p st (untick (st\<lparr>steps := steps st - 1, depth := depth st - 1\<rparr>))"
    by (rule synth_Prim[OF ticked assms]) (use s in simp_all)
  then show "synth blake3 g (PrimRealizes relation src dst) p st (st\<lparr>steps := steps st - nodes (PrimRealizes relation src dst)\<rparr>)"
    using s by (simp add: unticked[simplified])
qed

text \<open>The premises of a node with two realizations, after its tick.\<close>

lemma synths_sides:
  assumes "synths blake3 g l p" "synths blake3 g r q" "1 + nodes l + nodes r \<le> steps st" "Suc (max (levels l) (levels r)) \<le> depth st"
  defines "st1 \<equiv> st\<lparr>steps := steps st - 1, depth := depth st - 1\<rparr>"
  shows "tick st st1" and "synth blake3 g l p st1 (st1\<lparr>steps := steps st1 - nodes l\<rparr>)"
    and "synth blake3 g r q (st1\<lparr>steps := steps st1 - nodes l\<rparr>) (st1\<lparr>steps := steps st - (1 + nodes l + nodes r)\<rparr>)"
    and "untick (st1\<lparr>steps := steps st - (1 + nodes l + nodes r)\<rparr>) = st\<lparr>steps := steps st - (1 + nodes l + nodes r)\<rparr>"
proof -
  show "tick st st1" unfolding st1_def by (rule ticked) (use assms(3,4) in simp_all)
  show "synth blake3 g l p st1 (st1\<lparr>steps := steps st1 - nodes l\<rparr>)"
    by (rule synthsD[OF assms(1)]) (use assms(3,4) in \<open>simp_all add: st1_def\<close>)
  have "synth blake3 g r q (st1\<lparr>steps := steps st1 - nodes l\<rparr>)
      ((st1\<lparr>steps := steps st1 - nodes l\<rparr>)\<lparr>steps := steps (st1\<lparr>steps := steps st1 - nodes l\<rparr>) - nodes r\<rparr>)"
    by (rule synthsD[OF assms(2)]) (use assms(3,4) in \<open>simp_all add: st1_def\<close>)
  then show "synth blake3 g r q (st1\<lparr>steps := steps st1 - nodes l\<rparr>) (st1\<lparr>steps := steps st - (1 + nodes l + nodes r)\<rparr>)"
    by (simp add: st1_def)
  show "untick (st1\<lparr>steps := steps st - (1 + nodes l + nodes r)\<rparr>) = st\<lparr>steps := steps st - (1 + nodes l + nodes r)\<rparr>"
    using assms(4) by (simp add: st1_def unticked[simplified])
qed

lemma synths_Comp:
  assumes "synths blake3 g l (Realizes g1 x y)" "synths blake3 g r (Realizes g2 y z)"
  shows "synths blake3 g (RealizesComp l r) (Realizes (Compose g2 g1) x z)"
  unfolding synths_def
proof (intro allI impI)
  fix st :: checker_state
  assume "nodes (RealizesComp l r) \<le> steps st" "levels (RealizesComp l r) \<le> depth st"
  then have s: "1 + nodes l + nodes r \<le> steps st" "Suc (max (levels l) (levels r)) \<le> depth st" by simp_all
  show "synth blake3 g (RealizesComp l r) (Realizes (Compose g2 g1) x z) st (st\<lparr>steps := steps st - nodes (RealizesComp l r)\<rparr>)"
    using synth_Comp[OF synths_sides(1-3)[OF assms s]] synths_sides(4)[OF assms s] by simp
qed

lemma synths_Tensor:
  assumes "synths blake3 g l (Realizes w1 x1 y1)" "synths blake3 g r (Realizes w2 x2 y2)"
  shows "synths blake3 g (RealizesTensor l r) (Realizes (Tensor w1 w2) (Tensor x1 x2) (Tensor y1 y2))"
  unfolding synths_def
proof (intro allI impI)
  fix st :: checker_state
  assume "nodes (RealizesTensor l r) \<le> steps st" "levels (RealizesTensor l r) \<le> depth st"
  then have s: "1 + nodes l + nodes r \<le> steps st" "Suc (max (levels l) (levels r)) \<le> depth st" by simp_all
  show "synth blake3 g (RealizesTensor l r) (Realizes (Tensor w1 w2) (Tensor x1 x2) (Tensor y1 y2)) st
      (st\<lparr>steps := steps st - nodes (RealizesTensor l r)\<rparr>)"
    using synth_Tensor[OF synths_sides(1-3)[OF assms s]] synths_sides(4)[OF assms s] by simp
qed

section \<open>From synthesis to checking\<close>

text \<open>The heads of the bodies the elaborators build.\<close>

fun realization_head :: "term_kind \<Rightarrow> bool" where
  "realization_head (Hyp _) = True"
| "realization_head (PrimRealizes _ _ _) = True"
| "realization_head (RealizesComp _ _) = True"
| "realization_head (RealizesTensor _ _) = True"
| "realization_head _ = False"

inductive_cases synth_CompE: "synth blake3 g (RealizesComp l r) p st st'"
inductive_cases synth_TensorE: "synth blake3 g (RealizesTensor l r) p st st'"

lemma checks_synths:
  assumes "synths blake3 g k (Realizes w x z)" "realization_head k"
  shows "checks blake3 g k (Realizes w x z)"
  unfolding checks_def
proof (intro allI impI)
  fix st :: checker_state
  assume s: "nodes k < steps st" "levels k < depth st"
  have t: "tick st (st\<lparr>steps := steps st - 1, depth := depth st - 1\<rparr>)" by (rule ticked) (use s in simp_all)
  have d: "synth blake3 g k (Realizes w x z) st (st\<lparr>steps := steps st - nodes k\<rparr>)"
    by (rule synthsD[OF assms(1)]) (use s in simp_all)
  have syn: "\<exists>st'. synth blake3 g k (Realizes w x z) (st\<lparr>steps := steps st - 1, depth := depth st - 1\<rparr>) st'"
    by (rule exI, rule synthsD[OF assms(1)]) (use s in simp_all)
  show "\<exists>st'. chk blake3 g k (Realizes w x z) st st'"
  proof (cases k)
    case (RealizesComp l r)
    from d[unfolded RealizesComp] obtain st1 g1 y st2 g2 st3 where "w = Compose g2 g1" "tick st st1"
      "synth blake3 g l (Realizes g1 x y) st1 st2" "synth blake3 g r (Realizes g2 y z) st2 st3"
      by (rule synth_CompE) simp
    then show ?thesis unfolding RealizesComp using chk_Comp[of st st1 blake3 g l g1 x y st2 r g2 z st3 w] by auto
  next
    case (RealizesTensor l r)
    from d[unfolded RealizesTensor] obtain st1 w1 x1 y1 st2 w2 x2 y2 st3 where "w = Tensor w1 w2" "x = Tensor x1 x2" "z = Tensor y1 y2"
      "tick st st1" "synth blake3 g l (Realizes w1 x1 y1) st1 st2" "synth blake3 g r (Realizes w2 x2 y2) st2 st3"
      by (rule synth_TensorE) simp
    then show ?thesis unfolding RealizesTensor using chk_Tensor[of st st1 blake3 g l w1 x1 y1 st2 r w2 x2 y2 st3 w] by auto
  next
    case (Hyp v)
    then have "peel_lam k (Realizes w x z) = None" "check_arm k (Realizes w x z) = ArmSynthesis"
      by (simp_all add: peel_lam_def check_arm_def)
    then show ?thesis using syn chk_Syn[OF t] by blast
  next
    case (PrimRealizes relation src dst)
    then have "peel_lam k (Realizes w x z) = None" "check_arm k (Realizes w x z) = ArmSynthesis"
      by (simp_all add: peel_lam_def check_arm_def)
    then show ?thesis using syn chk_Syn[OF t] by blast
  qed (use assms(2) in simp_all)
qed

lemma checks_Lam:
  assumes "checks blake3 ((nm, p) # g) body q"
  shows "checks blake3 g (Lam nm body) (Impl p q)"
  unfolding checks_def
proof (intro allI impI)
  fix st :: checker_state
  assume s: "nodes (Lam nm body) < steps st" "levels (Lam nm body) < depth st"
  let ?st = "st\<lparr>steps := steps st - 1, depth := depth st - 1\<rparr>"
  have t: "tick st ?st" by (rule ticked) (use s in simp_all)
  have "nodes body < steps ?st" "levels body < depth ?st" using s by simp_all
  then obtain st' where "chk blake3 ((nm, p) # g) body q ?st st'" using assms unfolding checks_def by blast
  then show "\<exists>st'. chk blake3 g (Lam nm body) (Impl p q) st st'" using chk_Lam[OF t] by blast
qed

text \<open>Nested lambdas: the first antecedent is at the bottom of the context.\<close>

lemma checks_lams:
  "length nms = length ps \<Longrightarrow> checks blake3 (rev (zip nms ps) @ g) body q \<Longrightarrow>
   checks blake3 g (foldr Lam nms body) (foldr Impl ps q)"
proof (induction nms ps arbitrary: g rule: list_induct2)
  case (Cons nm nms p ps)
  then show ?case by (simp add: checks_Lam)
qed simp

lemma nodes_lams: "nodes (foldr Lam nms body) = length nms + nodes body"
  by (induction nms) simp_all

lemma levels_lams: "levels (foldr Lam nms body) = length nms + levels body"
  by (induction nms) simp_all

lemma hypothesis_index:
  assumes "length nms = length ps" "i < length ps"
  shows "snd (rev (zip nms ps) ! (length ps - 1 - i)) = ps ! i" "length ps - 1 - i < length (rev (zip nms ps))"
  using assms by (simp_all add: rev_nth)

lemma checks_accepted:
  assumes "checks blake3 [] (tkind t) p" "tcontext t = ctx" "nodes (tkind t) < max_steps b" "levels (tkind t) < max_depth b"
  shows "acceptance blake3 ctx p t b = Accepted \<lparr>cverifier = native_verifier blake3,
    ccertificate_id = certificate_id_v1 blake3 \<lparr>mcontext = ctx, mproposition = p, mterm = t\<rparr>\<rparr>"
proof -
  obtain st' where "chk blake3 [] (tkind t) p \<lparr>steps = max_steps b, depth = max_depth b\<rparr> st'"
    using assms(1,3,4) unfolding checks_def by fastforce
  then show ?thesis using assms(2) by (auto simp: acceptance_iff)
qed

lemma accepted_certificate:
  "acceptance blake3 ctx p t b = Accepted c \<Longrightarrow> c = \<lparr>cverifier = native_verifier blake3,
    ccertificate_id = certificate_id_v1 blake3 \<lparr>mcontext = ctx, mproposition = p, mterm = t\<rparr>\<rparr>"
  by (simp add: acceptance_iff)

end
