(* ===== verification/Elab_Decomposition.thy ===== *)
theory Elab_Decomposition
  imports Elab_Proof Settle_Journal Settle_Audit
begin

text \<open>
  The elaboration boundary of \<open>crates/brix-elaborate/src/lib.rs\<close> for settlement: from an audited
  decomposition to a kernel theorem \<open>H1 \<rightarrow> ... \<rightarrow> Hn \<rightarrow> Realizes(witness, source, target)\<close>. An index out of
  range, which panics, is the result \<open>None\<close>.
\<close>

section \<open>The boundary\<close>

datatype elaboration_result =
    ElabProven judgement dependency
  | NotElaborated verdict
  | ElabRefused publication_error

definition publish_accepted ::
  "(bytes \<Rightarrow> bytes) \<Rightarrow> judgement \<Rightarrow> kprop \<Rightarrow> certificate \<Rightarrow> elaboration_result" where
  "publish_accepted blake3 source p c =
     (case publish blake3 ProofKernel (jcontext source) (prop_proposition_id blake3 p) Proven
             (SupKernelCertificate (cverifier c) (ccertificate_id c)) of
        Inr j \<Rightarrow> ElabProven j \<lparr>dkind = ElaborationBoundary, dtarget = judgement_id blake3 source\<rparr>
      | Inl err \<Rightarrow> ElabRefused err)"

definition elaborate_and_publish ::
  "(bytes \<Rightarrow> bytes) \<Rightarrow> judgement \<Rightarrow> kprop \<Rightarrow> explicit_term \<Rightarrow> budget \<Rightarrow> elaboration_result" where
  "elaborate_and_publish blake3 source p t b =
     (case acceptance blake3 (jcontext source) p t b of
        Accepted c \<Rightarrow> publish_accepted blake3 source p c
      | verdict \<Rightarrow> NotElaborated verdict)"

section \<open>Decompositions\<close>

text \<open>The pieces of the proposition and of the proof term, loop by loop.\<close>

definition step_antecedents :: "generator_id list \<Rightarrow> config_id list \<Rightarrow> kprop list" where
  "step_antecedents gs cs = map (\<lambda>i. Realizes (Const (gs ! i)) (Const (cs ! i)) (Const (cs ! (i + 1)))) [0..<length gs]"

definition composite_witness :: "generator_id list \<Rightarrow> object_term" where
  "composite_witness gs = foldl (\<lambda>k g. Compose (Const g) k) (Const (hd gs)) (tl gs)"

definition implication :: "kprop list \<Rightarrow> kprop \<Rightarrow> kprop" where
  "implication hs goal = foldr Impl hs goal"

definition composition_body :: "nat \<Rightarrow> term_kind" where
  "composition_body n = foldl (\<lambda>body i. RealizesComp body (Hyp (Index (n - 1 - i)))) (Hyp (Index (n - 1))) [1..<n]"

definition binder_name :: "nat \<Rightarrow> string option" where
  "binder_name i = Some (''h'' @ nat_to_string (i + 1))"

definition bind_hypotheses :: "nat \<Rightarrow> term_kind \<Rightarrow> term_kind" where
  "bind_hypotheses n body = foldr (\<lambda>i kind. Lam (binder_name i) kind) [0..<n] body"

definition decomposition_proposition :: "decomposition \<Rightarrow> kprop" where
  "decomposition_proposition d =
     (let gs = generators d; cs = configs d in
      implication (step_antecedents gs cs) (Realizes (composite_witness gs) (Const (cs ! 0)) (Const (cs ! length gs))))"

definition decomposition_term :: "context_id \<Rightarrow> decomposition \<Rightarrow> explicit_term" where
  "decomposition_term ctx d =
     (let n = length (generators d) in \<lparr>tcontext = ctx, tkind = bind_hypotheses n (composition_body n)\<rparr>)"

definition elaborate_decomposition ::
  "(bytes \<Rightarrow> bytes) \<Rightarrow> judgement \<Rightarrow> decomposition \<Rightarrow> budget \<Rightarrow> elaboration_result option" where
  "elaborate_decomposition blake3 source d b =
     (case audited_source_verify blake3 source (SupSettlement d) of
        Inl err \<Rightarrow> Some (ElabRefused err)
      | Inr source \<Rightarrow>
          let n = length (generators d) in
          if n = 0 then Some (NotElaborated (Rejected (RejectionCustom ''Empty decomposition'')))
          else if length (configs d) \<le> n then None
          else Some (elaborate_and_publish blake3 source (decomposition_proposition d)
            (decomposition_term (jcontext source) d) b))"

section \<open>The term proves the proposition\<close>

lemma bind_hypotheses_foldr: "bind_hypotheses n body = foldr Lam (map binder_name [0..<n]) body"
  by (simp add: bind_hypotheses_def foldr_map o_def)

lemma length_antecedents [simp]: "length (step_antecedents gs cs) = length gs"
  by (simp add: step_antecedents_def)

lemma composition_body_snoc:
  "1 \<le> m \<Longrightarrow> foldl (\<lambda>body i. RealizesComp body (Hyp (Index (n - 1 - i)))) b [1..<m + 1] =
     RealizesComp (foldl (\<lambda>body i. RealizesComp body (Hyp (Index (n - 1 - i)))) b [1..<m]) (Hyp (Index (n - 1 - m)))"
  by simp

lemma composition_synths:
  fixes gs :: "generator_id list"
  defines "n \<equiv> length gs"
  assumes "1 \<le> m" "m \<le> n"
  shows "synths blake3 (rev (zip (map binder_name [0..<n]) (step_antecedents gs cs)))
     (foldl (\<lambda>body i. RealizesComp body (Hyp (Index (n - 1 - i)))) (Hyp (Index (n - 1))) [1..<m])
     (Realizes (composite_witness (take m gs)) (Const (cs ! 0)) (Const (cs ! m)))"
  using assms(2,3)
proof (induction m rule: nat_induct_at_least)
  case base
  note h = hypothesis_index[of "map binder_name [0..<n]" "step_antecedents gs cs" 0]
  have "composite_witness (take 1 gs) = Const (gs ! 0)" using base by (cases gs) (simp_all add: composite_witness_def n_def)
  moreover have "step_antecedents gs cs ! 0 = Realizes (Const (gs ! 0)) (Const (cs ! 0)) (Const (cs ! 1))"
    unfolding step_antecedents_def by (subst nth_map) (use base in \<open>simp_all add: n_def Suc_le_eq\<close>)
  ultimately have p: "step_antecedents gs cs ! 0 = Realizes (composite_witness (take 1 gs)) (Const (cs ! 0)) (Const (cs ! 1))" by simp
  have "synths blake3 (rev (zip (map binder_name [0..<n]) (step_antecedents gs cs))) (Hyp (Index (n - 1)))
      (Realizes (composite_witness (take 1 gs)) (Const (cs ! 0)) (Const (cs ! 1)))"
  proof (rule synths_Hyp)
    have gs: "gs \<noteq> []" using base by (auto simp: n_def)
    show "n - 1 < length (rev (zip (map binder_name [0..<n]) (step_antecedents gs cs)))" using gs by (simp add: n_def)
    show "snd (rev (zip (map binder_name [0..<n]) (step_antecedents gs cs)) ! (n - 1)) =
        Realizes (composite_witness (take 1 gs)) (Const (cs ! 0)) (Const (cs ! 1))"
      using h p gs by (simp add: n_def)
  qed
  then show ?case by simp
next
  case (Suc m)
  note h = hypothesis_index[of "map binder_name [0..<n]" "step_antecedents gs cs" m]
  have ant: "step_antecedents gs cs ! m = Realizes (Const (gs ! m)) (Const (cs ! m)) (Const (cs ! Suc m))"
    using Suc by (simp add: step_antecedents_def n_def)
  have "tl (take (Suc m) gs) = tl (take m gs) @ [gs ! m]" "hd (take (Suc m) gs) = hd (take m gs)"
    using Suc by (cases gs; cases m; simp add: n_def take_Suc_conv_app_nth)+
  then have w: "composite_witness (take (Suc m) gs) = Compose (Const (gs ! m)) (composite_witness (take m gs))"
    by (simp add: composite_witness_def)
  have "synths blake3 (rev (zip (map binder_name [0..<n]) (step_antecedents gs cs))) (Hyp (Index (n - 1 - m)))
      (Realizes (Const (gs ! m)) (Const (cs ! m)) (Const (cs ! Suc m)))"
    by (rule synths_Hyp) (use h ant Suc in \<open>simp_all add: n_def\<close>)
  from synths_Comp[OF Suc.IH this] show ?case using Suc composition_body_snoc[of m n] by (simp add: w)
qed

lemma composition_head: "realization_head (foldl (\<lambda>body i. RealizesComp body (Hyp (Index (n - 1 - i)))) (Hyp (Index j)) xs)"
  by (induction xs rule: rev_induct) simp_all

lemma decomposition_checks:
  assumes "generators d \<noteq> []"
  shows "checks blake3 [] (bind_hypotheses (length (generators d)) (composition_body (length (generators d))))
     (decomposition_proposition d)"
proof -
  let ?n = "length (generators d)"
  have "synths blake3 (rev (zip (map binder_name [0..<?n]) (step_antecedents (generators d) (configs d)))) (composition_body ?n)
      (Realizes (composite_witness (generators d)) (Const (configs d ! 0)) (Const (configs d ! ?n)))"
    using composition_synths[of ?n "generators d" blake3 "configs d"] assms
    by (simp add: composition_body_def Suc_le_eq)
  then have "checks blake3 (rev (zip (map binder_name [0..<?n]) (step_antecedents (generators d) (configs d))) @ []) (composition_body ?n)
      (Realizes (composite_witness (generators d)) (Const (configs d ! 0)) (Const (configs d ! ?n)))"
    using checks_synths composition_head unfolding composition_body_def by simp
  then show ?thesis unfolding decomposition_proposition_def implication_def bind_hypotheses_foldr Let_def
    by (intro checks_lams) simp_all
qed

lemma composition_size:
  assumes "1 \<le> n"
  shows "nodes (composition_body n) = 2 * n - 1" and "levels (composition_body n) = n"
proof -
  have "nodes (foldl (\<lambda>body i. RealizesComp body (Hyp (Index (n - 1 - i)))) (Hyp (Index (n - 1))) [1..<m]) = 2 * m - 1 \<and>
      levels (foldl (\<lambda>body i. RealizesComp body (Hyp (Index (n - 1 - i)))) (Hyp (Index (n - 1))) [1..<m]) = m"
    if "1 \<le> m" for m
    using that by (induction m rule: nat_induct_at_least) auto
  then show "nodes (composition_body n) = 2 * n - 1" "levels (composition_body n) = n"
    using assms by (simp_all add: composition_body_def)
qed

lemma decomposition_accepted:
  assumes "generators d \<noteq> []" and "3 * length (generators d) \<le> budget.max_steps b" and "2 * length (generators d) < budget.max_depth b"
    and t: "t = decomposition_term ctx d"
  shows "acceptance blake3 ctx (decomposition_proposition d) t b = Accepted \<lparr>cverifier = native_verifier blake3,
    ccertificate_id = certificate_id_v1 blake3 \<lparr>mcontext = ctx, mproposition = decomposition_proposition d, mterm = t\<rparr>\<rparr>"
proof (rule checks_accepted)
  have n: "1 \<le> length (generators d)" using assms(1) by (simp add: Suc_le_eq)
  note size = composition_size[OF n]
  show "checks blake3 [] (tkind t) (decomposition_proposition d)" using decomposition_checks[OF assms(1)] t by (simp add: decomposition_term_def Let_def)
  show "nodes (tkind t) < budget.max_steps b"
    using n size assms(2) t nodes_lams[of "map binder_name [0..<length (generators d)]"] by (simp add: bind_hypotheses_foldr decomposition_term_def Let_def)
  show "levels (tkind t) < budget.max_depth b"
    using n size assms(3) t levels_lams[of "map binder_name [0..<length (generators d)]"] by (simp add: bind_hypotheses_foldr decomposition_term_def Let_def)
qed (simp add: t decomposition_term_def Let_def)

text \<open>The composite witness is the witness of the settlement step.\<close>

lemma composite_witness_digest:
  "gs \<noteq> [] \<Longrightarrow> compose_chain blake3 gs = Some (witness_digest blake3 (composite_witness gs))"
proof (cases gs)
  case (Cons g rest)
  have "witness_digest blake3 (foldl (\<lambda>k g. Compose (Const g) k) t rest) = foldl (\<lambda>acc g. compose blake3 g acc) (witness_digest blake3 t) rest" for t
    by (induction rest arbitrary: t) simp_all
  then show ?thesis using Cons by (simp add: composite_witness_def)
qed simp

section \<open>Publication\<close>

text \<open>The theorem a proof is published as.\<close>

definition proven_judgement :: "(bytes \<Rightarrow> bytes) \<Rightarrow> context_id \<Rightarrow> kprop \<Rightarrow> explicit_term \<Rightarrow> judgement" where
  "proven_judgement blake3 ctx p t =
     \<lparr>jcontext = ctx, jproposition = prop_proposition_id blake3 p, joutcome = Proven,
      jevidence = support_evidence_id blake3 (SupKernelCertificate (native_verifier blake3)
        (certificate_id_v1 blake3 \<lparr>mcontext = ctx, mproposition = p, mterm = t\<rparr>))\<rparr>"

definition boundary_edge :: "(bytes \<Rightarrow> bytes) \<Rightarrow> judgement \<Rightarrow> dependency" where
  "boundary_edge blake3 source = \<lparr>dkind = ElaborationBoundary, dtarget = judgement_id blake3 source\<rparr>"

lemma publish_accepted_eq:
  "publish_accepted blake3 source p \<lparr>cverifier = native_verifier blake3,
      ccertificate_id = certificate_id_v1 blake3 \<lparr>mcontext = jcontext source, mproposition = p, mterm = t\<rparr>\<rparr> =
     ElabProven (proven_judgement blake3 (jcontext source) p t) (boundary_edge blake3 source)"
proof -
  let ?j = "proven_judgement blake3 (jcontext source) p t"
  have "publish blake3 ProofKernel (jcontext source) (prop_proposition_id blake3 p) Proven
      (SupKernelCertificate (native_verifier blake3) (certificate_id_v1 blake3 \<lparr>mcontext = jcontext source, mproposition = p, mterm = t\<rparr>)) = Inr ?j"
    by (simp add: publish_iff proven_judgement_def)
  then show ?thesis by (simp add: publish_accepted_def boundary_edge_def)
qed

lemma elaborate_and_publish_iff:
  "elaborate_and_publish blake3 source p t b = ElabProven j e \<longleftrightarrow>
     (\<exists>c. acceptance blake3 (jcontext source) p t b = Accepted c) \<and>
     j = proven_judgement blake3 (jcontext source) p t \<and> e = boundary_edge blake3 source"
proof (cases "acceptance blake3 (jcontext source) p t b")
  case (Accepted c)
  from accepted_certificate[OF this] have "c = \<lparr>cverifier = native_verifier blake3,
      ccertificate_id = certificate_id_v1 blake3 \<lparr>mcontext = jcontext source, mproposition = p, mterm = t\<rparr>\<rparr>" .
  then show ?thesis using Accepted publish_accepted_eq[of blake3 source p t] by (auto simp: elaborate_and_publish_def)
qed (simp_all add: elaborate_and_publish_def)

lemma elaborate_decomposition_iff:
  assumes "length (configs d) = length (generators d) + 1"
  shows "elaborate_decomposition blake3 source d b = Some (ElabProven j e) \<longleftrightarrow>
    joutcome source = Audited \<and> verification d = ReplayVerified \<and> jevidence source = support_evidence_id blake3 (SupSettlement d) \<and>
    generators d \<noteq> [] \<and> (\<exists>c. acceptance blake3 (jcontext source) (decomposition_proposition d) (decomposition_term (jcontext source) d) b = Accepted c) \<and>
    j = proven_judgement blake3 (jcontext source) (decomposition_proposition d) (decomposition_term (jcontext source) d) \<and> e = boundary_edge blake3 source"
proof (cases "audited_source_verify blake3 source (SupSettlement d)")
  case (Inl err)
  then have "\<not> (joutcome source = Audited \<and> verification d = ReplayVerified \<and> jevidence source = support_evidence_id blake3 (SupSettlement d))"
    using audited_source_iff[of blake3 source "SupSettlement d" source] by auto
  then show ?thesis using Inl by (auto simp: elaborate_decomposition_def)
next
  case (Inr s)
  then have s: "s = source" "joutcome source = Audited" "verification d = ReplayVerified"
    "jevidence source = support_evidence_id blake3 (SupSettlement d)"
    using audited_source_iff[of blake3 source "SupSettlement d" s] by auto
  show ?thesis
  proof (cases "generators d = []")
    case True
    then show ?thesis using Inr by (simp add: elaborate_decomposition_def)
  next
    case False
    then show ?thesis using Inr assms(1) s
      by (simp add: elaborate_decomposition_def elaborate_and_publish_iff[symmetric])
  qed
qed

section \<open>Properties\<close>

text \<open>
  C14. Only a kernel proof crosses the boundary: elaborating a decomposition publishes exactly when the source
  is the audited judgement of that replayed decomposition, which is not empty, and the term has a derivation of
  the implication within the budget; the theorem published is the implication, in the source's context, with the
  certificate of that derivation, linked to the source by an elaboration edge.
\<close>

theorem elaboration_exact:
  assumes "length (configs d) = length (generators d) + 1"
  shows "elaborate_decomposition blake3 source d b = Some (ElabProven j e) \<longleftrightarrow>
    joutcome source = Audited \<and> verification d = ReplayVerified \<and> jevidence source = support_evidence_id blake3 (SupSettlement d) \<and>
    generators d \<noteq> [] \<and>
    (\<exists>st'. chk blake3 [] (tkind (decomposition_term (jcontext source) d)) (decomposition_proposition d)
       \<lparr>steps = budget.max_steps b, depth = budget.max_depth b\<rparr> st') \<and>
    j = proven_judgement blake3 (jcontext source) (decomposition_proposition d) (decomposition_term (jcontext source) d) \<and>
    e = boundary_edge blake3 source"
  unfolding elaborate_decomposition_iff[OF assms] acceptance_iff
  by (auto simp: decomposition_term_def Let_def)

text \<open>
  C4. From a settlement run to theorems: every step of a run whose decomposition replays is audited, and its
  audit elaborates, with three steps and a little more than two units of depth for each generator, to a published
  kernel theorem: under the realizations of its links, the composite of its generators realizes the
  transition from the step's source to its destination, and the digest of that composite is the
  witness the step was committed with.
\<close>

theorem run_elaborates:
  assumes "run_reason blake3 ps adm it e0 ctx (pure_keyer kf) () max_ticks = Some (j, costs, stop)" and st: "st \<in> set (jsteps j)"
    and "length (configs (sdecomposition st)) = length (generators (sdecomposition st)) + 1" and "replays registry sem st"
    and "3 * length (generators (sdecomposition st)) \<le> budget.max_steps b" and "2 * length (generators (sdecomposition st)) < budget.max_depth b"
  shows "\<exists>au w t. audit_step blake3 st ctx registry sem = AuditedResult au \<and>
    elaborate_decomposition blake3 (audited au) (verified au) b =
      Some (ElabProven (proven_judgement blake3 ctx
          (implication (step_antecedents (generators (sdecomposition st)) (configs (sdecomposition st)))
            (Realizes w (Const (ssrc st)) (Const (sdst st)))) t)
        (boundary_edge blake3 (audited au))) \<and>
    witness_digest blake3 w = switness st"
proof -
  let ?d = "sdecomposition st" and ?au = "audited_outcome blake3 st ctx registry sem"
  have der: "derived_step blake3 ctx st" using run_derived[OF assms(1)] st by (simp add: list_all_iff)
  then have chain: "compose_chain blake3 (generators ?d) = Some (switness st)" by (simp add: derived_step_def)
  then have gs: "generators ?d \<noteq> []" by auto
  then have w: "witness_digest blake3 (composite_witness (generators ?d)) = switness st"
    using chain composite_witness_digest[of "generators ?d" blake3] by simp
  have audit: "audit_step blake3 st ctx registry sem = AuditedResult ?au"
    using audit_step_iff[OF assms(3)] assms(4) derived_step_integrity[OF der] by blast
  have ends: "configs ?d ! 0 = ssrc st" "configs ?d ! length (generators ?d) = sdst st"
  proof -
    have cs: "configs ?d \<noteq> []" using assms(3) by auto
    then have "hd (configs ?d) = ssrc st" "last (configs ?d) = sdst st"
      using assms(4) by (auto simp: replays_def slice_first_def slice_last_def hd_rev[symmetric] split: list.splits)
    then show "configs ?d ! 0 = ssrc st" "configs ?d ! length (generators ?d) = sdst st"
      using cs assms(3) by (simp_all add: hd_conv_nth last_conv_nth)
  qed
  let ?v = "?d\<lparr>verification := ReplayVerified\<rparr>"
  have au: "verified ?au = ?v" "jcontext (audited ?au) = ctx" "joutcome (audited ?au) = Audited"
    "jevidence (audited ?au) = support_evidence_id blake3 (SupSettlement ?v)"
    by (simp_all add: audited_outcome_def Let_def)
  have p: "decomposition_proposition ?v = implication (step_antecedents (generators ?d) (configs ?d))
      (Realizes (composite_witness (generators ?d)) (Const (ssrc st)) (Const (sdst st)))"
    by (simp add: decomposition_proposition_def Let_def ends)
  have "\<exists>c. acceptance blake3 ctx (decomposition_proposition ?v) (decomposition_term ctx ?v) b = Accepted c"
    using decomposition_accepted[of ?v b "decomposition_term ctx ?v" ctx blake3] gs assms(5,6) by simp
  then have "elaborate_decomposition blake3 (audited ?au) ?v b =
      Some (ElabProven (proven_judgement blake3 ctx (decomposition_proposition ?v) (decomposition_term ctx ?v)) (boundary_edge blake3 (audited ?au)))"
    using elaborate_decomposition_iff[of ?v blake3 "audited ?au" b] assms(3) gs au by auto
  then show ?thesis
    by (intro exI[of _ ?au] exI[of _ "composite_witness (generators ?d)"] exI[of _ "decomposition_term ctx ?v"])
      (simp add: audit w au(1) p)
qed

theorem elaboration_exact_witness:
  "\<exists>j e. elaborate_decomposition id
     \<lparr>jcontext = [], jproposition = [], joutcome = Audited, jevidence = support_evidence_id id (SupSettlement
        \<lparr>generators = [[1]], configs = [[5], [7]], verification = ReplayVerified\<rparr>)\<rparr>
     \<lparr>generators = [[1]], configs = [[5], [7]], verification = ReplayVerified\<rparr> \<lparr>budget.max_steps = 3, budget.max_depth = 3\<rparr>
     = Some (ElabProven j e)"
proof -
  let ?d = "\<lparr>generators = [[1]], configs = [[5], [7]], verification = ReplayVerified\<rparr>"
  let ?b = "\<lparr>budget.max_steps = 3, budget.max_depth = 3\<rparr>"
  have "\<exists>st'. chk id [] (tkind (decomposition_term [] ?d)) (decomposition_proposition ?d)
      \<lparr>steps = budget.max_steps ?b, depth = budget.max_depth ?b\<rparr> st'"
    using decomposition_accepted[of ?d ?b "decomposition_term [] ?d" "[]" id] unfolding acceptance_iff by simp
  then show ?thesis by (simp add: elaboration_exact)
qed

theorem run_elaborates_witness:
  "\<exists>j au p t e. run_reason id [demo_provider] AdmAll demo_interner demo_config [] (pure_keyer demo_key) () 3 =
     Some (j, [Steps 3], ImmediateFrontierEmpty) \<and>
     audit_journal id j [] [[1]] [([1], ExactRows [([5], [7])])] = [AuditedResult au] \<and>
     elaborate_decomposition id (audited au) (verified au) \<lparr>budget.max_steps = 3, budget.max_depth = 3\<rparr> =
       Some (ElabProven (proven_judgement id []
         (Impl (Realizes (Const [1]) (Const [5]) (Const [7])) (Realizes p (Const [5]) (Const [7]))) t) e)"
proof -
  obtain j st where j: "run_reason id [demo_provider] AdmAll demo_interner demo_config [] (pure_keyer demo_key) () 3 =
       Some (j, [Steps 3], ImmediateFrontierEmpty)" "jsteps j = [st]"
    and st: "ssrc st = [5]" "sdst st = [7]" "sdecomposition st = \<lparr>generators = [[1]], configs = [[5], [7]], verification = Recorded\<rparr>"
    using demo_run[of id] by blast
  have r: "replays [[1]] [([1], ExactRows [([5], [7])])] st"
    by (simp add: replays_def st slice_first_def slice_last_def declared_def)
  have a: "step_antecedents [[1]] [[5], [7]] = [Realizes (Const [1]) (Const [5]) (Const [7])]"
    by (simp add: step_antecedents_def)
  show ?thesis
    using run_elaborates[OF j(1), of st "[[1]]" "[([1], ExactRows [([5], [7])])]" "\<lparr>budget.max_steps = 3, budget.max_depth = 3\<rparr>"] j r
    by (auto simp: audit_journal_def st a implication_def)
qed

end
