(* ===== verification/Elab_Tree.thy ===== *)
theory Elab_Tree
  imports Elab_Decomposition
begin

text \<open>
  The elaboration of derivation trees: \<open>elaborate_tree_certified\<close> of \<open>crates/brix-elaborate/src/lib.rs\<close> and the
  accepted proofs of \<open>tree_proof.rs\<close> with their account of the leaf occurrences a primitive instance closed.
  The outer \<open>option\<close> is the panic of the registry's build-time assertion, which every access repeats.
\<close>

section \<open>Kernel projections\<close>

fun tree_obj_to_object_term :: "tree_obj \<Rightarrow> object_term" where
  "tree_obj_to_object_term (TreeAtom c) = Const c"
| "tree_obj_to_object_term (TreeProd a b) = Tensor (tree_obj_to_object_term a) (tree_obj_to_object_term b)"

fun witness_object :: "realizes_tree \<Rightarrow> object_term" where
  "witness_object (TreeLeaf g _ _) = Const g"
| "witness_object (TreeSeq left right) = Compose (witness_object right) (witness_object left)"
| "witness_object (TreeTensor left right) = Tensor (witness_object left) (witness_object right)"

section \<open>Leaf occurrences\<close>

datatype leaf_status = Closed digest | Open

record leaf_occurrence =
  oindex :: nat
  ogenerator :: generator_id
  osrc :: tree_obj
  odst :: tree_obj
  ostatus :: leaf_status

definition occurrence_is_closed :: "leaf_occurrence \<Rightarrow> bool" where
  "occurrence_is_closed oc = (case ostatus oc of Closed _ \<Rightarrow> True | Open \<Rightarrow> False)"

datatype tree_proof_error =
    DerivationNotVerified
  | ShapeMismatch
  | PrimitiveNotAdmitted nat
  | NonCanonicalTerm
  | NotAccepted verdict

record accepted_tree_proof =
  apcontext :: context_id
  approposition :: kprop
  apterm :: explicit_term
  apcertificate :: certificate
  apderivation :: digest
  apoccurrences :: "leaf_occurrence list"

definition closed_occurrences :: "accepted_tree_proof \<Rightarrow> leaf_occurrence list" where
  "closed_occurrences pf = filter occurrence_is_closed (apoccurrences pf)"

definition remaining_occurrences :: "accepted_tree_proof \<Rightarrow> leaf_occurrence list" where
  "remaining_occurrences pf = filter (\<lambda>oc. \<not> occurrence_is_closed oc) (apoccurrences pf)"

definition binds :: "(bytes \<Rightarrow> bytes) \<Rightarrow> accepted_tree_proof \<Rightarrow> tree_derivation \<Rightarrow> bool" where
  "binds blake3 pf d =
     (if apderivation pf \<noteq> tree_derivation_id blake3 d then False
      else let leaves = tree_leaves (dtree d) in
        length leaves = length (apoccurrences pf) \<and>
        list_all (\<lambda>(leaf, oc). leaf = TreeLeaf (ogenerator oc) (osrc oc) (odst oc)) (zip leaves (apoccurrences pf)))"

section \<open>Classification\<close>

definition typing_arith_v2 :: "(bytes \<Rightarrow> bytes) \<Rightarrow> digest option" where
  "typing_arith_v2 blake3 = map_option (relation_id blake3) (build_arith_relation blake3)"

definition closing_candidates :: "(bytes \<Rightarrow> bytes) \<Rightarrow> digest list option" where
  "closing_candidates blake3 = map_option (\<lambda>r. [r]) (typing_arith_v2 blake3)"

definition relation_closes :: "(bytes \<Rightarrow> bytes) \<Rightarrow> digest \<Rightarrow> generator_id \<Rightarrow> tree_obj \<Rightarrow> tree_obj \<Rightarrow> bool option" where
  "relation_closes blake3 relation g src dst =
     (case resolve blake3 relation of
        None \<Rightarrow> None
      | Some None \<Rightarrow> Some False
      | Some (Some resolved) \<Rightarrow>
          if judgment_kind resolved \<noteq> Typing \<or> generator resolved \<noteq> g then Some False
          else (case (src, dst) of
            (TreeAtom s, TreeAtom d) \<Rightarrow> Some (admits resolved s d)
          | _ \<Rightarrow> Some False))"

fun find_closing :: "(bytes \<Rightarrow> bytes) \<Rightarrow> digest list \<Rightarrow> generator_id \<Rightarrow> tree_obj \<Rightarrow> tree_obj \<Rightarrow> digest option option" where
  "find_closing blake3 [] g src dst = Some None"
| "find_closing blake3 (r # rs) g src dst =
     (case relation_closes blake3 r g src dst of
        None \<Rightarrow> None
      | Some True \<Rightarrow> Some (Some r)
      | Some False \<Rightarrow> find_closing blake3 rs g src dst)"

definition classify_leaf :: "(bytes \<Rightarrow> bytes) \<Rightarrow> generator_id \<Rightarrow> tree_obj \<Rightarrow> tree_obj \<Rightarrow> digest option option" where
  "classify_leaf blake3 g src dst =
     (case closing_candidates blake3 of None \<Rightarrow> None | Some rs \<Rightarrow> find_closing blake3 rs g src dst)"

type_synonym closures = "digest option list"
type_synonym leaf_triple = "generator_id \<times> tree_obj \<times> tree_obj"

fun leaf_triple :: "realizes_tree \<Rightarrow> leaf_triple option" where
  "leaf_triple (TreeLeaf g src dst) = Some (g, src, dst)"
| "leaf_triple _ = None"

definition leaf_triples :: "realizes_tree \<Rightarrow> leaf_triple list option" where
  "leaf_triples t =
     (if \<not> well_formed t then None
      else let leaves = tree_leaves t in
        if leaves = [] then None else those (map leaf_triple leaves))"

definition classify :: "(bytes \<Rightarrow> bytes) \<Rightarrow> leaf_triple list \<Rightarrow> closures option" where
  "classify blake3 leaves = those (map (\<lambda>(g, src, dst). classify_leaf blake3 g src dst) leaves)"

section \<open>Building the proof\<close>

text \<open>
  The walk keeps the cursor \<open>next\<close> over the leaf occurrences and the number \<open>open_hyps\<close> of hypotheses
  used so far.
\<close>

fun emit_term :: "closures \<Rightarrow> leaf_triple list \<Rightarrow> nat \<Rightarrow> realizes_tree \<Rightarrow> nat \<times> nat \<Rightarrow> term_kind \<times> nat \<times> nat" where
  "emit_term closures leaves binders (TreeLeaf _ _ _) (i, open_hyps) =
     (case closures ! i of
        Some relation \<Rightarrow>
          (case leaves ! i of (_, src, dst) \<Rightarrow>
             (PrimRealizes relation (tree_obj_to_object_term src) (tree_obj_to_object_term dst), i + 1, open_hyps))
      | None \<Rightarrow> (Hyp (Index (binders - 1 - open_hyps)), i + 1, open_hyps + 1))"
| "emit_term closures leaves binders (TreeSeq left right) s =
     (case emit_term closures leaves binders left s of (l, s) \<Rightarrow>
      case emit_term closures leaves binders right s of (r, s) \<Rightarrow> (RealizesComp l r, s))"
| "emit_term closures leaves binders (TreeTensor left right) s =
     (case emit_term closures leaves binders left s of (l, s) \<Rightarrow>
      case emit_term closures leaves binders right s of (r, s) \<Rightarrow> (RealizesTensor l r, s))"

definition leaf_prop :: "leaf_triple \<Rightarrow> kprop" where
  "leaf_prop l = (case l of (g, src, dst) \<Rightarrow> Realizes (Const g) (tree_obj_to_object_term src) (tree_obj_to_object_term dst))"

definition open_props :: "leaf_triple list \<Rightarrow> closures \<Rightarrow> kprop list" where
  "open_props leaves closures = map (\<lambda>(l, _). leaf_prop l) (filter (\<lambda>(_, c). c = None) (zip leaves closures))"

definition tree_conclusion :: "realizes_tree \<Rightarrow> kprop" where
  "tree_conclusion t = Realizes (witness_object t) (tree_obj_to_object_term (tree_src t)) (tree_obj_to_object_term (tree_dst t))"

definition build_proof :: "realizes_tree \<Rightarrow> leaf_triple list \<Rightarrow> closures \<Rightarrow> context_id \<Rightarrow> kprop \<times> explicit_term" where
  "build_proof t leaves closures ctx =
     (let hs = open_props leaves closures; binders = length hs
      in (implication hs (tree_conclusion t),
          \<lparr>tcontext = ctx, tkind = bind_hypotheses binders (fst (emit_term closures leaves binders t (0, 0)))\<rparr>))"

record tree_candidate =
  tcproposition :: kprop
  tcterm :: explicit_term
  tcclosures :: closures

definition candidate_of :: "(bytes \<Rightarrow> bytes) \<Rightarrow> realizes_tree \<Rightarrow> context_id \<Rightarrow> tree_candidate option option" where
  "candidate_of blake3 t ctx =
     (case leaf_triples t of
        None \<Rightarrow> Some None
      | Some leaves \<Rightarrow>
          (case classify blake3 leaves of
             None \<Rightarrow> None
           | Some closures \<Rightarrow>
               (case build_proof t leaves closures ctx of (p, tm) \<Rightarrow>
                  Some (Some \<lparr>tcproposition = p, tcterm = tm, tcclosures = closures\<rparr>))))"

definition occurrence :: "nat \<Rightarrow> realizes_tree \<Rightarrow> digest option \<Rightarrow> leaf_occurrence option" where
  "occurrence i leaf closure =
     (case leaf of
        TreeLeaf g src dst \<Rightarrow>
          Some \<lparr>oindex = i, ogenerator = g, osrc = src, odst = dst,
            ostatus = (case closure of Some relation \<Rightarrow> Closed relation | None \<Rightarrow> Open)\<rparr>
      | _ \<Rightarrow> None)"

definition tree_occurrences :: "realizes_tree \<Rightarrow> closures \<Rightarrow> leaf_occurrence list" where
  "tree_occurrences t closures =
     List.map_filter (\<lambda>(i, leaf, closure). occurrence i leaf closure)
       (zip [0..<length (zip (tree_leaves t) closures)] (zip (tree_leaves t) closures))"

definition accepted_proof ::
  "(bytes \<Rightarrow> bytes) \<Rightarrow> tree_derivation \<Rightarrow> context_id \<Rightarrow> tree_candidate \<Rightarrow> certificate \<Rightarrow> accepted_tree_proof" where
  "accepted_proof blake3 d ctx cnd cert =
     \<lparr>apcontext = ctx, approposition = tcproposition cnd, apterm = tcterm cnd, apcertificate = cert,
      apderivation = tree_derivation_id blake3 d, apoccurrences = tree_occurrences (dtree d) (tcclosures cnd)\<rparr>"

section \<open>Elaboration\<close>

datatype tree_elaboration =
    TreeProven judgement dependency accepted_tree_proof
  | TreeNotElaborated verdict
  | TreeRefused publication_error

fun into_result :: "tree_elaboration \<Rightarrow> elaboration_result" where
  "into_result (TreeProven j e _) = ElabProven j e"
| "into_result (TreeNotElaborated v) = NotElaborated v"
| "into_result (TreeRefused err) = ElabRefused err"

definition elaborate_tree_certified ::
  "(bytes \<Rightarrow> bytes) \<Rightarrow> judgement \<Rightarrow> tree_derivation \<Rightarrow> budget \<Rightarrow> tree_elaboration option" where
  "elaborate_tree_certified blake3 source d b =
     (case audited_source_verify blake3 source (SupTree d) of
        Inl err \<Rightarrow> Some (TreeRefused err)
      | Inr source \<Rightarrow>
          if \<not> well_formed (dtree d) then Some (TreeNotElaborated (Rejected (RejectionCustom ''malformed Seq middle'')))
          else if tree_leaves (dtree d) = [] then Some (TreeNotElaborated (Rejected (RejectionCustom ''empty leaves'')))
          else (case candidate_of blake3 (dtree d) (jcontext source) of
            None \<Rightarrow> None
          | Some None \<Rightarrow> Some (TreeNotElaborated (Rejected (RejectionCustom ''non-leaf in leaves enumeration'')))
          | Some (Some cnd) \<Rightarrow>
              (case acceptance blake3 (jcontext source) (tcproposition cnd) (tcterm cnd) b of
                 Accepted cert \<Rightarrow>
                   (case publish_accepted blake3 source (tcproposition cnd) cert of
                      ElabProven j e \<Rightarrow> Some (TreeProven j e (accepted_proof blake3 d (jcontext source) cnd cert))
                    | ElabRefused err \<Rightarrow> Some (TreeRefused err)
                    | NotElaborated v \<Rightarrow> Some (TreeNotElaborated v))
               | v \<Rightarrow> Some (TreeNotElaborated v))))"

definition elaborate_tree ::
  "(bytes \<Rightarrow> bytes) \<Rightarrow> judgement \<Rightarrow> tree_derivation \<Rightarrow> budget \<Rightarrow> elaboration_result option" where
  "elaborate_tree blake3 source d b = map_option into_result (elaborate_tree_certified blake3 source d b)"

section \<open>Verification of an untrusted term\<close>

fun read_closures :: "realizes_tree \<Rightarrow> term_kind \<Rightarrow> closures \<Rightarrow> tree_proof_error + closures" where
  "read_closures (TreeLeaf _ _ _) (Hyp _) out = Inr (out @ [None])"
| "read_closures (TreeLeaf _ _ _) (PrimRealizes relation _ _) out = Inr (out @ [Some relation])"
| "read_closures (TreeSeq left right) (RealizesComp kl kr) out =
     and_then (read_closures left kl out) (\<lambda>out. read_closures right kr out)"
| "read_closures (TreeTensor left right) (RealizesTensor kl kr) out =
     and_then (read_closures left kl out) (\<lambda>out. read_closures right kr out)"
| "read_closures _ _ out = Inl ShapeMismatch"

fun strip_lams :: "term_kind \<Rightarrow> term_kind" where
  "strip_lams (Lam _ body) = strip_lams body"
| "strip_lams k = k"

fun check_closures :: "(bytes \<Rightarrow> bytes) \<Rightarrow> nat \<Rightarrow> (digest option \<times> leaf_triple) list \<Rightarrow> (tree_proof_error + unit) option" where
  "check_closures blake3 i [] = Some (Inr ())"
| "check_closures blake3 i ((closure, g, src, dst) # rest) =
     (case closure of
        None \<Rightarrow> check_closures blake3 (i + 1) rest
      | Some relation \<Rightarrow>
          (case relation_closes blake3 relation g src dst of
             None \<Rightarrow> None
           | Some False \<Rightarrow> Some (Inl (PrimitiveNotAdmitted i))
           | Some True \<Rightarrow> check_closures blake3 (i + 1) rest))"

definition verify_tree_proof ::
  "(bytes \<Rightarrow> bytes) \<Rightarrow> tree_derivation \<Rightarrow> context_id \<Rightarrow> explicit_term \<Rightarrow> budget \<Rightarrow> (tree_proof_error + accepted_tree_proof) option" where
  "verify_tree_proof blake3 d ctx tm b =
     (if tverification d \<noteq> StructureVerified then Some (Inl DerivationNotVerified)
      else case leaf_triples (dtree d) of
        None \<Rightarrow> Some (Inl DerivationNotVerified)
      | Some leaves \<Rightarrow>
          (case read_closures (dtree d) (strip_lams (tkind tm)) [] of
             Inl err \<Rightarrow> Some (Inl err)
           | Inr closures \<Rightarrow>
               if length closures \<noteq> length leaves then Some (Inl ShapeMismatch)
               else (case check_closures blake3 0 (zip closures leaves) of
                 None \<Rightarrow> None
               | Some (Inl err) \<Rightarrow> Some (Inl err)
               | Some (Inr _) \<Rightarrow>
                   (case build_proof (dtree d) leaves closures ctx of (p, expected) \<Rightarrow>
                      if tkind expected \<noteq> tkind tm then Some (Inl NonCanonicalTerm)
                      else (case acceptance blake3 ctx p tm b of
                        Accepted cert \<Rightarrow>
                          Some (Inr (accepted_proof blake3 d ctx \<lparr>tcproposition = p, tcterm = expected, tcclosures = closures\<rparr> cert))
                      | v \<Rightarrow> Some (Inl (NotAccepted v)))))))"

definition recheck ::
  "(bytes \<Rightarrow> bytes) \<Rightarrow> accepted_tree_proof \<Rightarrow> tree_derivation \<Rightarrow> context_id \<Rightarrow> budget \<Rightarrow> (tree_proof_error + unit) option" where
  "recheck blake3 pf d ctx b =
     (case verify_tree_proof blake3 d ctx (apterm pf) b of
        None \<Rightarrow> None
      | Some (Inl err) \<Rightarrow> Some (Inl err)
      | Some (Inr again) \<Rightarrow> Some (if again = pf then Inr () else Inl NonCanonicalTerm))"

end
