(* ===== verification/Elab_Tree_Proof.thy ===== *)
theory Elab_Tree_Proof
  imports Elab_Tree
begin

text \<open>
  What tree elaboration promises: the emitted term proves the implication from the open leaves, the closed
  ones are the arithmetic instances the kernel admits, verification accepts the canonical terms only,
  and it accepts again what elaboration produced.
\<close>

section \<open>Leaves\<close>

fun triples :: "realizes_tree \<Rightarrow> leaf_triple list" where
  "triples (TreeLeaf g src dst) = [(g, src, dst)]"
| "triples (TreeSeq left right) = triples left @ triples right"
| "triples (TreeTensor left right) = triples left @ triples right"

lemma triples_nonempty [simp]: "triples t \<noteq> []"
  by (induction t) simp_all

lemma those_map_Some: "those (map (\<lambda>x. Some (f x)) xs) = Some (map f xs)"
  by (induction xs) simp_all

lemma tree_leaves_triples: "tree_leaves t = map (\<lambda>(g, src, dst). TreeLeaf g src dst) (triples t)"
  by (induction t) (simp_all add: tree_leaves_simps)

lemma leaf_triples_eq: "leaf_triples t = (if well_formed t then Some (triples t) else None)"
proof -
  have "those (map leaf_triple (tree_leaves t)) = Some (triples t)"
    using those_map_Some[of id "triples t"] unfolding tree_leaves_triples map_map
    by (simp add: o_def case_prod_unfold)
  then show ?thesis by (simp add: leaf_triples_def Let_def tree_leaves_triples)
qed

section \<open>Admitted instances\<close>

definition arith_generator :: "(bytes \<Rightarrow> bytes) \<Rightarrow> generator_id" where
  "arith_generator blake3 = id_named blake3 ''type.rule.arith@1''"

text \<open>The leaves the arithmetic relation of the registry admits.\<close>

definition admitted_leaf :: "(bytes \<Rightarrow> bytes) \<Rightarrow> leaf_triple \<Rightarrow> bool" where
  "admitted_leaf blake3 l \<longleftrightarrow> (case l of (g, src, dst) \<Rightarrow> g = arith_generator blake3 \<and>
     (\<exists>s d. src = TreeAtom s \<and> dst = TreeAtom d \<and> (s, d) \<in> set (arith_rows blake3)))"

lemma arith_relation:
  "build_arith_relation blake3 = Some r \<Longrightarrow> judgment_kind r = Typing \<and> generator r = arith_generator blake3 \<and> rows r = arith_rows blake3"
  by (auto simp: build_arith_relation_def arith_generator_def Let_def split: if_splits)

lemma relation_closes_eq:
  assumes "build_arith_relation blake3 = Some r"
  shows "relation_closes blake3 i g src dst = Some (i = relation_id blake3 r \<and> admitted_leaf blake3 (g, src, dst))"
  using arith_relation[OF assms]
  by (auto simp: relation_closes_def resolve_def assms admitted_leaf_def admits_def split: tree_obj.splits)

lemma classify_eq:
  assumes "build_arith_relation blake3 = Some r"
  shows "classify blake3 ls = Some (map (\<lambda>l. if admitted_leaf blake3 l then Some (relation_id blake3 r) else None) ls)"
proof -
  have "classify_leaf blake3 g src dst = Some (if admitted_leaf blake3 (g, src, dst) then Some (relation_id blake3 r) else None)" for g src dst
    by (simp add: classify_leaf_def closing_candidates_def typing_arith_v2_def assms relation_closes_eq[OF assms])
  then have "map (\<lambda>(g, src, dst). classify_leaf blake3 g src dst) ls =
      map (\<lambda>l. Some (if admitted_leaf blake3 l then Some (relation_id blake3 r) else None)) ls"
    by (simp add: case_prod_unfold)
  then show ?thesis unfolding classify_def by (simp only: those_map_Some)
qed

definition closures_ok :: "(bytes \<Rightarrow> bytes) \<Rightarrow> leaf_triple list \<Rightarrow> closures \<Rightarrow> bool" where
  "closures_ok blake3 ls cs \<longleftrightarrow> length cs = length ls \<and>
     (\<forall>i g src dst relation. i < length ls \<longrightarrow> ls ! i = (g, src, dst) \<longrightarrow> cs ! i = Some relation \<longrightarrow>
        relation_closes blake3 relation g src dst = Some True)"

lemma closes_infers:
  "relation_closes blake3 relation g src dst = Some True \<Longrightarrow>
   infer_prim_realizes blake3 relation (tree_obj_to_object_term src) (tree_obj_to_object_term dst) = Inr (leaf_prop (g, src, dst))"
  by (auto simp: relation_closes_def infer_prim_realizes_def leaf_prop_def split: option.splits if_splits tree_obj.splits)

section \<open>Open leaves and their hypotheses\<close>

lemma nth_filter_prefix:
  "i < length xs \<Longrightarrow> P (xs ! i) \<Longrightarrow>
   length (filter P (take i xs)) < length (filter P xs) \<and> filter P xs ! length (filter P (take i xs)) = xs ! i"
proof (induction xs arbitrary: i)
  case (Cons x xs)
  then show ?case by (cases i) auto
qed simp

definition opens :: "closures \<Rightarrow> nat \<Rightarrow> nat" where
  "opens cs i = length (filter (\<lambda>c. c = None) (take i cs))"

lemma opens_Suc: "i < length cs \<Longrightarrow> opens cs (Suc i) = (if cs ! i = None then opens cs i + 1 else opens cs i)"
  by (simp add: opens_def take_Suc_conv_app_nth)

lemma opens_0 [simp]: "opens cs 0 = 0"
  by (simp add: opens_def)

lemma filter_zip_length:
  "length ls = length cs \<Longrightarrow> length (filter (\<lambda>(_, c). c = None) (zip ls cs)) = length (filter (\<lambda>c. c = None) cs)"
  by (induction ls cs rule: list_induct2) auto

lemma open_prop_at:
  assumes "length cs = length ls" "i < length ls" "cs ! i = None"
  shows "opens cs i < length (open_props ls cs)" "open_props ls cs ! opens cs i = leaf_prop (ls ! i)"
proof -
  have o: "opens cs i = length (filter (\<lambda>(_, c). c = None) (take i (zip ls cs)))"
    using filter_zip_length[of "take i ls" "take i cs"] assms by (simp add: opens_def take_zip)
  have n: "opens cs i < length (filter (\<lambda>(_, c). c = None) (zip ls cs)) \<and>
      filter (\<lambda>(_, c). c = None) (zip ls cs) ! opens cs i = zip ls cs ! i"
    unfolding o by (rule nth_filter_prefix) (use assms in auto)
  then show "opens cs i < length (open_props ls cs)" by (simp add: open_props_def)
  show "open_props ls cs ! opens cs i = leaf_prop (ls ! i)" using n assms by (simp add: open_props_def)
qed

section \<open>The emitted term\<close>

definition hyp_context :: "leaf_triple list \<Rightarrow> closures \<Rightarrow> gamma" where
  "hyp_context ls cs = rev (zip (map binder_name [0..<length (open_props ls cs)]) (open_props ls cs))"

lemma emit_leaf:
  assumes ok: "closures_ok blake3 ls cs" and i: "i < length ls" "ls ! i = (g, src, dst)"
  shows "\<exists>k. emit_term cs ls (length (open_props ls cs)) (TreeLeaf g src dst) (i, opens cs i) = (k, Suc i, opens cs (Suc i)) \<and>
     synths blake3 (hyp_context ls cs) k (leaf_prop (g, src, dst)) \<and> realization_head k"
proof (cases "cs ! i")
  case None
  have len: "length cs = length ls" using ok by (simp add: closures_ok_def)
  note p = open_prop_at[OF len i(1) None]
  let ?k = "Hyp (Index (length (open_props ls cs) - 1 - opens cs i))"
  note h = hypothesis_index[of "map binder_name [0..<length (open_props ls cs)]" "open_props ls cs" "opens cs i"]
  have "synths blake3 (hyp_context ls cs) ?k (leaf_prop (g, src, dst))"
    unfolding hyp_context_def by (rule synths_Hyp) (use h p i in simp_all)
  then show ?thesis using None i len by (simp add: opens_Suc)
next
  case (Some relation)
  have "relation_closes blake3 relation g src dst = Some True" using ok i Some unfolding closures_ok_def by blast
  then have "synths blake3 (hyp_context ls cs) (PrimRealizes relation (tree_obj_to_object_term src) (tree_obj_to_object_term dst)) (leaf_prop (g, src, dst))"
    by (intro synths_Prim closes_infers)
  moreover have "length cs = length ls" using ok by (simp add: closures_ok_def)
  ultimately show ?thesis using Some i by (simp add: opens_Suc)
qed

text \<open>The triples of a subtree are a segment of the leaf list.\<close>

definition segment :: "leaf_triple list \<Rightarrow> nat \<Rightarrow> leaf_triple list \<Rightarrow> bool" where
  "segment ls i xs \<longleftrightarrow> (\<exists>pre suf. ls = pre @ xs @ suf \<and> length pre = i)"

lemma segment_append: "segment ls i (xs @ ys) \<Longrightarrow> segment ls i xs \<and> segment ls (i + length xs) ys"
  unfolding segment_def by (metis append.assoc length_append)

lemma segment_single: "segment ls i [x] \<Longrightarrow> i < length ls \<and> ls ! i = x"
  unfolding segment_def by (auto simp: nth_append)

lemma emit_synths:
  assumes ok: "closures_ok blake3 ls cs"
  shows "well_formed t \<Longrightarrow> segment ls i (triples t) \<Longrightarrow>
    \<exists>k. emit_term cs ls (length (open_props ls cs)) t (i, opens cs i) = (k, i + length (triples t), opens cs (i + length (triples t))) \<and>
      synths blake3 (hyp_context ls cs) k (tree_conclusion t) \<and> realization_head k"
proof (induction t arbitrary: i)
  case (TreeLeaf g src dst)
  then have "i < length ls" "ls ! i = (g, src, dst)" using segment_single by auto
  from emit_leaf[OF ok this] show ?case by (simp add: leaf_prop_def tree_conclusion_def)
next
  case (TreeSeq l r)
  have seg: "segment ls i (triples l)" "segment ls (i + length (triples l)) (triples r)"
    using TreeSeq.prems(2) segment_append by simp_all
  obtain kl where l: "emit_term cs ls (length (open_props ls cs)) l (i, opens cs i) =
      (kl, i + length (triples l), opens cs (i + length (triples l)))" "synths blake3 (hyp_context ls cs) kl (tree_conclusion l)"
    using TreeSeq.IH(1)[OF _ seg(1)] TreeSeq.prems(1) by auto
  obtain kr where r: "emit_term cs ls (length (open_props ls cs)) r (i + length (triples l), opens cs (i + length (triples l))) =
      (kr, i + length (triples l) + length (triples r), opens cs (i + length (triples l) + length (triples r)))"
    "synths blake3 (hyp_context ls cs) kr (tree_conclusion r)"
    using TreeSeq.IH(2)[OF _ seg(2)] TreeSeq.prems(1) by auto
  have "synths blake3 (hyp_context ls cs) (RealizesComp kl kr) (tree_conclusion (TreeSeq l r))"
    using synths_Comp[OF l(2)[unfolded tree_conclusion_def], of kr "witness_object r"] r(2) TreeSeq.prems(1)
    by (simp add: tree_conclusion_def)
  then show ?case using l(1) r(1) by (simp add: add.assoc)
next
  case (TreeTensor l r)
  have seg: "segment ls i (triples l)" "segment ls (i + length (triples l)) (triples r)"
    using TreeTensor.prems(2) segment_append by simp_all
  obtain kl where l: "emit_term cs ls (length (open_props ls cs)) l (i, opens cs i) =
      (kl, i + length (triples l), opens cs (i + length (triples l)))" "synths blake3 (hyp_context ls cs) kl (tree_conclusion l)"
    using TreeTensor.IH(1)[OF _ seg(1)] TreeTensor.prems(1) by auto
  obtain kr where r: "emit_term cs ls (length (open_props ls cs)) r (i + length (triples l), opens cs (i + length (triples l))) =
      (kr, i + length (triples l) + length (triples r), opens cs (i + length (triples l) + length (triples r)))"
    "synths blake3 (hyp_context ls cs) kr (tree_conclusion r)"
    using TreeTensor.IH(2)[OF _ seg(2)] TreeTensor.prems(1) by auto
  have "synths blake3 (hyp_context ls cs) (RealizesTensor kl kr) (tree_conclusion (TreeTensor l r))"
    using synths_Tensor[OF l(2)[unfolded tree_conclusion_def] r(2)[unfolded tree_conclusion_def]] by (simp add: tree_conclusion_def)
  then show ?case using l(1) r(1) by (simp add: add.assoc)
qed

lemma emit_root:
  assumes "closures_ok blake3 (triples t) cs" "well_formed t"
  shows "synths blake3 (hyp_context (triples t) cs) (fst (emit_term cs (triples t) (length (open_props (triples t) cs)) t (0, 0))) (tree_conclusion t)"
    and "realization_head (fst (emit_term cs (triples t) (length (open_props (triples t) cs)) t (0, 0)))"
  using emit_synths[OF assms(1,2), of 0] by (auto simp: segment_def)

definition tree_body :: "realizes_tree \<Rightarrow> closures \<Rightarrow> term_kind" where
  "tree_body t cs = fst (emit_term cs (triples t) (length (open_props (triples t) cs)) t (0, 0))"

lemma build_proof_checks:
  assumes "closures_ok blake3 (triples t) cs" "well_formed t"
  shows "checks blake3 [] (tkind (snd (build_proof t (triples t) cs ctx))) (fst (build_proof t (triples t) cs ctx))"
proof -
  have "checks blake3 (hyp_context (triples t) cs @ []) (tree_body t cs) (tree_conclusion t)"
    using checks_synths emit_root[OF assms] unfolding tree_body_def tree_conclusion_def by simp
  then show ?thesis
    unfolding build_proof_def Let_def fst_conv snd_conv explicit_term.simps implication_def bind_hypotheses_foldr hyp_context_def tree_body_def
    by (intro checks_lams) simp_all
qed

lemma emit_size:
  "nodes (fst (emit_term cs ls n t s)) = 2 * length (triples t) - 1 \<and> levels (fst (emit_term cs ls n t s)) \<le> length (triples t)"
proof (induction t arbitrary: s)
  case (TreeLeaf g src dst)
  then show ?case by (cases s) (auto split: option.split prod.split)
next
  case (TreeSeq l r)
  have pos: "0 < length (triples l)" "0 < length (triples r)" by simp_all
  obtain kl s1 where l: "emit_term cs ls n l s = (kl, s1)" by (cases "emit_term cs ls n l s")
  obtain kr s2 where r: "emit_term cs ls n r s1 = (kr, s2)" by (cases "emit_term cs ls n r s1")
  show ?case using TreeSeq.IH(1)[of s] TreeSeq.IH(2)[of s1] l r pos by (simp, linarith)
next
  case (TreeTensor l r)
  have pos: "0 < length (triples l)" "0 < length (triples r)" by simp_all
  obtain kl s1 where l: "emit_term cs ls n l s = (kl, s1)" by (cases "emit_term cs ls n l s")
  obtain kr s2 where r: "emit_term cs ls n r s1 = (kr, s2)" by (cases "emit_term cs ls n r s1")
  show ?case using TreeTensor.IH(1)[of s] TreeTensor.IH(2)[of s1] l r pos by (simp, linarith)
qed

lemma open_props_length: "length (open_props ls cs) \<le> length ls"
  unfolding open_props_def by (metis length_filter_le length_map length_zip min.bounded_iff)

lemma build_proof_accepted:
  assumes "closures_ok blake3 (triples t) cs" "well_formed t"
    and "3 * length (triples t) \<le> budget.max_steps b" "2 * length (triples t) < budget.max_depth b"
  shows "\<exists>c. acceptance blake3 ctx (fst (build_proof t (triples t) cs ctx)) (snd (build_proof t (triples t) cs ctx)) b = Accepted c"
proof -
  let ?tm = "snd (build_proof t (triples t) cs ctx)" and ?n = "length (open_props (triples t) cs)"
  note size = emit_size[of cs "triples t" ?n t "(0, 0)"]
  have pos: "0 < length (triples t)" by simp
  have tm: "tkind ?tm = foldr Lam (map binder_name [0..<?n]) (tree_body t cs)"
    by (simp add: build_proof_def Let_def bind_hypotheses_foldr tree_body_def)
  have "nodes (tkind ?tm) = ?n + nodes (tree_body t cs)" "levels (tkind ?tm) = ?n + levels (tree_body t cs)"
    unfolding tm nodes_lams levels_lams by simp_all
  then have "nodes (tkind ?tm) < budget.max_steps b" "levels (tkind ?tm) < budget.max_depth b"
    using size assms(3,4) open_props_length[of "triples t" cs] pos unfolding tree_body_def by linarith+
  then show ?thesis using checks_accepted[OF build_proof_checks[OF assms(1,2)], of ctx ctx b] by (auto simp: build_proof_def Let_def)
qed

section \<open>Reading the closures back\<close>

lemma emit_state: "snd (emit_term cs ls n t (i, m)) = (i + length (triples t), snd (snd (emit_term cs ls n t (i, m))))"
proof (induction t arbitrary: i m)
  case (TreeLeaf g src dst)
  then show ?case by (auto split: option.split prod.split)
next
  case (TreeSeq l r)
  show ?case using TreeSeq.IH(1)[of i m] TreeSeq.IH(2)[of "i + length (triples l)"]
    by (auto split: prod.split) (metis add.assoc fst_conv snd_conv)+
next
  case (TreeTensor l r)
  show ?case using TreeTensor.IH(1)[of i m] TreeTensor.IH(2)[of "i + length (triples l)"]
    by (auto split: prod.split) (metis add.assoc fst_conv snd_conv)+
qed

lemma read_emitted:
  "i + length (triples t) \<le> length cs \<Longrightarrow>
   read_closures t (fst (emit_term cs ls n t (i, m))) out = Inr (out @ take (length (triples t)) (drop i cs))"
proof (induction t arbitrary: i m out)
  case (TreeLeaf g src dst)
  then have "take 1 (drop i cs) = [cs ! i]" by (simp add: take_Suc_conv_app_nth)
  then show ?case by (cases "cs ! i") (auto split: prod.split)
next
  case (TreeSeq l r)
  obtain kl m1 where l: "emit_term cs ls n l (i, m) = (kl, i + length (triples l), m1)"
    using emit_state[of cs ls n l i m] by (cases "emit_term cs ls n l (i, m)") auto
  have "i + length (triples l) \<le> length cs" using TreeSeq.prems by simp
  note IH = TreeSeq.IH(1)[OF this, of m out] TreeSeq.IH(2)[of "i + length (triples l)" m1]
  show ?case using IH TreeSeq.prems l by (auto simp: take_add add.commute split: prod.split)
next
  case (TreeTensor l r)
  obtain kl m1 where l: "emit_term cs ls n l (i, m) = (kl, i + length (triples l), m1)"
    using emit_state[of cs ls n l i m] by (cases "emit_term cs ls n l (i, m)") auto
  have "i + length (triples l) \<le> length cs" using TreeTensor.prems by simp
  note IH = TreeTensor.IH(1)[OF this, of m out] TreeTensor.IH(2)[of "i + length (triples l)" m1]
  show ?case using IH TreeTensor.prems l by (auto simp: take_add add.commute split: prod.split)
qed

lemma strip_bound: "realization_head k \<Longrightarrow> strip_lams (bind_hypotheses n k) = k"
proof -
  assume "realization_head k"
  then have "strip_lams k = k" by (cases k) simp_all
  moreover have "strip_lams (foldr Lam nms k) = strip_lams k" for nms by (induction nms) simp_all
  ultimately show ?thesis unfolding bind_hypotheses_foldr by simp
qed

lemma check_closures_ok:
  assumes "build_arith_relation blake3 = Some r" "length cs = length ls"
  shows "\<exists>res. check_closures blake3 i (zip cs ls) = Some res \<and> (res = Inr () \<longleftrightarrow> closures_ok blake3 ls cs)"
  using assms(2)
proof (induction cs ls arbitrary: i rule: list_induct2)
  case (Cons c cs l ls)
  obtain g src dst where l: "l = (g, src, dst)" by (cases l)
  obtain res where res: "check_closures blake3 (i + 1) (zip cs ls) = Some res" "res = Inr () \<longleftrightarrow> closures_ok blake3 ls cs"
    using Cons.IH[of "i + 1"] by blast
  have ok: "closures_ok blake3 (l # ls) (c # cs) \<longleftrightarrow>
      (\<forall>relation. c = Some relation \<longrightarrow> relation_closes blake3 relation g src dst = Some True) \<and> closures_ok blake3 ls cs"
    using Cons.hyps unfolding closures_ok_def l by (auto simp: nth_Cons split: nat.splits)
  show ?case
  proof (cases c)
    case None
    then show ?thesis using res ok l by simp
  next
    case (Some relation)
    then show ?thesis using res ok l relation_closes_eq[OF assms(1), of relation g src dst]
      by (cases "relation = relation_id blake3 r \<and> admitted_leaf blake3 (g, src, dst)") auto
  qed
qed (simp add: closures_ok_def)

section \<open>The account of occurrences\<close>

definition occurrence_prop :: "leaf_occurrence \<Rightarrow> kprop" where
  "occurrence_prop oc = leaf_prop (ogenerator oc, osrc oc, odst oc)"

definition occurrence_of :: "nat \<Rightarrow> leaf_triple \<Rightarrow> digest option \<Rightarrow> leaf_occurrence" where
  "occurrence_of i l c = \<lparr>oindex = i, ogenerator = fst l, osrc = fst (snd l), odst = snd (snd l),
     ostatus = (case c of Some relation \<Rightarrow> Closed relation | None \<Rightarrow> Open)\<rparr>"

lemma map_filter_total: "(\<And>x. x \<in> set xs \<Longrightarrow> f x = Some (g x)) \<Longrightarrow> List.map_filter f xs = map g xs"
  by (induction xs) (simp_all add: List.map_filter_simps)

lemma tree_occurrences_eq:
  "tree_occurrences t cs = map (\<lambda>(i, l, c). occurrence_of i l c) (zip [0..<length (zip (triples t) cs)] (zip (triples t) cs))"
proof -
  have z: "zip (tree_leaves t) cs = map (\<lambda>((g, src, dst), c). (TreeLeaf g src dst, c)) (zip (triples t) cs)"
    by (simp add: tree_leaves_triples zip_map1 case_prod_unfold)
  have "List.map_filter (\<lambda>(i, leaf, closure). occurrence i leaf closure) (zip ns (map (\<lambda>((g, src, dst), c). (TreeLeaf g src dst, c)) xs)) =
      map (\<lambda>(i, l, c). occurrence_of i l c) (zip ns xs)" for ns and xs :: "(leaf_triple \<times> digest option) list"
    unfolding zip_map2 List.map_filter_def filter_map map_map
    by (induction ns xs rule: list_induct2') (auto simp: occurrence_def occurrence_of_def)
  then show ?thesis unfolding tree_occurrences_def z by simp
qed

lemma occurrences_length: "length cs = length (triples t) \<Longrightarrow> length (tree_occurrences t cs) = length (triples t)"
  by (simp add: tree_occurrences_eq)

lemma occurrence_nth:
  "length cs = length (triples t) \<Longrightarrow> i < length (triples t) \<Longrightarrow> tree_occurrences t cs ! i = occurrence_of i (triples t ! i) (cs ! i)"
  by (simp add: tree_occurrences_eq)

lemma remaining_props:
  assumes "length cs = length (triples t)"
  shows "map occurrence_prop (filter (\<lambda>oc. \<not> occurrence_is_closed oc) (tree_occurrences t cs)) = open_props (triples t) cs"
proof -
  have "map occurrence_prop (filter (\<lambda>oc. \<not> occurrence_is_closed oc) (map (\<lambda>(i, l, c). occurrence_of i l c) (zip ns xs))) =
      map (\<lambda>(l, _). leaf_prop l) (filter (\<lambda>(_, c). c = None) xs)"
    if "length ns = length xs" for ns and xs :: "(leaf_triple \<times> digest option) list"
    using that
    by (induction ns xs rule: list_induct2)
      (auto simp: occurrence_of_def occurrence_prop_def occurrence_is_closed_def split: option.splits)
  then show ?thesis by (simp add: tree_occurrences_eq open_props_def)
qed

lemma accepted_proof_binds:
  assumes "length cs = length (triples (dtree d))"
  shows "binds blake3 (accepted_proof blake3 d ctx \<lparr>tcproposition = p, tcterm = tm, tcclosures = cs\<rparr> cert) d"
proof -
  have "list_all (\<lambda>(leaf, oc). leaf = TreeLeaf (ogenerator oc) (osrc oc) (odst oc))
      (zip (tree_leaves (dtree d)) (tree_occurrences (dtree d) cs))"
    using assms occurrences_length[OF assms]
    by (auto simp: list_all_length tree_leaves_triples occurrence_nth occurrence_of_def split: prod.split)
  then show ?thesis using occurrences_length[OF assms]
    by (simp add: binds_def accepted_proof_def Let_def tree_leaves_triples)
qed

section \<open>The two ways to an accepted proof\<close>

definition tree_proof_of ::
  "(bytes \<Rightarrow> bytes) \<Rightarrow> tree_derivation \<Rightarrow> context_id \<Rightarrow> closures \<Rightarrow> certificate \<Rightarrow> accepted_tree_proof" where
  "tree_proof_of blake3 d ctx cs cert =
     (case build_proof (dtree d) (triples (dtree d)) cs ctx of (p, tm) \<Rightarrow>
        accepted_proof blake3 d ctx \<lparr>tcproposition = p, tcterm = tm, tcclosures = cs\<rparr> cert)"

lemma tree_proof_fields:
  "apterm (tree_proof_of blake3 d ctx cs cert) = snd (build_proof (dtree d) (triples (dtree d)) cs ctx)"
  "approposition (tree_proof_of blake3 d ctx cs cert) = fst (build_proof (dtree d) (triples (dtree d)) cs ctx)"
  "apoccurrences (tree_proof_of blake3 d ctx cs cert) = tree_occurrences (dtree d) cs"
  by (simp_all add: tree_proof_of_def accepted_proof_def split: prod.split)

definition chosen_closures :: "(bytes \<Rightarrow> bytes) \<Rightarrow> digest \<Rightarrow> realizes_tree \<Rightarrow> closures" where
  "chosen_closures blake3 i t = map (\<lambda>l. if admitted_leaf blake3 l then Some i else None) (triples t)"

lemma chosen_ok:
  assumes "build_arith_relation blake3 = Some r"
  shows "closures_ok blake3 (triples t) (chosen_closures blake3 (relation_id blake3 r) t)"
  unfolding closures_ok_def chosen_closures_def
  by (auto simp: relation_closes_eq[OF assms] split: if_splits)

lemma accepted_cert_eq:
  "(\<exists>c. acceptance blake3 ctx p t b = Accepted c) \<longleftrightarrow>
     acceptance blake3 ctx p t b = Accepted \<lparr>cverifier = native_verifier blake3,
       ccertificate_id = certificate_id_v1 blake3 \<lparr>mcontext = ctx, mproposition = p, mterm = t\<rparr>\<rparr>"
  using accepted_certificate by blast

lemma elaborate_tree_iff:
  fixes d :: tree_derivation
  assumes rel: "build_arith_relation blake3 = Some r"
  defines "cs \<equiv> chosen_closures blake3 (relation_id blake3 r) (dtree d)"
  shows "elaborate_tree_certified blake3 source d b = Some (TreeProven j e pf) \<longleftrightarrow>
    joutcome source = Audited \<and> tverification d = StructureVerified \<and> jevidence source = support_evidence_id blake3 (SupTree d) \<and>
    well_formed (dtree d) \<and>
    (\<exists>c. acceptance blake3 (jcontext source) (fst (build_proof (dtree d) (triples (dtree d)) cs (jcontext source)))
       (snd (build_proof (dtree d) (triples (dtree d)) cs (jcontext source))) b = Accepted c \<and>
     pf = tree_proof_of blake3 d (jcontext source) cs c) \<and>
    j = proven_judgement blake3 (jcontext source) (approposition pf) (apterm pf) \<and> e = boundary_edge blake3 source"
    (is "?L \<longleftrightarrow> ?R")
proof (cases "audited_source_verify blake3 source (SupTree d)")
  case (Inl err)
  then have "\<not> (joutcome source = Audited \<and> tverification d = StructureVerified \<and> jevidence source = support_evidence_id blake3 (SupTree d))"
    using audited_source_iff[of blake3 source "SupTree d" source] by auto
  then show ?thesis using Inl by (auto simp: elaborate_tree_certified_def)
next
  case (Inr s)
  then have s: "s = source" "joutcome source = Audited" "tverification d = StructureVerified"
    "jevidence source = support_evidence_id blake3 (SupTree d)"
    using audited_source_iff[of blake3 source "SupTree d" s] by auto
  show ?thesis
  proof (cases "well_formed (dtree d)")
    case False
    then show ?thesis using Inr by (simp add: elaborate_tree_certified_def)
  next
    case True
    let ?p = "fst (build_proof (dtree d) (triples (dtree d)) cs (jcontext source))"
    let ?tm = "snd (build_proof (dtree d) (triples (dtree d)) cs (jcontext source))"
    have cand: "candidate_of blake3 (dtree d) (jcontext source) = Some (Some \<lparr>tcproposition = ?p, tcterm = ?tm, tcclosures = cs\<rparr>)"
      using True by (simp add: candidate_of_def leaf_triples_eq classify_eq[OF rel] cs_def chosen_closures_def split: prod.split)
    have leaves: "tree_leaves (dtree d) \<noteq> []" by (simp add: tree_leaves_triples)
    note run = elaborate_tree_certified_def[of blake3 source d b, unfolded Inr s(1) sum.case cand option.case, simplified True leaves, simplified]
    show ?thesis
    proof (cases "acceptance blake3 (jcontext source) ?p ?tm b")
      case (Accepted c)
      note c = accepted_certificate[OF Accepted]
      have "elaborate_tree_certified blake3 source d b = Some (TreeProven (proven_judgement blake3 (jcontext source) ?p ?tm)
          (boundary_edge blake3 source) (tree_proof_of blake3 d (jcontext source) cs c))"
        unfolding run Accepted verdict.case using publish_accepted_eq[of blake3 source ?p ?tm] c
        by (simp add: tree_proof_of_def split: prod.split)
      then show ?thesis using s True Accepted by (auto simp: tree_proof_fields)
    qed (simp_all add: run)
  qed
qed

lemma read_proof_closures:
  assumes "length cs = length (triples t)" "closures_ok blake3 (triples t) cs" "well_formed t"
  shows "read_closures t (strip_lams (tkind (snd (build_proof t (triples t) cs ctx)))) [] = Inr cs"
proof -
  have "strip_lams (tkind (snd (build_proof t (triples t) cs ctx))) = tree_body t cs"
    using strip_bound[OF emit_root(2)[OF assms(2,3)]] by (simp add: build_proof_def Let_def tree_body_def)
  then show ?thesis using read_emitted[of 0 t cs "triples t" "length (open_props (triples t) cs)" 0 "[]"] assms(1)
    by (simp add: tree_body_def)
qed

lemma verify_tree_proof_iff:
  assumes rel: "build_arith_relation blake3 = Some r"
  shows "verify_tree_proof blake3 d ctx tm b = Some (Inr pf) \<longleftrightarrow>
    tverification d = StructureVerified \<and> well_formed (dtree d) \<and>
    (\<exists>cs c. closures_ok blake3 (triples (dtree d)) cs \<and> tm = snd (build_proof (dtree d) (triples (dtree d)) cs ctx) \<and>
       acceptance blake3 ctx (fst (build_proof (dtree d) (triples (dtree d)) cs ctx)) tm b = Accepted c \<and> pf = tree_proof_of blake3 d ctx cs c)"
    (is "?L \<longleftrightarrow> ?R")
proof
  assume ?L
  then have v: "tverification d = StructureVerified" "well_formed (dtree d)"
    by (auto simp: verify_tree_proof_def leaf_triples_eq split: if_splits)
  note run = \<open>?L\<close>[unfolded verify_tree_proof_def leaf_triples_eq, simplified v, simplified]
  obtain cs where cs: "read_closures (dtree d) (strip_lams (tkind tm)) [] = Inr cs"
    using run by (cases "read_closures (dtree d) (strip_lams (tkind tm)) []") auto
  have len: "length cs = length (triples (dtree d))" using run cs by (auto split: if_splits)
  obtain res where res: "check_closures blake3 0 (zip cs (triples (dtree d))) = Some res" "res = Inr () \<longleftrightarrow> closures_ok blake3 (triples (dtree d)) cs"
    using check_closures_ok[OF rel len] by blast
  have ok: "res = Inr ()" using run cs len res(1) by (cases res) auto
  note run = run[unfolded cs sum.case, simplified len, unfolded res(1)[unfolded ok] option.case sum.case, simplified]
  obtain p expected where bp: "build_proof (dtree d) (triples (dtree d)) cs ctx = (p, expected)" by (cases "build_proof (dtree d) (triples (dtree d)) cs ctx")
  have k: "tkind expected = tkind tm" using run bp by (auto split: if_splits)
  obtain c where c: "acceptance blake3 ctx p tm b = Accepted c" using run bp k by (cases "acceptance blake3 ctx p tm b") auto
  have "tcontext tm = ctx" using c by (simp add: acceptance_iff)
  moreover have "tcontext expected = ctx" using bp by (auto simp: build_proof_def Let_def)
  ultimately have tm: "tm = expected" using k by simp
  have "pf = tree_proof_of blake3 d ctx cs c" using run bp k c by (simp add: tree_proof_of_def)
  then show ?R using v ok res(2) c bp tm by auto
next
  assume ?R
  then obtain cs c where v: "tverification d = StructureVerified" "well_formed (dtree d)"
    and ok: "closures_ok blake3 (triples (dtree d)) cs" and tm: "tm = snd (build_proof (dtree d) (triples (dtree d)) cs ctx)"
    and c: "acceptance blake3 ctx (fst (build_proof (dtree d) (triples (dtree d)) cs ctx)) tm b = Accepted c"
    and pf: "pf = tree_proof_of blake3 d ctx cs c" by blast
  have len: "length cs = length (triples (dtree d))" using ok by (simp add: closures_ok_def)
  have read: "read_closures (dtree d) (strip_lams (tkind tm)) [] = Inr cs"
    using read_proof_closures[OF len ok v(2)] tm by simp
  have chk: "check_closures blake3 0 (zip cs (triples (dtree d))) = Some (Inr ())"
    using check_closures_ok[OF rel len, of 0] ok by auto
  show ?L using v read len chk c pf tm
    by (auto simp: verify_tree_proof_def leaf_triples_eq tree_proof_of_def split: prod.split)
qed

section \<open>Properties\<close>

text \<open>
  C15. A verified derivation tree elaborates: from an audited source on a structurally verified derivation, with
  three steps and a little more than two units of depth for each leaf, a theorem is published with a
  proof that names every leaf occurrence of this derivation; an occurrence is closed exactly when it is an
  instance of the kernel's arithmetic relation, and the proposition is the implication from the
  occurrences that are not closed to the realization of the tree's end points by its witness.
\<close>

theorem tree_elaborates:
  assumes "joutcome source = Audited" "tverification d = StructureVerified" "jevidence source = support_evidence_id blake3 (SupTree d)"
    and "well_formed (dtree d)" and rel: "build_arith_relation blake3 = Some r"
    and "3 * length (tree_leaves (dtree d)) \<le> budget.max_steps b" "2 * length (tree_leaves (dtree d)) < budget.max_depth b"
  shows "\<exists>pf. elaborate_tree_certified blake3 source d b =
      Some (TreeProven (proven_judgement blake3 (jcontext source) (approposition pf) (apterm pf)) (boundary_edge blake3 source) pf) \<and>
    binds blake3 pf d \<and>
    approposition pf = implication (map occurrence_prop (remaining_occurrences pf)) (tree_conclusion (dtree d)) \<and>
    list_all (\<lambda>oc. occurrence_is_closed oc \<longleftrightarrow> admitted_leaf blake3 (ogenerator oc, osrc oc, odst oc)) (apoccurrences pf)"
proof -
  let ?cs = "chosen_closures blake3 (relation_id blake3 r) (dtree d)" and ?t = "dtree d"
  have len: "length ?cs = length (triples ?t)" by (simp add: chosen_closures_def)
  obtain c where c: "acceptance blake3 (jcontext source) (fst (build_proof ?t (triples ?t) ?cs (jcontext source)))
      (snd (build_proof ?t (triples ?t) ?cs (jcontext source))) b = Accepted c"
    using build_proof_accepted[OF chosen_ok[OF rel] assms(4), of b "jcontext source"] assms(6,7) by (auto simp: tree_leaves_triples)
  let ?pf = "tree_proof_of blake3 d (jcontext source) ?cs c"
  have "elaborate_tree_certified blake3 source d b =
      Some (TreeProven (proven_judgement blake3 (jcontext source) (approposition ?pf) (apterm ?pf)) (boundary_edge blake3 source) ?pf)"
    using elaborate_tree_iff[OF rel, of source d b] assms(1-4) c by blast
  moreover have "binds blake3 ?pf d" using accepted_proof_binds[OF len] by (simp add: tree_proof_of_def split: prod.split)
  moreover have "approposition ?pf = implication (map occurrence_prop (remaining_occurrences ?pf)) (tree_conclusion ?t)"
    using remaining_props[OF len] by (simp add: tree_proof_fields build_proof_def Let_def remaining_occurrences_def)
  moreover have "list_all (\<lambda>oc. occurrence_is_closed oc \<longleftrightarrow> admitted_leaf blake3 (ogenerator oc, osrc oc, odst oc)) (apoccurrences ?pf)"
    using len occurrences_length[OF len]
    by (auto simp: list_all_length tree_proof_fields occurrence_nth occurrence_of_def occurrence_is_closed_def chosen_closures_def)
  ultimately show ?thesis by blast
qed

text \<open>
  C16. Verification of an untrusted term accepts exactly the canonical constructions: the derivation carries
  the verified tag and is well-formed, the term is the construction for some choice of closed occurrences
  each of which the kernel's relation admits, and the kernel accepts it for the implication rebuilt from
  derivation and choice; the proof it returns is the one of that choice.
\<close>

theorem tree_verification_exact:
  assumes "build_arith_relation blake3 = Some r"
  shows "verify_tree_proof blake3 d ctx tm b = Some (Inr pf) \<longleftrightarrow>
    tverification d = StructureVerified \<and> well_formed (dtree d) \<and>
    (\<exists>cs c. closures_ok blake3 (triples (dtree d)) cs \<and> tm = snd (build_proof (dtree d) (triples (dtree d)) cs ctx) \<and>
       acceptance blake3 ctx (fst (build_proof (dtree d) (triples (dtree d)) cs ctx)) tm b = Accepted c \<and> pf = tree_proof_of blake3 d ctx cs c)"
  using verify_tree_proof_iff[OF assms] .

text \<open>
  C17. An elaborated proof verifies again: rechecking the proof of a certified elaboration against the same
  derivation, context and budget finds the same proof.
\<close>

theorem elaborated_proof_rechecks:
  assumes "elaborate_tree_certified blake3 source d b = Some (TreeProven j e pf)"
  shows "recheck blake3 pf d (jcontext source) b = Some (Inr ())"
proof (cases "build_arith_relation blake3")
  case None
  then have "classify blake3 (triples (dtree d)) = None"
    by (cases "triples (dtree d)") (auto simp: classify_def classify_leaf_def closing_candidates_def typing_arith_v2_def)
  then have "candidate_of blake3 (dtree d) ctx \<noteq> Some (Some cnd)" for ctx cnd
    by (auto simp: candidate_of_def leaf_triples_eq)
  then have False using assms by (auto simp: elaborate_tree_certified_def split: sum.splits if_splits option.splits)
  then show ?thesis by simp
next
  case (Some r)
  let ?cs = "chosen_closures blake3 (relation_id blake3 r) (dtree d)" and ?ctx = "jcontext source"
  from assms[unfolded elaborate_tree_iff[OF Some]] obtain c where v: "tverification d = StructureVerified" "well_formed (dtree d)"
    and c: "acceptance blake3 ?ctx (fst (build_proof (dtree d) (triples (dtree d)) ?cs ?ctx))
       (snd (build_proof (dtree d) (triples (dtree d)) ?cs ?ctx)) b = Accepted c" and pf: "pf = tree_proof_of blake3 d ?ctx ?cs c" by blast
  have "verify_tree_proof blake3 d ?ctx (apterm pf) b = Some (Inr pf)"
    unfolding verify_tree_proof_iff[OF Some] using v chosen_ok[OF Some] c pf by (auto simp: tree_proof_fields)
  then show ?thesis by (simp add: recheck_def)
qed

text \<open>A hash function, a tree of one arithmetic and one other leaf, and an audited source for it.\<close>

definition zero_hash :: "bytes \<Rightarrow> bytes" where
  "zero_hash _ = replicate 32 0"

definition zero_digest :: digest where
  "zero_digest = replicate 32 0"

definition demo_tree :: tree_derivation where
  "demo_tree = \<lparr>dtree = TreeSeq (TreeLeaf zero_digest (TreeAtom zero_digest) (TreeAtom zero_digest))
       (TreeLeaf [1] (TreeAtom zero_digest) (TreeAtom [2])), tverification = StructureVerified\<rparr>"

definition demo_source :: judgement where
  "demo_source = \<lparr>jcontext = [], jproposition = [], joutcome = Audited, jevidence = support_evidence_id zero_hash (SupTree demo_tree)\<rparr>"

lemma zero_arith: "\<exists>r. build_arith_relation zero_hash = Some r"
proof -
  have "result_type_config_id zero_hash t = zero_digest" for t
    by (simp add: result_type_config_id_def from_canon_def id_of_def digest_of_def zero_hash_def zero_digest_def)
  then have "functional_rows (arith_rows zero_hash)" by (auto simp: functional_rows_def arith_rows_def list_all_iff)
  then show ?thesis by (simp add: build_arith_relation_def Let_def)
qed

lemma demo_tree_wf: "well_formed (dtree demo_tree)" "tverification demo_tree = StructureVerified" "length (tree_leaves (dtree demo_tree)) = 2"
  by (simp_all add: demo_tree_def tree_leaves_triples)

lemma demo_tree_elaborated:
  "\<exists>j e pf. elaborate_tree_certified zero_hash demo_source demo_tree \<lparr>budget.max_steps = 6, budget.max_depth = 5\<rparr> = Some (TreeProven j e pf)"
proof -
  obtain r where r: "build_arith_relation zero_hash = Some r" using zero_arith by blast
  let ?b = "\<lparr>budget.max_steps = 6, budget.max_depth = 5\<rparr>"
  have "length (triples (dtree demo_tree)) = 2" by (simp add: demo_tree_def)
  then obtain c where c: "acceptance zero_hash (jcontext demo_source)
      (fst (build_proof (dtree demo_tree) (triples (dtree demo_tree)) (chosen_closures zero_hash (relation_id zero_hash r) (dtree demo_tree)) (jcontext demo_source)))
      (snd (build_proof (dtree demo_tree) (triples (dtree demo_tree)) (chosen_closures zero_hash (relation_id zero_hash r) (dtree demo_tree)) (jcontext demo_source)))
      ?b = Accepted c"
    using build_proof_accepted[OF chosen_ok[OF r] demo_tree_wf(1), of ?b "jcontext demo_source"] by auto
  moreover have "joutcome demo_source = Audited" "jevidence demo_source = support_evidence_id zero_hash (SupTree demo_tree)"
    by (simp_all add: demo_source_def)
  ultimately show ?thesis using elaborate_tree_iff[OF r, of demo_source demo_tree ?b] demo_tree_wf by blast
qed

theorem tree_elaborates_witness:
  "\<exists>j e pf. elaborate_tree_certified zero_hash demo_source demo_tree \<lparr>budget.max_steps = 6, budget.max_depth = 5\<rparr> = Some (TreeProven j e pf) \<and>
     binds zero_hash pf demo_tree"
proof -
  obtain r where r: "build_arith_relation zero_hash = Some r" using zero_arith by blast
  have "joutcome demo_source = Audited" "jevidence demo_source = support_evidence_id zero_hash (SupTree demo_tree)"
    by (simp_all add: demo_source_def)
  from tree_elaborates[OF this(1) demo_tree_wf(2) this(2) demo_tree_wf(1) r, of "\<lparr>budget.max_steps = 6, budget.max_depth = 5\<rparr>"]
  show ?thesis using demo_tree_wf(3) by auto
qed

theorem tree_verification_exact_witness:
  "\<exists>tm pf. verify_tree_proof zero_hash demo_tree [] tm \<lparr>budget.max_steps = 6, budget.max_depth = 5\<rparr> = Some (Inr pf)"
proof -
  obtain r where r: "build_arith_relation zero_hash = Some r" using zero_arith by blast
  let ?b = "\<lparr>budget.max_steps = 6, budget.max_depth = 5\<rparr>" and ?cs = "chosen_closures zero_hash (relation_id zero_hash r) (dtree demo_tree)"
  have "length (triples (dtree demo_tree)) = 2" by (simp add: demo_tree_def)
  then obtain c where "acceptance zero_hash [] (fst (build_proof (dtree demo_tree) (triples (dtree demo_tree)) ?cs []))
      (snd (build_proof (dtree demo_tree) (triples (dtree demo_tree)) ?cs [])) ?b = Accepted c"
    using build_proof_accepted[OF chosen_ok[OF r] demo_tree_wf(1), of ?b "[]"] by auto
  then show ?thesis
    using tree_verification_exact[OF r, of demo_tree "[]" "snd (build_proof (dtree demo_tree) (triples (dtree demo_tree)) ?cs [])" ?b]
      chosen_ok[OF r] demo_tree_wf by blast
qed

theorem elaborated_proof_rechecks_witness:
  "\<exists>pf. recheck zero_hash pf demo_tree [] \<lparr>budget.max_steps = 6, budget.max_depth = 5\<rparr> = Some (Inr ())"
proof -
  obtain j e pf where "elaborate_tree_certified zero_hash demo_source demo_tree \<lparr>budget.max_steps = 6, budget.max_depth = 5\<rparr> = Some (TreeProven j e pf)"
    using demo_tree_elaborated by blast
  from elaborated_proof_rechecks[OF this] show ?thesis by (auto simp: demo_source_def)
qed

end
