(* ===== verification/Syntax_Lexer.thy ===== *)
theory Syntax_Lexer
  imports Prelude
begin

text \<open>
  The lexer of \<open>crates/brix-syntax/src/lexer.rs\<close> with the limits of \<open>limits.rs\<close>. A \<open>char\<close> is its code point,
  the vector of characters from the cursor on is the list that is left; \<open>usize\<close> positions are natural numbers.
  The variants of \<open>TokenKind\<close> are grouped into keywords, symbols and the others. Messages are kept as values.
\<close>

section \<open>Tokens\<close>

type_synonym codes = "nat list"

definition codes_of :: "string \<Rightarrow> codes" where
  "codes_of s = map of_char s"

datatype keyword =
    KwConfig | KwRegime | KwGen | KwRule | KwFn | KwLet | KwShow | KwWitness | KwUse | KwMatch | KwProve | KwWhy
  | KwAudit | KwThen | KwAnd | KwDerived | KwAudited | KwProven | KwTrue | KwFalse | KwPropose | KwPriority | KwWhen
  | KwCommit | KwFrom | KwInput | KwFor | KwIn | KwWhere | KwNot | KwExists | KwYield | KwOtherwise | KwDecide | KwRel
  | KwKey | KwSelect | KwGroup | KwBy | KwExport | KwPer

datatype symbol_kind =
    OpenBrace | CloseBrace | OpenParen | CloseParen | OpenBracket | CloseBracket | Colon | ColonColon | Equals | Pipe
  | Comma | Dot | At | FatArrow | Plus | Minus | Star | Slash | Lt | Le | Gt | Ge | EqEq | Ne | AmpAmp | PipePipe | Bang
  | Underscore

datatype token_kind =
    Keyword keyword
  | Ident codes
  | Num codes
  | Str codes
  | Symbol symbol_kind
  | Eof

record token =
  kind :: token_kind
  line :: nat
  col :: nat

section \<open>Limits and errors\<close>

record parse_limits =
  max_source_bytes :: nat
  max_tokens :: nat
  max_nesting_depth :: nat

definition limits_strict :: parse_limits where
  "limits_strict = \<lparr>max_source_bytes = 2 ^ 20, max_tokens = 200000, max_nesting_depth = 128\<rparr>"

definition limits_generous :: parse_limits where
  "limits_generous = \<lparr>max_source_bytes = 2 ^ 64 - 1, max_tokens = 2 ^ 64 - 1, max_nesting_depth = 2 ^ 64 - 1\<rparr>"

datatype limit_exceeded = SourceBytes nat nat | TooManyTokens nat | NestingDepth nat

datatype lex_message = UnterminatedEscape | UnterminatedString | LoneAmpersand | UnexpectedCharacter nat

datatype lex_error = LexLimit limit_exceeded | LexAt lex_message nat nat

definition charge_token :: "token list \<Rightarrow> parse_limits \<Rightarrow> lex_error + unit" where
  "charge_token toks lim = (if max_tokens lim \<le> length toks then Inl (LexLimit (TooManyTokens (max_tokens lim))) else Inr ())"

section \<open>Characters\<close>

definition is_digit :: "nat \<Rightarrow> bool" where
  "is_digit c \<longleftrightarrow> 48 \<le> c \<and> c \<le> 57"

definition is_alpha :: "nat \<Rightarrow> bool" where
  "is_alpha c \<longleftrightarrow> 65 \<le> c \<and> c \<le> 90 \<or> 97 \<le> c \<and> c \<le> 122"

definition is_space :: "nat \<Rightarrow> bool" where
  "is_space c \<longleftrightarrow> c = 32 \<or> c = 9 \<or> c = 13 \<or> c = 10"

definition ident_start :: "nat \<Rightarrow> bool" where
  "ident_start c \<longleftrightarrow> is_alpha c \<or> c = 95"

definition ident_part :: "nat \<Rightarrow> bool" where
  "ident_part c \<longleftrightarrow> is_alpha c \<or> is_digit c \<or> c = 95"

definition utf8_len :: "nat \<Rightarrow> nat" where
  "utf8_len c = (if c < 128 then 1 else if c < 2048 then 2 else if c < 65536 then 3 else 4)"

definition source_len :: "codes \<Rightarrow> nat" where
  "source_len cs = sum_list (map utf8_len cs)"

section \<open>The inner loops\<close>

fun skip_comment :: "codes \<Rightarrow> nat \<Rightarrow> codes \<times> nat" where
  "skip_comment [] column = ([], column)"
| "skip_comment (c # cs) column = (if c = 10 then (c # cs, column) else skip_comment cs (column + 1))"

fun take_digits :: "codes \<Rightarrow> codes \<Rightarrow> nat \<Rightarrow> codes \<times> codes \<times> nat" where
  "take_digits acc [] column = (acc, [], column)"
| "take_digits acc (c # cs) column = (if is_digit c then take_digits (acc @ [c]) cs (column + 1) else (acc, c # cs, column))"

fun take_ident :: "codes \<Rightarrow> codes \<Rightarrow> nat \<Rightarrow> codes \<times> codes \<times> nat" where
  "take_ident acc [] column = (acc, [], column)"
| "take_ident acc (c # cs) column = (if ident_part c then take_ident (acc @ [c]) cs (column + 1) else (acc, c # cs, column))"

definition unescape :: "nat \<Rightarrow> nat" where
  "unescape e = (if e = 110 then 10 else if e = 114 then 13 else if e = 116 then 9 else e)"

fun lex_string :: "codes \<Rightarrow> codes \<Rightarrow> nat \<Rightarrow> nat \<Rightarrow> lex_message + (codes \<times> codes \<times> nat \<times> nat)" where
  "lex_string acc [] ln column = Inl UnterminatedString"
| "lex_string acc (c # cs) ln column =
     (if c = 34 then Inr (acc, cs, ln, column + 1)
      else if c = 92 then
        (case cs of
           [] \<Rightarrow> Inl UnterminatedEscape
         | e # rest \<Rightarrow> lex_string (acc @ [unescape e]) rest ln (column + 2))
      else if c = 10 then lex_string (acc @ [10]) cs (ln + 1) 1
      else lex_string (acc @ [c]) cs ln (column + 1))"

definition keyword_table :: "(string \<times> keyword) list" where
  "keyword_table =
    [(''config'', KwConfig), (''regime'', KwRegime), (''gen'', KwGen), (''rule'', KwRule), (''fn'', KwFn), (''let'', KwLet),
     (''show'', KwShow), (''witness'', KwWitness), (''true'', KwTrue), (''false'', KwFalse), (''use'', KwUse),
     (''match'', KwMatch), (''prove'', KwProve), (''why'', KwWhy), (''audit'', KwAudit), (''then'', KwThen), (''and'', KwAnd),
     (''propose'', KwPropose), (''priority'', KwPriority), (''when'', KwWhen), (''commit'', KwCommit), (''from'', KwFrom),
     (''input'', KwInput), (''for'', KwFor), (''in'', KwIn), (''where'', KwWhere), (''not'', KwNot), (''exists'', KwExists),
     (''yield'', KwYield), (''otherwise'', KwOtherwise), (''decide'', KwDecide), (''rel'', KwRel), (''key'', KwKey),
     (''select'', KwSelect), (''group'', KwGroup), (''by'', KwBy), (''export'', KwExport), (''per'', KwPer)]"

definition keyword_of :: "codes \<Rightarrow> keyword option" where
  "keyword_of ident = map_of (map (\<lambda>(s, k). (codes_of s, k)) keyword_table) ident"

definition word_kind :: "codes \<Rightarrow> token_kind" where
  "word_kind ident =
     (if ident = [95] then Symbol Underscore
      else case keyword_of ident of Some k \<Rightarrow> Keyword k | None \<Rightarrow> Ident ident)"

text \<open>The symbol at the cursor and the number of its characters.\<close>

definition symbol_at :: "nat \<Rightarrow> codes \<Rightarrow> lex_message + (symbol_kind \<times> nat)" where
  "symbol_at ch rest =
     (let followed = (\<lambda>c. case rest of [] \<Rightarrow> False | d # _ \<Rightarrow> d = c) in
      if ch = 123 then Inr (OpenBrace, 1)
      else if ch = 125 then Inr (CloseBrace, 1)
      else if ch = 40 then Inr (OpenParen, 1)
      else if ch = 41 then Inr (CloseParen, 1)
      else if ch = 91 then Inr (OpenBracket, 1)
      else if ch = 93 then Inr (CloseBracket, 1)
      else if ch = 58 then (if followed 58 then Inr (ColonColon, 2) else Inr (Colon, 1))
      else if ch = 61 then
        (if followed 62 then Inr (FatArrow, 2) else if followed 61 then Inr (EqEq, 2) else Inr (Equals, 1))
      else if ch = 124 then (if followed 124 then Inr (PipePipe, 2) else Inr (Pipe, 1))
      else if ch = 38 then (if followed 38 then Inr (AmpAmp, 2) else Inl LoneAmpersand)
      else if ch = 44 then Inr (Comma, 1)
      else if ch = 46 then Inr (Dot, 1)
      else if ch = 64 then Inr (At, 1)
      else if ch = 60 then (if followed 61 then Inr (Le, 2) else Inr (Lt, 1))
      else if ch = 62 then (if followed 61 then Inr (Ge, 2) else Inr (Gt, 1))
      else if ch = 33 then (if followed 61 then Inr (Ne, 2) else Inr (Bang, 1))
      else if ch = 43 then Inr (Plus, 1)
      else if ch = 45 then Inr (Minus, 1)
      else if ch = 42 then Inr (Star, 1)
      else if ch = 47 then Inr (Slash, 1)
      else Inl (UnexpectedCharacter ch))"

text \<open>One token from the cursor on: its kind, what is left, and the position after it.\<close>

definition lex_number :: "codes \<Rightarrow> nat \<Rightarrow> codes \<times> codes \<times> nat" where
  "lex_number cs column =
     (case take_digits [] cs column of
        (num, rest, column) \<Rightarrow>
          (case rest of
             c # d # _ \<Rightarrow>
               if c = 46 \<and> is_digit d then take_digits (num @ [46]) (tl rest) (column + 1) else (num, rest, column)
           | _ \<Rightarrow> (num, rest, column)))"

definition lex_token :: "nat \<Rightarrow> codes \<Rightarrow> nat \<Rightarrow> nat \<Rightarrow> lex_message + (token_kind \<times> codes \<times> nat \<times> nat)" where
  "lex_token ch rest ln column =
     (if is_digit ch then (case lex_number (ch # rest) column of (num, rest, column) \<Rightarrow> Inr (Num num, rest, ln, column))
      else if ch = 34 then
        (case lex_string [] rest ln (column + 1) of
           Inl m \<Rightarrow> Inl m
         | Inr (v, rest, ln, column) \<Rightarrow> Inr (Str v, rest, ln, column))
      else if ident_start ch then
        (case take_ident [] (ch # rest) column of (ident, rest, column) \<Rightarrow> Inr (word_kind ident, rest, ln, column))
      else (case symbol_at ch rest of
        Inl m \<Rightarrow> Inl m
      | Inr (y, n) \<Rightarrow> Inr (Symbol y, drop (n - 1) rest, ln, column + n)))"

section \<open>The main loop\<close>

lemma skip_comment_length: "length (fst (skip_comment cs column)) \<le> length cs"
  by (induction cs column rule: skip_comment.induct) auto

lemma take_digits_length: "take_digits acc cs column = (x, rest, c) \<Longrightarrow> length rest \<le> length cs"
  by (induction acc cs column rule: take_digits.induct) (auto split: if_splits)

lemma take_ident_length: "take_ident acc cs column = (x, rest, c) \<Longrightarrow> length rest \<le> length cs"
  by (induction acc cs column rule: take_ident.induct) (auto split: if_splits)

lemma lex_string_length: "lex_string acc cs ln column = Inr (x, rest, l, c) \<Longrightarrow> length rest < length cs"
  by (induction acc cs ln column rule: lex_string.induct) (auto split: if_splits list.splits)

lemma lex_number_length: "is_digit ch \<Longrightarrow> lex_number (ch # cs) column = (x, rest, c) \<Longrightarrow> length rest \<le> length cs"
  unfolding lex_number_def
  by (auto split: prod.splits list.splits if_splits nat.splits dest!: take_digits_length)

lemma lex_token_length: "lex_token ch rest ln column = Inr (k, rest', l, c) \<Longrightarrow> length rest' \<le> length rest"
  unfolding lex_token_def
  by (auto split: if_splits prod.splits sum.splits simp: ident_start_def ident_part_def
      dest!: lex_number_length take_ident_length lex_string_length)

function lex_loop :: "parse_limits \<Rightarrow> codes \<Rightarrow> nat \<Rightarrow> nat \<Rightarrow> token list \<Rightarrow> lex_error + token list" where
  "lex_loop lim [] ln column toks =
     and_then (charge_token toks lim) (\<lambda>_. Inr (toks @ [\<lparr>kind = Eof, line = ln, col = column\<rparr>]))"
| "lex_loop lim (ch # rest) ln column toks =
     (if ch = 47 \<and> (\<exists>rest'. rest = 47 # rest') then
        (case skip_comment (tl rest) (column + 2) of (rest, column) \<Rightarrow> lex_loop lim rest ln column toks)
      else if is_space ch then
        (if ch = 10 then lex_loop lim rest (ln + 1) 1 toks else lex_loop lim rest ln (column + 1) toks)
      else (case lex_token ch rest ln column of
        Inl m \<Rightarrow> Inl (LexAt m ln column)
      | Inr (k, rest, ln', column') \<Rightarrow>
          and_then (charge_token toks lim) (\<lambda>_. lex_loop lim rest ln' column' (toks @ [\<lparr>kind = k, line = ln, col = column\<rparr>]))))"
  by pat_completeness auto

termination
proof (relation "measure (\<lambda>(_, cs, _, _, _). length cs)", goal_cases)
  case (2 lim ch rest ln column toks x y)
  then have "length x < length (ch # rest)"
    using skip_comment_length[of "tl rest" "column + 2"] by (cases "skip_comment (tl rest) (column + 2)") auto
  then show ?case by simp
qed (auto dest: lex_token_length)

definition lex_bounded :: "codes \<Rightarrow> parse_limits \<Rightarrow> lex_error + token list" where
  "lex_bounded source lim =
     (if max_source_bytes lim < source_len source then Inl (LexLimit (SourceBytes (max_source_bytes lim) (source_len source)))
      else lex_loop lim source 1 1 [])"

definition lex :: "codes \<Rightarrow> lex_error + token list" where
  "lex source = lex_bounded source limits_generous"

end
