(* ===== verification/Syntax_Tokens.thy ===== *)
theory Syntax_Tokens
  imports Syntax_Lexer
begin

text \<open>
  What the lexer of \<open>brix-syntax\<close> promises: a source is its tokens' spellings between white space and comments, read left
  to right, each token carries the position of its first character, and the limits refuse but never change a result.
\<close>

section \<open>Spellings\<close>

fun symbol_codes :: "symbol_kind \<Rightarrow> codes" where
  "symbol_codes OpenBrace = [123]"
| "symbol_codes CloseBrace = [125]"
| "symbol_codes OpenParen = [40]"
| "symbol_codes CloseParen = [41]"
| "symbol_codes OpenBracket = [91]"
| "symbol_codes CloseBracket = [93]"
| "symbol_codes Colon = [58]"
| "symbol_codes ColonColon = [58, 58]"
| "symbol_codes Equals = [61]"
| "symbol_codes Pipe = [124]"
| "symbol_codes Comma = [44]"
| "symbol_codes Dot = [46]"
| "symbol_codes At = [64]"
| "symbol_codes FatArrow = [61, 62]"
| "symbol_codes Plus = [43]"
| "symbol_codes Minus = [45]"
| "symbol_codes Star = [42]"
| "symbol_codes Slash = [47]"
| "symbol_codes Lt = [60]"
| "symbol_codes Le = [60, 61]"
| "symbol_codes Gt = [62]"
| "symbol_codes Ge = [62, 61]"
| "symbol_codes EqEq = [61, 61]"
| "symbol_codes Ne = [33, 61]"
| "symbol_codes AmpAmp = [38, 38]"
| "symbol_codes PipePipe = [124, 124]"
| "symbol_codes Bang = [33]"
| "symbol_codes Underscore = [95]"

text \<open>The value a string literal's body denotes; a body has no unescaped quote and no dangling backslash.\<close>

fun body_value :: "codes \<Rightarrow> codes option" where
  "body_value [] = Some []"
| "body_value (c # cs) =
     (if c = 34 then None
      else if c = 92 then (case cs of [] \<Rightarrow> None | e # cs \<Rightarrow> map_option ((#) (unescape e)) (body_value cs))
      else map_option ((#) c) (body_value cs))"

definition word_like :: "codes \<Rightarrow> bool" where
  "word_like w \<longleftrightarrow> w \<noteq> [] \<and> ident_start (hd w) \<and> list_all ident_part w"

definition digits :: "codes \<Rightarrow> bool" where
  "digits a \<longleftrightarrow> a \<noteq> [] \<and> list_all is_digit a"

fun spells :: "token_kind \<Rightarrow> codes \<Rightarrow> bool" where
  "spells (Keyword k) s \<longleftrightarrow> keyword_of s = Some k"
| "spells (Ident x) s \<longleftrightarrow> s = x \<and> word_like x \<and> x \<noteq> [95] \<and> keyword_of x = None"
| "spells (Num x) s \<longleftrightarrow> s = x \<and> (digits x \<or> (\<exists>a b. x = a @ 46 # b \<and> digits a \<and> digits b))"
| "spells (Str v) s \<longleftrightarrow> (\<exists>body. s = 34 # body @ [34] \<and> body_value body = Some v)"
| "spells (Symbol y) s \<longleftrightarrow> s = symbol_codes y"
| "spells Eof s \<longleftrightarrow> False"

inductive trivia :: "codes \<Rightarrow> bool" where
  none: "trivia []"
| space: "is_space c \<Longrightarrow> trivia t \<Longrightarrow> trivia (c # t)"
| comment: "10 \<notin> set body \<Longrightarrow> trivia (10 # t) \<Longrightarrow> trivia (47 # 47 # body @ 10 # t)"

definition last_trivia :: "codes \<Rightarrow> bool" where
  "last_trivia e \<longleftrightarrow> trivia e \<or> (\<exists>t body. e = t @ 47 # 47 # body \<and> trivia t \<and> 10 \<notin> set body)"

text \<open>Positions are counted over the text.\<close>

fun advance :: "codes \<Rightarrow> nat \<times> nat \<Rightarrow> nat \<times> nat" where
  "advance [] p = p"
| "advance (c # cs) (ln, column) = advance cs (if c = 10 then (ln + 1, 1) else (ln, column + 1))"

type_synonym piece = "codes \<times> codes \<times> token_kind"

definition token_at :: "token_kind \<Rightarrow> nat \<times> nat \<Rightarrow> token" where
  "token_at k p = \<lparr>kind = k, line = fst p, col = snd p\<rparr>"

fun text_of :: "piece list \<Rightarrow> codes \<Rightarrow> codes" where
  "text_of [] e = e"
| "text_of ((t, s, k) # ps) e = t @ s @ text_of ps e"

fun place :: "piece list \<Rightarrow> codes \<Rightarrow> nat \<times> nat \<Rightarrow> token list" where
  "place [] e p = [token_at Eof (advance e p)]"
| "place ((t, s, k) # ps) e p = token_at k (advance t p) # place ps e (advance s (advance t p))"

definition pieces_ok :: "piece list \<Rightarrow> bool" where
  "pieces_ok ps \<longleftrightarrow> list_all (\<lambda>(t, s, k). trivia t \<and> spells k s) ps"

definition kinds :: "piece list \<Rightarrow> token_kind list" where
  "kinds ps = map (\<lambda>(t, s, k). k) ps"

text \<open>A line break behind a backslash, which the lexer does not count.\<close>

definition escaped_break :: "codes \<Rightarrow> bool" where
  "escaped_break s \<longleftrightarrow> (\<exists>a b. s = a @ 92 # 10 # b)"

definition breaks_visible :: "piece list \<Rightarrow> bool" where
  "breaks_visible ps \<longleftrightarrow> list_all (\<lambda>(t, s, k). \<not> escaped_break s) ps"

lemma advance_append: "advance (a @ b) p = advance b (advance a p)"
  by (induction a p rule: advance.induct) simp_all

lemma advance_flat: "10 \<notin> set a \<Longrightarrow> advance a (ln, column) = (ln, column + length a)"
  by (induction a arbitrary: column) auto

lemma kinds_place: "map kind (place ps e p) = kinds ps @ [Eof]"
  by (induction ps e p rule: place.induct) (simp_all add: kinds_def token_at_def)

section \<open>The scanners\<close>

lemma take_digits_split:
  "take_digits acc cs column = (x, rest, c) \<Longrightarrow>
   \<exists>a. cs = a @ rest \<and> x = acc @ a \<and> list_all is_digit a \<and> c = column + length a \<and> (rest = [] \<or> \<not> is_digit (hd rest))"
proof (induction acc cs column rule: take_digits.induct)
  case (2 acc d cs column)
  show ?case
  proof (cases "is_digit d")
    case True
    with 2 obtain a where "cs = a @ rest" "x = (acc @ [d]) @ a" "list_all is_digit a" "c = column + 1 + length a"
      "rest = [] \<or> \<not> is_digit (hd rest)" by auto
    with True show ?thesis by (intro exI[of _ "d # a"]) simp
  qed (use 2 in auto)
qed simp

lemma take_digits_all:
  "list_all is_digit a \<Longrightarrow> rest = [] \<or> \<not> is_digit (hd rest) \<Longrightarrow> take_digits acc (a @ rest) column = (acc @ a, rest, column + length a)"
proof (induction a arbitrary: acc column)
  case Nil
  then show ?case by (cases rest) auto
qed simp

lemma take_ident_split:
  "take_ident acc cs column = (x, rest, c) \<Longrightarrow>
   \<exists>a. cs = a @ rest \<and> x = acc @ a \<and> list_all ident_part a \<and> c = column + length a \<and> (rest = [] \<or> \<not> ident_part (hd rest))"
proof (induction acc cs column rule: take_ident.induct)
  case (2 acc d cs column)
  show ?case
  proof (cases "ident_part d")
    case True
    with 2 obtain a where "cs = a @ rest" "x = (acc @ [d]) @ a" "list_all ident_part a" "c = column + 1 + length a"
      "rest = [] \<or> \<not> ident_part (hd rest)" by auto
    with True show ?thesis by (intro exI[of _ "d # a"]) simp
  qed (use 2 in auto)
qed simp

lemma take_ident_all:
  "list_all ident_part a \<Longrightarrow> rest = [] \<or> \<not> ident_part (hd rest) \<Longrightarrow> take_ident acc (a @ rest) column = (acc @ a, rest, column + length a)"
proof (induction a arbitrary: acc column)
  case Nil
  then show ?case by (cases rest) auto
qed simp

lemma skip_comment_split:
  "skip_comment cs column = (rest, c) \<Longrightarrow>
   \<exists>body. cs = body @ rest \<and> 10 \<notin> set body \<and> c = column + length body \<and> (rest = [] \<or> hd rest = 10)"
proof (induction cs column rule: skip_comment.induct)
  case (2 d cs column)
  show ?case
  proof (cases "d = 10")
    case False
    with 2 obtain body where "cs = body @ rest" "10 \<notin> set body" "c = column + 1 + length body" "rest = [] \<or> hd rest = 10" by auto
    with False show ?thesis by (intro exI[of _ "d # body"]) simp
  qed (use 2 in auto)
qed simp

lemma skip_comment_all:
  "10 \<notin> set body \<Longrightarrow> rest = [] \<or> hd rest = 10 \<Longrightarrow> skip_comment (body @ rest) column = (rest, column + length body)"
proof (induction body arbitrary: column)
  case Nil
  then show ?case by (cases rest) auto
qed auto

lemma escaped_break_Cons: "escaped_break s \<Longrightarrow> escaped_break (c # s)"
  unfolding escaped_break_def by (metis append_Cons)

lemma escaped_break_append: "escaped_break a \<Longrightarrow> escaped_break (a @ b)"
  unfolding escaped_break_def by (metis append_assoc append_Cons)

lemma lex_string_split:
  "lex_string acc cs ln column = Inr (v, rest, l, c) \<Longrightarrow>
   \<exists>body w. cs = body @ 34 # rest \<and> body_value body = Some w \<and> v = acc @ w \<and>
     (\<not> escaped_break body \<longrightarrow> (l, c) = advance (body @ [34]) (ln, column))"
proof (induction acc cs ln column rule: lex_string.induct)
  case (2 acc d cs ln column)
  consider (quote) "d = 34" | (escape) e cs' where "d = 92" "cs = e # cs'" | (dangling) "d = 92" "cs = []"
    | (break) "d = 10" | (plain) "d \<noteq> 34" "d \<noteq> 92" "d \<noteq> 10"
    by (cases cs) auto
  then show ?case
  proof cases
    case quote
    with 2 show ?thesis by (intro exI[of _ "[]"]) simp
  next
    case escape
    with "2.prems" have "lex_string (acc @ [unescape e]) cs' ln (column + 2) = Inr (v, rest, l, c)" by simp
    with "2.IH"(1) escape have "\<exists>body w. cs' = body @ 34 # rest \<and> body_value body = Some w \<and> v = (acc @ [unescape e]) @ w \<and>
        (\<not> escaped_break body \<longrightarrow> (l, c) = advance (body @ [34]) (ln, column + 2))" by simp
    then obtain body w where b: "cs' = body @ 34 # rest" "body_value body = Some w" "v = acc @ unescape e # w"
      "\<not> escaped_break body \<Longrightarrow> (l, c) = advance (body @ [34]) (ln, column + 2)" by auto
    have "e \<noteq> 10" if "\<not> escaped_break (92 # e # body)" using that unfolding escaped_break_def by (metis append_Nil)
    moreover have "\<not> escaped_break body" if "\<not> escaped_break (92 # e # body)" using that escaped_break_Cons by blast
    ultimately show ?thesis using escape b
      by (intro exI[of _ "92 # e # body"] exI[of _ "unescape e # w"]) auto
  next
    case break
    with "2.prems" "2.IH"(2) have "\<exists>body w. cs = body @ 34 # rest \<and> body_value body = Some w \<and> v = (acc @ [10]) @ w \<and>
        (\<not> escaped_break body \<longrightarrow> (l, c) = advance (body @ [34]) (ln + 1, 1))" by simp
    then obtain body w where "cs = body @ 34 # rest" "body_value body = Some w" "v = acc @ 10 # w"
      "\<not> escaped_break body \<longrightarrow> (l, c) = advance (body @ [34]) (ln + 1, 1)" by auto
    with break show ?thesis by (intro exI[of _ "10 # body"] exI[of _ "10 # w"]) (auto dest: escaped_break_Cons)
  next
    case plain
    with "2.prems" "2.IH"(3) have "\<exists>body w. cs = body @ 34 # rest \<and> body_value body = Some w \<and> v = (acc @ [d]) @ w \<and>
        (\<not> escaped_break body \<longrightarrow> (l, c) = advance (body @ [34]) (ln, column + 1))" by simp
    then obtain body w where "cs = body @ 34 # rest" "body_value body = Some w" "v = acc @ d # w"
      "\<not> escaped_break body \<longrightarrow> (l, c) = advance (body @ [34]) (ln, column + 1)" by auto
    with plain show ?thesis by (intro exI[of _ "d # body"] exI[of _ "d # w"]) (auto dest: escaped_break_Cons)
  qed (use 2 in simp)
qed simp

lemma lex_string_all:
  "body_value body = Some w \<Longrightarrow> \<exists>l c. lex_string acc (body @ 34 # rest) ln column = Inr (acc @ w, rest, l, c)"
proof (induction body arbitrary: acc ln column w rule: body_value.induct)
  case (2 c cs)
  consider (escape) e cs' z where "c = 92" "cs = e # cs'" "body_value cs' = Some z" "w = unescape e # z"
    | (plain) z where "c \<noteq> 34" "c \<noteq> 92" "body_value cs = Some z" "w = c # z"
    using "2.prems" by (auto split: if_splits list.splits)
  then show ?case
  proof cases
    case escape
    with "2.IH"(1)[of e cs' z "acc @ [unescape e]" ln "column + 2"] show ?thesis by simp
  next
    case plain
    with "2.IH"(2)[of z "acc @ [c]"] show ?thesis by (cases "c = 10") simp_all
  qed
qed simp

section \<open>One token\<close>

lemma digit_plain: "is_digit c \<Longrightarrow> c \<noteq> 10 \<and> c \<noteq> 34 \<and> c \<noteq> 47 \<and> \<not> is_space c \<and> \<not> ident_start c"
  by (auto simp: is_digit_def is_space_def ident_start_def is_alpha_def)

lemma ident_plain: "ident_part c \<Longrightarrow> c \<noteq> 10 \<and> c \<noteq> 34 \<and> c \<noteq> 47 \<and> \<not> is_space c"
  by (auto simp: is_digit_def is_space_def ident_part_def is_alpha_def)

lemma ident_start_plain: "ident_start c \<Longrightarrow> ident_part c \<and> \<not> is_digit c"
  by (auto simp: is_digit_def ident_start_def ident_part_def is_alpha_def)

lemma digits_flat: "list_all is_digit a \<Longrightarrow> 10 \<notin> set a"
  using digit_plain by (auto simp: list_all_iff)

lemma ident_flat: "list_all ident_part a \<Longrightarrow> 10 \<notin> set a"
  using ident_plain by (auto simp: list_all_iff)

lemma lex_number_split:
  assumes "lex_number (ch # cs) column = (x, rest, c)" "is_digit ch"
  shows "ch # cs = x @ rest \<and> spells (Num x) x \<and> 10 \<notin> set x \<and> c = column + length x"
proof -
  obtain n r c1 where t: "take_digits [] (ch # cs) column = (n, r, c1)" by (cases "take_digits [] (ch # cs) column") auto
  from take_digits_split[OF t] have n: "ch # cs = n @ r" "list_all is_digit n" "c1 = column + length n" "r = [] \<or> \<not> is_digit (hd r)" by auto
  then have d: "digits n" using assms(2) by (cases n) (auto simp: digits_def)
  consider e tl where "r = 46 # e # tl" "is_digit e" | "(x, rest, c) = (n, r, c1)"
    using assms(1) t by (auto simp: lex_number_def split: list.splits if_splits)
  then show ?thesis
  proof cases
    case 1
    then have "take_digits (n @ [46]) (e # tl) (c1 + 1) = (x, rest, c)" using assms(1) t by (simp add: lex_number_def)
    from take_digits_split[OF this] obtain a where a: "e # tl = a @ rest" "x = (n @ [46]) @ a" "list_all is_digit a" "c = c1 + 1 + length a" by auto
    then have "digits a" using 1 take_digits_split[OF \<open>take_digits (n @ [46]) (e # tl) (c1 + 1) = (x, rest, c)\<close>] by (cases a) (auto simp: digits_def)
    with a n d 1 show ?thesis by (auto simp: digits_flat)
  qed (use n d in \<open>auto simp: digits_flat\<close>)
qed

lemma symbol_at_split: "symbol_at ch rest = Inr (y, n) \<Longrightarrow> 1 \<le> n \<and> ch # rest = symbol_codes y @ drop (n - 1) rest \<and> n = length (symbol_codes y)"
  unfolding symbol_at_def Let_def by (auto split: if_splits list.splits)

lemma symbol_codes_flat: "10 \<notin> set (symbol_codes y)"
  by (cases y) simp_all

lemma word_kind_spells: "word_like x \<Longrightarrow> spells (word_kind x) x"
  by (auto simp: word_kind_def split: option.splits)

lemma lex_token_split:
  assumes "lex_token ch rest ln column = Inr (k, rest', l, c)"
  shows "\<exists>s. ch # rest = s @ rest' \<and> spells k s \<and> (\<not> escaped_break s \<longrightarrow> (l, c) = advance s (ln, column))"
proof -
  consider (number) "is_digit ch" | (string) "ch = 34" | (word) "ident_start ch" | (symbol) "\<not> is_digit ch" "ch \<noteq> 34" "\<not> ident_start ch"
    by blast
  then show ?thesis
  proof cases
    case number
    then obtain x where "lex_number (ch # rest) column = (x, rest', c)" "k = Num x" "l = ln" using assms
      by (auto simp: lex_token_def split: prod.splits)
    with lex_number_split[OF this(1) number] show ?thesis by (auto simp: advance_flat)
  next
    case string
    then obtain v where v: "lex_string [] rest ln (column + 1) = Inr (v, rest', l, c)" "k = Str v" using assms
      by (auto simp: lex_token_def is_digit_def split: sum.splits prod.splits)
    from lex_string_split[OF v(1)] obtain body where b: "rest = body @ 34 # rest'" "body_value body = Some v"
      "\<not> escaped_break body \<Longrightarrow> (l, c) = advance (body @ [34]) (ln, column + 1)" by auto
    have "\<not> escaped_break body" if "\<not> escaped_break (34 # body @ [34])"
      using that escaped_break_Cons escaped_break_append by blast
    with b v(2) string show ?thesis by (intro exI[of _ "34 # body @ [34]"]) auto
  next
    case word
    then have w: "\<not> is_digit ch" "ch \<noteq> 34" using ident_start_plain ident_plain by auto
    then obtain x where x: "take_ident [] (ch # rest) column = (x, rest', c)" "k = word_kind x" "l = ln" using assms word
      by (auto simp: lex_token_def split: prod.splits)
    from take_ident_split[OF x(1)] have a: "ch # rest = x @ rest'" "list_all ident_part x" "c = column + length x"
      "rest' = [] \<or> \<not> ident_part (hd rest')" by auto
    then have "word_like x" using word ident_start_plain by (cases x) (auto simp: word_like_def)
    with a x show ?thesis by (intro exI[of _ x]) (auto simp: word_kind_spells ident_flat advance_flat)
  next
    case symbol
    then obtain y n where "symbol_at ch rest = Inr (y, n)" "k = Symbol y" "rest' = drop (n - 1) rest" "l = ln" "c = column + n"
      using assms by (auto simp: lex_token_def split: sum.splits)
    with symbol_at_split[OF this(1)] show ?thesis by (auto simp: symbol_codes_flat advance_flat)
  qed
qed

section \<open>The main loop reads spellings between trivia\<close>

lemma trivia_append: "trivia a \<Longrightarrow> trivia b \<Longrightarrow> trivia (a @ b)"
proof (induction rule: trivia.induct)
  case (comment body t)
  then show ?case using trivia.comment[of body "t @ b"] by simp
qed (auto intro: trivia.intros)

lemma last_trivia_append: "trivia a \<Longrightarrow> last_trivia b \<Longrightarrow> last_trivia (a @ b)"
  unfolding last_trivia_def by (metis trivia_append append_assoc)

lemma spells_nonempty: "spells k s \<Longrightarrow> s \<noteq> []"
proof (cases k)
  case (Keyword kw)
  have "keyword_of [] = None" by code_simp
  then show "spells k s \<Longrightarrow> s \<noteq> []" using Keyword by auto
next
  case (Symbol y)
  then show "spells k s \<Longrightarrow> s \<noteq> []" by (cases y) auto
qed (auto simp: word_like_def digits_def)

text \<open>Trivia in front of the first token or of the end.\<close>

fun prefix_trivia :: "codes \<Rightarrow> piece list \<times> codes \<Rightarrow> piece list \<times> codes" where
  "prefix_trivia t ([], e) = ([], t @ e)"
| "prefix_trivia t ((u, s, k) # ps, e) = ((t @ u, s, k) # ps, e)"

lemma prefix_trivia_text: "prefix_trivia t (ps, e) = (ps', e') \<Longrightarrow> text_of ps' e' = t @ text_of ps e \<and> kinds ps' = kinds ps"
  by (cases "(t, (ps, e))" rule: prefix_trivia.cases) (auto simp: kinds_def)

lemma prefix_trivia_ok:
  "prefix_trivia t (ps, e) = (ps', e') \<Longrightarrow> trivia t \<Longrightarrow> pieces_ok ps \<Longrightarrow> last_trivia e \<Longrightarrow> pieces_ok ps' \<and> last_trivia e'"
  by (cases "(t, (ps, e))" rule: prefix_trivia.cases) (auto simp: pieces_ok_def trivia_append last_trivia_append)

lemma prefix_trivia_place:
  "prefix_trivia t (ps, e) = (ps', e') \<Longrightarrow> place ps' e' p = place ps e (advance t p) \<and> (breaks_visible ps' \<longleftrightarrow> breaks_visible ps)"
  by (cases "(t, (ps, e))" rule: prefix_trivia.cases) (auto simp: advance_append breaks_visible_def)

lemma keyword_words: "list_all (\<lambda>(s, k). word_like (codes_of s) \<and> codes_of s \<noteq> [95]) keyword_table"
  by code_simp

lemma keyword_of_word: "keyword_of s = Some k \<Longrightarrow> word_like s \<and> s \<noteq> [95]"
proof -
  assume "keyword_of s = Some k"
  then have "(s, k) \<in> set (map (\<lambda>(s, k). (codes_of s, k)) keyword_table)" unfolding keyword_of_def by (rule map_of_SomeD)
  then show ?thesis using keyword_words by (auto simp: list_all_iff)
qed

lemma spells_head: "spells k s \<Longrightarrow> \<exists>c s'. s = c # s' \<and> \<not> is_space c"
proof (cases k)
  case (Keyword kw)
  then show "spells k s \<Longrightarrow> ?thesis" using keyword_of_word[of s kw] ident_start_plain ident_plain
    by (cases s) (auto simp: word_like_def)
next
  case (Ident x)
  then show "spells k s \<Longrightarrow> ?thesis" using ident_start_plain ident_plain by (cases s) (auto simp: word_like_def)
next
  case (Num x)
  then show "spells k s \<Longrightarrow> ?thesis" using digit_plain by (cases s) (auto simp: digits_def Cons_eq_append_conv)
next
  case (Str v)
  then show "spells k s \<Longrightarrow> ?thesis" by (auto simp: is_space_def)
next
  case (Symbol y)
  then show "spells k s \<Longrightarrow> ?thesis" by (cases y) (auto simp: is_space_def)
qed simp

lemma is_space_break [simp]: "is_space 10"
  by (simp add: is_space_def)

lemma prefix_comment_ok:
  assumes "10 \<notin> set body" "text_of ps e = [] \<or> hd (text_of ps e) = 10" "pieces_ok ps" "last_trivia e"
    "prefix_trivia (47 # 47 # body) (ps, e) = (ps', e')"
  shows "pieces_ok ps' \<and> last_trivia e'"
proof (cases ps)
  case Nil
  have "last_trivia (47 # 47 # body @ e)"
  proof (cases e)
    case (Cons c r)
    then have c: "c = 10" using Nil assms(2) by simp
    from assms(4) consider "trivia e" | t b where "e = t @ 47 # 47 # b" "trivia t" "10 \<notin> set b" unfolding last_trivia_def by blast
    then show ?thesis
    proof cases
      case 1
      then show ?thesis using Cons c trivia.comment[OF assms(1)] by (simp add: last_trivia_def)
    next
      case 2
      then obtain t' where "t = 10 # t'" using Cons c by (cases t) auto
      then have "trivia (47 # 47 # body @ t)" using 2 trivia.comment[OF assms(1)] by simp
      moreover have "47 # 47 # body @ e = (47 # 47 # body @ t) @ 47 # 47 # b" using 2 by simp
      ultimately show ?thesis unfolding last_trivia_def using 2(3) by blast
    qed
  next
    case Nil
    have "47 # 47 # body @ [] = [] @ 47 # 47 # body" by simp
    then show ?thesis unfolding last_trivia_def using Nil assms(1) trivia.none by blast
  qed
  then show ?thesis using assms(5) Nil by (auto simp: pieces_ok_def)
next
  case (Cons x qs)
  obtain t s k where x: "x = (t, s, k)" by (cases x)
  with Cons assms(3) have ts: "trivia t" "spells k s" by (auto simp: pieces_ok_def)
  from spells_head[OF ts(2)] obtain c s' where "s = c # s'" "\<not> is_space c" by blast
  then obtain t' where "t = 10 # t'" using assms(2) Cons x by (cases t) auto
  then have "trivia (47 # 47 # body @ t)" using ts trivia.comment[OF assms(1)] by simp
  then show ?thesis using assms(3,4,5) Cons x by (auto simp: pieces_ok_def)
qed

text \<open>What the loop has read from a position on: the pieces up to the end, and the tokens they give.\<close>

definition reads :: "codes \<Rightarrow> nat \<times> nat \<Rightarrow> token list \<Rightarrow> token list \<Rightarrow> bool" where
  "reads cs p toks toks' \<longleftrightarrow>
     (\<exists>ps e ts. cs = text_of ps e \<and> pieces_ok ps \<and> last_trivia e \<and> toks' = toks @ ts \<and> map kind ts = kinds ps @ [Eof] \<and>
        (breaks_visible ps \<longrightarrow> ts = place ps e p))"

lemma readsI:
  "cs = text_of ps e \<Longrightarrow> pieces_ok ps \<Longrightarrow> last_trivia e \<Longrightarrow> toks' = toks @ ts \<Longrightarrow> map kind ts = kinds ps @ [Eof] \<Longrightarrow>
   (breaks_visible ps \<Longrightarrow> ts = place ps e p) \<Longrightarrow> reads cs p toks toks'"
  unfolding reads_def by blast

lemma reads_end: "reads [] p toks (toks @ [token_at Eof p])"
  by (rule readsI[of _ "[]" "[]"]) (simp_all add: pieces_ok_def last_trivia_def trivia.none kinds_def token_at_def)

lemma reads_prefix:
  assumes "reads cs (advance t p) toks toks'"
    and ok: "\<And>ps e ps' e'. cs = text_of ps e \<Longrightarrow> pieces_ok ps \<Longrightarrow> last_trivia e \<Longrightarrow> prefix_trivia t (ps, e) = (ps', e') \<Longrightarrow>
      pieces_ok ps' \<and> last_trivia e'"
  shows "reads (t @ cs) p toks toks'"
proof -
  from assms(1) obtain ps e ts where r: "cs = text_of ps e" "pieces_ok ps" "last_trivia e" "toks' = toks @ ts"
    "map kind ts = kinds ps @ [Eof]" "breaks_visible ps \<longrightarrow> ts = place ps e (advance t p)" unfolding reads_def by blast
  obtain ps' e' where px: "prefix_trivia t (ps, e) = (ps', e')" by (cases "prefix_trivia t (ps, e)")
  show ?thesis
    using r ok[OF r(1,2,3) px] prefix_trivia_text[OF px] prefix_trivia_place[OF px, of p]
    by (intro readsI[of _ ps' e' _ _ ts]) simp_all
qed

lemma reads_token:
  assumes "reads cs q (toks @ [token_at k p]) toks'" and "spells k s" and "\<not> escaped_break s \<longrightarrow> q = advance s p"
  shows "reads (s @ cs) p toks toks'"
proof -
  from assms(1) obtain ps e ts where r: "cs = text_of ps e" "pieces_ok ps" "last_trivia e" "toks' = (toks @ [token_at k p]) @ ts"
    "map kind ts = kinds ps @ [Eof]" "breaks_visible ps \<longrightarrow> ts = place ps e q" unfolding reads_def by blast
  then show ?thesis using assms(2,3)
    by (intro readsI[of _ "([], s, k) # ps" e _ _ "token_at k p # ts"])
      (auto simp: pieces_ok_def trivia.none kinds_def token_at_def breaks_visible_def)
qed

lemma lex_loop_reads: "lex_loop lim cs ln column toks = Inr toks' \<Longrightarrow> reads cs (ln, column) toks toks'"
proof (induction lim cs ln column toks rule: lex_loop.induct)
  case (1 lim ln column toks)
  then show ?case using reads_end[of "(ln, column)" toks] by (auto simp: and_then_Inr token_at_def)
next
  case (2 lim ch rest ln column toks)
  consider (comment) r where "ch = 47" "rest = 47 # r" | (space) "\<not> (ch = 47 \<and> (\<exists>r. rest = 47 # r))" "is_space ch"
    | (token) "\<not> (ch = 47 \<and> (\<exists>r. rest = 47 # r))" "\<not> is_space ch" by blast
  then show ?case
  proof cases
    case comment
    obtain rest' c where sk: "skip_comment r (column + 2) = (rest', c)" by (cases "skip_comment r (column + 2)") auto
    from skip_comment_split[OF sk] obtain body where b: "r = body @ rest'" "10 \<notin> set body" "c = column + 2 + length body"
      "rest' = [] \<or> hd rest' = 10" by auto
    have "reads rest' (ln, c) toks toks'" using "2.IH"(1) "2.prems" comment sk by simp
    then have "reads rest' (advance (47 # 47 # body) (ln, column)) toks toks'" using b by (simp add: advance_flat)
    then have "reads ((47 # 47 # body) @ rest') (ln, column) toks toks'"
      by (rule reads_prefix) (use b(2,4) prefix_comment_ok in blast)
    then show ?thesis using b comment by simp
  next
    case space
    have "reads rest (advance [ch] (ln, column)) toks toks'" using "2.IH"(2,3) "2.prems" space by (auto split: if_splits)
    moreover have "trivia [ch]" using space trivia.intros by simp
    ultimately have "reads ([ch] @ rest) (ln, column) toks toks'" using prefix_trivia_ok by (intro reads_prefix) blast+
    then show ?thesis by simp
  next
    case token
    then obtain k rest' l c where t: "lex_token ch rest ln column = Inr (k, rest', l, c)"
      "lex_loop lim rest' l c (toks @ [\<lparr>kind = k, line = ln, col = column\<rparr>]) = Inr toks'" "charge_token toks lim = Inr ()"
      using "2.prems" by (auto split: sum.splits prod.splits simp: and_then_Inr)
    have "reads rest' (l, c) (toks @ [token_at k (ln, column)]) toks'"
      using "2.IH"(4)[OF token t(1) refl refl refl t(3)] t(2) by (simp add: token_at_def)
    from lex_token_split[OF t(1)] obtain s where s: "ch # rest = s @ rest'" "spells k s"
      "\<not> escaped_break s \<longrightarrow> (l, c) = advance s (ln, column)" by blast
    show ?thesis unfolding s(1) by (rule reads_token) fact+
  qed
qed

section \<open>Separated spellings are read back\<close>

definition ends_word :: "codes \<Rightarrow> bool" where
  "ends_word cs \<longleftrightarrow> cs = [] \<or> is_space (hd cs)"

fun separated :: "piece list \<Rightarrow> codes \<Rightarrow> bool" where
  "separated [] e = True"
| "separated ((t, s, k) # ps) e \<longleftrightarrow> ends_word (text_of ps e) \<and> separated ps e"

lemma ends_word_stop: "ends_word cs \<Longrightarrow> (cs = [] \<or> \<not> is_digit (hd cs)) \<and> (cs = [] \<or> \<not> ident_part (hd cs))"
  using digit_plain ident_plain by (auto simp: ends_word_def)

lemma ends_word_next: "ends_word cs \<Longrightarrow> c \<notin> {32, 9, 13, 10} \<Longrightarrow> \<not> (\<exists>r. cs = c # r)"
  by (auto simp: ends_word_def is_space_def)

lemma lex_number_all:
  assumes "spells (Num x) x" "ends_word rest"
  shows "\<exists>c. lex_number (x @ rest) column = (x, rest, c)"
proof -
  consider "digits x" | a b where "x = a @ 46 # b" "digits a" "digits b" using assms(1) by auto
  then show ?thesis
  proof cases
    case 1
    moreover have "rest \<noteq> 46 # d # r" for d r using assms(2) ends_word_next[of rest 46] by auto
    ultimately show ?thesis using take_digits_all[of x rest "[]" column] ends_word_stop[OF assms(2)]
      by (auto simp: lex_number_def digits_def split: list.splits)
  next
    case 2
    then obtain d b' where b: "b = d # b'" "is_digit d" by (cases b) (auto simp: digits_def)
    have "take_digits [] (a @ 46 # b @ rest) column = (a, 46 # b @ rest, column + length a)"
      using take_digits_all[of a "46 # b @ rest" "[]" column] 2 by (simp add: digits_def is_digit_def)
    then show ?thesis using 2 b take_digits_all[of b rest "a @ [46]" "column + length a + 1"] ends_word_stop[OF assms(2)]
      by (simp add: lex_number_def digits_def)
  qed
qed

lemma word_kind_eq: "word_like w \<Longrightarrow> spells k w \<Longrightarrow> k \<noteq> Eof \<Longrightarrow> word_kind w = k"
proof (cases k)
  case (Keyword kw)
  then show "word_like w \<Longrightarrow> spells k w \<Longrightarrow> k \<noteq> Eof \<Longrightarrow> ?thesis" using keyword_of_word by (auto simp: word_kind_def)
next
  case (Symbol y)
  then show "word_like w \<Longrightarrow> spells k w \<Longrightarrow> k \<noteq> Eof \<Longrightarrow> ?thesis"
    by (cases y) (auto simp: word_kind_def word_like_def ident_start_def is_alpha_def)
next
  case (Num x)
  then show "word_like w \<Longrightarrow> spells k w \<Longrightarrow> k \<noteq> Eof \<Longrightarrow> ?thesis" using ident_start_plain
    by (cases x) (auto simp: word_like_def digits_def Cons_eq_append_conv)
qed (auto simp: word_kind_def word_like_def ident_start_def is_alpha_def)

lemma lex_word_all:
  assumes "word_like (ch # w)" "ends_word rest"
  shows "\<exists>c. lex_token ch (w @ rest) ln column = Inr (word_kind (ch # w), rest, ln, c)"
proof -
  have "ident_start ch" "list_all ident_part (ch # w)" using assms(1) by (auto simp: word_like_def)
  moreover have "\<not> is_digit ch" "ch \<noteq> 34" using \<open>ident_start ch\<close> ident_start_plain ident_plain by auto
  moreover have "take_ident [] ((ch # w) @ rest) column = (ch # w, rest, column + length (ch # w))"
    using take_ident_all[of "ch # w" rest "[]" column] calculation(2) ends_word_stop[OF assms(2)] by simp
  ultimately show ?thesis by (simp add: lex_token_def)
qed

lemma symbol_at_all:
  assumes "symbol_codes y = ch # w" "ends_word rest" "y \<noteq> Underscore"
  shows "symbol_at ch (w @ rest) = Inr (y, length (ch # w)) \<and> \<not> is_digit ch \<and> ch \<noteq> 34 \<and> \<not> ident_start ch"
proof -
  have n: "\<not> (\<exists>r. rest = c # r)" if "c \<notin> {32, 9, 13, 10}" for c using ends_word_next[OF assms(2) that] .
  have f: "(case rest of [] \<Rightarrow> False | d # _ \<Rightarrow> d = c) \<longleftrightarrow> False" if "c \<notin> {32, 9, 13, 10}" for c
    using n[OF that] by (cases rest) auto
  show ?thesis using assms(1,3)
    by (cases y) (auto simp: symbol_at_def Let_def f is_digit_def ident_start_def is_alpha_def)
qed

lemma lex_token_all:
  assumes "spells k (ch # w)" "ends_word rest"
  shows "\<exists>l c. lex_token ch (w @ rest) ln column = Inr (k, rest, l, c)"
proof -
  consider (word) "word_like (ch # w)" | (number) x where "k = Num x" | (string) v where "k = Str v"
    | (symbol) y where "k = Symbol y" "y \<noteq> Underscore"
  proof (cases k)
    case (Keyword kw)
    then show thesis using assms(1) keyword_of_word that(1) by auto
  next
    case (Symbol y)
    then show thesis using assms(1) that by (cases "y = Underscore") (auto simp: word_like_def ident_start_def ident_part_def)
  qed (use assms(1) that in auto)
  then show ?thesis
  proof cases
    case word
    then have "word_kind (ch # w) = k" using assms(1) by (intro word_kind_eq) auto
    with lex_word_all[OF word assms(2), of ln column] show ?thesis by auto
  next
    case number
    then have x: "x = ch # w" "spells (Num x) x" "is_digit ch" using assms(1) by (auto simp: digits_def Cons_eq_append_conv)
    with lex_number_all[OF x(2) assms(2), of column] number show ?thesis by (auto simp: lex_token_def)
  next
    case string
    then obtain body where b: "ch = 34" "w = body @ [34]" "body_value body = Some v" using assms(1) by auto
    with lex_string_all[OF b(3), of "[]" rest ln "column + 1"] string show ?thesis by (auto simp: lex_token_def is_digit_def)
  next
    case symbol
    then have "symbol_codes y = ch # w" using assms(1) by simp
    from symbol_at_all[OF this assms(2) symbol(2)] symbol show ?thesis by (simp add: lex_token_def)
  qed
qed

lemma lex_loop_trivia:
  "trivia t \<Longrightarrow> lex_loop lim (t @ cs) ln column toks = (case advance t (ln, column) of (l, c) \<Rightarrow> lex_loop lim cs l c toks)"
proof (induction arbitrary: ln column rule: trivia.induct)
  case (space c t)
  have "\<not> (c = 47 \<and> (\<exists>r. t @ cs = 47 # r))" using space(1) by (auto simp: is_space_def)
  with space show ?case by auto
next
  case (comment body t)
  have "lex_loop lim ((47 # 47 # body @ 10 # t) @ cs) ln column toks = lex_loop lim ((10 # t) @ cs) ln (column + 2 + length body) toks"
    using skip_comment_all[OF comment(1), of "10 # t @ cs" "column + 2"] by (simp del: lex_loop.simps(2) add: lex_loop.simps(2)[of lim 47])
  also have "\<dots> = (case advance (10 # t) (ln, column + 2 + length body) of (l, c) \<Rightarrow> lex_loop lim cs l c toks)" by (rule comment.IH)
  also have "advance (10 # t) (ln, column + 2 + length body) = advance (47 # 47 # body @ 10 # t) (ln, column)"
    using comment(1) advance_flat[of body] by (simp add: advance_append)
  finally show ?case .
qed simp

lemma lex_loop_last:
  "last_trivia e \<Longrightarrow> lex_loop lim e ln column toks = (case advance e (ln, column) of (l, c) \<Rightarrow> lex_loop lim [] l c toks)"
  unfolding last_trivia_def
proof (elim disjE exE conjE)
  assume "trivia e"
  from lex_loop_trivia[OF this, of lim "[]"] show ?thesis by simp
next
  fix t body assume e: "e = t @ 47 # 47 # body" "trivia t" "10 \<notin> set body"
  have "lex_loop lim (47 # 47 # body) l c toks = lex_loop lim [] l (c + 2 + length body) toks" for l c
    using skip_comment_all[OF e(3), of "[]" "c + 2"] by (simp del: lex_loop.simps(1))
  with e show ?thesis by (auto simp: lex_loop_trivia advance_append advance_flat simp del: lex_loop.simps split: prod.splits)
qed

lemma lex_loop_separated:
  assumes "pieces_ok ps" "last_trivia e" "separated ps e" "length toks + length ps < max_tokens lim"
  shows "\<exists>toks'. lex_loop lim (text_of ps e) ln column toks = Inr toks' \<and>
    (breaks_visible ps \<longrightarrow> toks' = toks @ place ps e (ln, column)) \<and> map kind toks' = map kind toks @ kinds ps @ [Eof]"
  using assms
proof (induction ps arbitrary: ln column toks)
  case Nil
  then show ?case
    by (cases "advance e (ln, column)") (simp add: lex_loop_last charge_token_def and_then_def token_at_def kinds_def)
next
  case (Cons x ps)
  obtain t s k where x: "x = (t, s, k)" by (cases x)
  with Cons.prems have p: "trivia t" "spells k s" "pieces_ok ps" "ends_word (text_of ps e)" "separated ps e"
    by (auto simp: pieces_ok_def)
  obtain ch w where s: "s = ch # w" "\<not> is_space ch" using spells_head[OF p(2)] by blast
  obtain l c where a: "advance t (ln, column) = (l, c)" by (cases "advance t (ln, column)")
  obtain l' c' where tk: "lex_token ch (w @ text_of ps e) l c = Inr (k, text_of ps e, l', c')"
    using lex_token_all[OF p(2)[unfolded s(1)] p(4)] by blast
  have pos: "(l', c') = advance s (l, c)" if "\<not> escaped_break s"
    using lex_token_split[OF tk] that s(1) by auto
  have noc: "\<not> (ch = 47 \<and> (\<exists>r. w @ text_of ps e = 47 # r))"
  proof
    assume "ch = 47 \<and> (\<exists>r. w @ text_of ps e = 47 # r)"
    moreover have "w = []" if "ch = 47"
    proof (cases k)
      case (Keyword kw)
      then show ?thesis using p(2) s that keyword_of_word[of s kw] by (auto simp: word_like_def ident_start_def is_alpha_def)
    next
      case (Num x)
      then show ?thesis using p(2) s that by (auto simp: digits_def is_digit_def Cons_eq_append_conv)
    next
      case (Symbol y)
      then show ?thesis using p(2) s that by (cases y) auto
    qed (use p(2) s that in \<open>auto simp: word_like_def ident_start_def is_alpha_def\<close>)
    ultimately show False using ends_word_next[OF p(4), of 47] by auto
  qed
  let ?t = "token_at k (l, c)"
  have "lex_loop lim (text_of (x # ps) e) ln column toks = lex_loop lim (text_of ps e) l' c' (toks @ [?t])"
    using Cons.prems(4) p(1) x a s(2) tk noc
    by (simp add: lex_loop_trivia s(1) charge_token_def and_then_def token_at_def) blast
  moreover obtain toks' where "lex_loop lim (text_of ps e) l' c' (toks @ [?t]) = Inr toks'"
    "breaks_visible ps \<longrightarrow> toks' = (toks @ [?t]) @ place ps e (l', c')" "map kind toks' = map kind (toks @ [?t]) @ kinds ps @ [Eof]"
    using Cons.IH[OF p(3) Cons.prems(2) p(5), of "toks @ [?t]" l' c'] Cons.prems(4) by auto
  ultimately show ?case using pos a x by (auto simp: breaks_visible_def kinds_def token_at_def)
qed

section \<open>Limits\<close>

lemma lex_loop_within:
  "lex_loop lim cs ln column toks = Inr toks' \<Longrightarrow> length toks < length toks' \<and> length toks' \<le> max_tokens lim"
proof (induction lim cs ln column toks rule: lex_loop.induct)
  case (2 lim ch rest ln column toks)
  then show ?case
    by (simp add: and_then_Inr split: if_splits prod.splits sum.splits) fastforce+
qed (auto simp: and_then_Inr charge_token_def split: if_splits)

lemma lex_loop_more:
  "lex_loop lim cs ln column toks = Inr toks' \<Longrightarrow> length toks' \<le> max_tokens lim' \<Longrightarrow> lex_loop lim' cs ln column toks = Inr toks'"
proof (induction lim cs ln column toks rule: lex_loop.induct)
  case (1 lim ln column toks)
  then show ?case by (auto simp: and_then_Inr charge_token_def split: if_splits)
next
  case (2 lim ch rest ln column toks)
  consider (comment) "ch = 47 \<and> (\<exists>r. rest = 47 # r)" | (space) "\<not> (ch = 47 \<and> (\<exists>r. rest = 47 # r))" "is_space ch"
    | (token) "\<not> (ch = 47 \<and> (\<exists>r. rest = 47 # r))" "\<not> is_space ch" by blast
  then show ?case
  proof cases
    case comment
    then show ?thesis using "2.IH"(1) "2.prems" by (auto split: prod.splits)
  next
    case space
    then show ?thesis using "2.IH"(2,3) "2.prems" by (auto split: if_splits)
  next
    case token
    then obtain k rest' l c where t: "lex_token ch rest ln column = Inr (k, rest', l, c)" "charge_token toks lim = Inr ()"
      "lex_loop lim rest' l c (toks @ [\<lparr>kind = k, line = ln, col = column\<rparr>]) = Inr toks'"
      using "2.prems" by (auto split: sum.splits prod.splits simp: and_then_Inr)
    have "charge_token toks lim' = Inr ()" using lex_loop_within[OF t(3)] "2.prems"(2) by (simp add: charge_token_def)
    moreover have "lex_loop lim' rest' l c (toks @ [\<lparr>kind = k, line = ln, col = column\<rparr>]) = Inr toks'"
      using "2.IH"(4)[OF token t(1) refl refl refl t(2) t(3) "2.prems"(2)] .
    ultimately show ?thesis using token t(1) by (simp add: and_then_def) blast
  qed
qed

lemma text_of_length: "pieces_ok ps \<Longrightarrow> length ps \<le> length (text_of ps e)"
proof (induction ps)
  case (Cons x ps)
  obtain t s k where x: "x = (t, s, k)" by (cases x)
  with Cons.prems have "1 \<le> length s" using spells_nonempty[of k s] by (cases s) (auto simp: pieces_ok_def)
  moreover have "length ps \<le> length (text_of ps e)" using Cons x by (simp add: pieces_ok_def)
  ultimately show ?case unfolding x by simp
qed simp

lemma source_len_length: "length cs \<le> source_len cs"
  by (induction cs) (auto simp: source_len_def utf8_len_def)

lemma lex_loop_count: "lex_loop lim cs ln column [] = Inr toks \<Longrightarrow> length toks \<le> source_len cs + 1"
proof -
  assume "lex_loop lim cs ln column [] = Inr toks"
  from lex_loop_reads[OF this] obtain ps e where p: "cs = text_of ps e" "pieces_ok ps" "map kind toks = kinds ps @ [Eof]"
    unfolding reads_def by auto
  have "length toks = length ps + 1" using arg_cong[OF p(3), of length] by (simp add: kinds_def)
  then show ?thesis using text_of_length[OF p(2), of e] p(1) source_len_length[of cs] by simp
qed

section \<open>Properties\<close>

text \<open>
  C33. Lexing loses nothing and invents nothing: an accepted source is the concatenation of white space and comments
  with spellings of exactly the tokens returned, in order and with the end marker last; and unless a string
  literal hides a line break behind a backslash, each token carries the line and column where its spelling
  begins.
\<close>

theorem lex_sound:
  assumes "lex_bounded source lim = Inr toks"
  shows "\<exists>ps e. source = text_of ps e \<and> pieces_ok ps \<and> last_trivia e \<and> map kind toks = kinds ps @ [Eof] \<and>
    (breaks_visible ps \<longrightarrow> toks = place ps e (1, 1))"
proof -
  have "lex_loop lim source 1 1 [] = Inr toks" using assms by (auto simp: lex_bounded_def split: if_splits)
  from lex_loop_reads[OF this] show ?thesis unfolding reads_def by auto
qed

text \<open>
  C34. Spellings read back: any sequence of token spellings, each followed by white space or the end of the
  text (\<open>separated\<close>) and none hiding a line break behind a backslash (\<open>breaks_visible\<close>), with any white space and
  comments between, lexes to exactly those tokens at their positions, provided the text is within the byte
  limit and its tokens, the end of the text counted, within the token limit.
\<close>

theorem lex_complete:
  assumes "pieces_ok ps" "last_trivia e" "separated ps e" "breaks_visible ps"
    and "source_len (text_of ps e) \<le> max_source_bytes lim" "length ps < max_tokens lim"
  shows "lex_bounded (text_of ps e) lim = Inr (place ps e (1, 1))"
  using lex_loop_separated[OF assms(1-3), of "[]" lim 1 1] assms(4-6) by (auto simp: lex_bounded_def)

text \<open>
  C35. Limits only refuse: a source is accepted under limits exactly when the unlimited lexer accepts it,
  its length in bytes and the number of its tokens are within the limits, and the tokens are the same.
\<close>

theorem lex_limits_refuse:
  assumes "source_len source < 2 ^ 64 - 1"
  shows "lex_bounded source lim = Inr toks \<longleftrightarrow>
    lex source = Inr toks \<and> source_len source \<le> max_source_bytes lim \<and> length toks \<le> max_tokens lim"
proof -
  have gen: "lex source = lex_loop limits_generous source 1 1 []"
    using assms by (simp add: lex_def lex_bounded_def limits_generous_def)
  have "lex_loop lim source 1 1 [] = Inr toks \<longleftrightarrow> lex source = Inr toks \<and> length toks \<le> max_tokens lim"
  proof (intro iffI conjI)
    assume l: "lex_loop lim source 1 1 [] = Inr toks"
    then have "length toks \<le> max_tokens limits_generous" using lex_loop_count[OF l] assms by (simp add: limits_generous_def)
    with l show "lex source = Inr toks" unfolding gen by (rule lex_loop_more)
    show "length toks \<le> max_tokens lim" using lex_loop_within[OF l] by simp
  next
    assume "lex source = Inr toks \<and> length toks \<le> max_tokens lim"
    then show "lex_loop lim source 1 1 [] = Inr toks" using lex_loop_more gen by metis
  qed
  then show ?thesis by (auto simp: lex_bounded_def)
qed

text \<open>
  A line break behind a backslash in a string literal does not advance the line, so every later token on its line
  is reported one line too early.
\<close>

lemma escaped_break_misplaces:
  "lex [34, 92, 10, 34, 32, 120] =
     Inr [token_at (Str [10]) (1, 1), token_at (Ident [120]) (1, 6), token_at Eof (1, 7)]"
  "advance [34, 92, 10, 34, 32] (1, 1) = (2, 3)"
proof -
  have "keyword_of [120] = None" by code_simp
  then show "lex [34, 92, 10, 34, 32, 120] = Inr [token_at (Str [10]) (1, 1), token_at (Ident [120]) (1, 6), token_at Eof (1, 7)]"
    by (simp add: lex_def lex_bounded_def limits_generous_def source_len_def utf8_len_def is_space_def lex_token_def is_digit_def
        ident_start_def is_alpha_def ident_part_def word_kind_def unescape_def charge_token_def and_then_def token_at_def)
qed simp

text \<open>A line of source: \<open>let x = 1.5 // half\<close>.\<close>

definition demo_source_codes :: codes where
  "demo_source_codes = [108, 101, 116, 32, 120, 32, 61, 32, 49, 46, 53, 32, 47, 47, 32, 104]"

definition demo_pieces :: "piece list" where
  "demo_pieces = [([], [108, 101, 116], Keyword KwLet), ([32], [120], Ident [120]), ([32], [61], Symbol Equals), ([32], [49, 46, 53], Num [49, 46, 53])]"

definition demo_tail :: codes where
  "demo_tail = [32, 47, 47, 32, 104]"

lemma demo_pieces_ok:
  "pieces_ok demo_pieces" "last_trivia demo_tail" "separated demo_pieces demo_tail" "breaks_visible demo_pieces"
  "text_of demo_pieces demo_tail = demo_source_codes"
proof -
  have k: "keyword_of [108, 101, 116] = Some KwLet" "keyword_of [120] = None" by code_simp+
  have "digits [49]" "digits [53]" by (simp_all add: digits_def is_digit_def)
  then have n: "spells (Num [49, 46, 53]) [49, 46, 53]" unfolding spells.simps
    by (intro conjI refl disjI2 exI[of _ "[49]"] exI[of _ "[53]"]) simp_all
  have sp: "is_space 32" by (simp add: is_space_def)
  then have t: "trivia [32]" using trivia.intros by simp
  show "pieces_ok demo_pieces"
    using k n t trivia.none by (simp add: pieces_ok_def demo_pieces_def word_like_def ident_start_def ident_part_def is_alpha_def)
  show "last_trivia demo_tail" unfolding last_trivia_def demo_tail_def
    using t by (intro disjI2 exI[of _ "[32]"] exI[of _ "[32, 104]"]) simp
  show "separated demo_pieces demo_tail" using sp by (simp add: demo_pieces_def demo_tail_def ends_word_def)
  have "\<not> escaped_break s" if "92 \<notin> set s" for s using that by (auto simp: escaped_break_def)
  then show "breaks_visible demo_pieces" by (simp add: breaks_visible_def demo_pieces_def)
  show "text_of demo_pieces demo_tail = demo_source_codes" by (simp add: demo_pieces_def demo_tail_def demo_source_codes_def)
qed

lemma demo_len: "source_len demo_source_codes = 16"
  by (simp add: source_len_def utf8_len_def demo_source_codes_def)

theorem lex_complete_witness:
  "lex_bounded demo_source_codes limits_strict = Inr (place demo_pieces demo_tail (1, 1))"
proof -
  have "length demo_pieces < max_tokens limits_strict" by (simp add: demo_pieces_def limits_strict_def)
  moreover have "source_len (text_of demo_pieces demo_tail) \<le> max_source_bytes limits_strict"
    by (simp add: demo_pieces_ok demo_len limits_strict_def)
  ultimately show ?thesis using lex_complete[OF demo_pieces_ok(1-4)] demo_pieces_ok(5) by simp
qed

lemma demo_lexes: "\<exists>toks. lex_loop limits_strict demo_source_codes 1 1 [] = Inr toks"
  using lex_loop_separated[OF demo_pieces_ok(1-3), of "[]" limits_strict 1 1]
  unfolding demo_pieces_ok(5) by (auto simp: demo_pieces_def limits_strict_def)

lemma demo_lex_strict: "\<exists>toks. lex_bounded demo_source_codes limits_strict = Inr toks"
  using demo_lexes by (simp add: lex_bounded_def demo_len) (simp add: limits_strict_def)

theorem lex_sound_witness:
  "\<exists>ps e. demo_source_codes = text_of ps e \<and> pieces_ok ps \<and> last_trivia e"
  using demo_lex_strict lex_sound by blast

theorem lex_limits_refuse_witness:
  "\<exists>toks. lex demo_source_codes = Inr toks \<and> length toks \<le> 200000"
proof -
  obtain toks where "lex_bounded demo_source_codes limits_strict = Inr toks" using demo_lex_strict by blast
  moreover have "source_len demo_source_codes < 2 ^ 64 - 1" by (simp add: demo_len)
  ultimately show ?thesis using lex_limits_refuse[of demo_source_codes limits_strict toks] by (auto simp: limits_strict_def)
qed

end
