(* ===== verification/KB_Persistent.thy ===== *)
theory KB_Persistent
  imports Ordered_Map
begin

text \<open>
  The structurally shared ordered maps and sets of \<open>crates/brix-kb/src/world/persistent.rs\<close>: AVL trees with the height and
  the size stored in each node. Copying a path before it is written makes sharing invisible, so a map is the
  value of its tree and a clone is the same value. A failing \<open>expect\<close> or \<open>unwrap\<close> is \<open>None\<close>. A mutable
  reference is handed out together with the write its holder performs.
\<close>

section \<open>Nodes\<close>

datatype ('k, 'v) link =
    Nil_Link
  | Node (nkey: 'k) (nvalue: 'v) (nleft: "('k, 'v) link") (nright: "('k, 'v) link") (nheight: nat) (nsize: nat)

fun link_height :: "('k, 'v) link \<Rightarrow> nat" where
  "link_height Nil_Link = 0"
| "link_height (Node _ _ _ _ h _) = h"

fun link_size :: "('k, 'v) link \<Rightarrow> nat" where
  "link_size Nil_Link = 0"
| "link_size (Node _ _ _ _ _ s) = s"

definition refreshed :: "'k \<Rightarrow> 'v \<Rightarrow> ('k, 'v) link \<Rightarrow> ('k, 'v) link \<Rightarrow> ('k, 'v) link" where
  "refreshed k v l r = Node k v l r (1 + max (link_height l) (link_height r)) (1 + link_size l + link_size r)"

fun rotate_left :: "('k, 'v) link \<Rightarrow> ('k, 'v) link option" where
  "rotate_left (Node k v l (Node rk rv rl rr _ _) _ _) = Some (refreshed rk rv (refreshed k v l rl) rr)"
| "rotate_left _ = None"

fun rotate_right :: "('k, 'v) link \<Rightarrow> ('k, 'v) link option" where
  "rotate_right (Node k v (Node lk lv ll lr _ _) r _ _) = Some (refreshed lk lv ll (refreshed k v lr r))"
| "rotate_right _ = None"

definition balance :: "'k \<Rightarrow> 'v \<Rightarrow> ('k, 'v) link \<Rightarrow> ('k, 'v) link \<Rightarrow> ('k, 'v) link option" where
  "balance k v l r =
     (let root = refreshed k v l r in
      if link_height l > link_height r + 1 then
        (case l of
           Nil_Link \<Rightarrow> None
         | Node _ _ ll lr _ _ \<Rightarrow>
             if link_height lr > link_height ll then
               (case rotate_left l of None \<Rightarrow> None | Some l' \<Rightarrow> rotate_right (Node k v l' r (nheight root) (nsize root)))
             else rotate_right root)
      else if link_height r > link_height l + 1 then
        (case r of
           Nil_Link \<Rightarrow> None
         | Node _ _ rl rr _ _ \<Rightarrow>
             if link_height rl > link_height rr then
               (case rotate_right r of None \<Rightarrow> None | Some r' \<Rightarrow> rotate_left (Node k v l r' (nheight root) (nsize root)))
             else rotate_left root)
      else Some root)"

fun link_insert :: "('k :: linorder, 'v) link \<Rightarrow> 'k \<Rightarrow> 'v \<Rightarrow> (('k, 'v) link \<times> 'v option) option" where
  "link_insert Nil_Link key val = Some (Node key val Nil_Link Nil_Link 1 1, None)"
| "link_insert (Node k v l r h s) key val =
     (if key < k then
        (case link_insert l key val of
           None \<Rightarrow> None
         | Some (l, old) \<Rightarrow> map_option (\<lambda>root. (root, old)) (balance k v l r))
      else if k < key then
        (case link_insert r key val of
           None \<Rightarrow> None
         | Some (r, old) \<Rightarrow> map_option (\<lambda>root. (root, old)) (balance k v l r))
      else map_option (\<lambda>root. (root, Some v)) (balance k val l r))"

fun take_min :: "('k, 'v) link \<Rightarrow> (('k, 'v) link \<times> 'k \<times> 'v) option" where
  "take_min Nil_Link = None"
| "take_min (Node k v l r h s) =
     (if l = Nil_Link then Some (r, k, v)
      else case take_min l of
        None \<Rightarrow> None
      | Some (l, mk, mv) \<Rightarrow> map_option (\<lambda>root. (root, mk, mv)) (balance k v l r))"

fun link_remove :: "('k :: linorder, 'v) link \<Rightarrow> 'k \<Rightarrow> (('k, 'v) link \<times> 'v option) option" where
  "link_remove Nil_Link key = Some (Nil_Link, None)"
| "link_remove (Node k v l r h s) key =
     (if key < k then
        (case link_remove l key of
           None \<Rightarrow> None
         | Some (l, old) \<Rightarrow> map_option (\<lambda>root. (root, old)) (balance k v l r))
      else if k < key then
        (case link_remove r key of
           None \<Rightarrow> None
         | Some (r, old) \<Rightarrow> map_option (\<lambda>root. (root, old)) (balance k v l r))
      else if l = Nil_Link then Some (r, Some v)
      else if r = Nil_Link then Some (l, Some v)
      else case take_min r of
        None \<Rightarrow> None
      | Some (r, mk, mv) \<Rightarrow> map_option (\<lambda>root. (root, Some v)) (balance mk mv l r))"

section \<open>Maps\<close>

record ('k, 'v) pmap =
  proot :: "('k, 'v) link"

definition pmap_new :: "('k, 'v) pmap" where
  "pmap_new = \<lparr>proot = Nil_Link\<rparr>"

definition pmap_len :: "('k, 'v) pmap \<Rightarrow> nat" where
  "pmap_len m = link_size (proot m)"

definition pmap_is_empty :: "('k, 'v) pmap \<Rightarrow> bool" where
  "pmap_is_empty m = (case proot m of Nil_Link \<Rightarrow> True | Node _ _ _ _ _ _ \<Rightarrow> False)"

definition pmap_clear :: "('k, 'v) pmap \<Rightarrow> ('k, 'v) pmap" where
  "pmap_clear m = m\<lparr>proot := Nil_Link\<rparr>"

fun link_get :: "('k :: linorder, 'v) link \<Rightarrow> 'k \<Rightarrow> 'v option" where
  "link_get Nil_Link key = None"
| "link_get (Node k v l r _ _) key = (if key < k then link_get l key else if k < key then link_get r key else Some v)"

definition pmap_get :: "('k :: linorder, 'v) pmap \<Rightarrow> 'k \<Rightarrow> 'v option" where
  "pmap_get m key = link_get (proot m) key"

definition pmap_contains_key :: "('k :: linorder, 'v) pmap \<Rightarrow> 'k \<Rightarrow> bool" where
  "pmap_contains_key m key = (pmap_get m key \<noteq> None)"

definition pmap_insert :: "('k :: linorder, 'v) pmap \<Rightarrow> 'k \<Rightarrow> 'v \<Rightarrow> (('k, 'v) pmap \<times> 'v option) option" where
  "pmap_insert m key val =
     (case link_insert (proot m) key val of None \<Rightarrow> None | Some (root, old) \<Rightarrow> Some (m\<lparr>proot := root\<rparr>, old))"

definition pmap_remove :: "('k :: linorder, 'v) pmap \<Rightarrow> 'k \<Rightarrow> (('k, 'v) pmap \<times> 'v option) option" where
  "pmap_remove m key =
     (if \<not> pmap_contains_key m key then Some (m, None)
      else case link_remove (proot m) key of None \<Rightarrow> None | Some (root, old) \<Rightarrow> Some (m\<lparr>proot := root\<rparr>, old))"

fun link_write :: "('k :: linorder, 'v) link \<Rightarrow> 'k \<Rightarrow> ('v \<Rightarrow> 'v) \<Rightarrow> ('k, 'v) link \<times> 'v option" where
  "link_write Nil_Link key write = (Nil_Link, None)"
| "link_write (Node k v l r h s) key write =
     (if key < k then (case link_write l key write of (l, found) \<Rightarrow> (Node k v l r h s, found))
      else if k < key then (case link_write r key write of (r, found) \<Rightarrow> (Node k v l r h s, found))
      else (Node k (write v) l r h s, Some v))"

definition pmap_get_mut :: "('k :: linorder, 'v) pmap \<Rightarrow> 'k \<Rightarrow> ('v \<Rightarrow> 'v) \<Rightarrow> ('k, 'v) pmap \<times> 'v option" where
  "pmap_get_mut m key write =
     (if \<not> pmap_contains_key m key then (m, None)
      else case link_write (proot m) key write of (root, found) \<Rightarrow> (m\<lparr>proot := root\<rparr>, found))"

definition or_insert_with :: "('k :: linorder, 'v) pmap \<Rightarrow> 'k \<Rightarrow> 'v \<Rightarrow> ('v \<Rightarrow> 'v) \<Rightarrow> (('k, 'v) pmap \<times> 'v) option" where
  "or_insert_with m key f write =
     (case (if pmap_contains_key m key then Some m else map_option fst (pmap_insert m key f)) of
        None \<Rightarrow> None
      | Some m \<Rightarrow> (case pmap_get_mut m key write of (m, Some v) \<Rightarrow> Some (m, v) | (_, None) \<Rightarrow> None))"

fun pmap_from_iter :: "('k :: linorder, 'v) pmap \<Rightarrow> ('k \<times> 'v) list \<Rightarrow> ('k, 'v) pmap option" where
  "pmap_from_iter m [] = Some m"
| "pmap_from_iter m ((k, v) # kvs) = (case pmap_insert m k v of None \<Rightarrow> None | Some (m, _) \<Rightarrow> pmap_from_iter m kvs)"

definition pmap_index :: "('k :: linorder, 'v) pmap \<Rightarrow> 'k \<Rightarrow> 'v option" where
  "pmap_index m key = pmap_get m key"

section \<open>Iteration\<close>

text \<open>The stack of the iterator, its top first.\<close>

fun push_left :: "('k, 'v) link \<Rightarrow> ('k, 'v) link list \<Rightarrow> ('k, 'v) link list" where
  "push_left Nil_Link stack = stack"
| "push_left (Node k v l r h s) stack = push_left l (Node k v l r h s # stack)"

fun iter_next :: "('k, 'v) link list \<Rightarrow> (('k \<times> 'v) \<times> ('k, 'v) link list) option" where
  "iter_next (Node k v l r h s # stack) = Some ((k, v), push_left r stack)"
| "iter_next _ = None"

definition pmap_iter :: "('k, 'v) pmap \<Rightarrow> ('k, 'v) link list" where
  "pmap_iter m = push_left (proot m) []"

text \<open>What is left to visit bounds the number of further items.\<close>

fun to_visit :: "('k, 'v) link \<Rightarrow> nat" where
  "to_visit Nil_Link = 0"
| "to_visit (Node _ _ l r _ _) = 1 + to_visit l + to_visit r"

fun stack_visits :: "('k, 'v) link list \<Rightarrow> nat" where
  "stack_visits [] = 0"
| "stack_visits (Nil_Link # stack) = stack_visits stack"
| "stack_visits (Node _ _ _ r _ _ # stack) = 1 + to_visit r + stack_visits stack"

lemma stack_visits_push: "stack_visits (push_left t stack) = to_visit t + stack_visits stack"
  by (induction t stack rule: push_left.induct) simp_all

lemma iter_next_visits: "iter_next stack = Some (e, stack') \<Longrightarrow> stack_visits stack' < stack_visits stack"
  by (induction stack rule: iter_next.induct) (auto simp: stack_visits_push)

function collect :: "('k, 'v) link list \<Rightarrow> ('k \<times> 'v) list" where
  "collect stack = (case iter_next stack of None \<Rightarrow> [] | Some (e, stack') \<Rightarrow> e # collect stack')"
  by pat_completeness auto

termination
  by (relation "measure stack_visits") (auto dest: iter_next_visits)

declare collect.simps [simp del]

definition pmap_entries :: "('k, 'v) pmap \<Rightarrow> ('k \<times> 'v) list" where
  "pmap_entries m = collect (pmap_iter m)"

definition pmap_keys :: "('k, 'v) pmap \<Rightarrow> 'k list" where
  "pmap_keys m = map fst (pmap_entries m)"

definition pmap_values :: "('k, 'v) pmap \<Rightarrow> 'v list" where
  "pmap_values m = map snd (pmap_entries m)"

definition pmap_eq :: "('k, 'v) pmap \<Rightarrow> ('k, 'v) pmap \<Rightarrow> bool" where
  "pmap_eq a b \<longleftrightarrow> pmap_len a = pmap_len b \<and> pmap_entries a = pmap_entries b"

section \<open>Sets\<close>

type_synonym 'k pset = "('k, unit) pmap"

definition pset_insert :: "'k :: linorder pset \<Rightarrow> 'k \<Rightarrow> ('k pset \<times> bool) option" where
  "pset_insert s key = map_option (\<lambda>(m, old). (m, old = None)) (pmap_insert s key ())"

definition pset_remove :: "'k :: linorder pset \<Rightarrow> 'k \<Rightarrow> ('k pset \<times> bool) option" where
  "pset_remove s key = map_option (\<lambda>(m, old). (m, old \<noteq> None)) (pmap_remove s key)"

definition pset_contains :: "'k :: linorder pset \<Rightarrow> 'k \<Rightarrow> bool" where
  "pset_contains s key = pmap_contains_key s key"

definition pset_iter :: "'k pset \<Rightarrow> 'k list" where
  "pset_iter s = pmap_keys s"

definition pset_from_iter :: "'k :: linorder list \<Rightarrow> 'k pset option" where
  "pset_from_iter ks = pmap_from_iter pmap_new (map (\<lambda>k. (k, ())) ks)"

section \<open>Invariants\<close>

fun entries :: "('k, 'v) link \<Rightarrow> ('k \<times> 'v) list" where
  "entries Nil_Link = []"
| "entries (Node k v l r _ _) = entries l @ (k, v) # entries r"

fun avl :: "('k, 'v) link \<Rightarrow> bool" where
  "avl Nil_Link = True"
| "avl (Node k v l r h s) \<longleftrightarrow>
     avl l \<and> avl r \<and> link_height l \<le> link_height r + 1 \<and> link_height r \<le> link_height l + 1 \<and>
     h = 1 + max (link_height l) (link_height r) \<and> s = 1 + link_size l + link_size r"

lemma avl_height_0: "avl t \<Longrightarrow> link_height t = 0 \<longleftrightarrow> t = Nil_Link"
  by (cases t) auto

lemma avl_size: "avl t \<Longrightarrow> link_size t = length (entries t)"
  by (induction t) auto

lemma entries_refreshed [simp]: "entries (refreshed k v l r) = entries l @ (k, v) # entries r"
  by (simp add: refreshed_def)

lemma height_refreshed [simp]: "link_height (refreshed k v l r) = 1 + max (link_height l) (link_height r)"
  by (simp add: refreshed_def)

lemma avl_refreshed [simp]:
  "avl (refreshed k v l r) \<longleftrightarrow> avl l \<and> avl r \<and> link_height l \<le> link_height r + 1 \<and> link_height r \<le> link_height l + 1"
  by (auto simp: refreshed_def)

lemma rotate_refreshed [simp]:
  "rotate_right (Node k v (refreshed lk lv ll lr) r h s) = Some (refreshed lk lv ll (refreshed k v lr r))"
  "rotate_left (Node k v l (refreshed rk rv rl rr) h s) = Some (refreshed rk rv (refreshed k v l rl) rr)"
  "rotate_right (refreshed k v (Node lk lv ll lr lh ls) r) = Some (refreshed lk lv ll (refreshed k v lr r))"
  "rotate_left (refreshed k v l (Node rk rv rl rr rh rs)) = Some (refreshed rk rv (refreshed k v l rl) rr)"
  by (simp_all add: refreshed_def)

text \<open>
  Balancing a node whose sides differ by at most two gives an AVL tree with the same entries. Its height is that
  of the taller side or one more, and exactly one more when nothing was to be done.
\<close>

lemma balance_level:
  "link_height l \<le> link_height r + 1 \<Longrightarrow> link_height r \<le> link_height l + 1 \<Longrightarrow> balance k v l r = Some (refreshed k v l r)"
  by (simp add: balance_def Let_def)

lemma balance_left:
  assumes "avl l" "avl r" "link_height l = link_height r + 2"
  shows "\<exists>t. balance k v l r = Some t \<and> avl t \<and> entries t = entries l @ (k, v) # entries r \<and>
    link_height t \<in> {link_height l, link_height l + 1}"
proof (cases l)
  case (Node lk lv ll lr lh ls)
  show ?thesis
  proof (cases "link_height ll < link_height lr")
    case True
    then obtain rk rv rl rr rh rs where "lr = Node rk rv rl rr rh rs" by (cases lr) auto
    with True Node assms show ?thesis by (auto simp: balance_def Let_def)
  next
    case False
    with Node assms show ?thesis by (auto simp: balance_def Let_def)
  qed
qed (use assms in simp)

lemma balance_right:
  assumes "avl l" "avl r" "link_height r = link_height l + 2"
  shows "\<exists>t. balance k v l r = Some t \<and> avl t \<and> entries t = entries l @ (k, v) # entries r \<and>
    link_height t \<in> {link_height r, link_height r + 1}"
proof (cases r)
  case (Node rk rv rl rr rh rs)
  show ?thesis
  proof (cases "link_height rr < link_height rl")
    case True
    then obtain lk lv ll lr lh ls where "rl = Node lk lv ll lr lh ls" by (cases rl) auto
    with True Node assms show ?thesis by (auto simp: balance_def Let_def)
  next
    case False
    with Node assms show ?thesis by (auto simp: balance_def Let_def)
  qed
qed (use assms in simp)

text \<open>A side changed by at most one: the contract of the recursive calls, for growth and for shrinking.\<close>

definition rebuilt :: "nat \<Rightarrow> nat \<Rightarrow> ('k \<times> 'v) list \<Rightarrow> ('k, 'v) link \<Rightarrow> bool" where
  "rebuilt lo hi es t \<longleftrightarrow> avl t \<and> entries t = es \<and> lo \<le> link_height t \<and> link_height t \<le> hi"

lemma balance_rebuilt:
  assumes "avl l" "avl r" "link_height l \<le> link_height r + 2" "link_height r \<le> link_height l + 2"
  shows "\<exists>t. balance k v l r = Some t \<and>
    rebuilt (max (link_height l) (link_height r)) (1 + max (link_height l) (link_height r)) (entries l @ (k, v) # entries r) t \<and>
    (link_height l \<le> link_height r + 1 \<and> link_height r \<le> link_height l + 1 \<longrightarrow> link_height t = 1 + max (link_height l) (link_height r))"
proof -
  consider "link_height l = link_height r + 2" | "link_height r = link_height l + 2"
    | "link_height l \<le> link_height r + 1" "link_height r \<le> link_height l + 1" using assms(3,4) by linarith
  then show ?thesis
  proof cases
    case 1
    with balance_left[OF assms(1,2)] show ?thesis by (fastforce simp: rebuilt_def)
  next
    case 2
    with balance_right[OF assms(1,2)] show ?thesis by (fastforce simp: rebuilt_def)
  next
    case 3
    with balance_level[of l r k v] assms show ?thesis by (auto simp: rebuilt_def)
  qed
qed

section \<open>Insertion\<close>

lemma bt_insert_append:
  "bt_insert k v (es @ (h, u) # fs) =
     (if k < h then bt_insert k v es @ (h, u) # fs else if k = h then es @ (k, v) # fs else es @ (h, u) # bt_insert k v fs)"
  if "\<forall>e \<in> set es. fst e < h"
  using that by (induction es) (auto dest: less_trans)

lemma bt_wf_append:
  "bt_wf (es @ (h, u) # fs) \<longleftrightarrow> bt_wf es \<and> bt_wf fs \<and> (\<forall>e \<in> set es. fst e < h) \<and> (\<forall>f \<in> set fs. h < fst f)"
  by (auto simp: bt_wf_def sorted_wrt_append dest: less_trans)

lemma bt_get_append:
  assumes "bt_wf (es @ (h, u) # fs)"
  shows "bt_get (es @ (h, u) # fs) k = (if k < h then bt_get es k else if h < k then bt_get fs k else Some u)"
proof -
  have "map_of es k = None" if "h \<le> k" using assms that by (auto simp: bt_wf_append map_of_eq_None_iff)
  moreover have "map_of fs k = None" if "k \<le> h" using assms that by (auto simp: bt_wf_append map_of_eq_None_iff)
  ultimately show ?thesis by (auto simp: bt_get_def map_add_def split: option.splits)
qed

lemma link_get_entries: "bt_wf (entries t) \<Longrightarrow> link_get t key = bt_get (entries t) key"
  by (induction t) (auto simp: bt_get_append, auto simp: bt_wf_append)

lemma link_insert_refines:
  assumes "avl t" "bt_wf (entries t)"
  shows "\<exists>t'. link_insert t key val = Some (t', bt_get (entries t) key) \<and>
    rebuilt (link_height t) (link_height t + 1) (bt_insert key val (entries t)) t'"
  using assms
proof (induction t)
  case (Node k v l r h s)
  note wf = Node.prems(2)[simplified bt_wf_append entries.simps]
  consider "key < k" | "k < key" | "key = k" by force
  then show ?case
  proof cases
    case 1
    from Node.IH(1) Node.prems wf obtain l' where l': "link_insert l key val = Some (l', bt_get (entries l) key)"
      "rebuilt (link_height l) (link_height l + 1) (bt_insert key val (entries l)) l'" by auto
    with balance_rebuilt[of l' r k v] Node.prems show ?thesis
      using 1 wf by (fastforce simp: rebuilt_def bt_insert_append bt_get_append)
  next
    case 2
    from Node.IH(2) Node.prems wf obtain r' where r': "link_insert r key val = Some (r', bt_get (entries r) key)"
      "rebuilt (link_height r) (link_height r + 1) (bt_insert key val (entries r)) r'" by auto
    with balance_rebuilt[of l r' k v] Node.prems show ?thesis
      using 2 wf by (fastforce simp: rebuilt_def bt_insert_append bt_get_append)
  next
    case 3
    with balance_level[of l r k val] Node.prems wf show ?thesis
      by (auto simp: rebuilt_def bt_insert_append bt_get_append)
  qed
qed (simp add: rebuilt_def)


section \<open>Removal\<close>

lemma bt_remove_append: "bt_remove k (es @ e # fs) = bt_remove k es @ (if fst e = k then [] else [e]) @ bt_remove k fs"
  by (simp add: bt_remove_def)

lemma bt_remove_absent: "\<forall>e \<in> set es. fst e \<noteq> k \<Longrightarrow> bt_remove k es = es"
  by (simp add: bt_remove_def filter_id_conv)

lemma take_min_refines:
  assumes "avl t" "t \<noteq> Nil_Link"
  shows "\<exists>t' k v. take_min t = Some (t', k, v) \<and> entries t = (k, v) # entries t' \<and>
    rebuilt (link_height t - 1) (link_height t) (entries t') t'"
  using assms
proof (induction t)
  case (Node k v l r h s)
  show ?case
  proof (cases "l = Nil_Link")
    case False
    with Node obtain l' mk mv where l': "take_min l = Some (l', mk, mv)" "entries l = (mk, mv) # entries l'"
      "rebuilt (link_height l - 1) (link_height l) (entries l') l'" by auto
    with balance_rebuilt[of l' r k v] Node.prems False show ?thesis by (fastforce simp: rebuilt_def)
  qed (use Node.prems in \<open>auto simp: rebuilt_def\<close>)
qed simp

lemma link_remove_refines:
  assumes "avl t" "bt_wf (entries t)"
  shows "\<exists>t'. link_remove t key = Some (t', bt_get (entries t) key) \<and>
    rebuilt (link_height t - 1) (link_height t) (bt_remove key (entries t)) t'"
  using assms
proof (induction t)
  case (Node k v l r h s)
  note wf = Node.prems(2)[simplified bt_wf_append entries.simps]
  have absent: "bt_remove key (entries l) = entries l" if "k \<le> key" using wf that by (auto intro!: bt_remove_absent)
  have absent': "bt_remove key (entries r) = entries r" if "key \<le> k" using wf that by (auto intro!: bt_remove_absent)
  consider "key < k" | "k < key" | "key = k" by force
  then show ?case
  proof cases
    case 1
    from Node.IH(1) Node.prems wf obtain l' where l': "link_remove l key = Some (l', bt_get (entries l) key)"
      "rebuilt (link_height l - 1) (link_height l) (bt_remove key (entries l)) l'" by auto
    with balance_rebuilt[of l' r k v] Node.prems show ?thesis
      using 1 wf absent' by (fastforce simp: rebuilt_def bt_remove_append bt_get_append)
  next
    case 2
    from Node.IH(2) Node.prems wf obtain r' where r': "link_remove r key = Some (r', bt_get (entries r) key)"
      "rebuilt (link_height r - 1) (link_height r) (bt_remove key (entries r)) r'" by auto
    with balance_rebuilt[of l r' k v] Node.prems show ?thesis
      using 2 wf absent by (fastforce simp: rebuilt_def bt_remove_append bt_get_append)
  next
    case 3
    show ?thesis
    proof (cases "l = Nil_Link \<or> r = Nil_Link")
      case True
      with 3 Node.prems wf absent absent' show ?thesis
        by (auto simp: rebuilt_def bt_remove_append bt_get_append)
    next
      case False
      with Node.prems take_min_refines[of r] obtain r' mk mv where r': "take_min r = Some (r', mk, mv)"
        "entries r = (mk, mv) # entries r'" "rebuilt (link_height r - 1) (link_height r) (entries r') r'" by auto
      with balance_rebuilt[of l r' mk mv] Node.prems show ?thesis
        using 3 False wf absent absent' by (fastforce simp: rebuilt_def bt_remove_append bt_get_append)
    qed
  qed
qed (simp add: rebuilt_def bt_remove_def)

section \<open>Writing through a reference and iterating\<close>

lemma link_write_shape:
  "link_height (fst (link_write t key write)) = link_height t" "link_size (fst (link_write t key write)) = link_size t"
  "avl t \<Longrightarrow> avl (fst (link_write t key write))"
  by (induction t) (auto split: prod.splits)

lemma link_write_refines:
  assumes "bt_wf (entries t)"
  shows "snd (link_write t key write) = bt_get (entries t) key \<and>
    entries (fst (link_write t key write)) =
      (case bt_get (entries t) key of None \<Rightarrow> entries t | Some v \<Rightarrow> bt_insert key (write v) (entries t))"
  using assms
proof (induction t)
  case (Node k v l r h s)
  then show ?case
    by (auto simp: bt_get_append bt_insert_append bt_wf_append split: prod.splits option.splits)
qed simp

lemma iter_next_entries:
  "concat (map (\<lambda>t. (case t of Nil_Link \<Rightarrow> [] | Node k v l r h s \<Rightarrow> (k, v) # entries r)) (push_left t stack)) =
   entries t @ concat (map (\<lambda>t. (case t of Nil_Link \<Rightarrow> [] | Node k v l r h s \<Rightarrow> (k, v) # entries r)) stack)"
  by (induction t stack rule: push_left.induct) simp_all

lemma push_left_nodes: "Nil_Link \<notin> set stack \<Longrightarrow> Nil_Link \<notin> set (push_left t stack)"
  by (induction t stack rule: push_left.induct) auto

lemma collect_entries:
  "Nil_Link \<notin> set stack \<Longrightarrow>
   collect stack = concat (map (\<lambda>t. (case t of Nil_Link \<Rightarrow> [] | Node k v l r h s \<Rightarrow> (k, v) # entries r)) stack)"
proof (induction stack rule: collect.induct)
  case (1 stack)
  then show ?case
  proof (cases stack)
    case (Cons t stack')
    with 1 obtain k v l r h s where t: "t = Node k v l r h s" by (cases t) auto
    have "collect (push_left r stack') =
        entries r @ concat (map (\<lambda>t. (case t of Nil_Link \<Rightarrow> [] | Node k v l r h s \<Rightarrow> (k, v) # entries r)) stack')"
      using 1 Cons t by (simp add: push_left_nodes iter_next_entries)
    then show ?thesis using Cons t by (simp add: collect.simps[of "Node k v l r h s # stack'"])
  qed (simp add: collect.simps[of "[]"])
qed

lemma pmap_entries_eq: "pmap_entries m = entries (proot m)"
  by (simp add: pmap_entries_def pmap_iter_def collect_entries push_left_nodes iter_next_entries)


section \<open>The maps refine the ordered entry list\<close>

definition pmap_ok :: "('k :: linorder, 'v) pmap \<Rightarrow> bool" where
  "pmap_ok m \<longleftrightarrow> avl (proot m) \<and> bt_wf (pmap_entries m)"

text \<open>
  The operations a client calls, over any implementation: \<open>insert\<close>, \<open>remove\<close>, a write through \<open>get_mut\<close> and
  a write through an entry that is created when it is absent. The result is the value that was there, and for an entry the
  value the reference starts from.
\<close>

datatype ('k, 'v) map_op =
    InsertOp 'k 'v
  | RemoveOp 'k
  | GetMutOp 'k "'v \<Rightarrow> 'v"
  | EntryOp 'k 'v "'v \<Rightarrow> 'v"

fun bt_op :: "('k :: linorder \<times> 'v) list \<Rightarrow> ('k, 'v) map_op \<Rightarrow> ('k \<times> 'v) list \<times> 'v option" where
  "bt_op es (InsertOp k v) = (bt_insert k v es, bt_get es k)"
| "bt_op es (RemoveOp k) = (bt_remove k es, bt_get es k)"
| "bt_op es (GetMutOp k f) = (case bt_get es k of None \<Rightarrow> (es, None) | Some v \<Rightarrow> (bt_insert k (f v) es, Some v))"
| "bt_op es (EntryOp k d f) = (let v = (case bt_get es k of None \<Rightarrow> d | Some v \<Rightarrow> v) in (bt_insert k (f v) es, Some v))"

fun bt_ops :: "('k :: linorder \<times> 'v) list \<Rightarrow> ('k, 'v) map_op list \<Rightarrow> ('k \<times> 'v) list \<times> 'v option list" where
  "bt_ops es [] = (es, [])"
| "bt_ops es (x # xs) = (case bt_op es x of (es, r) \<Rightarrow> case bt_ops es xs of (es, rs) \<Rightarrow> (es, r # rs))"

fun map_ops :: "('m \<Rightarrow> ('k, 'v) map_op \<Rightarrow> ('m \<times> 'v option) option) \<Rightarrow> 'm \<Rightarrow> ('k, 'v) map_op list \<Rightarrow> ('m \<times> 'v option list) option" where
  "map_ops oper m [] = Some (m, [])"
| "map_ops oper m (x # xs) =
     (case oper m x of
        None \<Rightarrow> None
      | Some (m, r) \<Rightarrow> (case map_ops oper m xs of None \<Rightarrow> None | Some (m, rs) \<Rightarrow> Some (m, r # rs)))"

fun pmap_op :: "('k :: linorder, 'v) pmap \<Rightarrow> ('k, 'v) map_op \<Rightarrow> (('k, 'v) pmap \<times> 'v option) option" where
  "pmap_op m (InsertOp k v) = pmap_insert m k v"
| "pmap_op m (RemoveOp k) = pmap_remove m k"
| "pmap_op m (GetMutOp k f) = Some (pmap_get_mut m k f)"
| "pmap_op m (EntryOp k d f) = map_option (\<lambda>(m, v). (m, Some v)) (or_insert_with m k d f)"

locale map_implementation =
  fixes ents :: "'m \<Rightarrow> ('k :: linorder \<times> 'v) list"
    and ok :: "'m \<Rightarrow> bool"
    and oper :: "'m \<Rightarrow> ('k, 'v) map_op \<Rightarrow> ('m \<times> 'v option) option"
  assumes ok_entries: "ok m \<Longrightarrow> bt_wf (ents m)"
    and oper_refines: "ok m \<Longrightarrow> \<exists>m'. oper m x = Some (m', snd (bt_op (ents m) x)) \<and> ok m' \<and> ents m' = fst (bt_op (ents m) x)"
begin

lemma ops_refine:
  "ok m \<Longrightarrow> \<exists>m'. map_ops oper m xs = Some (m', snd (bt_ops (ents m) xs)) \<and> ok m' \<and> ents m' = fst (bt_ops (ents m) xs)"
proof (induction xs arbitrary: m)
  case (Cons x xs)
  from oper_refines[OF Cons.prems] obtain m1 where m1: "oper m x = Some (m1, snd (bt_op (ents m) x))" "ok m1"
    "ents m1 = fst (bt_op (ents m) x)" by blast
  from Cons.IH[OF m1(2)] m1 show ?case by (auto split: prod.splits)
qed simp

lemma ents_ext: "ok m \<Longrightarrow> ok m' \<Longrightarrow> ents m = ents m' \<longleftrightarrow> bt_get (ents m) = bt_get (ents m')"
  using bt.get_ext ok_entries by metis

end

lemma pmap_ok_new [simp]: "pmap_ok pmap_new"
  by (simp add: pmap_ok_def pmap_new_def pmap_entries_eq)

lemma pmap_get_entries: "pmap_ok m \<Longrightarrow> pmap_get m key = bt_get (pmap_entries m) key"
  by (simp add: pmap_ok_def pmap_get_def pmap_entries_eq link_get_entries)

lemma pmap_insert_refines:
  assumes "pmap_ok m"
  shows "\<exists>m'. pmap_insert m key val = Some (m', bt_get (pmap_entries m) key) \<and> pmap_ok m' \<and> pmap_entries m' = bt_insert key val (pmap_entries m)"
  using link_insert_refines[of "proot m" key val] assms
  by (auto simp: pmap_ok_def pmap_insert_def pmap_entries_eq rebuilt_def bt_wf_insert)

lemma pmap_remove_refines:
  assumes "pmap_ok m"
  shows "\<exists>m'. pmap_remove m key = Some (m', bt_get (pmap_entries m) key) \<and> pmap_ok m' \<and> pmap_entries m' = bt_remove key (pmap_entries m)"
proof (cases "bt_get (pmap_entries m) key")
  case None
  then have "bt_remove key (pmap_entries m) = pmap_entries m"
    by (intro bt_remove_absent) (auto simp: bt_get_def map_of_eq_None_iff)
  with None show ?thesis using assms by (simp add: pmap_remove_def pmap_contains_key_def pmap_get_entries)
next
  case (Some v)
  then show ?thesis using link_remove_refines[of "proot m" key] assms
    by (auto simp: pmap_ok_def pmap_remove_def pmap_contains_key_def pmap_get_entries[OF assms] pmap_entries_eq rebuilt_def bt_wf_remove)
qed

lemma pmap_get_mut_refines:
  assumes "pmap_ok m"
  shows "pmap_ok (fst (pmap_get_mut m key f))"
    and "(pmap_entries (fst (pmap_get_mut m key f)), snd (pmap_get_mut m key f)) = bt_op (pmap_entries m) (GetMutOp key f)"
  using link_write_refines[of "proot m" key f] link_write_shape(3)[of "proot m" key f] assms
  by (auto simp: pmap_ok_def pmap_get_mut_def pmap_contains_key_def pmap_get_entries[OF assms] pmap_entries_eq bt_wf_insert
      split: prod.splits option.splits)

lemma or_insert_with_refines:
  assumes "pmap_ok m"
  shows "\<exists>m' v. or_insert_with m key d f = Some (m', v) \<and> pmap_ok m' \<and>
    (pmap_entries m', Some v) = bt_op (pmap_entries m) (EntryOp key d f)"
proof -
  let ?m = "if pmap_contains_key m key then Some m else map_option fst (pmap_insert m key d)"
  have "\<exists>m1. ?m = Some m1 \<and> pmap_ok m1 \<and> bt_get (pmap_entries m1) key = Some (case bt_get (pmap_entries m) key of None \<Rightarrow> d | Some v \<Rightarrow> v) \<and>
      (\<forall>w. bt_insert key w (pmap_entries m1) = bt_insert key w (pmap_entries m))"
  proof (cases "bt_get (pmap_entries m) key")
    case None
    with pmap_insert_refines[OF assms, of key d] obtain m1 where "pmap_insert m key d = Some (m1, None)" "pmap_ok m1"
      "pmap_entries m1 = bt_insert key d (pmap_entries m)" by auto
    moreover have "bt_insert key w (bt_insert key d (pmap_entries m)) = bt_insert key w (pmap_entries m)" for w
      using assms by (intro bt.get_ext) (auto simp: pmap_ok_def bt_wf_insert bt.get_ins)
    ultimately show ?thesis using None assms by (auto simp: pmap_contains_key_def pmap_get_entries pmap_ok_def bt.get_ins)
  qed (use assms in \<open>auto simp: pmap_contains_key_def pmap_get_entries\<close>)
  then obtain m1 where m1: "?m = Some m1" "pmap_ok m1"
    "bt_get (pmap_entries m1) key = Some (case bt_get (pmap_entries m) key of None \<Rightarrow> d | Some v \<Rightarrow> v)"
    "\<And>w. bt_insert key w (pmap_entries m1) = bt_insert key w (pmap_entries m)" by blast
  show ?thesis using m1 pmap_get_mut_refines[OF m1(2), of key f] unfolding or_insert_with_def m1(1)
    by (cases "pmap_get_mut m1 key f") (auto simp: Let_def)
qed

interpretation pm: map_implementation pmap_entries pmap_ok pmap_op
proof
  fix m :: "('k :: linorder, 'v) pmap" and x :: "('k, 'v) map_op"
  assume ok: "pmap_ok m"
  then show "bt_wf (pmap_entries m)" by (simp add: pmap_ok_def)
  show "\<exists>m'. pmap_op m x = Some (m', snd (bt_op (pmap_entries m) x)) \<and> pmap_ok m' \<and> pmap_entries m' = fst (bt_op (pmap_entries m) x)"
  proof (cases x)
    case (GetMutOp k f)
    then show ?thesis using pmap_get_mut_refines[OF ok, of k f] by (auto simp: prod_eq_iff)
  next
    case (EntryOp k d f)
    then show ?thesis using or_insert_with_refines[OF ok, of k d f] by (auto simp: prod_eq_iff)
  qed (use pmap_insert_refines[OF ok] pmap_remove_refines[OF ok] in auto)
qed


section \<open>Collections, equality and depth\<close>

lemma pmap_from_iter_ops:
  "pmap_from_iter m kvs = map_option fst (map_ops pmap_op m (map (\<lambda>(k, v). InsertOp k v) kvs))"
  by (induction m kvs rule: pmap_from_iter.induct) (auto split: option.splits)

lemma bt_ops_inserts: "map_of (fst (bt_ops es (map (\<lambda>(k, v). InsertOp k v) kvs))) = map_of es ++ map_of (rev kvs)"
proof (induction kvs arbitrary: es)
  case (Cons e kvs)
  obtain k v where e: "e = (k, v)" by (cases e)
  have "map_of (fst (bt_ops (bt_insert k v es) (map (\<lambda>(k, v). InsertOp k v) kvs))) = (map_of es)(k \<mapsto> v) ++ map_of (rev kvs)"
    unfolding Cons map_of_bt_insert ..
  then show ?case unfolding e
    by (cases "bt_ops (bt_insert k v es) (map (\<lambda>(k, v). InsertOp k v) kvs)") simp
qed simp

lemma pmap_from_iter_get: "\<exists>m. pmap_from_iter pmap_new kvs = Some m \<and> pmap_ok m \<and> pmap_get m = map_of (rev kvs)"
  using pm.ops_refine[OF pmap_ok_new, of "map (\<lambda>(k, v). InsertOp k v) kvs"] bt_ops_inserts[of "[]" kvs]
  by (auto simp: pmap_from_iter_ops pmap_get_entries pmap_entries_eq pmap_new_def bt_get_def fun_eq_iff)

lemma pmap_len_entries: "pmap_ok m \<Longrightarrow> pmap_len m = length (pmap_entries m)"
  by (simp add: pmap_ok_def pmap_len_def pmap_entries_eq avl_size)

lemma pmap_eq_get:
  assumes "pmap_ok a" "pmap_ok b"
  shows "pmap_eq a b \<longleftrightarrow> pmap_get a = pmap_get b"
proof -
  have "pmap_eq a b \<longleftrightarrow> pmap_entries a = pmap_entries b" using assms by (auto simp: pmap_eq_def pmap_len_entries)
  also have "\<dots> \<longleftrightarrow> pmap_get a = pmap_get b" using pm.ents_ext[OF assms] assms by (simp add: pmap_get_entries fun_eq_iff)
  finally show ?thesis .
qed

lemma pset_insert_spec:
  assumes "pmap_ok s"
  shows "\<exists>s'. pset_insert s key = Some (s', \<not> pset_contains s key) \<and> pmap_ok s' \<and>
    (\<forall>k. pset_contains s' k \<longleftrightarrow> k = key \<or> pset_contains s k)"
  using pmap_insert_refines[OF assms, of key "()"] assms
  by (cases "bt_get (pmap_entries s) key")
    (auto simp: pset_insert_def pset_contains_def pmap_contains_key_def pmap_get_entries pmap_ok_def bt.get_ins)

lemma pset_remove_spec:
  assumes "pmap_ok s"
  shows "\<exists>s'. pset_remove s key = Some (s', pset_contains s key) \<and> pmap_ok s' \<and>
    (\<forall>k. pset_contains s' k \<longleftrightarrow> k \<noteq> key \<and> pset_contains s k)"
  using pmap_remove_refines[OF assms, of key] assms
  by (cases "bt_get (pmap_entries s) key")
    (auto simp: pset_remove_def pset_contains_def pmap_contains_key_def pmap_get_entries pmap_ok_def bt.get_del)

text \<open>The nodes a lookup compares with.\<close>

fun probes :: "('k :: linorder, 'v) link \<Rightarrow> 'k \<Rightarrow> nat" where
  "probes Nil_Link key = 0"
| "probes (Node k v l r _ _) key = 1 + (if key < k then probes l key else if k < key then probes r key else 0)"

lemma probes_height: "avl t \<Longrightarrow> probes t key \<le> link_height t"
  by (induction t) auto

lemma avl_height_bound: "avl t \<Longrightarrow> 2 ^ (link_height t div 2) \<le> link_size t + 1"
proof (induction t)
  case (Node k v l r h s)
  let ?n = "h div 2"
  show ?case
  proof (cases "h < 2")
    case False
    have "h \<le> link_height l + 2" "h \<le> link_height r + 2" using Node.prems by auto
    then have "?n - 1 \<le> link_height l div 2" "?n - 1 \<le> link_height r div 2" by linarith+
    then have "(2 :: nat) ^ (?n - 1) \<le> 2 ^ (link_height l div 2)" "(2 :: nat) ^ (?n - 1) \<le> 2 ^ (link_height r div 2)"
      by (simp_all add: power_increasing)
    moreover have "(2 :: nat) ^ ?n = 2 * 2 ^ (?n - 1)" using False by (cases ?n) auto
    moreover have "2 ^ (link_height l div 2) \<le> link_size l + 1" "2 ^ (link_height r div 2) \<le> link_size r + 1"
      "s = 1 + link_size l + link_size r" using Node by auto
    ultimately have "2 ^ ?n \<le> s + 1" by linarith
    then show ?thesis by simp
  qed simp
qed simp

section \<open>Properties\<close>

text \<open>
  C30. The persistent map is a \<open>BTreeMap\<close>: after any sequence of insertions, removals and writes through references and
  entries no operation has panicked, every result is the ordered entry list's, iteration yields its entries in key
  order, the length and every lookup are its, and the tree is an AVL tree with true heights and sizes.
\<close>

theorem pmap_refines_btreemap:
  "\<exists>m. map_ops pmap_op pmap_new xs = Some (m, snd (bt_ops [] xs)) \<and> pmap_entries m = fst (bt_ops [] xs) \<and>
    pmap_len m = length (fst (bt_ops [] xs)) \<and> (\<forall>k. pmap_get m k = bt_get (fst (bt_ops [] xs)) k) \<and> avl (proot m)"
proof -
  from pm.ops_refine[OF pmap_ok_new, of xs] obtain m where m: "map_ops pmap_op pmap_new xs = Some (m, snd (bt_ops [] xs))"
    "pmap_ok m" "pmap_entries m = fst (bt_ops [] xs)" by (auto simp: pmap_entries_eq pmap_new_def)
  then show ?thesis using pmap_get_entries[OF m(2)] pmap_len_entries[OF m(2)] by (auto simp: pmap_ok_def)
qed

text \<open>
  C36. Lookups are logarithmic: a map built by any operations compares a key with at most \<open>p\<close> nodes where
  \<open>2 ^ (p div 2)\<close> is no more than one above the number of entries.
\<close>

theorem pmap_lookup_bound:
  assumes "map_ops pmap_op pmap_new xs = Some (m, rs)"
  shows "2 ^ (probes (proot m) key div 2) \<le> pmap_len m + 1"
proof -
  from pm.ops_refine[OF pmap_ok_new, of xs] assms have "avl (proot m)" by (auto simp: pmap_ok_def)
  then have "2 ^ (link_height (proot m) div 2) \<le> pmap_len m + 1" "probes (proot m) key div 2 \<le> link_height (proot m) div 2"
    using avl_height_bound[of "proot m"] probes_height[of "proot m" key] by (auto simp: pmap_len_def intro: div_le_mono)
  moreover then have "(2 :: nat) ^ (probes (proot m) key div 2) \<le> 2 ^ (link_height (proot m) div 2)" by (simp add: power_increasing)
  ultimately show ?thesis by linarith
qed

theorem pmap_lookup_bound_witness:
  "\<exists>m rs. map_ops pmap_op pmap_new [InsertOp (1 :: nat) True, InsertOp 2 False] = Some (m, rs) \<and>
     2 ^ (probes (proot m) 2 div 2) \<le> pmap_len m + 1"
proof -
  obtain m where "map_ops pmap_op pmap_new [InsertOp (1 :: nat) True, InsertOp 2 False] = Some (m, [None, None])"
    by (simp add: pmap_insert_def pmap_new_def balance_def refreshed_def Let_def)
  from pmap_lookup_bound[OF this] this show ?thesis by blast
qed

text \<open>
  C92. Equality is equality of contents: two maps built by any operations, whatever the shapes of their
  trees, are equal in the sense of the code exactly when every lookup in them agrees.
\<close>

theorem pmap_eq_extensional:
  assumes "map_ops pmap_op pmap_new xs = Some (a, rs)" and "map_ops pmap_op pmap_new ys = Some (b, ss)"
  shows "pmap_eq a b \<longleftrightarrow> pmap_get a = pmap_get b"
  using pm.ops_refine[OF pmap_ok_new, of xs] pm.ops_refine[OF pmap_ok_new, of ys] assms pmap_eq_get[of a b] by auto

theorem pmap_eq_extensional_witness:
  "\<exists>a b rs ss. map_ops pmap_op pmap_new [InsertOp (1 :: nat) True, InsertOp 2 False] = Some (a, rs) \<and>
     map_ops pmap_op pmap_new [InsertOp (2 :: nat) False, InsertOp 1 True] = Some (b, ss) \<and> a \<noteq> b \<and> pmap_eq a b"
proof -
  let ?xs = "[InsertOp (1 :: nat) True, InsertOp 2 False]" and ?ys = "[InsertOp (2 :: nat) False, InsertOp 1 True]"
  let ?a = "\<lparr>proot = Node (1 :: nat) True Nil_Link (Node 2 False Nil_Link Nil_Link 1 1) 2 2\<rparr>"
  let ?b = "\<lparr>proot = Node (2 :: nat) False (Node 1 True Nil_Link Nil_Link 1 1) Nil_Link 2 2\<rparr>"
  have a: "map_ops pmap_op pmap_new ?xs = Some (?a, [None, None])"
    by (simp add: pmap_insert_def pmap_new_def balance_def refreshed_def Let_def)
  have b: "map_ops pmap_op pmap_new ?ys = Some (?b, [None, None])"
    by (simp add: pmap_insert_def pmap_new_def balance_def refreshed_def Let_def)
  have "pmap_get ?a = pmap_get ?b" by (auto simp: pmap_get_def fun_eq_iff)
  with pmap_eq_extensional[OF a b] have "pmap_eq ?a ?b" by simp
  with a b show ?thesis by (intro exI[of _ ?a] exI[of _ ?b] exI[of _ "[None, None]"]) simp
qed

end
