(* ===== verification/KB_Json.thy ===== *)
theory KB_Json
  imports Prelude
begin

text \<open>
  The strict JSON reader of \<open>crates/brix-kb/src/strict_json.rs\<close>. A byte is its value, text is a list of bytes, a \<open>String\<close>
  the list of its code points. The reader's cursor is the list of the bytes left with the position. \<open>None\<close> is a
  failing \<open>unwrap\<close>, or fuel running out, which twice the length and one more excludes. Messages are values.
\<close>

section \<open>Text\<close>

type_synonym text_bytes = "nat list"
type_synonym chars = "nat list"

definition continuation :: "nat \<Rightarrow> bool" where
  "continuation b \<longleftrightarrow> 128 \<le> b \<and> b \<le> 191"

text \<open>The first character of a text and what follows it.\<close>

definition utf8_step :: "text_bytes \<Rightarrow> (nat \<times> text_bytes) option" where
  "utf8_step cs =
     (case cs of
        [] \<Rightarrow> None
      | b # r \<Rightarrow>
          if b < 128 then Some (b, r)
          else if 194 \<le> b \<and> b \<le> 223 then
            (case r of
               c1 # r \<Rightarrow> if continuation c1 then Some ((b - 192) * 64 + (c1 - 128), r) else None
             | _ \<Rightarrow> None)
          else if 224 \<le> b \<and> b \<le> 239 then
            (case r of
               c1 # c2 # r \<Rightarrow>
                 if continuation c1 \<and> (b = 224 \<longrightarrow> 160 \<le> c1) \<and> (b = 237 \<longrightarrow> c1 \<le> 159) \<and> continuation c2
                 then Some ((b - 224) * 4096 + (c1 - 128) * 64 + (c2 - 128), r) else None
             | _ \<Rightarrow> None)
          else if 240 \<le> b \<and> b \<le> 244 then
            (case r of
               c1 # c2 # c3 # r \<Rightarrow>
                 if continuation c1 \<and> (b = 240 \<longrightarrow> 144 \<le> c1) \<and> (b = 244 \<longrightarrow> c1 \<le> 143) \<and> continuation c2 \<and> continuation c3
                 then Some ((b - 240) * 262144 + (c1 - 128) * 4096 + (c2 - 128) * 64 + (c3 - 128), r) else None
             | _ \<Rightarrow> None)
          else None)"

lemma utf8_step_shorter: "utf8_step cs = Some (c, r) \<Longrightarrow> \<exists>u. cs = u @ r \<and> u \<noteq> []"
  by (cases cs) (auto simp: utf8_step_def Cons_eq_append_conv split: if_splits list.splits)

lemma utf8_step_length: "utf8_step cs = Some (c, r) \<Longrightarrow> length r < length cs"
  using utf8_step_shorter by fastforce

function utf8_valid :: "text_bytes \<Rightarrow> bool" where
  "utf8_valid cs = (if cs = [] then True else case utf8_step cs of None \<Rightarrow> False | Some (_, r) \<Rightarrow> utf8_valid r)"
  by pat_completeness auto

termination
  by (relation "measure length") (auto dest!: utf8_step_shorter)

declare utf8_valid.simps [simp del]

definition is_scalar :: "nat \<Rightarrow> bool" where
  "is_scalar c \<longleftrightarrow> c < 0xD800 \<or> 0xE000 \<le> c \<and> c < 0x110000"

section \<open>Values and errors\<close>

definition MAX_KB_JSON_BYTES :: nat where
  "MAX_KB_JSON_BYTES = 1024 * 1024"

definition MAX_DEPTH :: nat where
  "MAX_DEPTH = 16"

datatype json =
    JNull
  | JBool bool
  | JInt int
  | JStr chars
  | JArr "json list"
  | JObj "(chars \<times> json) list"

datatype json_message =
    UnexpectedByte nat
  | ExpectedLiteral chars
  | ExpectedDigit
  | FloatNotAdmitted
  | IntOutOfRange
  | UnpairedSurrogate
  | InvalidScalar
  | UnrecognizedEscape nat
  | ControlCharacter
  | InvalidHex
  | ExpectedKey
  | ExpectedColon
  | ExpectedCommaOrBrace
  | ExpectedCommaOrBracket

datatype json_error =
    TooLarge nat nat
  | NotUtf8
  | JSyntax json_message nat
  | UnexpectedEof
  | TrailingBytes nat
  | DepthExceeded
  | DuplicateKey chars nat
  | UnknownField chars
  | MissingField chars
  | TypeMismatch string
  | FieldTypeMismatch chars string

definition as_str :: "json \<Rightarrow> chars option" where
  "as_str v = (case v of JStr s \<Rightarrow> Some s | _ \<Rightarrow> None)"

definition as_i64 :: "json \<Rightarrow> int option" where
  "as_i64 v = (case v of JInt n \<Rightarrow> Some n | _ \<Rightarrow> None)"

definition as_bool :: "json \<Rightarrow> bool option" where
  "as_bool v = (case v of JBool b \<Rightarrow> Some b | _ \<Rightarrow> None)"

definition as_arr :: "json \<Rightarrow> json list option" where
  "as_arr v = (case v of JArr items \<Rightarrow> Some items | _ \<Rightarrow> None)"

definition as_obj :: "json \<Rightarrow> (chars \<times> json) list option" where
  "as_obj v = (case v of JObj fields \<Rightarrow> Some fields | _ \<Rightarrow> None)"

definition json_get :: "json \<Rightarrow> chars \<Rightarrow> json option" where
  "json_get v key = (case as_obj v of None \<Rightarrow> None | Some fields \<Rightarrow> map_option snd (find (\<lambda>(k, _). k = key) fields))"

definition ok_or :: "'a option \<Rightarrow> json_error \<Rightarrow> json_error + 'a" where
  "ok_or x e = (case x of None \<Rightarrow> Inl e | Some y \<Rightarrow> Inr y)"

fun only_keys :: "chars list \<Rightarrow> (chars \<times> json) list \<Rightarrow> json_error + unit" where
  "only_keys allowed [] = Inr ()"
| "only_keys allowed ((k, v) # fields) = (if k \<notin> set allowed then Inl (UnknownField k) else only_keys allowed fields)"

definition require_only_keys :: "json \<Rightarrow> chars list \<Rightarrow> json_error + unit" where
  "require_only_keys v allowed = and_then (ok_or (as_obj v) (TypeMismatch ''object'')) (only_keys allowed)"

definition field_str :: "json \<Rightarrow> chars \<Rightarrow> json_error + chars" where
  "field_str v key =
     and_then (ok_or (json_get v key) (MissingField key)) (\<lambda>x. ok_or (as_str x) (FieldTypeMismatch key ''string''))"

definition field_opt_str :: "json \<Rightarrow> chars \<Rightarrow> json_error + chars option" where
  "field_opt_str v key =
     (case json_get v key of
        None \<Rightarrow> Inr None
      | Some JNull \<Rightarrow> Inr None
      | Some x \<Rightarrow> and_then (ok_or (as_str x) (FieldTypeMismatch key ''string or null'')) (\<lambda>s. Inr (Some s)))"

definition field_u64 :: "json \<Rightarrow> chars \<Rightarrow> json_error + int" where
  "field_u64 v key =
     and_then (ok_or (json_get v key) (MissingField key)) (\<lambda>x.
     and_then (ok_or (as_i64 x) (FieldTypeMismatch key ''non-negative integer'')) (\<lambda>n.
       if n < 0 then Inl (FieldTypeMismatch key ''non-negative integer'') else Inr n))"

fun strings_of :: "chars \<Rightarrow> json list \<Rightarrow> json_error + chars list" where
  "strings_of key [] = Inr []"
| "strings_of key (x # xs) =
     and_then (ok_or (as_str x) (FieldTypeMismatch key ''array of strings'')) (\<lambda>s.
     and_then (strings_of key xs) (\<lambda>ss. Inr (s # ss)))"

definition field_str_array :: "json \<Rightarrow> chars \<Rightarrow> json_error + chars list" where
  "field_str_array v key =
     and_then (ok_or (json_get v key) (MissingField key)) (\<lambda>x.
     and_then (ok_or (as_arr x) (FieldTypeMismatch key ''array'')) (strings_of key))"

definition field_obj :: "json \<Rightarrow> chars \<Rightarrow> json_error + json" where
  "field_obj v key =
     and_then (ok_or (json_get v key) (MissingField key)) (\<lambda>x.
       if as_obj x \<noteq> None then Inr x else Inl (FieldTypeMismatch key ''object''))"

section \<open>Scanning\<close>

definition json_space :: "nat \<Rightarrow> bool" where
  "json_space b \<longleftrightarrow> b = 32 \<or> b = 9 \<or> b = 13 \<or> b = 10"

fun skip_ws :: "text_bytes \<Rightarrow> nat \<Rightarrow> text_bytes \<times> nat" where
  "skip_ws [] pos = ([], pos)"
| "skip_ws (b # cs) pos = (if json_space b then skip_ws cs (pos + 1) else (b # cs, pos))"

definition expect_lit :: "chars \<Rightarrow> json \<Rightarrow> text_bytes \<Rightarrow> nat \<Rightarrow> json_error + (json \<times> text_bytes \<times> nat)" where
  "expect_lit lit v cs pos =
     (if take (length lit) cs = lit then Inr (v, drop (length lit) cs, pos + length lit)
      else Inl (JSyntax (ExpectedLiteral lit) pos))"

definition ascii_digit :: "nat \<Rightarrow> bool" where
  "ascii_digit b \<longleftrightarrow> 48 \<le> b \<and> b \<le> 57"

definition digits_value :: "nat list \<Rightarrow> int" where
  "digits_value ds = foldl (\<lambda>n d. 10 * n + int (d - 48)) 0 ds"

definition parse_int :: "text_bytes \<Rightarrow> nat \<Rightarrow> json_error + (json \<times> text_bytes \<times> nat)" where
  "parse_int cs pos =
     (let neg = (case cs of b # _ \<Rightarrow> b = 45 | [] \<Rightarrow> False);
          cs1 = (if neg then tl cs else cs); pos1 = (if neg then pos + 1 else pos);
          ds = takeWhile ascii_digit cs1; rest = dropWhile ascii_digit cs1; pos2 = pos1 + length ds;
          n = (if neg then - digits_value ds else digits_value ds)
      in if ds = [] then Inl (JSyntax ExpectedDigit pos2)
         else if (case rest of b # _ \<Rightarrow> b = 46 \<or> b = 101 \<or> b = 69 | [] \<Rightarrow> False) then Inl (JSyntax FloatNotAdmitted pos2)
         else if i64_range n then Inr (JInt n, rest, pos2)
         else Inl (JSyntax IntOutOfRange pos))"

definition hex_digit :: "nat \<Rightarrow> nat option" where
  "hex_digit d =
     (if ascii_digit d then Some (d - 48)
      else if 97 \<le> d \<and> d \<le> 102 then Some (d - 87)
      else if 65 \<le> d \<and> d \<le> 70 then Some (d - 55)
      else None)"

fun hex_value :: "nat \<Rightarrow> nat list \<Rightarrow> nat option" where
  "hex_value n [] = Some n"
| "hex_value n (d # ds) = (case hex_digit d of None \<Rightarrow> None | Some v \<Rightarrow> hex_value (16 * n + v) ds)"

definition hex4 :: "text_bytes \<Rightarrow> nat \<Rightarrow> json_error + (nat \<times> text_bytes \<times> nat)" where
  "hex4 cs pos =
     (if length cs < 4 then Inl UnexpectedEof
      else case hex_value 0 (take 4 cs) of
        None \<Rightarrow> Inl (JSyntax InvalidHex pos)
      | Some code \<Rightarrow> Inr (code, drop 4 cs, pos + 4))"

definition unicode_escape :: "text_bytes \<Rightarrow> nat \<Rightarrow> json_error + (nat \<times> text_bytes \<times> nat)" where
  "unicode_escape cs pos =
     and_then (hex4 cs pos) (\<lambda>(unit, cs, pos).
     and_then
       (if 0xD800 \<le> unit \<and> unit < 0xDC00 then
          if take 2 cs \<noteq> [92, 117] then Inl (JSyntax UnpairedSurrogate pos)
          else and_then (hex4 (drop 2 cs) (pos + 2)) (\<lambda>(low, cs, pos).
            if 0xDC00 \<le> low \<and> low < 0xE000 then Inr (0x10000 + (unit - 0xD800) * 1024 + (low - 0xDC00), cs, pos)
            else Inl (JSyntax UnpairedSurrogate pos))
        else Inr (unit, cs, pos))
       (\<lambda>(code, cs, pos). if is_scalar code then Inr (code, cs, pos) else Inl (JSyntax InvalidScalar pos)))"

definition short_escape :: "nat \<Rightarrow> nat option" where
  "short_escape e = map_of [(34, 34), (92, 92), (47, 47), (110, 10), (116, 9), (114, 13), (98, 8), (102, 12)] e"

definition read_escape :: "text_bytes \<Rightarrow> nat \<Rightarrow> json_error + (nat \<times> text_bytes \<times> nat)" where
  "read_escape cs pos =
     (case cs of
        [] \<Rightarrow> Inl UnexpectedEof
      | e # cs \<Rightarrow>
          (case short_escape e of
             Some c \<Rightarrow> Inr (c, cs, pos + 1)
           | None \<Rightarrow>
               if e = 117 then unicode_escape cs (pos + 1) else Inl (JSyntax (UnrecognizedEscape e) pos)))"

lemma hex4_shorter: "hex4 cs pos = Inr (c, r, p) \<Longrightarrow> \<exists>u. cs = u @ r \<and> length u = 4 \<and> p = pos + 4"
  by (auto simp: hex4_def split: if_splits option.splits intro!: exI[of _ "take 4 cs"])

lemma unicode_escape_shorter:
  assumes "unicode_escape cs pos = Inr (c, r, p)"
  shows "\<exists>u. cs = u @ r \<and> u \<noteq> [] \<and> p = pos + length u"
proof -
  from assms obtain unit r1 p1 where 1: "hex4 cs pos = Inr (unit, r1, p1)" by (auto simp: unicode_escape_def and_then_Inr)
  from hex4_shorter[OF 1] obtain u1 where u1: "cs = u1 @ r1" "length u1 = 4" "p1 = pos + 4" by blast
  show ?thesis
  proof (cases "0xD800 \<le> unit \<and> unit < 0xDC00")
    case True
    with assms 1 obtain c2 where 2: "hex4 (drop 2 r1) (p1 + 2) = Inr (c2, r, p)" "take 2 r1 = [92, 117]"
      by (auto simp: unicode_escape_def and_then_Inr split: if_splits)
    from hex4_shorter[OF 2(1)] obtain u2 where u2: "drop 2 r1 = u2 @ r" "length u2 = 4" "p = p1 + 2 + 4" by blast
    have "r1 = [92, 117] @ u2 @ r" using 2(2) u2(1) by (metis append_take_drop_id)
    then show ?thesis using u1 u2 by (intro exI[of _ "u1 @ [92, 117] @ u2"]) auto
  next
    case False
    with assms 1 u1 show ?thesis by (auto simp: unicode_escape_def and_then_Inr split: if_splits intro!: exI[of _ u1])
  qed
qed

lemma read_escape_shorter:
  assumes "read_escape cs pos = Inr (c, r, p)"
  shows "\<exists>u. cs = u @ r \<and> u \<noteq> [] \<and> p = pos + length u"
proof -
  from assms obtain e cs' where cs: "cs = e # cs'" by (cases cs) (auto simp: read_escape_def)
  show ?thesis
  proof (cases "short_escape e")
    case None
    with assms cs have "unicode_escape cs' (pos + 1) = Inr (c, r, p)" by (auto simp: read_escape_def split: if_splits)
    from unicode_escape_shorter[OF this] obtain u where "cs' = u @ r" "p = pos + 1 + length u" by blast
    then show ?thesis using cs by (intro exI[of _ "e # u"]) simp
  qed (use assms cs in \<open>auto simp: read_escape_def\<close>)
qed

text \<open>From behind the opening quote to behind the closing one. A character that cannot be read panics.\<close>

function string_loop :: "chars \<Rightarrow> text_bytes \<Rightarrow> nat \<Rightarrow> (json_error + (chars \<times> text_bytes \<times> nat)) option" where
  "string_loop s cs pos =
     (case cs of
        [] \<Rightarrow> Some (Inl UnexpectedEof)
      | b # r \<Rightarrow>
          if b = 34 then Some (Inr (s, r, pos + 1))
          else if b = 92 then
            (case read_escape r (pos + 1) of
               Inl e \<Rightarrow> Some (Inl e)
             | Inr (c, r, pos) \<Rightarrow> string_loop (s @ [c]) r pos)
          else if b < 32 then Some (Inl (JSyntax ControlCharacter pos))
          else (case utf8_step (b # r) of
            None \<Rightarrow> None
          | Some (c, r') \<Rightarrow> string_loop (s @ [c]) r' (pos + (length (b # r) - length r'))))"
  by pat_completeness auto

termination
  by (relation "measure (\<lambda>(_, cs, _). length cs)") (auto dest!: utf8_step_length read_escape_shorter)

declare string_loop.simps [simp del]

definition parse_string :: "text_bytes \<Rightarrow> nat \<Rightarrow> (json_error + (chars \<times> text_bytes \<times> nat)) option" where
  "parse_string cs pos = string_loop [] (tl cs) (pos + 1)"

section \<open>Values\<close>

text \<open>The results of a step that may panic; the fuel bounds the calls.\<close>

definition bind_result :: "(json_error + 'a) option \<Rightarrow> ('a \<Rightarrow> (json_error + 'b) option) \<Rightarrow> (json_error + 'b) option" where
  "bind_result m f = (case m of None \<Rightarrow> None | Some (Inl e) \<Rightarrow> Some (Inl e) | Some (Inr x) \<Rightarrow> f x)"

type_synonym 'a parsed = "(json_error + ('a \<times> text_bytes \<times> nat)) option"

definition peek :: "text_bytes \<Rightarrow> nat option" where
  "peek cs = (case cs of [] \<Rightarrow> None | b # _ \<Rightarrow> Some b)"

fun parse_value :: "nat \<Rightarrow> nat \<Rightarrow> text_bytes \<Rightarrow> nat \<Rightarrow> json parsed"
and object_loop :: "nat \<Rightarrow> nat \<Rightarrow> (chars \<times> json) list \<Rightarrow> text_bytes \<Rightarrow> nat \<Rightarrow> json parsed"
and array_loop :: "nat \<Rightarrow> nat \<Rightarrow> json list \<Rightarrow> text_bytes \<Rightarrow> nat \<Rightarrow> json parsed"
where
  "parse_value 0 depth cs pos = None"
| "parse_value (Suc fuel) depth cs pos =
     (case skip_ws cs pos of (cs, pos) \<Rightarrow>
        case cs of
          [] \<Rightarrow> Some (Inl UnexpectedEof)
        | b # r \<Rightarrow>
            if b = 123 then
              (if depth \<ge> MAX_DEPTH then Some (Inl DepthExceeded)
               else case skip_ws r (pos + 1) of (cs, pos) \<Rightarrow>
                 if peek cs = Some 125 then Some (Inr (JObj [], tl cs, pos + 1))
                 else object_loop fuel (depth + 1) [] cs pos)
            else if b = 91 then
              (if depth \<ge> MAX_DEPTH then Some (Inl DepthExceeded)
               else case skip_ws r (pos + 1) of (cs, pos) \<Rightarrow>
                 if peek cs = Some 93 then Some (Inr (JArr [], tl cs, pos + 1))
                 else array_loop fuel (depth + 1) [] cs pos)
            else if b = 34 then bind_result (parse_string cs pos) (\<lambda>(s, r, pos). Some (Inr (JStr s, r, pos)))
            else if b = 116 then Some (expect_lit [116, 114, 117, 101] (JBool True) cs pos)
            else if b = 102 then Some (expect_lit [102, 97, 108, 115, 101] (JBool False) cs pos)
            else if b = 110 then Some (expect_lit [110, 117, 108, 108] JNull cs pos)
            else if b = 45 \<or> ascii_digit b then Some (parse_int cs pos)
            else Some (Inl (JSyntax (UnexpectedByte b) pos)))"
| "object_loop 0 depth fields cs pos = None"
| "object_loop (Suc fuel) depth fields cs pos =
     (case skip_ws cs pos of (cs, pos) \<Rightarrow>
        if peek cs \<noteq> Some 34 then Some (Inl (JSyntax ExpectedKey pos))
        else bind_result (parse_string cs pos) (\<lambda>(key, cs1, pos1).
          if key \<in> fst ` set fields then Some (Inl (DuplicateKey key pos))
          else case skip_ws cs1 pos1 of (cs2, pos2) \<Rightarrow>
            if peek cs2 \<noteq> Some 58 then Some (Inl (JSyntax ExpectedColon pos2))
            else bind_result (parse_value fuel depth (tl cs2) (pos2 + 1)) (\<lambda>(v, cs3, pos3).
              case skip_ws cs3 pos3 of (cs4, pos4) \<Rightarrow>
                case peek cs4 of
                  None \<Rightarrow> Some (Inl UnexpectedEof)
                | Some b \<Rightarrow>
                    if b = 44 then object_loop fuel depth (fields @ [(key, v)]) (tl cs4) (pos4 + 1)
                    else if b = 125 then Some (Inr (JObj (fields @ [(key, v)]), tl cs4, pos4 + 1))
                    else Some (Inl (JSyntax ExpectedCommaOrBrace pos4)))))"
| "array_loop 0 depth items cs pos = None"
| "array_loop (Suc fuel) depth items cs pos =
     bind_result (parse_value fuel depth cs pos) (\<lambda>(v, cs1, pos1).
       case skip_ws cs1 pos1 of (cs2, pos2) \<Rightarrow>
         case peek cs2 of
           None \<Rightarrow> Some (Inl UnexpectedEof)
         | Some b \<Rightarrow>
             if b = 44 then array_loop fuel depth (items @ [v]) (tl cs2) (pos2 + 1)
             else if b = 93 then Some (Inr (JArr (items @ [v]), tl cs2, pos2 + 1))
             else Some (Inl (JSyntax ExpectedCommaOrBracket pos2)))"

declare parse_value.simps [simp del] object_loop.simps [simp del] array_loop.simps [simp del]

definition parse_document :: "text_bytes \<Rightarrow> (json_error + json) option" where
  "parse_document bytes =
     (if length bytes > MAX_KB_JSON_BYTES then Some (Inl (TooLarge MAX_KB_JSON_BYTES (length bytes)))
      else if \<not> utf8_valid bytes then Some (Inl NotUtf8)
      else case skip_ws bytes 0 of (cs, pos) \<Rightarrow>
        bind_result (parse_value (2 * length bytes + 1) 0 cs pos) (\<lambda>(v, cs, pos).
          case skip_ws cs pos of (cs, pos) \<Rightarrow>
            if cs \<noteq> [] then Some (Inl (TrailingBytes pos)) else Some (Inr v)))"

end
