(* ===== verification/KB_Json_Grammar.thy ===== *)
theory KB_Json_Grammar
  imports KB_Json
begin

text \<open>
  The language the strict JSON reader accepts, as inductive grammar rules: values without leading white space, members and
  elements with the white space around them, bodies of strings. The reader accepts precisely this
  language, and it returns on every input.
\<close>

section \<open>The grammar\<close>

definition ws :: "text_bytes \<Rightarrow> bool" where
  "ws w \<longleftrightarrow> list_all json_space w"

definition hex_text :: "text_bytes \<Rightarrow> nat \<Rightarrow> bool" where
  "hex_text h n \<longleftrightarrow> length h = 4 \<and> hex_value 0 h = Some n"

inductive escape_text :: "text_bytes \<Rightarrow> nat \<Rightarrow> bool" where
  short: "short_escape e = Some c \<Longrightarrow> escape_text [e] c"
| basic: "hex_text h n \<Longrightarrow> n < 0xD800 \<or> 0xE000 \<le> n \<Longrightarrow> escape_text (117 # h) n"
| pair: "hex_text h a \<Longrightarrow> hex_text l b \<Longrightarrow> 0xD800 \<le> a \<Longrightarrow> a < 0xDC00 \<Longrightarrow> 0xDC00 \<le> b \<Longrightarrow> b < 0xE000 \<Longrightarrow>
    escape_text (117 # h @ [92, 117] @ l) (0x10000 + (a - 0xD800) * 1024 + (b - 0xDC00))"

inductive string_text :: "text_bytes \<Rightarrow> chars \<Rightarrow> bool" where
  empty: "string_text [] []"
| plain: "utf8_step u = Some (c, []) \<Longrightarrow> hd u \<notin> {34, 92} \<Longrightarrow> 32 \<le> hd u \<Longrightarrow> string_text t s \<Longrightarrow> string_text (u @ t) (c # s)"
| escape: "escape_text u c \<Longrightarrow> string_text t s \<Longrightarrow> string_text (92 # u @ t) (c # s)"

definition int_text :: "text_bytes \<Rightarrow> int \<Rightarrow> bool" where
  "int_text t n \<longleftrightarrow> i64_range n \<and>
     (\<exists>ds. ds \<noteq> [] \<and> list_all ascii_digit ds \<and> (t = ds \<and> n = digits_value ds \<or> t = 45 # ds \<and> n = - digits_value ds))"

text \<open>What an integer may be followed by, so that it ends where its text ends.\<close>

definition int_stop :: "json \<Rightarrow> text_bytes \<Rightarrow> bool" where
  "int_stop v r \<longleftrightarrow> (case v of JInt _ \<Rightarrow> r = [] \<or> \<not> ascii_digit (hd r) \<and> hd r \<notin> {46, 101, 69} | _ \<Rightarrow> True)"

inductive json_text :: "nat \<Rightarrow> json \<Rightarrow> text_bytes \<Rightarrow> bool"
and members :: "nat \<Rightarrow> (chars \<times> json) list \<Rightarrow> text_bytes \<Rightarrow> bool"
and elements :: "nat \<Rightarrow> json list \<Rightarrow> text_bytes \<Rightarrow> bool"
where
  t_null: "json_text d JNull [110, 117, 108, 108]"
| t_true: "json_text d (JBool True) [116, 114, 117, 101]"
| t_false: "json_text d (JBool False) [102, 97, 108, 115, 101]"
| t_int: "int_text t n \<Longrightarrow> json_text d (JInt n) t"
| t_str: "string_text body s \<Longrightarrow> json_text d (JStr s) (34 # body @ [34])"
| t_obj0: "d < MAX_DEPTH \<Longrightarrow> ws w \<Longrightarrow> json_text d (JObj []) (123 # w @ [125])"
| t_obj: "d < MAX_DEPTH \<Longrightarrow> members (d + 1) fs m \<Longrightarrow> distinct (map fst fs) \<Longrightarrow> json_text d (JObj fs) (123 # m @ [125])"
| t_arr0: "d < MAX_DEPTH \<Longrightarrow> ws w \<Longrightarrow> json_text d (JArr []) (91 # w @ [93])"
| t_arr: "d < MAX_DEPTH \<Longrightarrow> elements (d + 1) vs m \<Longrightarrow> json_text d (JArr vs) (91 # m @ [93])"
| m_one: "ws w1 \<Longrightarrow> string_text body k \<Longrightarrow> ws w2 \<Longrightarrow> ws w3 \<Longrightarrow> json_text d v t \<Longrightarrow> ws w4 \<Longrightarrow>
    members d [(k, v)] (w1 @ 34 # body @ 34 # w2 @ 58 # w3 @ t @ w4)"
| m_more: "ws w1 \<Longrightarrow> string_text body k \<Longrightarrow> ws w2 \<Longrightarrow> ws w3 \<Longrightarrow> json_text d v t \<Longrightarrow> ws w4 \<Longrightarrow> members d fs m \<Longrightarrow>
    members d ((k, v) # fs) (w1 @ 34 # body @ 34 # w2 @ 58 # w3 @ t @ w4 @ 44 # m)"
| e_one: "ws w1 \<Longrightarrow> json_text d v t \<Longrightarrow> ws w2 \<Longrightarrow> elements d [v] (w1 @ t @ w2)"
| e_more: "ws w1 \<Longrightarrow> json_text d v t \<Longrightarrow> ws w2 \<Longrightarrow> elements d vs m \<Longrightarrow> elements d (v # vs) (w1 @ t @ w2 @ 44 # m)"

section \<open>White space and characters\<close>

lemma ws_simps [simp]: "ws []" "ws (b # w) \<longleftrightarrow> json_space b \<and> ws w" "ws (w @ w') \<longleftrightarrow> ws w \<and> ws w'"
  by (simp_all add: ws_def)

lemma skip_ws_split: "skip_ws cs pos = (r, p) \<Longrightarrow> \<exists>w. cs = w @ r \<and> ws w \<and> p = pos + length w \<and> (r = [] \<or> \<not> json_space (hd r))"
proof (induction cs pos rule: skip_ws.induct)
  case (2 b cs pos)
  show ?case
  proof (cases "json_space b")
    case True
    with 2 obtain w where "cs = w @ r" "ws w" "p = pos + 1 + length w" "r = [] \<or> \<not> json_space (hd r)" by auto
    with True show ?thesis by (intro exI[of _ "b # w"]) simp
  qed (use 2 in auto)
qed simp

lemma skip_ws_all: "ws w \<Longrightarrow> r = [] \<or> \<not> json_space (hd r) \<Longrightarrow> skip_ws (w @ r) pos = (r, pos + length w)"
proof (induction w arbitrary: pos)
  case Nil
  then show ?case by (cases r) auto
qed auto

lemma utf8_step_append: "utf8_step u = Some (c, r) \<Longrightarrow> utf8_step (u @ t) = Some (c, r @ t)"
  by (cases u) (auto simp: utf8_step_def split: if_splits list.splits)

lemma utf8_step_split: "utf8_step cs = Some (c, r) \<Longrightarrow> \<exists>u. cs = u @ r \<and> utf8_step u = Some (c, []) \<and> hd u = hd cs \<and> u \<noteq> []"
proof -
  assume s: "utf8_step cs = Some (c, r)"
  then obtain b cs' where cs: "cs = b # cs'" by (cases cs) (auto simp: utf8_step_def)
  consider "b < 128" "r = cs'" | c1 where "\<not> b < 128" "cs' = c1 # r" | c1 c2 where "\<not> b < 128" "cs' = c1 # c2 # r"
    | c1 c2 c3 where "\<not> b < 128" "cs' = c1 # c2 # c3 # r"
    using s cs by (auto simp: utf8_step_def split: if_splits list.splits)
  then show ?thesis
  proof cases
    case 1
    then show ?thesis using s cs by (intro exI[of _ "[b]"]) (simp add: utf8_step_def)
  next
    case 2
    then show ?thesis using s cs by (intro exI[of _ "[b, c1]"]) (auto simp: utf8_step_def split: if_splits list.splits)
  next
    case 3
    then show ?thesis using s cs by (intro exI[of _ "[b, c1, c2]"]) (auto simp: utf8_step_def split: if_splits list.splits)
  next
    case 4
    then show ?thesis using s cs by (intro exI[of _ "[b, c1, c2, c3]"]) (auto simp: utf8_step_def split: if_splits list.splits)
  qed
qed

lemma hex_value_bound: "hex_value n ds = Some m \<Longrightarrow> n < b \<Longrightarrow> m < b * 16 ^ length ds"
proof (induction ds arbitrary: n b)
  case (Cons d ds)
  then obtain v where v: "hex_digit d = Some v" "hex_value (16 * n + v) ds = Some m" by (auto split: option.splits)
  have "v < 16" using v(1) by (auto simp: hex_digit_def ascii_digit_def split: if_splits)
  then have "16 * n + v < 16 * b" using Cons.prems(2) by linarith
  from Cons.IH[OF v(2) this] show ?case by (simp add: mult.assoc mult.left_commute)
qed simp

lemma hex_text_bound: "hex_text h n \<Longrightarrow> n < 65536"
  using hex_value_bound[of 0 h n 1] by (simp add: hex_text_def)

lemma hex4_iff: "hex4 cs pos = Inr (n, r, p) \<longleftrightarrow> (\<exists>h. cs = h @ r \<and> hex_text h n \<and> p = pos + 4)"
proof
  assume h: "hex4 cs pos = Inr (n, r, p)"
  then show "\<exists>h. cs = h @ r \<and> hex_text h n \<and> p = pos + 4"
    by (intro exI[of _ "take 4 cs"]) (auto simp: hex4_def hex_text_def split: if_splits option.splits)
next
  assume "\<exists>h. cs = h @ r \<and> hex_text h n \<and> p = pos + 4"
  then show "hex4 cs pos = Inr (n, r, p)" by (auto simp: hex4_def hex_text_def)
qed

lemma read_escape_iff: "read_escape cs pos = Inr (c, r, p) \<longleftrightarrow> (\<exists>u. cs = u @ r \<and> escape_text u c \<and> p = pos + length u)"
proof
  assume e: "read_escape cs pos = Inr (c, r, p)"
  then obtain b cs' where cs: "cs = b # cs'" by (cases cs) (auto simp: read_escape_def)
  show "\<exists>u. cs = u @ r \<and> escape_text u c \<and> p = pos + length u"
  proof (cases "short_escape b")
    case (Some x)
    then show ?thesis using e cs by (intro exI[of _ "[b]"]) (auto simp: read_escape_def intro: escape_text.short)
  next
    case None
    with e cs have b: "b = 117" "unicode_escape cs' (pos + 1) = Inr (c, r, p)" by (auto simp: read_escape_def split: if_splits)
    then obtain a r1 p1 where 1: "hex4 cs' (pos + 1) = Inr (a, r1, p1)" by (auto simp: unicode_escape_def and_then_Inr)
    then obtain h where h: "cs' = h @ r1" "hex_text h a" "p1 = pos + 1 + 4" by (auto simp: hex4_iff)
    show ?thesis
    proof (cases "0xD800 \<le> a \<and> a < 0xDC00")
      case True
      with b 1 obtain l where 2: "hex4 (drop 2 r1) (p1 + 2) = Inr (l, r, p)" "take 2 r1 = [92, 117]"
        "0xDC00 \<le> l" "l < 0xE000" "c = 0x10000 + (a - 0xD800) * 1024 + (l - 0xDC00)"
        by (auto simp: unicode_escape_def and_then_Inr split: if_splits)
      from 2(1) obtain h' where h': "drop 2 r1 = h' @ r" "hex_text h' l" "p = p1 + 2 + 4" by (auto simp: hex4_iff)
      have "r1 = [92, 117] @ h' @ r" using 2(2) h'(1) by (metis append_take_drop_id)
      then show ?thesis using cs b h h' 2 True escape_text.pair[OF h(2) h'(2)]
        by (intro exI[of _ "117 # h @ [92, 117] @ h'"]) (auto simp: hex_text_def)
    next
      case False
      then have "c = a \<and> r = r1 \<and> p = p1 \<and> is_scalar a" using b 1 by (auto simp: unicode_escape_def and_then_Inr split: if_splits)
      then show ?thesis using cs b h False escape_text.basic[OF h(2)]
        by (intro exI[of _ "117 # h"]) (auto simp: hex_text_def is_scalar_def)
    qed
  qed
next
  assume "\<exists>u. cs = u @ r \<and> escape_text u c \<and> p = pos + length u"
  then obtain u where u: "cs = u @ r" "escape_text u c" "p = pos + length u" by blast
  have n: "short_escape 117 = None" by (simp add: short_escape_def)
  from u(2) show "read_escape cs pos = Inr (c, r, p)"
  proof cases
    case (short e)
    then show ?thesis using u by (simp add: read_escape_def)
  next
    case (basic h)
    have "hex4 (h @ r) (pos + 1) = Inr (c, r, pos + 1 + 4)" using basic by (auto simp: hex4_iff)
    then show ?thesis using u basic n hex_text_bound[OF basic(2)]
      by (auto simp: read_escape_def unicode_escape_def is_scalar_def hex_text_def)
  next
    case (pair h a l b)
    have "hex4 (h @ [92, 117] @ l @ r) (pos + 1) = Inr (a, [92, 117] @ l @ r, pos + 1 + 4)"
      "hex4 (l @ r) (pos + 1 + 4 + 2) = Inr (b, r, pos + 1 + 4 + 2 + 4)" using pair hex4_iff by blast+
    then show ?thesis using u pair n by (auto simp: read_escape_def unicode_escape_def is_scalar_def hex_text_def)
  qed
qed

lemma escape_text_nonempty: "escape_text u c \<Longrightarrow> u \<noteq> []"
  by (cases rule: escape_text.cases) auto

lemma string_loop_sound:
  "string_loop s cs pos = Some (Inr (x, r, p)) \<Longrightarrow>
   \<exists>body w. cs = body @ 34 # r \<and> string_text body w \<and> x = s @ w \<and> p = pos + length body + 1"
proof (induction s cs pos rule: string_loop.induct)
  case (1 s cs pos)
  from "1.prems" obtain b t where cs: "cs = b # t" by (cases cs) (auto simp: string_loop.simps)
  consider (quote) "b = 34" | (escape) c t' p' where "b = 92" "read_escape t (pos + 1) = Inr (c, t', p')"
    | (plain) c t' where "b \<noteq> 34" "b \<noteq> 92" "\<not> b < 32" "utf8_step (b # t) = Some (c, t')"
    using "1.prems" cs by (auto simp: string_loop.simps[of s "b # t"] split: if_splits sum.splits option.splits)
  then show ?case
  proof cases
    case quote
    then show ?thesis using "1.prems" cs
      by (intro exI[of _ "[]"]) (auto simp: string_loop.simps[of s "34 # t"] intro: string_text.empty)
  next
    case escape
    with "1.prems" cs have "string_loop (s @ [c]) t' p' = Some (Inr (x, r, p))" by (simp add: string_loop.simps[of s "92 # t"])
    with "1.IH"(1)[OF cs] escape have "\<exists>body w. t' = body @ 34 # r \<and> string_text body w \<and> x = (s @ [c]) @ w \<and> p = p' + length body + 1" by simp
    then obtain body w where b: "t' = body @ 34 # r" "string_text body w" "x = s @ c # w" "p = p' + length body + 1" by auto
    obtain u where u: "t = u @ t'" "escape_text u c" "p' = pos + 1 + length u" using escape(2) by (auto simp: read_escape_iff)
    show ?thesis using cs escape(1) b u string_text.escape[OF u(2) b(2)]
      by (intro exI[of _ "92 # u @ body"] exI[of _ "c # w"]) simp
  next
    case plain
    then have "string_loop (s @ [c]) t' (pos + (length (b # t) - length t')) = Some (Inr (x, r, p))"
      using "1.prems" cs by (simp add: string_loop.simps[of s "b # t"])
    with "1.IH"(2)[OF cs] plain have "\<exists>body w. t' = body @ 34 # r \<and> string_text body w \<and> x = (s @ [c]) @ w \<and>
        p = pos + (length (b # t) - length t') + length body + 1" by simp
    then obtain body w where b: "t' = body @ 34 # r" "string_text body w" "x = s @ c # w"
      "p = pos + (length (b # t) - length t') + length body + 1" by auto
    obtain u where u: "b # t = u @ t'" "utf8_step u = Some (c, [])" "hd u = b" using utf8_step_split[OF plain(4)] by auto
    have "string_text (u @ body) (c # w)" using plain u b(2) by (intro string_text.plain) auto
    then show ?thesis using cs b u arg_cong[OF u(1), of length] by (intro exI[of _ "u @ body"] exI[of _ "c # w"]) auto
  qed
qed

lemma string_loop_complete:
  "string_text body w \<Longrightarrow> string_loop s (body @ 34 # r) pos = Some (Inr (s @ w, r, pos + length body + 1))"
proof (induction arbitrary: s pos rule: string_text.induct)
  case empty
  then show ?case by (simp add: string_loop.simps)
next
  case (plain u c t w)
  then obtain b u' where u: "u = b # u'" by (cases u) (auto simp: utf8_step_def)
  have "utf8_step (u @ t @ 34 # r) = Some (c, t @ 34 # r)" using utf8_step_append[OF plain(1)] by simp
  then show ?case using plain u by (simp add: string_loop.simps[of s "b # u' @ t @ 34 # r"])
next
  case (escape u c t w)
  have "read_escape (u @ t @ 34 # r) (pos + 1) = Inr (c, t @ 34 # r, pos + 1 + length u)" using escape(1) by (auto simp: read_escape_iff)
  then show ?case using escape.IH[of "s @ [c]" "pos + 1 + length u"] by (simp add: string_loop.simps[of s "92 # _"])
qed

section \<open>Literals, integers and first bytes\<close>

lemma bind_result_Inr: "bind_result m f = Some (Inr y) \<longleftrightarrow> (\<exists>x. m = Some (Inr x) \<and> f x = Some (Inr y))"
  by (auto simp: bind_result_def split: option.splits sum.splits)

lemma bind_result_simps [simp]: "bind_result (Some (Inr x)) f = f x" "bind_result (Some (Inl e)) f = Some (Inl e)" "bind_result None f = None"
  by (simp_all add: bind_result_def)

lemma expect_lit_iff: "expect_lit lit v cs pos = Inr (x, r, p) \<longleftrightarrow> cs = lit @ r \<and> x = v \<and> p = pos + length lit"
  by (auto simp: expect_lit_def split: if_splits) (metis append_take_drop_id)

lemma digit_run: "list_all ascii_digit ds \<Longrightarrow> r = [] \<or> \<not> ascii_digit (hd r) \<Longrightarrow> takeWhile ascii_digit (ds @ r) = ds \<and> dropWhile ascii_digit (ds @ r) = r"
proof (induction ds)
  case Nil
  then show ?case by (cases r) auto
qed auto

lemma parse_int_sound:
  assumes "parse_int cs pos = Inr (v, r, p)"
  shows "\<exists>t n. cs = t @ r \<and> v = JInt n \<and> int_text t n \<and> int_stop v r \<and> p = pos + length t"
proof -
  define neg where "neg \<longleftrightarrow> (case cs of b # _ \<Rightarrow> b = 45 | [] \<Rightarrow> False)"
  define cs1 where "cs1 = (if neg then tl cs else cs)"
  define ds where "ds = takeWhile ascii_digit cs1"
  define n where "n = (if neg then - digits_value ds else digits_value ds)"
  have cs: "cs = (if neg then 45 # cs1 else cs1)" by (auto simp: neg_def cs1_def split: list.splits)
  have *: "ds \<noteq> []" "r = dropWhile ascii_digit cs1" "i64_range n" "v = JInt n" "p = (if neg then pos + 1 else pos) + length ds"
    "\<not> (case r of b # _ \<Rightarrow> b = 46 \<or> b = 101 \<or> b = 69 | [] \<Rightarrow> False)"
    using assms[unfolded parse_int_def Let_def, folded neg_def, folded cs1_def, folded ds_def, folded n_def]
    by (simp_all split: if_splits)
  have ds: "cs1 = ds @ r" using *(2) by (simp add: ds_def)
  have dg: "list_all ascii_digit ds" by (auto simp: ds_def list_all_iff dest: set_takeWhileD)
  have "int_text (if neg then 45 # ds else ds) n" using * dg by (auto simp: int_text_def n_def)
  moreover have "r = [] \<or> \<not> ascii_digit (hd r)" using *(2) hd_dropWhile[of ascii_digit cs1] by auto
  moreover have "r = [] \<or> hd r \<notin> {46, 101, 69}" using *(6) by (cases r) simp_all
  ultimately have "int_stop v r" using *(4) by (auto simp: int_stop_def)
  moreover have "cs = (if neg then 45 # ds else ds) @ r" using cs ds by simp
  moreover have "p = pos + length (if neg then 45 # ds else ds)" using *(5) by simp
  ultimately show ?thesis using \<open>int_text (if neg then 45 # ds else ds) n\<close> *(4) by blast
qed

lemma parse_int_complete:
  assumes "int_text t n" "int_stop (JInt n) r"
  shows "parse_int (t @ r) pos = Inr (JInt n, r, pos + length t)"
proof -
  from assms(1) obtain ds where ds: "ds \<noteq> []" "list_all ascii_digit ds" "t = ds \<and> n = digits_value ds \<or> t = 45 # ds \<and> n = - digits_value ds"
    "i64_range n" unfolding int_text_def by blast
  have r: "r = [] \<or> \<not> ascii_digit (hd r)" "\<not> (case r of b # _ \<Rightarrow> b = 46 \<or> b = 101 \<or> b = 69 | [] \<Rightarrow> False)"
    using assms(2) by (auto simp: int_stop_def split: list.splits)
  obtain b ds' where b: "ds = b # ds'" "b \<noteq> 45" using ds(1,2) by (cases ds) (auto simp: ascii_digit_def)
  from ds(3) show ?thesis
  proof
    assume "t = ds \<and> n = digits_value ds"
    then show ?thesis using b ds digit_run[OF ds(2) r(1)] r(2) by (auto simp: parse_int_def Let_def)
  next
    assume "t = 45 # ds \<and> n = - digits_value ds"
    then show ?thesis using ds digit_run[OF ds(2) r(1)] r(2) by (auto simp: parse_int_def Let_def)
  qed
qed

text \<open>A value's text starts with a byte that is neither white space nor the end of a list.\<close>

lemma json_text_head:
  assumes "json_text d v t"
  shows "\<exists>b u. t = b # u \<and> \<not> json_space b \<and> b \<notin> {93, 125, 44}"
  using assms
proof (cases rule: json_text.cases)
  case (t_int n)
  then show ?thesis by (auto simp: int_text_def neq_Nil_conv json_space_def ascii_digit_def)
qed (auto simp: json_space_def)

lemma members_head: "members d fs m \<Longrightarrow> \<exists>w m'. m = w @ 34 # m' \<and> ws w"
  by (cases rule: members.cases) auto

lemma elements_head:
  assumes "elements d vs m"
  shows "\<exists>w b m'. m = w @ b # m' \<and> ws w \<and> \<not> json_space b \<and> b \<noteq> 93"
proof -
  from assms obtain w1 v t rest where m: "m = w1 @ t @ rest" "ws w1" "json_text d v t" by (cases rule: elements.cases) auto
  from json_text_head[OF m(3)] obtain b u where "t = b # u" "\<not> json_space b" "b \<noteq> 93" by auto
  with m show ?thesis by (intro exI[of _ w1] exI[of _ b] exI[of _ "u @ rest"]) simp
qed

section \<open>What is accepted is in the language\<close>

lemma reader_sound:
  "parse_value fuel d cs pos = Some (Inr (v, r, p)) \<Longrightarrow>
     \<exists>w t. cs = w @ t @ r \<and> ws w \<and> json_text d v t \<and> int_stop v r \<and> p = pos + length w + length t"
  "object_loop fuel d fields cs pos = Some (Inr (v, r, p)) \<Longrightarrow>
     \<exists>fs m. cs = m @ 125 # r \<and> v = JObj (fields @ fs) \<and> members d fs m \<and> distinct (map fst fs) \<and>
       fst ` set fs \<inter> fst ` set fields = {} \<and> p = pos + length m + 1"
  "array_loop fuel d items cs pos = Some (Inr (v, r, p)) \<Longrightarrow>
     \<exists>vs m. cs = m @ 93 # r \<and> v = JArr (items @ vs) \<and> elements d vs m \<and> p = pos + length m + 1"
proof (induction fuel d cs pos and fuel d fields cs pos and fuel d items cs pos arbitrary: v r p and v r p and v r p
    rule: parse_value_object_loop_array_loop.induct)
  case (2 fuel d cs pos)
  obtain cs1 pos1 where sk: "skip_ws cs pos = (cs1, pos1)" by (cases "skip_ws cs pos")
  from skip_ws_split[OF sk] obtain w where w: "cs = w @ cs1" "ws w" "pos1 = pos + length w" by blast
  from "2.prems" sk obtain b r1 where cs1: "cs1 = b # r1" by (cases cs1) (auto simp: parse_value.simps)
  have "\<exists>t. cs1 = t @ r \<and> json_text d v t \<and> int_stop v r \<and> p = pos1 + length t"
  proof -
    obtain cs2 pos2 where sk2: "skip_ws r1 (pos1 + 1) = (cs2, pos2)" by (cases "skip_ws r1 (pos1 + 1)")
    from skip_ws_split[OF sk2] obtain w2 where w2: "r1 = w2 @ cs2" "ws w2" "pos2 = pos1 + 1 + length w2" by blast
    note prems = "2.prems"[unfolded parse_value.simps sk cs1 prod.case list.case sk2]
    consider (object) "b = 123" | (array) "b = 91" | (string) "b = 34" | (other) "b \<notin> {123, 91, 34}" by blast
    then show ?thesis
    proof cases
      case object
      with prems have d: "d < MAX_DEPTH" by (auto split: if_splits)
      show ?thesis
      proof (cases "peek cs2 = Some 125")
        case True
        then have "cs2 = 125 # r" "v = JObj []" "p = pos2 + 1" using prems object d by (auto simp: peek_def split: list.splits)
        then show ?thesis using cs1 w2 object t_obj0[OF d w2(2)]
          by (intro exI[of _ "123 # w2 @ [125]"]) (auto simp: int_stop_def)
      next
        case False
        then have "object_loop fuel (d + 1) [] cs2 pos2 = Some (Inr (v, r, p))" using prems object d by simp
        from "2.IH"(1)[OF sk[symmetric] cs1 object _ sk2[symmetric] False this] d
        obtain fs m where m: "cs2 = m @ 125 # r" "v = JObj fs" "members (d + 1) fs m" "distinct (map fst fs)" "p = pos2 + length m + 1"
          by auto
        have "members (d + 1) fs (w2 @ m)" using m(3) w2(2)
        proof (cases rule: members.cases)
          case (m_one w1 body k w2' w3 v' t w4)
          then show ?thesis using json_text_members_elements.m_one[of "w2 @ w1" body k w2' w3 "d + 1" v' t w4] w2(2) by simp
        next
          case (m_more w1 body k w2' w3 v' t w4 fs' m')
          then show ?thesis using json_text_members_elements.m_more[of "w2 @ w1" body k w2' w3 "d + 1" v' t w4 fs' m'] w2(2) by simp
        qed
        from t_obj[OF d this m(4)] show ?thesis using cs1 w2 object m
          by (intro exI[of _ "123 # (w2 @ m) @ [125]"]) (auto simp: int_stop_def)
      qed
    next
      case array
      with prems have d: "d < MAX_DEPTH" by (auto split: if_splits)
      show ?thesis
      proof (cases "peek cs2 = Some 93")
        case True
        then have "cs2 = 93 # r" "v = JArr []" "p = pos2 + 1" using prems array d by (auto simp: peek_def split: list.splits)
        then show ?thesis using cs1 w2 array t_arr0[OF d w2(2)]
          by (intro exI[of _ "91 # w2 @ [93]"]) (auto simp: int_stop_def)
      next
        case False
        then have "array_loop fuel (d + 1) [] cs2 pos2 = Some (Inr (v, r, p))" using prems array d by simp
        with "2.IH"(2)[OF sk[symmetric] cs1 _ array _ sk2[symmetric] False this] d array
        obtain vs m where m: "cs2 = m @ 93 # r" "v = JArr vs" "elements (d + 1) vs m" "p = pos2 + length m + 1" by auto
        have "elements (d + 1) vs (w2 @ m)" using m(3)
        proof (cases rule: elements.cases)
          case (e_one w1 v' t w3)
          then show ?thesis using json_text_members_elements.e_one[of "w2 @ w1" "d + 1" v' t w3] w2(2) by simp
        next
          case (e_more w1 v' t w3 vs' m')
          then show ?thesis using json_text_members_elements.e_more[of "w2 @ w1" "d + 1" v' t w3 vs' m'] w2(2) by simp
        qed
        from t_arr[OF d this] show ?thesis using cs1 w2 array m
          by (intro exI[of _ "91 # (w2 @ m) @ [93]"]) (auto simp: int_stop_def)
      qed
    next
      case string
      then obtain s where s: "string_loop [] r1 (pos1 + 1) = Some (Inr (s, r, p))" "v = JStr s"
        using prems by (auto simp: bind_result_Inr parse_string_def)
      then obtain body where "r1 = body @ 34 # r" "string_text body s" "p = pos1 + 1 + length body + 1"
        using string_loop_sound[OF s(1)] by auto
      then show ?thesis using cs1 string s(2) t_str[of body s d]
        by (intro exI[of _ "34 # body @ [34]"]) (auto simp: int_stop_def)
    next
      case other
      then show ?thesis using prems parse_int_sound[of "b # r1" pos1 v r p] cs1
        by (auto simp: expect_lit_iff int_stop_def t_null t_true t_false split: if_splits intro: t_int)
    qed
  qed
  then show ?case using w by auto
next
  case (4 fuel d fields cs pos)
  obtain cs1 pos1 where sk: "skip_ws cs pos = (cs1, pos1)" by (cases "skip_ws cs pos")
  from skip_ws_split[OF sk] obtain w1 where w1: "cs = w1 @ cs1" "ws w1" "pos1 = pos + length w1" by blast
  note prems = "4.prems"[unfolded object_loop.simps sk prod.case]
  then obtain r1 where cs1: "cs1 = 34 # r1" by (auto simp: peek_def split: if_splits list.splits)
  with prems obtain key cs2 pos2 where key: "parse_string cs1 pos1 = Some (Inr (key, cs2, pos2))" "key \<notin> fst ` set fields"
    by (auto simp: peek_def bind_result_Inr split: if_splits)
  from key(1) string_loop_sound[of "[]" r1 "pos1 + 1" key cs2 pos2] cs1 obtain body where body: "r1 = body @ 34 # cs2"
    "string_text body key" "pos2 = pos1 + 1 + length body + 1" by (auto simp: parse_string_def)
  obtain cs3 pos3 where sk3: "skip_ws cs2 pos2 = (cs3, pos3)" by (cases "skip_ws cs2 pos2")
  from skip_ws_split[OF sk3] obtain w2 where w2: "cs2 = w2 @ cs3" "ws w2" "pos3 = pos2 + length w2" by blast
  from prems cs1 key sk3 obtain r3 where cs3: "cs3 = 58 # r3" by (auto simp: peek_def split: if_splits list.splits)
  with prems cs1 key sk3 obtain val cs4 pos4 where val: "parse_value fuel d r3 (pos3 + 1) = Some (Inr (val, cs4, pos4))"
    by (auto simp: peek_def bind_result_Inr)
  have "\<exists>w t. r3 = w @ t @ cs4 \<and> ws w \<and> json_text d val t \<and> int_stop val cs4 \<and> pos4 = pos3 + 1 + length w + length t"
    using "4.IH"(1)[OF sk[symmetric] _ key(2) sk3[symmetric], of val cs4 pos4] val cs1 cs3 by (simp add: peek_def)
  then obtain w3 t where t: "r3 = w3 @ t @ cs4" "ws w3" "json_text d val t" "pos4 = pos3 + 1 + length w3 + length t" by blast
  obtain cs5 pos5 where sk5: "skip_ws cs4 pos4 = (cs5, pos5)" by (cases "skip_ws cs4 pos4")
  from skip_ws_split[OF sk5] obtain w4 where w4: "cs4 = w4 @ cs5" "ws w4" "pos5 = pos4 + length w4" by blast
  from prems cs1 key sk3 cs3 val sk5 consider (more) r5 where "cs5 = 44 # r5"
      "object_loop fuel d (fields @ [(key, val)]) r5 (pos5 + 1) = Some (Inr (v, r, p))"
    | (stop) "cs5 = 125 # r" "v = JObj (fields @ [(key, val)])" "p = pos5 + 1"
    by (auto simp: peek_def split: if_splits list.splits)
  then show ?case
  proof cases
    case more
    have "\<exists>fs m. r5 = m @ 125 # r \<and> v = JObj ((fields @ [(key, val)]) @ fs) \<and> members d fs m \<and> distinct (map fst fs) \<and>
        fst ` set fs \<inter> fst ` set (fields @ [(key, val)]) = {} \<and> p = pos5 + 1 + length m + 1"
      using "4.IH"(2)[OF sk[symmetric] _ key(2) sk3[symmetric] _ sk5[symmetric], of 44 val v r p] more cs1 cs3 by (simp add: peek_def)
    then obtain fs m where m: "r5 = m @ 125 # r" "v = JObj (fields @ (key, val) # fs)" "members d fs m" "distinct (map fst fs)"
      "fst ` set fs \<inter> fst ` set fields = {}" "key \<notin> fst ` set fs" "p = pos5 + 1 + length m + 1" by auto
    from m_more[OF w1(2) body(2) w2(2) t(2,3) w4(2) m(3)] show ?thesis
      using m w1 w2 w4 t body cs1 cs3 more key(2)
      by (intro exI[of _ "(key, val) # fs"] exI[of _ "w1 @ 34 # body @ 34 # w2 @ 58 # w3 @ t @ w4 @ 44 # m"]) auto
  next
    case stop
    from m_one[OF w1(2) body(2) w2(2) t(2,3) w4(2)] show ?thesis
      using w1 w2 w4 t body cs1 cs3 stop key(2)
      by (intro exI[of _ "[(key, val)]"] exI[of _ "w1 @ 34 # body @ 34 # w2 @ 58 # w3 @ t @ w4"]) auto
  qed
next
  case (6 fuel d items cs pos)
  note prems = "6.prems"[unfolded array_loop.simps]
  then obtain val cs1 pos1 where val: "parse_value fuel d cs pos = Some (Inr (val, cs1, pos1))" by (auto simp: bind_result_Inr)
  from "6.IH"(1)[OF val] obtain w1 t where t: "cs = w1 @ t @ cs1" "ws w1" "json_text d val t" "pos1 = pos + length w1 + length t" by blast
  obtain cs2 pos2 where sk: "skip_ws cs1 pos1 = (cs2, pos2)" by (cases "skip_ws cs1 pos1")
  from skip_ws_split[OF sk] obtain w2 where w2: "cs1 = w2 @ cs2" "ws w2" "pos2 = pos1 + length w2" by blast
  from prems val sk consider (more) r2 where "cs2 = 44 # r2" "array_loop fuel d (items @ [val]) r2 (pos2 + 1) = Some (Inr (v, r, p))"
    | (stop) "cs2 = 93 # r" "v = JArr (items @ [val])" "p = pos2 + 1"
    by (auto simp: peek_def split: if_splits list.splits)
  then show ?case
  proof cases
    case more
    have "\<exists>vs m. r2 = m @ 93 # r \<and> v = JArr ((items @ [val]) @ vs) \<and> elements d vs m \<and> p = pos2 + 1 + length m + 1"
      using "6.IH"(2)[OF sk[symmetric], of 44 val v r p] more by (simp add: peek_def)
    then obtain vs m where m: "r2 = m @ 93 # r" "v = JArr (items @ val # vs)" "elements d vs m" "p = pos2 + 1 + length m + 1" by auto
    from e_more[OF t(2,3) w2(2) m(3)] show ?thesis using m t w2 more
      by (intro exI[of _ "val # vs"] exI[of _ "w1 @ t @ w2 @ 44 # m"]) auto
  next
    case stop
    from e_one[OF t(2,3) w2(2)] show ?thesis using t w2 stop
      by (intro exI[of _ "[val]"] exI[of _ "w1 @ t @ w2"]) auto
  qed
qed (simp_all add: parse_value.simps object_loop.simps array_loop.simps)

section \<open>What is in the language is accepted\<close>

lemma not_space [simp]: "\<not> json_space 34" "\<not> json_space 58" "\<not> json_space 44" "\<not> json_space 125" "\<not> json_space 93"
  by (simp_all add: json_space_def)

lemma int_stop_follow: "ws w \<Longrightarrow> b \<in> {44, 93, 125} \<Longrightarrow> int_stop v (w @ b # r)"
  by (cases w) (auto simp: int_stop_def json_space_def ascii_digit_def split: json.splits)

lemma parse_value_ws: "ws w \<Longrightarrow> \<not> json_space b \<Longrightarrow> parse_value fuel d (w @ b # r) pos = parse_value fuel d (b # r) (pos + length w)"
  by (cases fuel) (simp_all add: parse_value.simps skip_ws_all)

lemma object_loop_ws:
  "ws w \<Longrightarrow> \<not> json_space b \<Longrightarrow> object_loop fuel d fields (w @ b # r) pos = object_loop fuel d fields (b # r) (pos + length w)"
  by (cases fuel) (simp_all add: object_loop.simps skip_ws_all)

lemma array_loop_ws:
  "ws w \<Longrightarrow> \<not> json_space b \<Longrightarrow> array_loop fuel d items (w @ b # r) pos = array_loop fuel d items (b # r) (pos + length w)"
  by (cases fuel) (simp_all add: array_loop.simps parse_value_ws)

lemma parse_object:
  assumes "d < MAX_DEPTH" "ws w1" "\<not> json_space b" "b \<noteq> 125"
  shows "parse_value (Suc fuel) d (123 # w1 @ b # r) pos = object_loop fuel (d + 1) [] (w1 @ b # r) (pos + 1)"
  using assms skip_ws_all[of w1 "b # r" "pos + 1"]
  by (simp add: parse_value.simps object_loop_ws peek_def json_space_def)

lemma parse_array:
  assumes "d < MAX_DEPTH" "ws w1" "\<not> json_space b" "b \<noteq> 93"
  shows "parse_value (Suc fuel) d (91 # w1 @ b # r) pos = array_loop fuel (d + 1) [] (w1 @ b # r) (pos + 1)"
  using assms skip_ws_all[of w1 "b # r" "pos + 1"]
  by (simp add: parse_value.simps array_loop_ws peek_def json_space_def)

text \<open>One member, and one element, with what follows it.\<close>

lemma object_member:
  assumes "ws w1" "string_text body k" "ws w2" "ws w4" "\<not> json_space b" "k \<notin> fst ` set fields"
    and "parse_value fuel d (w3 @ t @ w4 @ b # r) (pos + length w1 + length body + length w2 + 3) = Some (Inr (v, w4 @ b # r, pos'))"
  shows "object_loop (Suc fuel) d fields (w1 @ 34 # body @ 34 # w2 @ 58 # w3 @ t @ w4 @ b # r) pos =
    (if b = 44 then object_loop fuel d (fields @ [(k, v)]) r (pos' + length w4 + 1)
     else if b = 125 then Some (Inr (JObj (fields @ [(k, v)]), r, pos' + length w4 + 1))
     else Some (Inl (JSyntax ExpectedCommaOrBrace (pos' + length w4))))"
proof -
  let ?rest = "w3 @ t @ w4 @ b # r"
  have 1: "skip_ws (w1 @ 34 # body @ 34 # w2 @ 58 # ?rest) pos = (34 # body @ 34 # w2 @ 58 # ?rest, pos + length w1)"
    using assms(1) by (simp add: skip_ws_all)
  have 2: "parse_string (34 # body @ 34 # w2 @ 58 # ?rest) (pos + length w1) =
      Some (Inr (k, w2 @ 58 # ?rest, pos + length w1 + 1 + length body + 1))"
    using string_loop_complete[OF assms(2), of "[]" "w2 @ 58 # ?rest" "pos + length w1 + 1"] by (simp add: parse_string_def)
  have 3: "skip_ws (w2 @ 58 # ?rest) (pos + length w1 + 1 + length body + 1) = (58 # ?rest, pos + length w1 + 1 + length body + 1 + length w2)"
    using assms(3) by (simp add: skip_ws_all)
  have 4: "parse_value fuel d ?rest (pos + length w1 + 1 + length body + 1 + length w2 + 1) = Some (Inr (v, w4 @ b # r, pos'))"
    using assms(7) by (simp add: eval_nat_numeral add.commute add.left_commute)
  have 5: "skip_ws (w4 @ b # r) pos' = (b # r, pos' + length w4)" using assms(4,5) by (simp add: skip_ws_all)
  show ?thesis using assms(6) unfolding object_loop.simps 1 prod.case
    by (simp add: peek_def 2[simplified] 3[simplified] 4[simplified] 5)
qed

lemma array_element:
  assumes "ws w2" "\<not> json_space b" "parse_value fuel d cs pos = Some (Inr (v, w2 @ b # r, pos'))"
  shows "array_loop (Suc fuel) d items cs pos =
    (if b = 44 then array_loop fuel d (items @ [v]) r (pos' + length w2 + 1)
     else if b = 93 then Some (Inr (JArr (items @ [v]), r, pos' + length w2 + 1))
     else Some (Inl (JSyntax ExpectedCommaOrBracket (pos' + length w2))))"
  using assms by (simp add: array_loop.simps skip_ws_all peek_def)

text \<open>
  Fuel of twice the bytes left and one or two more is enough, because each value consumes a byte before it calls a loop
  and each loop consumes a byte before it calls itself.
\<close>

lemma parse_literals:
  assumes "ws w" "0 < fuel"
  shows "parse_value fuel d (w @ 110 # 117 # 108 # 108 # r) pos = Some (Inr (JNull, r, pos + length w + 4))"
    "parse_value fuel d (w @ 116 # 114 # 117 # 101 # r) pos = Some (Inr (JBool True, r, pos + length w + 4))"
    "parse_value fuel d (w @ 102 # 97 # 108 # 115 # 101 # r) pos = Some (Inr (JBool False, r, pos + length w + 5))"
  using assms by (cases fuel; simp add: parse_value.simps skip_ws_all json_space_def expect_lit_def)+

lemma reader_complete:
  "json_text d v t \<Longrightarrow> \<forall>fuel w r pos. ws w \<longrightarrow> int_stop v r \<longrightarrow> 2 * length t < fuel \<longrightarrow>
     parse_value fuel d (w @ t @ r) pos = Some (Inr (v, r, pos + length w + length t))"
  "members d fs m \<Longrightarrow> \<forall>fuel fields r pos. 2 * length m < fuel \<longrightarrow> distinct (map fst fs) \<longrightarrow> fst ` set fs \<inter> fst ` set fields = {} \<longrightarrow>
     object_loop fuel d fields (m @ 125 # r) pos = Some (Inr (JObj (fields @ fs), r, pos + length m + 1))"
  "elements d vs m \<Longrightarrow> \<forall>fuel items r pos. 2 * length m + 1 < fuel \<longrightarrow>
     array_loop fuel d items (m @ 93 # r) pos = Some (Inr (JArr (items @ vs), r, pos + length m + 1))"
proof (induction rule: json_text_members_elements.inducts)
  case (t_int t n d)
  show ?case
  proof (intro allI impI)
    fix fuel w r pos assume a: "ws w" "int_stop (JInt n) r" "2 * length t < fuel"
    obtain f where f: "fuel = Suc f" using a(3) by (cases fuel) auto
    obtain b u where t: "t = b # u" "b = 45 \<or> ascii_digit b" "\<not> json_space b"
      using t_int by (auto simp: int_text_def neq_Nil_conv json_space_def ascii_digit_def)
    have "b \<notin> {123, 91, 34, 116, 102, 110}" using t(2) by (auto simp: ascii_digit_def)
    then show "parse_value fuel d (w @ t @ r) pos = Some (Inr (JInt n, r, pos + length w + length t))"
      using parse_int_complete[OF t_int a(2), of "pos + length w"] t a(1) by (auto simp: f skip_ws_all parse_value.simps)
  qed
next
  case (t_str body s d)
  show ?case
  proof (intro allI impI)
    fix fuel w r pos assume a: "ws w" "2 * length (34 # body @ [34]) < fuel"
    then obtain f where f: "fuel = Suc f" by (cases fuel) auto
    show "parse_value fuel d (w @ (34 # body @ [34]) @ r) pos = Some (Inr (JStr s, r, pos + length w + length (34 # body @ [34])))"
      using a(1) string_loop_complete[OF t_str, of "[]" r "pos + length w + 1"]
      by (simp add: f skip_ws_all parse_value.simps parse_string_def)
  qed
next
  case (t_obj d fs m)
  show ?case
  proof (intro allI impI)
    fix fuel w r pos assume a: "ws w" "2 * length (123 # m @ [125]) < fuel"
    obtain f where f: "fuel = Suc f" using a(2) by (cases fuel) auto
    obtain w1 m' where m: "m = w1 @ 34 # m'" "ws w1" using members_head[OF t_obj(2)] by blast
    have "object_loop f (d + 1) [] (m @ 125 # r) (pos + length w + 1) = Some (Inr (JObj fs, r, pos + length w + 1 + length m + 1))"
      using t_obj.IH t_obj.hyps a(2) f by simp
    then show "parse_value fuel d (w @ (123 # m @ [125]) @ r) pos = Some (Inr (JObj fs, r, pos + length w + length (123 # m @ [125])))"
      using a(1) m(2) parse_object[OF t_obj(1) m(2), of 34 f "m' @ 125 # r" "pos + length w"]
      by (simp add: f parse_value_ws m(1) json_space_def)
  qed
next
  case (t_arr d vs m)
  show ?case
  proof (intro allI impI)
    fix fuel w r pos assume a: "ws w" "2 * length (91 # m @ [93]) < fuel"
    obtain f where f: "fuel = Suc f" using a(2) by (cases fuel) auto
    obtain w1 b m' where m: "m = w1 @ b # m'" "ws w1" "\<not> json_space b" "b \<noteq> 93" using elements_head[OF t_arr(2)] by blast
    have "array_loop f (d + 1) [] (m @ 93 # r) (pos + length w + 1) = Some (Inr (JArr vs, r, pos + length w + 1 + length m + 1))"
      using t_arr.IH a(2) f by simp
    then show "parse_value fuel d (w @ (91 # m @ [93]) @ r) pos = Some (Inr (JArr vs, r, pos + length w + length (91 # m @ [93])))"
      using a(1) parse_array[OF t_arr(1) m(2-4), of f "m' @ 93 # r" "pos + length w"]
      by (simp add: f parse_value_ws m(1) json_space_def)
  qed
next
  case (m_one w1 body k w2 w3 d v t w4)
  show ?case
  proof (intro allI impI)
    fix fuel r pos and fields :: "(chars \<times> json) list"
    let ?m = "w1 @ 34 # body @ 34 # w2 @ 58 # w3 @ t @ w4"
    assume a: "2 * length ?m < fuel" "fst ` set [(k, v)] \<inter> fst ` set fields = {}"
    obtain f where f: "fuel = Suc f" using a(1) by (cases fuel) auto
    have "parse_value f d (w3 @ t @ w4 @ 125 # r) (pos + length w1 + length body + length w2 + 3) =
        Some (Inr (v, w4 @ 125 # r, pos + length w1 + length body + length w2 + 3 + length w3 + length t))"
      using m_one.IH m_one(4) int_stop_follow[OF m_one(6), of 125 v r] a(1) f by simp
    from object_member[OF m_one(1,2,3,6) _ _ this, of fields] a(2)
    show "object_loop fuel d fields (?m @ 125 # r) pos = Some (Inr (JObj (fields @ [(k, v)]), r, pos + length ?m + 1))"
      by (simp add: f)
  qed
next
  case (m_more w1 body k w2 w3 d v t w4 fs m)
  show ?case
  proof (intro allI impI)
    fix fuel r pos and fields :: "(chars \<times> json) list"
    let ?m = "w1 @ 34 # body @ 34 # w2 @ 58 # w3 @ t @ w4 @ 44 # m"
    assume a: "2 * length ?m < fuel" "distinct (map fst ((k, v) # fs))" "fst ` set ((k, v) # fs) \<inter> fst ` set fields = {}"
    obtain f where f: "fuel = Suc f" using a(1) by (cases fuel) auto
    have "parse_value f d (w3 @ t @ w4 @ 44 # m @ 125 # r) (pos + length w1 + length body + length w2 + 3) =
        Some (Inr (v, w4 @ 44 # m @ 125 # r, pos + length w1 + length body + length w2 + 3 + length w3 + length t))"
      using m_more.IH(1) m_more(4) int_stop_follow[OF m_more(6), of 44 v "m @ 125 # r"] a(1) f by simp
    from object_member[OF m_more(1,2,3,6) _ _ this, of fields] a(2,3)
    have "object_loop fuel d fields (?m @ 125 # r) pos = object_loop f d (fields @ [(k, v)]) (m @ 125 # r) (pos + length ?m - length m)"
      by (simp add: f algebra_simps)
    moreover have "object_loop f d (fields @ [(k, v)]) (m @ 125 # r) (pos + length ?m - length m) =
        Some (Inr (JObj ((fields @ [(k, v)]) @ fs), r, pos + length ?m - length m + length m + 1))"
      using m_more.IH(2) a f by auto
    ultimately show "object_loop fuel d fields (?m @ 125 # r) pos = Some (Inr (JObj (fields @ (k, v) # fs), r, pos + length ?m + 1))"
      by simp
  qed
next
  case (e_one w1 d v t w2)
  show ?case
  proof (intro allI impI)
    fix fuel items r pos assume a: "2 * length (w1 @ t @ w2) + 1 < fuel"
    obtain f where f: "fuel = Suc f" using a by (cases fuel) auto
    have "parse_value f d (w1 @ t @ w2 @ 93 # r) pos = Some (Inr (v, w2 @ 93 # r, pos + length w1 + length t))"
      using e_one.IH e_one(1) int_stop_follow[OF e_one(3), of 93 v r] a f by simp
    from array_element[OF e_one(3) _ this, of items]
    show "array_loop fuel d items ((w1 @ t @ w2) @ 93 # r) pos = Some (Inr (JArr (items @ [v]), r, pos + length (w1 @ t @ w2) + 1))"
      by (simp add: f)
  qed
next
  case (e_more w1 d v t w2 vs m)
  show ?case
  proof (intro allI impI)
    fix fuel items r pos
    let ?m = "w1 @ t @ w2 @ 44 # m"
    assume a: "2 * length ?m + 1 < fuel"
    obtain f where f: "fuel = Suc f" using a by (cases fuel) auto
    have "parse_value f d (w1 @ t @ w2 @ 44 # m @ 93 # r) pos = Some (Inr (v, w2 @ 44 # m @ 93 # r, pos + length w1 + length t))"
      using e_more.IH(1) e_more(1) int_stop_follow[OF e_more(3), of 44 v "m @ 93 # r"] a f by simp
    from array_element[OF e_more(3) _ this, of items]
    have "array_loop fuel d items (?m @ 93 # r) pos = array_loop f d (items @ [v]) (m @ 93 # r) (pos + length ?m - length m)"
      by (simp add: f add.assoc)
    moreover have "array_loop f d (items @ [v]) (m @ 93 # r) (pos + length ?m - length m) =
        Some (Inr (JArr ((items @ [v]) @ vs), r, pos + length ?m - length m + length m + 1))"
      using e_more.IH(2) a f by auto
    ultimately show "array_loop fuel d items (?m @ 93 # r) pos = Some (Inr (JArr (items @ v # vs), r, pos + length ?m + 1))"
      by simp
  qed
next
  case (t_obj0 d w)
  show ?case
  proof (intro allI impI)
    fix fuel u r pos assume a: "ws u" "2 * length (123 # w @ [125]) < fuel"
    obtain f where f: "fuel = Suc f" using a(2) by (cases fuel) auto
    show "parse_value fuel d (u @ (123 # w @ [125]) @ r) pos = Some (Inr (JObj [], r, pos + length u + length (123 # w @ [125])))"
      using a(1) t_obj0 skip_ws_all[OF t_obj0(2), of "125 # r" "pos + length u + 1"]
      by (simp add: f skip_ws_all parse_value.simps peek_def json_space_def)
  qed
next
  case (t_arr0 d w)
  show ?case
  proof (intro allI impI)
    fix fuel u r pos assume a: "ws u" "2 * length (91 # w @ [93]) < fuel"
    obtain f where f: "fuel = Suc f" using a(2) by (cases fuel) auto
    show "parse_value fuel d (u @ (91 # w @ [93]) @ r) pos = Some (Inr (JArr [], r, pos + length u + length (91 # w @ [93])))"
      using a(1) t_arr0 skip_ws_all[OF t_arr0(2), of "93 # r" "pos + length u + 1"]
      by (simp add: f skip_ws_all parse_value.simps peek_def json_space_def)
  qed
next
  case (t_null d)
  show ?case by (auto dest!: less_imp_Suc_add simp: parse_literals)
next
  case (t_true d)
  show ?case by (auto dest!: less_imp_Suc_add simp: parse_literals)
next
  case (t_false d)
  show ?case by (auto dest!: less_imp_Suc_add simp: parse_literals)
qed


section \<open>The reader returns\<close>

text \<open>A text that ends between characters leaves valid text behind.\<close>

definition whole :: "text_bytes \<Rightarrow> bool" where
  "whole u \<longleftrightarrow> (\<forall>r. utf8_valid (u @ r) \<longrightarrow> utf8_valid r)"

lemma whole_Nil [simp]: "whole []"
  by (simp add: whole_def)

lemma whole_append: "whole u \<Longrightarrow> whole t \<Longrightarrow> whole (u @ t)"
  unfolding whole_def by (metis append_assoc)

lemma whole_ascii: "list_all (\<lambda>b. b < 128) u \<Longrightarrow> whole u"
proof (induction u)
  case (Cons b u)
  have "utf8_valid (b # r) \<Longrightarrow> utf8_valid r" for r
    using Cons.prems by (simp add: utf8_valid.simps[of "b # r"] utf8_step_def)
  moreover have "whole u" using Cons by simp
  ultimately show ?case unfolding whole_def by (metis append_Cons)
qed simp

lemma whole_Cons: "b < 128 \<Longrightarrow> whole u \<Longrightarrow> whole (b # u)"
  using whole_append[of "[b]" u] whole_ascii[of "[b]"] by simp

lemma whole_char: "utf8_step u = Some (c, []) \<Longrightarrow> whole u"
  unfolding whole_def
proof (intro allI impI)
  fix r assume u: "utf8_step u = Some (c, [])" and v: "utf8_valid (u @ r)"
  from utf8_step_append[OF u, of r] have "utf8_step (u @ r) = Some (c, r)" by simp
  moreover have "u \<noteq> []" using u by (auto simp: utf8_step_def)
  ultimately show "utf8_valid r" using v by (simp add: utf8_valid.simps[of "u @ r"])
qed

lemma hex_digit_ascii: "hex_digit d = Some v \<Longrightarrow> d < 128"
  by (auto simp: hex_digit_def ascii_digit_def split: if_splits)

lemma hex_value_ascii: "hex_value n h \<noteq> None \<Longrightarrow> list_all (\<lambda>b. b < 128) h"
  by (induction n h rule: hex_value.induct) (auto split: option.splits dest: hex_digit_ascii)

lemma hex_text_whole: "hex_text h n \<Longrightarrow> whole h"
  using hex_value_ascii[of 0 h] by (auto simp: hex_text_def intro: whole_ascii)

lemma short_escape_ascii: "short_escape e = Some c \<Longrightarrow> e < 128"
  by (auto simp: short_escape_def split: if_splits)

lemma escape_text_whole: "escape_text u c \<Longrightarrow> whole u"
  by (induction rule: escape_text.induct)
    (auto intro!: whole_Cons whole_append dest!: hex_text_whole short_escape_ascii)

lemma string_text_whole: "string_text t s \<Longrightarrow> whole t"
  by (induction rule: string_text.induct) (auto intro!: whole_Cons whole_append dest!: whole_char escape_text_whole)

lemma ws_whole: "ws w \<Longrightarrow> whole w"
  by (rule whole_ascii) (auto simp: ws_def list_all_iff json_space_def)

lemma int_text_whole: "int_text t n \<Longrightarrow> whole t"
  by (rule whole_ascii) (fastforce simp: int_text_def list_all_iff ascii_digit_def)

lemma grammar_whole:
  "json_text d v t \<Longrightarrow> whole t" "members d fs m \<Longrightarrow> whole m" "elements d vs m \<Longrightarrow> whole m"
  by (induction rule: json_text_members_elements.inducts)
    (auto intro!: whole_Cons whole_append dest!: ws_whole string_text_whole int_text_whole)

lemma whole_rest: "whole u \<Longrightarrow> utf8_valid (u @ r) \<Longrightarrow> utf8_valid r"
  unfolding whole_def by blast

lemma utf8_valid_step: "utf8_valid (b # r) \<Longrightarrow> utf8_step (b # r) \<noteq> None"
  by (auto simp: utf8_valid.simps[of "b # r"] split: option.splits)

lemma string_loop_returns: "utf8_valid cs \<Longrightarrow> string_loop s cs pos \<noteq> None"
proof (induction s cs pos rule: string_loop.induct)
  case (1 s cs pos)
  show ?case
  proof (cases cs)
    case (Cons b t)
    consider (last) "b = 34 \<or> b \<noteq> 92 \<and> b < 32" | (escape) "b = 92" | (plain) "b \<noteq> 34" "b \<noteq> 92" "\<not> b < 32" by blast
    then show ?thesis
    proof cases
      case escape
      show ?thesis
      proof (cases "read_escape t (pos + 1)")
        case (Inr x)
        obtain c t' p' where x: "x = (c, t', p')" by (cases x)
        then obtain u where u: "t = u @ t'" "escape_text u c" using Inr by (auto simp: read_escape_iff)
        have "utf8_valid t'" using "1.prems" Cons escape u whole_rest[OF whole_Cons[OF _ escape_text_whole[OF u(2)]], of 92 t'] by simp
        then show ?thesis using "1.IH"(1)[OF Cons] escape Inr x Cons by (simp add: string_loop.simps[of s "92 # t"])
      qed (use Cons escape in \<open>simp add: string_loop.simps[of s "92 # t"]\<close>)
    next
      case plain
      then obtain c t' where st: "utf8_step (b # t) = Some (c, t')" using utf8_valid_step "1.prems" Cons by fastforce
      then have "utf8_valid t'" using "1.prems" Cons by (simp add: utf8_valid.simps[of "b # t"])
      then show ?thesis using "1.IH"(2)[OF Cons] plain st Cons by (simp add: string_loop.simps[of s "b # t"])
    qed (use Cons in \<open>auto simp: string_loop.simps[of s "b # t"]\<close>)
  qed (simp add: string_loop.simps)
qed

lemma parse_string_returns: "utf8_valid (34 # r) \<Longrightarrow> parse_string (34 # r) pos \<noteq> None"
  using string_loop_returns[of r "[]" "pos + 1"] whole_rest[OF whole_ascii[of "[34]"], of r] by (simp add: parse_string_def)

lemma bind_result_returns: "m \<noteq> None \<Longrightarrow> (\<And>x. m = Some (Inr x) \<Longrightarrow> f x \<noteq> None) \<Longrightarrow> bind_result m f \<noteq> None"
  by (auto simp: bind_result_def split: sum.splits)

lemma bind_result_ex: "(\<And>x. y = Inr x \<Longrightarrow> \<exists>z. f x = Some z) \<Longrightarrow> \<exists>z. bind_result (Some y) f = Some z"
  by (auto simp: bind_result_def split: sum.splits)

lemma peek_Some: "peek cs = Some b \<longleftrightarrow> (\<exists>r. cs = b # r)"
  by (auto simp: peek_def split: list.splits)

lemma reader_returns:
  "utf8_valid cs \<Longrightarrow> 2 * length cs < fuel \<Longrightarrow> parse_value fuel d cs pos \<noteq> None"
  "utf8_valid cs \<Longrightarrow> 2 * length cs + 1 < fuel \<Longrightarrow> object_loop fuel d fields cs pos \<noteq> None"
  "utf8_valid cs \<Longrightarrow> 2 * length cs + 1 < fuel \<Longrightarrow> array_loop fuel d items cs pos \<noteq> None"
proof (induction fuel d cs pos and fuel d fields cs pos and fuel d items cs pos
    rule: parse_value_object_loop_array_loop.induct)
  case (2 fuel d cs pos)
  obtain cs1 pos1 where sk: "skip_ws cs pos = (cs1, pos1)" by (cases "skip_ws cs pos")
  from skip_ws_split[OF sk] obtain w where w: "cs = w @ cs1" "ws w" by blast
  have v1: "utf8_valid cs1" using w "2.prems"(1) whole_rest[OF ws_whole] by blast
  show ?case
  proof (cases cs1)
    case (Cons b r1)
    obtain cs2 pos2 where sk2: "skip_ws r1 (pos1 + 1) = (cs2, pos2)" by (cases "skip_ws r1 (pos1 + 1)")
    from skip_ws_split[OF sk2] obtain w2 where w2: "r1 = w2 @ cs2" "ws w2" by blast
    have l: "2 * length cs2 + 1 < fuel" using w w2 Cons "2.prems"(2) by simp
    have v2: "utf8_valid cs2" if "b < 128"
      using v1 Cons w2 whole_rest[OF whole_Cons[OF that ws_whole[OF w2(2)]], of cs2] by simp
    consider (object) "b = 123" | (array) "b = 91" | (string) "b = 34" | (other) "b \<noteq> 123" "b \<noteq> 91" "b \<noteq> 34" by blast
    then show ?thesis
    proof cases
      case object
      then show ?thesis using "2.IH"(1)[OF sk[symmetric] Cons object _ sk2[symmetric] _ v2 l] v2 l
        by (simp add: parse_value.simps sk Cons sk2[simplified])
    next
      case array
      then show ?thesis using "2.IH"(2)[OF sk[symmetric] Cons _ array _ sk2[symmetric] _ v2 l] v2 l
        by (simp add: parse_value.simps sk Cons sk2[simplified])
    next
      case string
      then have "parse_value (Suc fuel) d cs pos = bind_result (parse_string cs1 pos1) (\<lambda>(s, r, pos). Some (Inr (JStr s, r, pos)))"
        by (simp add: parse_value.simps sk Cons)
      moreover have "parse_string cs1 pos1 \<noteq> None" using parse_string_returns v1 Cons string by blast
      ultimately show ?thesis using bind_result_returns by (metis (no_types, lifting) case_prod_beta option.distinct(1))
    qed (simp add: parse_value.simps sk Cons)
  qed (simp add: parse_value.simps sk)
next
  case (4 fuel d fields cs pos)
  obtain cs1 pos1 where sk: "skip_ws cs pos = (cs1, pos1)" by (cases "skip_ws cs pos")
  from skip_ws_split[OF sk] obtain w where w: "cs = w @ cs1" "ws w" by blast
  have v1: "utf8_valid cs1" using w "4.prems"(1) whole_rest[OF ws_whole] by blast
  show ?case
  proof (cases "peek cs1 = Some 34")
    case True
    then obtain r1 where cs1: "cs1 = 34 # r1" by (auto simp: peek_Some)
    have "bind_result (parse_string cs1 pos1) (\<lambda>(key, cs1, pos1').
          if key \<in> fst ` set fields then Some (Inl (DuplicateKey key pos1))
          else case skip_ws cs1 pos1' of (cs2, pos2) \<Rightarrow>
            if peek cs2 \<noteq> Some 58 then Some (Inl (JSyntax ExpectedColon pos2))
            else bind_result (parse_value fuel d (tl cs2) (pos2 + 1)) (\<lambda>(v, cs3, pos3).
              case skip_ws cs3 pos3 of (cs4, pos4) \<Rightarrow>
                case peek cs4 of
                  None \<Rightarrow> Some (Inl UnexpectedEof)
                | Some b \<Rightarrow>
                    if b = 44 then object_loop fuel d (fields @ [(key, v)]) (tl cs4) (pos4 + 1)
                    else if b = 125 then Some (Inr (JObj (fields @ [(key, v)]), tl cs4, pos4 + 1))
                    else Some (Inl (JSyntax ExpectedCommaOrBrace pos4)))) \<noteq> None"
    proof (rule bind_result_returns)
      show "parse_string cs1 pos1 \<noteq> None" using v1 cs1 parse_string_returns by blast
      fix x assume "parse_string cs1 pos1 = Some (Inr x)"
      moreover obtain key cs2 pos2 where x: "x = (key, cs2, pos2)" by (cases x)
      ultimately obtain body where body: "r1 = body @ 34 # cs2" "string_text body key"
        using string_loop_sound[of "[]" r1 "pos1 + 1" key cs2 pos2] cs1 by (auto simp: parse_string_def)
      obtain cs3 pos3 where sk3: "skip_ws cs2 pos2 = (cs3, pos3)" by (cases "skip_ws cs2 pos2")
      from skip_ws_split[OF sk3] obtain w2 where w2: "cs2 = w2 @ cs3" "ws w2" by blast
      have "whole (34 # body @ 34 # w2)" using string_text_whole[OF body(2)] ws_whole[OF w2(2)] by (simp add: whole_Cons whole_append)
      then have v3: "utf8_valid cs3" using v1 cs1 body w2 whole_rest[of "34 # body @ 34 # w2" cs3] by simp
      have rest: "(case skip_ws cs4 pos4 of (cs5, pos5) \<Rightarrow>
            case peek cs5 of
              None \<Rightarrow> Some (Inl UnexpectedEof)
            | Some b \<Rightarrow>
                if b = 44 then object_loop fuel d (fields @ [(key, v)]) (tl cs5) (pos5 + 1)
                else if b = 125 then Some (Inr (JObj (fields @ [(key, v)]), tl cs5, pos5 + 1))
                else Some (Inl (JSyntax ExpectedCommaOrBrace pos5))) \<noteq> None"
        if pv: "parse_value fuel d r3 (pos3 + 1) = Some (Inr (v, cs4, pos4))" and cs3: "cs3 = 58 # r3"
          and nk: "key \<notin> fst ` set fields" for v cs4 pos4 r3
      proof -
        from reader_sound(1)[OF pv] obtain w3 t where t: "r3 = w3 @ t @ cs4" "ws w3" "json_text d v t" by blast
        obtain cs5 pos5 where sk5: "skip_ws cs4 pos4 = (cs5, pos5)" by (cases "skip_ws cs4 pos4")
        from skip_ws_split[OF sk5] obtain w4 where w4: "cs4 = w4 @ cs5" "ws w4" by blast
        show ?thesis
        proof (cases "peek cs5 = Some 44")
          case True
          then obtain r5 where cs5: "cs5 = 44 # r5" by (auto simp: peek_Some)
          have "whole (58 # w3 @ t @ w4 @ [44])"
            using ws_whole[OF t(2)] grammar_whole(1)[OF t(3)] ws_whole[OF w4(2)] by (simp add: whole_Cons whole_append)
          then have "utf8_valid r5" using v3 cs3 t w4 cs5 whole_rest[of "58 # w3 @ t @ w4 @ [44]" r5] by simp
          moreover have "2 * length r5 + 1 < fuel" using "4.prems"(2) w cs1 body w2 cs3 t w4 cs5 by simp
          ultimately have "object_loop fuel d (fields @ [(key, v)]) (tl cs5) (pos5 + 1) \<noteq> None"
            using "4.IH"(2)[OF sk[symmetric] _ nk sk3[symmetric] _ sk5[symmetric] True refl] cs1 cs3 cs5 by (simp add: peek_def)
          then show ?thesis using sk5 True by simp
        qed (simp add: sk5 split: option.splits)
      qed
      have "parse_value fuel d (tl cs3) (pos3 + 1) \<noteq> None" if "peek cs3 = Some 58" "key \<notin> fst ` set fields"
      proof -
        from that(1) obtain r3 where cs3: "cs3 = 58 # r3" by (auto simp: peek_Some)
        have "utf8_valid r3" using v3 cs3 whole_rest[OF whole_ascii[of "[58]"], of r3] by simp
        moreover have "2 * length r3 < fuel" using "4.prems"(2) w cs1 body w2 cs3 by simp
        ultimately show ?thesis using "4.IH"(1)[OF sk[symmetric] _ that(2) sk3[symmetric]] cs1 cs3 by (simp add: peek_def)
      qed
      then show "(case x of (key, cs1, pos1') \<Rightarrow>
          if key \<in> fst ` set fields then Some (Inl (DuplicateKey key pos1))
          else case skip_ws cs1 pos1' of (cs2, pos2) \<Rightarrow>
            if peek cs2 \<noteq> Some 58 then Some (Inl (JSyntax ExpectedColon pos2))
            else bind_result (parse_value fuel d (tl cs2) (pos2 + 1)) (\<lambda>(v, cs3, pos3).
              case skip_ws cs3 pos3 of (cs4, pos4) \<Rightarrow>
                case peek cs4 of
                  None \<Rightarrow> Some (Inl UnexpectedEof)
                | Some b \<Rightarrow>
                    if b = 44 then object_loop fuel d (fields @ [(key, v)]) (tl cs4) (pos4 + 1)
                    else if b = 125 then Some (Inr (JObj (fields @ [(key, v)]), tl cs4, pos4 + 1))
                    else Some (Inl (JSyntax ExpectedCommaOrBrace pos4)))) \<noteq> None"
        using rest by (auto simp: x sk3 peek_Some intro!: bind_result_ex)
    qed
    then show ?thesis using True by (simp add: object_loop.simps sk)
  qed (simp add: object_loop.simps sk)
next
  case (6 fuel d items cs pos)
  show ?case unfolding array_loop.simps
  proof (rule bind_result_returns)
    show "parse_value fuel d cs pos \<noteq> None" using "6.IH"(1) "6.prems" by simp
    fix x assume pv: "parse_value fuel d cs pos = Some (Inr x)"
    obtain v cs1 pos1 where x: "x = (v, cs1, pos1)" by (cases x)
    from reader_sound(1)[OF pv[unfolded x]] obtain w1 t where t: "cs = w1 @ t @ cs1" "ws w1" "json_text d v t" by blast
    obtain cs2 pos2 where sk: "skip_ws cs1 pos1 = (cs2, pos2)" by (cases "skip_ws cs1 pos1")
    from skip_ws_split[OF sk] obtain w2 where w2: "cs1 = w2 @ cs2" "ws w2" by blast
    show "(case x of (v, cs1, pos1) \<Rightarrow> case skip_ws cs1 pos1 of (cs2, pos2) \<Rightarrow>
         case peek cs2 of
           None \<Rightarrow> Some (Inl UnexpectedEof)
         | Some b \<Rightarrow>
             if b = 44 then array_loop fuel d (items @ [v]) (tl cs2) (pos2 + 1)
             else if b = 93 then Some (Inr (JArr (items @ [v]), tl cs2, pos2 + 1))
             else Some (Inl (JSyntax ExpectedCommaOrBracket pos2))) \<noteq> None"
    proof (cases "peek cs2 = Some 44")
      case True
      then obtain r2 where cs2: "cs2 = 44 # r2" by (auto simp: peek_Some)
      have "whole (w1 @ t @ w2 @ [44])"
        using ws_whole[OF t(2)] grammar_whole(1)[OF t(3)] ws_whole[OF w2(2)] by (simp add: whole_Cons whole_append)
      then have "utf8_valid r2" using "6.prems"(1) t w2 cs2 whole_rest[of "w1 @ t @ w2 @ [44]" r2] by simp
      moreover obtain b u where "t = b # u" using json_text_head[OF t(3)] by blast
      ultimately have "array_loop fuel d (items @ [v]) (tl cs2) (pos2 + 1) \<noteq> None"
        using "6.IH"(2)[OF sk[symmetric] True refl, of v] cs2 "6.prems"(2) t w2 by simp
      then show ?thesis using x sk True by simp
    qed (simp add: x sk split: option.splits)
  qed
qed (simp_all add: parse_value.simps object_loop.simps array_loop.simps)


section \<open>Strict values\<close>

fun json_ok :: "nat \<Rightarrow> json \<Rightarrow> bool" where
  "json_ok d JNull = True"
| "json_ok d (JBool b) = True"
| "json_ok d (JInt n) = i64_range n"
| "json_ok d (JStr s) = list_all is_scalar s"
| "json_ok d (JArr vs) = (d < MAX_DEPTH \<and> list_all (json_ok (d + 1)) vs)"
| "json_ok d (JObj fs) =
     (d < MAX_DEPTH \<and> distinct (map fst fs) \<and> list_all (\<lambda>(k, v). list_all is_scalar k \<and> json_ok (d + 1) v) fs)"

lemma utf8_step_scalar:
  assumes "utf8_step cs = Some (c, r)"
  shows "is_scalar c"
proof -
  obtain b cs' where cs: "cs = b # cs'" using assms by (cases cs) (auto simp: utf8_step_def)
  note s = assms[unfolded cs utf8_step_def list.case continuation_def]
  consider (one) "b < 128" | (two) "194 \<le> b" "b \<le> 223" | (three) "224 \<le> b" "b \<le> 239" | (four) "240 \<le> b" "b \<le> 244"
    using s by (auto split: if_splits)
  then show ?thesis
  proof cases
    case two
    then obtain c1 where c1: "128 \<le> c1" "c1 \<le> 191" "c = (b - 192) * 64 + (c1 - 128)"
      using s by (auto split: list.splits if_splits)
    have "c1 - 128 \<le> 63" "b - 192 \<le> 31" using c1 two by linarith+
    then show ?thesis using c1(3) by (simp add: is_scalar_def)
  next
    case three
    then obtain c1 c2 where c: "128 \<le> c1" "c1 \<le> 191" "b = 237 \<longrightarrow> c1 \<le> 159" "128 \<le> c2" "c2 \<le> 191"
      "c = (b - 224) * 4096 + (c1 - 128) * 64 + (c2 - 128)"
      using s by (auto split: list.splits if_splits)
    have m: "c1 - 128 \<le> 63" "c2 - 128 \<le> 63" using c by linarith+
    consider "b - 224 \<le> 12" | "b = 237" | "14 \<le> b - 224" "b - 224 \<le> 15" using three by linarith
    then show ?thesis
    proof cases
      case 2
      then have "c1 - 128 \<le> 31" using c by linarith
      then show ?thesis using m c(6) 2 by (simp add: is_scalar_def)
    qed (use m c(6) in \<open>simp_all add: is_scalar_def\<close>)
  next
    case four
    then obtain c1 c2 c3 where c: "128 \<le> c1" "c1 \<le> 191" "b = 240 \<longrightarrow> 144 \<le> c1" "b = 244 \<longrightarrow> c1 \<le> 143" "128 \<le> c2" "c2 \<le> 191"
      "128 \<le> c3" "c3 \<le> 191" "c = (b - 240) * 262144 + (c1 - 128) * 4096 + (c2 - 128) * 64 + (c3 - 128)"
      using s by (auto split: list.splits if_splits)
    have m: "c1 - 128 \<le> 63" "c2 - 128 \<le> 63" "c3 - 128 \<le> 63" using c by linarith+
    consider "b = 240" | "1 \<le> b - 240" "b - 240 \<le> 3" | "b = 244" using four by linarith
    then show ?thesis
    proof cases
      case 1
      then have "16 \<le> c1 - 128" using c by linarith
      then show ?thesis using m c(9) 1 by (simp add: is_scalar_def)
    next
      case 3
      then have "c1 - 128 \<le> 15" using c by linarith
      then show ?thesis using m c(9) 3 by (simp add: is_scalar_def)
    qed (use m c(9) in \<open>simp_all add: is_scalar_def\<close>)
  qed (use s in \<open>auto simp: is_scalar_def\<close>)
qed

lemma escape_text_scalar: "escape_text u c \<Longrightarrow> is_scalar c"
proof (induction rule: escape_text.induct)
  case (short e c)
  then show ?case by (auto simp: short_escape_def is_scalar_def split: if_splits)
next
  case (basic h n)
  then show ?case using hex_text_bound[OF basic(1)] by (auto simp: is_scalar_def)
qed (auto simp: is_scalar_def)

lemma string_text_scalars: "string_text t s \<Longrightarrow> list_all is_scalar s"
  by (induction rule: string_text.induct) (auto dest: utf8_step_scalar escape_text_scalar)

lemma grammar_ok:
  "json_text d v t \<Longrightarrow> json_ok d v"
  "members d fs m \<Longrightarrow> list_all (\<lambda>(k, v). list_all is_scalar k \<and> json_ok d v) fs"
  "elements d vs m \<Longrightarrow> list_all (json_ok d) vs"
  by (induction rule: json_text_members_elements.inducts)
    (auto simp: int_text_def dest: string_text_scalars)

lemma json_get_field: "distinct (map fst fs) \<Longrightarrow> json_get (JObj fs) k = Some v \<longleftrightarrow> (k, v) \<in> set fs"
proof -
  have "map_option snd (find (\<lambda>(k', _). k' = k) fs) = map_of fs k" by (induction fs) auto
  then show "distinct (map fst fs) \<Longrightarrow> ?thesis" by (simp add: json_get_def as_obj_def)
qed

lemma int_stop_ws: "ws w \<Longrightarrow> int_stop v w"
  by (cases w) (auto simp: int_stop_def json_space_def ascii_digit_def split: json.splits)

lemma parse_document_iff:
  "parse_document bytes = Some (Inr v) \<longleftrightarrow>
     length bytes \<le> MAX_KB_JSON_BYTES \<and> utf8_valid bytes \<and> (\<exists>w t w'. bytes = w @ t @ w' \<and> ws w \<and> ws w' \<and> json_text 0 v t)"
proof
  assume p: "parse_document bytes = Some (Inr v)"
  obtain cs pos where sk: "skip_ws bytes 0 = (cs, pos)" by (cases "skip_ws bytes 0")
  have l: "length bytes \<le> MAX_KB_JSON_BYTES" "utf8_valid bytes" using p by (auto simp: parse_document_def split: if_splits)
  with p sk obtain x where x: "parse_value (2 * length bytes + 1) 0 cs pos = Some (Inr x)"
    "(case x of (v, cs, pos) \<Rightarrow> case skip_ws cs pos of (cs, pos) \<Rightarrow> if cs \<noteq> [] then Some (Inl (TrailingBytes pos)) else Some (Inr v)) = Some (Inr v)"
    by (auto simp: parse_document_def bind_result_Inr)
  obtain v1 r p1 where x1: "x = (v1, r, p1)" by (cases x)
  obtain r2 p2 where sk2: "skip_ws r p1 = (r2, p2)" by (cases "skip_ws r p1")
  with x x1 have r: "length bytes \<le> MAX_KB_JSON_BYTES" "utf8_valid bytes"
    "parse_value (2 * length bytes + 1) 0 cs pos = Some (Inr (v, r, p1))" "r2 = []"
    using l by (auto split: if_splits)
  from reader_sound(1)[OF r(3)] obtain w t where t: "cs = w @ t @ r" "ws w" "json_text 0 v t" by blast
  obtain w0 where w0: "bytes = w0 @ cs" "ws w0" using skip_ws_split[OF sk] by blast
  have "ws r" using skip_ws_split[OF sk2] r(4) by auto
  with r t w0 show "length bytes \<le> MAX_KB_JSON_BYTES \<and> utf8_valid bytes \<and> (\<exists>w t w'. bytes = w @ t @ w' \<and> ws w \<and> ws w' \<and> json_text 0 v t)"
    by (intro conjI exI[of _ "w0 @ w"] exI[of _ t] exI[of _ r]) auto
next
  assume "length bytes \<le> MAX_KB_JSON_BYTES \<and> utf8_valid bytes \<and> (\<exists>w t w'. bytes = w @ t @ w' \<and> ws w \<and> ws w' \<and> json_text 0 v t)"
  then obtain w t w' where b: "length bytes \<le> MAX_KB_JSON_BYTES" "utf8_valid bytes" "bytes = w @ t @ w'" "ws w" "ws w'" "json_text 0 v t"
    by blast
  obtain x u where "t = x # u" "\<not> json_space x" using json_text_head[OF b(6)] by blast
  then have sk: "skip_ws bytes 0 = (t @ w', length w)" using b(3,4) by (simp add: skip_ws_all)
  have pv: "parse_value (2 * length bytes + 1) 0 (t @ w') (length w) = Some (Inr (v, w', length w + length t))"
    using reader_complete(1)[OF b(6), rule_format, of "[]" w' "2 * length bytes + 1" "length w"] int_stop_ws[OF b(5)] b(3) by simp
  have "skip_ws w' (length w + length t) = ([], length w + length t + length w')" using skip_ws_all[OF b(5), of "[]"] by simp
  then show "parse_document bytes = Some (Inr v)" using b(1,2) sk pv by (simp add: parse_document_def)
qed

section \<open>Properties\<close>

text \<open>
  C31. The strict reader accepts exactly its language: a document within the size limit that is valid UTF-8 reads as a
  value precisely when it is white space around a text of that value, of depth at most sixteen, without repeated keys,
  whose numbers are integers in range and whose strings have only known escapes.
\<close>

theorem json_accepts_exactly:
  "parse_document bytes = Some (Inr v) \<longleftrightarrow>
     length bytes \<le> MAX_KB_JSON_BYTES \<and> utf8_valid bytes \<and> (\<exists>w t w'. bytes = w @ t @ w' \<and> ws w \<and> ws w' \<and> json_text 0 v t)"
  by (rule parse_document_iff)

text \<open>
  C32. The reader returns on every input, with a value or an error and never with a panic; what it returns has
  no repeated keys, so a field lookup finds the only field of that name.
\<close>

theorem json_reader_total:
  "\<exists>res. parse_document bytes = Some res \<and>
     (case res of
        Inl e \<Rightarrow> True
      | Inr v \<Rightarrow> json_ok 0 v \<and> (\<forall>fs k x. v = JObj fs \<longrightarrow> (json_get v k = Some x \<longleftrightarrow> (k, x) \<in> set fs)))"
proof -
  obtain cs pos where sk: "skip_ws bytes 0 = (cs, pos)" by (cases "skip_ws bytes 0")
  obtain w where w: "bytes = w @ cs" "ws w" using skip_ws_split[OF sk] by blast
  have "parse_value (2 * length bytes + 1) 0 cs pos \<noteq> None" if "utf8_valid bytes"
    using reader_returns(1) whole_rest[OF ws_whole[OF w(2)]] that w(1) by simp
  then have "bind_result (parse_value (2 * length bytes + 1) 0 cs pos) (\<lambda>(v, cs, pos). case skip_ws cs pos of (cs, pos) \<Rightarrow>
      if cs \<noteq> [] then Some (Inl (TrailingBytes pos)) else Some (Inr v)) \<noteq> None" if "utf8_valid bytes"
    using that by (intro bind_result_returns) (auto split: prod.splits)
  then have "parse_document bytes \<noteq> None" unfolding parse_document_def sk prod.case by (simp split: if_splits)
  then obtain res where res: "parse_document bytes = Some res" by blast
  have "json_ok 0 v" if "res = Inr v" for v
    using res that grammar_ok(1) by (auto simp: parse_document_iff)
  then show ?thesis using res json_get_field by (auto split: sum.splits)
qed

text \<open>Numbers with leading zeros and a negative zero are admitted, although the schema admits only canonical forms.\<close>

lemma noncanonical_integers_admitted:
  "parse_document [48, 48, 55] = Some (Inr (JInt 7))" "parse_document [45, 48] = Some (Inr (JInt 0))"
proof -
  have v: "utf8_valid [48, 48, 55]" "utf8_valid [45, 48]" by (simp_all add: utf8_valid.simps utf8_step_def)
  have "int_text [48, 48, 55] 7" "int_text [45, 48] 0" unfolding int_text_def
    by (auto simp: i64_range_def ascii_digit_def digits_value_def intro!: exI[of _ "[48, 48, 55]"] exI[of _ "[48]"])
  then have t: "json_text 0 (JInt 7) [48, 48, 55]" "json_text 0 (JInt 0) [45, 48]" by (simp_all add: t_int)
  show "parse_document [48, 48, 55] = Some (Inr (JInt 7))" "parse_document [45, 48] = Some (Inr (JInt 0))"
    unfolding parse_document_iff using v t by (simp_all add: MAX_KB_JSON_BYTES_def) (metis append_Nil append_Nil2 ws_simps(1))+
qed


theorem json_reader_total_witness:
  "\<exists>v. parse_document [123, 34, 97, 34, 58, 49, 125] = Some (Inr v) \<and> json_get v [97] = Some (JInt 1)"
proof -
  let ?doc = "[123, 34, 97, 34, 58, 49, 125] :: nat list" and ?v = "JObj [([97], JInt 1)]"
  have s: "string_text [97] [97]"
    using string_text.plain[of "[97]" 97 "[]" "[]"] string_text.empty by (simp add: utf8_step_def)
  have "int_text [49] 1" unfolding int_text_def
    by (auto simp: i64_range_def ascii_digit_def digits_value_def intro!: exI[of _ "[49]"])
  then have "members 1 [([97], JInt 1)] [34, 97, 34, 58, 49]"
    using m_one[of "[]" "[97]" "[97]" "[]" "[]" 1 "JInt 1" "[49]" "[]"] s by (simp add: t_int)
  then have "json_text 0 ?v ?doc" using t_obj[of 0 "[([97], JInt 1)]" "[34, 97, 34, 58, 49]"] by (simp add: MAX_DEPTH_def)
  moreover have "utf8_valid ?doc" by (simp add: utf8_valid.simps utf8_step_def)
  ultimately have p: "parse_document ?doc = Some (Inr ?v)"
    unfolding parse_document_iff by (simp add: MAX_KB_JSON_BYTES_def) (metis append_Nil append_Nil2 ws_simps(1))
  with json_reader_total[of ?doc] have "json_get ?v [97] = Some (JInt 1)" by auto
  with p show ?thesis by blast
qed

end
