(* ===== verification/Spec2Isabelle.thy ===== *)
theory Spec2Isabelle
  imports Kernel_Rules Decimal_Math Settle_Bundle_Check Regime_Runs Sat_Bisim
    Elab_Tree_Proof Syntax_Tokens KB_Persistent KB_Json_Grammar
begin

text \<open>
  A verification development for brixms, a Rust workspace with a small proof kernel, content-addressed
  semantic artifacts and a settlement engine. All paths are under \<open>src/crates/\<close>.

  \<^bold>\<open>The parts and how they interact.\<close> \<open>brix-canon\<close> fixes one canonical byte encoding for every
  value that is hashed. \<open>brix-semantic\<close> defines identities as hashes of such encodings, outcomes with
  the authority allowed to publish each, judgements and the evidence they carry. \<open>brix-kernel\<close> is the
  only authority for \<open>Proven\<close>: a bidirectional checker for explicit proof terms within a budget.
  \<open>soc-core\<close> is the settlement engine, the authority for \<open>Derived\<close>: providers enumerate candidate
  steps, an admissibility policy filters them, a tick commits the candidate with the least key,
  publishes a \<open>Derived\<close> judgement through the fence of \<open>brix-semantic\<close> and logs the step in a
  hash-chained journal. The audit replays the recorded decomposition of a step and publishes
  \<open>Audited\<close>; receipts and bundles carry the inputs of an audit to another verifier.

  \<^bold>\<open>Canonical encodings.\<close> \<open>Canon_Int\<close>: \<open>brix-canon/src/int_codec.rs\<close>, the integer codecs, their round
  trips and order. \<open>Canon_Writer\<close>: writer, reader, domains and digests of \<open>lib.rs\<close>; sets, maps and
  bags depend on their elements only. \<open>Canon_Decimal\<close>, \<open>Decimal_Math\<close>: \<open>decimal.rs\<close>,
  \<open>decimal_math.rs\<close>, \<open>quantity.rs\<close>, with exact arithmetic and byte order equal to numeric order.
  \<open>Canon_Seq\<close>: sequences of reads and how exactness composes. The hash function is a parameter
  \<open>blake3\<close>, Unicode normalisation a parameter \<open>nfc\<close>; both are code outside the repository.

  \<^bold>\<open>Semantic artifacts.\<close> \<open>Semantic_Ids\<close>: identities, outcomes, evidence, judgements (\<open>id.rs\<close>,
  \<open>context.rs\<close>, \<open>witness.rs\<close>, \<open>generator.rs\<close>, \<open>realizes.rs\<close>, \<open>outcome.rs\<close>, \<open>evidence.rs\<close>,
  \<open>dependency.rs\<close>, \<open>judgement.rs\<close>). \<open>Semantic_Artifacts\<close>: declared relations, decompositions and
  derivation trees (\<open>generator_semantics.rs\<close>, \<open>decomposition.rs\<close>, \<open>tree.rs\<close>, \<open>quiescent.rs\<close>) and what
  their verifiers establish. \<open>Semantic_Publication\<close>: the fence of \<open>publication.rs\<close> against a
  specification that does not mention the route table.

  \<^bold>\<open>The kernel.\<close> \<open>Kernel_Term\<close>: \<open>term.rs\<close>. \<open>Kernel_Prim\<close>: \<open>prim_schema.rs\<close>, \<open>prim_registry.rs\<close>,
  the numeric tower and the arithmetic typing rows. \<open>Kernel_Cert\<close>: \<open>certificate.rs\<close>. \<open>Kernel_Check\<close>:
  \<open>check.rs\<close>, \<open>verdict.rs\<close>; the checker is a recursion on proof terms with the source's step and depth
  counters in its state. \<open>Kernel_Rules\<close>: a declarative calculus as inductive rules, the proof that the
  checker decides it, and the budget that always suffices (two steps per node, two depth units per
  level).

  \<^bold>\<open>Settlement.\<close> \<open>Ordered_Map\<close>: the laws of a \<open>BTreeMap\<close> as a locale and the sorted association list
  that implements them. \<open>Settle_Core\<close>: \<open>intern.rs\<close>, \<open>history.rs\<close>, \<open>exec.rs\<close>,
  \<open>witness_provider.rs\<close>, \<open>adm.rs\<close>, \<open>cost.rs\<close>, \<open>oracle.rs\<close>. \<open>Settle_Calendar\<close>: \<open>calendar.rs\<close>, the
  frontier and its undo log against the copying reference. \<open>Settle_Commit\<close>: \<open>commit.rs\<close>,
  \<open>journal.rs\<close>; a tick against the oracle, and the transition system \<open>settles\<close> that a run follows.
  \<open>Settle_Journal\<close>: what a run leaves in its journal and what the chain digest determines.
  \<open>Settle_Audit\<close>: \<open>audit.rs\<close>, \<open>audit_receipt.rs\<close>. \<open>Settle_Bundle\<close>, \<open>Settle_Bundle_Codec\<close>,
  \<open>Settle_Bundle_Check\<close>: \<open>audit_bundle.rs\<close>, its decoder with the shared counters, the agreement of
  decoder and encoder, and the check. This theory follows one run through all of them.
  \<open>Settle_Engine\<close>: \<open>delta.rs\<close>, \<open>engine.rs\<close>, the incremental view of the candidates, with the
  interface \<open>witness_index\<close> the engine expects of its providers.

  \<^bold>\<open>Regimes.\<close> \<open>Regime_Literal\<close>, \<open>Regime_Frontier\<close>: \<open>soc-regimes/src/literal.rs\<close> and
  \<open>finite_frontier.rs\<close>, the two providers; the deliberation over a pool of named candidates and its
  explanations, every answer of which is decided by it. \<open>Regime_Engine\<close>: both as instances of \<open>witness_index\<close>, the engine's view against the
  oracle and the cost of a step. \<open>Regime_Runs\<close>: their runs in the settlement loop and the audit of
  these.

  \<^bold>\<open>Saturation\<close> (\<open>soc-core/src/saturate/\<close>). \<open>Sat_Step\<close>: observation profiles, the saturated step with its visited
  states, the close of a lasso (\<open>mod.rs\<close>). \<open>Sat_Sound\<close>: ticks as a relation, administrative paths, divergence
  as a coinductive predicate, the claim of each answer and the invariant of the loop. \<open>Sat_Runs\<close>: the step returns,
  is sound, finds what its budget reaches, and its divergence is divergence for presentations that
  read world and policy only. \<open>Sat_Certificate\<close>: \<open>certificate.rs\<close>, codecs and the independent checks. \<open>Sat_Driver\<close>:
  \<open>driver.rs\<close>, \<open>adequacy.rs\<close>, \<open>closure.rs\<close>; a saturated run as a refinement of the run of ticks, what its
  stop and its adequacy report say of the last ticks (each reason to give up is true of them), and what a closed
  predicate holds of. \<open>Sat_Bisim\<close>: \<open>bisimulation.rs\<close>, the comparison against a coinductive agreement.
  The budgets of the source bound every loop, so each is a recursion with a measure.

  \<^bold>\<open>Elaboration\<close> (\<open>brix-elaborate\<close>), the only way from \<open>Audited\<close> evidence to a \<open>Proven\<close> judgement. \<open>Elab_Proof\<close>: which
  terms the checker accepts, as composable facts. \<open>Elab_Decomposition\<close>: \<open>lib.rs\<close>, the implication and the proof term
  of a decomposition, with the boundary edge; a run's audited steps become theorems within three steps and two
  depth units per generator. \<open>Elab_Tree\<close>: the trees of \<open>lib.rs\<close> and \<open>tree_proof.rs\<close>, the classification of leaves against the
  primitive registry, the emitted term and the verification of an untrusted one. \<open>Elab_Tree_Proof\<close>: verified trees
  elaborate, the verifier accepts precisely the canonical constructions, and an elaborated proof rechecks.

  \<^bold>\<open>The lexer\<close> (\<open>brix-syntax\<close>). \<open>Syntax_Lexer\<close>: \<open>lexer.rs\<close> and \<open>limits.rs\<close>, the characters left instead of an index, a
  recursion whose measure is their number. \<open>Syntax_Tokens\<close>: spellings and trivia; what is accepted is spelled by its
  tokens at their positions, separated spellings read back, limits refuse and change nothing.

  \<^bold>\<open>The knowledge base's data structures\<close> (\<open>brix-kb\<close>). \<open>KB_Persistent\<close>: \<open>world/persistent.rs\<close>, the persistent AVL maps and
  sets, as an implementation of the ordered maps of \<open>Ordered_Map\<close>; the depth of a lookup. \<open>KB_Json\<close>: \<open>strict_json.rs\<close>, the
  strict reader on bytes, with fuel: twice the length of the document and one more, of which each value and
  each list step uses one, so that it is never exhausted. \<open>KB_Json_Grammar\<close>: the grammar as inductive rules, accepted
  exactly; the reader returns on every input.

  \<^bold>\<open>Conventions.\<close> Rust's \<open>usize\<close> and lengths are \<open>nat\<close> with the 64-bit bound written out where code
  tests it and the wrap-around written out where an input reaches it (\<open>usize_add\<close>, the indices of a
  substitution); \<open>u64\<close>, \<open>u32\<close> and \<open>u8\<close> are words; a digest is a byte list and \<open>wf_digest\<close> says that it has
  32 bytes, \<open>fits\<close> that a buffer has a length a machine word can hold. A \<open>Result\<close> is a sum with the
  error on the left, a panic of a driver is \<open>None\<close>. A trait object is the record of its methods, an
  \<open>FnMut\<close> a function with an explicit state. Every loop is a recursion on data or with a
  measure, but for the JSON reader's mutual recursion.

  \<^bold>\<open>Not modelled.\<close> Floating point (\<open>float.rs\<close>, \<open>strict_ieee.rs\<close>), the pinned constant table
  (\<open>prim_pinned.rs\<close>), the other regimes of \<open>soc-regimes\<close>, the file stores, the parser of
  \<open>brix-syntax\<close>, \<open>brix-lower\<close>, the sessions, network and persistence of \<open>brix-kb\<close>, and \<open>brix-cli\<close>: input and output,
  platform arithmetic, or left for later.
\<close>

section \<open>A run carried to another verifier\<close>

text \<open>The digests of a step are digests, and so are those of its material.\<close>

lemma material_of_wf: "step_wf st \<Longrightarrow> material_wf (material_of st)"
  by (simp add: step_wf_def material_wf_def material_of_def decomposition_wf_def)

lemma length_concat_framed: "x \<in> set xs \<Longrightarrow> length x \<le> length (concat (map framed xs))"
proof (induction xs)
  case (Cons y ys)
  then show ?case by (auto simp: framed_def)
qed simp

lemma length_concat_count: "length xs \<le> length (concat (map framed xs))"
proof (induction xs)
  case (Cons y ys)
  have "1 \<le> length (framed y)" using length_uint_bytes[of "ucast (word_of_nat (length y) :: u64)"] by (simp add: framed_def len_bytes_def)
  then show ?case using Cons by simp
qed simp

lemma produced_entries_wf:
  assumes "producer_entries blake3 ctx registry sem lm i sts h = Inr (es, h')"
    and "\<And>x. wf_digest (blake3 x)" and "wf_digest (hdigest h)" and "list_all step_wf sts"
  shows "list_all (\<lambda>e. wf_digest (prefix_digest e) \<and> material_wf (ematerial e)) es"
  using assms(1,3,4)
proof (induction sts arbitrary: i h es)
  case (Cons st sts)
  then obtain e es' where "es = e # es'" "prefix_digest e = hdigest h" "ematerial e = material_of st"
    "producer_entries blake3 ctx registry sem lm (i + 1) sts (history_append blake3 h (canon_bytes (canon_write_step st))) = Inr (es', h')"
    by (auto simp: Let_def and_then_Inr split: audit_result.splits if_splits prod.splits)
  moreover have "wf_digest (hdigest (history_append blake3 h (canon_bytes (canon_write_step st))))"
    using assms(2) by (simp add: history_append_def writer_digest_def digest_of_def)
  ultimately show ?case using Cons.IH Cons.prems(2,3) material_of_wf by auto
qed simp

lemma bundle_wf_of_bytes:
  assumes "fits (bundle_bytes b)" "wf_digest (bcontext b)" "wf_digest (final_chain_digest b)" "ordinals_from 0 (bentries b)"
    "list_all (\<lambda>e. wf_digest (prefix_digest e) \<and> material_wf (ematerial e)) (bentries b)"
  shows "bundle_wf b"
proof -
  let ?c = "concat (map framed (map entry_bytes (bentries b)))"
  have c: "length ?c < 2 ^ 64" using assms(1) by (simp add: bundle_bytes_def fits_def)
  have "fits (entry_bytes e)" "fits (ereceipt_bytes e)" if "e \<in> set (bentries b)" for e
  proof -
    have "length (entry_bytes e) \<le> length ?c" using that by (intro length_concat_framed) simp
    then show "fits (entry_bytes e)" "fits (ereceipt_bytes e)" using c by (simp_all add: fits_def entry_bytes_def framed_def)
  qed
  moreover have "length (bentries b) < 2 ^ 64" using c length_concat_count[of "map entry_bytes (bentries b)"] by simp
  ultimately show ?thesis using assms by (simp add: bundle_wf_def list_all_iff entry_wf_def)
qed

text \<open>
  C3. A settlement run carried to another verifier: when a run's steps carry 32-byte digests, the
  declared semantics covers exactly the generators of the registry (\<open>require_matches_registry\<close>), and the
  producer emits a bundle for its journal that the encoder writes under usable limits, the bytes of that
  bundle decode to the same bundle, and the verifier accepts it with one receipt per committed step; the
  transported steps are the steps of the run. Without the condition on the registry the producer can
  emit a bundle that the verifier refuses.
\<close>

theorem transported_run_checks:
  assumes "run_reason blake3 ps adm it e0 ctx (pure_keyer kf) () max_ticks = Some (j, costs, stop)"
    and "list_all step_wf (jsteps j)"
    and "produce_audit_input_bundle_with_limits blake3 j ctx registry sem lm = Inr b"
    and "encode_audit_input_bundle b lm = Inr bs" and "fits bs"
    and "limits_ok lm" and "\<And>x. wf_digest (blake3 x)" and "wf_digest ctx" and "require_matches_registry sem registry = Inr ()"
  shows "decode_audit_input_bundle bs lm = Inr b \<and> steps_of (bentries b) (jsteps j) \<and>
    (\<exists>ids. check_audit_input_bundle blake3 b registry sem lm = Inr ids \<and> length ids = length costs)"
proof -
  obtain es h where p: "producer_scan lm 0 (jsteps j) 0 = Inr ()"
    "producer_entries blake3 ctx registry sem lm 0 (jsteps j) (history_empty blake3) = Inr (es, h)"
    "b = \<lparr>bcontext = ctx, bentries = es, final_chain_digest = hdigest h\<rparr>"
    using assms(3) by (auto simp: produce_audit_input_bundle_with_limits_def and_then_Inr Let_def split: if_splits prod.splits)
  note e = producer_entries_Inr[OF p(2) producer_scan_lengths[OF p(1)]]
  have "h = fold (chain_append blake3) (jsteps j) (history_empty blake3)" using e by blast
  then have h: "wf_digest (hdigest h)" using chain_head_digest[OF assms(7)] by (simp add: fold_chain_head)
  have "wf_digest (hdigest (history_empty blake3))" using assms(7) by (simp add: history_empty_def digest_of_def)
  then have es: "list_all (\<lambda>e. wf_digest (prefix_digest e) \<and> material_wf (ematerial e)) es"
    using produced_entries_wf[OF p(2) assms(7)] assms(2) by blast
  have bs: "bs = bundle_bytes b" "bundle_within lm b"
    using assms(4,6) by (auto simp: encode_audit_input_bundle_def and_then_Inr canon_bytes_bundle validate_limits_iff)
  have "bundle_wf b" using bundle_wf_of_bytes[of b] assms(5,8) bs h es e p(3) by simp
  then have "decode_audit_input_bundle bs lm = Inr b" using decode_exact[OF assms(6,5)] bs by blast
  moreover have "length costs = length (jsteps j)" using run_settles_fold[OF assms(1)] by blast
  ultimately show ?thesis using produced_checks[OF assms(3,7-9)] by simp
qed

definition zero_provider :: settlement_provider where
  "zero_provider = \<lparr>sp_candidates = (\<lambda>e. [\<lparr>cwitness = 0, successor = 0\<rparr>]),
     sp_decompose = (\<lambda>e c. Inr \<lparr>generators = [zero], configs = [zero, zero], verification = Recorded\<rparr>)\<rparr>"

definition zero_interner :: interner where
  "zero_interner = snd (intern interner_new zero)"

lemma zero_run:
  "run_reason (\<lambda>_. zero) [zero_provider] AdmAll zero_interner \<lparr>world = 0, policy = 0, ehistory = zero\<rparr> zero
     (pure_keyer (\<lambda>c ph. Key 0 1 zero)) () 1 = Some (demo_journal, [Steps 2], TickBudgetExhausted 1)"
proof -
  have r: "try_resolve zero_interner 0 = Some zero"
    by (simp add: zero_interner_def intern_def interner_new_def Let_def try_resolve_def bt_get_def)
  have c: "compose_chain (\<lambda>_. zero) [zero] = Some zero" by simp
  have "try_commit_tick (\<lambda>_. zero) [zero_provider] AdmAll zero_interner \<lparr>world = 0, policy = 0, ehistory = zero\<rparr> zero 0
     (pure_keyer (\<lambda>c ph. Key 0 1 zero)) () = (Inr (Step \<lparr>outcome_class = Derived, judgement_digest = zero\<rparr>
       (apply_candidate (\<lambda>_. zero) \<lparr>world = 0, policy = 0, ehistory = zero\<rparr> \<lparr>cwitness = 0, successor = 0\<rparr>),
       Some demo_step, Steps 2), ())"
    by (simp add: try_commit_tick_def zero_provider_def AdmAll_def tick_new_def frontier_insert_def bt_get_def select_least_def
        Let_def try_commit_selected_def r c publish_derived map_err_def prospective_successor_def judgement_id_def id_of_def
        from_canon_def digest_of_def) (simp add: demo_step_def zero_def Let_def)
  then show ?thesis by (simp add: run_reason_def commit_tick_def demo_journal_def)
qed

theorem transported_run_checks_witness:
  "\<exists>bs ids. encode_audit_input_bundle demo_bundle strict_limits = Inr bs \<and>
     decode_audit_input_bundle bs strict_limits = Inr demo_bundle \<and>
     check_audit_input_bundle (\<lambda>_. zero) demo_bundle [zero] [(zero, Diagonal)] strict_limits = Inr ids \<and> length ids = 1"
proof -
  have lm: "limits_ok strict_limits" by (simp add: limits_ok_def strict_limits_def USIZE_BOUND_def)
  have enc: "encode_audit_input_bundle demo_bundle strict_limits = Inr (bundle_bytes demo_bundle)"
    using demo_bundle_within by (simp add: encode_audit_input_bundle_def validate_limits_iff[OF lm, symmetric] canon_bytes_bundle)
  have "fits (bundle_bytes demo_bundle)"
    using demo_bundle_within by (simp add: bundle_within_def fits_def strict_limits_def)
  moreover have "list_all step_wf (jsteps demo_journal)" by (simp add: demo_journal_def demo_step_wf)
  ultimately show ?thesis
    using transported_run_checks[OF zero_run _ demo_produced enc _ lm zero_wf zero_wf demo_matches] enc by auto
qed

end
